(* ===== verification/Prelude.thy ===== *)
theory Prelude
  imports Main "HOL-Library.Word" "HOL-Library.Monad_Syntax"
begin

text \<open>
  Shared vocabulary of the development.

  The C++ integer types of \<open>include/comserv/comtypedef.h\<close> are words of their width
  where the code relies on wrap-around, bit operations or sign extension. An operation that
  may touch freed or unallocated memory, or that falls off the end of a non-void function,
  returns an \<open>option\<close>: \<open>None\<close> is undefined behaviour, \<open>Some (r, s)\<close> the
  result together with the new state. The collections below gather the rewrite rules that the
  component theories feed to the simplifier.
\<close>

type_synonym UINT = "32 word"
type_synonym UINT64 = "64 word"
type_synonym BYTE = "8 word"
type_synonym CHAR8 = "8 word"

text \<open>Addresses of heap nodes; \<open>NULL\<close> is address 0.\<close>

type_synonym addr = nat

abbreviation (input) NULL :: addr where
  "NULL \<equiv> 0"

named_theorems heap_simps "field reads after field writes on the node heap"
named_theorems ring_simps "doubly linked rings under insertion and removal of a node"

lemma hd_snoc_nth: "hd (xs @ [t]) = (xs @ [t]) ! 0"
  by (cases xs) auto

lemma bind_Some_iff:
  "(x \<bind> f = Some r) \<longleftrightarrow> (\<exists>a. x = Some a \<and> f a = Some r)"
  by (cases x) auto

text \<open>A list without the element at position \<open>j\<close>.\<close>

lemma distinct_middle: "distinct (xs @ x # ys) \<Longrightarrow> distinct (xs @ ys) \<and> x \<notin> set (xs @ ys)"
  by auto

lemma nth_without:
  "j < length xs \<Longrightarrow> i < length xs - 1 \<Longrightarrow>
   (take j xs @ drop (Suc j) xs) ! i = (if i < j then xs ! i else xs ! Suc i)"
  by (auto simp: nth_append min_def)

lemma distinct_without:
  assumes "distinct xs" and "j < length xs"
  shows "distinct (take j xs @ drop (Suc j) xs)" "xs ! j \<notin> set (take j xs @ drop (Suc j) xs)"
    "take j xs @ drop (Suc j) xs = filter (\<lambda>x. x \<noteq> xs ! j) xs"
proof -
  have *: "xs = take j xs @ xs ! j # drop (Suc j) xs" by (rule id_take_nth_drop [OF assms(2)])
  have "distinct (take j xs @ xs ! j # drop (Suc j) xs)" using assms(1) * by simp
  from distinct_middle [OF this]
  show d: "distinct (take j xs @ drop (Suc j) xs)" "xs ! j \<notin> set (take j xs @ drop (Suc j) xs)" by auto
  have "filter (\<lambda>x. x \<noteq> xs ! j) (take j xs) = take j xs" "filter (\<lambda>x. x \<noteq> xs ! j) (drop (Suc j) xs) = drop (Suc j) xs"
    by (rule filter_True, use d(2) in auto)+
  then have "filter (\<lambda>x. x \<noteq> xs ! j) (take j xs @ xs ! j # drop (Suc j) xs) = take j xs @ drop (Suc j) xs" by simp
  then show "take j xs @ drop (Suc j) xs = filter (\<lambda>x. x \<noteq> xs ! j) xs" using * by simp
qed

end
