(* ===== verification/NodeStore.thy ===== *)
theory NodeStore
  imports Prelude
begin

text \<open>
  The node store shared by the two linked containers of the platform, \<open>CList\<close>
  (\<open>include/comserv/clist.h\<close>) and \<open>CExpireBuffer\<close>
  (\<open>include/comserv/cexpirebuffer.h\<close>). Both allocate nodes with a value and two link
  fields and arrange them in a ring closed by one sentinel, the tag node. Memory is explicit:
  \<open>heap\<close> maps the allocated addresses to nodes and \<open>brk\<close> bounds them, so that a
  read, a write or a \<open>delete\<close> through a stale pointer is visible as \<open>None\<close>.
  Addresses are never handed out twice, which makes every use after free observable.
\<close>

section \<open>Nodes and the containers' common fields\<close>

text \<open>
  The value of the tag node is never set (indeterminate for the scalar and pointer types the platform
  stores); it is written \<open>None\<close>, and reading it is undefined.
\<close>

record 'v node =
  m_value :: "'v option"
  m_prev :: addr
  m_next :: addr

type_synonym 'v nheap = "addr \<Rightarrow> 'v node option"

record 'v dll =
  heap :: "'v nheap"
  brk :: addr
  m_pHead :: addr
  m_pTail :: addr
  m_pCurrent :: addr
  m_pTag :: addr
  m_count :: int

section \<open>Loads, stores, new and delete\<close>

definition upd_next :: "'v nheap \<Rightarrow> addr \<Rightarrow> addr \<Rightarrow> 'v nheap" where
  "upd_next h p q = h(p := map_option (\<lambda>n. n\<lparr>m_next := q\<rparr>) (h p))"

definition upd_prev :: "'v nheap \<Rightarrow> addr \<Rightarrow> addr \<Rightarrow> 'v nheap" where
  "upd_prev h p q = h(p := map_option (\<lambda>n. n\<lparr>m_prev := q\<rparr>) (h p))"

definition upd_value :: "'v nheap \<Rightarrow> addr \<Rightarrow> 'v option \<Rightarrow> 'v nheap" where
  "upd_value h p v = h(p := map_option (\<lambda>n. n\<lparr>m_value := v\<rparr>) (h p))"

definition load :: "('v, 'z) dll_scheme \<Rightarrow> addr \<Rightarrow> 'v node option" where
  "load l p = heap l p"

definition set_next :: "('v, 'z) dll_scheme \<Rightarrow> addr \<Rightarrow> addr \<Rightarrow> ('v, 'z) dll_scheme option" where
  "set_next l p q = (if heap l p = None then None else Some (l\<lparr>heap := upd_next (heap l) p q\<rparr>))"

definition set_prev :: "('v, 'z) dll_scheme \<Rightarrow> addr \<Rightarrow> addr \<Rightarrow> ('v, 'z) dll_scheme option" where
  "set_prev l p q = (if heap l p = None then None else Some (l\<lparr>heap := upd_prev (heap l) p q\<rparr>))"

definition set_value :: "('v, 'z) dll_scheme \<Rightarrow> addr \<Rightarrow> 'v option \<Rightarrow> ('v, 'z) dll_scheme option" where
  "set_value l p v = (if heap l p = None then None else Some (l\<lparr>heap := upd_value (heap l) p v\<rparr>))"

definition new_node :: "('v, 'z) dll_scheme \<Rightarrow> 'v option \<Rightarrow> addr \<Rightarrow> addr \<Rightarrow> addr \<times> ('v, 'z) dll_scheme" where
  "new_node l v p q =
     (brk l, l\<lparr>heap := (heap l)(brk l \<mapsto> \<lparr>m_value = v, m_prev = p, m_next = q\<rparr>),
               brk := Suc (brk l)\<rparr>)"

definition delete_node :: "('v, 'z) dll_scheme \<Rightarrow> addr \<Rightarrow> ('v, 'z) dll_scheme option" where
  "delete_node l p = (if heap l p = None then None else Some (l\<lparr>heap := (heap l)(p := None)\<rparr>))"

section \<open>Field views of a heap\<close>

definition nxt :: "'v nheap \<Rightarrow> addr \<Rightarrow> addr option" where
  "nxt h p = map_option m_next (h p)"

definition prv :: "'v nheap \<Rightarrow> addr \<Rightarrow> addr option" where
  "prv h p = map_option m_prev (h p)"

definition val :: "'v nheap \<Rightarrow> addr \<Rightarrow> 'v option" where
  "val h p = (case h p of None \<Rightarrow> None | Some n \<Rightarrow> m_value n)"

lemma upd_dom [heap_simps]:
  "(upd_next h p q a = None) = (h a = None)"
  "(upd_prev h p q a = None) = (h a = None)"
  "(upd_value h p v a = None) = (h a = None)"
  by (auto simp: upd_next_def upd_prev_def upd_value_def)

lemma nxt_upd [heap_simps]:
  "nxt (upd_next h p q) a = (if a = p \<and> h p \<noteq> None then Some q else nxt h a)"
  "nxt (upd_prev h p q) a = nxt h a"
  "nxt (upd_value h p v) a = nxt h a"
  "nxt (h(p \<mapsto> n)) a = (if a = p then Some (m_next n) else nxt h a)"
  "nxt (h(p := None)) a = (if a = p then None else nxt h a)"
  by (auto simp: nxt_def upd_next_def upd_prev_def upd_value_def option.map_comp comp_def)

lemma prv_upd [heap_simps]:
  "prv (upd_prev h p q) a = (if a = p \<and> h p \<noteq> None then Some q else prv h a)"
  "prv (upd_next h p q) a = prv h a"
  "prv (upd_value h p v) a = prv h a"
  "prv (h(p \<mapsto> n)) a = (if a = p then Some (m_prev n) else prv h a)"
  "prv (h(p := None)) a = (if a = p then None else prv h a)"
  by (auto simp: prv_def upd_next_def upd_prev_def upd_value_def option.map_comp comp_def)

lemma val_upd [heap_simps]:
  "val (upd_value h p v) a = (if a = p \<and> h p \<noteq> None then v else val h a)"
  "val (upd_next h p q) a = val h a"
  "val (upd_prev h p q) a = val h a"
  "val (h(p \<mapsto> n)) a = (if a = p then m_value n else val h a)"
  "val (h(p := None)) a = (if a = p then None else val h a)"
  by (auto simp: val_def upd_next_def upd_prev_def upd_value_def split: option.splits)

section \<open>Doubly linked paths and the ring closed by the tag node\<close>

text \<open>
  \<open>dpath nx pv a xs b\<close>: following the next field from \<open>a\<close> visits \<open>xs\<close> and
  arrives at \<open>b\<close>, and every prev field on the way points back.
\<close>

fun dpath :: "(addr \<Rightarrow> addr option) \<Rightarrow> (addr \<Rightarrow> addr option) \<Rightarrow> addr \<Rightarrow> addr list \<Rightarrow> addr \<Rightarrow> bool" where
  "dpath nx pv a [] b = (nx a = Some b \<and> pv b = Some a)"
| "dpath nx pv a (x # xs) b = (nx a = Some x \<and> pv x = Some a \<and> dpath nx pv x xs b)"

lemma dpath_append:
  "dpath nx pv a (xs @ y # ys) b = (dpath nx pv a xs y \<and> dpath nx pv y ys b)"
  by (induction xs arbitrary: a) auto

lemma dpath_cong:
  "(\<And>x. x \<in> set (a # xs) \<Longrightarrow> nx' x = nx x) \<Longrightarrow> (\<And>x. x \<in> set (xs @ [b]) \<Longrightarrow> pv' x = pv x) \<Longrightarrow>
   dpath nx' pv' a xs b = dpath nx pv a xs b"
  by (induction xs arbitrary: a) auto

lemma dpath_hd: "dpath nx pv a xs b \<Longrightarrow> nx a = Some (hd (xs @ [b])) \<and> pv (hd (xs @ [b])) = Some a"
  by (cases xs) auto

lemma dpath_last:
  "dpath nx pv a xs b \<Longrightarrow> pv b = Some (last (a # xs)) \<and> nx (last (a # xs)) = Some b"
  by (induction xs arbitrary: a) auto

text \<open>A ring: the tag node \<open>t\<close> and the member nodes \<open>xs\<close>, all distinct.\<close>

definition ring :: "'v nheap \<Rightarrow> addr \<Rightarrow> addr list \<Rightarrow> bool" where
  "ring h t xs \<longleftrightarrow> dpath (nxt h) (prv h) t xs t \<and> distinct (t # xs)"

text \<open>The two surgeries every operation is made of.\<close>

lemma dpath_retarget:
  "dpath nx pv a xs b \<Longrightarrow> distinct (a # xs) \<Longrightarrow> c \<notin> set xs \<Longrightarrow>
   \<forall>y\<in>set (a # xs). nx' y = (if y = last (a # xs) then Some c else nx y) \<Longrightarrow>
   \<forall>y\<in>set xs. pv' y = pv y \<Longrightarrow> pv' c = Some (last (a # xs)) \<Longrightarrow>
   dpath nx' pv' a xs c"
proof (induction xs arbitrary: a)
  case Nil
  then show ?case by simp
next
  case (Cons x xs)
  have "a \<noteq> last (x # xs)"
    using Cons.prems(2) by (metis distinct.simps(2) last_in_set list.discI)
  then have "nx' a = nx a" using Cons.prems(4) by simp
  moreover have "dpath nx' pv' x xs c"
    by (rule Cons.IH) (use Cons.prems in auto)
  ultimately show ?case using Cons.prems by simp
qed

lemma dpath_unlink:
  assumes path: "dpath nx pv t (xs @ x # ys) t" and dist: "distinct (t # xs @ x # ys)"
    and p: "p = last (t # xs)" and n: "n = hd (ys @ [t])"
    and nx': "\<forall>a. a \<noteq> x \<longrightarrow> nx' a = (if a = p then Some n else nx a)"
    and pv': "\<forall>a. a \<noteq> x \<longrightarrow> pv' a = (if a = n then Some p else pv a)"
  shows "dpath nx' pv' t (xs @ ys) t"
proof -
  have l: "dpath nx pv t xs x" and r: "dpath nx pv x ys t"
    using path by (auto simp: dpath_append)
  have pin: "p \<in> set (t # xs)" unfolding p by (metis last_in_set list.discI)
  have nx_ne: "n \<notin> set xs" "n \<noteq> x" and xin: "x \<notin> set (t # xs)"
    using dist unfolding n by (cases ys; auto)+
  have L: "dpath nx' pv' t xs n"
  proof (rule dpath_retarget [OF l])
    show "\<forall>y\<in>set (t # xs). nx' y = (if y = last (t # xs) then Some n else nx y)"
      using nx' xin unfolding p by metis
    show "\<forall>y\<in>set xs. pv' y = pv y" using pv' nx_ne xin by (metis list.set_intros(2))
    show "pv' n = Some (last (t # xs))" using pv' nx_ne p by simp
  qed (use dist nx_ne in auto)
  show ?thesis
  proof (cases ys)
    case Nil
    then show ?thesis using L n by simp
  next
    case (Cons y ys')
    have "dpath nx' pv' y ys' t = dpath nx pv y ys' t"
    proof (rule dpath_cong)
      fix z assume "z \<in> set (y # ys')"
      then have "z \<noteq> x" "z \<noteq> p" using dist pin Cons by auto
      then show "nx' z = nx z" using nx' by simp
    next
      fix z assume "z \<in> set (ys' @ [t])"
      then have "z \<noteq> x" "z \<noteq> n" using dist Cons n by auto
      then show "pv' z = pv z" using pv' by simp
    qed
    then show ?thesis using L Cons r n by (simp add: dpath_append)
  qed
qed

lemma dpath_link_in:
  assumes path: "dpath nx pv t (xs @ ys) t" and dist: "distinct (t # xs @ ys)"
    and fresh: "x \<notin> set (t # xs @ ys)"
    and p: "p = last (t # xs)" and n: "n = hd (ys @ [t])"
    and nx': "\<forall>a. nx' a = (if a = x then Some n else if a = p then Some x else nx a)"
    and pv': "\<forall>a. pv' a = (if a = x then Some p else if a = n then Some x else pv a)"
  shows "dpath nx' pv' t (xs @ x # ys) t"
proof -
  have pin: "p \<in> set (t # xs)" unfolding p by (metis last_in_set list.discI)
  have nin: "n \<notin> set xs" "n \<noteq> x" "p \<noteq> x"
    using dist fresh pin unfolding n by (cases ys; auto)+
  have l: "dpath nx pv t xs n" using path n by (cases ys) (auto simp: dpath_append)
  have L: "dpath nx' pv' t xs x"
  proof (rule dpath_retarget [OF l])
    show "\<forall>y\<in>set (t # xs). nx' y = (if y = last (t # xs) then Some x else nx y)"
      using nx' fresh unfolding p by auto
    show "\<forall>y\<in>set xs. pv' y = pv y" using pv' nin fresh by auto
    show "pv' x = Some (last (t # xs))" using pv' p by simp
  qed (use dist fresh in auto)
  have R: "dpath nx' pv' x ys t"
  proof (cases ys)
    case Nil
    then show ?thesis using nx' pv' n nin by simp
  next
    case (Cons y ys')
    have "dpath nx' pv' y ys' t = dpath nx pv y ys' t"
    proof (rule dpath_cong)
      fix z assume "z \<in> set (y # ys')"
      then have "z \<noteq> x" "z \<noteq> p" using dist fresh pin Cons by auto
      then show "nx' z = nx z" using nx' by simp
    next
      fix z assume "z \<in> set (ys' @ [t])"
      then have "z \<noteq> x" "z \<noteq> n" using dist fresh Cons n by auto
      then show "pv' z = pv z" using pv' by simp
    qed
    moreover have "nx' x = Some y" "pv' y = Some x" using nx' pv' n nin Cons by auto
    ultimately show ?thesis using Cons path by (simp add: dpath_append)
  qed
  from L R show ?thesis by (simp add: dpath_append)
qed

section \<open>The representation invariant of the linked containers\<close>

text \<open>
  \<open>dll_inv l as\<close>: the members \<open>as\<close> form a ring with the tag node, head, tail and
  count agree with it, and nothing else is allocated (no leak).
\<close>

definition dll_inv :: "('v, 'z) dll_scheme \<Rightarrow> addr list \<Rightarrow> bool" where
  "dll_inv l as \<longleftrightarrow> ring (heap l) (m_pTag l) as \<and>
     (\<forall>a. heap l a \<noteq> None \<longleftrightarrow> a \<in> set (m_pTag l # as)) \<and>
     (\<forall>a\<in>set (m_pTag l # as). NULL < a \<and> a < brk l) \<and>
     m_pHead l = hd (as @ [m_pTag l]) \<and> m_pTail l = last (m_pTag l # as) \<and>
     m_count l = int (length as)"

lemma dll_invD:
  assumes "dll_inv l as"
  shows "dpath (nxt (heap l)) (prv (heap l)) (m_pTag l) as (m_pTag l)"
    and "distinct (m_pTag l # as)"
    and "a \<in> set (m_pTag l # as) \<Longrightarrow> heap l a \<noteq> None"
    and "a \<in> set (m_pTag l # as) \<Longrightarrow> a \<noteq> NULL"
    and "a \<in> set (m_pTag l # as) \<Longrightarrow> a \<noteq> brk l"
    and "m_pHead l = hd (as @ [m_pTag l])" and "m_pTail l = last (m_pTag l # as)"
    and "m_count l = int (length as)"
  using assms by (auto simp: dll_inv_def ring_def)

lemma dll_fresh: "dll_inv l as \<Longrightarrow> heap l (brk l) = None"
  unfolding dll_inv_def by (metis less_irrefl)

text \<open>The neighbours of a member are the last node before it and the first node after it.\<close>

lemma dll_member:
  assumes "dll_inv l (xs @ x # ys)"
  shows "nxt (heap l) x = Some (hd (ys @ [m_pTag l]))"
    and "prv (heap l) x = Some (last (m_pTag l # xs))"
proof -
  from dll_invD(1) [OF assms]
  have "dpath (nxt (heap l)) (prv (heap l)) (m_pTag l) xs x"
    and "dpath (nxt (heap l)) (prv (heap l)) x ys (m_pTag l)"
    by (auto simp: dpath_append)
  then show "nxt (heap l) x = Some (hd (ys @ [m_pTag l]))"
    and "prv (heap l) x = Some (last (m_pTag l # xs))"
    using dpath_hd dpath_last by blast+
qed

lemma dll_tag:
  assumes "dll_inv l as"
  shows "nxt (heap l) (m_pTag l) = Some (hd (as @ [m_pTag l]))"
    and "prv (heap l) (m_pTag l) = Some (last (m_pTag l # as))"
  using dpath_hd dpath_last dll_invD(1) [OF assms] by blast+

lemma dll_load:
  assumes "heap l p \<noteq> None"
  shows "\<exists>n. load l p = Some n \<and> nxt (heap l) p = Some (m_next n) \<and>
             prv (heap l) p = Some (m_prev n) \<and> val (heap l) p = m_value n"
  using assms by (auto simp: load_def nxt_def prv_def val_def)

lemma dll_inv_unlink:
  assumes inv: "dll_inv l (xs @ x # ys)"
    and tag: "m_pTag l' = m_pTag l" and brk: "brk l' = brk l"
    and nx: "\<forall>a. a \<noteq> x \<longrightarrow> nxt (heap l') a =
              (if a = last (m_pTag l # xs) then Some (hd (ys @ [m_pTag l])) else nxt (heap l) a)"
    and pv: "\<forall>a. a \<noteq> x \<longrightarrow> prv (heap l') a =
              (if a = hd (ys @ [m_pTag l]) then Some (last (m_pTag l # xs)) else prv (heap l) a)"
    and dm: "\<forall>a. heap l' a = None \<longleftrightarrow> heap l a = None \<or> a = x"
    and hd': "m_pHead l' = hd ((xs @ ys) @ [m_pTag l])"
    and tl': "m_pTail l' = last (m_pTag l # xs @ ys)"
    and ct: "m_count l' = m_count l - 1"
  shows "dll_inv l' (xs @ ys)"
proof -
  have "dpath (nxt (heap l')) (prv (heap l')) (m_pTag l) (xs @ ys) (m_pTag l)"
    by (rule dpath_unlink [OF dll_invD(1) [OF inv] dll_invD(2) [OF inv] refl refl nx pv])
  then show ?thesis
    using inv dm tag brk hd' tl' ct by (auto simp: dll_inv_def ring_def)
qed

lemma dll_inv_link_in:
  assumes inv: "dll_inv l (xs @ ys)"
    and tag: "m_pTag l' = m_pTag l" and brk: "brk l' = Suc (brk l)"
    and nx: "\<forall>a. nxt (heap l') a = (if a = brk l then Some (hd (ys @ [m_pTag l]))
              else if a = last (m_pTag l # xs) then Some (brk l) else nxt (heap l) a)"
    and pv: "\<forall>a. prv (heap l') a = (if a = brk l then Some (last (m_pTag l # xs))
              else if a = hd (ys @ [m_pTag l]) then Some (brk l) else prv (heap l) a)"
    and dm: "\<forall>a. heap l' a = None \<longleftrightarrow> heap l a = None \<and> a \<noteq> brk l"
    and hd': "m_pHead l' = hd ((xs @ brk l # ys) @ [m_pTag l])"
    and tl': "m_pTail l' = last (m_pTag l # xs @ brk l # ys)"
    and ct: "m_count l' = m_count l + 1"
  shows "dll_inv l' (xs @ brk l # ys)"
proof -
  have fresh: "brk l \<notin> set (m_pTag l # xs @ ys)"
    using dll_invD(5) [OF inv] by blast
  have "dpath (nxt (heap l')) (prv (heap l')) (m_pTag l) (xs @ brk l # ys) (m_pTag l)"
    by (rule dpath_link_in [OF dll_invD(1) [OF inv] dll_invD(2) [OF inv] fresh refl refl nx pv])
  then show ?thesis
    using inv fresh dm tag brk hd' tl' ct by (auto simp: dll_inv_def ring_def less_Suc_eq)
qed

text \<open>Symbolic execution of one store, once the target is known to be allocated.\<close>

lemma store_exec [heap_simps]:
  "heap l p \<noteq> None \<Longrightarrow> set_next l p q = Some (l\<lparr>heap := upd_next (heap l) p q\<rparr>)"
  "heap l p \<noteq> None \<Longrightarrow> set_prev l p q = Some (l\<lparr>heap := upd_prev (heap l) p q\<rparr>)"
  "heap l p \<noteq> None \<Longrightarrow> set_value l p v = Some (l\<lparr>heap := upd_value (heap l) p v\<rparr>)"
  "heap l p \<noteq> None \<Longrightarrow> delete_node l p = Some (l\<lparr>heap := (heap l)(p := None)\<rparr>)"
  by (auto simp: set_next_def set_prev_def set_value_def delete_node_def)

text \<open>Nodes around a position of the ring.\<close>

lemma ring_around:
  assumes inv: "dll_inv l (xs @ x # ys)"
  shows "heap l x \<noteq> None" "heap l (m_pTag l) \<noteq> None"
    "heap l (hd (ys @ [m_pTag l])) \<noteq> None" "heap l (last (m_pTag l # xs)) \<noteq> None"
    "x \<noteq> m_pTag l" "x \<noteq> hd (ys @ [m_pTag l])" "x \<noteq> last (m_pTag l # xs)"
    "x \<notin> set xs" "x \<notin> set ys" "x \<noteq> NULL"
proof -
  have last_in: "last (m_pTag l # xs) \<in> set (m_pTag l # xs)" by (metis last_in_set list.discI)
  have hd_in: "hd (ys @ [m_pTag l]) \<in> set (m_pTag l # ys)" by (cases ys) auto
  show "heap l x \<noteq> None" "heap l (m_pTag l) \<noteq> None"
    using dll_invD(3) [OF inv] by auto
  show "heap l (hd (ys @ [m_pTag l])) \<noteq> None" "heap l (last (m_pTag l # xs)) \<noteq> None"
    using dll_invD(3) [OF inv] last_in hd_in by auto
  show "x \<noteq> m_pTag l" "x \<noteq> hd (ys @ [m_pTag l])" "x \<noteq> last (m_pTag l # xs)" "x \<notin> set xs" "x \<notin> set ys"
    using dll_invD(2) [OF inv] last_in hd_in by auto
  show "x \<noteq> NULL" using dll_invD(4) [OF inv] by auto
qed

lemma ring_load:
  assumes inv: "dll_inv l (xs @ x # ys)"
  obtains n where "load l x = Some n" "m_next n = hd (ys @ [m_pTag l])"
    "m_prev n = last (m_pTag l # xs)" "m_value n = val (heap l) x"
  using dll_load [OF ring_around(1) [OF inv]] dll_member [OF inv] by auto

text \<open>The fresh node is not in the ring.\<close>

lemma ring_fresh:
  assumes inv: "dll_inv l as"
  shows "heap l (brk l) = None" "brk l \<noteq> m_pTag l" "brk l \<notin> set as" "m_pTag l \<noteq> brk l"
    "heap l (m_pTag l) \<noteq> None" "m_pTag l \<noteq> NULL" "brk l \<noteq> NULL"
  using dll_invD(3,4,5) [OF inv] dll_fresh [OF inv] inv by (auto simp: dll_inv_def)

text \<open>Neighbours by position: \<open>c\<close> counts members from the head, and the length of
  the ring stands for the tag node.\<close>

lemma ring_at:
  assumes inv: "dll_inv l as" and c: "c < length as"
  obtains n where "load l (as ! c) = Some n" "m_next n = (as @ [m_pTag l]) ! Suc c"
    "m_prev n = (m_pTag l # as) ! c" "m_value n = val (heap l) (as ! c)"
    "(m_next n = m_pTag l) = (Suc c = length as)" "(m_prev n = m_pTag l) = (c = 0)"
    "as ! c \<noteq> m_pTag l" "as ! c \<noteq> NULL"
proof -
  have split: "as = take c as @ as ! c # drop (Suc c) as" by (rule id_take_nth_drop [OF c])
  then have inv': "dll_inv l (take c as @ as ! c # drop (Suc c) as)" using inv by simp
  have N: "hd (drop (Suc c) as @ [m_pTag l]) = (as @ [m_pTag l]) ! Suc c"
    using c by (cases "Suc c < length as") (auto simp: hd_append hd_drop_conv_nth nth_append less_Suc_eq)
  have P: "last (m_pTag l # take c as) = (m_pTag l # as) ! c"
    using c by (cases c) (auto simp: last_conv_nth take_Suc_conv_app_nth)
  have d: "distinct (m_pTag l # as)" by (rule dll_invD(2) [OF inv])
  then have "((as @ [m_pTag l]) ! Suc c = m_pTag l) = (Suc c = length as)"
    using c by (auto simp: nth_append less_Suc_eq dest: nth_mem)
  moreover have "((m_pTag l # as) ! c = m_pTag l) = (c = 0)"
  proof (cases c)
    case (Suc k)
    then have "as ! k \<in> set as" using c by simp
    then show ?thesis using d Suc by auto
  qed simp
  ultimately show ?thesis
    using that ring_load [OF inv'] ring_around [OF inv'] N P by metis
qed

lemma tag_at:
  assumes inv: "dll_inv l as"
  obtains n where "load l (m_pTag l) = Some n" "m_next n = (as @ [m_pTag l]) ! 0"
    "m_prev n = (m_pTag l # as) ! length as"
proof -
  have "last (m_pTag l # as) = (m_pTag l # as) ! length as" by (simp add: last_conv_nth)
  moreover have "hd (as @ [m_pTag l]) = (as @ [m_pTag l]) ! 0" by (rule hd_snoc_nth)
  ultimately show ?thesis
    using that dll_load [OF ring_fresh(5) [OF inv]] dll_tag [OF inv] by auto
qed

section \<open>A ring that holds a list of values\<close>

text \<open>\<open>ring_rep l as vs\<close>: the members \<open>as\<close> carry the values \<open>vs\<close> in order,
  and the tag node carries none.\<close>

definition ring_rep :: "('v, 'z) dll_scheme \<Rightarrow> addr list \<Rightarrow> 'v list \<Rightarrow> bool" where
  "ring_rep l as vs \<longleftrightarrow> dll_inv l as \<and> map (val (heap l)) (m_pTag l # as) = None # map Some vs"

lemma rr_inv: "ring_rep l as vs \<Longrightarrow> dll_inv l as"
  by (simp add: ring_rep_def)

lemma rr_vals: "ring_rep l as vs \<Longrightarrow> map (val (heap l)) as = map Some vs"
  by (simp add: ring_rep_def)

lemma rr_length: "ring_rep l as vs \<Longrightarrow> length as = length vs"
  using rr_vals by (metis length_map)

lemma rr_count: "ring_rep l as vs \<Longrightarrow> m_count l = int (length vs)"
  using dll_invD(8) rr_inv rr_length by metis

lemma rr_head: "ring_rep l as vs \<Longrightarrow> m_pHead l = (as @ [m_pTag l]) ! 0"
  using dll_invD(6) rr_inv hd_snoc_nth by metis

lemma rr_tail: "ring_rep l as vs \<Longrightarrow> m_pTail l = (as @ [m_pTag l]) ! (length vs - 1)"
  using dll_invD(7) [OF rr_inv] rr_length
  by (cases as rule: rev_cases) (fastforce simp: nth_append)+

lemma rr_end: "ring_rep l as vs \<Longrightarrow> (as @ [m_pTag l]) ! length vs = m_pTag l"
  using rr_length by (metis nth_append_length)

lemma rr_val: "ring_rep l as vs \<Longrightarrow> i < length vs \<Longrightarrow> val (heap l) (as ! i) = Some (vs ! i)"
  using rr_vals rr_length by (metis nth_map)

lemma rr_at:
  assumes rep: "ring_rep l as vs" and i: "i < length vs"
  obtains n where "load l ((as @ [m_pTag l]) ! i) = Some n" "m_next n = (as @ [m_pTag l]) ! Suc i"
    "m_prev n = (m_pTag l # as) ! i" "m_value n = Some (vs ! i)"
    "(m_next n = m_pTag l) = (Suc i = length vs)" "(m_prev n = m_pTag l) = (i = 0)"
    "(as @ [m_pTag l]) ! i \<noteq> m_pTag l" "(as @ [m_pTag l]) ! i \<noteq> NULL"
proof -
  have i': "i < length as" using i rr_length [OF rep] by simp
  show ?thesis
    using ring_at [OF rr_inv [OF rep] i'] that i' rr_length [OF rep] rr_val [OF rep i]
    by (simp add: nth_append) metis
qed

lemma rr_alloc:
  assumes rep: "ring_rep l as vs" and i: "i \<le> length vs"
  shows "heap l ((as @ [m_pTag l]) ! i) \<noteq> None" "(as @ [m_pTag l]) ! i \<noteq> brk l"
proof -
  have "(as @ [m_pTag l]) ! i \<in> set (m_pTag l # as)"
    using i rr_length [OF rep] by (auto simp: nth_append)
  then show "heap l ((as @ [m_pTag l]) ! i) \<noteq> None" "(as @ [m_pTag l]) ! i \<noteq> brk l"
    using dll_invD(3,5) [OF rr_inv [OF rep]] by blast+
qed

lemma rr_distinct: "ring_rep l as vs \<Longrightarrow> distinct (as @ [m_pTag l])"
  using dll_invD(2) rr_inv by fastforce

lemma dll_inv_cursor [simp]: "dll_inv (l\<lparr>m_pCurrent := p\<rparr>) as = dll_inv l as"
  by (simp add: dll_inv_def)

lemma ring_rep_cursor [simp]: "ring_rep (l\<lparr>m_pCurrent := p\<rparr>) as vs = ring_rep l as vs"
  by (simp add: ring_rep_def)

lemma load_cursor [simp]: "load (l\<lparr>m_pCurrent := p\<rparr>) q = load l q"
  by (simp add: load_def)

lemma dll_inv_value: "dll_inv l as \<Longrightarrow> dll_inv (l\<lparr>heap := upd_value (heap l) p v\<rparr>) as"
proof -
  have "nxt (upd_value (heap l) p v) = nxt (heap l)" "prv (upd_value (heap l) p v) = prv (heap l)"
    by (auto simp: heap_simps)
  then show "dll_inv l as \<Longrightarrow> ?thesis" by (auto simp: dll_inv_def ring_def heap_simps)
qed

lemma rr_set_value:
  assumes rep: "ring_rep l as vs" and c: "c < length vs"
  shows "set_value l (as ! c) (Some v) = Some (l\<lparr>heap := upd_value (heap l) (as ! c) (Some v)\<rparr>)"
    and "ring_rep (l\<lparr>heap := upd_value (heap l) (as ! c) (Some v)\<rparr>) as (vs[c := v])"
proof -
  have c': "c < length as" using c rr_length [OF rep] by simp
  have d: "distinct (m_pTag l # as)" by (rule dll_invD(2) [OF rr_inv [OF rep]])
  have al: "heap l (as ! c) \<noteq> None" using dll_invD(3) [OF rr_inv [OF rep]] c' by auto
  let ?l = "l\<lparr>heap := upd_value (heap l) (as ! c) (Some v)\<rparr>"
  have "map (val (heap ?l)) as = map Some (vs[c := v])"
  proof (rule nth_equalityI)
    fix i assume i: "i < length (map (val (heap ?l)) as)"
    then show "map (val (heap ?l)) as ! i = map Some (vs[c := v]) ! i"
      using c' d al rr_length [OF rep] rr_val [OF rep, of i]
      by (auto simp: heap_simps nth_list_update nth_eq_iff_index_eq)
  qed (use rr_length [OF rep] in simp)
  moreover have "as ! c \<noteq> m_pTag l" using d c' nth_mem by fastforce
  then have "val (heap ?l) (m_pTag l) = None"
    using rep by (auto simp: heap_simps ring_rep_def)
  ultimately show "ring_rep ?l as (vs[c := v])"
    using dll_inv_value [OF rr_inv [OF rep]] by (simp add: ring_rep_def)
  show "set_value l (as ! c) (Some v) = Some ?l" using al by (simp add: heap_simps)
qed

text \<open>Removing the member at position \<open>j\<close>.\<close>

lemma nth_neighbours:
  assumes "j < length as"
  shows "last (t # take j as) = (t # as) ! j" "hd (drop (Suc j) as @ [t]) = (as @ [t]) ! Suc j"
proof -
  show "last (t # take j as) = (t # as) ! j"
    using assms by (cases j) (auto simp: last_conv_nth take_Suc_conv_app_nth)
  show "hd (drop (Suc j) as @ [t]) = (as @ [t]) ! Suc j"
    using assms by (cases "Suc j < length as") (auto simp: hd_append hd_drop_conv_nth nth_append less_Suc_eq)
qed

lemma nth_before_last:
  assumes "Suc j = length as"
  shows "(t # as) ! j = ((take j as @ drop (Suc j) as) @ [t]) ! (length as - 2)"
proof (cases j)
  case (Suc i)
  then have "length as - 2 = i" using assms by linarith
  then show ?thesis using Suc assms by (simp add: nth_append)
qed (use assms in auto)

lemma rr_around:
  assumes rep: "ring_rep l as vs" and j: "j < length vs"
  shows "heap l (as ! j) \<noteq> None" "heap l (m_pTag l) \<noteq> None" "heap l ((m_pTag l # as) ! j) \<noteq> None"
    "heap l ((as @ [m_pTag l]) ! Suc j) \<noteq> None" "as ! j \<noteq> m_pTag l" "as ! j \<noteq> (as @ [m_pTag l]) ! Suc j"
    "as ! j \<noteq> (m_pTag l # as) ! j" "as ! j \<noteq> NULL" "(as @ [m_pTag l]) ! j = as ! j"
proof -
  have j': "j < length as" using j rr_length [OF rep] by simp
  have "dll_inv l (take j as @ as ! j # drop (Suc j) as)"
    using rr_inv [OF rep] id_take_nth_drop [OF j'] by simp
  note R = ring_around [OF this]
  from R(1,2,3,4,5,6,7,10)
  show "heap l (as ! j) \<noteq> None" "heap l (m_pTag l) \<noteq> None" "heap l ((m_pTag l # as) ! j) \<noteq> None"
    "heap l ((as @ [m_pTag l]) ! Suc j) \<noteq> None" "as ! j \<noteq> m_pTag l" "as ! j \<noteq> (as @ [m_pTag l]) ! Suc j"
    "as ! j \<noteq> (m_pTag l # as) ! j" "as ! j \<noteq> NULL"
    unfolding nth_neighbours [OF j'] by blast+
  show "(as @ [m_pTag l]) ! j = as ! j" using j' by (simp add: nth_append)
qed

lemma rr_unlink:
  assumes rep: "ring_rep l as vs" and j: "j < length vs"
    and tag: "m_pTag l' = m_pTag l" and brk: "brk l' = brk l"
    and nx: "\<forall>a. a \<noteq> as ! j \<longrightarrow> nxt (heap l') a =
              (if a = (m_pTag l # as) ! j then Some ((as @ [m_pTag l]) ! Suc j) else nxt (heap l) a)"
    and pv: "\<forall>a. a \<noteq> as ! j \<longrightarrow> prv (heap l') a =
              (if a = (as @ [m_pTag l]) ! Suc j then Some ((m_pTag l # as) ! j) else prv (heap l) a)"
    and dm: "\<forall>a. heap l' a = None \<longleftrightarrow> heap l a = None \<or> a = as ! j"
    and vl: "\<forall>a. a \<noteq> as ! j \<longrightarrow> val (heap l') a = val (heap l) a"
    and hd': "m_pHead l' = (if j = 0 then (as @ [m_pTag l]) ! 1 else m_pHead l)"
    and tl': "m_pTail l' = (if Suc j = length vs then (m_pTag l # as) ! j else m_pTail l)"
    and ct: "m_count l' = m_count l - 1"
  shows "ring_rep l' (take j as @ drop (Suc j) as) (take j vs @ drop (Suc j) vs)"
proof -
  let ?xs = "take j as" and ?ys = "drop (Suc j) as"
  have j': "j < length as" using j rr_length [OF rep] by simp
  have as: "as = ?xs @ as ! j # ?ys" by (rule id_take_nth_drop [OF j'])
  then have inv: "dll_inv l (?xs @ as ! j # ?ys)" using rr_inv [OF rep] by simp
  note N = nth_neighbours [OF j', of "m_pTag l"]
  have H: "m_pHead l' = hd ((?xs @ ?ys) @ [m_pTag l])"
    using hd' N(2) dll_invD(6) [OF rr_inv [OF rep]] j' by (cases j; cases as) simp_all
  have T: "m_pTail l' = last (m_pTag l # ?xs @ ?ys)"
    using tl' N(1) dll_invD(7) [OF rr_inv [OF rep]] j' rr_length [OF rep]
    by (cases "Suc j = length as") (auto simp: last_append)
  have "dll_inv l' (?xs @ ?ys)"
    by (rule dll_inv_unlink [OF inv tag brk]) (use nx pv dm ct H T N in auto)
  moreover have "as ! j \<notin> set (m_pTag l # ?xs @ ?ys)"
    using ring_around(5,8,9) [OF inv] by auto
  then have "map (val (heap l')) (m_pTag l # ?xs @ ?ys) = map (val (heap l)) (m_pTag l # ?xs @ ?ys)"
    using vl by (intro map_cong refl) metis
  moreover have "map (val (heap l)) (?xs @ ?ys) = map Some (take j vs @ drop (Suc j) vs)"
    using rr_vals [OF rep] by (simp flip: take_map drop_map)
  ultimately show ?thesis using rep tag by (simp add: ring_rep_def del: map_append map_eq_conv)
qed

text \<open>Appending a fresh node, and moving a member to the end.\<close>

lemma rr_append:
  assumes rep: "ring_rep l as vs" and t: "t = (m_pTag l # as) ! length vs"
    and l': "l' = l\<lparr>brk := Suc (brk l), m_pCurrent := c,
      heap := upd_prev (upd_next ((heap l)(brk l \<mapsto> \<lparr>m_value = Some v, m_prev = t, m_next = m_pTag l\<rparr>))
                t (brk l)) (m_pTag l) (brk l),
      m_pHead := (if vs = [] then brk l else m_pHead l), m_pTail := brk l, m_count := m_count l + 1\<rparr>"
  shows "ring_rep l' (as @ [brk l]) (vs @ [v])"
proof -
  have len: "length as = length vs" by (rule rr_length [OF rep])
  have t': "t = last (m_pTag l # as)" using t by (simp add: last_conv_nth flip: len)
  have inv: "dll_inv l (as @ [])" using rr_inv [OF rep] by simp
  note F = ring_fresh [OF rr_inv [OF rep]]
  have "t \<in> set (m_pTag l # as)" unfolding t' by (metis last_in_set list.discI)
  then have hh: "heap l t \<noteq> None" "t \<noteq> brk l"
    using dll_invD(3,5) [OF rr_inv [OF rep]] by blast+
  have "dll_inv l' (as @ brk l # [])"
    unfolding l' by (rule dll_inv_link_in [where l = l, folded t'])
      (use inv F hh len dll_invD(6) [OF inv] in \<open>auto simp: heap_simps hd_append t'\<close>)
  moreover have "map (val (heap l')) (m_pTag l # as @ [brk l]) = map (val (heap l)) (m_pTag l # as) @ [Some v]"
    unfolding l' using F by (auto simp: heap_simps)
  ultimately show ?thesis using rep l' by (simp add: ring_rep_def del: map_eq_conv)
qed

lemma dll_inv_to_back:
  assumes inv: "dll_inv l (xs @ x # y # ys)"
    and tag: "m_pTag l' = m_pTag l" and brk: "brk l' = brk l" and dm: "\<forall>a. (heap l' a = None) = (heap l a = None)"
    and nx: "\<forall>a. nxt (heap l') a = (if a = x then Some (m_pTag l) else if a = last (y # ys) then Some x
              else if a = last (m_pTag l # xs) then Some y else nxt (heap l) a)"
    and pv: "\<forall>a. prv (heap l') a = (if a = x then Some (last (y # ys)) else if a = m_pTag l then Some x
              else if a = y then Some (last (m_pTag l # xs)) else prv (heap l) a)"
    and hd': "m_pHead l' = hd (xs @ [y])" and tl': "m_pTail l' = x" and ct: "m_count l' = m_count l"
  shows "dll_inv l' (xs @ y # ys @ [x])"
proof -
  let ?t = "m_pTag l"
  have d: "distinct (?t # xs @ x # y # ys)" by (rule dll_invD(2) [OF inv])
  let ?nx = "\<lambda>a. if a = last (?t # xs) then Some y else nxt (heap l) a"
  let ?pv = "\<lambda>a. if a = y then Some (last (?t # xs)) else prv (heap l) a"
  have "dpath ?nx ?pv ?t (xs @ y # ys) ?t"
    by (rule dpath_unlink [OF dll_invD(1) [OF inv] d refl]) auto
  then have "dpath (nxt (heap l')) (prv (heap l')) ?t ((xs @ y # ys) @ x # []) ?t"
    by (intro dpath_link_in [where nx = ?nx and pv = ?pv and p = "last (y # ys)" and n = ?t])
      (use d nx pv in auto)
  then show ?thesis
    using inv tag brk dm hd' tl' ct by (auto simp: dll_inv_def ring_def hd_append)
qed

end
