(* ===== verification/CList.thy ===== *)
theory CList
  imports NodeStore
begin

text \<open>
  The intrusive list \<open>CList<TValue>\<close> of \<open>include/comserv/clist.h\<close>, on the node
  store: every pointer assignment of the source is one store of the model, in the source's
  order. A value returned through a reference argument is the \<open>'v option\<close> of the
  result, \<open>None\<close> when the argument is left untouched.

  The specification and the proofs are in \<open>CListSpec\<close>.
\<close>

section \<open>The pointer implementation\<close>

subsection \<open>Construction and cursor movement\<close>

definition CList_new :: "'v dll option" where
  "CList_new = do {
     let l = \<lparr>heap = Map.empty, brk = 1, m_pHead = NULL, m_pTail = NULL,
              m_pCurrent = NULL, m_pTag = NULL, m_count = 0\<rparr>;
     let (t, l) = new_node l None NULL NULL;
     let l = l\<lparr>m_pTag := t\<rparr>;
     let l = l\<lparr>m_pHead := m_pTag l, m_pTail := m_pTag l, m_pCurrent := m_pTag l\<rparr>;
     l \<leftarrow> set_next l (m_pTag l) (m_pHead l);
     set_prev l (m_pTag l) (m_pTail l) }"

definition clist_front :: "'v dll \<Rightarrow> (bool \<times> 'v dll) option" where
  "clist_front l = (if m_count l > 0 \<and> m_pHead l \<noteq> m_pTag l
              then Some (True, l\<lparr>m_pCurrent := m_pHead l\<rparr>) else Some (False, l))"

definition front_v :: "'v dll \<Rightarrow> ((bool \<times> 'v option) \<times> 'v dll) option" where
  "front_v l = do {
     (b, l) \<leftarrow> clist_front l;
     if b then do { n \<leftarrow> load l (m_pHead l); Some ((True, m_value n), l) }
     else Some ((False, None), l) }"

definition clist_back :: "'v dll \<Rightarrow> (bool \<times> 'v dll) option" where
  "clist_back l = (if m_count l > 0 \<and> m_pTail l \<noteq> m_pTag l
             then Some (True, l\<lparr>m_pCurrent := m_pTail l\<rparr>) else Some (False, l))"

definition back_v :: "'v dll \<Rightarrow> ((bool \<times> 'v option) \<times> 'v dll) option" where
  "back_v l = do {
     (b, l) \<leftarrow> clist_back l;
     if b then do { n \<leftarrow> load l (m_pTail l); Some ((True, m_value n), l) }
     else Some ((False, None), l) }"

definition ishead :: "'v dll \<Rightarrow> bool option" where
  "ishead l = (if m_pCurrent l = m_pTag l then Some False
     else do { n \<leftarrow> load l (m_pCurrent l); Some (m_prev n = m_pTag l) })"

definition istail :: "'v dll \<Rightarrow> bool option" where
  "istail l = (if m_pCurrent l = m_pTag l then Some False
     else do { n \<leftarrow> load l (m_pCurrent l); Some (m_next n = m_pTag l) })"

definition clist_reset :: "'v dll \<Rightarrow> 'v dll" where
  "clist_reset l = l\<lparr>m_pCurrent := m_pHead l\<rparr>"

definition reset_t :: "'v dll \<Rightarrow> 'v dll" where
  "reset_t l = l\<lparr>m_pCurrent := m_pTail l\<rparr>"

definition reset_d :: "'v dll \<Rightarrow> 'v dll" where
  "reset_d l = l\<lparr>m_pCurrent := m_pTag l\<rparr>"

definition clist_current :: "'v dll \<Rightarrow> ((bool \<times> 'v option) \<times> 'v dll) option" where
  "clist_current l = (if m_pCurrent l = m_pTag l \<or> m_pCurrent l = NULL then Some ((False, None), l)
     else do { n \<leftarrow> load l (m_pCurrent l); Some ((True, m_value n), l) })"

text \<open>\<open>current_r\<close> has no return statement for a cursor on the tag node.\<close>

definition current_r :: "'v dll \<Rightarrow> 'v option option" where
  "current_r l = (if m_pCurrent l \<noteq> m_pTag l \<and> m_pCurrent l \<noteq> NULL
     then do { n \<leftarrow> load l (m_pCurrent l); Some (m_value n) } else None)"

definition clist_next :: "'v dll \<Rightarrow> (bool \<times> 'v dll) option" where
  "clist_next l = do {
     t \<leftarrow> istail l;
     if t then Some (False, l)
     else do {
       n \<leftarrow> load l (m_pCurrent l);
       let l = l\<lparr>m_pCurrent := m_next n\<rparr>;
       if m_pCurrent l = m_pTag l then Some (False, l) else Some (True, l) } }"

definition next_v :: "'v dll \<Rightarrow> ((bool \<times> 'v option) \<times> 'v dll) option" where
  "next_v l = do {
     (b, l) \<leftarrow> clist_next l;
     if b then do { n \<leftarrow> load l (m_pCurrent l); v \<leftarrow> m_value n; Some ((True, Some v), l) }
     else Some ((False, None), l) }"

definition next_d :: "'v dll \<Rightarrow> ((bool \<times> 'v option) \<times> 'v dll) option" where
  "next_d l = do {
     ((b, v), l) \<leftarrow> next_v l;
     if b then Some ((True, v), l)
     else do {
       t \<leftarrow> istail l;
       if t \<and> m_count l > 1 then clist_current (clist_reset l) else Some ((True, None), l) } }"

definition clist_prev :: "'v dll \<Rightarrow> (bool \<times> 'v dll) option" where
  "clist_prev l = do {
     h \<leftarrow> ishead l;
     if h then Some (False, l)
     else do { n \<leftarrow> load l (m_pCurrent l); Some (True, l\<lparr>m_pCurrent := m_prev n\<rparr>) } }"

text \<open>On an empty list \<open>prev()\<close> succeeds and stays on the tag node, whose value was never set:
  copying it is undefined.\<close>

definition prev_v :: "'v dll \<Rightarrow> ((bool \<times> 'v option) \<times> 'v dll) option" where
  "prev_v l = do {
     (b, l) \<leftarrow> clist_prev l;
     if b then do { n \<leftarrow> load l (m_pCurrent l); v \<leftarrow> m_value n; Some ((True, Some v), l) }
     else Some ((False, None), l) }"

definition prev_d :: "'v dll \<Rightarrow> ((bool \<times> 'v option) \<times> 'v dll) option" where
  "prev_d l = do {
     ((b, v), l) \<leftarrow> prev_v l;
     if b then Some ((True, v), l)
     else do {
       h \<leftarrow> ishead l;
       if h \<and> m_count l > 1 then clist_current (reset_t l) else Some ((True, None), l) } }"

subsection \<open>Insertion and removal at the ends\<close>

definition pop_front :: "'v dll \<Rightarrow> (int \<times> 'v dll) option" where
  "pop_front l = (if m_count l > 0 then do {
     n \<leftarrow> load l (m_pHead l);
     let l = l\<lparr>m_pCurrent := m_next n\<rparr>;
     l \<leftarrow> set_prev l (m_pCurrent l) (m_pTag l);
     l \<leftarrow> set_next l (m_pTag l) (m_pCurrent l);
     l \<leftarrow> delete_node l (m_pHead l);
     let l = l\<lparr>m_pHead := m_pCurrent l, m_count := m_count l - 1\<rparr>;
     let l = (if m_count l = 0 then l\<lparr>m_pTail := m_pTag l\<rparr> else l);
     Some (m_count l, l) }
   else Some (m_count l, l))"

definition pop_back :: "'v dll \<Rightarrow> (int \<times> 'v dll) option" where
  "pop_back l = (if m_count l > 0 then do {
     n \<leftarrow> load l (m_pTail l);
     let l = l\<lparr>m_pCurrent := m_prev n\<rparr>;
     l \<leftarrow> set_next l (m_pCurrent l) (m_pTag l);
     l \<leftarrow> set_prev l (m_pTag l) (m_pCurrent l);
     l \<leftarrow> delete_node l (m_pTail l);
     let l = l\<lparr>m_pTail := m_pCurrent l, m_count := m_count l - 1\<rparr>;
     let l = (if m_count l = 0 then l\<lparr>m_pHead := m_pTag l\<rparr> else l);
     Some (m_count l, l) }
   else Some (m_count l, l))"

definition pop_current :: "'v dll \<Rightarrow> (int \<times> 'v dll) option" where
  "pop_current l = (if m_count l = 0 \<or> m_pCurrent l = m_pTag l then Some (0, l) else do {
     n \<leftarrow> load l (m_pCurrent l);
     let pPrev = m_prev n;
     let pNext = m_next n;
     if pNext = m_pTag l then pop_back l
     else if pPrev = m_pTag l then pop_front l
     else do {
       l \<leftarrow> delete_node l (m_pCurrent l);
       let l = l\<lparr>m_pCurrent := pNext\<rparr>;
       l \<leftarrow> set_prev l (m_pCurrent l) pPrev;
       l \<leftarrow> set_next l pPrev (m_pCurrent l);
       let l = l\<lparr>m_count := m_count l - 1\<rparr>;
       Some (m_count l, l) } })"

definition pop_front_v :: "'v dll \<Rightarrow> ((int \<times> 'v option) \<times> 'v dll) option" where
  "pop_front_v l = do {
     v \<leftarrow> (if m_count l > 0 then do { n \<leftarrow> load l (m_pHead l); Some (m_value n) } else Some None);
     (c, l) \<leftarrow> pop_front l;
     Some ((c, v), l) }"

definition pop_back_v :: "'v dll \<Rightarrow> ((int \<times> 'v option) \<times> 'v dll) option" where
  "pop_back_v l = do {
     v \<leftarrow> (if m_count l > 0 then do { n \<leftarrow> load l (m_pTail l); Some (m_value n) } else Some None);
     (c, l) \<leftarrow> pop_back l;
     Some ((c, v), l) }"

definition pop_current_v :: "'v dll \<Rightarrow> ((int \<times> 'v option) \<times> 'v dll) option" where
  "pop_current_v l = do {
     v \<leftarrow> (if m_count l > 0 \<and> m_pCurrent l \<noteq> m_pTag l
          then do { n \<leftarrow> load l (m_pCurrent l); Some (m_value n) } else Some None);
     (c, l) \<leftarrow> pop_current l;
     Some ((c, v), l) }"

definition push_front_r :: "'v dll \<Rightarrow> 'v \<Rightarrow> (int \<times> 'v dll) option" where
  "push_front_r l v = do {
     let (p, l) = new_node l (Some v) (m_pTag l) (m_pHead l);
     let l = l\<lparr>m_pCurrent := p\<rparr>;
     l \<leftarrow> (if m_count l = 0 then do {
            let l = l\<lparr>m_pHead := m_pCurrent l, m_pTail := m_pCurrent l\<rparr>;
            set_prev l (m_pTag l) (m_pTail l) }
          else do {
            l \<leftarrow> set_prev l (m_pHead l) (m_pCurrent l);
            Some (l\<lparr>m_pHead := m_pCurrent l\<rparr>) });
     l \<leftarrow> set_next l (m_pTag l) (m_pHead l);
     let l = l\<lparr>m_count := m_count l + 1\<rparr>;
     Some (m_count l, l) }"

definition push_back_r :: "'v dll \<Rightarrow> 'v \<Rightarrow> (int \<times> 'v dll) option" where
  "push_back_r l v = do {
     let (p, l) = new_node l (Some v) (m_pTail l) (m_pTag l);
     let l = l\<lparr>m_pCurrent := p\<rparr>;
     l \<leftarrow> (if m_count l = 0 then do {
            let l = l\<lparr>m_pHead := m_pCurrent l, m_pTail := m_pCurrent l\<rparr>;
            set_next l (m_pTag l) (m_pHead l) }
          else do {
            l \<leftarrow> set_next l (m_pTail l) (m_pCurrent l);
            Some (l\<lparr>m_pTail := m_pCurrent l\<rparr>) });
     l \<leftarrow> set_prev l (m_pTag l) (m_pTail l);
     let l = l\<lparr>m_count := m_count l + 1\<rparr>;
     Some (m_count l, l) }"

text \<open>\<open>remove()\<close>: \<open>do \<dots> while(pop_front())\<close>; \<open>clear\<close> calls it.\<close>

partial_function (option) remove_all :: "'v dll \<Rightarrow> 'v dll option" where
  "remove_all l = do {
     (c, l) \<leftarrow> pop_front l;
     if c \<noteq> 0 then remove_all l else Some l }"

subsection \<open>Positions, search and sorted insertion\<close>

fun addr_walk :: "'v dll \<Rightarrow> nat \<Rightarrow> addr \<Rightarrow> addr option" where
  "addr_walk l 0 p = Some p"
| "addr_walk l (Suc pos) p =
     (if p \<noteq> m_pTag l \<and> p \<noteq> NULL then do { n \<leftarrow> load l p; addr_walk l pos (m_next n) } else Some p)"

definition addr_pos :: "'v dll \<Rightarrow> int \<Rightarrow> (bool \<times> 'v dll) option" where
  "addr_pos l pos = (if m_count l \<le> 0 then Some (False, l)
     else if pos < 0 \<or> pos \<ge> m_count l then Some (False, l)
     else do { p \<leftarrow> addr_walk l (nat pos) (m_pHead l); Some (True, l\<lparr>m_pCurrent := p\<rparr>) })"

definition clist_get :: "'v dll \<Rightarrow> int \<Rightarrow> ((bool \<times> 'v option) \<times> 'v dll) option" where
  "clist_get l pos = do {
     (b, l) \<leftarrow> addr_pos l pos;
     if \<not> b then Some ((False, None), l)
     else do { n \<leftarrow> load l (m_pCurrent l); Some ((True, m_value n), l) } }"

definition set_at :: "'v dll \<Rightarrow> int \<Rightarrow> 'v \<Rightarrow> (bool \<times> 'v dll) option" where
  "set_at l pos v = do {
     (b, l) \<leftarrow> addr_pos l pos;
     if \<not> b then Some (False, l)
     else do { l \<leftarrow> set_value l (m_pCurrent l) (Some v); Some (True, l) } }"

text \<open>\<open>reset_pos\<close> has no return statement for an index outside \<open>0..count\<close>.\<close>

definition reset_pos :: "'v dll \<Rightarrow> int \<Rightarrow> (bool \<times> 'v dll) option" where
  "reset_pos l i = (if i \<ge> 0 \<and> i \<le> m_count l then addr_pos l i else None)"

partial_function (option) contain :: "'v dll \<Rightarrow> 'v \<Rightarrow> (bool \<times> 'v dll) option" where
  "contain l v = (if m_pCurrent l \<noteq> m_pTag l \<and> m_pCurrent l \<noteq> NULL then do {
       n \<leftarrow> load l (m_pCurrent l);
       if m_value n = Some v then Some (True, l)
       else contain (l\<lparr>m_pCurrent := m_next n\<rparr>) v }
     else Some (False, l))"

partial_function (option) index_from :: "'v dll \<Rightarrow> 'v \<Rightarrow> addr \<Rightarrow> int \<Rightarrow> int option" where
  "index_from l v p i = (if p \<noteq> m_pTag l \<and> p \<noteq> NULL then do {
       n \<leftarrow> load l p;
       if m_value n = Some v then Some i else index_from l v (m_next n) (i + 1) }
     else Some (- 1))"

definition clist_index :: "'v dll \<Rightarrow> 'v \<Rightarrow> int option" where
  "clist_index l v = index_from l v (m_pHead l) 0"

partial_function (option) remove_loop :: "'v dll \<Rightarrow> 'v \<Rightarrow> int \<Rightarrow> (int \<times> 'v dll) option" where
  "remove_loop l v i = do {
     (b, l) \<leftarrow> contain l v;
     if b then do { (c, l) \<leftarrow> pop_current l; remove_loop (clist_reset l) v (i + 1) }
     else Some (i, l) }"

definition remove_v :: "'v dll \<Rightarrow> 'v \<Rightarrow> (int \<times> 'v dll) option" where
  "remove_v l v = remove_loop (clist_reset l) v 0"

definition insert_r :: "'v dll \<Rightarrow> 'v \<Rightarrow> (int \<times> 'v dll) option" where
  "insert_r l v = do {
     h \<leftarrow> (if m_count l = 0 then Some True else ishead l);
     if h then push_front_r l v
     else if m_pCurrent l = m_pTag l then Some (0, l)
     else do {
       t \<leftarrow> istail l;
       if t then push_back_r l v
       else do {
         let pPrev = m_pCurrent l;
         n \<leftarrow> load l (m_pCurrent l);
         let pNext = m_next n;
         let (p, l) = new_node l (Some v) pPrev pNext;
         let l = l\<lparr>m_pCurrent := p\<rparr>;
         l \<leftarrow> set_next l pPrev (m_pCurrent l);
         l \<leftarrow> set_prev l pNext (m_pCurrent l);
         let l = l\<lparr>m_count := m_count l + 1\<rparr>;
         Some (m_count l, l) } } }"

partial_function (option) sort_walk :: "('v::linorder) dll \<Rightarrow> 'v \<Rightarrow> int \<Rightarrow> 'v dll option" where
  "sort_walk l v mode = (if m_pCurrent l \<noteq> m_pTag l then do {
       n \<leftarrow> load l (m_pCurrent l);
       w \<leftarrow> m_value n;
       if (if mode = 0 then v \<ge> w else v \<le> w)
       then sort_walk (l\<lparr>m_pCurrent := m_next n\<rparr>) v mode else Some l }
     else Some l)"

definition insertSort :: "('v::linorder) dll \<Rightarrow> 'v \<Rightarrow> int \<Rightarrow> (int \<times> 'v dll) option" where
  "insertSort l v mode = do {
     l \<leftarrow> sort_walk (clist_reset l) v mode;
     if m_pCurrent l = m_pHead l then push_front_r l v
     else if m_pCurrent l = m_pTag l then push_back_r l v
     else do {
       n \<leftarrow> load l (m_pCurrent l);
       let pPrev = m_prev n;
       let pNext = m_pCurrent l;
       let (p, l) = new_node l (Some v) pPrev pNext;
       let l = l\<lparr>m_pCurrent := p\<rparr>;
       l \<leftarrow> set_next l pPrev (m_pCurrent l);
       l \<leftarrow> set_prev l pNext (m_pCurrent l);
       let l = l\<lparr>m_count := m_count l + 1\<rparr>;
       Some (m_count l, l) } }"

definition getCurrentHandle :: "'v dll \<Rightarrow> addr" where
  "getCurrentHandle l = m_pCurrent l"

definition removeByHandle :: "'v dll \<Rightarrow> addr \<Rightarrow> 'v dll option" where
  "removeByHandle l handle = (if handle = NULL then Some l
     else do { (c, l) \<leftarrow> pop_current (l\<lparr>m_pCurrent := handle\<rparr>); Some (clist_reset l) })"

definition clist_empty :: "'v dll \<Rightarrow> bool" where
  "clist_empty l = (if m_count l > 0 then False else True)"

definition clist_count :: "'v dll \<Rightarrow> int" where
  "clist_count l = m_count l"

subsection \<open>Iterators and copying\<close>

definition iter_begin :: "'v dll \<Rightarrow> addr" where
  "iter_begin l = m_pHead l"

definition iter_end :: "'v dll \<Rightarrow> addr option" where
  "iter_end l = do { n \<leftarrow> load l (m_pTail l); Some (m_next n) }"

definition iter_inc :: "'v dll \<Rightarrow> addr \<Rightarrow> addr option" where
  "iter_inc l p = (if p \<noteq> NULL then do { n \<leftarrow> load l p; Some (m_next n) } else Some p)"

definition iter_deref :: "'v dll \<Rightarrow> addr \<Rightarrow> 'v option option" where
  "iter_deref l p = do { n \<leftarrow> load l p; Some (m_value n) }"

text \<open>The loop \<open>for(it=begin(); it!=end(); it++)\<close>, collecting \<open>*it\<close>.\<close>

partial_function (option) iter_collect :: "'v dll \<Rightarrow> addr \<Rightarrow> 'v option list option" where
  "iter_collect l p = do {
     e \<leftarrow> iter_end l;
     if p = e then Some []
     else do { v \<leftarrow> iter_deref l p; q \<leftarrow> iter_inc l p; vs \<leftarrow> iter_collect l q; Some (v # vs) } }"

definition iter_dec :: "'v dll \<Rightarrow> addr \<Rightarrow> addr option" where
  "iter_dec l p = (if p \<noteq> NULL then do { n \<leftarrow> load l p; Some (m_prev n) } else Some p)"

fun iter_walk :: "'v dll \<Rightarrow> nat \<Rightarrow> addr \<Rightarrow> addr option" where
  "iter_walk l 0 p = Some p"
| "iter_walk l (Suc i) p = do {
     e \<leftarrow> iter_end l;
     if p \<noteq> e then do { n \<leftarrow> load l p; iter_walk l i (m_next n) } else Some p }"

definition iter_pos :: "'v dll \<Rightarrow> int \<Rightarrow> addr option" where
  "iter_pos l i = iter_walk l (nat i) (m_pHead l)"

partial_function (option) index_it_from :: "'v dll \<Rightarrow> addr \<Rightarrow> addr \<Rightarrow> int \<Rightarrow> int option" where
  "index_it_from l j p i = (if p \<noteq> m_pTag l \<and> p \<noteq> NULL then
       if j = p then Some i else do { n \<leftarrow> load l p; index_it_from l j (m_next n) (i + 1) }
     else Some (- 1))"

definition index_it :: "'v dll \<Rightarrow> addr \<Rightarrow> int option" where
  "index_it l j = index_it_from l j (m_pHead l) 0"

definition CList_delete :: "'v dll \<Rightarrow> 'v dll option" where
  "CList_delete l = do {
     l \<leftarrow> remove_all l;
     if m_pTag l \<noteq> NULL then delete_node l (m_pTag l) else Some l }"

text \<open>The loop shared by the copy constructor and \<open>operator=\<close>: it moves the source's
  cursor and appends to the target.\<close>

partial_function (option) copy_loop :: "'v dll \<Rightarrow> 'v dll \<Rightarrow> ('v dll \<times> 'v dll) option" where
  "copy_loop l c = do {
     (b, c) \<leftarrow> clist_next c;
     if b then do { ov \<leftarrow> current_r c; v \<leftarrow> ov; (k, l) \<leftarrow> push_back_r l v; copy_loop l c }
     else Some (l, c) }"

definition CList_copy :: "'v dll \<Rightarrow> ('v dll \<times> 'v dll) option" where
  "CList_copy c = do { l \<leftarrow> CList_new; copy_loop l (reset_d c) }"

definition assign :: "'v dll \<Rightarrow> 'v dll \<Rightarrow> ('v dll \<times> 'v dll) option" where
  "assign l v = do { l \<leftarrow> remove_all l; copy_loop l (reset_d v) }"

declare remove_all.simps [code] contain.simps [code] index_from.simps [code] remove_loop.simps [code]
  sort_walk.simps [code] iter_collect.simps [code] index_it_from.simps [code] copy_loop.simps [code]

end
