(* ===== verification/Interfaces.thy ===== *)
theory Interfaces
  imports Prelude
begin

text \<open>
  Interfaces between components, as locales. A provider interprets them on its own operations;
  what a client needs of the provider is proved once here.
\<close>

section \<open>Keyed stores\<close>

text \<open>A store with an insertion that overwrites, a removal and a lookup. Operations return
  \<open>None\<close> for undefined behaviour; the laws say that this does not happen on a sound
  store.\<close>

locale kv_store =
  fixes inv :: "'t \<Rightarrow> bool"
    and lookup :: "'t \<Rightarrow> 'k \<Rightarrow> 'v option"
    and ins :: "'t \<Rightarrow> 'k \<Rightarrow> 'v \<Rightarrow> 't option"
    and del :: "'t \<Rightarrow> 'k \<Rightarrow> (bool \<times> 't) option"
    and emp :: 't
  assumes emp_inv: "inv emp"
    and emp_lookup: "lookup emp k = None"
    and ins_ok: "inv t \<Longrightarrow> \<exists>t'. ins t k v = Some t' \<and> inv t' \<and> lookup t' = (lookup t)(k \<mapsto> v)"
    and del_ok: "inv t \<Longrightarrow> \<exists>t'. del t k = Some (lookup t k \<noteq> None, t') \<and> inv t' \<and> lookup t' = (lookup t)(k := None)"
begin

lemma insE:
  assumes "inv t"
  obtains t' where "ins t k v = Some t'" "inv t'" "lookup t' = (lookup t)(k \<mapsto> v)"
  using ins_ok [OF assms] by blast

lemma delE:
  assumes "inv t"
  obtains t' where "del t k = Some (lookup t k \<noteq> None, t')" "inv t'" "lookup t' = (lookup t)(k := None)"
  using del_ok [OF assms] by blast

text \<open>A put followed by a get of the same key, of another key, and after a removal.\<close>

lemma get_put:
  assumes "inv t"
  shows "\<exists>t1 t2. ins t k v = Some t1 \<and> lookup t1 k = Some v \<and> (\<forall>j. j \<noteq> k \<longrightarrow> lookup t1 j = lookup t j) \<and>
     del t1 k = Some (True, t2) \<and> lookup t2 k = None \<and> (\<forall>j. j \<noteq> k \<longrightarrow> lookup t2 j = lookup t j)"
proof -
  obtain t1 where t1: "ins t k v = Some t1" "inv t1" "lookup t1 = (lookup t)(k \<mapsto> v)" by (rule insE [OF assms])
  obtain t2 where "del t1 k = Some (lookup t1 k \<noteq> None, t2)" "lookup t2 = (lookup t1)(k := None)" by (rule delE [OF t1(2)])
  then show ?thesis using t1 by auto
qed

end

section \<open>Codecs\<close>

text \<open>A codec writes a value into a byte buffer and reads it back from the front of one. The
  law is that a value read back is the value written and that exactly its bytes are consumed.\<close>

locale codec =
  fixes enc :: "'a \<Rightarrow> CHAR8 list"
    and dec :: "CHAR8 list \<Rightarrow> ('a \<times> CHAR8 list) option"
    and okv :: "'a \<Rightarrow> bool"
  assumes round_trip: "okv x \<Longrightarrow> dec (enc x @ rest) = Some (x, rest)"
begin

lemma enc_inject: "okv x \<Longrightarrow> okv y \<Longrightarrow> enc x @ r = enc y @ r' \<Longrightarrow> x = y \<and> r = r'"
  by (metis Pair_inject option.inject round_trip)

text \<open>A sequence of values written one behind the other.\<close>

fun dec_seq :: "nat \<Rightarrow> CHAR8 list \<Rightarrow> ('a list \<times> CHAR8 list) option" where
  "dec_seq 0 b = Some ([], b)"
| "dec_seq (Suc n) b = do { (x, b) \<leftarrow> dec b; (xs, b) \<leftarrow> dec_seq n b; Some (x # xs, b) }"

lemma seq_round_trip: "\<forall>x \<in> set xs. okv x \<Longrightarrow> dec_seq (length xs) (concat (map enc xs) @ rest) = Some (xs, rest)"
  by (induction xs) (auto simp: round_trip)

end

section \<open>Expiring stores\<close>

text \<open>Entries in the order of their insertion, each with the time it was inserted; those older than
  the living time are taken from the front.\<close>

locale expiring_store =
  fixes rep :: "'b \<Rightarrow> ('k \<times> 'v \<times> int) list \<Rightarrow> int \<Rightarrow> bool"
    and find :: "'b \<Rightarrow> 'k \<Rightarrow> ('v option \<times> 'b) option"
    and push :: "'b \<Rightarrow> 'k \<Rightarrow> 'v \<Rightarrow> int \<Rightarrow> (int \<times> 'b) option"
    and pop_old :: "'b \<Rightarrow> int \<Rightarrow> int \<Rightarrow> ((bool \<times> ('k \<times> 'v) option) \<times> 'b) option"
  assumes rep_distinct: "rep b es l \<Longrightarrow> distinct (map fst es)"
    and find_ok: "rep b es l \<Longrightarrow> \<exists>b'. find b k = Some (map_option fst (map_of es k), b') \<and> rep b' es l"
    and push_ok: "rep b es l \<Longrightarrow> k \<notin> fst ` set es \<Longrightarrow> \<exists>b'. push b k v now = Some (1, b') \<and> rep b' (es @ [(k, v, now)]) l"
    and pop_none: "rep b es l \<Longrightarrow> es = [] \<or> \<not> l < (if t \<noteq> 0 then t else now) - snd (snd (hd es)) \<Longrightarrow>
      \<exists>kv b'. pop_old b t now = Some ((False, kv), b') \<and> rep b' es l"
    and pop_some: "rep b ((k, v, t0) # es) l \<Longrightarrow> l < (if t \<noteq> 0 then t else now) - t0 \<Longrightarrow>
      \<exists>b'. pop_old b t now = Some ((True, Some (k, v)), b') \<and> rep b' es l"
begin

lemma findE:
  assumes "rep b es l"
  obtains b' where "find b k = Some (map_option fst (map_of es k), b')" "rep b' es l"
  using find_ok [OF assms] by blast

lemma push_find:
  assumes "rep b es l" "k \<notin> fst ` set es"
  shows "\<exists>b1 b2. push b k v now = Some (1, b1) \<and> find b1 k = Some (Some v, b2) \<and> rep b2 (es @ [(k, v, now)]) l"
proof -
  obtain b1 where b1: "push b k v now = Some (1, b1)" "rep b1 (es @ [(k, v, now)]) l" using push_ok [OF assms] by blast
  have "map_of (es @ [(k, v, now)]) k = Some (v, now)" using assms(2) by (simp add: map_add_dom_app_simps(3) dom_map_of_conv_image_fst)
  then show ?thesis using b1 find_ok [OF b1(2), of k] by (auto simp del: map_of_append)
qed

end

section \<open>Rings with a cursor\<close>

text \<open>A list with a cursor that walks around it: the instances of a task are served in turn
  through it.\<close>

locale cursor_ring =
  fixes rel :: "'l \<Rightarrow> 'v list \<times> nat \<Rightarrow> bool"
    and items :: "'l \<Rightarrow> 'v list option"
    and num :: "'l \<Rightarrow> int"
    and append :: "'l \<Rightarrow> 'v \<Rightarrow> (int \<times> 'l) option"
    and first :: "'l \<Rightarrow> ((bool \<times> 'v option) \<times> 'l) option"
    and goto :: "'l \<Rightarrow> int \<Rightarrow> (bool \<times> 'l) option"
    and step :: "'l \<Rightarrow> ((bool \<times> 'v option) \<times> 'l) option"
  assumes items_ok: "rel l (vs, c) \<Longrightarrow> items l = Some vs"
    and num_ok: "rel l (vs, c) \<Longrightarrow> num l = int (length vs)"
    and append_ok: "rel l (vs, c) \<Longrightarrow> \<exists>l'. append l v = Some (int (length vs) + 1, l') \<and> rel l' (vs @ [v], length vs)"
    and first_ok: "rel l (vs, c) \<Longrightarrow> vs \<noteq> [] \<Longrightarrow> \<exists>l'. first l = Some ((True, Some (hd vs)), l') \<and> rel l' (vs, 0)"
    and goto_ok: "rel l (vs, c) \<Longrightarrow> i < length vs \<Longrightarrow> \<exists>l'. goto l (int i) = Some (True, l') \<and> rel l' (vs, i)"
    and step_ok: "rel l (vs, c) \<Longrightarrow> c < length vs \<Longrightarrow> 1 < length vs \<Longrightarrow>
      \<exists>l'. step l = Some ((True, Some (vs ! (Suc c mod length vs))), l') \<and> rel l' (vs, Suc c mod length vs)"
begin

text \<open>Steps around the ring.\<close>

fun steps :: "nat \<Rightarrow> 'l \<Rightarrow> ('v option list \<times> 'l) option" where
  "steps 0 l = Some ([], l)"
| "steps (Suc n) l = do { ((b, v), l) \<leftarrow> step l; (vs, l) \<leftarrow> steps n l; Some (v # vs, l) }"

lemma steps_ok:
  assumes "rel l (vs, c)" "c < length vs" "1 < length vs"
  shows "\<exists>l'. steps k l = Some (map (\<lambda>j. Some (vs ! ((c + Suc j) mod length vs))) [0..<k], l') \<and> rel l' (vs, (c + k) mod length vs)"
  using assms(1,2)
proof (induction k arbitrary: l c)
  case 0
  then show ?case by simp
next
  case (Suc k)
  obtain l1 where l1: "step l = Some ((True, Some (vs ! (Suc c mod length vs))), l1)" "rel l1 (vs, Suc c mod length vs)"
    using step_ok [OF Suc.prems assms(3)] by blast
  have lt: "Suc c mod length vs < length vs" using assms(3) by (intro mod_less_divisor) linarith
  obtain l' where l': "steps k l1 = Some (map (\<lambda>j. Some (vs ! ((Suc c mod length vs + Suc j) mod length vs))) [0..<k], l')"
    "rel l' (vs, (Suc c mod length vs + k) mod length vs)" using Suc.IH [OF l1(2) lt] by blast
  have m: "(Suc c mod length vs + j) mod length vs = (c + Suc j) mod length vs" for j by (simp add: mod_add_left_eq)
  have m2: "Suc (Suc c mod length vs + j) mod length vs = Suc (Suc (c + j)) mod length vs" for j using m [of "Suc j"] by simp
  have "[0..<Suc k] = 0 # map Suc [0..<k]" by (simp add: map_Suc_upt upt_conv_Cons)
  then show ?case using l1(1) l' m [of k] by (auto simp: comp_def m2)
qed

text \<open>A full round visits every member once.\<close>

lemma full_round:
  assumes "rel l (vs, c)" "c < length vs" "1 < length vs"
  shows "\<exists>l'. steps (length vs) l = Some (map Some (rotate (Suc c) vs), l') \<and> rel l' (vs, c)"
proof -
  have "map (\<lambda>j. Some (vs ! ((c + Suc j) mod length vs))) [0..<length vs] = map Some (rotate (Suc c) vs)"
    by (rule nth_equalityI) (simp_all add: nth_rotate add.commute del: rotate_Suc)
  then show ?thesis using steps_ok [OF assms, of "length vs"] assms(2) by simp
qed

end

section \<open>Lists used as queues\<close>

text \<open>A consumer handles the elements one after the other, each with an output.\<close>

primrec run_all :: "('v \<Rightarrow> 's \<Rightarrow> ('o list \<times> 's) option) \<Rightarrow> 'v list \<Rightarrow> 's \<Rightarrow> ('o list \<times> 's) option" where
  "run_all f [] s = Some ([], s)"
| "run_all f (v # vs) s = do { (o1, s) \<leftarrow> f v s; (os, s) \<leftarrow> run_all f vs s; Some (o1 @ os, s) }"

text \<open>A list that is filled at its end and emptied from its front.\<close>

locale fifo_list =
  fixes rel :: "'l \<Rightarrow> 'v list \<Rightarrow> bool"
    and num :: "'l \<Rightarrow> int"
    and append :: "'l \<Rightarrow> 'v \<Rightarrow> (int \<times> 'l) option"
    and pop :: "'l \<Rightarrow> ((int \<times> 'v option) \<times> 'l) option"
  assumes num_ok: "rel l vs \<Longrightarrow> num l = int (length vs)"
    and append_ok: "rel l vs \<Longrightarrow> \<exists>l'. append l v = Some (int (length vs) + 1, l') \<and> rel l' (vs @ [v])"
    and pop_ok: "rel l (v # vs) \<Longrightarrow> \<exists>l'. pop l = Some ((int (length vs), Some v), l') \<and> rel l' vs"
begin

text \<open>The loop that pops and handles while the list is not empty.\<close>

fun consume :: "('v \<Rightarrow> 's \<Rightarrow> ('o list \<times> 's) option) \<Rightarrow> nat \<Rightarrow> 'l \<Rightarrow> 's \<Rightarrow> ('o list \<times> 'l \<times> 's) option" where
  "consume f 0 l s = (if num l = 0 then Some ([], l, s) else None)"
| "consume f (Suc n) l s = (if num l = 0 then Some ([], l, s) else do {
     ((_, v), l) \<leftarrow> pop l;
     m \<leftarrow> v;
     (o1, s) \<leftarrow> f m s;
     (os, l, s) \<leftarrow> consume f n l s;
     Some (o1 @ os, l, s) })"

lemma consume_ok:
  assumes "rel l vs" "run_all f vs s = Some (os, s')"
  shows "\<exists>l'. consume f (length vs) l s = Some (os, l', s') \<and> rel l' []"
  using assms
proof (induction vs arbitrary: l s os)
  case Nil
  then show ?case using num_ok [OF Nil.prems(1)] by auto
next
  case (Cons v vs)
  obtain o1 s1 os1 where f: "f v s = Some (o1, s1)" "run_all f vs s1 = Some (os1, s')" "os = o1 @ os1"
    using Cons.prems(2) by (auto simp: bind_eq_Some_conv)
  obtain l1 where l1: "pop l = Some ((int (length vs), Some v), l1)" "rel l1 vs" using pop_ok [OF Cons.prems(1)] by blast
  show ?case using Cons.IH [OF l1(2) f(2)] f(1,3) l1(1) num_ok [OF Cons.prems(1)] by auto
qed

end

end
