(* ===== verification/CListSpec.thy ===== *)
theory CListSpec
  imports CList Interfaces
begin

text \<open>
  Correctness of the list of \<open>include/comserv/clist.h\<close>. The specification is a list of
  values with a cursor: a position of the list, or its length when the cursor is on the tag
  node. The first section says what each pointer update does to the ring, the next ones give
  the specification and the relation to the ring, with one refinement lemma per call; the
  properties at the end lift them to sequences of calls on a fresh list, which behave as
  specified, never touch freed memory and never leak a node.
\<close>

section \<open>Pointer surgery: what each update does to the ring\<close>

lemma pop_front_dll:
  assumes inv: "dll_inv l (x # ys)"
  shows "\<exists>l'. pop_front l = Some (int (length ys), l') \<and> dll_inv l' ys \<and> m_pTag l' = m_pTag l \<and>
     m_pCurrent l' = hd (ys @ [m_pTag l]) \<and> map (val (heap l')) (m_pTag l # ys) = map (val (heap l)) (m_pTag l # ys)"
proof -
  have inv': "dll_inv l ([] @ x # ys)" using inv by simp
  note R = ring_around [OF inv']
  obtain n where n: "load l x = Some n" "m_next n = hd (ys @ [m_pTag l])"
    using ring_load [OF inv'] by metis
  let ?n = "hd (ys @ [m_pTag l])"
  let ?l = "l\<lparr>m_pCurrent := ?n,
      heap := (upd_next (upd_prev (heap l) ?n (m_pTag l)) (m_pTag l) ?n)(x := None),
      m_pHead := ?n, m_count := m_count l - 1, m_pTail := (if ys = [] then m_pTag l else m_pTail l)\<rparr>"
  have "pop_front l = Some (int (length ys), ?l)"
    using R n dll_invD(6,8) [OF inv] by (simp add: pop_front_def heap_simps Let_def)
  moreover have "dll_inv ?l ([] @ ys)"
    by (rule dll_inv_unlink [where l = l and x = x])
      (use inv R dll_invD(7) [OF inv] in \<open>auto simp: heap_simps\<close>)
  moreover have "map (val (heap ?l)) (m_pTag l # ys) = map (val (heap l)) (m_pTag l # ys)"
    using R by (auto simp: heap_simps)
  ultimately show ?thesis by auto
qed

lemma pop_back_dll:
  assumes inv: "dll_inv l (xs @ [x])"
  shows "\<exists>l'. pop_back l = Some (int (length xs), l') \<and> dll_inv l' xs \<and> m_pTag l' = m_pTag l \<and>
     m_pCurrent l' = last (m_pTag l # xs) \<and> map (val (heap l')) (m_pTag l # xs) = map (val (heap l)) (m_pTag l # xs)"
proof -
  define p where "p = last (m_pTag l # xs)"
  note R = ring_around [OF inv, folded p_def]
  obtain n where n: "load l x = Some n" "m_prev n = p"
    using ring_load [OF inv] p_def by metis
  have tl: "m_pTail l = x" using dll_invD(7) [OF inv] by simp
  let ?l = "l\<lparr>m_pCurrent := p,
      heap := (upd_prev (upd_next (heap l) p (m_pTag l)) (m_pTag l) p)(x := None),
      m_pTail := p, m_count := m_count l - 1, m_pHead := (if xs = [] then m_pTag l else m_pHead l)\<rparr>"
  have "pop_back l = Some (int (length xs), ?l)"
    using R n tl dll_invD(8) [OF inv] by (simp add: pop_back_def heap_simps Let_def)
  moreover have "dll_inv ?l (xs @ [])"
    by (rule dll_inv_unlink [where l = l and x = x, folded p_def])
      (use inv R dll_invD(6) [OF inv] in \<open>auto simp: heap_simps hd_append p_def\<close>)
  moreover have "map (val (heap ?l)) (m_pTag l # xs) = map (val (heap l)) (m_pTag l # xs)"
    using R by (auto simp: heap_simps)
  ultimately show ?thesis by (auto simp: p_def)
qed

lemma pop_middle_dll:
  assumes inv: "dll_inv l (xs @ x # ys)" and mid: "xs \<noteq> []" "ys \<noteq> []" and cur: "m_pCurrent l = x"
  shows "\<exists>l'. pop_current l = Some (int (length (xs @ ys)), l') \<and> dll_inv l' (xs @ ys) \<and> m_pTag l' = m_pTag l \<and>
     m_pCurrent l' = hd ys \<and> map (val (heap l')) (m_pTag l # xs @ ys) = map (val (heap l)) (m_pTag l # xs @ ys)"
proof -
  note R = ring_around [OF inv]
  obtain n where n: "load l x = Some n" "m_prev n = last xs" "m_next n = hd ys"
    using ring_load [OF inv] mid by (metis hd_append2 last_ConsR)
  have nt: "hd ys \<noteq> m_pTag l" "last xs \<noteq> m_pTag l"
    using dll_invD(2) [OF inv] mid last_in_set list.set_sel(1) by fastforce+
  let ?l = "l\<lparr>heap := upd_next (upd_prev ((heap l)(x := None)) (hd ys) (last xs)) (last xs) (hd ys),
      m_pCurrent := hd ys, m_count := m_count l - 1\<rparr>"
  have "pop_current l = Some (int (length (xs @ ys)), ?l)"
    using R n nt mid cur dll_invD(8) [OF inv]
    by (simp add: pop_current_def heap_simps Let_def)
  moreover have "dll_inv ?l (xs @ ys)"
    by (rule dll_inv_unlink [where l = l and x = x])
      (use inv R dll_invD(6,7) [OF inv] mid in \<open>auto simp: heap_simps hd_append\<close>)
  moreover have "map (val (heap ?l)) (m_pTag l # xs @ ys) = map (val (heap l)) (m_pTag l # xs @ ys)"
    using R by (auto simp: heap_simps)
  ultimately show ?thesis by auto
qed

lemma push_front_dll:
  assumes inv: "dll_inv l as"
  shows "\<exists>l'. push_front_r l v = Some (int (length as) + 1, l') \<and> dll_inv l' (brk l # as) \<and> m_pTag l' = m_pTag l \<and>
     m_pCurrent l' = brk l \<and> map (val (heap l')) (brk l # m_pTag l # as) = Some v # map (val (heap l)) (m_pTag l # as)"
proof -
  note F = ring_fresh [OF inv]
  let ?h = "hd (as @ [m_pTag l])"
  have hin: "?h \<in> set (m_pTag l # as)" by (cases as) auto
  then have hh: "heap l ?h \<noteq> None" "?h \<noteq> brk l"
    using dll_invD(3,5) [OF inv] by blast+
  let ?l = "l\<lparr>brk := Suc (brk l), m_pCurrent := brk l,
      heap := upd_next (upd_prev ((heap l)(brk l \<mapsto> \<lparr>m_value = Some v, m_prev = m_pTag l, m_next = ?h\<rparr>))
                ?h (brk l)) (m_pTag l) (brk l),
      m_pHead := brk l, m_pTail := (if as = [] then brk l else m_pTail l), m_count := m_count l + 1\<rparr>"
  have "push_front_r l v = Some (int (length as) + 1, ?l)"
    using F hh dll_invD(6,8) [OF inv]
    by (cases as) (auto simp: push_front_r_def new_node_def heap_simps Let_def)
  moreover have "dll_inv ?l ([] @ brk l # as)"
    by (rule dll_inv_link_in [where l = l])
      (use inv F hh dll_invD(7) [OF inv] in \<open>auto simp: heap_simps\<close>)
  moreover have "map (val (heap ?l)) (brk l # m_pTag l # as) = Some v # map (val (heap l)) (m_pTag l # as)"
    using F by (auto simp: heap_simps)
  ultimately show ?thesis by auto
qed

lemma push_back_dll:
  assumes inv: "dll_inv l as"
  shows "\<exists>l'. push_back_r l v = Some (int (length as) + 1, l') \<and> dll_inv l' (as @ [brk l]) \<and> m_pTag l' = m_pTag l \<and>
     m_pCurrent l' = brk l \<and> map (val (heap l')) (m_pTag l # as @ [brk l]) = map (val (heap l)) (m_pTag l # as) @ [Some v]"
proof -
  define t where "t = last (m_pTag l # as)"
  note F = ring_fresh [OF inv]
  have "t \<in> set (m_pTag l # as)" unfolding t_def by (metis last_in_set list.discI)
  then have hh: "heap l t \<noteq> None" "t \<noteq> brk l"
    using dll_invD(3,5) [OF inv] by blast+
  have tl: "m_pTail l = t" "as = [] \<Longrightarrow> t = m_pTag l" "m_count l = 0 \<longleftrightarrow> as = []"
    using dll_invD(7,8) [OF inv] by (auto simp: t_def)
  let ?l = "l\<lparr>brk := Suc (brk l), m_pCurrent := brk l,
      heap := upd_prev (upd_next ((heap l)(brk l \<mapsto> \<lparr>m_value = Some v, m_prev = t, m_next = m_pTag l\<rparr>))
                t (brk l)) (m_pTag l) (brk l),
      m_pHead := (if as = [] then brk l else m_pHead l), m_pTail := brk l, m_count := m_count l + 1\<rparr>"
  have "push_back_r l v = Some (int (length as) + 1, ?l)"
    using F hh tl dll_invD(8) [OF inv]
    by (cases "as = []") (auto simp: push_back_r_def new_node_def heap_simps Let_def)
  moreover have "dll_inv ?l (as @ brk l # [])"
    by (rule dll_inv_link_in [where l = l, folded t_def])
      (use inv F hh dll_invD(6) [OF inv] in \<open>auto simp: heap_simps hd_append t_def\<close>)
  moreover have "map (val (heap ?l)) (m_pTag l # as @ [brk l]) = map (val (heap l)) (m_pTag l # as) @ [Some v]"
    using F by (auto simp: heap_simps)
  ultimately show ?thesis by auto
qed

lemma insert_between_dll:
  assumes inv: "dll_inv l (xs @ ys)" and ne: "xs \<noteq> []" "ys \<noteq> []"
    and l': "l' = l\<lparr>brk := Suc (brk l), m_pCurrent := brk l,
      heap := upd_prev (upd_next ((heap l)(brk l \<mapsto> \<lparr>m_value = Some v, m_prev = last xs, m_next = hd ys\<rparr>))
                (last xs) (brk l)) (hd ys) (brk l), m_count := m_count l + 1\<rparr>"
  shows "dll_inv l' (xs @ brk l # ys)"
    and "map (val (heap l')) (m_pTag l # xs @ brk l # ys) =
     map (val (heap l)) (m_pTag l # xs) @ Some v # map (val (heap l)) ys"
proof -
  note F = ring_fresh [OF inv]
  have "last xs \<in> set (m_pTag l # xs @ ys)" "hd ys \<in> set (m_pTag l # xs @ ys)" using ne by auto
  then have hh: "heap l (last xs) \<noteq> None" "heap l (hd ys) \<noteq> None" "last xs \<noteq> brk l" "hd ys \<noteq> brk l"
    using dll_invD(3,5) [OF inv] by blast+
  show "dll_inv l' (xs @ brk l # ys)"
    unfolding l' by (rule dll_inv_link_in [where l = l])
      (use inv F hh ne dll_invD(6,7) [OF inv] in \<open>auto simp: heap_simps hd_append\<close>)
  show "map (val (heap l')) (m_pTag l # xs @ brk l # ys) =
     map (val (heap l)) (m_pTag l # xs) @ Some v # map (val (heap l)) ys"
    unfolding l' using F by (auto simp: heap_simps)
qed

section \<open>Specification: a list of values with a cursor\<close>

type_synonym 'v cursor_list = "'v list \<times> nat"

datatype 'v clist_op =
    Front | Back | Next | NextD | Prev | PrevD | Current | IsHead | IsTail | Reset | ResetT | ResetD
  | ResetPos int | Get int | SetAt int 'v | PushFront 'v | PushBack 'v | Insert 'v
  | InsertSort 'v int | PopFront | PopBack | PopCurrent | Contain 'v | Index 'v
  | RemoveVal 'v | RemoveAll | Iterate | Count

type_synonym 'v clist_out = "int \<times> 'v list"

fun spec_pop_current :: "'v cursor_list \<Rightarrow> 'v clist_out \<times> 'v cursor_list" where
  "spec_pop_current (vs, c) =
     (if c \<ge> length vs then ((0, []), (vs, c))
      else if Suc c = length vs then ((int (length vs) - 1, [vs ! c]), (butlast vs, length vs - 2))
      else ((int (length vs) - 1, [vs ! c]), (take c vs @ drop (Suc c) vs, c)))"

definition sort_pos :: "('v::linorder) list \<Rightarrow> 'v \<Rightarrow> int \<Rightarrow> nat" where
  "sort_pos vs v mode = length (takeWhile (\<lambda>w. if mode = 0 then v \<ge> w else v \<le> w) vs)"

definition insert_at :: "'v list \<Rightarrow> nat \<Rightarrow> 'v \<Rightarrow> 'v list" where
  "insert_at vs k v = take k vs @ v # drop k vs"

definition first_index :: "'v list \<Rightarrow> 'v \<Rightarrow> nat" where
  "first_index vs v = length (takeWhile (\<lambda>w. w \<noteq> v) vs)"

fun spec_op :: "('v::linorder) clist_op \<Rightarrow> 'v cursor_list \<Rightarrow> ('v clist_out \<times> 'v cursor_list) option" where
  "spec_op Front (vs, c) = Some (if vs = [] then ((0, []), (vs, c)) else ((1, [hd vs]), (vs, 0)))"
| "spec_op Back (vs, c) =
     Some (if vs = [] then ((0, []), (vs, c)) else ((1, [last vs]), (vs, length vs - 1)))"
| "spec_op Next (vs, c) =
     Some (if vs = [] \<or> Suc c = length vs then ((0, []), (vs, c))
           else let c' = (if c = length vs then 0 else Suc c) in ((1, [vs ! c']), (vs, c')))"
| "spec_op NextD (vs, c) =
     Some (if vs = [] \<or> c = 0 \<and> length vs = 1 then ((1, []), (vs, c))
           else let c' = (if Suc c \<ge> length vs then 0 else Suc c) in ((1, [vs ! c']), (vs, c')))"
| "spec_op Prev (vs, c) = (if vs = [] then None else
     Some (if c = 0 then ((0, []), (vs, c)) else ((1, [vs ! (c - 1)]), (vs, c - 1))))"
| "spec_op PrevD (vs, c) = (if vs = [] then None else
     Some (if c = 0 \<and> length vs = 1 then ((1, []), (vs, c))
           else let c' = (if c = 0 then length vs - 1 else c - 1) in ((1, [vs ! c']), (vs, c'))))"
| "spec_op Current (vs, c) =
     Some (if c < length vs then ((1, [vs ! c]), (vs, c)) else ((0, []), (vs, c)))"
| "spec_op IsHead (vs, c) = Some ((of_bool (vs \<noteq> [] \<and> c = 0), []), (vs, c))"
| "spec_op IsTail (vs, c) = Some ((of_bool (Suc c = length vs), []), (vs, c))"
| "spec_op Reset (vs, c) = Some ((0, []), (vs, 0))"
| "spec_op ResetT (vs, c) = Some ((0, []), (vs, length vs - 1))"
| "spec_op ResetD (vs, c) = Some ((0, []), (vs, length vs))"
| "spec_op (ResetPos i) (vs, c) =
     (if i < 0 \<or> i > int (length vs) then None
      else if i = int (length vs) then Some ((0, []), (vs, c)) else Some ((1, []), (vs, nat i)))"
| "spec_op (Get i) (vs, c) =
     Some (if i < 0 \<or> i \<ge> int (length vs) then ((0, []), (vs, c))
           else ((1, [vs ! nat i]), (vs, nat i)))"
| "spec_op (SetAt i v) (vs, c) =
     Some (if i < 0 \<or> i \<ge> int (length vs) then ((0, []), (vs, c))
           else ((1, []), (vs[nat i := v], nat i)))"
| "spec_op (PushFront v) (vs, c) = Some ((int (length vs) + 1, []), (v # vs, 0))"
| "spec_op (PushBack v) (vs, c) = Some ((int (length vs) + 1, []), (vs @ [v], length vs))"
| "spec_op (Insert v) (vs, c) =
     Some (if vs = [] \<or> c = 0 then ((int (length vs) + 1, []), (v # vs, 0))
           else if c = length vs then ((0, []), (vs, c))
           else ((int (length vs) + 1, []), (insert_at vs (Suc c) v, Suc c)))"
| "spec_op (InsertSort v mode) (vs, c) =
     (let k = sort_pos vs v mode in Some ((int (length vs) + 1, []), (insert_at vs k v, k)))"
| "spec_op PopFront (vs, c) =
     Some (if vs = [] then ((0, []), (vs, c)) else ((int (length vs) - 1, [hd vs]), (tl vs, 0)))"
| "spec_op PopBack (vs, c) =
     Some (if vs = [] then ((0, []), (vs, c))
           else ((int (length vs) - 1, [last vs]), (butlast vs, length vs - 2)))"
| "spec_op PopCurrent s = Some (spec_pop_current s)"
| "spec_op (Contain v) (vs, c) =
     (let k = c + first_index (drop c vs) v in
      Some ((of_bool (k < length vs), []), (vs, k)))"
| "spec_op (Index v) (vs, c) =
     Some ((if v \<in> set vs then int (first_index vs v) else - 1, []), (vs, c))"
| "spec_op (RemoveVal v) (vs, c) =
     (let ws = filter (\<lambda>w. w \<noteq> v) vs in
      Some ((int (length vs) - int (length ws), []), (ws, length ws)))"
| "spec_op RemoveAll (vs, c) = Some ((0, []), ([], 0))"
| "spec_op Iterate (vs, c) = Some ((int (length vs), vs), (vs, c))"
| "spec_op Count (vs, c) = Some ((int (length vs), []), (vs, c))"

text \<open>The same calls on the pointer implementation.\<close>

definition out_b :: "((bool \<times> 'v option) \<times> 'v dll) option \<Rightarrow> ('v clist_out \<times> 'v dll) option" where
  "out_b r = do { ((b, v), l) \<leftarrow> r; Some ((of_bool b, (case v of None \<Rightarrow> [] | Some w \<Rightarrow> [w])), l) }"

definition out_i :: "((int \<times> 'v option) \<times> 'v dll) option \<Rightarrow> ('v clist_out \<times> 'v dll) option" where
  "out_i r = do { ((c, v), l) \<leftarrow> r; Some ((c, (case v of None \<Rightarrow> [] | Some w \<Rightarrow> [w])), l) }"

definition out_c :: "(int \<times> 'v dll) option \<Rightarrow> ('v clist_out \<times> 'v dll) option" where
  "out_c r = do { (c, l) \<leftarrow> r; Some ((c, []), l) }"

definition out_t :: "(bool \<times> 'v dll) option \<Rightarrow> ('v clist_out \<times> 'v dll) option" where
  "out_t r = do { (b, l) \<leftarrow> r; Some ((of_bool b, []), l) }"

fun clist_exec :: "('v::linorder) clist_op \<Rightarrow> 'v dll \<Rightarrow> ('v clist_out \<times> 'v dll) option" where
  "clist_exec Front l = out_b (front_v l)"
| "clist_exec Back l = out_b (back_v l)"
| "clist_exec Next l = out_b (next_v l)"
| "clist_exec NextD l = out_b (next_d l)"
| "clist_exec Prev l = out_b (prev_v l)"
| "clist_exec PrevD l = out_b (prev_d l)"
| "clist_exec Current l = out_b (clist_current l)"
| "clist_exec IsHead l = do { b \<leftarrow> ishead l; Some ((of_bool b, []), l) }"
| "clist_exec IsTail l = do { b \<leftarrow> istail l; Some ((of_bool b, []), l) }"
| "clist_exec Reset l = Some ((0, []), clist_reset l)"
| "clist_exec ResetT l = Some ((0, []), reset_t l)"
| "clist_exec ResetD l = Some ((0, []), reset_d l)"
| "clist_exec (ResetPos i) l = out_t (reset_pos l i)"
| "clist_exec (Get i) l = out_b (clist_get l i)"
| "clist_exec (SetAt i v) l = out_t (set_at l i v)"
| "clist_exec (PushFront v) l = out_c (push_front_r l v)"
| "clist_exec (PushBack v) l = out_c (push_back_r l v)"
| "clist_exec (Insert v) l = out_c (insert_r l v)"
| "clist_exec (InsertSort v mode) l = out_c (insertSort l v mode)"
| "clist_exec PopFront l = out_i (pop_front_v l)"
| "clist_exec PopBack l = out_i (pop_back_v l)"
| "clist_exec PopCurrent l = out_i (pop_current_v l)"
| "clist_exec (Contain v) l = out_t (contain l v)"
| "clist_exec (Index v) l = do { i \<leftarrow> clist_index l v; Some ((i, []), l) }"
| "clist_exec (RemoveVal v) l = out_c (remove_v l v)"
| "clist_exec RemoveAll l = do { l \<leftarrow> remove_all l; Some ((0, []), l) }"
| "clist_exec Iterate l = do { vs \<leftarrow> iter_collect l (iter_begin l);
     Some ((int (length vs), concat (map (\<lambda>v. case v of None \<Rightarrow> [] | Some w \<Rightarrow> [w]) vs)), l) }"
| "clist_exec Count l = Some ((clist_count l, []), l)"

fun clist_run :: "('v::linorder) clist_op list \<Rightarrow> 'v dll \<Rightarrow> ('v clist_out list \<times> 'v dll) option" where
  "clist_run [] l = Some ([], l)"
| "clist_run (p # ps) l = do { (r, l) \<leftarrow> clist_exec p l; (rs, l) \<leftarrow> clist_run ps l; Some (r # rs, l) }"

fun spec_run :: "('v::linorder) clist_op list \<Rightarrow> 'v cursor_list \<Rightarrow> ('v clist_out list \<times> 'v cursor_list) option" where
  "spec_run [] s = Some ([], s)"
| "spec_run (p # ps) s = do { (r, s) \<leftarrow> spec_op p s; (rs, s) \<leftarrow> spec_run ps s; Some (r # rs, s) }"

section \<open>Representation of a cursor list by the ring\<close>

definition clist_rep :: "'v dll \<Rightarrow> addr list \<Rightarrow> 'v list \<Rightarrow> nat \<Rightarrow> bool" where
  "clist_rep l as vs c \<longleftrightarrow> dll_inv l as \<and> map (val (heap l)) (m_pTag l # as) = None # map Some vs \<and> c \<le> length vs \<and>
     m_pCurrent l = (as @ [m_pTag l]) ! c"

definition clist_rel :: "'v dll \<Rightarrow> 'v cursor_list \<Rightarrow> bool" where
  "clist_rel l s \<longleftrightarrow> (\<exists>as. clist_rep l as (fst s) (snd s))"

lemma clist_relI: "clist_rep l as vs c \<Longrightarrow> clist_rel l (vs, c)"
  by (auto simp: clist_rel_def)

lemma rep_ring: "clist_rep l as vs c \<Longrightarrow> ring_rep l as vs"
  by (simp add: clist_rep_def ring_rep_def)

lemmas rep_length = rr_length [OF rep_ring]
  and rep_vals = rr_vals [OF rep_ring]
  and rep_inv = rr_inv [OF rep_ring]
  and rep_count = rr_count [OF rep_ring]
  and rep_head = rr_head [OF rep_ring]
  and rep_tail = rr_tail [OF rep_ring]
  and rep_end = rr_end [OF rep_ring]
  and rep_at = rr_at [OF rep_ring]
  and rep_alloc = rr_alloc [OF rep_ring]

lemma rep_move:
  assumes "clist_rep l as vs c" and "c' \<le> length vs" and "p = (as @ [m_pTag l]) ! c'"
  shows "clist_rep (l\<lparr>m_pCurrent := p\<rparr>) as vs c'"
  using assms by (simp add: clist_rep_def)

lemma rep_cursor: "clist_rep l as vs c \<Longrightarrow> m_pCurrent l = (as @ [m_pTag l]) ! c"
  by (simp add: clist_rep_def)

lemma rep_le: "clist_rep l as vs c \<Longrightarrow> c \<le> length vs"
  by (simp add: clist_rep_def)

lemmas rep_facts = rep_length rep_count rep_head rep_tail rep_cursor rep_le rep_end

lemma rep_ishead: "clist_rep l as vs c \<Longrightarrow> ishead l = Some (vs \<noteq> [] \<and> c = 0)"
proof -
  assume rep: "clist_rep l as vs c"
  show ?thesis
  proof (cases "c < length vs")
    case True
    obtain n where "load l ((as @ [m_pTag l]) ! c) = Some n" "(m_prev n = m_pTag l) = (c = 0)"
      "(as @ [m_pTag l]) ! c \<noteq> m_pTag l" using rep_at [OF rep True] by metis
    then show ?thesis using True rep_cursor [OF rep] by (auto simp: ishead_def)
  next
    case False
    then show ?thesis using rep_facts [OF rep] by (auto simp: ishead_def)
  qed
qed

lemma rep_istail: "clist_rep l as vs c \<Longrightarrow> istail l = Some (Suc c = length vs)"
proof -
  assume rep: "clist_rep l as vs c"
  show ?thesis
  proof (cases "c < length vs")
    case True
    obtain n where "load l ((as @ [m_pTag l]) ! c) = Some n" "(m_next n = m_pTag l) = (Suc c = length vs)"
      "(as @ [m_pTag l]) ! c \<noteq> m_pTag l" using rep_at [OF rep True] by metis
    then show ?thesis using True rep_cursor [OF rep] by (auto simp: istail_def)
  next
    case False
    then show ?thesis using rep_facts [OF rep] by (auto simp: istail_def)
  qed
qed

text \<open>Reading the value at a position.\<close>

lemma rep_load_value:
  "clist_rep l as vs c \<Longrightarrow> c < length vs \<Longrightarrow>
   \<exists>n. load l (m_pCurrent l) = Some n \<and> m_value n = Some (vs ! c)"
  using rep_at rep_cursor by metis

lemma rep_cursor_tag: "clist_rep l as vs c \<Longrightarrow> (m_pCurrent l = m_pTag l) = (c = length vs)"
  using rep_at [of l as vs c c] rep_facts by (metis le_neq_implies_less)

lemma rep_cursor_null: "clist_rep l as vs c \<Longrightarrow> m_pCurrent l \<noteq> NULL"
proof -
  assume rep: "clist_rep l as vs c"
  show ?thesis
    using rep_at [OF rep, of c] rep_cursor [OF rep] rep_cursor_tag [OF rep] rep_le [OF rep]
      ring_fresh(6) [OF rep_inv [OF rep]] by (metis le_neq_implies_less)
qed

lemma rep_head_ne: "clist_rep l as vs c \<Longrightarrow> vs \<noteq> [] \<Longrightarrow> m_pHead l \<noteq> m_pTag l"
  using rep_at [of l as vs c 0] rep_head by (metis length_greater_0_conv)

lemma rep_tail_ne: "clist_rep l as vs c \<Longrightarrow> vs \<noteq> [] \<Longrightarrow> m_pTail l \<noteq> m_pTag l"
  using rep_at [of l as vs c "length vs - 1"] rep_tail
  by (metis diff_less length_greater_0_conv zero_less_one)

lemma front_rep:
  assumes rep: "clist_rep l as vs c"
  shows "clist_front l = Some (if vs = [] then (False, l) else (True, l\<lparr>m_pCurrent := m_pHead l\<rparr>))"
  using rep_head_ne [OF rep] rep_count [OF rep] by (auto simp: clist_front_def)

lemma back_rep:
  assumes rep: "clist_rep l as vs c"
  shows "clist_back l = Some (if vs = [] then (False, l) else (True, l\<lparr>m_pCurrent := m_pTail l\<rparr>))"
  using rep_tail_ne [OF rep] rep_count [OF rep] by (auto simp: clist_back_def)

lemma next_rep:
  assumes rep: "clist_rep l as vs c"
  shows "\<exists>l'. clist_next l = Some (vs \<noteq> [] \<and> Suc c \<noteq> length vs, l') \<and>
    clist_rep l' as vs (if vs = [] \<or> Suc c = length vs then c else if c = length vs then 0 else Suc c)"
proof (cases "c < length vs")
  case True
  obtain n where n: "load l (m_pCurrent l) = Some n" "m_next n = (as @ [m_pTag l]) ! Suc c"
    "(m_next n = m_pTag l) = (Suc c = length vs)"
    using rep_at [OF rep True] rep_cursor [OF rep] by metis
  then show ?thesis
    using True rep rep_istail [OF rep] rep_move [OF rep, of "Suc c" "m_next n"]
    by (auto simp: clist_next_def Let_def)
next
  case False
  then have c: "c = length vs" using rep_le [OF rep] by simp
  obtain n where n: "load l (m_pCurrent l) = Some n" "m_next n = (as @ [m_pTag l]) ! 0"
    using tag_at [OF rep_inv [OF rep]] rep_cursor_tag [OF rep] c by metis
  have t: "(m_next n = m_pTag l) = (vs = [])"
    using rep_head_ne [OF rep] rep_head [OF rep] rep_end [OF rep] n(2) by (cases vs) auto
  show ?thesis
    using rep n t c rep_istail [OF rep] rep_move [OF rep, of 0 "m_next n"]
    by (cases vs) (auto simp: clist_next_def Let_def)
qed

lemma prev_rep:
  assumes rep: "clist_rep l as vs c"
  shows "\<exists>l'. clist_prev l = Some (vs = [] \<or> c \<noteq> 0, l') \<and>
    clist_rep l' as vs (if vs = [] \<or> c = 0 then c else c - 1)"
proof (cases "c < length vs")
  case True
  obtain n where n: "load l (m_pCurrent l) = Some n" "m_prev n = (m_pTag l # as) ! c"
    using rep_at [OF rep True] rep_cursor [OF rep] by metis
  have "c \<noteq> 0 \<Longrightarrow> m_prev n = (as @ [m_pTag l]) ! (c - 1)"
    using n True rep_length [OF rep] by (cases c) (auto simp: nth_append)
  then show ?thesis
    using True rep n rep_ishead [OF rep] rep_move [OF rep, of "c - 1" "m_prev n"]
    by (auto simp: clist_prev_def)
next
  case False
  then have c: "c = length vs" using rep_le [OF rep] by simp
  obtain n where n: "load l (m_pCurrent l) = Some n" "m_prev n = (m_pTag l # as) ! length as"
    using tag_at [OF rep_inv [OF rep]] rep_cursor_tag [OF rep] c by metis
  have "m_prev n = (as @ [m_pTag l]) ! (length vs - 1)"
    using n rep_length [OF rep] by (cases vs) (auto simp: nth_append)
  then show ?thesis
    using rep n c rep_ishead [OF rep] rep_move [OF rep, of "length vs - 1" "m_prev n"]
    by (auto simp: clist_prev_def)
qed

lemma current_rep:
  assumes rep: "clist_rep l as vs c"
  shows "clist_current l = Some (if c < length vs then (True, Some (vs ! c)) else (False, None), l)"
  using rep_load_value [OF rep] rep_cursor_tag [OF rep] rep_cursor_null [OF rep] rep_le [OF rep]
  by (auto simp: clist_current_def)


text \<open>One call of the implementation against one call of the specification.\<close>

definition op_refines :: "('v::linorder) clist_op \<Rightarrow> 'v dll \<Rightarrow> 'v cursor_list \<Rightarrow> bool" where
  "op_refines p l s \<longleftrightarrow> (case spec_op p s of None \<Rightarrow> True
     | Some (r, s') \<Rightarrow> \<exists>l'. clist_exec p l = Some (r, l') \<and> clist_rel l' s')"

lemma op_refinesI:
  assumes "spec_op p s = Some (r, (vs', c'))" and "clist_exec p l = Some (r, l')"
    and "clist_rep l' as' vs' c'"
  shows "op_refines p l s"
  using assms clist_relI by (auto simp: op_refines_def)

lemmas out_defs = out_b_def out_i_def out_c_def out_t_def

lemma refines_front: "clist_rep l as vs c \<Longrightarrow> op_refines Front l (vs, c)"
proof -
  assume rep: "clist_rep l as vs c"
  show ?thesis
  proof (cases "vs = []")
    case True
    then show ?thesis
      by (intro op_refinesI [OF _ _ rep [unfolded True]]) (use front_rep [OF rep] in \<open>auto simp: out_defs front_v_def\<close>)
  next
    case False
    have m: "clist_rep (l\<lparr>m_pCurrent := m_pHead l\<rparr>) as vs 0"
      using rep_move [OF rep] rep_head [OF rep] by simp
    obtain n where "load l (m_pHead l) = Some n" "m_value n = Some (hd vs)"
      using rep_load_value [OF m] False by (auto simp: hd_conv_nth)
    then show ?thesis
      by (intro op_refinesI [OF _ _ m]) (use False front_rep [OF rep] in \<open>auto simp: out_defs front_v_def\<close>)
  qed
qed

lemma refines_back: "clist_rep l as vs c \<Longrightarrow> op_refines Back l (vs, c)"
proof -
  assume rep: "clist_rep l as vs c"
  show ?thesis
  proof (cases "vs = []")
    case True
    then show ?thesis
      by (intro op_refinesI [OF _ _ rep [unfolded True]]) (use back_rep [OF rep] in \<open>auto simp: out_defs back_v_def\<close>)
  next
    case False
    have m: "clist_rep (l\<lparr>m_pCurrent := m_pTail l\<rparr>) as vs (length vs - 1)"
      using rep_move [OF rep] rep_tail [OF rep] by simp
    obtain n where "load l (m_pTail l) = Some n" "m_value n = Some (last vs)"
      using rep_load_value [OF m] False by (auto simp: last_conv_nth)
    then show ?thesis
      by (intro op_refinesI [OF _ _ m]) (use False back_rep [OF rep] in \<open>auto simp: out_defs back_v_def\<close>)
  qed
qed

lemma next_v_rep:
  assumes rep: "clist_rep l as vs c"
  shows "\<exists>l'. next_v l = Some (if vs = [] \<or> Suc c = length vs then (False, None)
      else (True, Some (vs ! (if c = length vs then 0 else Suc c))), l') \<and>
    clist_rep l' as vs (if vs = [] \<or> Suc c = length vs then c else if c = length vs then 0 else Suc c)"
proof -
  obtain l' where l': "clist_next l = Some (vs \<noteq> [] \<and> Suc c \<noteq> length vs, l')"
    "clist_rep l' as vs (if vs = [] \<or> Suc c = length vs then c else if c = length vs then 0 else Suc c)"
    using next_rep [OF rep] by blast
  then show ?thesis
    using rep_load_value [OF l'(2)] rep_le [OF rep] by (cases "vs = []"; cases "Suc c = length vs"; cases "c = length vs") (auto simp: next_v_def)
qed

lemma prev_v_rep:
  assumes rep: "clist_rep l as vs c" and ne: "vs \<noteq> []"
  shows "\<exists>l'. prev_v l = Some (if c = 0 then (False, None) else (True, Some (vs ! (c - 1))), l') \<and>
    clist_rep l' as vs (if c = 0 then c else c - 1)"
proof -
  obtain l' where l': "clist_prev l = Some (c \<noteq> 0, l')" "clist_rep l' as vs (if c = 0 then c else c - 1)"
    using prev_rep [OF rep] ne by auto
  then show ?thesis
    using rep_load_value [OF l'(2)] rep_le [OF rep] ne by (cases c) (auto simp: prev_v_def Suc_le_eq)
qed

lemma refines_next: "clist_rep l as vs c \<Longrightarrow> op_refines Next l (vs, c)"
  using next_v_rep [of l as vs c] clist_relI
  by (fastforce simp: op_refines_def out_defs Let_def)

lemma rep_reset: "clist_rep l as vs c \<Longrightarrow> clist_rep (clist_reset l) as vs 0"
  using rep_move rep_head by (metis clist_reset_def le0)

lemma rep_reset_t: "clist_rep l as vs c \<Longrightarrow> clist_rep (reset_t l) as vs (length vs - 1)"
  using rep_move rep_tail by (metis reset_t_def diff_le_self)

lemma rep_reset_d: "clist_rep l as vs c \<Longrightarrow> clist_rep (reset_d l) as vs (length vs)"
  using rep_move rep_end by (metis reset_d_def order_refl)


lemma refines_nextd: "clist_rep l as vs c \<Longrightarrow> op_refines NextD l (vs, c)"
proof -
  assume rep: "clist_rep l as vs c"
  let ?stay = "vs = [] \<or> Suc c = length vs"
  obtain l' where l': "next_v l = Some (if ?stay then (False, None)
      else (True, Some (vs ! (if c = length vs then 0 else Suc c))), l')"
    and rep': "clist_rep l' as vs (if ?stay then c else if c = length vs then 0 else Suc c)"
    using next_v_rep [OF rep] by blast
  show ?thesis
  proof (cases "Suc c = length vs")
    case True
    then have r: "clist_rep l' as vs c" using rep' by simp
    show ?thesis
    proof (cases "c = 0")
      case z: True
      show ?thesis
        by (rule op_refinesI [OF _ _ r]) (use True z l' rep_count [OF r] in \<open>auto simp: out_defs next_d_def rep_istail [OF r]\<close>)
    next
      case False
      have "clist_current (clist_reset l') = Some ((True, Some (vs ! 0)), clist_reset l')"
        using current_rep [OF rep_reset [OF r]] True by (cases vs) simp_all
      then show ?thesis
        by (intro op_refinesI [OF _ _ rep_reset [OF r]])
          (use True False l' rep_count [OF r] in \<open>auto simp: out_defs next_d_def rep_istail [OF r]\<close>)
    qed
  next
    case F: False
    then show ?thesis
      using l' rep_le [OF rep] clist_relI [OF rep'] rep_istail [OF rep'] rep_count [OF rep']
      by (auto simp: op_refines_def out_defs next_d_def Let_def split: if_splits)
  qed
qed

lemma prev_v_empty:
  assumes rep: "clist_rep l as [] c"
  shows "\<exists>l'. clist_prev l = Some (True, l') \<and> prev_v l = None"
proof -
  obtain l' where l': "clist_prev l = Some (True, l')" "clist_rep l' as [] c"
    using prev_rep [OF rep] by auto
  have "m_pCurrent l' = m_pTag l'" using rep_cursor_tag [OF l'(2)] rep_le [OF rep] by simp
  moreover have "val (heap l') (m_pTag l') = None" using l'(2) by (simp add: clist_rep_def)
  ultimately show ?thesis
    using l' dll_load [OF ring_fresh(5) [OF rep_inv [OF l'(2)]]] by (auto simp: prev_v_def)
qed

lemma refines_prev: "clist_rep l as vs c \<Longrightarrow> op_refines Prev l (vs, c)"
proof -
  assume rep: "clist_rep l as vs c"
  show ?thesis
  proof (cases "vs = []")
    case True
    then show ?thesis by (simp add: op_refines_def)
  next
    case False
    then show ?thesis using prev_v_rep [OF rep] clist_relI by (fastforce simp: op_refines_def out_defs)
  qed
qed

lemma refines_prevd: "clist_rep l as vs c \<Longrightarrow> op_refines PrevD l (vs, c)"
proof -
  assume rep: "clist_rep l as vs c"
  show ?thesis
  proof (cases "vs = []")
    case True
    then show ?thesis by (simp add: op_refines_def)
  next
    case ne: False
    obtain l' where l': "prev_v l = Some (if c = 0 then (False, None) else (True, Some (vs ! (c - 1))), l')"
      and rep': "clist_rep l' as vs (if c = 0 then c else c - 1)"
      using prev_v_rep [OF rep ne] by blast
    show ?thesis
    proof (cases "c = 0 \<and> length vs > 1")
      case True
      have "clist_current (reset_t l') = Some ((True, Some (vs ! (length vs - 1))), reset_t l')"
        using current_rep [OF rep_reset_t [OF rep']] ne by simp
      then show ?thesis
        by (intro op_refinesI [OF _ _ rep_reset_t [OF rep']])
          (use True ne l' rep_count [OF rep'] rep_ishead [OF rep'] in \<open>auto simp: out_defs prev_d_def Let_def\<close>)
    next
      case False
      moreover have "c = 0 \<Longrightarrow> \<not> 1 < length vs \<Longrightarrow> length vs = 1" using ne by (cases vs) auto
      ultimately show ?thesis
        using ne l' clist_relI [OF rep'] rep_count [OF rep'] rep_ishead [OF rep']
        by (auto simp: op_refines_def out_defs prev_d_def Let_def split: if_splits)
    qed
  qed
qed

lemma refines_simple:
  assumes rep: "clist_rep l as vs c"
  shows "op_refines Current l (vs, c)" "op_refines IsHead l (vs, c)" "op_refines IsTail l (vs, c)"
    "op_refines Reset l (vs, c)" "op_refines ResetT l (vs, c)" "op_refines ResetD l (vs, c)"
    "op_refines Count l (vs, c)"
  using current_rep [OF rep] rep_ishead [OF rep] rep_istail [OF rep] clist_relI [OF rep]
    clist_relI [OF rep_reset [OF rep]] clist_relI [OF rep_reset_t [OF rep]]
    clist_relI [OF rep_reset_d [OF rep]] rep_count [OF rep]
  by (auto simp: op_refines_def out_defs clist_count_def)


lemma addr_walk_rep:
  assumes rep: "clist_rep l as vs c"
  shows "i + k \<le> length vs \<Longrightarrow> addr_walk l k ((as @ [m_pTag l]) ! i) = Some ((as @ [m_pTag l]) ! (i + k))"
proof (induction k arbitrary: i)
  case (Suc k)
  then have i: "i < length vs" by simp
  obtain n where "load l ((as @ [m_pTag l]) ! i) = Some n" "m_next n = (as @ [m_pTag l]) ! Suc i"
    "(as @ [m_pTag l]) ! i \<noteq> m_pTag l" "(as @ [m_pTag l]) ! i \<noteq> NULL"
    using rep_at [OF rep i] by metis
  then show ?case using Suc.prems Suc.IH [of "Suc i"] by simp
qed simp

lemma addr_pos_rep:
  assumes rep: "clist_rep l as vs c"
  shows "addr_pos l i = Some (if i < 0 \<or> i \<ge> int (length vs) then (False, l)
           else (True, l\<lparr>m_pCurrent := (as @ [m_pTag l]) ! nat i\<rparr>))"
  using addr_walk_rep [OF rep, of 0 "nat i"] rep_count [OF rep] rep_head [OF rep]
  by (auto simp: addr_pos_def)

lemma refines_get: "clist_rep l as vs c \<Longrightarrow> op_refines (Get i) l (vs, c)"
proof -
  assume rep: "clist_rep l as vs c"
  show ?thesis
  proof (cases "i < 0 \<or> i \<ge> int (length vs)")
    case True
    then show ?thesis using addr_pos_rep [OF rep, of i] clist_relI [OF rep]
      by (auto simp: op_refines_def out_defs clist_get_def)
  next
    case False
    then have m: "clist_rep (l\<lparr>m_pCurrent := (as @ [m_pTag l]) ! nat i\<rparr>) as vs (nat i)"
      by (intro rep_move [OF rep]) auto
    then show ?thesis
      using False addr_pos_rep [OF rep, of i] rep_load_value [OF m] clist_relI [OF m]
      by (auto simp: op_refines_def out_defs clist_get_def nat_less_iff)
  qed
qed

lemma refines_reset_pos: "clist_rep l as vs c \<Longrightarrow> op_refines (ResetPos i) l (vs, c)"
proof -
  assume rep: "clist_rep l as vs c"
  show ?thesis
    using addr_pos_rep [OF rep, of i] clist_relI [OF rep] rep_count [OF rep]
      clist_relI [OF rep_move [OF rep, of "nat i"]]
    by (auto simp: op_refines_def out_defs reset_pos_def)
qed

lemma rep_set_value:
  assumes rep: "clist_rep l as vs c" and c: "c < length vs"
  shows "\<exists>l'. set_value l (m_pCurrent l) (Some v) = Some l' \<and> clist_rep l' as (vs[c := v]) c"
proof -
  have cur: "m_pCurrent l = as ! c" using c rep_length [OF rep] rep_cursor [OF rep] by (simp add: nth_append)
  have "clist_rep (l\<lparr>heap := upd_value (heap l) (as ! c) (Some v)\<rparr>) as (vs[c := v]) c"
    using rr_set_value(2) [OF rep_ring [OF rep] c, of v] rep
    by (simp add: clist_rep_def ring_rep_def)
  then show ?thesis using rr_set_value(1) [OF rep_ring [OF rep] c] cur by simp
qed

lemma refines_set_at: "clist_rep l as vs c \<Longrightarrow> op_refines (SetAt i v) l (vs, c)"
proof -
  assume rep: "clist_rep l as vs c"
  show ?thesis
  proof (cases "i < 0 \<or> i \<ge> int (length vs)")
    case True
    then show ?thesis using addr_pos_rep [OF rep, of i] clist_relI [OF rep]
      by (auto simp: op_refines_def out_defs set_at_def)
  next
    case False
    then have m: "clist_rep (l\<lparr>m_pCurrent := (as @ [m_pTag l]) ! nat i\<rparr>) as vs (nat i)"
      by (intro rep_move [OF rep]) auto
    obtain l' where "set_value (l\<lparr>m_pCurrent := (as @ [m_pTag l]) ! nat i\<rparr>) ((as @ [m_pTag l]) ! nat i) (Some v) = Some l'"
      "clist_rep l' as (vs[nat i := v]) (nat i)"
      using rep_set_value [OF m, of v] False by (auto simp: nat_less_iff)
    then show ?thesis
      using False addr_pos_rep [OF rep, of i] clist_relI
      by (fastforce simp: op_refines_def out_defs set_at_def)
  qed
qed


text \<open>Updates of the ring, carried over to the list of values.\<close>

lemma repI:
  assumes "dll_inv l as" and "map (val (heap l)) (m_pTag l # as) = None # map Some vs"
    and "c \<le> length vs" and "m_pCurrent l = (as @ [m_pTag l]) ! c"
  shows "clist_rep l as vs c"
  using assms by (simp add: clist_rep_def)

lemma push_front_rep:
  assumes rep: "clist_rep l as vs c"
  shows "\<exists>l' as'. push_front_r l v = Some (int (length vs) + 1, l') \<and> clist_rep l' as' (v # vs) 0"
  using push_front_dll [OF rep_inv [OF rep], of v] rep rep_length [OF rep]
  by (fastforce simp: clist_rep_def)

lemma push_back_rep:
  assumes rep: "clist_rep l as vs c"
  shows "\<exists>l' as'. push_back_r l v = Some (int (length vs) + 1, l') \<and>
           clist_rep l' as' (vs @ [v]) (length vs)"
proof -
  obtain l' where "push_back_r l v = Some (int (length as) + 1, l')" "dll_inv l' (as @ [brk l])"
     "m_pTag l' = m_pTag l" "m_pCurrent l' = brk l"
     "map (val (heap l')) (m_pTag l # as @ [brk l]) = map (val (heap l)) (m_pTag l # as) @ [Some v]"
    using push_back_dll [OF rep_inv [OF rep], of v] by metis
  moreover have "((as @ [brk l]) @ [m_pTag l]) ! length vs = brk l"
    using rep_length [OF rep] by (simp add: nth_append)
  ultimately have "clist_rep l' (as @ [brk l]) (vs @ [v]) (length vs)"
    using rep by (simp add: clist_rep_def del: map_eq_conv)
  then show ?thesis using \<open>push_back_r l v = _\<close> rep_length [OF rep] by auto
qed

lemma pop_front_rep:
  assumes rep: "clist_rep l as (v # vs) c"
  shows "\<exists>l'. pop_front l = Some (int (length vs), l') \<and> clist_rep l' (tl as) vs 0"
proof -
  obtain a as' where as: "as = a # as'" using rep_length [OF rep] by (cases as) auto
  obtain l' where "pop_front l = Some (int (length as'), l')" "dll_inv l' as'" "m_pTag l' = m_pTag l"
     "m_pCurrent l' = hd (as' @ [m_pTag l])"
     "map (val (heap l')) (m_pTag l # as') = map (val (heap l)) (m_pTag l # as')"
    using pop_front_dll rep_inv [OF rep] unfolding as by metis
  then show ?thesis using rep rep_length [OF rep] as hd_snoc_nth [of as' "m_pTag l"]
    by (auto simp: clist_rep_def simp del: map_eq_conv)
qed

lemma pop_back_rep:
  assumes rep: "clist_rep l as (vs @ [v]) c"
  shows "\<exists>l'. pop_back l = Some (int (length vs), l') \<and> clist_rep l' (butlast as) vs (length vs - 1)"
proof -
  obtain a as' where as: "as = as' @ [a]" using rep_length [OF rep] by (cases as rule: rev_cases) auto
  obtain l' where l': "pop_back l = Some (int (length as'), l')" "dll_inv l' as'" "m_pTag l' = m_pTag l"
     "m_pCurrent l' = last (m_pTag l # as')"
     "map (val (heap l')) (m_pTag l # as') = map (val (heap l)) (m_pTag l # as')"
    using pop_back_dll rep_inv [OF rep] unfolding as by metis
  have "last (m_pTag l # as') = (as' @ [m_pTag l]) ! (length as' - 1)"
    by (cases as' rule: rev_cases) (auto simp: nth_append)
  then show ?thesis using rep rep_length [OF rep] as l'
    by (auto simp: clist_rep_def simp del: map_eq_conv)
qed


lemma refines_push:
  assumes rep: "clist_rep l as vs c"
  shows "op_refines (PushFront v) l (vs, c)" "op_refines (PushBack v) l (vs, c)"
  using push_front_rep [OF rep, of v] push_back_rep [OF rep, of v] clist_relI
  by (fastforce simp: op_refines_def out_defs)+

lemma rep_empty_count: "clist_rep l as [] c \<Longrightarrow> m_count l = 0 \<and> c = 0"
  using rep_count rep_le by fastforce

lemma refines_pop_front: "clist_rep l as vs c \<Longrightarrow> op_refines PopFront l (vs, c)"
proof (cases vs)
  case Nil
  assume "clist_rep l as vs c"
  then show ?thesis using Nil rep_empty_count clist_relI
    by (fastforce simp: op_refines_def out_defs pop_front_v_def pop_front_def)
next
  case (Cons v ws)
  assume rep: "clist_rep l as vs c"
  obtain n where "load l (m_pHead l) = Some n" "m_value n = Some v"
    using rep_at [OF rep, of 0] rep_head [OF rep] Cons by (metis length_greater_0_conv list.discI nth_Cons_0)
  then show ?thesis using Cons pop_front_rep [OF rep [unfolded Cons]] rep_count [OF rep] clist_relI
    by (fastforce simp: op_refines_def out_defs pop_front_v_def)
qed

lemma refines_pop_back: "clist_rep l as vs c \<Longrightarrow> op_refines PopBack l (vs, c)"
proof (cases vs rule: rev_cases)
  case Nil
  assume "clist_rep l as vs c"
  then show ?thesis using Nil rep_empty_count clist_relI
    by (fastforce simp: op_refines_def out_defs pop_back_v_def pop_back_def)
next
  case (snoc ws v)
  assume rep: "clist_rep l as vs c"
  obtain n where "load l (m_pTail l) = Some n" "m_value n = Some v"
    using rep_at [OF rep, of "length ws"] rep_tail [OF rep] snoc by auto
  then show ?thesis using snoc pop_back_rep [OF rep [unfolded snoc]] rep_count [OF rep] clist_relI
    by (fastforce simp: op_refines_def out_defs pop_back_v_def)
qed

text \<open>Removal at the cursor: the last node goes through \<open>pop_back\<close>, the first through
  \<open>pop_front\<close>, any other is unlinked in place.\<close>

lemma pop_current_rep:
  assumes rep: "clist_rep l as vs c" and c: "c < length vs"
  shows "\<exists>l' as'. pop_current l = Some (int (length vs) - 1, l') \<and>
     clist_rep l' as' (take c vs @ drop (Suc c) vs) (if Suc c = length vs then c - 1 else c)"
proof -
  obtain n where n: "load l (m_pCurrent l) = Some n" "(m_next n = m_pTag l) = (Suc c = length vs)"
    "(m_prev n = m_pTag l) = (c = 0)"
    using rep_at [OF rep c] rep_cursor [OF rep] by metis
  note cnt = rep_count [OF rep] rep_cursor_tag [OF rep]
  consider (last) "Suc c = length vs" | (first) "Suc c \<noteq> length vs" "c = 0"
    | (mid) "Suc c \<noteq> length vs" "c \<noteq> 0" by blast
  then show ?thesis
  proof cases
    case last
    then obtain ws v where v: "vs = ws @ [v]" "length ws = c" by (cases vs rule: rev_cases) auto
    moreover have "pop_current l = pop_back l" using n last cnt c by (cases vs) (auto simp: pop_current_def)
    ultimately show ?thesis using pop_back_rep [OF rep [unfolded v]] last by auto
  next
    case first
    then obtain v ws where v: "vs = v # ws" using c by (cases vs) auto
    moreover have "pop_current l = pop_front l" using n first cnt c by (simp add: pop_current_def)
    ultimately show ?thesis using pop_front_rep [OF rep [unfolded v]] first by auto
  next
    case mid
    let ?xs = "take c as" and ?ys = "drop (Suc c) as"
    have c': "c < length as" using c rep_length [OF rep] by simp
    then have as: "as = ?xs @ as ! c # ?ys" by (rule id_take_nth_drop)
    then have inv: "dll_inv l (?xs @ as ! c # ?ys)" using rep_inv [OF rep] by simp
    have ne: "?xs \<noteq> []" "?ys \<noteq> []" "m_pCurrent l = as ! c"
      using mid c' c rep_length [OF rep] rep_cursor [OF rep] by (auto simp: nth_append)
    obtain l' where l': "pop_current l = Some (int (length (?xs @ ?ys)), l')" "dll_inv l' (?xs @ ?ys)"
      "m_pTag l' = m_pTag l" "m_pCurrent l' = hd ?ys"
      "map (val (heap l')) (m_pTag l # ?xs @ ?ys) = map (val (heap l)) (m_pTag l # ?xs @ ?ys)"
      using pop_middle_dll [OF inv ne] by blast
    have "map (val (heap l)) (?xs @ ?ys) = map Some (take c vs @ drop (Suc c) vs)"
      using rep_vals [OF rep] by (simp flip: take_map drop_map)
    moreover have "hd ?ys = ((?xs @ ?ys) @ [m_pTag l]) ! c"
      using ne c' by (simp add: nth_append hd_drop_conv_nth)
    ultimately have "clist_rep l' (?xs @ ?ys) (take c vs @ drop (Suc c) vs) c"
      using l' rep c by (simp add: clist_rep_def del: map_append map_eq_conv)
    then show ?thesis using l' mid c rep_length [OF rep] by auto
  qed
qed

lemma refines_pop_current: "clist_rep l as vs c \<Longrightarrow> op_refines PopCurrent l (vs, c)"
proof (cases "c < length vs")
  case False
  assume rep: "clist_rep l as vs c"
  then show ?thesis using False rep_cursor_tag [OF rep] rep_le [OF rep] clist_relI [OF rep]
    by (auto simp: op_refines_def out_defs pop_current_v_def pop_current_def)
next
  case True
  assume rep: "clist_rep l as vs c"
  obtain l' as' where l': "pop_current l = Some (int (length vs) - 1, l')"
    "clist_rep l' as' (take c vs @ drop (Suc c) vs) (if Suc c = length vs then c - 1 else c)"
    using pop_current_rep [OF rep True] by blast
  obtain n where "load l (m_pCurrent l) = Some n" "m_value n = Some (vs ! c)"
    using rep_load_value [OF rep True] by blast
  moreover have "m_count l > 0" "m_pCurrent l \<noteq> m_pTag l"
    using True rep_count [OF rep] rep_cursor_tag [OF rep] by auto
  moreover have "Suc c = length vs \<Longrightarrow> take c vs @ drop (Suc c) vs = butlast vs \<and> c - 1 = length vs - 2"
    by (metis One_nat_def append_Nil2 butlast_conv_take diff_Suc_1 diff_Suc_Suc drop_all numeral_2_eq_2 order_refl)
  ultimately show ?thesis using True l' clist_relI [OF l'(2)]
    by (auto simp: op_refines_def out_defs pop_current_v_def split: if_splits)
qed

text \<open>Insertion between two members.\<close>

lemma link_between_rep:
  assumes rep: "clist_rep l as vs c" and k: "0 < k" "k < length vs"
    and l': "l' = l\<lparr>brk := Suc (brk l), m_pCurrent := brk l,
      heap := upd_prev (upd_next ((heap l)(brk l \<mapsto> \<lparr>m_value = Some v, m_prev = as ! (k - 1), m_next = as ! k\<rparr>))
                (as ! (k - 1)) (brk l)) (as ! k) (brk l), m_count := m_count l + 1\<rparr>"
  shows "clist_rep l' (take k as @ brk l # drop k as) (insert_at vs k v) k"
proof -
  let ?xs = "take k as" and ?ys = "drop k as"
  have len: "length as = length vs" by (rule rep_length [OF rep])
  have ne: "?xs \<noteq> []" "?ys \<noteq> []" "last ?xs = as ! (k - 1)" "hd ?ys = as ! k"
    using k len by (cases k; auto simp: hd_drop_conv_nth take_Suc_conv_app_nth)+
  have inv: "dll_inv l (?xs @ ?ys)" using rep_inv [OF rep] by simp
  have "map (val (heap l)) ?xs @ Some v # map (val (heap l)) ?ys = map Some (insert_at vs k v)"
    using rep_vals [OF rep] by (simp add: insert_at_def flip: take_map drop_map)
  moreover have "val (heap l) (m_pTag l) = None" using rep by (simp add: clist_rep_def)
  moreover have "m_pTag l' = m_pTag l" "m_pCurrent l' = ((?xs @ brk l # ?ys) @ [m_pTag l]) ! k"
    using k len by (auto simp: l' nth_append)
  ultimately show ?thesis
    using insert_between_dll [OF inv ne(1,2), where v = v and l' = l'] l' ne(3,4) k
    by (simp add: clist_rep_def insert_at_def del: map_eq_conv)
qed

lemma insert_rep:
  assumes rep: "clist_rep l as vs c" and k: "0 < c" "Suc c < length vs"
  shows "\<exists>l' as'. insert_r l v = Some (int (length vs) + 1, l') \<and>
           clist_rep l' as' (insert_at vs (Suc c) v) (Suc c)"
proof -
  let ?A = "as @ [m_pTag l]"
  obtain n where n: "load l (m_pCurrent l) = Some n" "m_next n = ?A ! Suc c"
    using rep_at [OF rep, of c] k rep_cursor [OF rep] by (metis Suc_lessD)
  have al: "heap l (?A ! c) \<noteq> None" "?A ! c \<noteq> brk l" "heap l (?A ! Suc c) \<noteq> None" "?A ! Suc c \<noteq> brk l"
    using rep_alloc [OF rep, of c] rep_alloc [OF rep, of "Suc c"] k by auto
  have A: "?A ! c = as ! c" "?A ! Suc c = as ! Suc c" using k rep_length [OF rep] by (auto simp: nth_append)
  have "m_count l \<noteq> 0" "ishead l = Some False" "istail l = Some False" "m_pCurrent l \<noteq> m_pTag l"
    using k rep_count [OF rep] rep_ishead [OF rep] rep_istail [OF rep] rep_cursor_tag [OF rep] by auto
  then have "\<exists>l'. insert_r l v = Some (int (length vs) + 1, l') \<and>
      l' = l\<lparr>brk := Suc (brk l), m_pCurrent := brk l,
      heap := upd_prev (upd_next ((heap l)(brk l \<mapsto> \<lparr>m_value = Some v, m_prev = as ! c, m_next = as ! Suc c\<rparr>))
                (as ! c) (brk l)) (as ! Suc c) (brk l), m_count := m_count l + 1\<rparr>"
    using n al A rep_cursor [OF rep] rep_count [OF rep]
    by (simp add: insert_r_def new_node_def heap_simps Let_def)
  then show ?thesis using link_between_rep [OF rep, of "Suc c" _ v] k by auto
qed

lemma refines_insert: "clist_rep l as vs c \<Longrightarrow> op_refines (Insert v) l (vs, c)"
proof -
  assume rep: "clist_rep l as vs c"
  note F = rep_count [OF rep] rep_ishead [OF rep] rep_istail [OF rep] rep_cursor_tag [OF rep]
  consider (front) "vs = [] \<or> c = 0" | (tag) "vs \<noteq> []" "c \<noteq> 0" "c = length vs"
    | (tail) "vs \<noteq> []" "c \<noteq> 0" "Suc c = length vs" | (mid) "0 < c" "Suc c < length vs"
    using rep_le [OF rep] by force
  then show ?thesis
  proof cases
    case front
    then have "insert_r l v = push_front_r l v" using F by (auto simp: insert_r_def)
    then show ?thesis using front push_front_rep [OF rep, of v] clist_relI
      by (fastforce simp: op_refines_def out_defs)
  next
    case tag
    then show ?thesis using F clist_relI [OF rep] by (auto simp: op_refines_def out_defs insert_r_def)
  next
    case tail
    then have "insert_r l v = push_back_r l v" using F by (auto simp: insert_r_def)
    moreover have "insert_at vs (Suc c) v = vs @ [v]" using tail by (simp add: insert_at_def)
    ultimately show ?thesis using tail push_back_rep [OF rep, of v] clist_relI
      by (fastforce simp: op_refines_def out_defs)
  next
    case mid
    then show ?thesis using insert_rep [OF rep mid, of v] clist_relI
      by (fastforce simp: op_refines_def out_defs)
  qed
qed

text \<open>The three walks from the cursor: sorted insertion, \<open>contain\<close> and \<open>index\<close>.\<close>

lemma rep_step:
  assumes rep: "clist_rep l as vs c" and c: "c < length vs"
  obtains n where "load l (m_pCurrent l) = Some n" "m_value n = Some (vs ! c)"
    "m_pCurrent l \<noteq> m_pTag l" "m_pCurrent l \<noteq> NULL" "clist_rep (l\<lparr>m_pCurrent := m_next n\<rparr>) as vs (Suc c)"
proof -
  obtain n where "load l (m_pCurrent l) = Some n" "m_value n = Some (vs ! c)" "m_next n = (as @ [m_pTag l]) ! Suc c"
    using rep_at [OF rep c] rep_cursor [OF rep] by metis
  moreover from this have "clist_rep (l\<lparr>m_pCurrent := m_next n\<rparr>) as vs (Suc c)"
    using rep_move [OF rep, of "Suc c"] c by simp
  ultimately show ?thesis
    using that rep_cursor_tag [OF rep] rep_cursor_null [OF rep] c by simp
qed

abbreviation "sort_le mode v w \<equiv> (if mode = (0::int) then (v::'v::linorder) \<ge> w else v \<le> w)"

lemma sort_walk_rep:
  assumes "clist_rep l as vs c"
  shows "\<exists>p. sort_walk l v mode = Some (l\<lparr>m_pCurrent := p\<rparr>) \<and>
    clist_rep (l\<lparr>m_pCurrent := p\<rparr>) as vs (c + length (takeWhile (sort_le mode v) (drop c vs)))"
  using assms
proof (induction "length vs - c" arbitrary: l c)
  case 0
  then have "c = length vs" using rep_le by fastforce
  then show ?case using rep_move [OF 0(2), of c "m_pCurrent l"] rep_cursor_tag [OF 0(2)] rep_cursor [OF 0(2)]
    by (intro exI [of _ "m_pCurrent l"]) (simp add: sort_walk.simps [of l])
next
  case (Suc k)
  then have c: "c < length vs" by simp
  have d: "drop c vs = vs ! c # drop (Suc c) vs" using c by (rule Cons_nth_drop_Suc [symmetric])
  obtain n where n: "load l (m_pCurrent l) = Some n" "m_value n = Some (vs ! c)"
    "m_pCurrent l \<noteq> m_pTag l" "clist_rep (l\<lparr>m_pCurrent := m_next n\<rparr>) as vs (Suc c)"
    using rep_step [OF Suc.prems c] by metis
  show ?case
  proof (cases "sort_le mode v (vs ! c)")
    case True
    then have "sort_walk l v mode = sort_walk (l\<lparr>m_pCurrent := m_next n\<rparr>) v mode"
      using n by (simp add: sort_walk.simps [of l])
    then show ?thesis using Suc.hyps(1) [OF _ n(4)] Suc.hyps(2) d True by auto
  next
    case False
    then show ?thesis using n d Suc.prems
      by (intro exI [of _ "m_pCurrent l"]) (auto simp: sort_walk.simps [of l])
  qed
qed

lemma insertSort_rep:
  assumes rep: "clist_rep l as vs c" and k: "k = sort_pos vs v mode"
  shows "\<exists>l' as'. insertSort l v mode = Some (int (length vs) + 1, l') \<and> clist_rep l' as' (insert_at vs k v) k"
proof -
  obtain l1 where l1: "sort_walk (clist_reset l) v mode = Some l1" and rep1: "clist_rep l1 as vs k"
    using sort_walk_rep [OF rep_reset [OF rep], of v mode] by (auto simp: k sort_pos_def)
  let ?A = "as @ [m_pTag l1]"
  have hd_iff: "(m_pCurrent l1 = m_pHead l1) = (k = 0)"
    using rep_head [OF rep1] rep_cursor [OF rep1] dll_invD(2) [OF rep_inv [OF rep1]] rep_le [OF rep1] rep_length [OF rep1]
      nth_eq_iff_index_eq [of ?A k 0] by auto
  note F = rep_count [OF rep1] rep_cursor_tag [OF rep1] hd_iff
  consider (front) "k = 0" | (tail) "k \<noteq> 0" "k = length vs" | (mid) "0 < k" "k < length vs"
    using rep_le [OF rep1] by force
  then show ?thesis
  proof cases
    case front
    then have "insertSort l v mode = push_front_r l1 v" using l1 F by (simp add: insertSort_def)
    then show ?thesis using front push_front_rep [OF rep1, of v] by (auto simp: insert_at_def)
  next
    case tail
    then have "insertSort l v mode = push_back_r l1 v" using l1 F by (simp add: insertSort_def)
    then show ?thesis using tail push_back_rep [OF rep1, of v] by (auto simp: insert_at_def)
  next
    case mid
    obtain n where n: "load l1 (m_pCurrent l1) = Some n" "m_prev n = (m_pTag l1 # as) ! k"
      using rep_at [OF rep1 mid(2)] rep_cursor [OF rep1] by metis
    have A: "m_prev n = as ! (k - 1)" "m_pCurrent l1 = as ! k" "?A ! k = as ! k" "?A ! (k - 1) = as ! (k - 1)"
      using n mid rep_length [OF rep1] rep_cursor [OF rep1] by (auto simp: nth_append)
    have al: "heap l1 (as ! k) \<noteq> None" "as ! k \<noteq> brk l1" "heap l1 (as ! (k - 1)) \<noteq> None" "as ! (k - 1) \<noteq> brk l1"
      using rep_alloc [OF rep1, of k] rep_alloc [OF rep1, of "k - 1"] mid A by auto
    have "\<exists>l'. insertSort l v mode = Some (int (length vs) + 1, l') \<and>
      l' = l1\<lparr>brk := Suc (brk l1), m_pCurrent := brk l1,
      heap := upd_prev (upd_next ((heap l1)(brk l1 \<mapsto> \<lparr>m_value = Some v, m_prev = as ! (k - 1), m_next = as ! k\<rparr>))
                (as ! (k - 1)) (brk l1)) (as ! k) (brk l1), m_count := m_count l1 + 1\<rparr>"
      using l1 n al A F mid
      by (simp add: insertSort_def new_node_def heap_simps Let_def)
    then show ?thesis using link_between_rep [OF rep1 mid, of _ v] by auto
  qed
qed

lemma refines_insertSort: "clist_rep l as vs c \<Longrightarrow> op_refines (InsertSort v mode) l (vs, c)"
  using insertSort_rep [of l as vs c _ v mode] clist_relI
  by (fastforce simp: op_refines_def out_defs Let_def)


lemma contain_rep:
  assumes "clist_rep l as vs c"
  shows "\<exists>l'. contain l v = Some (c + first_index (drop c vs) v < length vs, l') \<and>
    clist_rep l' as vs (c + first_index (drop c vs) v)"
  using assms
proof (induction "length vs - c" arbitrary: l c)
  case 0
  then have "c = length vs" using rep_le by fastforce
  then show ?case using 0(2) rep_cursor_tag [OF 0(2)]
    by (simp add: contain.simps [of l] first_index_def)
next
  case (Suc k)
  then have c: "c < length vs" by simp
  have d: "drop c vs = vs ! c # drop (Suc c) vs" using c by (rule Cons_nth_drop_Suc [symmetric])
  obtain n where n: "load l (m_pCurrent l) = Some n" "m_value n = Some (vs ! c)"
    "m_pCurrent l \<noteq> m_pTag l" "m_pCurrent l \<noteq> NULL" "clist_rep (l\<lparr>m_pCurrent := m_next n\<rparr>) as vs (Suc c)"
    using rep_step [OF Suc.prems c] by metis
  show ?case
  proof (cases "vs ! c = v")
    case False
    then have "contain l v = contain (l\<lparr>m_pCurrent := m_next n\<rparr>) v"
      using n by (simp add: contain.simps [of l])
    then show ?thesis using Suc.hyps(1) [OF _ n(5)] Suc.hyps(2) d False by (simp add: first_index_def)
  next
    case True
    then show ?thesis using n d Suc.prems c by (simp add: contain.simps [of l] first_index_def)
  qed
qed

lemma refines_contain: "clist_rep l as vs c \<Longrightarrow> op_refines (Contain v) l (vs, c)"
  using contain_rep [of l as vs c v] clist_relI by (fastforce simp: op_refines_def out_defs Let_def)

lemma index_rep:
  assumes rep: "clist_rep l as vs c" and "i \<le> length vs"
  shows "index_from l v ((as @ [m_pTag l]) ! i) (int i) =
    Some (if v \<in> set (drop i vs) then int (i + first_index (drop i vs) v) else - 1)"
  using assms(2)
proof (induction "length vs - i" arbitrary: i)
  case 0
  then show ?case using rep_end [OF rep] by (simp add: index_from.simps)
next
  case (Suc k)
  then have i: "i < length vs" by simp
  have d: "drop i vs = vs ! i # drop (Suc i) vs" using i by (rule Cons_nth_drop_Suc [symmetric])
  obtain n where n: "load l ((as @ [m_pTag l]) ! i) = Some n" "m_next n = (as @ [m_pTag l]) ! Suc i"
     "m_value n = Some (vs ! i)" "(as @ [m_pTag l]) ! i \<noteq> m_pTag l" "(as @ [m_pTag l]) ! i \<noteq> NULL"
    using rep_at [OF rep i] by metis
  have "Suc i \<le> length vs" "k = length vs - Suc i" using Suc.hyps(2) i by auto
  from Suc.hyps(1) [OF this(2,1)] n d show ?case
    by (cases "vs ! i = v") (simp_all add: index_from.simps [of l v "(as @ [m_pTag l]) ! i"] first_index_def add.commute)
qed

lemma refines_index: "clist_rep l as vs c \<Longrightarrow> op_refines (Index v) l (vs, c)"
  using index_rep [of l as vs c 0 v] rep_head [of l as vs c] clist_relI [of l as vs c]
  by (simp add: op_refines_def clist_index_def)

text \<open>\<open>remove\<close>: search, unlink, start again from the head.\<close>

lemma first_index_split:
  assumes "first_index vs v < length vs" and "k = first_index vs v"
  shows "take k vs @ drop (Suc k) vs = remove1 v vs" "v \<in> set vs"
  using assms
proof (induction vs arbitrary: k)
  case (Cons w ws)
  { case 1 then show ?case using Cons.IH(1) by (auto simp: first_index_def) next
    case 2 then show ?case using Cons.IH(2) by (auto simp: first_index_def split: if_splits) }
qed (auto simp: first_index_def)

lemma first_index_notin: "\<not> first_index vs v < length vs \<Longrightarrow> v \<notin> set vs \<and> first_index vs v = length vs"
  by (induction vs) (auto simp: first_index_def split: if_splits)

lemma remove1_filter: "v \<in> set vs \<Longrightarrow> filter (\<lambda>w. w \<noteq> v) (remove1 v vs) = filter (\<lambda>w. w \<noteq> v) vs"
  by (induction vs) auto

lemma remove_loop_rep:
  assumes "clist_rep l as vs 0"
  shows "\<exists>l' as'. remove_loop l v i = Some (i + int (length vs) - int (length (filter (\<lambda>w. w \<noteq> v) vs)), l') \<and>
    clist_rep l' as' (filter (\<lambda>w. w \<noteq> v) vs) (length (filter (\<lambda>w. w \<noteq> v) vs))"
  using assms
proof (induction "length vs" arbitrary: l as vs i rule: less_induct)
  case less
  let ?k = "first_index vs v"
  obtain l1 where l1: "contain l v = Some (?k < length vs, l1)" "clist_rep l1 as vs ?k"
    using contain_rep [OF less.prems, of v] by auto
  show ?case
  proof (cases "?k < length vs")
    case True
    obtain l2 as2 j where l2: "pop_current l1 = Some (int (length vs) - 1, l2)"
      "clist_rep l2 as2 (take ?k vs @ drop (Suc ?k) vs) j"
      using pop_current_rep [OF l1(2) True] by blast
    have r: "clist_rep (clist_reset l2) as2 (remove1 v vs) 0"
      using rep_reset [OF l2(2)] first_index_split(1) [OF True refl] by simp
    have v: "v \<in> set vs" by (rule first_index_split(2) [OF True refl])
    then have "Suc (length (remove1 v vs)) = length vs"
      by (metis One_nat_def Suc_pred length_pos_if_in_set length_remove1)
    then have len: "length (remove1 v vs) < length vs" "int (length (remove1 v vs)) = int (length vs) - 1"
      by linarith+
    show ?thesis
      using less.hyps [OF len(1) r, of "i + 1"] l1 l2 True len(2) remove1_filter [OF v]
      by (simp add: remove_loop.simps [of l])
  next
    case False
    then have "filter (\<lambda>w. w \<noteq> v) vs = vs" using first_index_notin [OF False] by (auto simp: filter_id_conv)
    then show ?thesis using l1 False first_index_notin [OF False] by (auto simp: remove_loop.simps [of l])
  qed
qed

lemma refines_remove: "clist_rep l as vs c \<Longrightarrow> op_refines (RemoveVal v) l (vs, c)"
  using remove_loop_rep [OF rep_reset, of l as vs c v 0] clist_relI
  by (fastforce simp: op_refines_def out_defs Let_def remove_v_def)

lemma remove_all_rep:
  assumes "clist_rep l as vs c"
  shows "\<exists>l' as'. remove_all l = Some l' \<and> clist_rep l' as' [] 0"
  using assms
proof (induction vs arbitrary: l as c)
  case Nil
  then have "pop_front l = Some (0, l)" "clist_rep l as [] 0"
    using rep_empty_count by (fastforce simp: pop_front_def)+
  then show ?case by (auto simp: remove_all.simps [of l])
next
  case (Cons v vs)
  obtain l' where l': "pop_front l = Some (int (length vs), l')" "clist_rep l' (tl as) vs 0"
    using pop_front_rep [OF Cons.prems] by blast
  show ?case
  proof (cases "vs = []")
    case True
    then show ?thesis using l' by (auto simp: remove_all.simps [of l])
  next
    case False
    then show ?thesis using l' Cons.IH [OF l'(2)] by (simp add: remove_all.simps [of l])
  qed
qed

lemma refines_remove_all: "clist_rep l as vs c \<Longrightarrow> op_refines RemoveAll l (vs, c)"
  using remove_all_rep [of l as vs c] clist_relI by (fastforce simp: op_refines_def)

lemma iter_end_rep:
  assumes rep: "clist_rep l as vs c"
  shows "iter_end l = Some (m_pTag l)"
proof (cases "vs = []")
  case True
  then have "m_pTail l = m_pTag l" "as = []" using rep_tail [OF rep] rep_length [OF rep] by auto
  moreover obtain n where "load l (m_pTag l) = Some n" "m_next n = (as @ [m_pTag l]) ! 0"
    using tag_at [OF rep_inv [OF rep]] by blast
  ultimately show ?thesis by (simp add: iter_end_def)
next
  case False
  then have lt: "length vs - 1 < length vs" "Suc (length vs - 1) = length vs" by auto
  obtain n where "load l ((as @ [m_pTag l]) ! (length vs - 1)) = Some n"
    "(m_next n = m_pTag l) = (Suc (length vs - 1) = length vs)"
    using rep_at [OF rep lt(1)] by blast
  then show ?thesis using rep_tail [OF rep] lt(2) by (simp add: iter_end_def)
qed

lemma iter_rep:
  assumes rep: "clist_rep l as vs c" and "i \<le> length vs"
  shows "iter_collect l ((as @ [m_pTag l]) ! i) = Some (map Some (drop i vs))"
  using assms(2)
proof (induction "length vs - i" arbitrary: i)
  case 0
  then have "i = length vs" by simp
  then show ?case using rep_end [OF rep] iter_end_rep [OF rep]
    by (simp add: iter_collect.simps [of l "m_pTag l"])
next
  case (Suc k)
  then have i: "i < length vs" by simp
  obtain n where n: "load l ((as @ [m_pTag l]) ! i) = Some n" "m_next n = (as @ [m_pTag l]) ! Suc i"
     "m_value n = Some (vs ! i)" "(as @ [m_pTag l]) ! i \<noteq> m_pTag l" "(as @ [m_pTag l]) ! i \<noteq> NULL"
    using rep_at [OF rep i] by metis
  have IH: "iter_collect l ((as @ [m_pTag l]) ! Suc i) = Some (map Some (drop (Suc i) vs))"
    using Suc.hyps i by simp
  have d: "drop i vs = vs ! i # drop (Suc i) vs" using i by (rule Cons_nth_drop_Suc [symmetric])
  show ?case using n IH iter_end_rep [OF rep] d
    by (simp add: iter_collect.simps [of l "(as @ [m_pTag l]) ! i"] iter_deref_def iter_inc_def)
qed

lemma concat_Some: "concat (map (\<lambda>v. case v of None \<Rightarrow> [] | Some w \<Rightarrow> [w]) (map Some vs)) = vs"
  by (induction vs) auto

lemma refines_iterate: "clist_rep l as vs c \<Longrightarrow> op_refines Iterate l (vs, c)"
  using iter_rep [of l as vs c 0] rep_head [of l as vs c] clist_relI [of l as vs c] concat_Some [of vs]
  by (simp add: op_refines_def iter_begin_def del: map_map)

lemmas refines_rules = refines_front refines_back refines_next refines_nextd refines_prev refines_prevd
  refines_simple refines_reset_pos refines_get refines_set_at refines_push refines_insert
  refines_insertSort refines_pop_front refines_pop_back refines_pop_current refines_contain
  refines_index refines_remove refines_remove_all refines_iterate

lemma op_refines_all: "clist_rel l s \<Longrightarrow> op_refines p l s"
  by (cases s; cases p) (auto simp: clist_rel_def intro: refines_rules)

section \<open>Refinement of whole call sequences\<close>

lemma new_rep: "\<exists>l. CList_new = Some l \<and> clist_rel l ([], 0)"
proof -
  define l :: "'a dll" where "l = \<lparr>heap = [1 \<mapsto> \<lparr>m_value = None, m_prev = 1, m_next = 1\<rparr>], brk = 2,
     m_pHead = 1, m_pTail = 1, m_pCurrent = 1, m_pTag = 1, m_count = 0\<rparr>"
  have "CList_new = Some l"
    by (simp add: CList_new_def new_node_def set_next_def set_prev_def Let_def l_def upd_next_def upd_prev_def)
  moreover have "clist_rep l [] [] 0"
    by (auto simp: clist_rep_def dll_inv_def ring_def l_def nxt_def prv_def val_def)
  ultimately show ?thesis using clist_relI by blast
qed

lemma run_refines:
  "clist_rel l s \<Longrightarrow> spec_run ps s = Some (rs, s') \<Longrightarrow>
   \<exists>l'. clist_run ps l = Some (rs, l') \<and> clist_rel l' s'"
proof (induction ps arbitrary: l s rs)
  case (Cons p ps)
  from Cons.prems(2) obtain r s1 rs1 where s: "spec_op p s = Some (r, s1)"
    "spec_run ps s1 = Some (rs1, s')" "rs = r # rs1"
    by (auto simp: bind_Some_iff)
  then obtain l1 where l1: "clist_exec p l = Some (r, l1)" "clist_rel l1 s1"
    using op_refines_all [OF Cons.prems(1), of p] by (auto simp: op_refines_def)
  then show ?case using Cons.IH [OF l1(2) s(2)] s by auto
qed simp


text \<open>Copying: the loop appends the rest of the source behind the target's values and leaves
  the source's cursor on its last member.\<close>

lemma copy_loop_rep:
  assumes "clist_rep l as ws (length ws - 1)" and "clist_rep s bs vs c" and "Suc c \<le> length vs"
  shows "\<exists>l' s' as'. copy_loop l s = Some (l', s') \<and>
    clist_rep l' as' (ws @ drop (Suc c) vs) (length (ws @ drop (Suc c) vs) - 1) \<and>
    clist_rep s' bs vs (length vs - 1)"
  using assms
proof (induction "length vs - c" arbitrary: l as ws s c)
  case (Suc k)
  obtain s1 where s1: "clist_next s = Some (vs \<noteq> [] \<and> Suc c \<noteq> length vs, s1)"
    "clist_rep s1 bs vs (if vs = [] \<or> Suc c = length vs then c else if c = length vs then 0 else Suc c)"
    using next_rep [OF Suc.prems(2)] by blast
  show ?case
  proof (cases "Suc c = length vs")
    case True
    then have "clist_rep s1 bs vs (length vs - 1)" using s1(2) by (metis diff_Suc_1)
    then show ?thesis using True s1(1) Suc.prems by (auto simp: copy_loop.simps [of l])
  next
    case False
    then have c: "Suc c < length vs" using Suc.prems(3) by simp
    then have r1: "clist_rep s1 bs vs (Suc c)" using s1(2) by (auto split: if_splits)
    have cur: "current_r s1 = Some (Some (vs ! Suc c))"
      using rep_load_value [OF r1 c] rep_cursor_tag [OF r1] rep_cursor_null [OF r1] c
      by (auto simp: current_r_def)
    obtain l2 as2 where l2: "push_back_r l (vs ! Suc c) = Some (int (length ws) + 1, l2)"
      "clist_rep l2 as2 (ws @ [vs ! Suc c]) (length (ws @ [vs ! Suc c]) - 1)"
      using push_back_rep [OF Suc.prems(1), of "vs ! Suc c"] by auto
    have "ws @ drop (Suc c) vs = (ws @ [vs ! Suc c]) @ drop (Suc (Suc c)) vs"
      using c by (simp add: Cons_nth_drop_Suc)
    moreover have "copy_loop l s = copy_loop l2 s1"
      using s1(1) c cur l2(1) by (auto simp: copy_loop.simps [of l])
    ultimately show ?thesis
      using Suc.hyps(1) [OF _ l2(2) r1] Suc.hyps(2) c by auto
  qed
qed simp

lemma copy_rep:
  assumes l: "clist_rep l as [] 0" and s: "clist_rep s bs vs c"
  shows "\<exists>l' s' as'. copy_loop l (reset_d s) = Some (l', s') \<and>
    clist_rep l' as' vs (length vs - 1) \<and> clist_rep s' bs vs (length vs - 1)"
proof (cases vs)
  case Nil
  obtain s1 where "clist_next (reset_d s) = Some (False, s1)" "clist_rep s1 bs vs 0"
    using next_rep [OF rep_reset_d [OF s]] Nil by auto
  then show ?thesis using l Nil by (auto simp: copy_loop.simps [of l])
next
  case (Cons v ws)
  obtain s1 where s1: "clist_next (reset_d s) = Some (True, s1)" "clist_rep s1 bs vs 0"
    using next_rep [OF rep_reset_d [OF s]] Cons by auto
  obtain l1 as1 where l1: "push_back_r l v = Some (1, l1)" "clist_rep l1 as1 [v] (length [v] - 1)"
    using push_back_rep [OF l, of v] by auto
  have "current_r s1 = Some (Some v)"
    using rep_load_value [OF s1(2)] rep_cursor_tag [OF s1(2)] rep_cursor_null [OF s1(2)] Cons
    by (auto simp: current_r_def)
  then have "copy_loop l (reset_d s) = copy_loop l1 s1"
    using s1(1) l1(1) by (simp add: copy_loop.simps [of l])
  then show ?thesis using copy_loop_rep [OF l1(2) s1(2)] Cons by auto
qed

lemma CList_copy_ok:
  fixes s :: "'v dll"
  assumes "clist_rel s (vs, c)"
  shows "\<exists>l s'. CList_copy s = Some (l, s') \<and> clist_rel l (vs, length vs - 1) \<and> clist_rel s' (vs, length vs - 1)"
proof -
  obtain l :: "'v dll" and as where l: "CList_new = Some l" "clist_rep l as [] 0"
    using new_rep by (auto simp: clist_rel_def)
  obtain bs where "clist_rep s bs vs c" using assms by (auto simp: clist_rel_def)
  from copy_rep [OF l(2) this] show ?thesis unfolding CList_copy_def l(1) by (auto intro: clist_relI)
qed

lemma assign_ok:
  assumes "clist_rel l (ws, d)" and "clist_rel s (vs, c)"
  shows "\<exists>l' s'. assign l s = Some (l', s') \<and> clist_rel l' (vs, length vs - 1) \<and> clist_rel s' (vs, length vs - 1)"
proof -
  obtain as where "clist_rep l as ws d" using assms by (auto simp: clist_rel_def)
  from remove_all_rep [OF this] obtain l1 as1 where l: "remove_all l = Some l1" "clist_rep l1 as1 [] 0"
    by blast
  obtain bs where "clist_rep s bs vs c" using assms by (auto simp: clist_rel_def)
  from copy_rep [OF l(2) this] l(1) show ?thesis by (auto simp: assign_def intro: clist_relI)
qed

text \<open>Sorted insertion into a sorted list is insertion sort.\<close>

lemma insert_sort_pos: "sorted vs \<Longrightarrow> insert_at vs (sort_pos vs v 0) v = insort v vs"
proof (induction vs)
  case (Cons w ws)
  have "v = w \<Longrightarrow> insort w ws = w # ws" using Cons.prems by (simp add: insort_is_Cons)
  then show ?case using Cons by (auto simp: insert_at_def sort_pos_def)
qed (simp add: insert_at_def sort_pos_def)

lemma spec_run_append:
  "spec_run ps s = Some (r, s1) \<Longrightarrow> spec_run qs s1 = Some (r', s2) \<Longrightarrow> spec_run (ps @ qs) s = Some (r @ r', s2)"
  by (cases s2, induction ps arbitrary: s r) (auto simp: bind_Some_iff)

lemma spec_run_insertSort:
  "sorted vs \<Longrightarrow> \<exists>rs c'. length rs = length xs \<and>
   spec_run (map (\<lambda>v. InsertSort v 0) xs) (vs, c) = Some (rs, (fold insort xs vs, c'))"
proof (induction xs arbitrary: vs c)
  case (Cons x xs)
  have "sorted (insort x vs)" using Cons.prems by (simp add: sorted_insort)
  from Cons.IH [OF this, of "sort_pos vs x 0"] show ?case
    using insert_sort_pos [OF Cons.prems, of x] by (auto simp: Let_def)
qed simp

text \<open>\<open>removeByHandle\<close> of the cursor's handle drops the value there and resets the
  cursor to the head.\<close>

lemma removeByHandle_ok:
  assumes "clist_rel l (vs, c)" and "c < length vs" and "clist_rel l' (vs, d)"
    and "l' = l\<lparr>m_pCurrent := m_pCurrent l'\<rparr>"
  shows "\<exists>l''. removeByHandle l' (getCurrentHandle l) = Some l'' \<and>
     clist_rel l'' (take c vs @ drop (Suc c) vs, 0)"
proof -
  obtain as where rep: "clist_rep l as vs c" using assms by (auto simp: clist_rel_def)
  have eq: "l'\<lparr>m_pCurrent := m_pCurrent l\<rparr> = l" by (subst assms(4)) simp
  obtain l2 as2 j where "pop_current l = Some (int (length vs) - 1, l2)" and
    r: "clist_rep l2 as2 (take c vs @ drop (Suc c) vs) j"
    using pop_current_rep [OF rep assms(2)] by blast
  then show ?thesis using eq rep_cursor_null [OF rep] clist_relI [OF rep_reset [OF r]]
    by (simp add: removeByHandle_def getCurrentHandle_def)
qed


text \<open>Iterators by position, and back.\<close>

lemma iter_walk_rep:
  assumes rep: "clist_rep l as vs c"
  shows "i + k \<le> length vs \<Longrightarrow> iter_walk l k ((as @ [m_pTag l]) ! i) = Some ((as @ [m_pTag l]) ! (i + k))"
proof (induction k arbitrary: i)
  case (Suc k)
  then have i: "i < length vs" by simp
  obtain n where "load l ((as @ [m_pTag l]) ! i) = Some n" "m_next n = (as @ [m_pTag l]) ! Suc i"
    "(as @ [m_pTag l]) ! i \<noteq> m_pTag l"
    using rep_at [OF rep i] by metis
  then show ?case using Suc.prems Suc.IH [of "Suc i"] iter_end_rep [OF rep] by simp
qed simp

lemma index_it_rep:
  assumes rep: "clist_rep l as vs c" and j: "j < length vs" and "i \<le> j"
  shows "index_it_from l ((as @ [m_pTag l]) ! j) ((as @ [m_pTag l]) ! i) (int i) = Some (int j)"
  using assms(3)
proof (induction "j - i" arbitrary: i)
  case 0
  then have "i = j" by simp
  moreover obtain n where "(as @ [m_pTag l]) ! j \<noteq> m_pTag l" "(as @ [m_pTag l]) ! j \<noteq> NULL"
    using rep_at [OF rep j] by metis
  ultimately show ?case by (simp add: index_it_from.simps [of l "(as @ [m_pTag l]) ! j" "(as @ [m_pTag l]) ! j"])
next
  case (Suc k)
  then have i: "i < length vs" "Suc i \<le> j" "k = j - Suc i" using j by auto
  obtain n where n: "load l ((as @ [m_pTag l]) ! i) = Some n" "m_next n = (as @ [m_pTag l]) ! Suc i"
    "(as @ [m_pTag l]) ! i \<noteq> m_pTag l" "(as @ [m_pTag l]) ! i \<noteq> NULL"
    using rep_at [OF rep i(1)] by metis
  have "(as @ [m_pTag l]) ! j \<noteq> (as @ [m_pTag l]) ! i"
    using dll_invD(2) [OF rep_inv [OF rep]] rep_length [OF rep] i j
      nth_eq_iff_index_eq [of "as @ [m_pTag l]" j i] by auto
  then show ?case using n Suc.hyps(1) [OF i(3,2)]
    by (simp add: index_it_from.simps [of l _ "(as @ [m_pTag l]) ! i"] add.commute)
qed

lemma iter_pos_ok:
  assumes "clist_rel l (vs, c)" and "i < length vs"
  shows "\<exists>p. iter_pos l (int i) = Some p \<and> index_it l p = Some (int i) \<and> iter_deref l p = Some (Some (vs ! i))"
proof -
  obtain as where rep: "clist_rep l as vs c" using assms by (auto simp: clist_rel_def)
  obtain n where "load l ((as @ [m_pTag l]) ! i) = Some n" "m_value n = Some (vs ! i)"
    using rep_at [OF rep assms(2)] by metis
  then show ?thesis
    using iter_walk_rep [OF rep, of 0 i] index_it_rep [OF rep assms(2), of 0] rep_head [OF rep] assms(2)
    by (simp add: iter_pos_def index_it_def iter_deref_def)
qed

lemma CList_delete_ok:
  assumes "clist_rel l s"
  shows "\<exists>l'. CList_delete l = Some l' \<and> heap l' = Map.empty"
proof -
  obtain as where rep: "clist_rep l as (fst s) (snd s)" using assms by (auto simp: clist_rel_def)
  obtain l1 as1 where l1: "remove_all l = Some l1" "clist_rep l1 as1 [] 0"
    using remove_all_rep [OF rep] by blast
  have inv: "dll_inv l1 []" using rep_inv [OF l1(2)] rep_length [OF l1(2)] by simp
  then have "((heap l1)(m_pTag l1 := None)) a = None" for a
    using dll_invD(3) [OF inv] by (cases "heap l1 a") (auto simp: dll_inv_def)
  then have "(heap l1)(m_pTag l1 := None) = Map.empty" by blast
  then show ?thesis
    using l1(1) dll_invD(3,4) [OF inv, of "m_pTag l1"] by (simp add: CList_delete_def heap_simps)
qed

section \<open>Properties\<close>

text \<open>Property C11. Any sequence of calls that the cursor-list specification defines runs on a
  freshly constructed list without touching freed memory or reading the unset value of the tag node,
  returns the specified values, and leaves a ring that holds exactly the specified values and cursor,
  with no node leaked. The specification leaves out \<open>reset_pos\<close> outside the list and \<open>prev(value)\<close> and
  \<open>prev_d(value)\<close> on an empty list (\<open>prev_empty_unset\<close>); as the code does, it lets \<open>next_d\<close> on a list of
  at most one element (and \<open>prev_d\<close> on a list of one) return \<open>TRUE\<close> without storing a value.\<close>

theorem clist_run_refines:
  assumes "spec_run ps ([], 0) = Some (rs, s')"
  shows "\<exists>l l'. CList_new = Some l \<and> clist_run ps l = Some (rs, l') \<and> clist_rel l' s'"
  using new_rep run_refines [OF _ assms] by blast

theorem clist_run_refines_witness:
  "\<exists>l l'. CList_new = Some l \<and>
     clist_run [PushBack (1::int), PushBack 2, PushFront 3, Next, PopCurrent, Iterate] l =
       Some ([(1, []), (2, []), (3, []), (1, [1]), (2, [1]), (2, [3, 2])], l') \<and> clist_rel l' ([3, 2], 1)"
  using clist_run_refines [of "[PushBack (1::int), PushBack 2, PushFront 3, Next, PopCurrent, Iterate]"]
  by simp

text \<open>On an empty list \<open>prev()\<close> reports success although there is no previous node, and
  \<open>prev(value)\<close> and \<open>prev_d(value)\<close> copy the value of the tag node, which was never set.\<close>

theorem prev_empty_unset:
  assumes "clist_rel l ([], c)"
  shows "(\<exists>l'. clist_prev l = Some (True, l')) \<and> prev_v l = None \<and> prev_d l = None"
proof -
  obtain as where "clist_rep l as [] c" using assms by (auto simp: clist_rel_def)
  from prev_v_empty [OF this] show ?thesis by (auto simp: prev_d_def)
qed

text \<open>On a list of at most one element with the cursor at its start \<open>next_d\<close> reports success and stores
  nothing.\<close>

theorem next_d_stores_nothing:
  fixes l :: "('v::linorder) dll"
  assumes "clist_rel l (vs, 0)" "length vs \<le> 1"
  shows "\<exists>l'. out_b (next_d l) = Some ((1, []), l') \<and> clist_rel l' (vs, 0)"
proof -
  obtain as where "clist_rep l as vs 0" using assms(1) by (auto simp: clist_rel_def)
  from refines_nextd [OF this] show ?thesis using assms(2) by (cases vs) (auto simp: op_refines_def)
qed

text \<open>Inserting values one after the other with \<open>insertSort(v, 0)\<close> into a
  fresh list and walking it with the iterator yields the values in sorted order.\<close>

theorem insertSort_sorts:
  "\<exists>l l' rs. CList_new = Some l \<and>
     clist_run (map (\<lambda>v. InsertSort v 0) xs @ [Iterate]) l = Some (rs @ [(int (length xs), sort xs)], l')"
proof -
  obtain rs c where "spec_run (map (\<lambda>v. InsertSort v 0) xs) ([], 0) = Some (rs, (fold insort xs [], c))"
    using spec_run_insertSort [of "[]" xs 0] by auto
  moreover have "spec_run [Iterate] (sort xs, c) = Some ([(int (length xs), sort xs)], (sort xs, c))" by simp
  ultimately have "spec_run (map (\<lambda>v. InsertSort v 0) xs @ [Iterate]) ([], 0) =
      Some (rs @ [(int (length xs), sort xs)], (sort xs, c))"
    using spec_run_append sort_conv_fold [of xs] by metis
  then show ?thesis using new_rep run_refines by blast
qed

text \<open>\<open>operator=\<close> frees the target's nodes and copies the values of the
  source in order; the source keeps its values and its cursor ends on the last of them.\<close>

theorem assign_copies:
  assumes "clist_rel l (ws, d)" and "clist_rel s (vs, c)"
  shows "\<exists>l' s'. assign l s = Some (l', s') \<and> clist_rel l' (vs, length vs - 1) \<and>
           clist_rel s' (vs, length vs - 1)"
  by (rule assign_ok [OF assms])

theorem assign_copies_witness:
  "\<exists>l s l' s'. CList_new = Some l \<and> CList_new = Some s \<and> assign l s = Some (l', s') \<and>
     clist_rel l' ([] :: int list, 0) \<and> clist_rel s' ([] :: int list, 0)"
proof -
  obtain l :: "int dll" where l: "CList_new = Some l" "clist_rel l ([], 0)" using new_rep by blast
  show ?thesis using assign_copies [OF l(2) l(2)] l(1) by auto
qed

text \<open>The destructor of a list that went through any specified sequence of calls
  frees every node exactly once: nothing is deleted twice and the heap is empty afterwards.\<close>

theorem clist_no_leak:
  assumes "spec_run ps ([], 0) = Some (rs, s')"
  shows "\<exists>l l' d. CList_new = Some l \<and> clist_run ps l = Some (rs, l') \<and> CList_delete l' = Some d \<and> heap d = Map.empty"
  using new_rep run_refines [OF _ assms] CList_delete_ok by blast

theorem clist_no_leak_witness:
  "\<exists>l l' d. CList_new = Some l \<and> clist_run [PushBack (1::int), PushFront 2, PopBack] l =
       Some ([(1, []), (2, []), (1, [1])], l') \<and> CList_delete l' = Some d \<and> heap d = Map.empty"
  using clist_no_leak [of "[PushBack (1::int), PushFront 2, PopBack]"] by simp

text \<open>On a non-empty list whose cursor stands on the head, \<open>insert\<close> puts the
  value before the head; on any other member but the last it puts it directly behind the cursor.\<close>

theorem insert_position:
  fixes l :: "('v::linorder) dll"
  assumes "clist_rel l (vs, c)" and "vs \<noteq> []" and "c < length vs"
  shows "\<exists>l'. insert_r l v = Some (int (length vs) + 1, l') \<and>
     clist_rel l' (if c = 0 then (v # vs, 0) else (take (Suc c) vs @ v # drop (Suc c) vs, Suc c))"
  using op_refines_all [OF assms(1), of "Insert v"] assms(2,3)
  by (auto simp: op_refines_def out_defs insert_at_def bind_Some_iff split: if_splits)

theorem insert_position_witness:
  "\<exists>l l1 l2. CList_new = Some l \<and> push_back_r l (7::int) = Some (1, l1) \<and>
     insert_r l1 8 = Some (2, l2) \<and> clist_rel l2 ([8, 7], 0)"
proof -
  obtain l :: "int dll" where l: "CList_new = Some l" "clist_rel l ([], 0)" using new_rep by blast
  obtain l1 where l1: "push_back_r l 7 = Some (1, l1)" "clist_rel l1 ([7], 0)"
    using op_refines_all [OF l(2), of "PushBack 7"] by (auto simp: op_refines_def out_defs bind_Some_iff)
  then show ?thesis using insert_position [OF l1(2), of 8] l(1) by auto
qed

section \<open>The list as a queue\<close>

lemma clist_push_back: "clist_rel l (vs, c) \<Longrightarrow> \<exists>l'. push_back_r l v = Some (int (length vs) + 1, l') \<and> clist_rel l' (vs @ [v], length vs)"
  using push_back_rep clist_relI unfolding clist_rel_def by fastforce

lemma clist_num: "clist_rel l (vs, c) \<Longrightarrow> clist_count l = int (length vs)"
  by (auto simp: clist_rel_def clist_count_def rep_count)

lemma clist_pop_front:
  assumes "clist_rel l (v # vs, c)"
  shows "\<exists>l'. pop_front_v l = Some ((int (length vs), Some v), l') \<and> clist_rel l' (vs, 0)"
proof -
  obtain as where rep: "clist_rep l as (v # vs) c" using assms by (auto simp: clist_rel_def)
  obtain n where "load l (m_pHead l) = Some n" "m_value n = Some v"
    using rep_at [OF rep, of 0] rep_head [OF rep] by (metis length_greater_0_conv list.discI nth_Cons_0)
  then show ?thesis using pop_front_rep [OF rep] rep_count [OF rep] clist_relI by (fastforce simp: pop_front_v_def)
qed

interpretation clist_queue: fifo_list "\<lambda>l vs. \<exists>c. clist_rel l (vs, c)" clist_count push_back_r pop_front_v
  by unfold_locales (metis clist_num, metis clist_push_back, metis clist_pop_front)

end
