(* ===== verification/ExpireBuffer.thy ===== *)
theory ExpireBuffer
  imports NodeStore
begin

text \<open>
  The keyed buffer with expiry \<open>CExpireBuffer<TKey, TValue>\<close> of
  \<open>include/comserv/cexpirebuffer.h\<close>, which keeps the dialogs of the task selector and the
  transactions of the transport layer. Its nodes form the ring of \<open>NodeStore\<close>, oldest
  refresh first; \<open>m_map\<close> finds the node of a key. \<open>time(0)\<close> is the argument
  \<open>now\<close> of the operations that read the clock.
\<close>

section \<open>The pointer implementation\<close>

record ('k, 'v) eb_value =
  ev_value :: 'v
  ev_key :: 'k
  m_inittime :: int
  m_refreshtime :: int
  m_endtime :: int

record ('k, 'v) ebuf = "('k, 'v) eb_value dll" +
  m_map :: "'k \<Rightarrow> addr option"
  m_count_max :: nat
  m_destroy_old :: bool
  m_living_time :: int

definition eb_value_new :: "'k \<Rightarrow> 'v \<Rightarrow> int \<Rightarrow> int \<Rightarrow> ('k, 'v) eb_value" where
  "eb_value_new k v inittime now =
     (let t = (if inittime \<noteq> 0 then inittime else now) in
      \<lparr>ev_value = v, ev_key = k, m_inittime = t, m_refreshtime = t, m_endtime = 0\<rparr>)"

definition eb_new :: "nat \<Rightarrow> bool \<Rightarrow> int \<Rightarrow> ('k, 'v) ebuf option" where
  "eb_new max_count destroy_old living_time = do {
     let b = \<lparr>heap = Map.empty, brk = 1, m_pHead = NULL, m_pTail = NULL, m_pCurrent = NULL,
              m_pTag = NULL, m_count = 0, m_map = Map.empty, m_count_max = max_count,
              m_destroy_old = destroy_old, m_living_time = living_time\<rparr>;
     let (t, b) = new_node b None NULL NULL;
     let b = b\<lparr>m_pTag := t\<rparr>;
     let b = b\<lparr>m_pHead := m_pTag b, m_pTail := m_pTag b, m_pCurrent := m_pTag b\<rparr>;
     b \<leftarrow> set_next b (m_pTag b) (m_pHead b);
     set_prev b (m_pTag b) (m_pTail b) }"

partial_function (option) eb_delete_loop :: "('k, 'v) ebuf \<Rightarrow> ('k, 'v) ebuf option" where
  "eb_delete_loop b = (if m_pHead b \<noteq> m_pTag b then do {
       n \<leftarrow> load b (m_pHead b);
       let b = b\<lparr>m_pCurrent := m_next n\<rparr>;
       b \<leftarrow> delete_node b (m_pHead b);
       eb_delete_loop (b\<lparr>m_pHead := m_pCurrent b\<rparr>) }
     else Some b)"

definition eb_delete :: "('k, 'v) ebuf \<Rightarrow> ('k, 'v) ebuf option" where
  "eb_delete b = do {
     b \<leftarrow> eb_delete_loop b;
     b \<leftarrow> (if m_pTag b \<noteq> NULL then delete_node b (m_pTag b) else Some b);
     Some (b\<lparr>m_map := Map.empty\<rparr>) }"

definition eb_setMaxCount :: "('k, 'v) ebuf \<Rightarrow> nat \<Rightarrow> ('k, 'v) ebuf" where
  "eb_setMaxCount b n = b\<lparr>m_count_max := n\<rparr>"

definition eb_setLivingTime :: "('k, 'v) ebuf \<Rightarrow> int \<Rightarrow> ('k, 'v) ebuf" where
  "eb_setLivingTime b t = b\<lparr>m_living_time := t\<rparr>"

definition eb_setDestroyPolicy :: "('k, 'v) ebuf \<Rightarrow> bool \<Rightarrow> ('k, 'v) ebuf" where
  "eb_setDestroyPolicy b d = b\<lparr>m_destroy_old := d\<rparr>"

subsection \<open>Cursor and lookup\<close>

text \<open>Reading key and value of the node at \<open>p\<close> into the reference arguments.\<close>

definition eb_read :: "('k, 'v) ebuf \<Rightarrow> addr \<Rightarrow> ('k \<times> 'v) option" where
  "eb_read b p = do { n \<leftarrow> load b p; e \<leftarrow> m_value n; Some (ev_key e, ev_value e) }"

definition eb_front :: "('k, 'v) ebuf \<Rightarrow> (('k \<times> 'v) option \<times> ('k, 'v) ebuf) option" where
  "eb_front b = (if m_count b > 0 then do {
       kv \<leftarrow> eb_read b (m_pHead b);
       Some (Some kv, b\<lparr>m_pCurrent := m_pHead b\<rparr>) }
     else Some (None, b))"

definition eb_back :: "('k, 'v) ebuf \<Rightarrow> (('k \<times> 'v) option \<times> ('k, 'v) ebuf) option" where
  "eb_back b = (if m_count b > 0 then do {
       kv \<leftarrow> eb_read b (m_pTail b);
       Some (Some kv, b\<lparr>m_pCurrent := m_pTail b\<rparr>) }
     else Some (None, b))"

definition eb_next :: "('k, 'v) ebuf \<Rightarrow> (bool \<times> ('k, 'v) ebuf) option" where
  "eb_next b = (if m_count b > 0 then
       if m_pCurrent b = NULL then Some (False, b)
       else do {
         n \<leftarrow> load b (m_pCurrent b);
         let b = b\<lparr>m_pCurrent := m_next n\<rparr>;
         if m_pCurrent b = m_pTag b then Some (False, b) else Some (True, b) }
     else Some (False, b))"

definition eb_next_kv :: "('k, 'v) ebuf \<Rightarrow> (('k \<times> 'v) option \<times> ('k, 'v) ebuf) option" where
  "eb_next_kv b = do {
     (r, b) \<leftarrow> eb_next b;
     if r then do { kv \<leftarrow> eb_read b (m_pCurrent b); Some (Some kv, b) } else Some (None, b) }"

definition eb_prev :: "('k, 'v) ebuf \<Rightarrow> (bool \<times> ('k, 'v) ebuf) option" where
  "eb_prev b = (if m_count b > 0 then
       if m_pCurrent b = NULL then Some (False, b)
       else do {
         n \<leftarrow> load b (m_pCurrent b);
         let b = b\<lparr>m_pCurrent := m_prev n\<rparr>;
         if m_pCurrent b = m_pTag b then Some (False, b) else Some (True, b) }
     else Some (False, b))"

definition eb_prev_kv :: "('k, 'v) ebuf \<Rightarrow> (('k \<times> 'v) option \<times> ('k, 'v) ebuf) option" where
  "eb_prev_kv b = do {
     (r, b) \<leftarrow> eb_prev b;
     if r then do { kv \<leftarrow> eb_read b (m_pCurrent b); Some (Some kv, b) } else Some (None, b) }"

definition eb_find :: "('k, 'v) ebuf \<Rightarrow> 'k \<Rightarrow> ('v option \<times> ('k, 'v) ebuf) option" where
  "eb_find b k = (if m_count b = 0 then Some (None, b)
     else case m_map b k of
       None \<Rightarrow> Some (None, b)
     | Some p \<Rightarrow>
         if p = NULL then Some (None, b\<lparr>m_map := (m_map b)(k := None)\<rparr>)
         else do {
           kv \<leftarrow> eb_read b p;
           Some (Some (snd kv), b\<lparr>m_pCurrent := p\<rparr>) })"

text \<open>\<open>operator[]\<close> returns the member \<open>tmpValue\<close>, here the argument
  \<open>tmp\<close>, for a missing key.\<close>

definition eb_subscript :: "('k, 'v) ebuf \<Rightarrow> 'k \<Rightarrow> 'v \<Rightarrow> ('v \<times> ('k, 'v) ebuf) option" where
  "eb_subscript b k tmp = do {
     (r, b) \<leftarrow> eb_find b k;
     Some (case r of None \<Rightarrow> tmp | Some v \<Rightarrow> v, b) }"

subsection \<open>Expiry, removal, insertion and refresh\<close>

definition eb_oldtime :: "int \<Rightarrow> int \<Rightarrow> int" where
  "eb_oldtime currenttime now = (if currenttime \<noteq> 0 then currenttime else now)"

definition eb_head_old :: "('k, 'v) ebuf \<Rightarrow> int \<Rightarrow> bool option" where
  "eb_head_old b oldtime = do {
     n \<leftarrow> load b (m_pHead b);
     e \<leftarrow> m_value n;
     Some (m_living_time b < oldtime - m_refreshtime e) }"

definition eb_front_old :: "('k, 'v) ebuf \<Rightarrow> int \<Rightarrow> int \<Rightarrow> (('k \<times> 'v) option \<times> ('k, 'v) ebuf) option" where
  "eb_front_old b currenttime now = (if m_count b > 0 then do {
       old \<leftarrow> eb_head_old b (eb_oldtime currenttime now);
       if old then do {
         kv \<leftarrow> eb_read b (m_pHead b);
         Some (Some kv, b\<lparr>m_pCurrent := m_pHead b\<rparr>) }
       else Some (None, b) }
     else Some (None, b))"

definition eb_pop_front :: "('k, 'v) ebuf \<Rightarrow> (bool \<times> ('k, 'v) ebuf) option" where
  "eb_pop_front b = (if m_count b > 0 then do {
     n \<leftarrow> load b (m_pHead b);
     let b = b\<lparr>m_pCurrent := m_next n\<rparr>;
     b \<leftarrow> set_prev b (m_pCurrent b) (m_pTag b);
     b \<leftarrow> set_next b (m_pTag b) (m_pCurrent b);
     kv \<leftarrow> eb_read b (m_pHead b);
     let b = b\<lparr>m_map := (m_map b)(fst kv := None)\<rparr>;
     b \<leftarrow> delete_node b (m_pHead b);
     let b = b\<lparr>m_pHead := m_pCurrent b, m_count := m_count b - 1\<rparr>;
     let b = (if m_count b = 0 then b\<lparr>m_pTail := m_pTag b\<rparr> else b);
     Some (True, b) }
   else Some (False, b))"

definition eb_pop_front_kv :: "('k, 'v) ebuf \<Rightarrow> ((bool \<times> ('k \<times> 'v) option) \<times> ('k, 'v) ebuf) option" where
  "eb_pop_front_kv b = (if m_count b > 0 then do {
     kv \<leftarrow> eb_read b (m_pHead b);
     (r, b) \<leftarrow> eb_pop_front b;
     Some ((r, Some kv), b) }
   else Some ((False, None), b))"

definition eb_pop_front_old :: "('k, 'v) ebuf \<Rightarrow> int \<Rightarrow> int \<Rightarrow> (bool \<times> ('k, 'v) ebuf) option" where
  "eb_pop_front_old b currenttime now = (if m_count b > 0 then do {
       old \<leftarrow> eb_head_old b (eb_oldtime currenttime now);
       if old then eb_pop_front b else Some (False, b) }
     else Some (False, b))"

text \<open>The overload with reference arguments stores the head's key and value before it is
  known whether the head has expired.\<close>

definition eb_pop_front_old_kv ::
  "('k, 'v) ebuf \<Rightarrow> int \<Rightarrow> int \<Rightarrow> ((bool \<times> ('k \<times> 'v) option) \<times> ('k, 'v) ebuf) option" where
  "eb_pop_front_old_kv b currenttime now = (if m_count b > 0 then do {
     kv \<leftarrow> eb_read b (m_pHead b);
     (r, b) \<leftarrow> eb_pop_front_old b currenttime now;
     Some ((r, Some kv), b) }
   else Some ((False, None), b))"

text \<open>The loop of \<open>pop_old\<close> calls \<open>pop_front_old\<close> anew each time, so a clock that is read is
  read in every iteration: \<open>clk i\<close> is the reading of iteration \<open>i\<close>.\<close>

partial_function (option) eb_pop_old_loop ::
  "('k, 'v) ebuf \<Rightarrow> int \<Rightarrow> (nat \<Rightarrow> int) \<Rightarrow> nat \<Rightarrow> (int \<times> ('k, 'v) ebuf) option" where
  "eb_pop_old_loop b currenttime clk count = do {
     (r, b) \<leftarrow> eb_pop_front_old b currenttime (clk count);
     if r then eb_pop_old_loop b currenttime clk (Suc count) else Some (int count, b) }"

definition eb_pop_old :: "('k, 'v) ebuf \<Rightarrow> int \<Rightarrow> (nat \<Rightarrow> int) \<Rightarrow> (int \<times> ('k, 'v) ebuf) option" where
  "eb_pop_old b currenttime clk =
     (if m_count b > 0 then eb_pop_old_loop b currenttime clk 0 else Some (0, b))"

definition eb_pop_back :: "('k, 'v) ebuf \<Rightarrow> (bool \<times> ('k, 'v) ebuf) option" where
  "eb_pop_back b = (if m_count b > 0 then do {
     n \<leftarrow> load b (m_pTail b);
     let b = b\<lparr>m_pCurrent := m_prev n\<rparr>;
     b \<leftarrow> set_next b (m_pCurrent b) (m_pTag b);
     b \<leftarrow> set_prev b (m_pTag b) (m_pCurrent b);
     kv \<leftarrow> eb_read b (m_pTail b);
     let b = b\<lparr>m_map := (m_map b)(fst kv := None)\<rparr>;
     b \<leftarrow> delete_node b (m_pTail b);
     let b = b\<lparr>m_pTail := m_pCurrent b, m_count := m_count b - 1\<rparr>;
     let b = (if m_count b = 0 then b\<lparr>m_pHead := m_pTag b\<rparr> else b);
     Some (True, b) }
   else Some (False, b))"

definition eb_pop_back_kv :: "('k, 'v) ebuf \<Rightarrow> ((bool \<times> ('k \<times> 'v) option) \<times> ('k, 'v) ebuf) option" where
  "eb_pop_back_kv b = (if m_count b > 0 then do {
     kv \<leftarrow> eb_read b (m_pTail b);
     (r, b) \<leftarrow> eb_pop_back b;
     Some ((r, Some kv), b) }
   else Some ((False, None), b))"

definition eb_pop :: "('k, 'v) ebuf \<Rightarrow> 'k \<Rightarrow> ((bool \<times> 'v option) \<times> ('k, 'v) ebuf) option" where
  "eb_pop b k = (if m_count b = 0 then Some ((False, None), b)
     else case m_map b k of
       None \<Rightarrow> Some ((False, None), b)
     | Some pValue \<Rightarrow>
         if pValue = NULL then Some ((False, None), b\<lparr>m_map := (m_map b)(k := None)\<rparr>)
         else do {
           kv \<leftarrow> eb_read b pValue;
           n \<leftarrow> load b pValue;
           let pPrev = m_prev n;
           let pNext = m_next n;
           let b = b\<lparr>m_count := m_count b - 1\<rparr>;
           b \<leftarrow> delete_node b pValue;
           b \<leftarrow> (if pNext = m_pTag b then do {
                   b \<leftarrow> set_prev b (m_pTag b) pPrev;
                   let b = b\<lparr>m_pTail := pPrev, m_pCurrent := pPrev\<rparr>;
                   Some (if m_count b = 0 then b\<lparr>m_pHead := m_pTag b\<rparr> else b) }
                 else Some b);
           b \<leftarrow> (if pPrev = m_pTag b then do {
                   b \<leftarrow> set_next b (m_pTag b) pNext;
                   let b = b\<lparr>m_pHead := pNext, m_pCurrent := pNext\<rparr>;
                   Some (if m_count b = 0 then b\<lparr>m_pTail := m_pTag b\<rparr> else b) }
                 else Some b);
           b \<leftarrow> set_next b pPrev pNext;
           b \<leftarrow> set_prev b pNext pPrev;
           Some ((True, Some (snd kv)), b\<lparr>m_map := (m_map b)(k := None)\<rparr>) })"

definition eb_push :: "('k, 'v) ebuf \<Rightarrow> 'k \<Rightarrow> 'v \<Rightarrow> int \<Rightarrow> (int \<times> ('k, 'v) ebuf) option" where
  "eb_push b k v now = (if m_map b k \<noteq> None then Some (0, b)
     else if \<not> m_destroy_old b \<and> m_count_max b > 0 \<and> m_count b \<ge> int (m_count_max b) then Some (0, b)
     else do {
       let theValue = eb_value_new k v 0 now;
       let (p, b) = new_node b (Some theValue) (m_pTail b) (m_pTag b);
       let b = b\<lparr>m_pCurrent := p\<rparr>;
       let b = b\<lparr>m_map := (m_map b)(k \<mapsto> m_pCurrent b)\<rparr>;
       b \<leftarrow> (if m_count b = 0 then do {
               let b = b\<lparr>m_pHead := m_pCurrent b, m_pTail := m_pCurrent b\<rparr>;
               set_next b (m_pTag b) (m_pHead b) }
             else do {
               b \<leftarrow> set_next b (m_pTail b) (m_pCurrent b);
               Some (b\<lparr>m_pTail := m_pCurrent b\<rparr>) });
       b \<leftarrow> set_prev b (m_pTag b) (m_pTail b);
       let b = b\<lparr>m_count := m_count b + 1\<rparr>;
       if m_count_max b > 0 \<and> m_count b > int (m_count_max b)
       then do { (r, b) \<leftarrow> eb_pop_front b; Some (2, b) }
       else Some (1, b) })"

definition eb_push_old ::
  "('k, 'v) ebuf \<Rightarrow> 'k \<Rightarrow> 'v \<Rightarrow> int \<Rightarrow> ((int \<times> 'v option) \<times> ('k, 'v) ebuf) option" where
  "eb_push_old b k v now = do {
     tmp \<leftarrow> (if m_count_max b > 0 \<and> m_count b \<ge> int (m_count_max b)
            then do { n \<leftarrow> load b (m_pHead b); Some (map_option ev_value (m_value n)) } else Some None);
     (ret, b) \<leftarrow> eb_push b k v now;
     Some ((ret, if ret = 2 then tmp else None), b) }"

text \<open>The two \<open>update\<close> overloads share the relinking of the current node to the tail.\<close>

definition eb_move_to_tail :: "('k, 'v) ebuf \<Rightarrow> ('k, 'v) ebuf option" where
  "eb_move_to_tail b = (if m_pCurrent b = m_pTail b then Some b else do {
     n \<leftarrow> load b (m_pCurrent b);
     let pPrev = m_prev n;
     let pNext = m_next n;
     b \<leftarrow> set_next b pPrev pNext;
     b \<leftarrow> set_prev b pNext pPrev;
     let b = (if m_pCurrent b = m_pHead b then b\<lparr>m_pHead := pNext\<rparr> else b);
     b \<leftarrow> set_next b (m_pTail b) (m_pCurrent b);
     b \<leftarrow> set_prev b (m_pTag b) (m_pCurrent b);
     b \<leftarrow> set_next b (m_pCurrent b) (m_pTag b);
     b \<leftarrow> set_prev b (m_pCurrent b) (m_pTail b);
     Some (b\<lparr>m_pTail := m_pCurrent b\<rparr>) })"

definition eb_update :: "('k, 'v) ebuf \<Rightarrow> 'k \<Rightarrow> int \<Rightarrow> int \<Rightarrow> (bool \<times> ('k, 'v) ebuf) option" where
  "eb_update b k refreshtime now = (case m_map b k of None \<Rightarrow> Some (False, b)
     | Some p \<Rightarrow> do {
         let b = b\<lparr>m_pCurrent := p\<rparr>;
         n \<leftarrow> load b (m_pCurrent b);
         e \<leftarrow> m_value n;
         b \<leftarrow> set_value b (m_pCurrent b)
               (Some (e\<lparr>m_refreshtime := if refreshtime = 0 then now else refreshtime\<rparr>));
         b \<leftarrow> eb_move_to_tail b;
         Some (True, b) })"

definition eb_update_v ::
  "('k, 'v) ebuf \<Rightarrow> 'k \<Rightarrow> 'v \<Rightarrow> int \<Rightarrow> ((bool \<times> 'v option) \<times> ('k, 'v) ebuf) option" where
  "eb_update_v b k v now = (case m_map b k of None \<Rightarrow> Some ((False, None), b)
     | Some p \<Rightarrow> do {
         let b = b\<lparr>m_pCurrent := p\<rparr>;
         n \<leftarrow> load b (m_pCurrent b);
         e \<leftarrow> m_value n;
         b \<leftarrow> set_value b (m_pCurrent b) (Some (e\<lparr>ev_value := v, m_refreshtime := now\<rparr>));
         b \<leftarrow> eb_move_to_tail b;
         Some ((True, Some (ev_value e)), b) })"

text \<open>\<open>clear\<close> resets the head and both link fields of the tag node, but not
  \<open>m_pTail\<close>.\<close>

partial_function (option) eb_clear_loop :: "('k, 'v) ebuf \<Rightarrow> ('k, 'v) ebuf option" where
  "eb_clear_loop b = (if m_count b \<noteq> 0 then do {
       n \<leftarrow> load b (m_pHead b);
       let b = b\<lparr>m_pCurrent := m_next n\<rparr>;
       b \<leftarrow> set_prev b (m_pCurrent b) (m_pTag b);
       b \<leftarrow> set_next b (m_pTag b) (m_pCurrent b);
       b \<leftarrow> delete_node b (m_pHead b);
       eb_clear_loop (b\<lparr>m_pHead := m_pCurrent b, m_count := m_count b - 1\<rparr>) }
     else Some b)"

definition eb_clear :: "('k, 'v) ebuf \<Rightarrow> ('k, 'v) ebuf option" where
  "eb_clear b = (if m_count b = 0 then Some b
     else eb_clear_loop (b\<lparr>m_map := Map.empty, m_pCurrent := m_pHead b\<rparr>))"

declare eb_delete_loop.simps [code] eb_pop_old_loop.simps [code] eb_clear_loop.simps [code]

end
