(* ===== verification/ExpireBufferSpec.thy ===== *)
theory ExpireBufferSpec
  imports ExpireBuffer Interfaces
begin

text \<open>
  Correctness of the expiring buffer of \<open>include/comserv/cexpirebuffer.h\<close>. The
  specification keeps the entries as a list, oldest refresh first, with distinct keys, a
  cursor and the limits. One refinement lemma per call is lifted to sequences of calls; the
  properties at the end add what the refresh order gives: \<open>pop_old\<close> removes exactly the
  expired entries as long as the refresh times do not run backwards.
\<close>

section \<open>Specification: entries in refresh order, with a cursor\<close>

text \<open>The cursor is a position, the length for the tag node, or \<open>None\<close> when the code
  leaves it on a node that was just deleted.\<close>

record ('k, 'v) espec =
  es_ents :: "('k, 'v) eb_value list"
  es_cur :: "nat option"
  es_max :: nat
  es_destroy :: bool
  es_living :: int

datatype ('k, 'v) eb_op =
    EFront | EBack | ENext | EPrev | EFind 'k | EFrontOld int | EPopFront | EPopBack | EPop 'k
  | EPopFrontOld int | EPopOld int "nat \<Rightarrow> int" | EPush 'k 'v | EUpdate 'k int | EUpdateV 'k 'v
  | ESetMax nat | ESetLiving int | ESetDestroy bool | ECount

type_synonym ('k, 'v) eb_out = "int \<times> 'k list \<times> 'v list"

definition key_pos :: "('k, 'v) eb_value list \<Rightarrow> 'k \<Rightarrow> nat" where
  "key_pos es k = length (takeWhile (\<lambda>e. ev_key e \<noteq> k) es)"

definition expired :: "int \<Rightarrow> int \<Rightarrow> ('k, 'v) eb_value \<Rightarrow> bool" where
  "expired living t e = (living < t - m_refreshtime e)"

definition out_at :: "('k, 'v) eb_value \<Rightarrow> ('k, 'v) eb_out" where
  "out_at e = (1, [ev_key e], [ev_value e])"

abbreviation no_out :: "('k, 'v) eb_out" where
  "no_out \<equiv> (0, [], [])"

definition spec_drop :: "nat \<Rightarrow> nat option \<Rightarrow> ('k, 'v) espec \<Rightarrow> ('k, 'v) espec" where
  "spec_drop j c s = s\<lparr>es_ents := take j (es_ents s) @ drop (Suc j) (es_ents s), es_cur := c\<rparr>"

text \<open>The cursor after \<open>pop(key)\<close> of the entry at position \<open>j\<close>.\<close>

definition pop_cursor :: "nat \<Rightarrow> ('k, 'v) espec \<Rightarrow> nat option" where
  "pop_cursor j s = (if Suc j = length (es_ents s) then Some (length (es_ents s) - 2)
     else if j = 0 then Some 0
     else case es_cur s of None \<Rightarrow> None
       | Some c \<Rightarrow> if c = j then None else if c < j then Some c else Some (c - 1))"

definition spec_refresh :: "nat \<Rightarrow> ('k, 'v) eb_value \<Rightarrow> ('k, 'v) espec \<Rightarrow> ('k, 'v) espec" where
  "spec_refresh j e s = s\<lparr>es_ents := take j (es_ents s) @ drop (Suc j) (es_ents s) @ [e],
     es_cur := Some (length (es_ents s) - 1)\<rparr>"

text \<open>The entries \<open>pop_old\<close> leaves, with one reading of the clock per entry.\<close>

fun drop_old :: "int \<Rightarrow> int \<Rightarrow> (nat \<Rightarrow> int) \<Rightarrow> nat \<Rightarrow> ('k, 'v) eb_value list \<Rightarrow> ('k, 'v) eb_value list" where
  "drop_old l t clk i [] = []"
| "drop_old l t clk i (e # es) = (if expired l (eb_oldtime t (clk i)) e then drop_old l t clk (Suc i) es else e # es)"

fun eb_spec :: "('k, 'v) eb_op \<Rightarrow> int \<Rightarrow> ('k, 'v) espec \<Rightarrow> (('k, 'v) eb_out \<times> ('k, 'v) espec) option" where
  "eb_spec EFront now s = Some (if es_ents s = [] then (no_out, s)
     else (out_at (hd (es_ents s)), s\<lparr>es_cur := Some 0\<rparr>))"
| "eb_spec EBack now s = Some (if es_ents s = [] then (no_out, s)
     else (out_at (last (es_ents s)), s\<lparr>es_cur := Some (length (es_ents s) - 1)\<rparr>))"
| "eb_spec ENext now s = (if es_ents s = [] then Some (no_out, s) else do {
     c \<leftarrow> es_cur s;
     let c' = (if c = length (es_ents s) then 0 else Suc c);
     Some (if c' < length (es_ents s) then out_at (es_ents s ! c') else no_out, s\<lparr>es_cur := Some c'\<rparr>) })"
| "eb_spec EPrev now s = (if es_ents s = [] then Some (no_out, s) else do {
     c \<leftarrow> es_cur s;
     let c' = (if c = 0 then length (es_ents s) else c - 1);
     Some (if c' < length (es_ents s) then out_at (es_ents s ! c') else no_out, s\<lparr>es_cur := Some c'\<rparr>) })"
| "eb_spec (EFind k) now s = (let j = key_pos (es_ents s) k in
     Some (if j < length (es_ents s) then ((1, [], [ev_value (es_ents s ! j)]), s\<lparr>es_cur := Some j\<rparr>)
           else (no_out, s)))"
| "eb_spec (EFrontOld t) now s =
     Some (if es_ents s \<noteq> [] \<and> expired (es_living s) (eb_oldtime t now) (hd (es_ents s))
           then (out_at (hd (es_ents s)), s\<lparr>es_cur := Some 0\<rparr>) else (no_out, s))"
| "eb_spec EPopFront now s = Some (if es_ents s = [] then (no_out, s)
     else (out_at (hd (es_ents s)), spec_drop 0 (Some 0) s))"
| "eb_spec EPopBack now s = Some (if es_ents s = [] then (no_out, s)
     else (out_at (last (es_ents s)), spec_drop (length (es_ents s) - 1) (Some (length (es_ents s) - 2)) s))"
| "eb_spec (EPop k) now s = (let j = key_pos (es_ents s) k in
     Some (if j < length (es_ents s) then ((1, [], [ev_value (es_ents s ! j)]), spec_drop j (pop_cursor j s) s)
           else (no_out, s)))"
| "eb_spec (EPopFrontOld t) now s =
     Some (if es_ents s \<noteq> [] \<and> expired (es_living s) (eb_oldtime t now) (hd (es_ents s))
           then ((1, [], []), spec_drop 0 (Some 0) s) else (no_out, s))"
| "eb_spec (EPopOld t clk) now s =
     (let ws = drop_old (es_living s) t clk 0 (es_ents s) in
      Some ((int (length (es_ents s)) - int (length ws), [], []),
            if length ws = length (es_ents s) then s else s\<lparr>es_ents := ws, es_cur := Some 0\<rparr>))"
| "eb_spec (EPush k v) now s = (let n = length (es_ents s); e = eb_value_new k v 0 now in
     Some (if k \<in> ev_key ` set (es_ents s) \<or> \<not> es_destroy s \<and> es_max s > 0 \<and> n \<ge> es_max s then (no_out, s)
           else if es_max s > 0 \<and> Suc n > es_max s
           then ((2, [], [ev_value (hd (es_ents s))]), s\<lparr>es_ents := tl (es_ents s) @ [e], es_cur := Some 0\<rparr>)
           else ((1, [], []), s\<lparr>es_ents := es_ents s @ [e], es_cur := Some n\<rparr>)))"
| "eb_spec (EUpdate k t) now s = (let j = key_pos (es_ents s) k in
     Some (if j < length (es_ents s)
           then ((1, [], []), spec_refresh j ((es_ents s ! j)\<lparr>m_refreshtime := eb_oldtime t now\<rparr>) s)
           else (no_out, s)))"
| "eb_spec (EUpdateV k v) now s = (let j = key_pos (es_ents s) k in
     Some (if j < length (es_ents s)
           then ((1, [], [ev_value (es_ents s ! j)]),
                 spec_refresh j ((es_ents s ! j)\<lparr>ev_value := v, m_refreshtime := now\<rparr>) s)
           else (no_out, s)))"
| "eb_spec (ESetMax n) now s = Some (no_out, s\<lparr>es_max := n\<rparr>)"
| "eb_spec (ESetLiving t) now s = Some (no_out, s\<lparr>es_living := t\<rparr>)"
| "eb_spec (ESetDestroy d) now s = Some (no_out, s\<lparr>es_destroy := d\<rparr>)"
| "eb_spec ECount now s = Some ((int (length (es_ents s)), [], []), s)"

text \<open>The same calls on the implementation.\<close>

definition eo_kv :: "(('k \<times> 'v) option \<times> ('k, 'v) ebuf) option \<Rightarrow> (('k, 'v) eb_out \<times> ('k, 'v) ebuf) option" where
  "eo_kv r = do { (kv, b) \<leftarrow> r; Some (case kv of None \<Rightarrow> no_out | Some (k, v) \<Rightarrow> (1, [k], [v]), b) }"

definition eo_v :: "('v option \<times> ('k, 'v) ebuf) option \<Rightarrow> (('k, 'v) eb_out \<times> ('k, 'v) ebuf) option" where
  "eo_v r = do { (v, b) \<leftarrow> r; Some (case v of None \<Rightarrow> no_out | Some w \<Rightarrow> (1, [], [w]), b) }"

definition eo_bkv :: "((bool \<times> ('k \<times> 'v) option) \<times> ('k, 'v) ebuf) option \<Rightarrow> (('k, 'v) eb_out \<times> ('k, 'v) ebuf) option" where
  "eo_bkv r = do { ((t, kv), b) \<leftarrow> r; Some ((of_bool t, case kv of None \<Rightarrow> ([], []) | Some (k, v) \<Rightarrow> ([k], [v])), b) }"

definition eo_bv :: "((bool \<times> 'v option) \<times> ('k, 'v) ebuf) option \<Rightarrow> (('k, 'v) eb_out \<times> ('k, 'v) ebuf) option" where
  "eo_bv r = do { ((t, v), b) \<leftarrow> r; Some ((of_bool t, [], case v of None \<Rightarrow> [] | Some w \<Rightarrow> [w]), b) }"

definition eo_iv :: "((int \<times> 'v option) \<times> ('k, 'v) ebuf) option \<Rightarrow> (('k, 'v) eb_out \<times> ('k, 'v) ebuf) option" where
  "eo_iv r = do { ((t, v), b) \<leftarrow> r; Some ((t, [], case v of None \<Rightarrow> [] | Some w \<Rightarrow> [w]), b) }"

definition eo_b :: "(bool \<times> ('k, 'v) ebuf) option \<Rightarrow> (('k, 'v) eb_out \<times> ('k, 'v) ebuf) option" where
  "eo_b r = do { (t, b) \<leftarrow> r; Some ((of_bool t, [], []), b) }"

definition eo_i :: "(int \<times> ('k, 'v) ebuf) option \<Rightarrow> (('k, 'v) eb_out \<times> ('k, 'v) ebuf) option" where
  "eo_i r = do { (t, b) \<leftarrow> r; Some ((t, [], []), b) }"

fun eb_exec :: "('k, 'v) eb_op \<Rightarrow> int \<Rightarrow> ('k, 'v) ebuf \<Rightarrow> (('k, 'v) eb_out \<times> ('k, 'v) ebuf) option" where
  "eb_exec EFront now b = eo_kv (eb_front b)"
| "eb_exec EBack now b = eo_kv (eb_back b)"
| "eb_exec ENext now b = eo_kv (eb_next_kv b)"
| "eb_exec EPrev now b = eo_kv (eb_prev_kv b)"
| "eb_exec (EFind k) now b = eo_v (eb_find b k)"
| "eb_exec (EFrontOld t) now b = eo_kv (eb_front_old b t now)"
| "eb_exec EPopFront now b = eo_bkv (eb_pop_front_kv b)"
| "eb_exec EPopBack now b = eo_bkv (eb_pop_back_kv b)"
| "eb_exec (EPop k) now b = eo_bv (eb_pop b k)"
| "eb_exec (EPopFrontOld t) now b = eo_b (eb_pop_front_old b t now)"
| "eb_exec (EPopOld t clk) now b = eo_i (eb_pop_old b t clk)"
| "eb_exec (EPush k v) now b = eo_iv (eb_push_old b k v now)"
| "eb_exec (EUpdate k t) now b = eo_b (eb_update b k t now)"
| "eb_exec (EUpdateV k v) now b = eo_bv (eb_update_v b k v now)"
| "eb_exec (ESetMax n) now b = Some (no_out, eb_setMaxCount b n)"
| "eb_exec (ESetLiving t) now b = Some (no_out, eb_setLivingTime b t)"
| "eb_exec (ESetDestroy d) now b = Some (no_out, eb_setDestroyPolicy b d)"
| "eb_exec ECount now b = Some ((m_count b, [], []), b)"

fun eb_run :: "(int \<times> ('k, 'v) eb_op) list \<Rightarrow> ('k, 'v) ebuf \<Rightarrow> (('k, 'v) eb_out list \<times> ('k, 'v) ebuf) option" where
  "eb_run [] b = Some ([], b)"
| "eb_run ((now, p) # ps) b = do { (r, b) \<leftarrow> eb_exec p now b; (rs, b) \<leftarrow> eb_run ps b; Some (r # rs, b) }"

fun eb_spec_run :: "(int \<times> ('k, 'v) eb_op) list \<Rightarrow> ('k, 'v) espec \<Rightarrow> (('k, 'v) eb_out list \<times> ('k, 'v) espec) option" where
  "eb_spec_run [] s = Some ([], s)"
| "eb_spec_run ((now, p) # ps) s = do { (r, s) \<leftarrow> eb_spec p now s; (rs, s) \<leftarrow> eb_spec_run ps s; Some (r # rs, s) }"

section \<open>Representation of the specification state\<close>

definition eb_rep :: "('k, 'v) ebuf \<Rightarrow> addr list \<Rightarrow> ('k, 'v) espec \<Rightarrow> bool" where
  "eb_rep b as s \<longleftrightarrow> ring_rep b as (es_ents s) \<and> distinct (map ev_key (es_ents s)) \<and>
     m_map b = map_of (zip (map ev_key (es_ents s)) as) \<and>
     (\<forall>c. es_cur s = Some c \<longrightarrow> c \<le> length (es_ents s) \<and> m_pCurrent b = (as @ [m_pTag b]) ! c) \<and>
     m_count_max b = es_max s \<and> m_destroy_old b = es_destroy s \<and> m_living_time b = es_living s"

definition eb_rel :: "('k, 'v) ebuf \<Rightarrow> ('k, 'v) espec \<Rightarrow> bool" where
  "eb_rel b s \<longleftrightarrow> (\<exists>as. eb_rep b as s)"

lemma eb_ring: "eb_rep b as s \<Longrightarrow> ring_rep b as (es_ents s)"
  by (simp add: eb_rep_def)

lemmas eb_length = rr_length [OF eb_ring]
  and eb_count = rr_count [OF eb_ring]
  and eb_hd = rr_head [OF eb_ring]
  and eb_tl = rr_tail [OF eb_ring]
  and eb_end = rr_end [OF eb_ring]
  and eb_at = rr_at [OF eb_ring]

lemma eb_keys: "eb_rep b as s \<Longrightarrow> distinct (map ev_key (es_ents s))"
  by (simp add: eb_rep_def)

lemma eb_cfg: "eb_rep b as s \<Longrightarrow>
    m_count_max b = es_max s \<and> m_destroy_old b = es_destroy s \<and> m_living_time b = es_living s"
  by (simp add: eb_rep_def)

text \<open>The key map.\<close>

lemma key_pos_less: "key_pos es k < length es \<longleftrightarrow> k \<in> ev_key ` set es"
  by (induction es) (auto simp: key_pos_def)

lemma key_pos_nth: "key_pos es k < length es \<Longrightarrow> ev_key (es ! key_pos es k) = k"
  unfolding key_pos_def using nth_length_takeWhile by blast

lemma eb_map_at:
  assumes rep: "eb_rep b as s" and j: "j < length (es_ents s)"
  shows "m_map b (ev_key (es_ents s ! j)) = Some (as ! j)"
proof -
  have "m_map b (map ev_key (es_ents s) ! j) = Some (as ! j)"
    using rep j eb_length [OF rep] unfolding eb_rep_def by (metis length_map map_of_zip_nth)
  then show ?thesis using j by simp
qed

lemma eb_map:
  assumes rep: "eb_rep b as s"
  shows "m_map b k = (if key_pos (es_ents s) k < length (es_ents s) then Some (as ! key_pos (es_ents s) k) else None)"
proof (cases "key_pos (es_ents s) k < length (es_ents s)")
  case True
  then show ?thesis using eb_map_at [OF rep True] key_pos_nth by fastforce
next
  case False
  then have "k \<notin> set (map ev_key (es_ents s))" by (simp add: key_pos_less)
  then show ?thesis
    using rep False eb_length [OF rep] by (simp add: eb_rep_def map_of_zip_is_None)
qed

lemma map_of_zip_without:
  assumes "distinct ks" and "length ks = length as" and "j < length ks"
  shows "map_of (zip (take j ks @ drop (Suc j) ks) (take j as @ drop (Suc j) as)) = (map_of (zip ks as))(ks ! j := None)"
  using assms
proof (induction ks arbitrary: as j)
  case (Cons k ks)
  then obtain a as' where as: "as = a # as'" by (cases as) auto
  show ?case
  proof (cases j)
    case 0
    have "k \<notin> dom (map_of (zip ks as'))" using Cons.prems as by (simp add: dom_map_of_zip)
    then show ?thesis using as 0 by (auto simp: domIff)
  next
    case (Suc i)
    then have "ks ! i \<in> set ks" using Cons.prems by simp
    then have "ks ! i \<noteq> k" using Cons.prems by auto
    then show ?thesis using Cons.IH [of as' i] Cons.prems as Suc by (auto simp: fun_eq_iff)
  qed
qed simp

text \<open>Dropping entry \<open>j\<close> from ring and map.\<close>

lemma eb_drop:
  assumes rep: "eb_rep b as s" and j: "j < length (es_ents s)"
    and ring: "ring_rep b' (take j as @ drop (Suc j) as) (take j (es_ents s) @ drop (Suc j) (es_ents s))"
    and mp: "m_map b' = (m_map b)(ev_key (es_ents s ! j) := None)"
    and cfg: "m_count_max b' = m_count_max b" "m_destroy_old b' = m_destroy_old b" "m_living_time b' = m_living_time b"
    and cur: "\<And>i. c = Some i \<Longrightarrow> i < length (es_ents s) \<and>
       m_pCurrent b' = ((take j as @ drop (Suc j) as) @ [m_pTag b']) ! i"
  shows "eb_rep b' (take j as @ drop (Suc j) as) (spec_drop j c s)"
proof -
  let ?ks = "map ev_key (es_ents s)"
  have d: "distinct ?ks" by (rule eb_keys [OF rep])
  have "map_of (zip (take j ?ks @ drop (Suc j) ?ks) (take j as @ drop (Suc j) as)) = (m_map b)(?ks ! j := None)"
    using map_of_zip_without [OF d, of as j] rep j eb_length [OF rep] by (simp add: eb_rep_def)
  moreover have "distinct (take j ?ks @ drop (Suc j) ?ks)"
    using d by (metis j length_map id_take_nth_drop distinct_append distinct.simps(2) Int_insert_right list.set(2) disjoint_insert(1))
  ultimately show ?thesis
    using ring mp cfg cur eb_cfg [OF rep] j
    by (auto simp: eb_rep_def spec_drop_def take_map drop_map)
qed

lemma eb_read_at:
  assumes rep: "eb_rep b as s" and i: "i < length (es_ents s)"
  shows "eb_read b ((as @ [m_pTag b]) ! i) = Some (ev_key (es_ents s ! i), ev_value (es_ents s ! i))"
proof -
  obtain n where "load b ((as @ [m_pTag b]) ! i) = Some n" "m_value n = Some (es_ents s ! i)"
    using eb_at [OF rep i] by metis
  then show ?thesis by (simp add: eb_read_def)
qed

definition eb_refines :: "('k, 'v) eb_op \<Rightarrow> int \<Rightarrow> ('k, 'v) ebuf \<Rightarrow> ('k, 'v) espec \<Rightarrow> bool" where
  "eb_refines p now b s \<longleftrightarrow> (case eb_spec p now s of None \<Rightarrow> True
     | Some (r, s') \<Rightarrow> \<exists>b'. eb_exec p now b = Some (r, b') \<and> eb_rel b' s')"

lemma eb_relI: "eb_rep b as s \<Longrightarrow> eb_rel b s"
  by (auto simp: eb_rel_def)

lemmas eo_defs = eo_kv_def eo_v_def eo_bkv_def eo_bv_def eo_iv_def eo_b_def eo_i_def

lemma eb_read_ends:
  assumes rep: "eb_rep b as s" and ne: "es_ents s \<noteq> []"
  shows "eb_read b (m_pHead b) = Some (ev_key (hd (es_ents s)), ev_value (hd (es_ents s)))"
    and "eb_read b (m_pTail b) = Some (ev_key (last (es_ents s)), ev_value (last (es_ents s)))"
  using eb_read_at [OF rep, of 0] eb_read_at [OF rep, of "length (es_ents s) - 1"] ne eb_hd [OF rep] eb_tl [OF rep]
  by (simp_all add: hd_conv_nth last_conv_nth)

lemma eb_move_cursor:
  assumes rep: "eb_rep b as s" and "c \<le> length (es_ents s)" and "p = (as @ [m_pTag b]) ! c"
  shows "eb_rep (b\<lparr>m_pCurrent := p\<rparr>) as (s\<lparr>es_cur := Some c\<rparr>)"
  using assms by (simp add: eb_rep_def)

lemma eb_refines_ends:
  assumes rep: "eb_rep b as s"
  shows "eb_refines EFront now b s" "eb_refines EBack now b s" "eb_refines ECount now b s"
  using eb_read_ends [OF rep] eb_count [OF rep] eb_relI [OF rep]
    eb_relI [OF eb_move_cursor [OF rep _ eb_hd [OF rep]]] eb_relI [OF eb_move_cursor [OF rep _ eb_tl [OF rep]]]
  by (auto simp: eb_refines_def eo_defs eb_front_def eb_back_def out_at_def)

lemma eb_refines_cfg:
  assumes rep: "eb_rep b as s"
  shows "eb_refines (ESetMax n) now b s" "eb_refines (ESetLiving t) now b s" "eb_refines (ESetDestroy d) now b s"
proof -
  have "eb_rep (b\<lparr>m_count_max := n\<rparr>) as (s\<lparr>es_max := n\<rparr>)" "eb_rep (b\<lparr>m_living_time := t\<rparr>) as (s\<lparr>es_living := t\<rparr>)"
    "eb_rep (b\<lparr>m_destroy_old := d\<rparr>) as (s\<lparr>es_destroy := d\<rparr>)"
    using rep by (simp_all add: eb_rep_def ring_rep_def dll_inv_def)
  then show "eb_refines (ESetMax n) now b s" "eb_refines (ESetLiving t) now b s" "eb_refines (ESetDestroy d) now b s"
    by (auto simp: eb_refines_def eb_setMaxCount_def eb_setLivingTime_def eb_setDestroyPolicy_def eb_rel_def)
qed


text \<open>Cursor movement; the tag node is one step before the head and one after the last.\<close>

lemma eb_neighbour:
  assumes rep: "eb_rep b as s" and ne: "es_ents s \<noteq> []" and c: "es_cur s = Some c"
  obtains n where "load b (m_pCurrent b) = Some n" "m_pCurrent b \<noteq> NULL"
    "m_next n = (as @ [m_pTag b]) ! (if c = length (es_ents s) then 0 else Suc c)"
    "m_prev n = (as @ [m_pTag b]) ! (if c = 0 then length (es_ents s) else c - 1)"
proof -
  have cur: "m_pCurrent b = (as @ [m_pTag b]) ! c" "c \<le> length (es_ents s)" using rep c by (auto simp: eb_rep_def)
  have len: "length as = length (es_ents s)" by (rule eb_length [OF rep])
  show ?thesis
  proof (cases "c < length (es_ents s)")
    case True
    obtain n where "load b ((as @ [m_pTag b]) ! c) = Some n" "m_next n = (as @ [m_pTag b]) ! Suc c"
      "m_prev n = (m_pTag b # as) ! c" "(as @ [m_pTag b]) ! c \<noteq> NULL" using eb_at [OF rep True] by metis
    then show ?thesis using that True cur eb_end [OF rep] len by (cases c) (auto simp: nth_append)
  next
    case False
    then have ct: "c = length (es_ents s)" using cur by simp
    obtain n where n: "load b (m_pTag b) = Some n" "m_next n = (as @ [m_pTag b]) ! 0"
      "m_prev n = (m_pTag b # as) ! length as" using tag_at [OF rr_inv [OF eb_ring [OF rep]]] by metis
    have "m_pTag b \<noteq> NULL" by (rule ring_fresh(6) [OF rr_inv [OF eb_ring [OF rep]]])
    moreover have "(m_pTag b # as) ! length as = (as @ [m_pTag b]) ! (length as - 1)"
      using ne len by (simp add: nth_append nth_Cons')
    ultimately show ?thesis using that [of n] n ct cur ne eb_end [OF rep] len by simp
  qed
qed

lemma eb_at_tag:
  assumes rep: "eb_rep b as s" and "c \<le> length (es_ents s)"
  shows "((as @ [m_pTag b]) ! c = m_pTag b) = (c = length (es_ents s))"
  using rr_distinct [OF eb_ring [OF rep]] eb_end [OF rep] eb_length [OF rep] assms(2)
    nth_eq_iff_index_eq [of "as @ [m_pTag b]" c "length (es_ents s)"] by simp

lemma eb_refines_next: "eb_rep b as s \<Longrightarrow> eb_refines ENext now b s"
proof -
  assume rep: "eb_rep b as s"
  let ?n = "length (es_ents s)"
  consider "es_ents s = []" | "es_ents s \<noteq> []" "es_cur s = None"
    | (go) c where "es_ents s \<noteq> []" "es_cur s = Some c" by blast
  then show ?thesis
  proof cases
    case go
    let ?c = "if c = ?n then 0 else Suc c"
    have le: "?c \<le> ?n" using rep go by (auto simp: eb_rep_def)
    obtain n where n: "load b (m_pCurrent b) = Some n" "m_pCurrent b \<noteq> NULL" "m_next n = (as @ [m_pTag b]) ! ?c"
      using eb_neighbour [OF rep go] by metis
    note m = eb_move_cursor [OF rep le n(3)]
    have "eb_next b = Some (?c < ?n, b\<lparr>m_pCurrent := m_next n\<rparr>)"
      using n go eb_count [OF rep] eb_at_tag [OF rep le] le by (auto simp: eb_next_def Let_def)
    then show ?thesis using go eb_read_at [OF m, of ?c] n eb_relI [OF m]
      by (auto simp: eb_refines_def eo_defs eb_next_kv_def out_at_def Let_def)
  qed (use eb_count [OF rep] eb_relI [OF rep] in \<open>auto simp: eb_refines_def eo_defs eb_next_kv_def eb_next_def\<close>)
qed

lemma eb_refines_prev: "eb_rep b as s \<Longrightarrow> eb_refines EPrev now b s"
proof -
  assume rep: "eb_rep b as s"
  let ?n = "length (es_ents s)"
  consider "es_ents s = []" | "es_ents s \<noteq> []" "es_cur s = None"
    | (go) c where "es_ents s \<noteq> []" "es_cur s = Some c" by blast
  then show ?thesis
  proof cases
    case go
    let ?c = "if c = 0 then ?n else c - 1"
    have le: "?c \<le> ?n" using rep go by (auto simp: eb_rep_def)
    obtain n where n: "load b (m_pCurrent b) = Some n" "m_pCurrent b \<noteq> NULL" "m_prev n = (as @ [m_pTag b]) ! ?c"
      using eb_neighbour [OF rep go] by metis
    note m = eb_move_cursor [OF rep le n(3)]
    have "eb_prev b = Some (?c < ?n, b\<lparr>m_pCurrent := m_prev n\<rparr>)"
      using n go eb_count [OF rep] eb_at_tag [OF rep le] le by (auto simp: eb_prev_def Let_def)
    then show ?thesis using go eb_read_at [OF m, of ?c] n eb_relI [OF m]
      by (auto simp: eb_refines_def eo_defs eb_prev_kv_def out_at_def Let_def)
  qed (use eb_count [OF rep] eb_relI [OF rep] in \<open>auto simp: eb_refines_def eo_defs eb_prev_kv_def eb_prev_def\<close>)
qed

lemma eb_node_ne: "eb_rep b as s \<Longrightarrow> j < length (es_ents s) \<Longrightarrow> as ! j \<noteq> NULL"
  using eb_at eb_length by (metis nth_append)

lemma eb_refines_find: "eb_rep b as s \<Longrightarrow> eb_refines (EFind k) now b s"
proof -
  assume rep: "eb_rep b as s"
  let ?j = "key_pos (es_ents s) k"
  show ?thesis
  proof (cases "?j < length (es_ents s)")
    case True
    have nth: "(as @ [m_pTag b]) ! ?j = as ! ?j" using True eb_length [OF rep] by (simp add: nth_append)
    have "m_count b \<noteq> 0" using True eb_count [OF rep] by auto
    then show ?thesis
      using True eb_map [OF rep, of k] eb_read_at [OF rep True] eb_node_ne [OF rep True]
        eb_relI [OF eb_move_cursor [OF rep _ nth [symmetric]]] nth
      by (simp add: eb_refines_def eo_defs eb_find_def Let_def)
  next
    case False
    then show ?thesis using eb_map [OF rep, of k] eb_relI [OF rep]
      by (simp add: eb_refines_def eo_defs eb_find_def Let_def)
  qed
qed

lemma eb_head_old_rep:
  assumes rep: "eb_rep b as s" and ne: "es_ents s \<noteq> []"
  shows "eb_head_old b t = Some (expired (es_living s) t (hd (es_ents s)))"
proof -
  obtain n where "load b (m_pHead b) = Some n" "m_value n = Some (hd (es_ents s))"
    using eb_at [OF rep, of 0] ne eb_hd [OF rep] by (metis hd_conv_nth length_greater_0_conv)
  then show ?thesis using eb_cfg [OF rep] by (simp add: eb_head_old_def expired_def)
qed

lemma eb_refines_front_old: "eb_rep b as s \<Longrightarrow> eb_refines (EFrontOld t) now b s"
proof -
  assume rep: "eb_rep b as s"
  show ?thesis
    using eb_head_old_rep [OF rep] eb_read_ends [OF rep] eb_count [OF rep] eb_relI [OF rep]
      eb_relI [OF eb_move_cursor [OF rep _ eb_hd [OF rep]]]
    by (auto simp: eb_refines_def eo_defs eb_front_old_def out_at_def)
qed


section \<open>Removal\<close>

lemma eb_read_upd [heap_simps]:
  "eb_read (b\<lparr>heap := upd_next h p q\<rparr>) a = eb_read (b\<lparr>heap := h\<rparr>) a"
  "eb_read (b\<lparr>heap := upd_prev h p q\<rparr>) a = eb_read (b\<lparr>heap := h\<rparr>) a"
  by (cases "h p"; simp add: eb_read_def load_def upd_next_def upd_prev_def)+

lemma eb_read_cursor [heap_simps]: "eb_read (b\<lparr>m_pCurrent := p\<rparr>) a = eb_read b a"
  by (simp add: eb_read_def)

lemma eb_pop_front_ok:
  assumes rep: "eb_rep b as s" and ne: "es_ents s \<noteq> []"
  shows "\<exists>b' as'. eb_pop_front b = Some (True, b') \<and> eb_rep b' as' (spec_drop 0 (Some 0) s)"
proof -
  have j: "0 < length (es_ents s)" using ne by simp
  have len: "length as = length (es_ents s)" by (rule eb_length [OF rep])
  have hd: "m_pHead b = as ! 0" using eb_hd [OF rep] j len by (simp add: nth_append)
  let ?t = "m_pTag b" and ?x = "as ! 0" and ?n = "(as @ [m_pTag b]) ! Suc 0"
  note R = rr_around [OF eb_ring [OF rep] j]
  obtain n where n: "load b ?x = Some n" "m_next n = ?n" using eb_at [OF rep j] R(9) by metis
  have rd: "eb_read b ?x = Some (ev_key (es_ents s ! 0), ev_value (es_ents s ! 0))"
    using eb_read_at [OF rep j] R(9) by simp
  let ?b = "b\<lparr>heap := (upd_next (upd_prev (heap b) ?n ?t) ?t ?n)(?x := None), m_pHead := ?n, m_pCurrent := ?n,
     m_count := m_count b - 1, m_pTail := (if length as = 1 then ?t else m_pTail b),
     m_map := (m_map b)(ev_key (es_ents s ! 0) := None)\<rparr>"
  have "eb_pop_front b = Some (True, ?b)"
    using n R hd rd eb_count [OF rep] j len by (auto simp: eb_pop_front_def heap_simps Let_def)
  moreover have "ring_rep ?b (take 0 as @ drop (Suc 0) as) (take 0 (es_ents s) @ drop (Suc 0) (es_ents s))"
    by (rule rr_unlink [OF eb_ring [OF rep] j])
      (use R len ne in \<open>auto simp: heap_simps\<close>)
  ultimately show ?thesis
    using eb_drop [OF rep j, where b' = ?b and c = "Some 0"] j len by (cases as) (auto simp: nth_append)
qed

lemma eb_refines_pop_front: "eb_rep b as s \<Longrightarrow> eb_refines EPopFront now b s"
proof -
  assume rep: "eb_rep b as s"
  show ?thesis
  proof (cases "es_ents s = []")
    case True
    then show ?thesis using eb_count [OF rep] eb_relI [OF rep]
      by (simp add: eb_refines_def eo_defs eb_pop_front_kv_def)
  next
    case False
    then show ?thesis using eb_pop_front_ok [OF rep False] eb_read_ends(1) [OF rep False] eb_count [OF rep] eb_relI
      by (fastforce simp: eb_refines_def eo_defs eb_pop_front_kv_def out_at_def)
  qed
qed

lemma eb_pop_front_old_ok:
  assumes rep: "eb_rep b as s"
  shows "\<exists>b' as'. eb_pop_front_old b t now =
     Some (es_ents s \<noteq> [] \<and> expired (es_living s) (eb_oldtime t now) (hd (es_ents s)), b') \<and>
     eb_rep b' as' (if es_ents s \<noteq> [] \<and> expired (es_living s) (eb_oldtime t now) (hd (es_ents s))
                    then spec_drop 0 (Some 0) s else s)"
  using eb_pop_front_ok [OF rep] eb_head_old_rep [OF rep] eb_count [OF rep] rep
  by (auto simp: eb_pop_front_old_def)

lemma eb_refines_pop_front_old: "eb_rep b as s \<Longrightarrow> eb_refines (EPopFrontOld t) now b s"
  using eb_pop_front_old_ok [of b as s t now] eb_relI
  by (fastforce simp: eb_refines_def eo_defs)

lemma drop_old_suffix: "\<exists>n. drop_old l t clk i es = drop n es \<and> n \<le> length es"
proof (induction es arbitrary: i)
  case (Cons e es)
  obtain n where "drop_old l t clk (Suc i) es = drop n es" "n \<le> length es" using Cons.IH by blast
  then show ?case by (auto intro: exI [of _ "Suc n"] exI [of _ 0])
qed simp

lemma drop_old_full: "length (drop_old l t clk i es) = length es \<Longrightarrow> drop_old l t clk i es = es"
proof -
  assume len: "length (drop_old l t clk i es) = length es"
  obtain n where n: "drop_old l t clk i es = drop n es" "n \<le> length es" using drop_old_suffix by blast
  then have "n = 0 \<or> es = []" using len by (cases n; cases es) auto
  then show ?thesis using n(1) by auto
qed

lemma drop_old_length: "length (drop_old l t clk i es) \<le> length es"
  using drop_old_suffix [of l t clk i es] by auto

lemma eb_pop_old_loop_ok:
  assumes "eb_rep b as s" and "ws = drop_old (es_living s) t clk i (es_ents s)"
  shows "\<exists>b' as'. eb_pop_old_loop b t clk i = Some (int i + int (length (es_ents s)) - int (length ws), b') \<and>
     eb_rep b' as' (if length ws = length (es_ents s) then s else s\<lparr>es_ents := ws, es_cur := Some 0\<rparr>)"
  using assms
proof (induction "es_ents s" arbitrary: b as s i)
  case Nil
  obtain b' as' where "eb_pop_front_old b t (clk i) = Some (False, b')" "eb_rep b' as' s"
    using eb_pop_front_old_ok [OF Nil.prems(1), of t "clk i"] Nil.hyps by auto
  then show ?case using Nil by (auto simp: eb_pop_old_loop.simps [of b])
next
  case (Cons e es)
  let ?x = "expired (es_living s) (eb_oldtime t (clk i)) e"
  obtain b' as' where b': "eb_pop_front_old b t (clk i) = Some (?x, b')"
    "eb_rep b' as' (if ?x then spec_drop 0 (Some 0) s else s)"
    using eb_pop_front_old_ok [OF Cons.prems(1), of t "clk i"] Cons.hyps(2) [symmetric] by auto
  show ?case
  proof (cases ?x)
    case False
    then show ?thesis using b' Cons.prems(2) Cons.hyps(2) [symmetric] by (auto simp: eb_pop_old_loop.simps [of b])
  next
    case True
    let ?s = "spec_drop 0 (Some 0) s"
    have s: "es_ents ?s = es" "es_living ?s = es_living s" "ws = drop_old (es_living s) t clk (Suc i) es" "es_cur ?s = Some 0"
      using Cons.prems(2) Cons.hyps(2) [symmetric] True by (simp_all add: spec_drop_def)
    have le: "length ws \<le> length es" using drop_old_length s(3) by metis
    have eq: "length ws = length es \<Longrightarrow> ws = es" using s(3) drop_old_full by metis
    have step: "eb_pop_old_loop b t clk i = eb_pop_old_loop b' t clk (Suc i)"
      using b'(1) True by (simp add: eb_pop_old_loop.simps [of b])
    have "ws = drop_old (es_living ?s) t clk (Suc i) (es_ents ?s)" using s by simp
    from Cons.hyps(1) [OF s(1) [symmetric] _ this, of b' as'] b'(2) True
    obtain b2 as2 where "eb_pop_old_loop b t clk i = Some (int (Suc i) + int (length es) - int (length ws), b2)"
      "eb_rep b2 as2 (if length ws = length es then ?s else ?s\<lparr>es_ents := ws, es_cur := Some 0\<rparr>)"
      using step s(1) by auto
    moreover have "(if length ws = length es then ?s else ?s\<lparr>es_ents := ws, es_cur := Some 0\<rparr>) =
        s\<lparr>es_ents := ws, es_cur := Some 0\<rparr>"
      using eq s(1,4) Cons.hyps(2) [symmetric] by (auto simp: spec_drop_def)
    ultimately show ?thesis using le Cons.hyps(2) [symmetric] by auto
  qed
qed

lemma eb_refines_pop_old: "eb_rep b as s \<Longrightarrow> eb_refines (EPopOld t clk) now b s"
proof (cases "es_ents s = []")
  case True
  assume rep: "eb_rep b as s"
  then show ?thesis using True eb_count [OF rep] eb_relI [OF rep]
    by (simp add: eb_refines_def eo_defs eb_pop_old_def)
next
  case False
  assume rep: "eb_rep b as s"
  show ?thesis using False eb_pop_old_loop_ok [OF rep refl, of t clk 0] eb_count [OF rep] eb_relI
    by (fastforce simp: eb_refines_def eo_defs eb_pop_old_def Let_def)
qed

lemma eb_pop_back_ok:
  assumes rep: "eb_rep b as s" and ne: "es_ents s \<noteq> []"
  shows "\<exists>b' as'. eb_pop_back b = Some (True, b') \<and>
    eb_rep b' as' (spec_drop (length (es_ents s) - 1) (Some (length (es_ents s) - 2)) s)"
proof -
  define j where "j = length (es_ents s) - 1"
  have j: "j < length (es_ents s)" "Suc j = length (es_ents s)" using ne by (auto simp: j_def)
  have len: "length as = length (es_ents s)" by (rule eb_length [OF rep])
  let ?t = "m_pTag b" and ?x = "as ! j" and ?p = "(m_pTag b # as) ! j"
  note R = rr_around [OF eb_ring [OF rep] j(1)]
  have tl: "m_pTail b = ?x" using eb_tl [OF rep] R(9) by (simp add: j_def)
  have nt: "(as @ [?t]) ! Suc j = ?t" using eb_end [OF rep] j(2) by simp
  obtain n where n: "load b ?x = Some n" "m_prev n = ?p" using eb_at [OF rep j(1)] R(9) by metis
  have rd: "eb_read b ?x = Some (ev_key (es_ents s ! j), ev_value (es_ents s ! j))"
    using eb_read_at [OF rep j(1)] R(9) by simp
  let ?b = "b\<lparr>heap := (upd_prev (upd_next (heap b) ?p ?t) ?t ?p)(?x := None), m_pTail := ?p, m_pCurrent := ?p,
     m_count := m_count b - 1, m_pHead := (if j = 0 then ?t else m_pHead b),
     m_map := (m_map b)(ev_key (es_ents s ! j) := None)\<rparr>"
  have "eb_pop_back b = Some (True, ?b)"
    using n R tl rd eb_count [OF rep] j by (auto simp: eb_pop_back_def heap_simps Let_def)
  moreover have "ring_rep ?b (take j as @ drop (Suc j) as) (take j (es_ents s) @ drop (Suc j) (es_ents s))"
    by (rule rr_unlink [OF eb_ring [OF rep] j(1)])
      (use R nt j len in \<open>auto simp: heap_simps\<close>)
  moreover have "?p = ((take j as @ drop (Suc j) as) @ [?t]) ! (length (es_ents s) - 2)"
    using nth_before_last [of j as ?t] j len by simp
  ultimately show ?thesis
    using eb_drop [OF rep j(1), where b' = ?b and c = "Some (length (es_ents s) - 2)"] j
    by (fastforce simp: j_def)
qed

lemma eb_refines_pop_back: "eb_rep b as s \<Longrightarrow> eb_refines EPopBack now b s"
proof (cases "es_ents s = []")
  case True
  assume rep: "eb_rep b as s"
  then show ?thesis using True eb_count [OF rep] eb_relI [OF rep]
    by (simp add: eb_refines_def eo_defs eb_pop_back_kv_def)
next
  case False
  assume rep: "eb_rep b as s"
  then show ?thesis using False eb_pop_back_ok [OF rep False] eb_read_ends(2) [OF rep False] eb_count [OF rep] eb_relI
    by (fastforce simp: eb_refines_def eo_defs eb_pop_back_kv_def out_at_def)
qed

text \<open>\<open>pop(key)\<close>: the code patches the ends first and then links the neighbours.\<close>

definition pop_result :: "('k, 'v) ebuf \<Rightarrow> 'k \<Rightarrow> addr \<Rightarrow> addr \<Rightarrow> addr \<Rightarrow> ('k, 'v) ebuf" where
  "pop_result b k p x n = (let t = m_pTag b; h1 = (heap b)(x := None);
     h2 = (if n = t then upd_prev h1 t p else h1); h3 = (if p = t then upd_next h2 t n else h2) in
     b\<lparr>heap := upd_prev (upd_next h3 p n) n p, m_count := m_count b - 1,
       m_pTail := (if n = t then p else m_pTail b), m_pHead := (if p = t then n else m_pHead b),
       m_pCurrent := (if p = t then n else if n = t then p else m_pCurrent b),
       m_map := (m_map b)(k := None)\<rparr>)"

lemma eb_pop_exec:
  assumes rep: "eb_rep b as s" and jk: "j = key_pos (es_ents s) k" and j: "j < length (es_ents s)"
  shows "eb_pop b k = Some ((True, Some (ev_value (es_ents s ! j))),
    pop_result b k ((m_pTag b # as) ! j) (as ! j) ((as @ [m_pTag b]) ! Suc j))"
proof -
  let ?t = "m_pTag b" and ?x = "as ! j" and ?p = "(m_pTag b # as) ! j" and ?n = "(as @ [m_pTag b]) ! Suc j"
  note R = rr_around [OF eb_ring [OF rep] j]
  have len: "length as = length (es_ents s)" by (rule eb_length [OF rep])
  obtain n where n: "load b ?x = Some n" "m_next n = ?n" "m_prev n = ?p"
    "(?n = ?t) = (Suc j = length (es_ents s))" "(?p = ?t) = (j = 0)"
    using eb_at [OF rep j] R(9) by metis
  have rd: "eb_read b ?x = Some (ev_key (es_ents s ! j), ev_value (es_ents s ! j))"
    using eb_read_at [OF rep j] R(9) by simp
  have mp: "m_map b k = Some ?x" "m_count b = int (length (es_ents s))"
    using eb_map [OF rep, of k] j jk eb_count [OF rep] by auto
  have tl: "m_count b = 1 \<Longrightarrow> ?n = ?t \<and> ?p = ?t" using mp j n by auto
  show ?thesis
    using n(1-3) R rd mp tl j
    by (cases "?n = ?t"; cases "?p = ?t") (auto simp: eb_pop_def pop_result_def heap_simps Let_def)
qed

lemma pop_result_heap:
  assumes "heap b p \<noteq> None" "heap b n \<noteq> None" "heap b (m_pTag b) \<noteq> None" "x \<noteq> p" "x \<noteq> n" "x \<noteq> m_pTag b"
  shows "\<forall>a. a \<noteq> x \<longrightarrow> nxt (heap (pop_result b k p x n)) a = (if a = p then Some n else nxt (heap b) a)"
    "\<forall>a. a \<noteq> x \<longrightarrow> prv (heap (pop_result b k p x n)) a = (if a = n then Some p else prv (heap b) a)"
    "\<forall>a. heap (pop_result b k p x n) a = None \<longleftrightarrow> heap b a = None \<or> a = x"
    "\<forall>a. a \<noteq> x \<longrightarrow> val (heap (pop_result b k p x n)) a = val (heap b) a"
  using assms by (cases "n = m_pTag b"; cases "p = m_pTag b"; simp add: pop_result_def heap_simps Let_def)+

lemma pop_result_fields [simp]:
  "m_pTag (pop_result b k p x n) = m_pTag b" "brk (pop_result b k p x n) = brk b"
  "m_count (pop_result b k p x n) = m_count b - 1"
  "m_pHead (pop_result b k p x n) = (if p = m_pTag b then n else m_pHead b)"
  "m_pTail (pop_result b k p x n) = (if n = m_pTag b then p else m_pTail b)"
  "m_pCurrent (pop_result b k p x n) = (if p = m_pTag b then n else if n = m_pTag b then p else m_pCurrent b)"
  "m_map (pop_result b k p x n) = (m_map b)(k := None)"
  "m_count_max (pop_result b k p x n) = m_count_max b" "m_destroy_old (pop_result b k p x n) = m_destroy_old b"
  "m_living_time (pop_result b k p x n) = m_living_time b"
  by (simp_all add: pop_result_def Let_def)

lemma eb_pop_rep:
  assumes rep: "eb_rep b as s" and jk: "j = key_pos (es_ents s) k" and j: "j < length (es_ents s)"
  shows "eb_rep (pop_result b k ((m_pTag b # as) ! j) (as ! j) ((as @ [m_pTag b]) ! Suc j))
     (take j as @ drop (Suc j) as) (spec_drop j (pop_cursor j s) s)"
proof -
  let ?t = "m_pTag b" and ?x = "as ! j" and ?p = "(m_pTag b # as) ! j" and ?n = "(as @ [m_pTag b]) ! Suc j"
  let ?b = "pop_result b k ?p ?x ?n" and ?as = "take j as @ drop (Suc j) as"
  note R = rr_around [OF eb_ring [OF rep] j]
  have len: "length as = length (es_ents s)" by (rule eb_length [OF rep])
  obtain n where n: "(?n = ?t) = (Suc j = length (es_ents s))" "(?p = ?t) = (j = 0)"
    using eb_at [OF rep j] R(9) by metis
  have ring: "ring_rep ?b ?as (take j (es_ents s) @ drop (Suc j) (es_ents s))"
    by (rule rr_unlink [OF eb_ring [OF rep] j _ _ pop_result_heap [OF R(3,4,2,7,6,5)]]) (use n in simp_all)
  have k: "ev_key (es_ents s ! j) = k" using key_pos_nth j jk by metis
  have tag: "m_pTag ?b = ?t" by simp
  have cur: "i < length (es_ents s) \<and> m_pCurrent ?b = (?as @ [m_pTag ?b]) ! i" if i: "pop_cursor j s = Some i" for i
  proof -
    consider (last) "Suc j = length (es_ents s)" | (first) "Suc j \<noteq> length (es_ents s)" "j = 0"
      | (mid) "Suc j \<noteq> length (es_ents s)" "j \<noteq> 0" by blast
    then show ?thesis
    proof cases
      case last
      then have "i = length (es_ents s) - 2" "m_pCurrent ?b = ?p"
        using i n by (auto simp: pop_cursor_def)
      then show ?thesis using last len tag nth_before_last [of j as ?t] j by simp
    next
      case first
      then have "i = 0" "m_pCurrent ?b = ?n" using i n by (auto simp: pop_cursor_def)
      moreover have "Suc 0 < length as" using first j len by (metis Suc_lessI)
      then obtain a1 a2 as2 where "as = a1 # a2 # as2" by (cases as; cases "tl as") auto
      ultimately show ?thesis using first tag j by simp
    next
      case mid
      then obtain c where c: "es_cur s = Some c" "c \<noteq> j" "i = (if c < j then c else c - 1)"
        using i by (auto simp: pop_cursor_def split: option.splits if_splits)
      then have "m_pCurrent ?b = (as @ [?t]) ! c" "c \<le> length (es_ents s)"
        using rep n mid by (auto simp: eb_rep_def)
      then show ?thesis using c mid len tag j by (auto simp: nth_append min_def)
    qed
  qed
  show ?thesis
    by (rule eb_drop [OF rep j ring]) (use k cur in simp_all)
qed

lemma eb_refines_pop: "eb_rep b as s \<Longrightarrow> eb_refines (EPop k) now b s"
proof (cases "key_pos (es_ents s) k < length (es_ents s)")
  case True
  assume rep: "eb_rep b as s"
  then show ?thesis using True eb_pop_exec [OF rep refl True] eb_relI [OF eb_pop_rep [OF rep refl True]]
    by (simp add: eb_refines_def eo_defs Let_def)
next
  case False
  assume rep: "eb_rep b as s"
  then show ?thesis using False eb_map [OF rep, of k] eb_relI [OF rep]
    by (auto simp: eb_refines_def eo_defs Let_def eb_pop_def)
qed


section \<open>Insertion and refresh\<close>

lemma map_of_zip_snoc:
  assumes "k \<notin> set ks" and "length ks = length as"
  shows "map_of (zip (ks @ [k]) (as @ [a])) = (map_of (zip ks as))(k \<mapsto> a)"
  using assms(2,1) by (induction ks as rule: list_induct2) (auto simp: fun_upd_twist)

text \<open>The linking part of \<open>push\<close>, before the oldest entry is dropped.\<close>

definition eb_linked :: "('k, 'v) ebuf \<Rightarrow> 'k \<Rightarrow> 'v \<Rightarrow> int \<Rightarrow> ('k, 'v) ebuf" where
  "eb_linked b k v now = (let t = m_pTail b;
     b' = b\<lparr>brk := Suc (brk b), m_pCurrent := brk b, m_map := (m_map b)(k \<mapsto> brk b)\<rparr> in
     (if m_count b = 0 then b'\<lparr>m_pHead := brk b\<rparr> else b')\<lparr>m_pTail := brk b,
      heap := upd_prev (upd_next ((heap b)(brk b \<mapsto> \<lparr>m_value = Some (eb_value_new k v 0 now), m_prev = t, m_next = m_pTag b\<rparr>))
                t (brk b)) (m_pTag b) (brk b),
      m_count := m_count b + 1\<rparr>)"

lemma eb_tail_node:
  assumes rep: "eb_rep b as s"
  shows "m_pTail b = (m_pTag b # as) ! length (es_ents s)" "heap b (m_pTail b) \<noteq> None" "m_pTail b \<noteq> brk b"
proof -
  let ?n = "length (es_ents s)"
  have len: "length as = ?n" by (rule eb_length [OF rep])
  show "m_pTail b = (m_pTag b # as) ! ?n" using eb_tl [OF rep] len by (cases as rule: rev_cases) (auto simp: nth_append nth_Cons' simp flip: len)
  show "heap b (m_pTail b) \<noteq> None" "m_pTail b \<noteq> brk b"
    using rr_alloc [OF eb_ring [OF rep], of "?n - 1"] eb_tl [OF rep] by auto
qed

lemma eb_link_rep:
  assumes rep: "eb_rep b as s" and k: "k \<notin> ev_key ` set (es_ents s)"
  shows "eb_rep (eb_linked b k v now) (as @ [brk b])
    (s\<lparr>es_ents := es_ents s @ [eb_value_new k v 0 now], es_cur := Some (length (es_ents s))\<rparr>)"
proof -
  let ?n = "length (es_ents s)" and ?e = "eb_value_new k v 0 now" and ?b = "eb_linked b k v now"
  have len: "length as = ?n" by (rule eb_length [OF rep])
  have cnt: "(m_count b = 0) = (es_ents s = [])" using eb_count [OF rep] by simp
  define b' where "b' = b\<lparr>brk := Suc (brk b), m_pCurrent := brk b,
      heap := upd_prev (upd_next ((heap b)(brk b \<mapsto> \<lparr>m_value = Some ?e, m_prev = m_pTail b, m_next = m_pTag b\<rparr>))
                (m_pTail b) (brk b)) (m_pTag b) (brk b),
      m_pHead := (if es_ents s = [] then brk b else m_pHead b), m_pTail := brk b, m_count := m_count b + 1\<rparr>"
  have "ring_rep b' (as @ [brk b]) (es_ents s @ [?e])"
    by (rule rr_append [OF eb_ring [OF rep] eb_tail_node(1) [OF rep] b'_def])
  moreover have "?b = b'\<lparr>m_map := (m_map b)(k \<mapsto> brk b)\<rparr>"
    by (rule ebuf.equality) (simp_all add: eb_linked_def b'_def Let_def cnt)
  ultimately have "ring_rep ?b (as @ [brk b]) (es_ents s @ [?e])" by (simp add: ring_rep_def dll_inv_def)
  moreover have "ev_key ?e = k" by (simp add: eb_value_new_def Let_def)
  moreover have "map_of (zip (map ev_key (es_ents s) @ [k]) (as @ [brk b])) = (m_map b)(k \<mapsto> brk b)"
    using map_of_zip_snoc [of k "map ev_key (es_ents s)" as "brk b"] k rep len by (simp add: eb_rep_def)
  ultimately show ?thesis
    using rep k len by (auto simp: eb_rep_def eb_linked_def Let_def nth_append)
qed

lemma eb_push_exec:
  assumes rep: "eb_rep b as s"
  shows "eb_push b k v now =
    (if k \<in> ev_key ` set (es_ents s) \<or> \<not> es_destroy s \<and> es_max s > 0 \<and> length (es_ents s) \<ge> es_max s then Some (0, b)
     else if es_max s > 0 \<and> Suc (length (es_ents s)) > es_max s
     then do { (r, b) \<leftarrow> eb_pop_front (eb_linked b k v now); Some (2, b) } else Some (1, eb_linked b k v now))"
proof -
  note F = ring_fresh [OF rr_inv [OF eb_ring [OF rep]]]
  note T = eb_tail_node [OF rep]
  have tl: "m_count b = 0 \<Longrightarrow> m_pTail b = m_pTag b" using T(1) eb_count [OF rep] by simp
  have cnt: "m_count b = int (length (es_ents s))" by (rule eb_count [OF rep])
  have mp: "(m_map b k = None) = (k \<notin> ev_key ` set (es_ents s))"
    using eb_map [OF rep, of k] by (simp add: key_pos_less)
  have cfg: "m_count_max b = es_max s" "m_destroy_old b = es_destroy s" using eb_cfg [OF rep] by auto
  have gr: "(m_count b + 1 > int (es_max s)) = (Suc (length (es_ents s)) > es_max s)"
    "(m_count b \<ge> int (es_max s)) = (length (es_ents s) \<ge> es_max s)" using cnt by auto
  have "eb_push b k v now = (if m_map b k \<noteq> None then Some (0, b)
     else if \<not> m_destroy_old b \<and> m_count_max b > 0 \<and> m_count b \<ge> int (m_count_max b) then Some (0, b)
     else if m_count_max b > 0 \<and> m_count b + 1 > int (m_count_max b)
     then do { (r, b) \<leftarrow> eb_pop_front (eb_linked b k v now); Some (2, b) } else Some (1, eb_linked b k v now))"
    using F T(2,3) tl
    by (cases "m_count b = 0") (auto simp: eb_push_def eb_linked_def new_node_def heap_simps Let_def)
  then show ?thesis unfolding cfg gr mp by simp
qed

lemma eb_refines_push: "eb_rep b as s \<Longrightarrow> eb_refines (EPush k v) now b s"
proof -
  assume rep: "eb_rep b as s"
  let ?n = "length (es_ents s)" and ?e = "eb_value_new k v 0 now"
  let ?s = "s\<lparr>es_ents := es_ents s @ [?e], es_cur := Some ?n\<rparr>"
  have cfg: "m_count_max b = es_max s" "m_count b = int ?n" using eb_cfg [OF rep] eb_count [OF rep] by auto
  have tmp: "0 < es_max s \<Longrightarrow> es_max s \<le> ?n \<Longrightarrow>
    \<exists>n. load b (m_pHead b) = Some n \<and> m_value n = Some (hd (es_ents s))"
    using eb_at [OF rep, of 0] eb_hd [OF rep] by (metis gr_zeroI hd_conv_nth leD length_0_conv)
  consider (no) "k \<in> ev_key ` set (es_ents s) \<or> \<not> es_destroy s \<and> es_max s > 0 \<and> ?n \<ge> es_max s"
    | (drop) "\<not> (k \<in> ev_key ` set (es_ents s) \<or> \<not> es_destroy s \<and> es_max s > 0 \<and> ?n \<ge> es_max s)"
        "es_max s > 0" "Suc ?n > es_max s"
    | (add) "\<not> (k \<in> ev_key ` set (es_ents s) \<or> \<not> es_destroy s \<and> es_max s > 0 \<and> ?n \<ge> es_max s)"
        "\<not> (es_max s > 0 \<and> Suc ?n > es_max s)" by argo
  then show ?thesis
  proof cases
    case no
    then show ?thesis using eb_push_exec [OF rep, of k v now] cfg tmp eb_relI [OF rep]
      by (auto simp: eb_refines_def eo_defs eb_push_old_def Let_def)
  next
    case drop
    then have L: "eb_rep (eb_linked b k v now) (as @ [brk b]) ?s" using eb_link_rep [OF rep] by blast
    obtain b' as' where b': "eb_pop_front (eb_linked b k v now) = Some (True, b')"
      "eb_rep b' as' (spec_drop 0 (Some 0) ?s)" using eb_pop_front_ok [OF L] by auto
    have "es_ents s \<noteq> []" using drop by auto
    then have "spec_drop 0 (Some 0) ?s = s\<lparr>es_ents := tl (es_ents s) @ [?e], es_cur := Some 0\<rparr>"
      by (cases "es_ents s") (auto simp: spec_drop_def)
    then show ?thesis using drop eb_push_exec [OF rep, of k v now] cfg tmp b' eb_relI [OF b'(2)]
      by (auto simp: eb_refines_def eo_defs eb_push_old_def Let_def)
  next
    case add
    then have L: "eb_rep (eb_linked b k v now) (as @ [brk b]) ?s" using eb_link_rep [OF rep] by blast
    then show ?thesis using add eb_push_exec [OF rep, of k v now] cfg tmp eb_relI [OF L]
      by (auto simp: eb_refines_def eo_defs eb_push_old_def Let_def)
  qed
qed

lemma eb_move_last: "m_pCurrent b = m_pTail b \<Longrightarrow> eb_move_to_tail b = Some b"
  by (simp add: eb_move_to_tail_def)

definition moved :: "('k, 'v) ebuf \<Rightarrow> addr \<Rightarrow> addr \<Rightarrow> addr \<Rightarrow> ('k, 'v) ebuf" where
  "moved b p x n = (let t = m_pTag b; b' = (if x = m_pHead b then b\<lparr>m_pHead := n\<rparr> else b) in
     b'\<lparr>heap := upd_prev (upd_next (upd_prev (upd_next (upd_prev (upd_next (heap b) p n) n p) (m_pTail b) x) t x) x t) x (m_pTail b),
        m_pTail := x\<rparr>)"

lemma move_exec:
  assumes "load b x = Some nd" "m_prev nd = p" "m_next nd = n" "m_pCurrent b = x" "x \<noteq> m_pTail b"
    and "heap b x \<noteq> None" "heap b p \<noteq> None" "heap b n \<noteq> None" "heap b (m_pTail b) \<noteq> None" "heap b (m_pTag b) \<noteq> None"
  shows "eb_move_to_tail b = Some (moved b p x n)"
  using assms by (cases "x = m_pHead b") (simp_all add: eb_move_to_tail_def moved_def heap_simps Let_def)

lemma moved_fields [simp]:
  "m_pTag (moved b p x n) = m_pTag b" "brk (moved b p x n) = brk b" "m_count (moved b p x n) = m_count b"
  "m_pHead (moved b p x n) = (if x = m_pHead b then n else m_pHead b)" "m_pTail (moved b p x n) = x"
  "m_pCurrent (moved b p x n) = m_pCurrent b" "m_map (moved b p x n) = m_map b"
  "m_count_max (moved b p x n) = m_count_max b" "m_destroy_old (moved b p x n) = m_destroy_old b"
  "m_living_time (moved b p x n) = m_living_time b"
  by (simp_all add: moved_def Let_def)

lemma moved_heap:
  assumes "heap b x \<noteq> None" "heap b p \<noteq> None" "heap b n \<noteq> None" "heap b (m_pTail b) \<noteq> None" "heap b (m_pTag b) \<noteq> None"
    and "n \<noteq> m_pTag b" "p \<noteq> m_pTail b"
  shows "(heap (moved b p x n) a = None) = (heap b a = None)"
    "val (heap (moved b p x n)) a = val (heap b) a"
    "nxt (heap (moved b p x n)) a = (if a = x then Some (m_pTag b) else if a = m_pTail b then Some x
       else if a = p then Some n else nxt (heap b) a)"
    "prv (heap (moved b p x n)) a = (if a = x then Some (m_pTail b) else if a = m_pTag b then Some x
       else if a = n then Some p else prv (heap b) a)"
  using assms by (simp_all add: moved_def heap_simps Let_def)

lemma move_ring:
  fixes b :: "('k, 'v) ebuf"
  assumes rep: "ring_rep b as vs" and j: "Suc j < length vs" and cur: "m_pCurrent b = as ! j"
  shows "\<exists>b' p n. eb_move_to_tail b = Some b' \<and> b' = moved b p (as ! j) n \<and>
     ring_rep b' (take j as @ drop (Suc j) as @ [as ! j]) (take j vs @ drop (Suc j) vs @ [vs ! j])"
proof -
  let ?t = "m_pTag b" and ?x = "as ! j" and ?p = "(m_pTag b # as) ! j" and ?n = "as ! Suc j"
  let ?b = "moved b ?p ?x ?n"
  have j0: "j < length vs" using j by simp
  note R = rr_around [OF rep j0]
  have len: "length as = length vs" by (rule rr_length [OF rep])
  have n: "(as @ [?t]) ! Suc j = ?n" "drop (Suc j) as = ?n # drop (Suc (Suc j)) as"
    using j len by (simp_all add: nth_append Cons_nth_drop_Suc)
  obtain nd where nd: "load b ?x = Some nd" "m_prev nd = ?p" "m_next nd = ?n" using rr_at [OF rep j0] R(9) n(1) by metis
  let ?ys = "drop (Suc (Suc j)) as"
  have as: "as = take j as @ ?x # ?n # ?ys" using id_take_nth_drop [of j as] j len n(2) by simp
  then have inv: "dll_inv b (take j as @ ?x # ?n # ?ys)" using rr_inv [OF rep] by simp
  have tl: "m_pTail b = last (?n # ?ys)" using dll_invD(7) [OF inv] by simp
  have d: "distinct (?t # take j as @ ?x # ?n # ?ys)" by (rule dll_invD(2) [OF inv])
  have p: "?p = last (?t # take j as)" using nth_neighbours(1) [of j as ?t] j len by simp
  have "last (?n # ?ys) \<in> set (?n # ?ys)" "last (?t # take j as) \<in> set (?t # take j as)"
    by (metis last_in_set list.discI)+
  then have ne: "?p \<noteq> m_pTail b" "?x \<noteq> m_pTail b" "?n \<noteq> ?t" using d unfolding p tl by auto
  have al: "heap b (m_pTail b) \<noteq> None" "heap b ?n \<noteq> None"
    using dll_invD(3) [OF inv, of "m_pTail b"] R(4) \<open>last (?n # ?ys) \<in> _\<close> unfolding tl n(1) by auto
  note H = moved_heap [OF R(1,3) al(2,1) R(2) ne(3,1)]
  have hd0: "m_pHead b = as ! 0" using rr_head [OF rep] j len by (cases as) auto
  have "(?x = m_pHead b) = (j = 0)"
    using nth_eq_iff_index_eq [of as j 0] j len hd0 rr_distinct [OF rep] by (cases vs) auto
  moreover have "j \<noteq> 0 \<Longrightarrow> hd (take j as @ [?n]) = as ! 0" using j len by (cases as; cases j) auto
  ultimately have hd: "m_pHead ?b = hd (take j as @ [?n])" using hd0 by (cases "j = 0") simp_all
  have "dll_inv ?b (take j as @ ?n # ?ys @ [?x])"
    by (rule dll_inv_to_back [OF inv]) (use H hd in \<open>simp_all add: tl p\<close>)
  moreover have V: "val (heap ?b) = val (heap b)" using H(2) by blast
  have "map (val (heap ?b)) (take j as @ drop (Suc j) as @ [?x]) = map Some (take j vs @ drop (Suc j) vs @ [vs ! j])"
    using rr_vals [OF rep] rr_val [OF rep j0] by (simp add: V flip: take_map drop_map)
  ultimately have "ring_rep ?b (take j as @ drop (Suc j) as @ [?x]) (take j vs @ drop (Suc j) vs @ [vs ! j])"
    using rep n(2) V by (simp add: ring_rep_def del: map_append)
  moreover have "eb_move_to_tail b = Some ?b"
    by (rule move_exec [OF nd cur ne(2) R(1,3) al(2,1) R(2)])
  ultimately show ?thesis by blast
qed

text \<open>Writing the refreshed entry and moving its node to the tail.\<close>

lemma eb_refresh_ok:
  fixes b :: "('k, 'v) ebuf"
  assumes rep: "eb_rep b as s" and j: "j < length (es_ents s)" and e: "ev_key e = ev_key (es_ents s ! j)"
  shows "\<exists>b1 b' as'. set_value (b\<lparr>m_pCurrent := as ! j\<rparr>) (as ! j) (Some e) = Some b1 \<and>
     eb_move_to_tail b1 = Some b' \<and> eb_rep b' as' (spec_refresh j e s)"
proof -
  let ?es = "es_ents s" and ?b0 = "b\<lparr>m_pCurrent := as ! j\<rparr>"
  let ?b1 = "?b0\<lparr>heap := upd_value (heap b) (as ! j) (Some e)\<rparr>"
  let ?as = "take j as @ drop (Suc j) as @ [as ! j]"
  have len: "length as = length ?es" by (rule eb_length [OF rep])
  have r0: "ring_rep ?b0 as ?es" using eb_ring [OF rep] by simp
  have r1: "ring_rep ?b1 as (?es[j := e])" and s1: "set_value ?b0 (as ! j) (Some e) = Some ?b1"
    using rr_set_value [OF r0 j, of e] by simp_all
  have upd: "take j (?es[j := e]) @ drop (Suc j) (?es[j := e]) @ [?es[j := e] ! j] = take j ?es @ drop (Suc j) ?es @ [e]"
    using j by simp
  have "\<exists>b'. eb_move_to_tail ?b1 = Some b' \<and> ring_rep b' ?as (take j ?es @ drop (Suc j) ?es @ [e]) \<and>
     m_map b' = m_map b \<and> m_pCurrent b' = as ! j \<and> m_count_max b' = m_count_max b \<and>
     m_destroy_old b' = m_destroy_old b \<and> m_living_time b' = m_living_time b \<and> m_pTag b' = m_pTag b"
  proof (cases "Suc j = length ?es")
    case True
    then have "m_pTail b = as ! j" using eb_tl [OF rep] len by (simp add: nth_append flip: True)
    then have "eb_move_to_tail ?b1 = Some ?b1" by (simp add: eb_move_to_tail_def)
    moreover have "?as = as" using True len by (simp add: take_Suc_conv_app_nth [symmetric])
    moreover have "?es[j := e] = take j ?es @ drop (Suc j) ?es @ [e]"
      using True by (simp add: upd_conv_take_nth_drop)
    ultimately show ?thesis using r1 by simp
  next
    case False
    then have "Suc j < length (?es[j := e])" using j by simp
    from move_ring [OF r1 this] obtain b' p n where "eb_move_to_tail ?b1 = Some b'" "b' = moved ?b1 p (as ! j) n"
      "ring_rep b' ?as (take j ?es @ drop (Suc j) ?es @ [e])" using upd by auto
    then show ?thesis by simp
  qed
  then obtain b' where b': "eb_move_to_tail ?b1 = Some b'" "ring_rep b' ?as (take j ?es @ drop (Suc j) ?es @ [e])"
     "m_map b' = m_map b" "m_pCurrent b' = as ! j" "m_count_max b' = m_count_max b"
     "m_destroy_old b' = m_destroy_old b" "m_living_time b' = m_living_time b" "m_pTag b' = m_pTag b" by blast
  let ?ks = "map ev_key ?es"
  have d: "distinct ?ks" by (rule eb_keys [OF rep])
  have split: "?ks = take j ?ks @ ?ks ! j # drop (Suc j) ?ks" by (rule id_take_nth_drop) (use j in simp)
  have d': "distinct (take j ?ks @ drop (Suc j) ?ks)" "?ks ! j \<notin> set (take j ?ks @ drop (Suc j) ?ks)"
    using distinct_middle [of "take j ?ks" "?ks ! j" "drop (Suc j) ?ks"] d split by metis+
  have "map_of (zip ((take j ?ks @ drop (Suc j) ?ks) @ [?ks ! j]) ((take j as @ drop (Suc j) as) @ [as ! j])) =
      (map_of (zip (take j ?ks @ drop (Suc j) ?ks) (take j as @ drop (Suc j) as)))(?ks ! j \<mapsto> as ! j)"
    by (rule map_of_zip_snoc) (use d' len in auto)
  also have "\<dots> = m_map b"
    using map_of_zip_without [OF d, of as j] len j rep eb_map_at [OF rep j] by (auto simp: eb_rep_def)
  finally have "m_map b' = map_of (zip (take j ?ks @ drop (Suc j) ?ks @ [?ks ! j]) ?as)" using b'(3) by simp
  moreover have "length (take j as @ drop (Suc j) as) = length ?es - 1" using j len by simp
  then have "(?as @ [m_pTag b']) ! (length ?es - 1) = as ! j"
    by (metis append.assoc append_Cons nth_append_length)
  moreover have "map ev_key (take j ?es @ drop (Suc j) ?es @ [e]) = take j ?ks @ drop (Suc j) ?ks @ [?ks ! j]"
    using e j by (simp add: take_map drop_map)
  moreover have "distinct (take j ?ks @ drop (Suc j) ?ks @ [?ks ! j])"
    using d' by (simp del: nth_map)
  ultimately have "eb_rep b' ?as (spec_refresh j e s)"
    using b' eb_cfg [OF rep] unfolding eb_rep_def by (simp add: spec_refresh_def del: map_append nth_map)
  then show ?thesis using s1 b'(1) by blast
qed


lemma eb_node_entry:
  assumes rep: "eb_rep b as s" and j: "j < length (es_ents s)"
  obtains n where "load b (as ! j) = Some n" "m_value n = Some (es_ents s ! j)"
  using eb_at [OF rep j] rr_around(9) [OF eb_ring [OF rep] j] by metis

lemma eb_refines_update:
  assumes rep: "eb_rep b as s"
  shows "eb_refines (EUpdate k t) now b s" "eb_refines (EUpdateV k v) now b s"
proof -
  let ?j = "key_pos (es_ents s) k"
  have "eb_refines (EUpdate k t) now b s \<and> eb_refines (EUpdateV k v) now b s"
  proof (cases "?j < length (es_ents s)")
    case True
    obtain n where n: "load b (as ! ?j) = Some n" "m_value n = Some (es_ents s ! ?j)"
      using eb_node_entry [OF rep True] .
    have m: "m_map b k = Some (as ! ?j)" using eb_map [OF rep, of k] True by simp
    let ?e1 = "(es_ents s ! ?j)\<lparr>m_refreshtime := eb_oldtime t now\<rparr>"
    let ?e2 = "(es_ents s ! ?j)\<lparr>ev_value := v, m_refreshtime := now\<rparr>"
    have "(if t = 0 then now else t) = eb_oldtime t now" by (simp add: eb_oldtime_def)
    then have "eb_refines (EUpdate k t) now b s"
      using True n m eb_refresh_ok [OF rep True, of ?e1] eb_relI
      by (fastforce simp: eb_refines_def eo_defs eb_update_def Let_def)
    moreover have "eb_refines (EUpdateV k v) now b s"
      using True n m eb_refresh_ok [OF rep True, of ?e2] eb_relI
      by (fastforce simp: eb_refines_def eo_defs eb_update_v_def Let_def)
    ultimately show ?thesis ..
  next
    case False
    then show ?thesis using eb_map [OF rep, of k] eb_relI [OF rep]
      by (simp add: eb_refines_def eo_defs eb_update_def eb_update_v_def Let_def)
  qed
  then show "eb_refines (EUpdate k t) now b s" "eb_refines (EUpdateV k v) now b s" by auto
qed

lemmas eb_refines_rules = eb_refines_ends eb_refines_cfg eb_refines_next eb_refines_prev eb_refines_find
  eb_refines_front_old eb_refines_pop_front eb_refines_pop_back eb_refines_pop
  eb_refines_pop_front_old eb_refines_pop_old eb_refines_push eb_refines_update

lemma eb_refines_all: "eb_rel b s \<Longrightarrow> eb_refines p now b s"
  by (cases p) (auto simp: eb_rel_def intro: eb_refines_rules)

lemma eb_run_refines_gen:
  "eb_rel b s \<Longrightarrow> eb_spec_run ps s = Some (rs, s') \<Longrightarrow> \<exists>b'. eb_run ps b = Some (rs, b') \<and> eb_rel b' s'"
proof (induction ps arbitrary: b s rs)
  case (Cons q ps)
  obtain now p where q: "q = (now, p)" by (cases q)
  from Cons.prems(2) obtain r s1 rs1 where s: "eb_spec p now s = Some (r, s1)"
    "eb_spec_run ps s1 = Some (rs1, s')" "rs = r # rs1"
    by (auto simp: bind_Some_iff q)
  then obtain b1 where b1: "eb_exec p now b = Some (r, b1)" "eb_rel b1 s1"
    using eb_refines_all [OF Cons.prems(1), of p now] by (auto simp: eb_refines_def)
  then show ?case using Cons.IH [OF b1(2) s(2)] s q by auto
qed simp

definition espec_new :: "nat \<Rightarrow> bool \<Rightarrow> int \<Rightarrow> ('k, 'v) espec" where
  "espec_new mx d lt = \<lparr>es_ents = [], es_cur = Some 0, es_max = mx, es_destroy = d, es_living = lt\<rparr>"

lemma eb_new_ok: "\<exists>b. eb_new mx d lt = Some b \<and> eb_rel b (espec_new mx d lt)"
proof -
  define b :: "('a, 'b) ebuf" where "b = \<lparr>heap = [1 \<mapsto> \<lparr>m_value = None, m_prev = 1, m_next = 1\<rparr>], brk = 2,
     m_pHead = 1, m_pTail = 1, m_pCurrent = 1, m_pTag = 1, m_count = 0, m_map = Map.empty, m_count_max = mx,
     m_destroy_old = d, m_living_time = lt\<rparr>"
  have "eb_new mx d lt = Some b"
    by (simp add: eb_new_def new_node_def set_next_def set_prev_def Let_def b_def upd_next_def upd_prev_def)
  moreover have "eb_rep b [] (espec_new mx d lt)"
    by (auto simp: eb_rep_def ring_rep_def dll_inv_def ring_def b_def nxt_def prv_def val_def espec_new_def)
  ultimately show ?thesis using eb_relI by blast
qed

section \<open>Clearing and destruction\<close>

text \<open>One round of the loop of \<open>clear\<close>.\<close>

definition clear_step :: "('k, 'v) ebuf \<Rightarrow> addr \<Rightarrow> addr \<Rightarrow> ('k, 'v) ebuf" where
  "clear_step b x n = b\<lparr>m_pCurrent := n, heap := (upd_next (upd_prev (heap b) n (m_pTag b)) (m_pTag b) n)(x := None),
     m_pHead := n, m_count := m_count b - 1\<rparr>"

lemma clear_step_exec:
  assumes rep: "ring_rep b as vs" and ne: "vs \<noteq> []"
  shows "eb_clear_loop b = eb_clear_loop (clear_step b (as ! 0) ((as @ [m_pTag b]) ! Suc 0))"
proof -
  have j: "0 < length vs" using ne by simp
  note R = rr_around [OF rep j]
  obtain n where "load b (as ! 0) = Some n" "m_next n = (as @ [m_pTag b]) ! Suc 0"
    using rr_at [OF rep j] R(9) by metis
  moreover have "m_pHead b = as ! 0" "m_count b \<noteq> 0" using rr_head [OF rep] R(9) rr_count [OF rep] ne by auto
  ultimately show ?thesis using R
    by (simp add: eb_clear_loop.simps [of b] clear_step_def heap_simps Let_def)
qed

lemma clear_step_ring:
  assumes rep: "ring_rep b as vs" and ne: "vs \<noteq> []"
  shows "ring_rep ((clear_step b (as ! 0) ((as @ [m_pTag b]) ! Suc 0))
     \<lparr>m_pTail := (if length vs = 1 then m_pTag b else m_pTail b)\<rparr>) (drop 1 as) (drop 1 vs)"
proof -
  have j: "0 < length vs" using ne by simp
  note R = rr_around [OF rep j]
  have "ring_rep ((clear_step b (as ! 0) ((as @ [m_pTag b]) ! Suc 0))
     \<lparr>m_pTail := (if length vs = 1 then m_pTag b else m_pTail b)\<rparr>) (take 0 as @ drop (Suc 0) as) (take 0 vs @ drop (Suc 0) vs)"
    by (rule rr_unlink [OF rep j]) (use R in \<open>auto simp: clear_step_def heap_simps\<close>)
  then show ?thesis by simp
qed

lemma eb_clear_loop_ok:
  fixes b :: "('k, 'v) ebuf"
  assumes "ring_rep b as vs" and "vs \<noteq> []"
  shows "\<exists>b'. eb_clear_loop b = Some b' \<and> ring_rep (b'\<lparr>m_pTail := m_pTag b'\<rparr>) [] [] \<and>
     m_pTail b' = m_pTail b \<and> m_map b' = m_map b \<and> m_count_max b' = m_count_max b \<and> brk b' = brk b \<and> m_pTag b' = m_pTag b"
  using assms
proof (induction "length vs" arbitrary: b as vs)
  case (Suc k)
  let ?b = "clear_step b (as ! 0) ((as @ [m_pTag b]) ! Suc 0)"
  have ne: "vs \<noteq> []" using Suc.hyps by auto
  have f: "m_pTail ?b = m_pTail b" "m_map ?b = m_map b" "m_count_max ?b = m_count_max b" "brk ?b = brk b" "m_pTag ?b = m_pTag b"
    by (simp_all add: clear_step_def)
  note step = clear_step_exec [OF Suc.prems(1) ne] and ring = clear_step_ring [OF Suc.prems(1) ne]
  show ?case
  proof (cases k)
    case 0
    then have "drop 1 vs = []" "drop 1 as = []" "length vs = 1" using Suc.hyps rr_length [OF Suc.prems(1)] by auto
    then have r: "ring_rep (?b\<lparr>m_pTail := m_pTag ?b\<rparr>) [] []" using ring f by simp
    then have "m_count ?b = 0" using rr_count [OF r] by simp
    then have "eb_clear_loop ?b = Some ?b" by (simp add: eb_clear_loop.simps [of ?b])
    then show ?thesis using step r f by (intro exI [of _ ?b]) simp
  next
    case (Suc i)
    then have l: "length vs \<noteq> 1" "drop 1 vs \<noteq> []" "k = length (drop 1 vs)" using Suc.hyps by auto
    have "?b\<lparr>m_pTail := m_pTail b\<rparr> = ?b" by (simp add: clear_step_def)
    then have r: "ring_rep ?b (drop 1 as) (drop 1 vs)" using ring l by simp
    show ?thesis using Suc.hyps(1) [OF l(3) r l(2)] step f by simp
  qed
qed simp


lemma eb_clear_ok:
  assumes rep: "eb_rep b as s" and ne: "es_ents s \<noteq> []"
  shows "\<exists>b'. eb_clear b = Some b' \<and> ring_rep (b'\<lparr>m_pTail := m_pTag b'\<rparr>) [] [] \<and>
     m_pTail b' = m_pTail b \<and> m_map b' = Map.empty \<and> m_count_max b' = m_count_max b \<and> brk b' = brk b \<and> m_pTag b' = m_pTag b"
proof -
  let ?b = "b\<lparr>m_map := Map.empty, m_pCurrent := m_pHead b\<rparr>"
  have "ring_rep ?b as (es_ents s)" using eb_ring [OF rep] by (simp add: ring_rep_def dll_inv_def)
  from eb_clear_loop_ok [OF this ne] show ?thesis using eb_count [OF rep] ne by (auto simp: eb_clear_def)
qed

lemma eb_clear_heap:
  assumes rep: "eb_rep b as s" and ne: "es_ents s \<noteq> []" and b': "eb_clear b = Some b'"
  shows "m_count b' = 0" "m_map b' = Map.empty" "m_pHead b' = m_pTag b'" "\<forall>a. heap b' a \<noteq> None \<longleftrightarrow> a = m_pTag b'"
    "heap b' (m_pTail b') = None" "m_pTail b' \<noteq> brk b'" "brk b' \<noteq> m_pTag b'" "heap b' (brk b') = None" "m_pTail b' \<noteq> m_pTag b'"
proof -
  obtain r: "ring_rep (b'\<lparr>m_pTail := m_pTag b'\<rparr>) [] []" and f: "m_pTail b' = m_pTail b" "m_map b' = Map.empty" "brk b' = brk b" "m_pTag b' = m_pTag b"
    using eb_clear_ok [OF rep ne] b' by auto
  have inv: "dll_inv (b'\<lparr>m_pTail := m_pTag b'\<rparr>) []" by (rule rr_inv [OF r])
  show "m_count b' = 0" "m_pHead b' = m_pTag b'" and dom: "\<forall>a. heap b' a \<noteq> None \<longleftrightarrow> a = m_pTag b'"
    and lt: "brk b' \<noteq> m_pTag b'"
    using inv by (auto simp: dll_inv_def)
  show "m_map b' = Map.empty" by (rule f(2))
  show tb: "m_pTail b' \<noteq> brk b'" using eb_tail_node(3) [OF rep] f by simp
  show nt: "m_pTail b' \<noteq> m_pTag b'"
    using eb_at_tag [OF rep, of "length (es_ents s) - 1"] eb_tl [OF rep] ne f by (cases "es_ents s") auto
  show "heap b' (brk b') = None" "heap b' (m_pTail b') = None" using dom lt nt by auto
qed


text \<open>After \<open>clear\<close> the first node pushed points back to the freed tail.\<close>

lemma eb_clear_push_pop_back:
  assumes rep: "eb_rep b as s" and ne: "es_ents s \<noteq> []" and b1: "eb_clear b = Some b1"
  shows "\<exists>b2. eb_push b1 k v now = Some (1, b2) \<and> eb_pop_back b2 = None"
proof -
  note H = eb_clear_heap [OF assms]
  have t: "heap b1 (m_pTag b1) \<noteq> None" using H(4) by blast
  have mx: "\<not> (0 < m_count_max b1 \<and> int (m_count_max b1) < 1)" by auto
  let ?b2 = "b1\<lparr>brk := Suc (brk b1), m_pCurrent := brk b1, m_map := (m_map b1)(k \<mapsto> brk b1),
      m_pHead := brk b1, m_pTail := brk b1,
      heap := upd_prev (upd_next ((heap b1)(brk b1 \<mapsto> \<lparr>m_value = Some (eb_value_new k v 0 now),
        m_prev = m_pTail b1, m_next = m_pTag b1\<rparr>)) (m_pTag b1) (brk b1)) (m_pTag b1) (brk b1), m_count := 1\<rparr>"
  have push: "eb_push b1 k v now = Some (1, ?b2)"
    using H t mx by (auto simp: eb_push_def new_node_def heap_simps Let_def)
  obtain n where "load ?b2 (brk b1) = Some n" "m_prev n = m_pTail b1"
    using H(7) by (simp add: load_def upd_next_def upd_prev_def)
  moreover have "heap ?b2 (m_pTail b1) = None" using H(5,6) by (simp add: heap_simps)
  ultimately have "eb_pop_back ?b2 = None"
    by (simp add: eb_pop_back_def set_next_def Let_def load_def)
  then show ?thesis using push by blast
qed

text \<open>The destructor's loop.\<close>

lemma eb_delete_loop_ok:
  assumes "\<forall>a. heap b a \<noteq> None \<longleftrightarrow> a \<in> set (m_pTag b # as)" and "distinct (m_pTag b # as)"
    and "m_pHead b = hd (as @ [m_pTag b])"
    and "\<forall>i < length as. nxt (heap b) (as ! i) = Some ((as @ [m_pTag b]) ! Suc i)"
  shows "\<exists>b'. eb_delete_loop b = Some b' \<and> m_pTag b' = m_pTag b \<and> (\<forall>a. heap b' a \<noteq> None \<longleftrightarrow> a = m_pTag b)"
  using assms
proof (induction as arbitrary: b)
  case Nil
  then show ?case by (simp add: eb_delete_loop.simps [of b])
next
  case (Cons x as)
  have x: "m_pHead b = x" "x \<noteq> m_pTag b" "heap b x \<noteq> None" using Cons.prems by auto
  obtain n where n: "load b x = Some n" "m_next n = hd (as @ [m_pTag b])"
    using Cons.prems(4) [rule_format, of 0] hd_snoc_nth [of as "m_pTag b"] x(3) by (auto simp: load_def nxt_def)
  let ?b = "b\<lparr>m_pCurrent := m_next n, heap := (heap b)(x := None), m_pHead := m_next n\<rparr>"
  have "eb_delete_loop b = eb_delete_loop ?b"
    using x n by (simp add: eb_delete_loop.simps [of b] heap_simps Let_def)
  moreover have "\<exists>b'. eb_delete_loop ?b = Some b' \<and> m_pTag b' = m_pTag ?b \<and> (\<forall>a. heap b' a \<noteq> None \<longleftrightarrow> a = m_pTag ?b)"
  proof (rule Cons.IH)
    show "\<forall>a. heap ?b a \<noteq> None \<longleftrightarrow> a \<in> set (m_pTag ?b # as)" using Cons.prems(1,2) by auto
    show "\<forall>i<length as. nxt (heap ?b) (as ! i) = Some ((as @ [m_pTag ?b]) ! Suc i)"
    proof (intro allI impI)
      fix i assume i: "i < length as"
      then have "as ! i \<noteq> x" using Cons.prems(2) nth_mem by fastforce
      then show "nxt (heap ?b) (as ! i) = Some ((as @ [m_pTag ?b]) ! Suc i)"
        using Cons.prems(4) [rule_format, of "Suc i"] i by (simp add: heap_simps)
    qed
  qed (use Cons.prems(2) n in auto)
  ultimately show ?case by simp
qed

lemma eb_delete_ok:
  assumes rep: "eb_rep b as s"
  shows "\<exists>b'. eb_delete b = Some b' \<and> heap b' = Map.empty"
proof -
  note inv = rr_inv [OF eb_ring [OF rep]]
  have "\<forall>i<length as. nxt (heap b) (as ! i) = Some ((as @ [m_pTag b]) ! Suc i)"
  proof (intro allI impI)
    fix i assume i: "i < length as"
    then obtain n where "load b (as ! i) = Some n" "m_next n = (as @ [m_pTag b]) ! Suc i"
      using ring_at [OF inv] by metis
    then show "nxt (heap b) (as ! i) = Some ((as @ [m_pTag b]) ! Suc i)" by (simp add: load_def nxt_def)
  qed
  then obtain b1 where b1: "eb_delete_loop b = Some b1" "m_pTag b1 = m_pTag b" "\<forall>a. heap b1 a \<noteq> None \<longleftrightarrow> a = m_pTag b"
    using eb_delete_loop_ok [of b as] inv by (auto simp: dll_inv_def ring_def)
  have "heap b1 (m_pTag b1) \<noteq> None" "m_pTag b1 \<noteq> NULL" using b1 ring_fresh(6) [OF inv] by auto
  moreover have "((heap b1)(m_pTag b1 := None)) a = None" for a using b1 by (cases "heap b1 a") auto
  then have "(heap b1)(m_pTag b1 := None) = Map.empty" by blast
  ultimately show ?thesis using b1(1) by (simp add: eb_delete_def heap_simps)
qed

section \<open>The refresh order\<close>

text \<open>The refresh time a call stores: the clock for a push and for an update with the default argument,
  the argument for an update that passes a time. A history is clocked when these times never go back.\<close>

definition stamps :: "int \<Rightarrow> ('k, 'v) eb_op \<Rightarrow> int list" where
  "stamps now p = (case p of EPush k v \<Rightarrow> [now] | EUpdate k t \<Rightarrow> [eb_oldtime t now] | EUpdateV k v \<Rightarrow> [now] | _ \<Rightarrow> [])"

definition clocked :: "(int \<times> ('k, 'v) eb_op) list \<Rightarrow> bool" where
  "clocked ps = sorted (concat (map (\<lambda>(now, p). stamps now p) ps))"

definition refresh_sorted :: "int \<Rightarrow> ('k, 'v) eb_value list \<Rightarrow> bool" where
  "refresh_sorted t es = (sorted (map m_refreshtime es @ [t]))"

lemma refresh_sorted_mono: "refresh_sorted t es \<Longrightarrow> t \<le> t' \<Longrightarrow> refresh_sorted t' es"
  by (auto simp: refresh_sorted_def sorted_append)

lemma refresh_sorted_sub:
  "refresh_sorted t es \<Longrightarrow> refresh_sorted t (take j es @ drop (Suc j) es)"
  "refresh_sorted t es \<Longrightarrow> refresh_sorted t (tl es)"
  "refresh_sorted t es \<Longrightarrow> refresh_sorted t (drop n es)"
proof -
  assume *: "refresh_sorted t es"
  then have s: "sorted (map m_refreshtime es)" "\<forall>e\<in>set es. m_refreshtime e \<le> t"
    by (auto simp: refresh_sorted_def sorted_append)
  have "sorted (map m_refreshtime (take j es @ drop (Suc j) es))"
  proof (cases "j < length es")
    case True
    have "sorted (map m_refreshtime (take j es @ es ! j # drop (Suc j) es))"
      using s(1) id_take_nth_drop [OF True] by simp
    then show ?thesis by (auto simp: sorted_append)
  qed (use s(1) in simp)
  then show "refresh_sorted t (take j es @ drop (Suc j) es)"
    using s(2) by (auto simp: refresh_sorted_def sorted_append dest: in_set_takeD in_set_dropD)
  show "refresh_sorted t (tl es)" using s by (cases es) (auto simp: refresh_sorted_def sorted_append)
  have "sorted (map m_refreshtime (drop n es))" using sorted_wrt_drop [OF s(1), of n] by (simp add: drop_map)
  then show "refresh_sorted t (drop n es)"
    using s(2) by (auto simp: refresh_sorted_def sorted_append dest: in_set_dropD)
qed

lemma refresh_sorted_snoc: "refresh_sorted t es \<Longrightarrow> m_refreshtime e = t \<Longrightarrow> refresh_sorted t (es @ [e])"
  by (auto simp: refresh_sorted_def sorted_append)


lemma eb_spec_sorted:
  assumes "refresh_sorted t (es_ents s)" and "\<forall>u \<in> set (stamps now p). t \<le> u" and "eb_spec p now s = Some (r, s')"
  shows "refresh_sorted (last (t # stamps now p)) (es_ents s')"
proof -
  note S = refresh_sorted_mono [OF assms(1)]
  have new: "m_refreshtime (eb_value_new k v 0 now) = now" for k :: 'a and v :: 'b
    by (simp add: eb_value_new_def Let_def)
  note sub = refresh_sorted_sub [OF assms(1)]
  show ?thesis
  proof (cases p)
    case (EUpdate k u)
    then have le: "t \<le> eb_oldtime u now" using assms(2) by (simp add: stamps_def)
    show ?thesis using EUpdate assms(3) S [OF le] refresh_sorted_snoc [OF refresh_sorted_sub(1) [OF S [OF le]]]
      by (auto simp: Let_def spec_refresh_def stamps_def split: if_splits)
  next
    case (EUpdateV k v)
    then have le: "t \<le> now" using assms(2) by (simp add: stamps_def)
    show ?thesis using EUpdateV assms(3) S [OF le] refresh_sorted_snoc [OF refresh_sorted_sub(1) [OF S [OF le]]]
      by (auto simp: Let_def spec_refresh_def stamps_def split: if_splits)
  next
    case (EPush k v)
    then have le: "t \<le> now" using assms(2) by (simp add: stamps_def)
    show ?thesis using EPush assms(3) S [OF le] refresh_sorted_snoc [OF S [OF le] new]
        refresh_sorted_snoc [OF refresh_sorted_sub(2) [OF S [OF le]] new]
      by (auto simp: Let_def stamps_def split: if_splits)
  next
    case EPopFront
    then show ?thesis using assms sub(1) [of 0] by (auto simp: spec_drop_def stamps_def split: if_splits)
  next
    case EPopBack
    then show ?thesis using assms sub(1) [of "length (es_ents s) - 1"] by (auto simp: spec_drop_def stamps_def split: if_splits)
  next
    case (EPop k)
    then show ?thesis using assms sub(1) by (auto simp: spec_drop_def stamps_def Let_def split: if_splits)
  next
    case (EPopFrontOld u)
    then show ?thesis using assms sub(1) [of 0] by (auto simp: spec_drop_def stamps_def split: if_splits)
  next
    case (EPopOld u clk)
    obtain n where "drop_old (es_living s) u clk 0 (es_ents s) = drop n (es_ents s)" using drop_old_suffix by blast
    then show ?thesis using EPopOld assms sub(3) [of n] by (auto simp: stamps_def Let_def split: if_splits)
  qed (use assms in \<open>auto simp: bind_Some_iff stamps_def Let_def split: if_splits\<close>)
qed

lemma stamps_single: "stamps now p = [] \<or> (\<exists>u. stamps now p = [u])"
  by (cases p) (simp_all add: stamps_def)

lemma eb_run_sorted:
  "sorted (t # concat (map (\<lambda>(now, p). stamps now p) ps)) \<Longrightarrow> eb_spec_run ps s = Some (rs, s') \<Longrightarrow> refresh_sorted t (es_ents s) \<Longrightarrow>
   \<exists>t'. refresh_sorted t' (es_ents s')"
proof (induction ps arbitrary: s rs t)
  case (Cons q ps)
  obtain now p where q: "q = (now, p)" by (cases q)
  from Cons.prems(2) obtain r s1 rs1 where s: "eb_spec p now s = Some (r, s1)" "eb_spec_run ps s1 = Some (rs1, s')"
    by (auto simp: bind_Some_iff q)
  have "refresh_sorted (last (t # stamps now p)) (es_ents s1)"
    by (rule eb_spec_sorted [OF Cons.prems(3) _ s(1)]) (use Cons.prems(1) q in auto)
  moreover have "sorted (last (t # stamps now p) # concat (map (\<lambda>(now, p). stamps now p) ps))"
    using Cons.prems(1) q stamps_single [of now p] by auto
  ultimately show ?case using Cons.IH s(2) by blast
qed auto

text \<open>In refresh order the prefix that is dropped holds exactly the entries that have expired at the last
  reading of the clock.\<close>

lemma sorted_drop_old:
  assumes "refresh_sorted t0 es" "mono clk"
  shows "drop_old l t clk i es =
    filter (\<lambda>e. \<not> expired l (eb_oldtime t (clk (i + length es - length (drop_old l t clk i es)))) e) es"
  using assms(1)
proof (induction es arbitrary: i)
  case (Cons e es)
  have s: "refresh_sorted t0 es" using Cons.prems by (auto simp: refresh_sorted_def)
  show ?case
  proof (cases "expired l (eb_oldtime t (clk i)) e")
    case True
    let ?ws = "drop_old l t clk (Suc i) es"
    have "length ?ws \<le> length es" by (rule drop_old_length)
    then have n: "i + length (e # es) - length ?ws = Suc i + length es - length ?ws" "i \<le> Suc i + length es - length ?ws" by auto
    have "expired l (eb_oldtime t (clk (Suc i + length es - length ?ws))) e"
      using True monoD [OF assms(2) n(2)] by (auto simp: expired_def eb_oldtime_def)
    then show ?thesis using True Cons.IH [OF s, of "Suc i"] n(1) by simp
  next
    case False
    then have "\<forall>e' \<in> set es. \<not> expired l (eb_oldtime t (clk i)) e'"
      using Cons.prems by (fastforce simp: refresh_sorted_def expired_def)
    then show ?thesis using False by (simp add: filter_id_conv)
  qed
qed simp

text \<open>The size never exceeds a positive limit that is not changed.\<close>

lemma eb_spec_capacity:
  assumes "eb_spec p now s = Some (r, s')" and "0 < es_max s" and "length (es_ents s) \<le> es_max s"
    and "\<And>n. p \<noteq> ESetMax n"
  shows "es_max s' = es_max s \<and> length (es_ents s') \<le> es_max s'"
  using assms
  by (cases p) (auto simp: Let_def bind_Some_iff spec_drop_def spec_refresh_def split: if_splits
      intro: order_trans [OF drop_old_length])

lemma eb_run_capacity:
  "eb_spec_run ps s = Some (rs, s') \<Longrightarrow> 0 < es_max s \<Longrightarrow> length (es_ents s) \<le> es_max s \<Longrightarrow>
   list_all (\<lambda>(now, p). \<forall>n. p \<noteq> ESetMax n) ps \<Longrightarrow> length (es_ents s') \<le> es_max s"
proof (induction ps arbitrary: s rs)
  case (Cons q ps)
  obtain now p where q: "q = (now, p)" by (cases q)
  from Cons.prems(1) obtain r s1 rs1 where s: "eb_spec p now s = Some (r, s1)" "eb_spec_run ps s1 = Some (rs1, s')"
    by (auto simp: bind_Some_iff q)
  have "es_max s1 = es_max s \<and> length (es_ents s1) \<le> es_max s1"
    by (rule eb_spec_capacity [OF s(1)]) (use Cons.prems q in auto)
  then show ?case using Cons.IH [OF s(2)] Cons.prems by auto
qed simp


section \<open>Properties\<close>

text \<open>Property C12. Any specified sequence of calls on a fresh buffer (pushes, lookups, pops by
  key and at the ends, expiry, refreshes, cursor moves, changes of the limits) runs without
  touching freed memory and returns what the list of entries in refresh order returns; the key
  map, the ring and the counter stay consistent.\<close>

theorem eb_run_refines:
  assumes "eb_spec_run ps (espec_new mx d lt) = Some (rs, s')"
  shows "\<exists>b b'. eb_new mx d lt = Some b \<and> eb_run ps b = Some (rs, b') \<and> eb_rel b' s'"
  using eb_new_ok eb_run_refines_gen [OF _ assms] by blast

theorem eb_run_refines_witness:
  "\<exists>b b'. eb_new 2 True 10 = Some b \<and>
     eb_run [(5, EPush (1::nat) (7::int)), (6, EPush 2 8), (7, EUpdate 1 0), (8, EPush 3 9), (9, EFind 2)] b =
       Some ([(1, [], []), (1, [], []), (1, [], []), (2, [], [8]), (0, [], [])], b')"
  using eb_run_refines [of "[(5, EPush (1::nat) (7::int)), (6, EPush 2 8), (7, EUpdate 1 0), (8, EPush 3 9), (9, EFind 2)]"
      2 True 10]
  by (auto simp: espec_new_def key_pos_def spec_refresh_def eb_value_new_def Let_def)

text \<open>Property C13. When the refresh times that pushes and updates store (the clock, or the time an
  update passes) never go back and the clock does not run backwards during the call, \<open>pop_old\<close> removes
  exactly the entries that have expired at the last time it uses, wherever they are, and returns their
  number. The order of the refresh times is needed: see \<open>stale_refresh_hides\<close>.\<close>

theorem pop_old_exact:
  assumes "clocked ps" and "eb_spec_run ps (espec_new mx d lt) = Some (rs, s)" and "mono clk"
  shows "\<exists>b b1 b2 s2 n. eb_new mx d lt = Some b \<and> eb_run ps b = Some (rs, b1) \<and>
     eb_pop_old b1 t clk = Some (int n, b2) \<and>
     n = length (filter (expired (es_living s) (eb_oldtime t (clk n))) (es_ents s)) \<and>
     eb_rel b2 s2 \<and> es_ents s2 = filter (\<lambda>e. \<not> expired (es_living s) (eb_oldtime t (clk n)) e) (es_ents s)"
proof -
  obtain b b1 where b: "eb_new mx d lt = Some b" "eb_run ps b = Some (rs, b1)" "eb_rel b1 s"
    using eb_new_ok eb_run_refines_gen [OF _ assms(2)] by blast
  let ?us = "concat (map (\<lambda>(now, p). stamps now p) ps)"
  define u0 where "u0 = Min (insert 0 (set ?us))"
  have "\<forall>u \<in> set ?us. u0 \<le> u" unfolding u0_def by (intro ballI Min_le insertI2 finite.insertI finite_set)
  then have "sorted (u0 # ?us)" using assms(1) unfolding clocked_def sorted_simps by blast
  moreover have "refresh_sorted u0 (es_ents (espec_new mx d lt))" by (simp add: refresh_sorted_def espec_new_def)
  ultimately obtain u where u: "refresh_sorted u (es_ents s)" using eb_run_sorted [OF _ assms(2)] by blast
  define ws where "ws = drop_old (es_living s) t clk 0 (es_ents s)"
  define n where "n = length (es_ents s) - length ws"
  let ?x = "expired (es_living s) (eb_oldtime t (clk n))"
  have ws: "ws = filter (\<lambda>e. \<not> ?x e) (es_ents s)"
    using sorted_drop_old [OF u assms(3), of "es_living s" t 0] by (simp add: ws_def n_def)
  then have len: "length ws \<le> length (es_ents s)" "n = length (filter ?x (es_ents s))"
    using sum_length_filter_compl [of ?x "es_ents s"] by (simp_all add: n_def)
  have all: "length ws = length (es_ents s) \<Longrightarrow> ws = es_ents s" by (simp add: ws_def drop_old_full)
  from eb_refines_all [OF b(3), of "EPopOld t clk" 0] obtain b2 where
    "eb_pop_old b1 t clk = Some (int (length (es_ents s)) - int (length ws), b2)"
    "eb_rel b2 (if length ws = length (es_ents s) then s else s\<lparr>es_ents := ws, es_cur := Some 0\<rparr>)"
    by (auto simp: eb_refines_def eo_defs Let_def bind_Some_iff simp flip: ws_def)
  moreover have "int (length (es_ents s)) - int (length ws) = int n" using len(1) by (simp add: n_def)
  moreover have "es_ents (if length ws = length (es_ents s) then s else s\<lparr>es_ents := ws, es_cur := Some 0\<rparr>) = filter (\<lambda>e. \<not> ?x e) (es_ents s)"
    using all ws by auto
  ultimately show ?thesis using b(1,2) len(2) by metis
qed

theorem pop_old_exact_witness:
  "\<exists>b b1 b2 n. eb_new 0 False 10 = Some b \<and>
     eb_run [(5, EPush (1::nat) (7::int)), (6, EPush 2 8), (17, EUpdate 1 16)] b = Some ([(1, [], []), (1, [], []), (1, [], [])], b1) \<and>
     eb_pop_old b1 0 (\<lambda>i. 18 + int i) = Some (int n, b2) \<and>
     n = length (filter (expired 10 (18 + int n)) [eb_value_new 2 (8::int) 0 6, (eb_value_new (1::nat) 7 0 5)\<lparr>m_refreshtime := 16\<rparr>])"
proof -
  let ?s = "(espec_new 0 False 10)\<lparr>es_ents := [eb_value_new 2 8 0 6, (eb_value_new (1::nat) (7::int) 0 5)\<lparr>m_refreshtime := 16\<rparr>], es_cur := Some 1\<rparr>"
  have c: "clocked [(5, EPush (1::nat) (7::int)), (6, EPush 2 8), (17, EUpdate 1 16)]" by (simp add: clocked_def stamps_def eb_oldtime_def)
  have r: "eb_spec_run [(5, EPush (1::nat) (7::int)), (6, EPush 2 8), (17, EUpdate 1 16)] (espec_new 0 False 10) =
    Some ([(1, [], []), (1, [], []), (1, [], [])], ?s)"
    by (simp add: espec_new_def key_pos_def spec_refresh_def eb_value_new_def Let_def eb_oldtime_def)
  have m: "mono (\<lambda>i. 18 + int i)" by (simp add: mono_def)
  show ?thesis using pop_old_exact [OF c r m, of 0] by (fastforce simp: eb_oldtime_def espec_new_def)
qed

text \<open>A refresh with a time older than those of the other entries puts the entry at the end of the ring
  all the same: when it has expired, \<open>pop_old\<close> stops at the fresher entries in front of it and leaves it.\<close>

theorem stale_refresh_hides:
  assumes "t1 \<noteq> 0" "k1 \<noteq> k2" "t1 < n2" "t \<noteq> 0" "l < t - t1" "\<not> l < t - n2"
  shows "\<exists>b b1 b2. eb_new 0 False l = Some b \<and>
     eb_run [(n1, EPush k1 v1), (n2, EPush k2 v2), (n3, EUpdate k1 t1)] b = Some ([(1, [], []), (1, [], []), (1, [], [])], b1) \<and>
     eb_pop_old b1 t clk = Some (0, b2) \<and> m_count b2 = 2"
proof -
  let ?e1 = "(eb_value_new k1 v1 0 n1)\<lparr>m_refreshtime := t1\<rparr>" and ?e2 = "eb_value_new k2 v2 0 n2"
  let ?s = "(espec_new 0 False l)\<lparr>es_ents := [?e2, ?e1], es_cur := Some 1\<rparr>"
  have r: "eb_spec_run [(n1, EPush k1 v1), (n2, EPush k2 v2), (n3, EUpdate k1 t1)] (espec_new 0 False l) =
    Some ([(1, [], []), (1, [], []), (1, [], [])], ?s)"
    using assms(1,2) by (simp add: espec_new_def key_pos_def spec_refresh_def eb_value_new_def Let_def eb_oldtime_def)
  obtain b b1 where b: "eb_new 0 False l = Some b" "eb_run [(n1, EPush k1 v1), (n2, EPush k2 v2), (n3, EUpdate k1 t1)] b =
    Some ([(1, [], []), (1, [], []), (1, [], [])], b1)" "eb_rel b1 ?s"
    using eb_new_ok eb_run_refines_gen [OF _ r] by blast
  have "drop_old l t clk 0 [?e2, ?e1] = [?e2, ?e1]" using assms(4,6) by (simp add: expired_def eb_oldtime_def eb_value_new_def Let_def)
  then obtain b2 where b2: "eb_pop_old b1 t clk = Some (0, b2)" "eb_rel b2 ?s"
    using eb_refines_all [OF b(3), of "EPopOld t clk" 0] by (auto simp: eb_refines_def eo_defs Let_def bind_Some_iff espec_new_def)
  then have "m_count b2 = 2" using eb_count unfolding eb_rel_def by fastforce
  then show ?thesis using b(1,2) b2(1) by blast
qed

text \<open>A buffer created with a positive limit never holds more entries than the
  limit, under either destroy policy and whatever sequence of calls is made, as long as the
  limit is not changed.\<close>

theorem eb_capacity:
  assumes "eb_spec_run ps (espec_new mx d lt) = Some (rs, s')" and "0 < mx"
    and "list_all (\<lambda>(now, p). \<forall>n. p \<noteq> ESetMax n) ps"
  shows "\<exists>b b'. eb_new mx d lt = Some b \<and> eb_run ps b = Some (rs, b') \<and> m_count b' \<le> int mx"
proof -
  obtain b b' as where b: "eb_new mx d lt = Some b" "eb_run ps b = Some (rs, b')" "eb_rep b' as s'"
    using eb_new_ok eb_run_refines_gen [OF _ assms(1)] unfolding eb_rel_def by blast
  have "length (es_ents s') \<le> mx"
    using eb_run_capacity [OF assms(1) _ _ assms(3)] assms(2) by (simp add: espec_new_def)
  then show ?thesis using b eb_count [OF b(3)] by auto
qed

theorem eb_capacity_witness:
  "\<exists>b b'. eb_new 1 True 10 = Some b \<and>
     eb_run [(5, EPush (1::nat) (7::int)), (6, EPush 2 8)] b = Some ([(1, [], []), (2, [], [7])], b') \<and> m_count b' \<le> 1"
  using eb_capacity [of "[(5, EPush (1::nat) (7::int)), (6, EPush 2 8)]" 1 True 10 "[(1, [], []), (2, [], [7])]"]
  by (simp add: espec_new_def eb_value_new_def Let_def)

text \<open>\<open>clear\<close> forgets all keys but leaves \<open>m_pTail\<close> on a freed node: after
  \<open>clear\<close> of a non-empty buffer, \<open>push\<close> succeeds and the next \<open>pop_back\<close> writes through the
  dangling pointer.\<close>

theorem clear_then_pop_back_dangles:
  assumes "eb_rel b s" and "es_ents s \<noteq> []"
  shows "\<exists>b1 b2. eb_clear b = Some b1 \<and> m_count b1 = 0 \<and> m_map b1 = Map.empty \<and>
     eb_push b1 k v now = Some (1, b2) \<and> eb_pop_back b2 = None"
proof -
  obtain as where rep: "eb_rep b as s" using assms(1) by (auto simp: eb_rel_def)
  obtain b1 where b1: "eb_clear b = Some b1" using eb_clear_ok [OF rep assms(2)] by blast
  show ?thesis using b1 eb_clear_heap(1,2) [OF rep assms(2) b1] eb_clear_push_pop_back [OF rep assms(2) b1] by blast
qed

theorem clear_then_pop_back_dangles_witness:
  "\<exists>b b0 b1 b2. eb_new 0 False 10 = Some b \<and> eb_run [(5, EPush (1::nat) (7::int))] b = Some ([(1, [], [])], b0) \<and>
     eb_clear b0 = Some b1 \<and> eb_push b1 2 8 6 = Some (1, b2) \<and> eb_pop_back b2 = None"
proof -
  let ?s = "(espec_new 0 False 10)\<lparr>es_ents := [eb_value_new (1::nat) (7::int) 0 5], es_cur := Some 0\<rparr>"
  obtain b where b: "eb_new 0 False 10 = Some b" "eb_rel b (espec_new 0 False 10 :: (nat, int) espec)" using eb_new_ok by blast
  obtain b0 where b0: "eb_run [(5, EPush (1::nat) (7::int))] b = Some ([(1, [], [])], b0)" "eb_rel b0 ?s"
    using eb_run_refines_gen [OF b(2), of "[(5, EPush 1 7)]" "[(1, [], [])]" ?s] by (auto simp: espec_new_def)
  show ?thesis using clear_then_pop_back_dangles [OF b0(2), of 2 8 6] b(1) b0(1) by auto
qed

text \<open>The destructor frees every node exactly once after any specified sequence
  of calls.\<close>

theorem eb_no_leak:
  assumes "eb_spec_run ps (espec_new mx d lt) = Some (rs, s')"
  shows "\<exists>b b' e. eb_new mx d lt = Some b \<and> eb_run ps b = Some (rs, b') \<and> eb_delete b' = Some e \<and> heap e = Map.empty"
  using eb_new_ok eb_run_refines_gen [OF _ assms] eb_delete_ok unfolding eb_rel_def by blast

theorem eb_no_leak_witness:
  "\<exists>b b' e. eb_new 0 False 10 = Some b \<and> eb_run [(5, EPush (1::nat) (7::int)), (6, EPop 1)] b =
     Some ([(1, [], []), (1, [], [7])], b') \<and> eb_delete b' = Some e \<and> heap e = Map.empty"
  using eb_no_leak [of "[(5, EPush (1::nat) (7::int)), (6, EPop 1)]" 0 False 10]
  by (simp add: espec_new_def eb_value_new_def Let_def key_pos_def spec_drop_def)

section \<open>The interface to clients\<close>

text \<open>An unlimited buffer as an expiring store.\<close>

definition ent :: "('k, 'v) eb_value \<Rightarrow> 'k \<times> 'v \<times> int" where
  "ent e = (ev_key e, ev_value e, m_refreshtime e)"

definition eb_store :: "('k, 'v) ebuf \<Rightarrow> ('k \<times> 'v \<times> int) list \<Rightarrow> int \<Rightarrow> bool" where
  "eb_store b es l = (\<exists>s. eb_rel b s \<and> map ent (es_ents s) = es \<and> es_living s = l \<and> es_max s = 0)"

lemma eb_store_distinct: "eb_store b es l \<Longrightarrow> distinct (map fst es)"
  using eb_keys by (fastforce simp: eb_store_def eb_rel_def ent_def comp_def)

lemma map_of_ents: "map_of (map ent es) k =
    (if key_pos es k < length es then Some (ev_value (es ! key_pos es k), m_refreshtime (es ! key_pos es k)) else None)"
  by (induction es) (auto simp: key_pos_def ent_def)

lemma eb_store_find: "eb_store b es l \<Longrightarrow> \<exists>b'. eb_find b k = Some (map_option fst (map_of es k), b') \<and> eb_store b' es l"
proof -
  assume "eb_store b es l"
  then obtain s where s: "eb_rel b s" "map ent (es_ents s) = es" "es_living s = l" "es_max s = 0" by (auto simp: eb_store_def)
  let ?j = "key_pos (es_ents s) k"
  have "eb_refines (EFind k) 0 b s" by (rule eb_refines_all [OF s(1)])
  then have *: "\<exists>b'. eo_v (eb_find b k) = Some (if ?j < length (es_ents s) then (1, [], [ev_value (es_ents s ! ?j)]) else no_out, b') \<and>
      eb_rel b' (if ?j < length (es_ents s) then s\<lparr>es_cur := Some ?j\<rparr> else s)"
    by (auto simp: eb_refines_def Let_def split: if_splits)
  then obtain r b' where b': "eb_find b k = Some (r, b')" "eb_rel b' (if ?j < length (es_ents s) then s\<lparr>es_cur := Some ?j\<rparr> else s)"
    by (auto simp: eo_v_def bind_Some_iff)
  have "r = map_option fst (map_of es k)" using * b'(1) s(2) map_of_ents [of "es_ents s" k]
    by (auto simp: eo_v_def split: option.splits if_splits)
  moreover have "eb_store b' es l" using b'(2) s unfolding eb_store_def by (intro exI [of _ "if ?j < length (es_ents s) then s\<lparr>es_cur := Some ?j\<rparr> else s"]) auto
  ultimately show ?thesis using b'(1) by blast
qed

lemma eb_store_push:
  assumes "eb_store b es l" "k \<notin> fst ` set es"
  shows "\<exists>b'. eb_push b k v now = Some (1, b') \<and> eb_store b' (es @ [(k, v, now)]) l"
proof -
  obtain s where s: "eb_rel b s" "map ent (es_ents s) = es" "es_living s = l" "es_max s = 0" using assms(1) by (auto simp: eb_store_def)
  have k: "k \<notin> ev_key ` set (es_ents s)" using assms(2) s(2) by (force simp: ent_def)
  let ?s = "s\<lparr>es_ents := es_ents s @ [eb_value_new k v 0 now], es_cur := Some (length (es_ents s))\<rparr>"
  have "eb_refines (EPush k v) now b s" by (rule eb_refines_all [OF s(1)])
  then obtain b' where b': "eo_iv (eb_push_old b k v now) = Some ((1, [], []), b')" "eb_rel b' ?s"
    using k s(4) by (auto simp: eb_refines_def Let_def)
  then have "eb_push b k v now = Some (1, b')" by (auto simp: eo_iv_def eb_push_old_def bind_Some_iff)
  moreover have "map ent (es_ents ?s) = es @ [(k, v, now)]" using s(2) by (simp add: ent_def eb_value_new_def Let_def)
  ultimately show ?thesis using b'(2) s unfolding eb_store_def by (intro exI [of _ b'] conjI exI [of _ ?s]) auto
qed

lemma eb_store_pop:
  assumes "eb_rep b as s" "es_max s = 0"
  shows "\<exists>b'. eb_pop_front_old_kv b t now = Some ((es_ents s \<noteq> [] \<and> expired (es_living s) (eb_oldtime t now) (hd (es_ents s)),
      if es_ents s = [] then None else Some (ev_key (hd (es_ents s)), ev_value (hd (es_ents s)))), b') \<and>
    eb_store b' (map ent (if es_ents s \<noteq> [] \<and> expired (es_living s) (eb_oldtime t now) (hd (es_ents s)) then tl (es_ents s) else es_ents s)) (es_living s)"
proof (cases "es_ents s = []")
  case True
  then show ?thesis using assms eb_count [OF assms(1)] eb_relI [OF assms(1)] by (auto simp: eb_pop_front_old_kv_def eb_store_def)
next
  case False
  let ?x = "expired (es_living s) (eb_oldtime t now) (hd (es_ents s))"
  obtain b' as' where b': "eb_pop_front_old b t now = Some (?x, b')" "eb_rep b' as' (if ?x then spec_drop 0 (Some 0) s else s)"
    using eb_pop_front_old_ok [OF assms(1), of t now] False by auto
  have "eb_store b' (map ent (if ?x then tl (es_ents s) else es_ents s)) (es_living s)" unfolding eb_store_def
    by (rule exI [of _ "if ?x then spec_drop 0 (Some 0) s else s"]) (use eb_relI [OF b'(2)] assms(2) in \<open>auto simp: spec_drop_def drop_Suc\<close>)
  then show ?thesis using False b'(1) eb_read_ends(1) [OF assms(1) False] eb_count [OF assms(1)] by (auto simp: eb_pop_front_old_kv_def)
qed

lemma eb_store_pop_none:
  assumes "eb_store b es l" "es = [] \<or> \<not> l < (if t \<noteq> 0 then t else now) - snd (snd (hd es))"
  shows "\<exists>kv b'. eb_pop_front_old_kv b t now = Some ((False, kv), b') \<and> eb_store b' es l"
proof -
  obtain s as where s: "eb_rep b as s" "map ent (es_ents s) = es" "es_living s = l" "es_max s = 0"
    using assms(1) unfolding eb_store_def eb_rel_def by blast
  have "\<not> (es_ents s \<noteq> [] \<and> expired (es_living s) (eb_oldtime t now) (hd (es_ents s)))"
    using assms(2) s(2,3) by (cases "es_ents s") (auto simp: expired_def eb_oldtime_def ent_def)
  then show ?thesis using eb_store_pop [OF s(1,4), of t now] s(2,3) by auto
qed

lemma eb_store_pop_some:
  assumes "eb_store b ((k, v, t0) # es) l" "l < (if t \<noteq> 0 then t else now) - t0"
  shows "\<exists>b'. eb_pop_front_old_kv b t now = Some ((True, Some (k, v)), b') \<and> eb_store b' es l"
proof -
  obtain s as where s: "eb_rep b as s" "map ent (es_ents s) = (k, v, t0) # es" "es_living s = l" "es_max s = 0"
    using assms(1) unfolding eb_store_def eb_rel_def by (elim exE conjE) (rule that)
  then obtain e es' where e: "es_ents s = e # es'" "ent e = (k, v, t0)" "map ent es' = es" by (cases "es_ents s") auto
  have "expired (es_living s) (eb_oldtime t now) e" using assms(2) s(3) e(2) by (auto simp: expired_def eb_oldtime_def ent_def)
  then show ?thesis using eb_store_pop [OF s(1,4), of t now] s(3) e by (auto simp: ent_def)
qed

interpretation eb_expiring: expiring_store eb_store eb_find eb_push eb_pop_front_old_kv
  by unfold_locales (erule eb_store_distinct eb_store_find eb_store_push eb_store_pop_none eb_store_pop_some, assumption?)+

end
