(* ===== verification/HashTable.thy ===== *)
theory HashTable
  imports Complex_Main Prelude
begin

text \<open>
  The hash table \<open>CHashTable<TKey, TValue>\<close> of \<open>include/comserv/unihashtable.h\<close>
  with the key functions of \<open>comserv/hashtable.C\<close>. A bucket is the list of its chained
  entries, first entry first. Entries also carry the two links of the insertion sequence
  (\<open>m_s_prev\<close>, \<open>m_s_next\<close>), which are kept as pointers: \<open>h_alloc\<close> says
  which entries are allocated, and a read or write through a stale pointer is \<open>None\<close>.
  The comparison and hash functions \<open>m_pfCompareKey\<close> and \<open>m_pfGetHash\<close> are the
  arguments \<open>cmp\<close> and \<open>hash\<close>. The load factor, a \<open>double\<close>, is a rational
  number; the float constants are the exact values of their literals.
\<close>

section \<open>State\<close>

record ('k, 'v) hentry =
  h_id :: addr
  m_hash :: UINT
  m_key :: 'k
  h_value :: 'v

record ('k, 'v) htable =
  m_table :: "('k, 'v) hentry list list"
  m_entryCount :: nat
  m_tableLength :: nat
  m_modCount :: nat
  m_loadFactor :: rat
  m_threshold :: nat
  m_pcurEntry :: addr
  m_uicurIndex :: nat
  m_s_prev :: "addr \<Rightarrow> addr"
  m_s_next :: "addr \<Rightarrow> addr"
  seqHead :: addr
  seqTail :: addr
  seqCur :: addr
  h_alloc :: "addr \<Rightarrow> bool"
  h_brk :: addr

abbreviation "DEFAULT_HASHTABLE_LENGTH \<equiv> 16 :: nat"
abbreviation "DEFAULT_HASHTABLE_LOADFACTOR \<equiv> 3 / 4 :: rat"
abbreviation "HASHTABLE_MIN_LENGTH \<equiv> 8 :: nat"
abbreviation "HASHTABLE_MAX_LENGTH \<equiv> 131072 :: nat"
abbreviation "HASHTABLE_MIN_LOADFACTOR \<equiv> 13421773 / 33554432 :: rat"
abbreviation "HASHTABLE_MAX_LOADFACTOR \<equiv> 3 / 2 :: rat"

section \<open>Key functions\<close>

definition CompareKey :: "'k \<Rightarrow> 'k \<Rightarrow> bool" where
  "CompareKey a b = (a = b)"

definition GetHash :: "UINT \<Rightarrow> UINT" where
  "GetHash key = key"

text \<open>\<open>CHAR\<close> is signed, so that the conversion to \<open>HASH_CODE\<close> extends the sign.\<close>

definition GetHash_str :: "CHAR8 list \<Rightarrow> UINT" where
  "GetHash_str key = (let i = length key in
     if i = 0 then 0
     else of_nat i * 10 + scast (key ! 0) + scast (key ! (i - 1)) + scast (key ! (i div 2)))"

section \<open>Operations\<close>

definition thresholdOf :: "nat \<Rightarrow> rat \<Rightarrow> nat" where
  "thresholdOf len lf = nat \<lfloor>of_nat len * lf\<rfloor>"

definition initTable :: "nat \<Rightarrow> rat \<Rightarrow> ('k, 'v) htable" where
  "initTable len loadFactor =
     (let l = (if len < HASHTABLE_MIN_LENGTH then HASHTABLE_MIN_LENGTH
               else if len > HASHTABLE_MAX_LENGTH then HASHTABLE_MAX_LENGTH else len);
          f = (if loadFactor < HASHTABLE_MIN_LOADFACTOR then HASHTABLE_MIN_LOADFACTOR
               else if loadFactor > HASHTABLE_MAX_LOADFACTOR then HASHTABLE_MAX_LOADFACTOR else loadFactor) in
      \<lparr>m_table = replicate l [], m_entryCount = 0, m_tableLength = l, m_modCount = 0, m_loadFactor = f,
       m_threshold = thresholdOf l f, m_pcurEntry = NULL, m_uicurIndex = 0,
       m_s_prev = (\<lambda>_. NULL), m_s_next = (\<lambda>_. NULL), seqHead = NULL, seqTail = NULL, seqCur = NULL,
       h_alloc = (\<lambda>_. False), h_brk = 1\<rparr>)"

definition CHashTable_new :: "('k, 'v) htable" where
  "CHashTable_new = initTable DEFAULT_HASHTABLE_LENGTH DEFAULT_HASHTABLE_LOADFACTOR"

definition GET_HASH_INDEX :: "('k, 'v) htable \<Rightarrow> UINT \<Rightarrow> nat" where
  "GET_HASH_INDEX t h = unat h mod m_tableLength t"

text \<open>Reads and writes of the sequence links of an allocated entry.\<close>

definition get_s_next :: "('k, 'v) htable \<Rightarrow> addr \<Rightarrow> addr option" where
  "get_s_next t p = (if h_alloc t p then Some (m_s_next t p) else None)"

definition get_s_prev :: "('k, 'v) htable \<Rightarrow> addr \<Rightarrow> addr option" where
  "get_s_prev t p = (if h_alloc t p then Some (m_s_prev t p) else None)"

definition set_s_next :: "('k, 'v) htable \<Rightarrow> addr \<Rightarrow> addr \<Rightarrow> ('k, 'v) htable option" where
  "set_s_next t p q = (if h_alloc t p then Some (t\<lparr>m_s_next := (m_s_next t)(p := q)\<rparr>) else None)"

definition set_s_prev :: "('k, 'v) htable \<Rightarrow> addr \<Rightarrow> addr \<Rightarrow> ('k, 'v) htable option" where
  "set_s_prev t p q = (if h_alloc t p then Some (t\<lparr>m_s_prev := (m_s_prev t)(p := q)\<rparr>) else None)"

definition delete_entry :: "('k, 'v) htable \<Rightarrow> addr \<Rightarrow> ('k, 'v) htable option" where
  "delete_entry t p = (if h_alloc t p then Some (t\<lparr>h_alloc := (h_alloc t)(p := False)\<rparr>) else None)"

definition addSequence :: "('k, 'v) htable \<Rightarrow> addr \<Rightarrow> ('k, 'v) htable option" where
  "addSequence t p = (if seqHead t = NULL \<or> seqTail t = NULL then do {
       t \<leftarrow> set_s_next t p NULL;
       t \<leftarrow> set_s_prev t p NULL;
       Some (t\<lparr>seqHead := p, seqTail := p\<rparr>) }
     else do {
       t \<leftarrow> set_s_next t p NULL;
       t \<leftarrow> set_s_prev t p (seqTail t);
       t \<leftarrow> set_s_next t (seqTail t) p;
       Some (t\<lparr>seqTail := p\<rparr>) })"

definition delSequence :: "('k, 'v) htable \<Rightarrow> addr \<Rightarrow> ('k, 'v) htable option" where
  "delSequence t p = do {
     nx \<leftarrow> get_s_next t p;
     pv \<leftarrow> get_s_prev t p;
     if nx = NULL \<and> pv = NULL then Some (t\<lparr>seqHead := NULL, seqTail := NULL\<rparr>)
     else if nx = NULL then set_s_next (t\<lparr>seqTail := pv\<rparr>) pv NULL
     else if pv = NULL then set_s_prev (t\<lparr>seqHead := nx\<rparr>) nx NULL
     else do { t \<leftarrow> set_s_prev t nx pv; set_s_next t pv nx } }"

text \<open>The walk along a chain until the key compares equal.\<close>

fun chain_find :: "('k \<Rightarrow> 'k \<Rightarrow> bool) \<Rightarrow> 'k \<Rightarrow> ('k, 'v) hentry list \<Rightarrow> ('k, 'v) hentry option" where
  "chain_find cmp k [] = None"
| "chain_find cmp k (e # es) = (if cmp k (m_key e) then Some e else chain_find cmp k es)"

fun chain_set :: "('k \<Rightarrow> 'k \<Rightarrow> bool) \<Rightarrow> 'k \<Rightarrow> 'v \<Rightarrow> ('k, 'v) hentry list \<Rightarrow> ('k, 'v) hentry list" where
  "chain_set cmp k v [] = []"
| "chain_set cmp k v (e # es) = (if cmp k (m_key e) then e\<lparr>h_value := v\<rparr> # es else e # chain_set cmp k v es)"

fun chain_remove :: "('k \<Rightarrow> 'k \<Rightarrow> bool) \<Rightarrow> 'k \<Rightarrow> ('k, 'v) hentry list \<Rightarrow> ('k, 'v) hentry list" where
  "chain_remove cmp k [] = []"
| "chain_remove cmp k (e # es) = (if cmp k (m_key e) then es else e # chain_remove cmp k es)"

definition containsKey :: "('k \<Rightarrow> 'k \<Rightarrow> bool) \<Rightarrow> ('k \<Rightarrow> UINT) \<Rightarrow> ('k, 'v) htable \<Rightarrow> 'k \<Rightarrow> bool" where
  "containsKey cmp hash t k = (chain_find cmp k (m_table t ! GET_HASH_INDEX t (hash k)) \<noteq> None)"

definition get_r :: "('k \<Rightarrow> 'k \<Rightarrow> bool) \<Rightarrow> ('k \<Rightarrow> UINT) \<Rightarrow> ('k, 'v) htable \<Rightarrow> 'k \<Rightarrow> 'v option" where
  "get_r cmp hash t k = map_option h_value (chain_find cmp k (m_table t ! GET_HASH_INDEX t (hash k)))"

text \<open>\<open>rehash\<close> pops the entries of the old chains one by one and pushes each to the front
  of its new chain.\<close>

definition rehash_move :: "nat \<Rightarrow> ('k, 'v) hentry \<Rightarrow> ('k, 'v) hentry list list \<Rightarrow> ('k, 'v) hentry list list" where
  "rehash_move len e tab = (let i = unat (m_hash e) mod len in tab[i := e # tab ! i])"

definition rehash :: "('k, 'v) htable \<Rightarrow> ('k, 'v) htable" where
  "rehash t = (if m_tableLength t \<ge> HASHTABLE_MAX_LENGTH then t
     else let len = (if m_tableLength t * 2 \<ge> HASHTABLE_MAX_LENGTH then HASHTABLE_MAX_LENGTH
                     else m_tableLength t * 2) in
       t\<lparr>m_tableLength := len, m_threshold := thresholdOf len (m_loadFactor t),
         m_modCount := m_modCount t + 1,
         m_table := fold (rehash_move len) (concat (m_table t)) (replicate len [])\<rparr>)"

text \<open>The insertion of a new entry, the common tail of \<open>put_r\<close> and \<open>put_v\<close>.\<close>

definition put_new :: "('k, 'v) htable \<Rightarrow> UINT \<Rightarrow> 'k \<Rightarrow> 'v \<Rightarrow> ('k, 'v) htable option" where
  "put_new t h k v = do {
     let t = t\<lparr>m_entryCount := m_entryCount t + 1, m_pcurEntry := NULL, m_uicurIndex := 0\<rparr>;
     let t = (if m_entryCount t \<ge> m_threshold t then rehash t else t);
     let index = GET_HASH_INDEX t h;
     let p = h_brk t;
     let e = \<lparr>h_id = p, m_hash = h, m_key = k, h_value = v\<rparr>;
     let t = t\<lparr>h_alloc := (h_alloc t)(p := True), h_brk := Suc p,
               m_table := (m_table t)[index := e # m_table t ! index]\<rparr>;
     addSequence t p }"

definition put_r :: "('k \<Rightarrow> 'k \<Rightarrow> bool) \<Rightarrow> ('k \<Rightarrow> UINT) \<Rightarrow> ('k, 'v) htable \<Rightarrow> 'k \<Rightarrow> 'v
    \<Rightarrow> ('v \<times> ('k, 'v) htable) option" where
  "put_r cmp hash t k v = (let h = hash k; index = GET_HASH_INDEX t h;
       t = t\<lparr>m_modCount := m_modCount t + 1\<rparr> in
     case chain_find cmp k (m_table t ! index) of
       Some e \<Rightarrow> Some (h_value e, t\<lparr>m_table := (m_table t)[index := chain_set cmp k v (m_table t ! index)]\<rparr>)
     | None \<Rightarrow> do { t \<leftarrow> put_new t h k v; Some (v, t) })"

definition put_v :: "('k \<Rightarrow> 'k \<Rightarrow> bool) \<Rightarrow> ('k \<Rightarrow> UINT) \<Rightarrow> ('k, 'v) htable \<Rightarrow> 'k \<Rightarrow> 'v
    \<Rightarrow> ('k, 'v) htable option" where
  "put_v cmp hash t k v = (let h = hash k; index = GET_HASH_INDEX t h;
       t = t\<lparr>m_modCount := m_modCount t + 1\<rparr> in
     case chain_find cmp k (m_table t ! index) of
       Some e \<Rightarrow> Some (t\<lparr>m_table := (m_table t)[index := chain_set cmp k v (m_table t ! index)]\<rparr>)
     | None \<Rightarrow> put_new t h k v)"

text \<open>Enumeration by buckets. A cursor outside its bucket is dangling.\<close>

fun chain_after :: "addr \<Rightarrow> ('k, 'v) hentry list \<Rightarrow> ('k, 'v) hentry list option" where
  "chain_after p [] = None"
| "chain_after p (e # es) = (if h_id e = p then Some es else chain_after p es)"

definition first_bucket :: "('k, 'v) htable \<Rightarrow> nat \<Rightarrow> nat option" where
  "first_bucket t i = find (\<lambda>j. m_table t ! j \<noteq> []) [i..<m_tableLength t]"

definition searchNextEntry :: "('k, 'v) htable \<Rightarrow> (bool \<times> ('k, 'v) htable) option" where
  "searchNextEntry t = do {
     rest \<leftarrow> chain_after (m_pcurEntry t) (m_table t ! m_uicurIndex t);
     case rest of
       e # es \<Rightarrow> Some (True, t\<lparr>m_pcurEntry := h_id e\<rparr>)
     | [] \<Rightarrow> (case first_bucket t (m_uicurIndex t + 1) of
         Some i \<Rightarrow> Some (True, t\<lparr>m_pcurEntry := h_id (hd (m_table t ! i)), m_uicurIndex := i\<rparr>)
       | None \<Rightarrow> Some (False, t\<lparr>m_pcurEntry := NULL, m_uicurIndex := 0\<rparr>)) }"

definition ht_reset :: "('k, 'v) htable \<Rightarrow> bool \<times> ('k, 'v) htable" where
  "ht_reset t = (case first_bucket t 0 of
       Some i \<Rightarrow> (True, t\<lparr>m_pcurEntry := h_id (hd (m_table t ! i)), m_uicurIndex := i\<rparr>)
     | None \<Rightarrow> (False, t\<lparr>m_pcurEntry := NULL, m_uicurIndex := 0\<rparr>))"

definition entry_at :: "('k, 'v) htable \<Rightarrow> addr \<Rightarrow> ('k, 'v) hentry option" where
  "entry_at t p = find (\<lambda>e. h_id e = p) (concat (m_table t))"

definition getNext :: "('k, 'v) htable \<Rightarrow> (('k \<times> 'v) option \<times> ('k, 'v) htable) option" where
  "getNext t = (if m_pcurEntry t = NULL then Some (None, t)
     else do {
       e \<leftarrow> entry_at t (m_pcurEntry t);
       (r, t) \<leftarrow> searchNextEntry t;
       Some (Some (m_key e, h_value e), t) })"

definition resetSeq :: "('k, 'v) htable \<Rightarrow> ('k, 'v) htable" where
  "resetSeq t = t\<lparr>seqCur := seqHead t\<rparr>"

definition getNextSeq :: "('k, 'v) htable \<Rightarrow> (('k \<times> 'v) option \<times> ('k, 'v) htable) option" where
  "getNextSeq t = (if seqCur t = NULL then Some (None, t)
     else do {
       e \<leftarrow> entry_at t (seqCur t);
       nx \<leftarrow> get_s_next t (seqCur t);
       Some (Some (m_key e, h_value e), t\<lparr>seqCur := nx\<rparr>) })"

text \<open>\<open>remove\<close> treats the first entry of a chain and the others in two places, with the
  same effect: move the cursor off the entry, unlink it, free it.\<close>

definition remove_k :: "('k \<Rightarrow> 'k \<Rightarrow> bool) \<Rightarrow> ('k \<Rightarrow> UINT) \<Rightarrow> ('k, 'v) htable \<Rightarrow> 'k
    \<Rightarrow> (bool \<times> ('k, 'v) htable) option" where
  "remove_k cmp hash t k = (let index = GET_HASH_INDEX t (hash k) in
     case chain_find cmp k (m_table t ! index) of
       None \<Rightarrow> Some (False, t)
     | Some e \<Rightarrow> do {
         t \<leftarrow> (if h_id e = m_pcurEntry t then do { (r, t) \<leftarrow> searchNextEntry t; Some t } else Some t);
         let t = t\<lparr>m_table := (m_table t)[index := chain_remove cmp k (m_table t ! index)]\<rparr>;
         t \<leftarrow> delSequence t (h_id e);
         t \<leftarrow> delete_entry t (h_id e);
         Some (True, t\<lparr>m_entryCount := m_entryCount t - 1, m_modCount := m_modCount t + 1\<rparr>) })"

definition ht_size :: "('k, 'v) htable \<Rightarrow> nat" where
  "ht_size t = m_entryCount t"

definition isEmpty :: "('k, 'v) htable \<Rightarrow> bool" where
  "isEmpty t = (m_entryCount t = 0)"

text \<open>\<open>clear\<close>: pop and free the entries of bucket after bucket.\<close>

fun clear_chain :: "('k, 'v) htable \<Rightarrow> nat \<Rightarrow> ('k, 'v) hentry list \<Rightarrow> ('k, 'v) htable option" where
  "clear_chain t i [] = Some t"
| "clear_chain t i (e # es) = do {
     let t = t\<lparr>m_table := (m_table t)[i := es]\<rparr>;
     t \<leftarrow> delSequence t (h_id e);
     t \<leftarrow> delete_entry t (h_id e);
     clear_chain t i es }"

fun clear_from :: "('k, 'v) htable \<Rightarrow> nat list \<Rightarrow> ('k, 'v) htable option" where
  "clear_from t [] = Some t"
| "clear_from t (i # is) = do { t \<leftarrow> clear_chain t i (m_table t ! i); clear_from t is }"

definition ht_clear :: "('k, 'v) htable \<Rightarrow> ('k, 'v) htable option" where
  "ht_clear t = do {
     t \<leftarrow> clear_from t [0..<m_tableLength t];
     Some (t\<lparr>m_entryCount := 0, m_modCount := m_modCount t + 1, m_pcurEntry := NULL, m_uicurIndex := 0\<rparr>) }"

definition CHashTable_delete :: "('k, 'v) htable \<Rightarrow> ('k, 'v) htable option" where
  "CHashTable_delete t = do { t \<leftarrow> ht_clear t; Some (t\<lparr>m_table := [], m_tableLength := 0\<rparr>) }"

end
