(* ===== verification/HashTableSpec.thy ===== *)
theory HashTableSpec
  imports HashTable Interfaces "HOL-Library.Multiset"
begin

text \<open>
  Correctness of \<open>CHashTable\<close>. The specification is an association list in insertion
  order with distinct keys; every table operation is shown to act on it, through collisions
  and rehashing, and the enumeration over the sequence links returns it.
\<close>

section \<open>The insertion sequence\<close>

definition seq_ok :: "('k, 'v) htable \<Rightarrow> addr list \<Rightarrow> bool" where
  "seq_ok t xs \<longleftrightarrow> distinct xs \<and> NULL \<notin> set xs \<and>
     seqHead t = (if xs = [] then NULL else hd xs) \<and> seqTail t = (if xs = [] then NULL else last xs) \<and>
     (\<forall>i < length xs. m_s_next t (xs ! i) = (if Suc i < length xs then xs ! Suc i else NULL) \<and>
        m_s_prev t (xs ! i) = (if i = 0 then NULL else xs ! (i - 1)))"

text \<open>The parts of a table other than its sequence links.\<close>

definition same_core :: "('k, 'v) htable \<Rightarrow> ('k, 'v) htable \<Rightarrow> bool" where
  "same_core t t' \<longleftrightarrow> m_table t' = m_table t \<and> m_entryCount t' = m_entryCount t \<and>
     m_tableLength t' = m_tableLength t \<and> m_modCount t' = m_modCount t \<and> m_loadFactor t' = m_loadFactor t \<and>
     m_threshold t' = m_threshold t \<and> m_pcurEntry t' = m_pcurEntry t \<and> m_uicurIndex t' = m_uicurIndex t \<and>
     seqCur t' = seqCur t \<and> h_alloc t' = h_alloc t \<and> h_brk t' = h_brk t"

lemma nth_not_null: "NULL \<notin> set xs \<Longrightarrow> i < length xs \<Longrightarrow> xs ! i \<noteq> NULL"
  by (metis nth_mem)

lemma addSequence_ok:
  assumes ok: "seq_ok t xs" and p: "p \<notin> set xs" "p \<noteq> NULL" "h_alloc t p" and al: "\<forall>q\<in>set xs. h_alloc t q"
  shows "\<exists>t'. addSequence t p = Some t' \<and> seq_ok t' (xs @ [p]) \<and> same_core t t'"
proof (cases "xs = []")
  case True
  then show ?thesis using ok p
    by (auto simp: addSequence_def seq_ok_def set_s_next_def set_s_prev_def same_core_def)
next
  case False
  let ?l = "last xs" and ?n = "length xs"
  have l: "seqTail t = ?l" "seqHead t = hd xs" "?l \<in> set xs" "hd xs \<in> set xs" using ok False by (auto simp: seq_ok_def)
  then have nn: "seqTail t \<noteq> NULL" "seqHead t \<noteq> NULL" "?l \<noteq> p" "h_alloc t ?l" using ok p al unfolding seq_ok_def by metis+
  let ?t = "t\<lparr>m_s_next := ((m_s_next t)(p := NULL))(?l := p), m_s_prev := (m_s_prev t)(p := ?l), seqTail := p\<rparr>"
  have "addSequence t p = Some ?t"
    using nn l p by (simp add: addSequence_def set_s_next_def set_s_prev_def)
  moreover have "m_s_next ?t ((xs @ [p]) ! i) = (if Suc i < length (xs @ [p]) then (xs @ [p]) ! Suc i else NULL) \<and>
        m_s_prev ?t ((xs @ [p]) ! i) = (if i = 0 then NULL else (xs @ [p]) ! (i - 1))" if i: "i < length (xs @ [p])" for i
  proof (cases "i < ?n")
    case True
    then have "xs ! i \<noteq> p" using p by auto
    moreover have "xs ! i = ?l \<longleftrightarrow> Suc i = ?n"
      using ok False True nth_eq_iff_index_eq [of xs i "?n - 1"] by (auto simp: seq_ok_def last_conv_nth)
    ultimately show ?thesis using ok True by (auto simp: seq_ok_def nth_append)
  next
    case f: False
    then have "i = ?n" using i by simp
    then show ?thesis using False nn by (auto simp: nth_append last_conv_nth)
  qed
  then have "seq_ok ?t (xs @ [p])" using ok p False l by (auto simp: seq_ok_def)
  ultimately show ?thesis by (auto simp: same_core_def)
qed

lemma delSequence_exec:
  assumes "h_alloc t p" and "m_s_next t p = nx" "m_s_prev t p = pv"
    and "nx \<noteq> NULL \<Longrightarrow> h_alloc t nx" "pv \<noteq> NULL \<Longrightarrow> h_alloc t pv"
  shows "\<exists>t'. delSequence t p = Some t' \<and> same_core t t' \<and>
     m_s_next t' = (if pv = NULL then m_s_next t else (m_s_next t)(pv := nx)) \<and>
     m_s_prev t' = (if nx = NULL then m_s_prev t else (m_s_prev t)(nx := pv)) \<and>
     seqHead t' = (if pv = NULL then nx else seqHead t) \<and> seqTail t' = (if nx = NULL then pv else seqTail t)"
  using assms
  by (cases "nx = NULL"; cases "pv = NULL")
    (auto simp: delSequence_def get_s_next_def get_s_prev_def set_s_next_def set_s_prev_def same_core_def)

lemma delSequence_ok:
  assumes ok: "seq_ok t xs" and j: "j < length xs" and al: "\<forall>q\<in>set xs. h_alloc t q"
  shows "\<exists>t'. delSequence t (xs ! j) = Some t' \<and> seq_ok t' (take j xs @ drop (Suc j) xs) \<and> same_core t t'"
proof -
  let ?n = "length xs" and ?zs = "take j xs @ drop (Suc j) xs"
  define nx where "nx = (if Suc j < ?n then xs ! Suc j else NULL)"
  define pv where "pv = (if j = 0 then NULL else xs ! (j - 1))"
  have d: "distinct xs" "NULL \<notin> set xs" using ok by (auto simp: seq_ok_def)
  have link: "m_s_next t (xs ! i) = (if Suc i < ?n then xs ! Suc i else NULL)"
    "m_s_prev t (xs ! i) = (if i = 0 then NULL else xs ! (i - 1))" if "i < ?n" for i
    using ok that by (auto simp: seq_ok_def)
  have nz: "i < ?n \<Longrightarrow> xs ! i \<noteq> NULL" for i using nth_not_null [OF d(2)] .
  have pv0: "pv = NULL \<longleftrightarrow> j = 0" and nx0: "nx = NULL \<longleftrightarrow> Suc j = ?n" using nz j by (auto simp: pv_def nx_def)
  have "nx \<noteq> NULL \<Longrightarrow> h_alloc t nx" "pv \<noteq> NULL \<Longrightarrow> h_alloc t pv" using al j by (auto simp: nx_def pv_def)
  then obtain t' where t': "delSequence t (xs ! j) = Some t'" "same_core t t'"
     "m_s_next t' = (if pv = NULL then m_s_next t else (m_s_next t)(pv := nx))"
     "m_s_prev t' = (if nx = NULL then m_s_prev t else (m_s_prev t)(nx := pv))"
     "seqHead t' = (if pv = NULL then nx else seqHead t)" "seqTail t' = (if nx = NULL then pv else seqTail t)"
    using delSequence_exec [of t "xs ! j" nx pv] link [OF j] al j by (auto simp: nx_def pv_def)
  note zs = nth_without [OF j]
  have eq: "(xs ! a = xs ! b) = (a = b)" if "a < ?n" "b < ?n" for a b
    using nth_eq_iff_index_eq [OF d(1)] that by blast
  have nxt': "m_s_next t' (?zs ! i) = (if Suc i < ?n - 1 then ?zs ! Suc i else NULL)" if i: "i < ?n - 1" for i
  proof -
    define m where "m = (if i < j then i else Suc i)"
    have m: "m < ?n" "?zs ! i = xs ! m" "m \<noteq> j" using i j zs [OF i] by (auto simp: m_def)
    show ?thesis
    proof (cases "Suc m = j")
      case True
      then have "xs ! m = pv" by (auto simp: pv_def)
      then have "m_s_next t' (xs ! m) = nx" using t'(3) pv0 True by auto
      moreover have "Suc i = j" using True by (auto simp: m_def split: if_splits)
      ultimately show ?thesis using True m zs [of "Suc i"] i j by (auto simp: m_def nx_def)
    next
      case False
      then have "j \<noteq> 0 \<Longrightarrow> xs ! m \<noteq> xs ! (j - 1)" using eq [OF m(1), of "j - 1"] j by auto
      then have "m_s_next t' (xs ! m) = m_s_next t (xs ! m)" using t'(3) pv0 by (auto simp: pv_def)
      then show ?thesis using False m link [OF m(1)] zs [of "Suc i"] i j by (auto simp: m_def)
    qed
  qed
  have prv': "m_s_prev t' (?zs ! i) = (if i = 0 then NULL else ?zs ! (i - 1))" if i: "i < ?n - 1" for i
  proof -
    define m where "m = (if i < j then i else Suc i)"
    have m: "m < ?n" "?zs ! i = xs ! m" "m \<noteq> j" using i j zs [OF i] by (auto simp: m_def)
    show ?thesis
    proof (cases "m = Suc j")
      case True
      then have "xs ! m = nx" using m(1) by (simp add: nx_def)
      then have "m_s_prev t' (xs ! m) = pv" using t'(4) nx0 m(1) True by auto
      then show ?thesis using True m zs [of "i - 1"] i j by (auto simp: m_def pv_def split: if_splits)
    next
      case False
      then have "Suc j \<noteq> ?n \<Longrightarrow> xs ! m \<noteq> xs ! Suc j" using eq [OF m(1), of "Suc j"] j by auto
      then have "m_s_prev t' (xs ! m) = m_s_prev t (xs ! m)" using t'(4) nx0 j by (auto simp: nx_def)
      then show ?thesis using False m link [OF m(1)] zs [of "i - 1"] i j by (auto simp: m_def split: if_splits)
    qed
  qed
  have hd': "seqHead t' = (if ?zs = [] then NULL else hd ?zs)"
    using t'(5) pv0 ok j zs [of 0] by (cases "?n = 1") (auto simp: seq_ok_def nx_def hd_conv_nth split: if_splits)
  have tl': "seqTail t' = (if ?zs = [] then NULL else last ?zs)"
  proof (cases "?n = 1")
    case True
    then show ?thesis using t'(6) nx0 pv0 j by auto
  next
    case False
    then have ne: "?zs \<noteq> []" "?n - 2 < ?n - 1" "length ?zs - 1 = ?n - 2" using j by auto
    then have last: "last ?zs = (if ?n - 2 < j then xs ! (?n - 2) else xs ! Suc (?n - 2))"
      using zs [OF ne(2)] by (simp add: last_conv_nth)
    show ?thesis
    proof (cases "Suc j = ?n")
      case True
      then have "?n - 2 < j" "j - 1 = ?n - 2" using False by auto
      then show ?thesis using last ne t'(6) nx0 True by (auto simp: pv_def)
    next
      case f: False
      then have "\<not> ?n - 2 < j" "Suc (?n - 2) = ?n - 1" using False j by auto
      moreover have "last xs = xs ! (?n - 1)" using j by (cases xs rule: rev_cases) auto
      ultimately show ?thesis using last ne t'(6) nx0 f ok j by (auto simp: seq_ok_def)
    qed
  qed
  have "seq_ok t' ?zs"
    using nxt' prv' hd' tl' distinct_without(1) [OF d(1) j] d(2) j
    by (auto simp: seq_ok_def dest: in_set_takeD in_set_dropD)
  then show ?thesis using t'(1,2) by blast
qed

section \<open>Representation\<close>

definition trip :: "('k, 'v) hentry \<Rightarrow> addr \<times> 'k \<times> 'v" where
  "trip e = (h_id e, m_key e, h_value e)"

definition placed :: "('k \<Rightarrow> UINT) \<Rightarrow> nat \<Rightarrow> ('k, 'v) hentry list list \<Rightarrow> bool" where
  "placed hash len tab \<longleftrightarrow> (\<forall>i < length tab. \<forall>e \<in> set (tab ! i).
     m_hash e = hash (m_key e) \<and> unat (m_hash e) mod len = i)"

text \<open>Everything but the entry counter and the bucket cursor.\<close>

definition ht_core :: "('k \<Rightarrow> UINT) \<Rightarrow> ('k, 'v) htable \<Rightarrow> (addr \<times> 'k \<times> 'v) list \<Rightarrow> bool" where
  "ht_core hash t L \<longleftrightarrow> 8 \<le> m_tableLength t \<and> m_tableLength t \<le> HASHTABLE_MAX_LENGTH \<and>
     length (m_table t) = m_tableLength t \<and> placed hash (m_tableLength t) (m_table t) \<and>
     mset (map trip (concat (m_table t))) = mset L \<and> distinct (map (fst \<circ> snd) L) \<and> seq_ok t (map fst L) \<and>
     (\<forall>p. h_alloc t p \<longleftrightarrow> p \<in> fst ` set L) \<and> (\<forall>p \<in> fst ` set L. p < h_brk t) \<and> 0 < h_brk t \<and>
     m_threshold t = thresholdOf (m_tableLength t) (m_loadFactor t)"

definition cursor_ok :: "('k, 'v) htable \<Rightarrow> bool" where
  "cursor_ok t \<longleftrightarrow> m_pcurEntry t = NULL \<or>
     m_uicurIndex t < m_tableLength t \<and> m_pcurEntry t \<in> h_id ` set (m_table t ! m_uicurIndex t)"

definition ht_rep :: "('k \<Rightarrow> UINT) \<Rightarrow> ('k, 'v) htable \<Rightarrow> (addr \<times> 'k \<times> 'v) list \<Rightarrow> bool" where
  "ht_rep hash t L \<longleftrightarrow> ht_core hash t L \<and> m_entryCount t = length L \<and> cursor_ok t"

lemma mset_concat_update:
  assumes "i < length tab"
  shows "mset (concat (tab[i := b])) + mset (tab ! i) = mset (concat tab) + mset b"
proof -
  have "tab = take i tab @ tab ! i # drop (Suc i) tab" by (rule id_take_nth_drop [OF assms])
  then have "mset (concat tab) = mset (concat (take i tab)) + mset (tab ! i) + mset (concat (drop (Suc i) tab))"
    by (metis concat.simps(2) concat_append mset_append union_assoc)
  then show ?thesis using assms by (simp add: upd_conv_take_nth_drop)
qed

lemma core_index: "ht_core hash t L \<Longrightarrow> GET_HASH_INDEX t h < length (m_table t)"
  by (simp add: ht_core_def GET_HASH_INDEX_def)

lemma core_mset: "ht_core hash t L \<Longrightarrow> image_mset trip (mset (concat (m_table t))) = mset L"
  by (simp add: ht_core_def)

lemma core_set: "ht_core hash t L \<Longrightarrow> trip ` set (concat (m_table t)) = set L"
  using core_mset by (metis mset_map set_map set_mset_mset)

lemma core_ids: "ht_core hash t L \<Longrightarrow> h_id ` set (concat (m_table t)) = fst ` set L"
proof -
  assume "ht_core hash t L"
  then have "fst ` trip ` set (concat (m_table t)) = fst ` set L" using core_set by metis
  then show ?thesis by (simp add: image_image trip_def)
qed

lemma core_distinct_ids: "ht_core hash t L \<Longrightarrow> distinct (map h_id (concat (m_table t)))"
proof -
  assume core: "ht_core hash t L"
  have "mset (map h_id (concat (m_table t))) = mset (map fst L)"
    using arg_cong [OF core_mset [OF core], of "image_mset fst"] by (simp add: trip_def image_mset.compositionality comp_def)
  moreover have "distinct (map fst L)" using core by (simp add: ht_core_def seq_ok_def)
  ultimately show ?thesis by (metis mset_eq_imp_distinct_iff)
qed

lemma core_bucket:
  assumes core: "ht_core hash t L" and e: "e \<in> set (concat (m_table t))"
  shows "e \<in> set (m_table t ! GET_HASH_INDEX t (hash (m_key e)))"
proof -
  obtain i where "i < length (m_table t)" "e \<in> set (m_table t ! i)"
    using e by (metis UN_E in_set_conv_nth set_concat)
  moreover from this have "GET_HASH_INDEX t (hash (m_key e)) = i"
    using core unfolding ht_core_def placed_def GET_HASH_INDEX_def by metis
  ultimately show ?thesis by simp
qed

lemma in_concat_nth: "i < length tab \<Longrightarrow> e \<in> set (tab ! i) \<Longrightarrow> e \<in> set (concat tab)"
  by (auto intro: nth_mem)

text \<open>Overwriting the value of a key.\<close>

definition upd_val :: "'k \<Rightarrow> 'v \<Rightarrow> (addr \<times> 'k \<times> 'v) list \<Rightarrow> (addr \<times> 'k \<times> 'v) list" where
  "upd_val k v L = map (\<lambda>(p, k', w). (p, k', if k' = k then v else w)) L"

lemma upd_val_mset:
  assumes "distinct (map (fst \<circ> snd) L)" and "(p, k, w) \<in> set L"
  shows "mset (upd_val k v L) + {#(p, k, w)#} = mset L + {#(p, k, v)#}"
proof -
  obtain L1 L2 where L: "L = L1 @ (p, k, w) # L2" using assms(2) by (meson split_list)
  have "upd_val k v L1 = L1" "upd_val k v L2 = L2"
    using assms(1) by (auto simp: L upd_val_def map_idI split_beta) (force intro!: map_idI)+
  then show ?thesis by (simp add: L upd_val_def)
qed

section \<open>Tables with a sound key comparison\<close>

locale hash_keys =
  fixes cmp :: "'k \<Rightarrow> 'k \<Rightarrow> bool" and hash :: "'k \<Rightarrow> UINT"
  assumes cmp_iff: "cmp a b \<longleftrightarrow> a = b"
begin

lemma chain_find_Some: "chain_find cmp k es = Some e \<Longrightarrow> e \<in> set es \<and> m_key e = k"
  by (induction es) (auto simp: cmp_iff split: if_splits)

lemma chain_find_None: "chain_find cmp k es = None \<longleftrightarrow> (\<forall>e \<in> set es. m_key e \<noteq> k)"
  by (induction es) (auto simp: cmp_iff)

lemma chain_set_mset:
  "chain_find cmp k es = Some e \<Longrightarrow> mset (chain_set cmp k v es) + {#e#} = mset es + {#e\<lparr>h_value := v\<rparr>#}"
  by (induction es) (auto split: if_splits)

lemma chain_set_keys: "map h_id (chain_set cmp k v es) = map h_id es \<and> map m_key (chain_set cmp k v es) = map m_key es \<and>
    map m_hash (chain_set cmp k v es) = map m_hash es"
  by (induction es) auto

lemma chain_remove_split:
  "chain_find cmp k es = Some e \<Longrightarrow> \<exists>pre post. es = pre @ e # post \<and> chain_remove cmp k es = pre @ post"
proof (induction es)
  case (Cons x xs)
  show ?case
  proof (cases "cmp k (m_key x)")
    case False
    then obtain pre post where "xs = pre @ e # post" "chain_remove cmp k xs = pre @ post" using Cons by auto
    then have "x # xs = (x # pre) @ e # post \<and> chain_remove cmp k (x # xs) = (x # pre) @ post" using False by simp
    then show ?thesis by blast
  qed (use Cons in auto)
qed simp

lemma core_lookup:
  assumes core: "ht_core hash t L"
  shows "get_r cmp hash t k = map_of (map snd L) k"
proof -
  let ?b = "m_table t ! GET_HASH_INDEX t (hash k)"
  have d: "distinct (map fst (map snd L))" using core by (simp add: ht_core_def comp_def)
  show ?thesis
  proof (cases "chain_find cmp k ?b")
    case None
    have "k \<notin> fst ` set (map snd L)"
    proof
      assume "k \<in> fst ` set (map snd L)"
      then obtain p v where "(p, k, v) \<in> set L" by force
      then obtain e where e: "e \<in> set (concat (m_table t))" "m_key e = k"
        using core_set [OF core] by (force simp: trip_def)
      then have "e \<in> set ?b" using core_bucket [OF core e(1)] by simp
      then show False using None e(2) chain_find_None by blast
    qed
    then have "map_of (map snd L) k = None" by (rule map_of_eq_None_iff [THEN iffD2])
    moreover have "get_r cmp hash t k = None" using None by (simp add: get_r_def)
    ultimately show ?thesis by (simp only:)
  next
    case (Some e)
    then have e: "e \<in> set ?b" "m_key e = k" using chain_find_Some by blast+
    have "e \<in> set (concat (m_table t))" by (rule in_concat_nth [OF core_index [OF core] e(1)])
    then have "trip e \<in> set L" using core_set [OF core] by (metis imageI)
    then have "(k, h_value e) \<in> set (map snd L)" using e by (force simp: trip_def)
    then show ?thesis using Some map_of_is_SomeI [OF d] by (simp add: get_r_def)
  qed
qed


end

text \<open>Rehashing keeps the entries and places each by its stored hash.\<close>

lemma placed_push:
  assumes "placed hash len tab" "length tab = len" "m_hash e = hash (m_key e)" "i = unat (m_hash e) mod len"
  shows "placed hash len (tab[i := e # tab ! i])"
  using assms unfolding placed_def
  by (metis length_list_update nth_list_update_eq nth_list_update_neq set_ConsD)

lemma placed_sub:
  assumes "placed hash len tab" and b: "set b \<subseteq> set (tab ! i)"
  shows "placed hash len (tab[i := b])"
  unfolding placed_def
proof (intro allI impI ballI)
  fix m e assume m: "m < length (tab[i := b])" and e: "e \<in> set (tab[i := b] ! m)"
  then have "e \<in> set (tab ! m)" using b by (cases "i = m") auto
  then show "m_hash e = hash (m_key e) \<and> unat (m_hash e) mod len = m"
    using assms(1) m unfolding placed_def length_list_update by blast
qed

lemma rehash_fold:
  assumes "placed hash len tab" "length tab = len" "0 < len" "\<forall>e \<in> set es. m_hash e = hash (m_key e)"
  shows "placed hash len (fold (rehash_move len) es tab) \<and> length (fold (rehash_move len) es tab) = len \<and>
     mset (concat (fold (rehash_move len) es tab)) = mset es + mset (concat tab)"
  using assms
proof (induction es arbitrary: tab)
  case (Cons e es)
  let ?i = "unat (m_hash e) mod len"
  have i: "?i < length tab" using Cons.prems by simp
  have "placed hash len (rehash_move len e tab)" "length (rehash_move len e tab) = len"
    using placed_push [OF Cons.prems(1,2) _ refl, of e] Cons.prems by (auto simp: rehash_move_def Let_def)
  moreover have "mset (concat (rehash_move len e tab)) = add_mset e (mset (concat tab))"
    using mset_concat_update [OF i, of "e # tab ! ?i"] by (simp add: rehash_move_def Let_def)
  ultimately show ?case using Cons.IH [of "rehash_move len e tab"] Cons.prems by simp
qed simp

lemma core_hashes: "ht_core hash t L \<Longrightarrow> e \<in> set (concat (m_table t)) \<Longrightarrow> m_hash e = hash (m_key e)"
  unfolding ht_core_def placed_def by (metis UN_E in_set_conv_nth set_concat)

lemma rehash_core:
  fixes t :: "('k, 'v) htable"
  assumes core: "ht_core hash t L"
  shows "ht_core hash (rehash t) L" "m_entryCount (rehash t) = m_entryCount t" "m_pcurEntry (rehash t) = m_pcurEntry t"
    "h_brk (rehash t) = h_brk t"
proof -
  define len where "len = (if m_tableLength t * 2 \<ge> HASHTABLE_MAX_LENGTH then HASHTABLE_MAX_LENGTH else m_tableLength t * 2)"
  let ?tab = "fold (rehash_move len) (concat (m_table t)) (replicate len [])"
  have len: "8 \<le> len" "len \<le> HASHTABLE_MAX_LENGTH" using core by (auto simp: ht_core_def len_def)
  have "placed hash len (replicate len [] :: ('k, 'v) hentry list list)" by (auto simp: placed_def)
  moreover have "\<forall>e \<in> set (concat (m_table t)). m_hash e = hash (m_key e)" using core_hashes [OF core] by blast
  ultimately have F: "placed hash len ?tab" "length ?tab = len" "mset (concat ?tab) = mset (concat (m_table t))"
    using rehash_fold [of hash len "replicate len []" "concat (m_table t)"] len(1) by simp_all
  show "ht_core hash (rehash t) L"
  proof (cases "m_tableLength t \<ge> HASHTABLE_MAX_LENGTH")
    case False
    have "rehash t = t\<lparr>m_tableLength := len, m_threshold := thresholdOf len (m_loadFactor t),
         m_modCount := m_modCount t + 1, m_table := ?tab\<rparr>"
      using False by (simp add: rehash_def len_def Let_def)
    then show ?thesis using core F len by (simp add: ht_core_def seq_ok_def)
  qed (use core in \<open>simp add: rehash_def\<close>)
  show "m_entryCount (rehash t) = m_entryCount t" "m_pcurEntry (rehash t) = m_pcurEntry t" "h_brk (rehash t) = h_brk t"
    by (simp_all add: rehash_def Let_def)
qed

text \<open>A new entry at the front of its bucket and at the end of the sequence.\<close>

lemma ht_core_cong:
  assumes "ht_core hash t L" "m_table t' = m_table t" "m_tableLength t' = m_tableLength t" "m_loadFactor t' = m_loadFactor t"
    "m_threshold t' = m_threshold t" "m_s_next t' = m_s_next t" "m_s_prev t' = m_s_prev t" "seqHead t' = seqHead t"
    "seqTail t' = seqTail t" "h_alloc t' = h_alloc t" "h_brk t' = h_brk t"
  shows "ht_core hash t' L"
  using assms by (simp add: ht_core_def seq_ok_def)

lemma core_insert:
  assumes core: "ht_core hash t L" and k: "k \<notin> fst ` snd ` set L" and h: "h = hash k"
    and t1: "t1 = t\<lparr>h_alloc := (h_alloc t)(h_brk t := True), h_brk := Suc (h_brk t),
      m_table := (m_table t)[GET_HASH_INDEX t h := \<lparr>h_id = h_brk t, m_hash = h, m_key = k, h_value = v\<rparr> # m_table t ! GET_HASH_INDEX t h]\<rparr>"
  shows "\<exists>t2. addSequence t1 (h_brk t) = Some t2 \<and> ht_core hash t2 (L @ [(h_brk t, k, v)]) \<and> same_core t1 t2"
proof -
  let ?p = "h_brk t" and ?e = "\<lparr>h_id = h_brk t, m_hash = h, m_key = k, h_value = v\<rparr>"
  note i = core_index [OF core, of h]
  have sq: "seq_ok t1 (map fst L)" using core by (simp add: ht_core_def seq_ok_def t1)
  have al: "h_alloc t1 ?p" "\<forall>q \<in> set (map fst L). h_alloc t1 q" using core by (auto simp: ht_core_def t1)
  have p: "?p \<notin> set (map fst L)" "?p \<noteq> NULL" using core by (auto simp: ht_core_def)
  obtain t2 where t2: "addSequence t1 ?p = Some t2" "seq_ok t2 (map fst L @ [?p])" "same_core t1 t2"
    using addSequence_ok [OF sq p al] by blast
  have "placed hash (m_tableLength t) (m_table t1)"
    using placed_push [of hash "m_tableLength t" "m_table t" ?e "GET_HASH_INDEX t h"] core h
    by (simp add: ht_core_def t1 GET_HASH_INDEX_def)
  moreover have "mset (concat (m_table t1)) = add_mset ?e (mset (concat (m_table t)))"
    using mset_concat_update [OF i, of "?e # m_table t ! GET_HASH_INDEX t h"] by (simp add: t1)
  then have "mset (map trip (concat (m_table t1))) = mset (L @ [(?p, k, v)])"
    using core_mset [OF core] by (simp add: trip_def)
  moreover have "distinct (map (fst \<circ> snd) (L @ [(?p, k, v)]))" using core k by (auto simp: ht_core_def image_image)
  moreover have "m_tableLength t1 = m_tableLength t" "length (m_table t1) = length (m_table t)"
    "m_threshold t1 = m_threshold t" "m_loadFactor t1 = m_loadFactor t" by (simp_all add: t1)
  moreover have "(\<forall>q. h_alloc t1 q \<longleftrightarrow> q \<in> fst ` set (L @ [(?p, k, v)]))" "\<forall>q \<in> fst ` set (L @ [(?p, k, v)]). q < h_brk t1" "0 < h_brk t1"
    using core by (auto simp: ht_core_def t1 less_Suc_eq)
  ultimately have "ht_core hash t2 (L @ [(?p, k, v)])"
    using core t2(2,3) unfolding ht_core_def same_core_def by simp
  then show ?thesis using t2 by blast
qed

lemma put_new_ok:
  assumes rep: "ht_rep hash t L" and k: "k \<notin> fst ` snd ` set L"
  shows "\<exists>t' p. put_new t (hash k) k v = Some t' \<and> ht_rep hash t' (L @ [(p, k, v)])"
proof -
  let ?t = "t\<lparr>m_entryCount := m_entryCount t + 1, m_pcurEntry := NULL, m_uicurIndex := 0\<rparr>"
  define t0 where "t0 = (if m_entryCount ?t \<ge> m_threshold ?t then rehash ?t else ?t)"
  have "ht_core hash ?t L" using rep unfolding ht_rep_def by (auto intro: ht_core_cong)
  then have core: "ht_core hash t0 L" and f: "m_entryCount t0 = length L + 1" "m_pcurEntry t0 = NULL"
    using rehash_core [of hash ?t L] rep by (auto simp: t0_def ht_rep_def)
  obtain t2 where t2: "addSequence (t0\<lparr>h_alloc := (h_alloc t0)(h_brk t0 := True), h_brk := Suc (h_brk t0),
      m_table := (m_table t0)[GET_HASH_INDEX t0 (hash k) := \<lparr>h_id = h_brk t0, m_hash = hash k, m_key = k, h_value = v\<rparr>
        # m_table t0 ! GET_HASH_INDEX t0 (hash k)]\<rparr>) (h_brk t0) = Some t2"
    "ht_core hash t2 (L @ [(h_brk t0, k, v)])" "m_entryCount t2 = length L + 1" "m_pcurEntry t2 = NULL"
    using core_insert [OF core k refl refl, of v] f by (auto simp: same_core_def)
  have "put_new t (hash k) k v = Some t2" using t2(1) by (simp only: put_new_def Let_def t0_def)
  then show ?thesis using t2 by (auto simp: ht_rep_def cursor_ok_def)
qed


lemma core_nonnull: "ht_core hash t L \<Longrightarrow> p \<in> fst ` set L \<Longrightarrow> p \<noteq> NULL"
  unfolding ht_core_def seq_ok_def by (metis set_map)

lemma filter_mset_one:
  "distinct (map fst L) \<Longrightarrow> x \<in> set L \<Longrightarrow> mset (filter (\<lambda>y. fst y \<noteq> fst x) L) + {#x#} = mset L"
proof (induction L)
  case (Cons a L)
  show ?case
  proof (cases "a = x")
    case True
    then have "filter (\<lambda>y. fst y \<noteq> fst x) L = L" using Cons.prems by (intro filter_True) (auto simp: image_iff)
    then show ?thesis using True by simp
  next
    case False
    then have "x \<in> set L" "fst a \<noteq> fst x" using Cons.prems by (auto simp: image_iff)
    then show ?thesis using Cons by simp
  qed
qed simp

text \<open>Unlinking and freeing one entry.\<close>

lemma core_free:
  assumes core: "ht_core hash t L" and i: "i < m_tableLength t" and b: "m_table t ! i = pre @ e # post"
  shows "\<exists>t2 t3. delSequence (t\<lparr>m_table := (m_table t)[i := pre @ post]\<rparr>) (h_id e) = Some t2 \<and>
     delete_entry t2 (h_id e) = Some t3 \<and> ht_core hash t3 (filter (\<lambda>x. fst x \<noteq> h_id e) L) \<and>
     m_table t3 = (m_table t)[i := pre @ post] \<and> m_entryCount t3 = m_entryCount t \<and> m_pcurEntry t3 = m_pcurEntry t \<and>
     m_uicurIndex t3 = m_uicurIndex t \<and> m_tableLength t3 = m_tableLength t \<and> seqCur t3 = seqCur t"
proof -
  let ?t1 = "t\<lparr>m_table := (m_table t)[i := pre @ post]\<rparr>" and ?p = "h_id e"
  have il: "i < length (m_table t)" using core i by (simp add: ht_core_def)
  have e: "e \<in> set (concat (m_table t))" using in_concat_nth [OF il] b by auto
  then have "trip e \<in> set L" using core_set [OF core] by (metis imageI)
  then obtain j where j: "j < length L" "L ! j = trip e" by (metis in_set_conv_nth)
  have d: "distinct (map fst L)" using core by (simp add: ht_core_def seq_ok_def)
  have mj: "map fst L ! j = ?p" using j by (simp add: trip_def)
  have sq: "seq_ok ?t1 (map fst L)" "\<forall>q \<in> set (map fst L). h_alloc ?t1 q" using core by (simp_all add: ht_core_def seq_ok_def)
  obtain t2 where t2: "delSequence ?t1 ?p = Some t2" "seq_ok t2 (take j (map fst L) @ drop (Suc j) (map fst L))" "same_core ?t1 t2"
    using delSequence_ok [OF sq(1) _ sq(2), of j] j mj by auto
  have "take j (map fst L) @ drop (Suc j) (map fst L) = map fst (filter (\<lambda>x. fst x \<noteq> ?p) L)"
    using distinct_without(3) [OF d, of j] j mj by (simp add: filter_map comp_def)
  then have seq: "seq_ok t2 (map fst (filter (\<lambda>x. fst x \<noteq> ?p) L))" using t2(2) by simp
  have "?p \<in> fst ` set L" using imageI [OF \<open>trip e \<in> set L\<close>, of fst] by (simp add: trip_def)
  then have al: "h_alloc t2 ?p" using t2(3) core by (simp add: same_core_def ht_core_def)
  let ?t3 = "t2\<lparr>h_alloc := (h_alloc t2)(?p := False)\<rparr>"
  have t3: "delete_entry t2 ?p = Some ?t3" using al by (simp add: delete_entry_def)
  have "mset (concat ((m_table t)[i := pre @ post])) + {#e#} = mset (concat (m_table t))"
    using mset_concat_update [OF il, of "pre @ post"] b by (simp add: ac_simps)
  then have "image_mset trip (mset (concat ((m_table t)[i := pre @ post]))) + {#trip e#} = mset L"
    using core_mset [OF core] by (metis image_mset_single image_mset_union)
  moreover have "mset (filter (\<lambda>x. fst x \<noteq> ?p) L) + {#trip e#} = mset L"
    using filter_mset_one [OF d \<open>trip e \<in> set L\<close>] by (simp add: trip_def)
  ultimately have "image_mset trip (mset (concat ((m_table t)[i := pre @ post]))) + {#trip e#} =
      mset (filter (\<lambda>x. fst x \<noteq> ?p) L) + {#trip e#}" by simp
  from add_right_imp_eq [OF this]
  have "mset (map trip (concat (m_table ?t3))) = mset (filter (\<lambda>x. fst x \<noteq> ?p) L)"
    using t2(3) by (simp add: same_core_def)
  moreover have "placed hash (m_tableLength t) ((m_table t)[i := pre @ post])"
    by (rule placed_sub) (use core b il in \<open>auto simp: ht_core_def\<close>)
  moreover have "distinct (map (fst \<circ> snd) (filter (\<lambda>x. fst x \<noteq> ?p) L))"
    using core by (simp add: ht_core_def distinct_map_filter)
  ultimately have "ht_core hash ?t3 (filter (\<lambda>x. fst x \<noteq> ?p) L)"
    using core seq t2(3) unfolding ht_core_def by (auto simp: same_core_def seq_ok_def)
  then show ?thesis using t2 t3 by (auto simp: same_core_def)
qed


text \<open>The bucket cursor.\<close>

lemma chain_after_split: "p \<in> h_id ` set es \<Longrightarrow> \<exists>pre e post. es = pre @ e # post \<and> h_id e = p \<and> chain_after p es = Some post"
proof (induction es)
  case (Cons x xs)
  show ?case
  proof (cases "h_id x = p")
    case False
    then obtain pre e post where "xs = pre @ e # post" "h_id e = p" "chain_after p xs = Some post" using Cons by auto
    then have "x # xs = (x # pre) @ e # post \<and> h_id e = p \<and> chain_after p (x # xs) = Some post" using False by simp
    then show ?thesis by blast
  qed force
qed simp

lemma first_bucket_Some:
  "first_bucket t i = Some j \<Longrightarrow> i \<le> j \<and> j < m_tableLength t \<and> m_table t ! j \<noteq> [] \<and> (\<forall>m. i \<le> m \<and> m < j \<longrightarrow> m_table t ! m = [])"
  unfolding first_bucket_def find_Some_iff
  by (auto simp: less_diff_conv) (metis add_less_cancel_left le_add_diff_inverse)

lemma first_bucket_None:
  "first_bucket t i = None \<Longrightarrow> i \<le> m \<Longrightarrow> m < m_tableLength t \<Longrightarrow> m_table t ! m = []"
  by (auto simp: first_bucket_def find_None_iff)

lemma core_same_id:
  assumes core: "ht_core hash t L" and "i < m_tableLength t" "j < m_tableLength t"
    and "a \<in> set (m_table t ! i)" "b \<in> set (m_table t ! j)" "h_id a = h_id b"
  shows "a = b \<and> i = j"
proof -
  have len: "length (m_table t) = m_tableLength t" using core by (simp add: ht_core_def)
  have "a \<in> set (concat (m_table t))" "b \<in> set (concat (m_table t))"
    using assms len in_concat_nth by metis+
  then have "a = b" using core_distinct_ids [OF core] assms(6) by (metis distinct_map inj_onD)
  moreover have "unat (m_hash a) mod m_tableLength t = i" "unat (m_hash b) mod m_tableLength t = j"
    using assms len unfolding ht_core_def placed_def by metis+
  ultimately show ?thesis by simp
qed

text \<open>The entries from the cursor on, in enumeration order.\<close>

definition rest :: "('k, 'v) htable \<Rightarrow> ('k, 'v) hentry list" where
  "rest t = (if m_pcurEntry t = NULL then []
     else dropWhile (\<lambda>e. h_id e \<noteq> m_pcurEntry t) (m_table t ! m_uicurIndex t) @ concat (drop (Suc (m_uicurIndex t)) (m_table t)))"

lemma concat_drop_first:
  "length (m_table t) = m_tableLength t \<Longrightarrow> concat (drop i (m_table t)) =
    (case first_bucket t i of None \<Rightarrow> [] | Some j \<Rightarrow> m_table t ! j @ concat (drop (Suc j) (m_table t)))"
proof (induction "m_tableLength t - i" arbitrary: i)
  case 0
  then show ?case by (simp add: first_bucket_def)
next
  case (Suc n)
  then have i: "i < length (m_table t)" by simp
  have d: "drop i (m_table t) = m_table t ! i # drop (Suc i) (m_table t)" using i by (simp add: Cons_nth_drop_Suc)
  have "[i..<m_tableLength t] = i # [Suc i..<m_tableLength t]" using i Suc.prems by (simp add: upt_conv_Cons)
  then have "first_bucket t i = (if m_table t ! i \<noteq> [] then Some i else first_bucket t (Suc i))"
    by (simp add: first_bucket_def)
  then show ?case using d Suc.hyps(1) [of "Suc i"] Suc.hyps(2) Suc.prems by auto
qed

lemma rest_at_first:
  assumes core: "ht_core hash t L"
  shows "(case first_bucket t i of
      Some j \<Rightarrow> rest (t\<lparr>m_pcurEntry := h_id (hd (m_table t ! j)), m_uicurIndex := j\<rparr>) = concat (drop i (m_table t)) \<and>
        cursor_ok (t\<lparr>m_pcurEntry := h_id (hd (m_table t ! j)), m_uicurIndex := j\<rparr>)
    | None \<Rightarrow> concat (drop i (m_table t)) = [])"
proof (cases "first_bucket t i")
  case None
  then show ?thesis using concat_drop_first [of t i] core by (simp add: ht_core_def)
next
  case (Some j)
  note F = first_bucket_Some [OF Some]
  have len: "length (m_table t) = m_tableLength t" using core by (simp add: ht_core_def)
  obtain e es where b: "m_table t ! j = e # es" using F by (cases "m_table t ! j") auto
  have "e \<in> set (concat (m_table t))" using in_concat_nth [of j "m_table t" e] F len b by simp
  then have "h_id e \<in> fst ` set L" using core_ids [OF core] by (metis imageI)
  then have "h_id e \<noteq> NULL" using core_nonnull [OF core] by metis
  then show ?thesis using Some F b concat_drop_first [OF len, of i] by (simp add: rest_def cursor_ok_def)
qed

lemma dropWhile_at: "es = pre @ e # post \<Longrightarrow> distinct (map h_id es) \<Longrightarrow> dropWhile (\<lambda>x. h_id x \<noteq> h_id e) es = e # post"
  by (induction pre arbitrary: es) auto


lemma core_bucket_ids: "ht_core hash t L \<Longrightarrow> i < m_tableLength t \<Longrightarrow> distinct (map h_id (m_table t ! i))"
proof -
  assume core: "ht_core hash t L" and i: "i < m_tableLength t"
  have "i < length (m_table t)" using core i by (simp add: ht_core_def)
  then have "concat (m_table t) = concat (take i (m_table t)) @ m_table t ! i @ concat (drop (Suc i) (m_table t))"
    by (metis concat.simps(2) concat_append id_take_nth_drop)
  then show ?thesis using core_distinct_ids [OF core] by simp
qed

text \<open>\<open>searchNextEntry\<close> drops one entry from the rest and never stays on it.\<close>

lemma searchNextEntry_ok:
  assumes core: "ht_core hash t L" and cur: "cursor_ok t" and nz: "m_pcurEntry t \<noteq> NULL"
  shows "\<exists>e p u r. e \<in> set (m_table t ! m_uicurIndex t) \<and> h_id e = m_pcurEntry t \<and>
     searchNextEntry t = Some (r, t\<lparr>m_pcurEntry := p, m_uicurIndex := u\<rparr>) \<and>
     cursor_ok (t\<lparr>m_pcurEntry := p, m_uicurIndex := u\<rparr>) \<and> p \<noteq> m_pcurEntry t \<and>
     rest t = e # rest (t\<lparr>m_pcurEntry := p, m_uicurIndex := u\<rparr>)"
proof -
  let ?i = "m_uicurIndex t"
  have i: "?i < m_tableLength t" "m_pcurEntry t \<in> h_id ` set (m_table t ! ?i)" using cur nz by (auto simp: cursor_ok_def)
  obtain pre e post where b: "m_table t ! ?i = pre @ e # post" "h_id e = m_pcurEntry t"
    "chain_after (m_pcurEntry t) (m_table t ! ?i) = Some post" using chain_after_split [OF i(2)] by blast
  have d: "distinct (map h_id (m_table t ! ?i))" by (rule core_bucket_ids [OF core i(1)])
  have rest: "rest t = e # post @ concat (drop (Suc ?i) (m_table t))"
    using dropWhile_at [OF b(1) d] b(2) nz by (simp add: rest_def)
  have e: "e \<in> set (m_table t ! ?i)" using b(1) by simp
  have nonnull: "x \<in> set (m_table t ! j) \<Longrightarrow> j < m_tableLength t \<Longrightarrow> h_id x \<noteq> NULL" for x j
    using core_nonnull [OF core] core_ids [OF core] in_concat_nth core unfolding ht_core_def by (metis imageI)
  show ?thesis
  proof (cases post)
    case (Cons x xs)
    have x: "x \<in> set (m_table t ! ?i)" "h_id x \<noteq> h_id e" using b(1) d Cons by auto
    let ?t = "t\<lparr>m_pcurEntry := h_id x, m_uicurIndex := ?i\<rparr>"
    have eq: "t\<lparr>m_pcurEntry := h_id x\<rparr> = ?t" by simp
    have "searchNextEntry t = Some (True, ?t)" using b(3) Cons by (simp add: searchNextEntry_def)
    moreover have "m_table t ! ?i = (pre @ [e]) @ x # xs" using b(1) Cons by simp
    from dropWhile_at [OF this d] have "rest ?t = post @ concat (drop (Suc ?i) (m_table t))"
      using nonnull [OF x(1) i(1)] Cons by (simp add: rest_def)
    moreover have "cursor_ok ?t" using x(1) i(1) by (auto simp: cursor_ok_def)
    ultimately show ?thesis using e b(2) rest x(2) by metis
  next
    case Nil
    show ?thesis
    proof (cases "first_bucket t (Suc ?i)")
      case None
      let ?t = "t\<lparr>m_pcurEntry := NULL, m_uicurIndex := 0\<rparr>"
      have "searchNextEntry t = Some (False, ?t)" using b(3) Nil None by (simp add: searchNextEntry_def)
      moreover have "rest t = e # rest ?t" using rest Nil rest_at_first [OF core, of "Suc ?i"] None by (simp add: rest_def)
      moreover have "cursor_ok ?t" by (simp add: cursor_ok_def)
      ultimately show ?thesis using e b(2) nz by metis
    next
      case (Some j)
      let ?x = "hd (m_table t ! j)" and ?t = "t\<lparr>m_pcurEntry := h_id (hd (m_table t ! j)), m_uicurIndex := j\<rparr>"
      note F = first_bucket_Some [OF Some]
      have "h_id ?x \<noteq> h_id e" using core_same_id [OF core _ i(1) _ e, of j ?x] F by auto
      moreover have "searchNextEntry t = Some (True, ?t)" using b(3) Nil Some by (simp add: searchNextEntry_def)
      moreover have "rest t = e # rest ?t" "cursor_ok ?t" using rest Nil rest_at_first [OF core, of "Suc ?i"] Some by simp_all
      ultimately show ?thesis using e b(2) by metis
    qed
  qed
qed

context hash_keys begin

lemma chain_set_origin:
  "e' \<in> set (chain_set cmp k v es) \<Longrightarrow> \<exists>e \<in> set es. m_hash e' = m_hash e \<and> m_key e' = m_key e \<and> h_id e' = h_id e"
  by (induction es) (auto split: if_splits)

lemma key_in_iff:
  assumes core: "ht_core hash t L"
  shows "chain_find cmp k (m_table t ! GET_HASH_INDEX t (hash k)) = None \<longleftrightarrow> k \<notin> fst ` snd ` set L"
proof -
  have "(chain_find cmp k (m_table t ! GET_HASH_INDEX t (hash k)) = None) = (get_r cmp hash t k = None)"
    by (simp add: get_r_def)
  also have "\<dots> = (k \<notin> fst ` set (map snd L))" unfolding core_lookup [OF core] by (rule map_of_eq_None_iff)
  finally show ?thesis by simp
qed

lemma containsKey_ok: "ht_core hash t L \<Longrightarrow> containsKey cmp hash t k = (k \<in> fst ` snd ` set L)"
  by (simp add: containsKey_def key_in_iff)

lemma found_entry:
  assumes core: "ht_core hash t L" and f: "chain_find cmp k (m_table t ! GET_HASH_INDEX t (hash k)) = Some e"
  shows "(h_id e, k, h_value e) \<in> set L" "map_of (map snd L) k = Some (h_value e)"
proof -
  have e: "e \<in> set (m_table t ! GET_HASH_INDEX t (hash k))" "m_key e = k" using chain_find_Some [OF f] by auto
  have "e \<in> set (concat (m_table t))" by (rule in_concat_nth [OF core_index [OF core] e(1)])
  then show "(h_id e, k, h_value e) \<in> set L" using core_set [OF core] e(2) by (metis imageI trip_def)
  show "map_of (map snd L) k = Some (h_value e)" using core_lookup [OF core, of k] f by (simp add: get_r_def)
qed

lemma overwrite_ok:
  assumes rep: "ht_rep hash t L" and f: "chain_find cmp k (m_table t ! GET_HASH_INDEX t (hash k)) = Some e"
  shows "ht_rep hash (t\<lparr>m_modCount := n, m_table := (m_table t)[GET_HASH_INDEX t (hash k) :=
     chain_set cmp k v (m_table t ! GET_HASH_INDEX t (hash k))]\<rparr>) (upd_val k v L)"
proof -
  let ?i = "GET_HASH_INDEX t (hash k)" and ?b = "m_table t ! GET_HASH_INDEX t (hash k)"
  let ?tab = "(m_table t)[?i := chain_set cmp k v ?b]"
  have core: "ht_core hash t L" using rep by (simp add: ht_rep_def)
  note i = core_index [OF core, of "hash k"]
  have e: "m_key e = k" using chain_find_Some [OF f] by simp
  have te: "trip e = (h_id e, k, h_value e)" "trip (e\<lparr>h_value := v\<rparr>) = (h_id e, k, v)" using e by (simp_all add: trip_def)
  have inL: "(h_id e, k, h_value e) \<in> set L" by (rule found_entry(1) [OF core f])
  have "mset (concat ?tab) + {#e#} = mset (concat (m_table t)) + {#e\<lparr>h_value := v\<rparr>#}"
  proof -
    have "mset (concat ?tab) + {#e#} + mset ?b = mset (concat (m_table t)) + (mset (chain_set cmp k v ?b) + {#e#})"
      using mset_concat_update [OF i, of "chain_set cmp k v ?b"] by (simp add: ac_simps)
    also have "\<dots> = mset (concat (m_table t)) + {#e\<lparr>h_value := v\<rparr>#} + mset ?b"
      unfolding chain_set_mset [OF f] by (simp add: ac_simps)
    finally show ?thesis by (rule add_right_imp_eq)
  qed
  from arg_cong [OF this, of "image_mset trip"]
  have "image_mset trip (mset (concat ?tab)) + {#(h_id e, k, h_value e)#} = mset L + {#(h_id e, k, v)#}"
    using core_mset [OF core] te by simp
  moreover have "mset (upd_val k v L) + {#(h_id e, k, h_value e)#} = mset L + {#(h_id e, k, v)#}"
    by (rule upd_val_mset [OF _ inL]) (use core in \<open>simp add: ht_core_def\<close>)
  ultimately have "image_mset trip (mset (concat ?tab)) + {#(h_id e, k, h_value e)#} =
      mset (upd_val k v L) + {#(h_id e, k, h_value e)#}" by simp
  from add_right_imp_eq [OF this] have M: "mset (map trip (concat ?tab)) = mset (upd_val k v L)" by simp
  have P: "placed hash (m_tableLength t) ?tab"
    unfolding placed_def
  proof (intro allI impI ballI)
    fix m e' assume m: "m < length ?tab" and e': "e' \<in> set (?tab ! m)"
    then obtain e0 where "e0 \<in> set (m_table t ! m)" "m_hash e' = m_hash e0" "m_key e' = m_key e0"
      using chain_set_origin [of e' k v ?b] i by (cases "?i = m") auto
    moreover have "placed hash (m_tableLength t) (m_table t)" using core by (simp add: ht_core_def)
    ultimately show "m_hash e' = hash (m_key e') \<and> unat (m_hash e') mod m_tableLength t = m"
      using m unfolding placed_def length_list_update by metis
  qed
  have F: "map fst (upd_val k v L) = map fst L" "map (fst \<circ> snd) (upd_val k v L) = map (fst \<circ> snd) L"
    by (simp_all add: upd_val_def split_beta)
  then have S: "fst ` set (upd_val k v L) = fst ` set L" by (metis set_map)
  have "cursor_ok (t\<lparr>m_modCount := n, m_table := ?tab\<rparr>)"
    using rep i chain_set_keys [of k v ?b] unfolding ht_rep_def cursor_ok_def
    by (cases "m_uicurIndex t = ?i") (simp_all, metis image_set)
  then show ?thesis
    using rep M P F S by (simp add: ht_rep_def ht_core_def seq_ok_def) (simp add: upd_val_def)
qed

lemma put_r_ok:
  assumes rep: "ht_rep hash t L"
  shows "\<exists>t' L'. put_r cmp hash t k v = Some (case map_of (map snd L) k of None \<Rightarrow> v | Some w \<Rightarrow> w, t') \<and>
     put_v cmp hash t k v = Some t' \<and> ht_rep hash t' L' \<and>
     map snd L' = (if k \<in> fst ` snd ` set L then map snd (upd_val k v L) else map snd L @ [(k, v)])"
proof -
  have core: "ht_core hash t L" using rep by (simp add: ht_rep_def)
  let ?t = "t\<lparr>m_modCount := m_modCount t + 1\<rparr>"
  have ix: "GET_HASH_INDEX ?t h = GET_HASH_INDEX t h" for h by (simp add: GET_HASH_INDEX_def)
  show ?thesis
  proof (cases "chain_find cmp k (m_table t ! GET_HASH_INDEX t (hash k))")
    case (Some e)
    have "k \<in> fst ` snd ` set L" using key_in_iff [OF core, of k] Some by auto
    then show ?thesis
      using Some found_entry(2) [OF core Some] overwrite_ok [OF rep Some, where n = "m_modCount t + 1" and v = v]
      by (auto simp: put_r_def put_v_def Let_def)
  next
    case None
    then have k: "k \<notin> fst ` snd ` set L" using key_in_iff [OF core, of k] by simp
    then have "map_of (map snd L) k = None" by (metis map_of_eq_None_iff set_map)
    moreover have "ht_rep hash ?t L" using rep unfolding ht_rep_def cursor_ok_def by (auto intro: ht_core_cong)
    from put_new_ok [OF this k, of v] obtain t' p where "put_new ?t (hash k) k v = Some t'" "ht_rep hash t' (L @ [(p, k, v)])"
      by blast
    ultimately show ?thesis using None k by (auto simp: put_r_def put_v_def Let_def)
  qed
qed


lemma cursor_without:
  assumes cur: "cursor_ok t" and i: "i < length (m_table t)" "length (m_table t) = m_tableLength t"
    and b: "m_table t ! i = pre @ e # post" and ne: "m_pcurEntry t \<noteq> h_id e"
    and t': "m_table t' = (m_table t)[i := pre @ post]" "m_pcurEntry t' = m_pcurEntry t" "m_uicurIndex t' = m_uicurIndex t"
      "m_tableLength t' = m_tableLength t"
  shows "cursor_ok t'"
  using cur ne t' i b unfolding cursor_ok_def by (cases "m_uicurIndex t = i") auto

lemma remove_ok:
  assumes rep: "ht_rep hash t L"
  shows "\<exists>t' L'. remove_k cmp hash t k = Some (k \<in> fst ` snd ` set L, t') \<and> ht_rep hash t' L' \<and>
     map snd L' = filter (\<lambda>x. fst x \<noteq> k) (map snd L)"
proof -
  have core: "ht_core hash t L" and cur: "cursor_ok t" using rep by (auto simp: ht_rep_def)
  let ?i = "GET_HASH_INDEX t (hash k)" and ?b = "m_table t ! GET_HASH_INDEX t (hash k)"
  show ?thesis
  proof (cases "chain_find cmp k ?b")
    case None
    then have k: "k \<notin> fst ` snd ` set L" using key_in_iff [OF core, of k] by simp
    then have "filter (\<lambda>x. fst x \<noteq> k) (map snd L) = map snd L" by (intro filter_True) force
    then show ?thesis using None k rep by (auto simp: remove_k_def Let_def)
  next
    case (Some e)
    have k: "k \<in> fst ` snd ` set L" using key_in_iff [OF core, of k] Some by auto
    obtain pre post where b: "?b = pre @ e # post" "chain_remove cmp k ?b = pre @ post"
      using chain_remove_split [OF Some] by blast
    have e: "m_key e = k" using chain_find_Some [OF Some] by simp
    have i: "?i < length (m_table t)" "length (m_table t) = m_tableLength t" using core_index [OF core] core by (auto simp: ht_core_def)
    have inL: "(h_id e, k, h_value e) \<in> set L" by (rule found_entry(1) [OF core Some])
    then have nz: "h_id e \<noteq> NULL" using core_nonnull [OF core] by (metis fst_conv imageI)
    obtain p u where s: "(if h_id e = m_pcurEntry t then do { (r, t) \<leftarrow> searchNextEntry t; Some t } else Some t) = Some (t\<lparr>m_pcurEntry := p, m_uicurIndex := u\<rparr>)"
      "cursor_ok (t\<lparr>m_pcurEntry := p, m_uicurIndex := u\<rparr>)" "p \<noteq> h_id e"
    proof (cases "h_id e = m_pcurEntry t")
      case True
      then show thesis using searchNextEntry_ok [OF core cur] nz that by auto
    next
      case False
      then show thesis using that [of "m_uicurIndex t" "m_pcurEntry t"] cur by simp
    qed
    let ?s = "t\<lparr>m_pcurEntry := p, m_uicurIndex := u\<rparr>"
    have cs: "ht_core hash ?s L" using core by (auto intro: ht_core_cong)
    have "?i < m_tableLength ?s" "m_table ?s ! ?i = pre @ e # post" using i b by auto
    from core_free [OF cs this] obtain t2 t3 where t3: "delSequence (?s\<lparr>m_table := (m_table ?s)[?i := pre @ post]\<rparr>) (h_id e) = Some t2"
      "delete_entry t2 (h_id e) = Some t3" "ht_core hash t3 (filter (\<lambda>x. fst x \<noteq> h_id e) L)"
      "m_table t3 = (m_table t)[?i := pre @ post]" "m_entryCount t3 = m_entryCount t" "m_pcurEntry t3 = p"
      "m_uicurIndex t3 = u" "m_tableLength t3 = m_tableLength t" by auto
    let ?t = "t3\<lparr>m_entryCount := m_entryCount t3 - 1, m_modCount := m_modCount t3 + 1\<rparr>" and ?L = "filter (\<lambda>x. fst x \<noteq> h_id e) L"
    have d: "distinct (map fst L)" "distinct (map (fst \<circ> snd) L)" using core by (auto simp: ht_core_def seq_ok_def)
    have "add_mset (h_id e, k, h_value e) (mset ?L) = mset L" using filter_mset_one [OF d(1) inL] by simp
    then have "Suc (length ?L) = length L" by (metis size_add_mset size_mset)
    then have "m_entryCount ?t = length ?L" using t3(5) rep by (simp add: ht_rep_def)
    moreover have "cursor_ok ?t"
      by (rule cursor_without [OF s(2), of ?i pre e post]) (use i b s(3) t3 in auto)
    moreover have "ht_core hash ?t ?L" using t3(3) by (auto intro: ht_core_cong)
    ultimately have "ht_rep hash ?t ?L" by (simp add: ht_rep_def)
    moreover have "remove_k cmp hash t k = Some (True, ?t)"
      using Some s(1) t3(1,2) b(2) by (simp add: remove_k_def Let_def GET_HASH_INDEX_def)
    moreover have "map snd ?L = filter (\<lambda>x. fst x \<noteq> k) (map snd L)"
    proof -
      have "fst x \<noteq> h_id e \<longleftrightarrow> fst (snd x) \<noteq> k" if "x \<in> set L" for x
        using that inL d by (auto simp: distinct_map inj_on_def) fastforce+
      then have "?L = filter (\<lambda>x. fst (snd x) \<noteq> k) L" by (intro filter_cong) auto
      then show ?thesis by (simp add: filter_map comp_def)
    qed
    ultimately show ?thesis using k by auto
  qed
qed


text \<open>\<open>clear\<close> frees chain after chain.\<close>

lemma clear_chain_ok:
  assumes "ht_core hash t L" and "i < m_tableLength t" and "m_table t ! i = es"
  shows "\<exists>t' L'. clear_chain t i es = Some t' \<and> ht_core hash t' L' \<and> m_table t' = (m_table t)[i := []] \<and>
     m_tableLength t' = m_tableLength t"
  using assms
proof (induction es arbitrary: t L)
  case Nil
  then have "i < length (m_table t)" by (simp add: ht_core_def)
  then have "(m_table t)[i := []] = m_table t" using Nil.prems(3) by (metis list_update_id)
  then show ?case using Nil by auto
next
  case (Cons e es)
  have il: "i < length (m_table t)" using Cons.prems by (simp add: ht_core_def)
  obtain t2 t3 where t3: "delSequence (t\<lparr>m_table := (m_table t)[i := es]\<rparr>) (h_id e) = Some t2"
    "delete_entry t2 (h_id e) = Some t3" "ht_core hash t3 (filter (\<lambda>x. fst x \<noteq> h_id e) L)"
    "m_table t3 = (m_table t)[i := es]" "m_tableLength t3 = m_tableLength t"
    using core_free [OF Cons.prems(1,2), of "[]" e es] Cons.prems(3) by auto
  have "i < m_tableLength t3" "m_table t3 ! i = es" using Cons.prems(2) t3 il by auto
  from Cons.IH [OF t3(3) this] t3 show ?case by auto
qed

lemma clear_from_ok:
  assumes "ht_core hash t L" and "\<forall>i \<in> set is. i < m_tableLength t"
  shows "\<exists>t' L'. clear_from t is = Some t' \<and> ht_core hash t' L' \<and> m_tableLength t' = m_tableLength t \<and>
     (\<forall>i < m_tableLength t. m_table t' ! i = (if i \<in> set is then [] else m_table t ! i))"
  using assms
proof (induction "is" arbitrary: t L)
  case (Cons i "is")
  have i: "i < m_tableLength t" using Cons.prems by simp
  obtain t1 L1 where t1: "clear_chain t i (m_table t ! i) = Some t1" "ht_core hash t1 L1" "m_table t1 = (m_table t)[i := []]"
    "m_tableLength t1 = m_tableLength t" using clear_chain_ok [OF Cons.prems(1) i refl] by blast
  have len: "length (m_table t) = m_tableLength t" using Cons.prems by (simp add: ht_core_def)
  have "\<forall>i \<in> set is. i < m_tableLength t1" using Cons.prems t1 by simp
  from Cons.IH [OF t1(2) this] t1 len show ?case by (auto simp: nth_list_update)
qed auto

lemma clear_ok:
  assumes rep: "ht_rep hash t L"
  shows "\<exists>t'. ht_clear t = Some t' \<and> ht_rep hash t' []"
proof -
  have core: "ht_core hash t L" using rep by (simp add: ht_rep_def)
  obtain t1 L1 where t1: "clear_from t [0..<m_tableLength t] = Some t1" "ht_core hash t1 L1" "m_tableLength t1 = m_tableLength t"
    "\<forall>i < m_tableLength t. m_table t1 ! i = []" using clear_from_ok [OF core, of "[0..<m_tableLength t]"] by auto
  have "concat (m_table t1) = []"
    using t1 unfolding ht_core_def concat_eq_Nil_conv by (metis in_set_conv_nth)
  then have "L1 = []" using core_mset [OF t1(2)] by (metis image_mset_empty mset.simps(1) mset_zero_iff)
  then have "ht_core hash (t1\<lparr>m_entryCount := 0, m_modCount := m_modCount t1 + 1, m_pcurEntry := NULL, m_uicurIndex := 0\<rparr>) []"
    using t1(2) by (auto intro: ht_core_cong)
  then show ?thesis using t1(1) by (simp add: ht_clear_def ht_rep_def cursor_ok_def)
qed

text \<open>Enumeration by buckets visits every entry once.\<close>

lemma getNext_ok:
  assumes rep: "ht_rep hash t L"
  shows "case rest t of [] \<Rightarrow> getNext t = Some (None, t)
    | e # es \<Rightarrow> \<exists>t'. getNext t = Some (Some (m_key e, h_value e), t') \<and> ht_rep hash t' L \<and> rest t' = es"
proof (cases "m_pcurEntry t = NULL")
  case True
  then show ?thesis by (simp add: rest_def getNext_def)
next
  case False
  have core: "ht_core hash t L" and cur: "cursor_ok t" using rep by (auto simp: ht_rep_def)
  obtain e p u r where e: "e \<in> set (m_table t ! m_uicurIndex t)" "h_id e = m_pcurEntry t"
     "searchNextEntry t = Some (r, t\<lparr>m_pcurEntry := p, m_uicurIndex := u\<rparr>)"
     "cursor_ok (t\<lparr>m_pcurEntry := p, m_uicurIndex := u\<rparr>)"
     "rest t = e # rest (t\<lparr>m_pcurEntry := p, m_uicurIndex := u\<rparr>)"
    using searchNextEntry_ok [OF core cur False] by blast
  have len: "length (m_table t) = m_tableLength t" using core by (simp add: ht_core_def)
  have ec: "e \<in> set (concat (m_table t))" using in_concat_nth e(1) cur False len by (auto simp: cursor_ok_def)
  have "entry_at t (m_pcurEntry t) = Some e"
  proof -
    obtain x where x: "entry_at t (m_pcurEntry t) = Some x"
      using ec e(2) by (cases "entry_at t (m_pcurEntry t)") (auto simp: entry_at_def find_None_iff)
    then have "x \<in> set (concat (m_table t))" "h_id x = m_pcurEntry t" unfolding entry_at_def find_Some_iff by (metis nth_mem)+
    then have "x = e" using core_distinct_ids [OF core] ec e(2) by (metis distinct_map inj_onD)
    then show ?thesis using x by simp
  qed
  moreover have "ht_rep hash (t\<lparr>m_pcurEntry := p, m_uicurIndex := u\<rparr>) L"
    using rep e(4) unfolding ht_rep_def by (auto intro: ht_core_cong)
  ultimately show ?thesis using False e(3,5) by (simp add: getNext_def)
qed

lemma reset_ok:
  assumes rep: "ht_rep hash t L"
  shows "ht_rep hash (snd (ht_reset t)) L" "rest (snd (ht_reset t)) = concat (m_table t)"
proof -
  have core: "ht_core hash t L" using rep by (simp add: ht_rep_def)
  note R = rest_at_first [OF core, of 0]
  show "rest (snd (ht_reset t)) = concat (m_table t)"
    using R by (cases "first_bucket t 0") (simp_all add: ht_reset_def rest_def)
  show "ht_rep hash (snd (ht_reset t)) L"
    using R rep by (cases "first_bucket t 0") (auto simp: ht_reset_def ht_rep_def cursor_ok_def intro: ht_core_cong)
qed


text \<open>Enumeration along the sequence links.\<close>

lemma entry_at_id:
  assumes core: "ht_core hash t L" and e: "e \<in> set (concat (m_table t))"
  shows "entry_at t (h_id e) = Some e"
proof -
  obtain x where x: "entry_at t (h_id e) = Some x"
    using e by (cases "entry_at t (h_id e)") (auto simp: entry_at_def find_None_iff)
  then have "x \<in> set (concat (m_table t))" "h_id x = h_id e" unfolding entry_at_def find_Some_iff by (metis nth_mem)+
  then have "x = e" using core_distinct_ids [OF core] e by (metis distinct_map inj_onD)
  then show ?thesis using x by simp
qed

lemma getNextSeq_ok:
  assumes rep: "ht_rep hash t L" and i: "i < length L" and c: "seqCur t = fst (L ! i)"
  shows "getNextSeq t = Some (Some (snd (L ! i)), t\<lparr>seqCur := (if Suc i < length L then fst (L ! Suc i) else NULL)\<rparr>)"
proof -
  have core: "ht_core hash t L" using rep by (simp add: ht_rep_def)
  have "L ! i \<in> trip ` set (concat (m_table t))" using core_set [OF core] i by (metis nth_mem)
  then obtain e where e: "e \<in> set (concat (m_table t))" "L ! i = trip e" by blast
  have "fst (L ! i) \<in> fst ` set L" using i by simp
  then have "seqCur t \<noteq> NULL" "h_alloc t (seqCur t)" using core_nonnull [OF core] core c by (auto simp: ht_core_def)
  moreover have "m_s_next t (map fst L ! i) = (if Suc i < length (map fst L) then map fst L ! Suc i else NULL)"
    using core i unfolding ht_core_def seq_ok_def by (metis length_map)
  then have "m_s_next t (seqCur t) = (if Suc i < length L then fst (L ! Suc i) else NULL)"
    using i c by simp
  moreover have "entry_at t (seqCur t) = Some e" using entry_at_id [OF core e(1)] c e(2) by (simp add: trip_def)
  ultimately show ?thesis using e(2) by (simp add: getNextSeq_def get_s_next_def trip_def)
qed

end

partial_function (option) seq_collect :: "('k, 'v) htable \<Rightarrow> (('k \<times> 'v) list \<times> ('k, 'v) htable) option" where
  "seq_collect t = do {
     (r, t) \<leftarrow> getNextSeq t;
     case r of None \<Rightarrow> Some ([], t)
     | Some kv \<Rightarrow> do { (kvs, t) \<leftarrow> seq_collect t; Some (kv # kvs, t) } }"

partial_function (option) enum_collect :: "('k, 'v) htable \<Rightarrow> (('k \<times> 'v) list \<times> ('k, 'v) htable) option" where
  "enum_collect t = do {
     (r, t) \<leftarrow> getNext t;
     case r of None \<Rightarrow> Some ([], t)
     | Some kv \<Rightarrow> do { (kvs, t) \<leftarrow> enum_collect t; Some (kv # kvs, t) } }"

declare seq_collect.simps [code] enum_collect.simps [code]

context hash_keys begin

lemma rep_seqCur: "ht_rep hash (t\<lparr>seqCur := p\<rparr>) L = ht_rep hash t L"
  by (simp add: ht_rep_def ht_core_def seq_ok_def cursor_ok_def)

lemma seq_collect_ok:
  assumes "ht_rep hash t L" and "i \<le> length L" and "seqCur t = (if i < length L then fst (L ! i) else NULL)"
  shows "seq_collect t = Some (map snd (drop i L), t\<lparr>seqCur := NULL\<rparr>)"
  using assms
proof (induction "length L - i" arbitrary: t i)
  case 0
  then show ?case by (simp add: seq_collect.simps [of t] getNextSeq_def)
next
  case (Suc n)
  then have i: "i < length L" by simp
  let ?t = "t\<lparr>seqCur := (if Suc i < length L then fst (L ! Suc i) else NULL)\<rparr>"
  have "getNextSeq t = Some (Some (snd (L ! i)), ?t)" using getNextSeq_ok [OF Suc.prems(1) i] Suc.prems(3) i by simp
  moreover have "seq_collect ?t = Some (map snd (drop (Suc i) L), ?t\<lparr>seqCur := NULL\<rparr>)"
    by (rule Suc.hyps(1)) (use Suc i in \<open>auto simp: rep_seqCur\<close>)
  ultimately show ?case using i by (simp add: seq_collect.simps [of t] Cons_nth_drop_Suc [symmetric])
qed

lemma enum_collect_ok:
  assumes "ht_rep hash t L"
  shows "\<exists>t'. enum_collect t = Some (map (\<lambda>e. (m_key e, h_value e)) (rest t), t') \<and> ht_rep hash t' L"
  using assms
proof (induction "rest t" arbitrary: t)
  case Nil
  then have "getNext t = Some (None, t)" using getNext_ok [OF Nil.prems] by (simp flip: Nil.hyps)
  then show ?case using Nil by (simp add: enum_collect.simps [of t] flip: Nil.hyps)
next
  case (Cons e es)
  then obtain t1 where t1: "getNext t = Some (Some (m_key e, h_value e), t1)" "ht_rep hash t1 L" "rest t1 = es"
    using getNext_ok [OF Cons.prems] by (auto simp flip: Cons.hyps)
  then show ?case using Cons.hyps(1) [of t1] Cons.hyps(2) by (auto simp: enum_collect.simps [of t] simp flip: Cons.hyps(2))
qed

end

section \<open>The interface, and its providers\<close>

lemma map_of_upd_val:
  "k \<in> fst ` snd ` set L \<Longrightarrow> map_of (map snd (upd_val k v L)) = (map_of (map snd L))(k \<mapsto> v)"
proof (induction L)
  case (Cons x L)
  obtain p k' w where x: "x = (p, k', w)" by (cases x)
  show ?case
  proof (cases "k \<in> fst ` snd ` set L")
    case True
    then show ?thesis using Cons x by (auto simp: upd_val_def fun_eq_iff)
  next
    case False
    then have "k' = k" using Cons.prems x by simp
    moreover have "upd_val k v L = L" using False by (auto simp: upd_val_def intro!: map_idI) force
    ultimately show ?thesis using x by (auto simp: upd_val_def fun_eq_iff)
  qed
qed simp

lemma map_of_snoc: "k \<notin> fst ` set xs \<Longrightarrow> map_of (xs @ [(k, v)]) = (map_of xs)(k \<mapsto> v)"
  by (induction xs) (auto simp: fun_eq_iff)

lemma map_of_without: "map_of (filter (\<lambda>x. fst x \<noteq> k) xs) = (map_of xs)(k := None)"
  by (induction xs) (auto simp: fun_eq_iff)

lemma placed_empty: "placed hash l (replicate n [])"
  by (simp add: placed_def)

lemma new_rep_ok: "ht_rep hash (initTable len lf) []"
  by (simp add: ht_rep_def ht_core_def initTable_def Let_def seq_ok_def cursor_ok_def placed_empty)

sublocale hash_keys \<subseteq> kv_store "\<lambda>t. \<exists>L. ht_rep hash t L" "get_r cmp hash" "put_v cmp hash" "remove_k cmp hash" CHashTable_new
proof
  show "\<exists>L. ht_rep hash CHashTable_new L" using new_rep_ok unfolding CHashTable_new_def by blast
  have "ht_core hash CHashTable_new []" using new_rep_ok unfolding CHashTable_new_def ht_rep_def by blast
  from core_lookup [OF this] show "get_r cmp hash CHashTable_new k = None" for k by simp
next
  fix t :: "('k, 'a) htable" and k v
  assume "\<exists>L. ht_rep hash t L"
  then obtain L where rep: "ht_rep hash t L" by blast
  have l: "get_r cmp hash t = map_of (map snd L)" using core_lookup rep by (auto simp: ht_rep_def)
  obtain t' L' where t': "put_v cmp hash t k v = Some t'" "ht_rep hash t' L'"
    "map snd L' = (if k \<in> fst ` snd ` set L then map snd (upd_val k v L) else map snd L @ [(k, v)])"
    using put_r_ok [OF rep, of k v] by blast
  have "get_r cmp hash t' = map_of (map snd L')" using core_lookup t'(2) by (auto simp: ht_rep_def)
  also have "\<dots> = (map_of (map snd L))(k \<mapsto> v)"
    using t'(3) map_of_upd_val [of k L v] map_of_snoc [of k "map snd L" v] by auto
  finally show "\<exists>t'. put_v cmp hash t k v = Some t' \<and> (\<exists>L. ht_rep hash t' L) \<and> get_r cmp hash t' = (get_r cmp hash t)(k \<mapsto> v)"
    using t' l by auto
  obtain t2 L2 where t2: "remove_k cmp hash t k = Some (k \<in> fst ` snd ` set L, t2)" "ht_rep hash t2 L2"
    "map snd L2 = filter (\<lambda>x. fst x \<noteq> k) (map snd L)" using remove_ok [OF rep, of k] by blast
  have "get_r cmp hash t2 = map_of (map snd L2)" using core_lookup t2(2) by (auto simp: ht_rep_def)
  also have "\<dots> = (get_r cmp hash t)(k := None)" unfolding t2(3) l by (rule map_of_without)
  finally have "get_r cmp hash t2 = (get_r cmp hash t)(k := None)" .
  moreover have "(get_r cmp hash t k \<noteq> None) = (k \<in> fst ` snd ` set L)"
    unfolding l by (metis map_of_eq_None_iff set_map)
  ultimately show "\<exists>t'. remove_k cmp hash t k = Some (get_r cmp hash t k \<noteq> None, t') \<and> (\<exists>L. ht_rep hash t' L) \<and>
      get_r cmp hash t' = (get_r cmp hash t)(k := None)"
    using t2 by auto
qed

interpretation uint_keys: hash_keys CompareKey GetHash
  by unfold_locales (simp add: CompareKey_def)

interpretation str_keys: hash_keys CompareKey GetHash_str
  by unfold_locales (simp add: CompareKey_def)

text \<open>The load bound: an insertion that reaches the threshold doubles the table.\<close>

definition load_ok :: "('k, 'v) htable \<Rightarrow> bool" where
  "load_ok t = (m_entryCount t < m_threshold t \<or> m_tableLength t = HASHTABLE_MAX_LENGTH)"


lemma thresholdOf_double:
  assumes "0 < lf" shows "2 * thresholdOf len lf \<le> thresholdOf (len * 2) lf"
proof -
  let ?x = "of_nat len * lf"
  have "2 * \<lfloor>?x\<rfloor> \<le> \<lfloor>?x + ?x\<rfloor>" using le_floor_add [of ?x ?x] by linarith
  moreover have "?x + ?x = of_nat (len * 2) * lf" by (simp add: algebra_simps)
  moreover have "0 \<le> \<lfloor>?x\<rfloor>" using assms by simp
  ultimately show ?thesis unfolding thresholdOf_def by (metis nat_mono nat_mult_distrib nat_numeral zero_le_numeral)
qed

lemma put_new_fields:
  assumes "put_new t h k v = Some t'"
  shows "m_entryCount t' = m_entryCount t + 1" "m_loadFactor t' = m_loadFactor t"
    "m_threshold t' = m_threshold (if m_entryCount t + 1 \<ge> m_threshold t then rehash t else t)"
    "m_tableLength t' = m_tableLength (if m_entryCount t + 1 \<ge> m_threshold t then rehash t else t)"
proof -
  have add: "m_entryCount y = m_entryCount x \<and> m_loadFactor y = m_loadFactor x \<and> m_threshold y = m_threshold x \<and>
      m_tableLength y = m_tableLength x" if "addSequence x p = Some y" for x y :: "('a, 'b) htable" and p
    using that by (auto simp: addSequence_def set_s_next_def set_s_prev_def split: if_splits)
  note A = add [OF assms [unfolded put_new_def Let_def]]
  show "m_entryCount t' = m_entryCount t + 1" "m_loadFactor t' = m_loadFactor t"
    "m_threshold t' = m_threshold (if m_entryCount t + 1 \<ge> m_threshold t then rehash t else t)"
    "m_tableLength t' = m_tableLength (if m_entryCount t + 1 \<ge> m_threshold t then rehash t else t)"
    using A by (auto simp: rehash_def Let_def split: if_splits)
qed

lemma rehash_load:
  assumes "m_threshold t = thresholdOf (m_tableLength t) (m_loadFactor t)" "0 < m_loadFactor t"
    and "m_entryCount t < m_threshold t" "m_tableLength t < HASHTABLE_MAX_LENGTH"
  shows "m_entryCount t + 1 < m_threshold (rehash t) \<or> m_tableLength (rehash t) = HASHTABLE_MAX_LENGTH"
  using assms thresholdOf_double [of "m_loadFactor t" "m_tableLength t"] by (auto simp: rehash_def Let_def)


lemma put_v_load:
  assumes t: "m_threshold t = thresholdOf (m_tableLength t) (m_loadFactor t)" "0 < m_loadFactor t" "m_tableLength t \<le> HASHTABLE_MAX_LENGTH"
    and load: "load_ok t" and put: "put_v cmp hash t k v = Some t'"
  shows "load_ok t' \<and> m_loadFactor t' = m_loadFactor t"
proof (cases "chain_find cmp k (m_table t ! GET_HASH_INDEX t (hash k))")
  case (Some e)
  then show ?thesis using put load by (auto simp: put_v_def Let_def load_ok_def)
next
  case None
  let ?t = "t\<lparr>m_modCount := m_modCount t + 1\<rparr>"
  have p: "put_new ?t (hash k) k v = Some t'" using put None by (simp add: put_v_def Let_def)
  note F = put_new_fields [OF p]
  have mx: "m_tableLength t = HASHTABLE_MAX_LENGTH \<Longrightarrow> rehash ?t = ?t" by (simp add: rehash_def)
  have "m_entryCount ?t + 1 < m_threshold (rehash ?t) \<or> m_tableLength (rehash ?t) = HASHTABLE_MAX_LENGTH" if "m_tableLength t \<noteq> HASHTABLE_MAX_LENGTH"
    using rehash_load [of ?t] t load that by (auto simp: load_ok_def)
  then show ?thesis using F load mx unfolding load_ok_def
    by (cases "m_tableLength t = HASHTABLE_MAX_LENGTH") (auto split: if_splits)
qed

lemma put_v_shape:
  assumes "put_v cmp hash t k v = Some t'"
  shows "(m_threshold t = thresholdOf (m_tableLength t) (m_loadFactor t) \<longrightarrow> m_threshold t' = thresholdOf (m_tableLength t') (m_loadFactor t')) \<and>
    (m_tableLength t \<le> HASHTABLE_MAX_LENGTH \<longrightarrow> m_tableLength t' \<le> HASHTABLE_MAX_LENGTH)"
proof (cases "chain_find cmp k (m_table t ! GET_HASH_INDEX t (hash k))")
  case (Some e)
  then show ?thesis using assms by (auto simp: put_v_def Let_def)
next
  case None
  let ?t = "t\<lparr>m_modCount := m_modCount t + 1\<rparr>"
  have "put_new ?t (hash k) k v = Some t'" using assms None by (simp add: put_v_def Let_def)
  from put_new_fields [OF this] show ?thesis by (auto simp: rehash_def Let_def split: if_splits)
qed

section \<open>Call sequences\<close>

datatype ('k, 'v) ht_op = HPut 'k 'v | HGet 'k | HContains 'k | HRemove 'k | HSize | HClear | HSeq

text \<open>Results: a number or truth value, and the values delivered.\<close>

type_synonym ('k, 'v) ht_out = "nat \<times> 'v list \<times> ('k \<times> 'v) list"

fun al_op :: "('k, 'v) ht_op \<Rightarrow> ('k \<times> 'v) list \<Rightarrow> ('k, 'v) ht_out \<times> ('k \<times> 'v) list" where
  "al_op (HPut k v) m = (case map_of m k of
       None \<Rightarrow> ((0, [v], []), m @ [(k, v)])
     | Some w \<Rightarrow> ((0, [w], []), map (\<lambda>(k', w'). (k', if k' = k then v else w')) m))"
| "al_op (HGet k) m = (case map_of m k of None \<Rightarrow> ((0, [], []), m) | Some w \<Rightarrow> ((1, [w], []), m))"
| "al_op (HContains k) m = ((of_bool (map_of m k \<noteq> None), [], []), m)"
| "al_op (HRemove k) m = ((of_bool (map_of m k \<noteq> None), [], []), filter (\<lambda>x. fst x \<noteq> k) m)"
| "al_op HSize m = ((length m, [], []), m)"
| "al_op HClear m = ((0, [], []), [])"
| "al_op HSeq m = ((0, [], m), m)"

fun ht_exec :: "('k \<Rightarrow> 'k \<Rightarrow> bool) \<Rightarrow> ('k \<Rightarrow> UINT) \<Rightarrow> ('k, 'v) ht_op \<Rightarrow> ('k, 'v) htable
    \<Rightarrow> (('k, 'v) ht_out \<times> ('k, 'v) htable) option" where
  "ht_exec cmp hash (HPut k v) t = do { (w, t) \<leftarrow> put_r cmp hash t k v; Some ((0, [w], []), t) }"
| "ht_exec cmp hash (HGet k) t = Some (case get_r cmp hash t k of None \<Rightarrow> (0, [], []) | Some w \<Rightarrow> (1, [w], []), t)"
| "ht_exec cmp hash (HContains k) t = Some ((of_bool (containsKey cmp hash t k), [], []), t)"
| "ht_exec cmp hash (HRemove k) t = do { (b, t) \<leftarrow> remove_k cmp hash t k; Some ((of_bool b, [], []), t) }"
| "ht_exec cmp hash HSize t = Some ((ht_size t, [], []), t)"
| "ht_exec cmp hash HClear t = do { t \<leftarrow> ht_clear t; Some ((0, [], []), t) }"
| "ht_exec cmp hash HSeq t = do { (kvs, t) \<leftarrow> seq_collect (resetSeq t); Some ((0, [], kvs), t) }"

fun ht_run :: "('k \<Rightarrow> 'k \<Rightarrow> bool) \<Rightarrow> ('k \<Rightarrow> UINT) \<Rightarrow> ('k, 'v) ht_op list \<Rightarrow> ('k, 'v) htable
    \<Rightarrow> (('k, 'v) ht_out list \<times> ('k, 'v) htable) option" where
  "ht_run cmp hash [] t = Some ([], t)"
| "ht_run cmp hash (p # ps) t = do {
     (r, t) \<leftarrow> ht_exec cmp hash p t; (rs, t) \<leftarrow> ht_run cmp hash ps t; Some (r # rs, t) }"

fun al_run :: "('k, 'v) ht_op list \<Rightarrow> ('k \<times> 'v) list \<Rightarrow> ('k, 'v) ht_out list \<times> ('k \<times> 'v) list" where
  "al_run [] m = ([], m)"
| "al_run (p # ps) m = (let (r, m) = al_op p m; (rs, m) = al_run ps m in (r # rs, m))"

lemma map_snd_upd_val: "map snd (upd_val k v L) = map (\<lambda>(k', w'). (k', if k' = k then v else w')) (map snd L)"
  by (auto simp: upd_val_def)

context hash_keys begin

lemma exec_refines:
  assumes rep: "ht_rep hash t L"
  shows "\<exists>t' L'. ht_exec cmp hash p t = Some (fst (al_op p (map snd L)), t') \<and> ht_rep hash t' L' \<and>
     map snd L' = snd (al_op p (map snd L))"
proof -
  have core: "ht_core hash t L" and cnt: "m_entryCount t = length L" using rep by (auto simp: ht_rep_def)
  have dom: "(map_of (map snd L) k = None) = (k \<notin> fst ` snd ` set L)" for k by (metis map_of_eq_None_iff set_map)
  show ?thesis
  proof (cases p)
    case (HPut k v)
    then show ?thesis using put_r_ok [OF rep, of k v] dom [of k]
      by (cases "map_of (map snd L) k") (auto simp: map_snd_upd_val simp del: map_map)
  next
    case (HGet k)
    then show ?thesis using core_lookup [OF core, of k] rep by (cases "map_of (map snd L) k") auto
  next
    case (HContains k)
    then show ?thesis using containsKey_ok [OF core, of k] rep dom [of k] by auto
  next
    case (HRemove k)
    have "(k \<in> fst ` snd ` set L) = (map_of (map snd L) k \<noteq> None)" using dom [of k] by simp
    with remove_ok [OF rep, of k] obtain t' L' where t': "remove_k cmp hash t k = Some (map_of (map snd L) k \<noteq> None, t')"
      "ht_rep hash t' L'" "map snd L' = filter (\<lambda>x. fst x \<noteq> k) (map snd L)" by (auto simp del: map_of_eq_None_iff not_None_eq)
    then show ?thesis using HRemove by (intro exI [of _ t'] exI [of _ L']) (simp del: not_None_eq)
  next
    case HClear
    then show ?thesis using clear_ok [OF rep] by auto
  next
    case HSeq
    have "seqCur (resetSeq t) = (if 0 < length L then fst (L ! 0) else NULL)"
      using core by (auto simp: resetSeq_def ht_core_def seq_ok_def hd_conv_nth)
    from seq_collect_ok [OF _ _ this] rep show ?thesis using HSeq by (auto simp: resetSeq_def rep_seqCur)
  qed (use rep cnt in \<open>auto simp: ht_size_def\<close>)
qed

lemma run_refines_al:
  "ht_rep hash t L \<Longrightarrow> \<exists>t' L'. ht_run cmp hash ps t = Some (fst (al_run ps (map snd L)), t') \<and> ht_rep hash t' L' \<and>
     map snd L' = snd (al_run ps (map snd L))"
proof (induction ps arbitrary: t L)
  case (Cons p ps)
  obtain t1 L1 where t1: "ht_exec cmp hash p t = Some (fst (al_op p (map snd L)), t1)" "ht_rep hash t1 L1"
    "map snd L1 = snd (al_op p (map snd L))" using exec_refines [OF Cons.prems] by blast
  from Cons.IH [OF t1(2)] show ?case using t1 by (auto simp: Let_def split_beta)
qed auto

end

lemma remove_k_seqCur:
  assumes "remove_k cmp hash t k = Some (b, t')" shows "seqCur t' = seqCur t"
proof -
  have s: "seqCur y = seqCur x" if "searchNextEntry x = Some (r, y)" for x y :: "('a, 'b) htable" and r
    using that by (cases "chain_after (m_pcurEntry x) (m_table x ! m_uicurIndex x)"; cases "the (chain_after (m_pcurEntry x) (m_table x ! m_uicurIndex x))")
      (auto simp: searchNextEntry_def split: option.splits)
  have d: "seqCur y = seqCur x" if "delSequence x p = Some y" for x y :: "('a, 'b) htable" and p
    using that by (auto simp: delSequence_def set_s_next_def set_s_prev_def bind_Some_iff split: if_splits)
  show ?thesis using assms
    by (auto simp: remove_k_def Let_def bind_Some_iff delete_entry_def split: option.splits if_splits dest!: s d)
qed

text \<open>A sequence of insertions by \<open>put\<close>.\<close>

fun fill :: "('k \<Rightarrow> 'k \<Rightarrow> bool) \<Rightarrow> ('k \<Rightarrow> UINT) \<Rightarrow> ('k \<times> 'v) list \<Rightarrow> ('k, 'v) htable \<Rightarrow> ('k, 'v) htable option" where
  "fill cmp hash [] t = Some t"
| "fill cmp hash ((k, v) # kvs) t = do { t \<leftarrow> put_v cmp hash t k v; fill cmp hash kvs t }"

lemma thresholdOf_pos:
  assumes "8 \<le> len" "HASHTABLE_MIN_LOADFACTOR \<le> lf" shows "0 < thresholdOf len lf"
proof -
  have "8 * HASHTABLE_MIN_LOADFACTOR \<le> of_nat len * lf" using assms by (intro mult_mono) auto
  then have "1 \<le> of_nat len * lf" by simp
  then show ?thesis by (simp add: thresholdOf_def)
qed

definition shape_ok :: "('k, 'v) htable \<Rightarrow> bool" where
  "shape_ok t = (m_threshold t = thresholdOf (m_tableLength t) (m_loadFactor t) \<and> 0 < m_loadFactor t \<and>
     m_tableLength t \<le> HASHTABLE_MAX_LENGTH)"

lemma new_load: "load_ok (initTable len lf) \<and> shape_ok (initTable len lf)"
  by (auto simp: load_ok_def shape_ok_def initTable_def Let_def intro!: thresholdOf_pos)

context hash_keys begin

lemma fill_load:
  "ht_rep hash t L \<Longrightarrow> load_ok t \<and> shape_ok t \<Longrightarrow> \<exists>t'. fill cmp hash kvs t = Some t' \<and> load_ok t' \<and>
     m_threshold t' = thresholdOf (m_tableLength t') (m_loadFactor t')"
proof (induction kvs arbitrary: t L)
  case (Cons kv kvs)
  obtain k v where kv: "kv = (k, v)" by (cases kv)
  obtain t1 L1 where t1: "put_v cmp hash t k v = Some t1" "ht_rep hash t1 L1" using put_r_ok [OF Cons.prems(1), of k v] by blast
  have "load_ok t1 \<and> shape_ok t1" using put_v_load [OF _ _ _ _ t1(1)] put_v_shape [OF t1(1)] Cons.prems(2) by (simp add: shape_ok_def)
  from Cons.IH [OF t1(2) this] show ?case using t1(1) kv by simp
qed (simp add: shape_ok_def)

end

section \<open>Properties\<close>

text \<open>Property C14. Any sequence of puts, gets, removals, clears and sequence enumerations on a
  table with integer keys, of any requested length and load factor, behaves as an association
  list in insertion order with distinct keys, through collisions and rehashing, and never
  follows a stale pointer.\<close>

theorem ht_run_refines:
  fixes ps :: "(UINT, 'v) ht_op list"
  shows "\<exists>t'. ht_run CompareKey GetHash ps (initTable len lf) = Some (fst (al_run ps []), t') \<and>
     m_entryCount t' = length (snd (al_run ps []))"
proof -
  obtain t' L' where "ht_run CompareKey GetHash ps (initTable len lf) = Some (fst (al_run ps []), t')"
    "ht_rep GetHash t' L'" "map snd L' = snd (al_run ps [])"
    using uint_keys.run_refines_al [OF new_rep_ok, of ps len lf] by auto
  then show ?thesis by (simp add: ht_rep_def) (metis length_map)
qed

text \<open>The same for tables keyed by character strings, hashed by their length and
  three characters.\<close>

theorem ht_run_refines_str:
  fixes ps :: "(CHAR8 list, 'v) ht_op list"
  shows "\<exists>t'. ht_run CompareKey GetHash_str ps (initTable len lf) = Some (fst (al_run ps []), t') \<and>
     m_entryCount t' = length (snd (al_run ps []))"
proof -
  obtain t' L' where "ht_run CompareKey GetHash_str ps (initTable len lf) = Some (fst (al_run ps []), t')"
    "ht_rep GetHash_str t' L'" "map snd L' = snd (al_run ps [])"
    using str_keys.run_refines_al [OF new_rep_ok, of ps len lf] by auto
  then show ?thesis by (simp add: ht_rep_def) (metis length_map)
qed

text \<open>After any sequence of calls, \<open>reset\<close> followed by \<open>getNext\<close> until it
  fails delivers every entry of the table exactly once.\<close>

theorem enum_complete:
  fixes ps :: "(UINT, 'v) ht_op list"
  shows "\<exists>t' t2 kvs. ht_run CompareKey GetHash ps (initTable len lf) = Some (fst (al_run ps []), t') \<and>
     enum_collect (snd (ht_reset t')) = Some (kvs, t2) \<and> mset kvs = mset (snd (al_run ps []))"
proof -
  obtain t' L' where t': "ht_run CompareKey GetHash ps (initTable len lf) = Some (fst (al_run ps []), t')"
    "ht_rep GetHash t' L'" "map snd L' = snd (al_run ps [])"
    using uint_keys.run_refines_al [OF new_rep_ok, of ps len lf] by auto
  note R = uint_keys.reset_ok [OF t'(2)]
  obtain t2 where t2: "enum_collect (snd (ht_reset t')) = Some (map (\<lambda>e. (m_key e, h_value e)) (concat (m_table t')), t2)"
    using uint_keys.enum_collect_ok [OF R(1)] R(2) by auto
  have "image_mset snd (image_mset trip (mset (concat (m_table t')))) = mset (map snd L')"
    using t'(2) core_mset [of GetHash t' L'] by (simp add: ht_rep_def)
  then have "mset (map (\<lambda>e. (m_key e, h_value e)) (concat (m_table t'))) = mset (map snd L')"
    by (simp add: image_mset.compositionality comp_def trip_def)
  then show ?thesis using t'(1,3) t2 by auto
qed

text \<open>The load of the table stays below its threshold, until the table has its
  largest length: a table made by \<open>initTable\<close> and filled by any sequence of
  \<open>put\<close>s has fewer entries than the threshold, which is the length times the load
  factor, or 131072 buckets.\<close>

theorem load_bounded:
  fixes kvs :: "(UINT \<times> 'v) list"
  shows "\<exists>t'. fill CompareKey GetHash kvs (initTable len lf) = Some t' \<and>
     m_threshold t' = thresholdOf (m_tableLength t') (m_loadFactor t') \<and>
     (m_entryCount t' < m_threshold t' \<or> m_tableLength t' = HASHTABLE_MAX_LENGTH)"
  using uint_keys.fill_load [OF new_rep_ok new_load, of kvs len lf] by (auto simp: load_ok_def)

text \<open>What was put is found, through the interface of keyed stores: on a sound
  table, \<open>put\<close> returns, \<open>get\<close> of the same key gives the value put, of another
  key what it gave before, and \<open>remove\<close> undoes the insertion.\<close>

theorem str_get_put:
  assumes "ht_rep GetHash_str t L"
  shows "\<exists>t1 t2. put_v CompareKey GetHash_str t k v = Some t1 \<and> get_r CompareKey GetHash_str t1 k = Some v \<and>
     (\<forall>j. j \<noteq> k \<longrightarrow> get_r CompareKey GetHash_str t1 j = get_r CompareKey GetHash_str t j) \<and>
     remove_k CompareKey GetHash_str t1 k = Some (True, t2) \<and> get_r CompareKey GetHash_str t2 k = None \<and>
     (\<forall>j. j \<noteq> k \<longrightarrow> get_r CompareKey GetHash_str t2 j = get_r CompareKey GetHash_str t j)"
proof -
  have "\<exists>L. ht_rep GetHash_str t L" using assms by (rule exI)
  from str_keys.get_put [OF this, of k v] show ?thesis .
qed

theorem str_get_put_witness:
  "ht_rep GetHash_str (CHashTable_new :: (CHAR8 list, nat) htable) [] \<and>
   (\<exists>t1 t2. put_v CompareKey GetHash_str CHashTable_new [97, 98] (7::nat) = Some t1 \<and>
     get_r CompareKey GetHash_str t1 [97, 98] = Some 7 \<and>
     remove_k CompareKey GetHash_str t1 [97, 98] = Some (True, t2) \<and> get_r CompareKey GetHash_str t2 [97, 98] = None)"
  using str_get_put [of "CHashTable_new :: (CHAR8 list, nat) htable" "[]" "[97, 98]" 7]
    new_rep_ok [of GetHash_str DEFAULT_HASHTABLE_LENGTH DEFAULT_HASHTABLE_LOADFACTOR]
  unfolding CHashTable_new_def by blast

text \<open>Property C15. Removing the entry the sequence enumeration stands on leaves
  \<open>seqCur\<close> dangling: after a put, a \<open>resetSeq\<close> and the removal of that key,
  the next \<open>getNextSeq\<close> reads a freed entry. (The bucket enumeration moves its cursor
  in this case.)\<close>

theorem remove_then_getNextSeq_dangles:
  "\<exists>t1 t2. put_v CompareKey GetHash (initTable len lf) k v = Some t1 \<and>
     remove_k CompareKey GetHash (resetSeq t1) k = Some (True, t2) \<and> seqCur t2 \<noteq> NULL \<and>
     \<not> h_alloc t2 (seqCur t2) \<and> getNextSeq t2 = None"
proof -
  obtain t1 L1 where t1: "put_v CompareKey GetHash (initTable len lf) k v = Some t1" "ht_rep GetHash t1 L1" "map snd L1 = [(k, v)]"
    using uint_keys.put_r_ok [OF new_rep_ok [of GetHash len lf], of k v] by auto
  obtain p where L1: "L1 = [(p, k, v)]" using t1(3) by auto
  have r: "ht_rep GetHash (resetSeq t1) L1" using t1(2) by (simp add: resetSeq_def uint_keys.rep_seqCur)
  obtain t2 L2 where t2: "remove_k CompareKey GetHash (resetSeq t1) k = Some (True, t2)" "ht_rep GetHash t2 L2" "L2 = []"
    using uint_keys.remove_ok [OF r, of k] L1 by auto
  have c: "seqCur t2 = seqCur (resetSeq t1)" by (rule remove_k_seqCur [OF t2(1)])
  have "seqCur (resetSeq t1) = p" "p \<noteq> NULL"
    using t1(2) L1 by (auto simp: resetSeq_def ht_rep_def ht_core_def seq_ok_def)
  moreover have "\<not> h_alloc t2 p" using t2(2,3) by (auto simp: ht_rep_def ht_core_def seq_ok_def)
  ultimately show ?thesis using t1(1) t2(1) c by (auto simp: getNextSeq_def get_s_next_def bind_eq_None_conv)
qed

end
