(* ===== verification/CVector.thy ===== *)
theory CVector
  imports HashTableSpec
begin

text \<open>
  The array \<open>CVector<TValue>\<close> of \<open>include/comserv/cvector.h\<close>, which keeps its
  elements in a \<open>CHashTable<UINT, _Entry*>\<close>. An entry owns the value it points to, so
  \<open>v_cells\<close> maps the address of an allocated entry to that value; a deleted entry is
  absent, and reading it is \<open>None\<close>. The client knows its table only through the laws of
  the keyed store. The specification is a list of elements, a number of valid elements and the
  value delivered out of range.
\<close>

section \<open>State and operations\<close>

record 'v cvector =
  m_ht :: "(UINT, addr) htable"
  v_cells :: "addr \<rightharpoonup> 'v"
  v_brk :: addr
  v_count :: UINT
  v_size :: UINT
  m_pValue :: "'v option"

abbreviation "ht_put \<equiv> put_v CompareKey GetHash"
abbreviation "ht_get \<equiv> get_r CompareKey GetHash"
abbreviation "ht_remove \<equiv> remove_k CompareKey GetHash"

definition CVector_empty :: "'v \<Rightarrow> 'v cvector" where
  "CVector_empty dflt = \<lparr>m_ht = CHashTable_new, v_cells = Map.empty, v_brk = 1, v_count = 0, v_size = 0,
     m_pValue = Some dflt\<rparr>"

text \<open>The loop of \<open>resize\<close>; \<open>int i\<close> must not pass \<open>INT_MAX\<close>.\<close>

fun resize_loop :: "'v \<Rightarrow> nat list \<Rightarrow> 'v cvector \<Rightarrow> 'v cvector option" where
  "resize_loop v [] s = Some s"
| "resize_loop v (i # is) s = do {
     let p = v_brk s;
     ht \<leftarrow> ht_put (m_ht s) (of_nat i) p;
     resize_loop v is (s\<lparr>v_cells := (v_cells s)(p \<mapsto> v), v_brk := Suc p, m_ht := ht\<rparr>) }"

definition loop_ok :: "UINT \<Rightarrow> UINT \<Rightarrow> bool" where
  "loop_ok lo hi = (\<not> (unat lo < 2 ^ 31 \<and> 2 ^ 31 \<le> unat hi))"

definition resize :: "UINT \<Rightarrow> 'v cvector \<Rightarrow> 'v cvector option" where
  "resize newSize s = do {
     s \<leftarrow> (if newSize > v_size s then do {
            v \<leftarrow> m_pValue s;
            _ \<leftarrow> (if loop_ok (v_size s) newSize then Some () else None);
            s \<leftarrow> resize_loop v [unat (v_size s)..<unat newSize] s;
            Some (s\<lparr>v_size := newSize\<rparr>) }
          else Some s);
     Some (if newSize < v_count s then s\<lparr>v_count := newSize\<rparr> else s) }"

definition resize_v :: "UINT \<Rightarrow> 'v \<Rightarrow> 'v cvector \<Rightarrow> 'v cvector option" where
  "resize_v newSize v s = do {
     s \<leftarrow> (if newSize > v_size s then do {
            _ \<leftarrow> (if loop_ok (v_size s) newSize then Some () else None);
            s \<leftarrow> resize_loop v [unat (v_size s)..<unat newSize] s;
            Some (s\<lparr>v_size := newSize, v_count := newSize\<rparr>) }
          else Some s);
     Some (if newSize < v_count s then s\<lparr>v_count := newSize\<rparr> else s) }"

definition CVector_sized :: "'v \<Rightarrow> UINT \<Rightarrow> 'v cvector option" where
  "CVector_sized dflt n = resize n (CVector_empty dflt)"

definition CVector_init :: "UINT \<Rightarrow> 'v \<Rightarrow> 'v cvector option" where
  "CVector_init n v = resize_v n v (CVector_empty v)"

text \<open>\<open>operator[]\<close> returns a reference: its target is read or written.\<close>

datatype vref = REntry addr | RDefault

definition subscript :: "UINT \<Rightarrow> 'v cvector \<Rightarrow> vref" where
  "subscript i s = (if i < v_size s then
       (case ht_get (m_ht s) i of Some p \<Rightarrow> REntry p | None \<Rightarrow> RDefault)
     else RDefault)"

definition vec_read :: "UINT \<Rightarrow> 'v cvector \<Rightarrow> 'v option" where
  "vec_read i s = (case subscript i s of REntry p \<Rightarrow> v_cells s p | RDefault \<Rightarrow> m_pValue s)"

definition vec_write :: "UINT \<Rightarrow> 'v \<Rightarrow> 'v cvector \<Rightarrow> 'v cvector option" where
  "vec_write i v s = (case subscript i s of
       REntry p \<Rightarrow> (if v_cells s p = None then None else Some (s\<lparr>v_cells := (v_cells s)(p \<mapsto> v)\<rparr>))
     | RDefault \<Rightarrow> (if m_pValue s = None then None else Some (s\<lparr>m_pValue := Some v\<rparr>)))"

definition push_back :: "'v \<Rightarrow> 'v cvector \<Rightarrow> (UINT \<times> 'v cvector) option" where
  "push_back v s = (if v_count s < v_size s then
       (case ht_get (m_ht s) (v_count s) of
          None \<Rightarrow> Some (0, s)
        | Some p \<Rightarrow> (if v_cells s p = None then None
            else Some (v_count s + 1, s\<lparr>v_cells := (v_cells s)(p \<mapsto> v), v_count := v_count s + 1\<rparr>)))
     else do {
       let p = v_brk s;
       ht \<leftarrow> ht_put (m_ht s) (v_count s) p;
       Some (v_count s + 1, s\<lparr>v_cells := (v_cells s)(p \<mapsto> v), v_brk := Suc p, m_ht := ht,
         v_size := v_size s + 1, v_count := v_count s + 1\<rparr>) })"

definition vec_pop_back :: "'v cvector \<Rightarrow> UINT \<times> 'v cvector" where
  "vec_pop_back s = (if v_count s > 0 \<and> ht_get (m_ht s) (v_count s - 1) \<noteq> None
     then (v_count s - 1, s\<lparr>v_count := v_count s - 1\<rparr>) else (0, s))"

definition vec_pop_back_v :: "'v cvector \<Rightarrow> (UINT \<times> 'v option \<times> 'v cvector) option" where
  "vec_pop_back_v s = (if v_count s > 0 then
       (case ht_get (m_ht s) (v_count s - 1) of
          Some p \<Rightarrow> do { v \<leftarrow> v_cells s p; Some (v_count s - 1, Some v, s\<lparr>v_count := v_count s - 1\<rparr>) }
        | None \<Rightarrow> Some (0, None, s))
     else Some (0, None, s))"

fun vec_remove_loop :: "nat list \<Rightarrow> 'v cvector \<Rightarrow> 'v cvector option" where
  "vec_remove_loop [] s = Some s"
| "vec_remove_loop (i # is) s = (case ht_get (m_ht s) (of_nat i) of
       Some p \<Rightarrow> do {
         _ \<leftarrow> v_cells s p;
         (b, ht) \<leftarrow> ht_remove (m_ht s) (of_nat i);
         vec_remove_loop is (s\<lparr>v_cells := (v_cells s)(p := None), m_ht := ht\<rparr>) }
     | None \<Rightarrow> vec_remove_loop is s)"

definition vec_remove :: "'v cvector \<Rightarrow> 'v cvector option" where
  "vec_remove s = do {
     _ \<leftarrow> (if loop_ok 0 (v_size s) then Some () else None);
     s \<leftarrow> vec_remove_loop [0..<unat (v_size s)] s;
     Some (s\<lparr>v_size := 0, v_count := 0\<rparr>) }"

definition CVector_delete :: "'v cvector \<Rightarrow> 'v cvector option" where
  "CVector_delete s = vec_remove (s\<lparr>m_pValue := None\<rparr>)"

definition vec_empty :: "'v cvector \<Rightarrow> bool" where
  "vec_empty s = (v_count s = 0)"

section \<open>Specification\<close>

record 'v vspec =
  elems :: "'v list"
  valid :: nat
  dflt :: 'v

datatype 'v vop = VResize UINT | VResizeV UINT 'v | VRead UINT | VWrite UINT 'v | VPush 'v | VPop | VPopV
  | VRemove | VEmpty | VCount | VSize

type_synonym 'v vout = "nat \<times> 'v option"

text \<open>The specification is undefined where the number of elements would pass \<open>INT_MAX\<close>.\<close>

definition grow :: "nat \<Rightarrow> 'v \<Rightarrow> 'v list \<Rightarrow> 'v list" where
  "grow n v xs = xs @ replicate (n - length xs) v"

fun vstep :: "'v vop \<Rightarrow> 'v vspec \<Rightarrow> ('v vout \<times> 'v vspec) option" where
  "vstep (VResize n) a = (if unat n \<ge> 2 ^ 31 then None else
     Some ((0, None), a\<lparr>elems := grow (unat n) (dflt a) (elems a), valid := min (valid a) (unat n)\<rparr>))"
| "vstep (VResizeV n v) a = (if unat n \<ge> 2 ^ 31 then None else
     Some ((0, None), a\<lparr>elems := grow (unat n) v (elems a),
       valid := (if unat n > length (elems a) then unat n else min (valid a) (unat n))\<rparr>))"
| "vstep (VRead i) a = Some ((0, Some (if unat i < length (elems a) then elems a ! unat i else dflt a)), a)"
| "vstep (VWrite i v) a = Some ((0, None),
     if unat i < length (elems a) then a\<lparr>elems := (elems a)[unat i := v]\<rparr> else a\<lparr>dflt := v\<rparr>)"
| "vstep (VPush v) a = (if valid a < length (elems a)
     then Some ((valid a + 1, None), a\<lparr>elems := (elems a)[valid a := v], valid := valid a + 1\<rparr>)
     else if length (elems a) + 1 \<ge> 2 ^ 31 then None
     else Some ((valid a + 1, None), a\<lparr>elems := elems a @ [v], valid := valid a + 1\<rparr>))"
| "vstep VPop a = Some ((valid a - 1, None), a\<lparr>valid := valid a - 1\<rparr>)"
| "vstep VPopV a = (if valid a = 0 then Some ((0, None), a)
     else Some ((valid a - 1, Some (elems a ! (valid a - 1))), a\<lparr>valid := valid a - 1\<rparr>))"
| "vstep VRemove a = Some ((0, None), a\<lparr>elems := [], valid := 0\<rparr>)"
| "vstep VEmpty a = Some ((of_bool (valid a = 0), None), a)"
| "vstep VCount a = Some ((valid a, None), a)"
| "vstep VSize a = Some ((length (elems a), None), a)"

fun vexec :: "'v vop \<Rightarrow> 'v cvector \<Rightarrow> ('v vout \<times> 'v cvector) option" where
  "vexec (VResize n) s = do { s \<leftarrow> resize n s; Some ((0, None), s) }"
| "vexec (VResizeV n v) s = do { s \<leftarrow> resize_v n v s; Some ((0, None), s) }"
| "vexec (VRead i) s = do { v \<leftarrow> vec_read i s; Some ((0, Some v), s) }"
| "vexec (VWrite i v) s = do { s \<leftarrow> vec_write i v s; Some ((0, None), s) }"
| "vexec (VPush v) s = do { (n, s) \<leftarrow> push_back v s; Some ((unat n, None), s) }"
| "vexec VPop s = (let (n, s) = vec_pop_back s in Some ((unat n, None), s))"
| "vexec VPopV s = do { (n, v, s) \<leftarrow> vec_pop_back_v s; Some ((unat n, v), s) }"
| "vexec VRemove s = do { s \<leftarrow> vec_remove s; Some ((0, None), s) }"
| "vexec VEmpty s = Some ((of_bool (vec_empty s), None), s)"
| "vexec VCount s = Some ((unat (v_count s), None), s)"
| "vexec VSize s = Some ((unat (v_size s), None), s)"

fun vrun :: "'v vop list \<Rightarrow> 'v cvector \<Rightarrow> ('v vout list \<times> 'v cvector) option" where
  "vrun [] s = Some ([], s)"
| "vrun (p # ps) s = do { (r, s) \<leftarrow> vexec p s; (rs, s) \<leftarrow> vrun ps s; Some (r # rs, s) }"

fun vsteps :: "'v vop list \<Rightarrow> 'v vspec \<Rightarrow> ('v vout list \<times> 'v vspec) option" where
  "vsteps [] a = Some ([], a)"
| "vsteps (p # ps) a = do { (r, a) \<leftarrow> vstep p a; (rs, a) \<leftarrow> vsteps ps a; Some (r # rs, a) }"

section \<open>Representation\<close>

definition vec_ptrs :: "'v cvector \<Rightarrow> addr list \<Rightarrow> bool" where
  "vec_ptrs s ps = ((\<exists>L. ht_rep GetHash (m_ht s) L) \<and> distinct ps \<and> (\<forall>p \<in> set ps. p < v_brk s) \<and> length ps \<le> 2 ^ 31 \<and>
     ht_get (m_ht s) = (\<lambda>k. if unat k < length ps then Some (ps ! unat k) else None))"

definition vec_cells :: "'v cvector \<Rightarrow> addr list \<Rightarrow> 'v list \<Rightarrow> bool" where
  "vec_cells s ps xs = (length xs = length ps \<and> v_cells s = map_of (zip ps xs))"

definition vec_rep :: "'v cvector \<Rightarrow> 'v vspec \<Rightarrow> bool" where
  "vec_rep s a = (\<exists>ps. vec_ptrs s ps \<and> vec_cells s ps (elems a) \<and> length ps < 2 ^ 31 \<and> unat (v_size s) = length ps \<and>
     unat (v_count s) = valid a \<and> valid a \<le> length ps \<and> m_pValue s = Some (dflt a))"

lemma vec_frame [simp]:
  "vec_ptrs (s\<lparr>v_size := n\<rparr>) ps = vec_ptrs s ps" "vec_ptrs (s\<lparr>v_count := c\<rparr>) ps = vec_ptrs s ps"
  "vec_ptrs (s\<lparr>m_pValue := d\<rparr>) ps = vec_ptrs s ps" "vec_ptrs (s\<lparr>v_cells := m\<rparr>) ps = vec_ptrs s ps"
  "vec_cells (s\<lparr>v_size := n\<rparr>) ps xs = vec_cells s ps xs" "vec_cells (s\<lparr>v_count := c\<rparr>) ps xs = vec_cells s ps xs"
  "vec_cells (s\<lparr>m_pValue := d\<rparr>) ps xs = vec_cells s ps xs"
  by (simp_all add: vec_ptrs_def vec_cells_def)

lemma unat_of_nat_32: "n < 2 ^ 32 \<Longrightarrow> unat (of_nat n :: UINT) = n"
  by (simp add: unat_of_nat)

lemma cells_at:
  assumes "vec_cells s ps xs" "vec_ptrs s ps" "i < length ps"
  shows "v_cells s (ps ! i) = Some (xs ! i)"
  using assms by (auto simp: vec_cells_def vec_ptrs_def map_of_zip_nth)

lemma zip_None: "p \<notin> set ps \<Longrightarrow> map_of (zip ps ys) p = None"
  by (auto simp: map_of_eq_None_iff dest: set_zip_leftD)

lemma cells_update:
  assumes "vec_cells s ps xs" "vec_ptrs s ps" "i < length ps"
  shows "(v_cells s)(ps ! i \<mapsto> v) = map_of (zip ps (xs[i := v]))"
proof
  fix p
  have d: "distinct ps" "length xs = length ps" using assms by (auto simp: vec_cells_def vec_ptrs_def)
  show "((v_cells s)(ps ! i \<mapsto> v)) p = map_of (zip ps (xs[i := v])) p"
  proof (cases "p \<in> set ps")
    case True
    then obtain j where j: "j < length ps" "p = ps ! j" by (metis in_set_conv_nth)
    then show ?thesis using assms d by (auto simp: map_of_zip_nth nth_list_update nth_eq_iff_index_eq vec_cells_def)
  next
    case False
    then show ?thesis using assms d by (auto simp: vec_cells_def zip_None)
  qed
qed

lemma ht_get_at: "vec_ptrs s ps \<Longrightarrow> unat k < length ps \<Longrightarrow> ht_get (m_ht s) k = Some (ps ! unat k)"
  by (simp add: vec_ptrs_def)

lemma append_entry:
  assumes "vec_ptrs s ps" "vec_cells s ps xs" "length ps < 2 ^ 31" "unat k = length ps"
  obtains ht where "ht_put (m_ht s) k (v_brk s) = Some ht"
    "vec_ptrs (s\<lparr>v_cells := (v_cells s)(v_brk s \<mapsto> v), v_brk := Suc (v_brk s), m_ht := ht\<rparr>) (ps @ [v_brk s])"
    "vec_cells (s\<lparr>v_cells := (v_cells s)(v_brk s \<mapsto> v), v_brk := Suc (v_brk s), m_ht := ht\<rparr>) (ps @ [v_brk s]) (xs @ [v])"
proof -
  obtain ht where ht: "ht_put (m_ht s) k (v_brk s) = Some ht" "\<exists>L. ht_rep GetHash ht L"
    "ht_get ht = (ht_get (m_ht s))(k \<mapsto> v_brk s)"
    using assms(1) uint_keys.insE [of "m_ht s" k "v_brk s"] by (auto simp: vec_ptrs_def)
  have fresh: "v_brk s \<notin> set ps" using assms(1) by (auto simp: vec_ptrs_def)
  have "(ht_get (m_ht s))(k \<mapsto> v_brk s) = (\<lambda>j. if unat j < length (ps @ [v_brk s]) then Some ((ps @ [v_brk s]) ! unat j) else None)"
    using assms(1,4) by (auto simp: vec_ptrs_def fun_eq_iff nth_append less_Suc_eq) (metis unsigned_word_eqI)
  moreover have "map_of (zip (ps @ [v_brk s]) (xs @ [v])) = (map_of (zip ps xs))(v_brk s \<mapsto> v)" "length xs = length ps"
  proof -
    show l: "length xs = length ps" using assms(2) by (simp add: vec_cells_def)
    have "v_brk s \<notin> fst ` set (zip ps xs)" using fresh by (auto dest: set_zip_leftD)
    from map_of_snoc [OF this] show "map_of (zip (ps @ [v_brk s]) (xs @ [v])) = (map_of (zip ps xs))(v_brk s \<mapsto> v)"
      using l by (simp del: map_of_append)
  qed
  ultimately show thesis using assms fresh ht
    by (intro that [of ht]) (auto simp: vec_ptrs_def vec_cells_def less_Suc_eq)
qed

section \<open>Loops\<close>

lemma resize_loop_ok:
  "vec_ptrs s ps \<Longrightarrow> vec_cells s ps xs \<Longrightarrow> length ps + n \<le> 2 ^ 31 \<Longrightarrow>
   \<exists>s' qs. resize_loop v [length ps..<length ps + n] s = Some s' \<and> vec_ptrs s' (ps @ qs) \<and> length qs = n \<and>
     vec_cells s' (ps @ qs) (xs @ replicate n v) \<and> v_count s' = v_count s \<and> v_size s' = v_size s \<and> m_pValue s' = m_pValue s"
proof (induction n arbitrary: s ps xs)
  case (Suc n)
  let ?b = "v_brk s"
  have "unat (of_nat (length ps) :: UINT) = length ps" using Suc.prems by (intro unat_of_nat_32) simp
  then obtain ht where ht: "ht_put (m_ht s) (of_nat (length ps)) ?b = Some ht"
    "vec_ptrs (s\<lparr>v_cells := (v_cells s)(?b \<mapsto> v), v_brk := Suc ?b, m_ht := ht\<rparr>) (ps @ [?b])"
    "vec_cells (s\<lparr>v_cells := (v_cells s)(?b \<mapsto> v), v_brk := Suc ?b, m_ht := ht\<rparr>) (ps @ [?b]) (xs @ [v])"
    using append_entry [OF Suc.prems(1,2), of "of_nat (length ps)" v] Suc.prems(3) by auto
  obtain s' qs where s': "resize_loop v [length (ps @ [?b])..<length (ps @ [?b]) + n]
      (s\<lparr>v_cells := (v_cells s)(?b \<mapsto> v), v_brk := Suc ?b, m_ht := ht\<rparr>) = Some s'"
    "vec_ptrs s' ((ps @ [?b]) @ qs)" "length qs = n" "vec_cells s' ((ps @ [?b]) @ qs) ((xs @ [v]) @ replicate n v)"
    "v_count s' = v_count s" "v_size s' = v_size s" "m_pValue s' = m_pValue s"
    using Suc.IH [OF ht(2,3)] Suc.prems(3) by auto
  have "[length ps..<length ps + Suc n] = length ps # [length (ps @ [?b])..<length (ps @ [?b]) + n]"
    by (simp add: upt_conv_Cons)
  then show ?case using s' ht(1) by (intro exI [of _ s'] exI [of _ "?b # qs"]) (simp add: Let_def)
qed (auto intro!: exI [of _ "[]"])

lemma vec_remove_loop_ok:
  "\<exists>L. ht_rep GetHash (m_ht s) L \<Longrightarrow> distinct (map ((!) ps) is) \<Longrightarrow> distinct is \<Longrightarrow> (\<forall>i \<in> set is. i < 2 ^ 32) \<Longrightarrow>
   \<forall>k. ht_get (m_ht s) k = (if unat k \<in> set is then Some (ps ! unat k) else None) \<Longrightarrow>
   dom (v_cells s) = (!) ps ` set is \<Longrightarrow>
   \<exists>s'. vec_remove_loop is s = Some s' \<and> (\<exists>L. ht_rep GetHash (m_ht s') L) \<and> (\<forall>k. ht_get (m_ht s') k = None) \<and>
     v_cells s' = Map.empty \<and> v_brk s' = v_brk s \<and> m_pValue s' = m_pValue s"
proof (induction "is" arbitrary: s)
  case (Cons i "is")
  have i: "unat (of_nat i :: UINT) = i" using Cons.prems by (intro unat_of_nat_32) simp
  then have g: "ht_get (m_ht s) (of_nat i) = Some (ps ! i)" using Cons.prems by simp
  obtain v where v: "v_cells s (ps ! i) = Some v" using Cons.prems(6) by auto
  obtain ht where ht: "ht_remove (m_ht s) (of_nat i) = Some (True, ht)" "\<exists>L. ht_rep GetHash ht L"
    "ht_get ht = (ht_get (m_ht s))(of_nat i := None)"
    using uint_keys.delE [OF Cons.prems(1), of "of_nat i"] g by auto
  let ?s = "s\<lparr>v_cells := (v_cells s)(ps ! i := None), m_ht := ht\<rparr>"
  have l: "\<forall>k. ht_get (m_ht ?s) k = (if unat k \<in> set is then Some (ps ! unat k) else None)"
    using Cons.prems(3,5) ht(3) i by (auto simp: fun_eq_iff)
  have "dom (v_cells ?s) = (!) ps ` set is" using Cons.prems(2,6) by auto
  from Cons.IH [of ?s, OF _ _ _ _ l this] Cons.prems ht show ?case using g v by auto
qed auto

section \<open>Refinement\<close>

lemma vec_grow:
  assumes "vec_ptrs s ps" "vec_cells s ps xs" "unat (v_size s) = length ps" "n > v_size s" "unat n < 2 ^ 31"
  obtains s' qs where "resize_loop v [unat (v_size s)..<unat n] s = Some s'" "vec_ptrs s' qs" "length qs = unat n"
    "vec_cells s' qs (grow (unat n) v xs)" "v_count s' = v_count s" "v_size s' = v_size s" "m_pValue s' = m_pValue s"
proof -
  have n: "length ps < unat n" using assms(3,4) by (simp add: word_less_nat_alt)
  have "length xs = length ps" using assms(2) by (simp add: vec_cells_def)
  with resize_loop_ok [OF assms(1,2), of "unat n - length ps" v] n assms(3,5) show thesis
    by (auto simp: grow_def intro: that)
qed

lemma resize_ok:
  assumes rep: "vec_rep s a" and n: "unat n < 2 ^ 31"
  shows "\<exists>s'. resize n s = Some s' \<and> vec_rep s' (a\<lparr>elems := grow (unat n) (dflt a) (elems a), valid := min (valid a) (unat n)\<rparr>)"
    "\<exists>s'. resize_v n v s = Some s' \<and> vec_rep s' (a\<lparr>elems := grow (unat n) v (elems a),
       valid := (if unat n > length (elems a) then unat n else min (valid a) (unat n))\<rparr>)"
proof -
  obtain ps where ps: "vec_ptrs s ps" "vec_cells s ps (elems a)" "length ps < 2 ^ 31" "unat (v_size s) = length ps"
    "unat (v_count s) = valid a" "valid a \<le> length ps" "m_pValue s = Some (dflt a)"
    using rep unfolding vec_rep_def by blast
  have l: "length (elems a) = length ps" using ps(2) by (simp add: vec_cells_def)
  have lo: "loop_ok (v_size s) n" using n by (simp add: loop_ok_def)
  have "(\<exists>s'. resize n s = Some s' \<and> vec_rep s' (a\<lparr>elems := grow (unat n) (dflt a) (elems a), valid := min (valid a) (unat n)\<rparr>)) \<and>
    (\<exists>s'. resize_v n v s = Some s' \<and> vec_rep s' (a\<lparr>elems := grow (unat n) v (elems a),
       valid := (if unat n > length (elems a) then unat n else min (valid a) (unat n))\<rparr>))"
  proof (cases "n > v_size s")
    case True
    then have lt: "length ps < unat n" using ps(4) by (simp add: word_less_nat_alt)
    obtain s1 qs where s1: "resize_loop (dflt a) [unat (v_size s)..<unat n] s = Some s1" "vec_ptrs s1 qs" "length qs = unat n"
      "vec_cells s1 qs (grow (unat n) (dflt a) (elems a))" "v_count s1 = v_count s" "m_pValue s1 = m_pValue s"
      using vec_grow [OF ps(1,2,4) True n, of "dflt a"] by metis
    have "vec_rep (s1\<lparr>v_size := n\<rparr>) (a\<lparr>elems := grow (unat n) (dflt a) (elems a), valid := min (valid a) (unat n)\<rparr>)"
      unfolding vec_rep_def using s1 ps lt n by (intro exI [of _ qs]) simp
    moreover have "resize n s = Some (s1\<lparr>v_size := n\<rparr>)"
      using True ps lt lo s1 by (simp add: resize_def word_less_nat_alt)
    moreover obtain s2 rs where s2: "resize_loop v [unat (v_size s)..<unat n] s = Some s2" "vec_ptrs s2 rs" "length rs = unat n"
      "vec_cells s2 rs (grow (unat n) v (elems a))" "m_pValue s2 = m_pValue s"
      using vec_grow [OF ps(1,2,4) True n, of v] by metis
    have "vec_rep (s2\<lparr>v_size := n, v_count := n\<rparr>) (a\<lparr>elems := grow (unat n) v (elems a),
       valid := (if unat n > length (elems a) then unat n else min (valid a) (unat n))\<rparr>)"
      unfolding vec_rep_def using s2 ps lt n l by (intro exI [of _ rs]) simp
    moreover have "resize_v n v s = Some (s2\<lparr>v_size := n, v_count := n\<rparr>)"
      using True lo s2 by (simp add: resize_v_def)
    ultimately show ?thesis by simp
  next
    case False
    then have "grow (unat n) v (elems a) = elems a" for v using ps(4) l by (simp add: grow_def word_less_nat_alt)
    then show ?thesis using False ps l
      by (auto simp: resize_def resize_v_def vec_rep_def word_less_nat_alt vec_ptrs_def vec_cells_def min_def)
  qed
  then show "\<exists>s'. resize n s = Some s' \<and> vec_rep s' (a\<lparr>elems := grow (unat n) (dflt a) (elems a), valid := min (valid a) (unat n)\<rparr>)"
    "\<exists>s'. resize_v n v s = Some s' \<and> vec_rep s' (a\<lparr>elems := grow (unat n) v (elems a),
       valid := (if unat n > length (elems a) then unat n else min (valid a) (unat n))\<rparr>)" by blast+
qed

lemma unat_inc: "unat (w :: UINT) < 2 ^ 31 \<Longrightarrow> unat (w + 1) = unat w + 1"
  by (simp add: unat_word_ariths)

lemma push_back_ok:
  assumes rep: "vec_rep s a" and sp: "vstep (VPush v) a = Some (r, a')"
  shows "\<exists>s'. vexec (VPush v) s = Some (r, s') \<and> vec_rep s' a'"
proof -
  obtain ps where ps: "vec_ptrs s ps" "vec_cells s ps (elems a)" "length ps < 2 ^ 31" "unat (v_size s) = length ps"
    "unat (v_count s) = valid a" "valid a \<le> length ps" "m_pValue s = Some (dflt a)"
    using rep unfolding vec_rep_def by blast
  have l: "length (elems a) = length ps" using ps(2) by (simp add: vec_cells_def)
  have c: "unat (v_count s + 1) = valid a + 1" using ps unat_inc [of "v_count s"] by simp
  have d: "(v_count s < v_size s) = (valid a < length ps)" using ps by (simp add: word_less_nat_alt)
  show ?thesis
  proof (cases "valid a < length ps")
    case True
    have g: "ht_get (m_ht s) (v_count s) = Some (ps ! valid a)" using ht_get_at [OF ps(1), of "v_count s"] ps(5) True by simp
    note U = cells_update [OF ps(2,1) True, of v] cells_at [OF ps(2,1) True]
    have "vec_rep (s\<lparr>v_cells := (v_cells s)(ps ! valid a \<mapsto> v), v_count := v_count s + 1\<rparr>) a'"
      using sp True ps U l c by (auto simp: vec_rep_def vec_ptrs_def vec_cells_def intro!: exI [of _ ps])
    then show ?thesis using sp True d g U l c by (auto simp: push_back_def)
  next
    case False
    then have k: "unat (v_count s) = length ps" "valid a = length ps" using ps by auto
    obtain ht where ht: "ht_put (m_ht s) (v_count s) (v_brk s) = Some ht"
      "vec_ptrs (s\<lparr>v_cells := (v_cells s)(v_brk s \<mapsto> v), v_brk := Suc (v_brk s), m_ht := ht\<rparr>) (ps @ [v_brk s])"
      "vec_cells (s\<lparr>v_cells := (v_cells s)(v_brk s \<mapsto> v), v_brk := Suc (v_brk s), m_ht := ht\<rparr>) (ps @ [v_brk s]) (elems a @ [v])"
      by (rule append_entry [OF ps(1-3) k(1)])
    have sz: "unat (v_size s + 1) = length ps + 1" using ps unat_inc [of "v_size s"] by simp
    have lim: "length ps + 1 < 2 ^ 31" "a' = a\<lparr>elems := elems a @ [v], valid := valid a + 1\<rparr>" "r = (valid a + 1, None)"
      using sp False l by (auto split: if_splits)
    have "vec_rep (s\<lparr>v_cells := (v_cells s)(v_brk s \<mapsto> v), v_brk := Suc (v_brk s), m_ht := ht,
         v_size := v_size s + 1, v_count := v_count s + 1\<rparr>) a'"
      using ht(2,3) sz c lim k ps(7) by (auto simp: vec_rep_def vec_ptrs_def vec_cells_def intro!: exI [of _ "ps @ [v_brk s]"])
    then show ?thesis using ht(1) d False lim c by (auto simp: push_back_def Let_def)
  qed
qed

lemma pop_ok:
  assumes rep: "vec_rep s a"
  shows "\<exists>s'. vexec VPop s = Some ((valid a - 1, None), s') \<and> vec_rep s' (a\<lparr>valid := valid a - 1\<rparr>)"
    "valid a > 0 \<Longrightarrow> \<exists>s'. vexec VPopV s = Some ((valid a - 1, Some (elems a ! (valid a - 1))), s') \<and> vec_rep s' (a\<lparr>valid := valid a - 1\<rparr>)"
    "valid a = 0 \<Longrightarrow> vexec VPopV s = Some ((0, None), s)"
proof -
  obtain ps where ps: "vec_ptrs s ps" "vec_cells s ps (elems a)" "length ps < 2 ^ 31" "unat (v_size s) = length ps"
    "unat (v_count s) = valid a" "valid a \<le> length ps" "m_pValue s = Some (dflt a)"
    using rep unfolding vec_rep_def by blast
  have z: "(0 < v_count s) = (0 < valid a)" using ps(5) by (simp add: word_less_nat_alt)
  have p: "unat (v_count s - 1) = valid a - 1 \<and> ht_get (m_ht s) (v_count s - 1) = Some (ps ! (valid a - 1)) \<and>
      v_cells s (ps ! (valid a - 1)) = Some (elems a ! (valid a - 1))" if "0 < valid a"
  proof -
    have u: "unat (v_count s - 1) = valid a - 1" using that ps(5) z by (metis One_nat_def linorder_not_less unat_minus_one word_le_0_iff)
    then show ?thesis using ht_get_at [OF ps(1), of "v_count s - 1"] cells_at [OF ps(2,1), of "valid a - 1"] that ps(6) by simp
  qed
  have r: "vec_rep (s\<lparr>v_count := v_count s - 1\<rparr>) (a\<lparr>valid := valid a - 1\<rparr>)" if "0 < valid a"
    using ps p [OF that] by (auto simp: vec_rep_def vec_ptrs_def vec_cells_def intro!: exI [of _ ps])
  show "\<exists>s'. vexec VPop s = Some ((valid a - 1, None), s') \<and> vec_rep s' (a\<lparr>valid := valid a - 1\<rparr>)"
  proof (cases "valid a = 0")
    case True
    then have "vec_rep s (a\<lparr>valid := 0\<rparr>)" using rep by (simp add: vec_rep_def)
    then show ?thesis using True z by (simp add: vec_pop_back_def)
  qed (use z p r in \<open>auto simp: vec_pop_back_def\<close>)
  show "valid a > 0 \<Longrightarrow> \<exists>s'. vexec VPopV s = Some ((valid a - 1, Some (elems a ! (valid a - 1))), s') \<and> vec_rep s' (a\<lparr>valid := valid a - 1\<rparr>)"
    using z p r by (auto simp: vec_pop_back_v_def)
  show "valid a = 0 \<Longrightarrow> vexec VPopV s = Some ((0, None), s)" using z by (simp add: vec_pop_back_v_def)
qed


lemma rw_ok:
  assumes rep: "vec_rep s a"
  shows "vec_read i s = Some (if unat i < length (elems a) then elems a ! unat i else dflt a)"
    "\<exists>s'. vec_write i v s = Some s' \<and>
       vec_rep s' (if unat i < length (elems a) then a\<lparr>elems := (elems a)[unat i := v]\<rparr> else a\<lparr>dflt := v\<rparr>)"
proof -
  obtain ps where ps: "vec_ptrs s ps" "vec_cells s ps (elems a)" "length ps < 2 ^ 31" "unat (v_size s) = length ps"
    "unat (v_count s) = valid a" "valid a \<le> length ps" "m_pValue s = Some (dflt a)"
    using rep unfolding vec_rep_def by blast
  have l: "length (elems a) = length ps" using ps(2) by (simp add: vec_cells_def)
  have sub: "subscript i s = (if unat i < length ps then REntry (ps ! unat i) else RDefault)"
    using ht_get_at [OF ps(1), of i] ps(4) by (simp add: subscript_def word_less_nat_alt)
  note at = cells_at [OF ps(2,1), of "unat i"]
  show "vec_read i s = Some (if unat i < length (elems a) then elems a ! unat i else dflt a)"
    using sub at l ps(7) by (simp add: vec_read_def)
  have "vec_rep (s\<lparr>v_cells := (v_cells s)(ps ! unat i \<mapsto> v)\<rparr>) (a\<lparr>elems := (elems a)[unat i := v]\<rparr>)" if "unat i < length ps"
    unfolding vec_rep_def using ps cells_update [OF ps(2,1) that, of v] by (intro exI [of _ ps]) (simp add: vec_cells_def)
  moreover have "vec_rep (s\<lparr>m_pValue := Some v\<rparr>) (a\<lparr>dflt := v\<rparr>)"
    unfolding vec_rep_def using ps by (intro exI [of _ ps]) simp
  ultimately show "\<exists>s'. vec_write i v s = Some s' \<and>
       vec_rep s' (if unat i < length (elems a) then a\<lparr>elems := (elems a)[unat i := v]\<rparr> else a\<lparr>dflt := v\<rparr>)"
    using sub at l ps(7) by (simp add: vec_write_def)
qed

lemma remove_all_ok:
  assumes rep: "vec_rep s a"
  shows "\<exists>s'. vec_remove s = Some s' \<and> vec_rep s' (a\<lparr>elems := [], valid := 0\<rparr>) \<and> v_cells s' = Map.empty"
    "\<exists>s'. CVector_delete s = Some s' \<and> v_cells s' = Map.empty \<and> m_pValue s' = None"
proof -
  obtain ps where ps: "vec_ptrs s ps" "vec_cells s ps (elems a)" "length ps < 2 ^ 31" "unat (v_size s) = length ps"
    "unat (v_count s) = valid a" "valid a \<le> length ps" "m_pValue s = Some (dflt a)"
    using rep unfolding vec_rep_def by blast
  have m: "map ((!) ps) [0..<length ps] = ps" by (simp add: map_nth)
  have "\<exists>s'. vec_remove_loop [0..<length ps] (s\<lparr>m_pValue := d\<rparr>) = Some s' \<and> (\<exists>L. ht_rep GetHash (m_ht s') L) \<and>
     (\<forall>k. ht_get (m_ht s') k = None) \<and> v_cells s' = Map.empty \<and> v_brk s' = v_brk s \<and> m_pValue s' = d" for d
  proof -
    have "dom (v_cells s) = (!) ps ` set [0..<length ps]"
      using ps(2) m by (metis dom_map_of_zip list.set_map vec_cells_def)
    with vec_remove_loop_ok [of "s\<lparr>m_pValue := d\<rparr>" ps "[0..<length ps]"] ps m show ?thesis
      by (auto simp: vec_ptrs_def)
  qed
  note D = this
  have lo: "loop_ok 0 (v_size s)" using ps(3,4) by (simp add: loop_ok_def)
  have self: "s\<lparr>m_pValue := m_pValue s\<rparr> = s" by simp
  from D [of "m_pValue s"] obtain s1 where s1: "vec_remove_loop [0..<length ps] s = Some s1" "\<exists>L. ht_rep GetHash (m_ht s1) L"
     "\<forall>k. ht_get (m_ht s1) k = None" "v_cells s1 = Map.empty" "v_brk s1 = v_brk s" "m_pValue s1 = m_pValue s" unfolding self by blast
  have "vec_rep (s1\<lparr>v_size := 0, v_count := 0\<rparr>) (a\<lparr>elems := [], valid := 0\<rparr>)"
    unfolding vec_rep_def using s1 ps by (intro exI [of _ "[]"]) (auto simp: vec_ptrs_def vec_cells_def)
  then show "\<exists>s'. vec_remove s = Some s' \<and> vec_rep s' (a\<lparr>elems := [], valid := 0\<rparr>) \<and> v_cells s' = Map.empty"
    using s1 ps lo by (auto simp: vec_remove_def)
  show "\<exists>s'. CVector_delete s = Some s' \<and> v_cells s' = Map.empty \<and> m_pValue s' = None"
    using D [of None] ps lo by (auto simp: CVector_delete_def vec_remove_def)
qed

lemma vec_rep_sizes: "vec_rep s a \<Longrightarrow> unat (v_count s) = valid a \<and> unat (v_size s) = length (elems a)"
  by (auto simp: vec_rep_def vec_cells_def)

lemma vexec_refines:
  assumes "vec_rep s a" "vstep p a = Some (r, a')"
  shows "\<exists>s'. vexec p s = Some (r, s') \<and> vec_rep s' a'"
proof (cases p)
  case (VResize n)
  then show ?thesis using assms resize_ok(1) [OF assms(1), of n] by (auto split: if_splits)
next
  case (VResizeV n v)
  then show ?thesis using assms resize_ok(2) [OF assms(1), of n v] by (auto split: if_splits)
next
  case (VRead i)
  then show ?thesis using assms rw_ok(1) [OF assms(1), of i] by auto
next
  case (VWrite i v)
  then show ?thesis using assms rw_ok(2) [OF assms(1), of i v] by auto
next
  case (VPush v)
  then show ?thesis using push_back_ok [OF assms(1), of v r a'] assms(2) by simp
next
  case VPop
  then show ?thesis using pop_ok(1) [OF assms(1)] assms by auto
next
  case VPopV
  then show ?thesis using pop_ok(2,3) [OF assms(1)] assms by (cases "valid a = 0") auto
next
  case VRemove
  then show ?thesis using remove_all_ok(1) [OF assms(1)] assms by auto
next
  case VEmpty
  then show ?thesis using assms vec_rep_sizes [OF assms(1)] unsigned_eq_0_iff [of "v_count s"] by (auto simp: vec_empty_def)
next
  case VCount
  then show ?thesis using assms vec_rep_sizes [OF assms(1)] by auto
next
  case VSize
  then show ?thesis using assms vec_rep_sizes [OF assms(1)] by auto
qed

lemma vrun_ok:
  "vec_rep s a \<Longrightarrow> vsteps ps a = Some (rs, a') \<Longrightarrow> \<exists>s'. vrun ps s = Some (rs, s') \<and> vec_rep s' a'"
proof (induction ps arbitrary: s a rs)
  case (Cons p ps)
  then obtain r a1 rs1 where r: "vstep p a = Some (r, a1)" "vsteps ps a1 = Some (rs1, a')" "rs = r # rs1"
    by (auto simp: bind_Some_iff)
  obtain s1 where s1: "vexec p s = Some (r, s1)" "vec_rep s1 a1" using vexec_refines [OF Cons.prems(1) r(1)] by blast
  from Cons.IH [OF s1(2) r(2)] show ?case using s1(1) r(3) by auto
qed auto

lemma vec_new_rep: "vec_rep (CVector_empty d) \<lparr>elems = [], valid = 0, dflt = d\<rparr>"
  using uint_keys.emp_inv uint_keys.emp_lookup
  by (auto simp: vec_rep_def vec_ptrs_def vec_cells_def CVector_empty_def)

lemma replicate_2: "replicate 2 x = [x, x]"
  by (simp add: numeral_2_eq_2)

section \<open>Properties\<close>

text \<open>Property C16. Any sequence of calls on a fresh \<open>CVector\<close> whose length stays below
  \<open>INT_MAX\<close> behaves as a list with a number of valid elements: \<open>resize\<close> to a larger size
  lengthens it, to a smaller one keeps the length and lowers the number of valid elements to the size given
  where it was larger (the description of the class promises the new size and an unchanged number),
  \<open>push_back\<close> overwrites the element behind the valid ones or appends, and an
  index out of range denotes the default element (which a write therefore changes). No call
  reads a deleted entry.\<close>

theorem cvector_refines:
  assumes "vsteps ps \<lparr>elems = [], valid = 0, dflt = d\<rparr> = Some (rs, a)"
  shows "\<exists>s. vrun ps (CVector_empty d) = Some (rs, s) \<and> unat (v_size s) = length (elems a) \<and> unat (v_count s) = valid a"
  using vrun_ok [OF vec_new_rep assms] by (auto simp: vec_rep_def vec_cells_def)

theorem cvector_refines_witness:
  "\<exists>s. vrun [VResize 2, VPush (5::nat), VWrite 7 9, VResize 3, VRead 2, VPopV, VRead 0] (CVector_empty 1)
      = Some ([(0, None), (1, None), (0, None), (0, None), (0, Some 9), (0, Some 5), (0, Some 5)], s) \<and>
    unat (v_size s) = Suc (Suc (Suc 0)) \<and> unat (v_count s) = 0"
  using cvector_refines [of "[VResize 2, VPush (5::nat), VWrite 7 9, VResize 3, VRead 2, VPopV, VRead 0]" 1
      "[(0, None), (1, None), (0, None), (0, None), (0, Some 9), (0, Some 5), (0, Some 5)]" "\<lparr>elems = [5, 1, 9], valid = 0, dflt = 9\<rparr>"]
  by (simp add: grow_def replicate_2)

text \<open>The destructor of a \<open>CVector\<close> deletes the default value and every
  entry exactly once, whatever was done before.\<close>

theorem cvector_no_leak:
  assumes "vsteps ps \<lparr>elems = [], valid = 0, dflt = d\<rparr> = Some (rs, a)"
  shows "\<exists>s s'. vrun ps (CVector_empty d) = Some (rs, s) \<and> CVector_delete s = Some s' \<and>
     v_cells s' = Map.empty \<and> m_pValue s' = None"
proof -
  obtain s where s: "vrun ps (CVector_empty d) = Some (rs, s)" "vec_rep s a" using vrun_ok [OF vec_new_rep assms] by blast
  with remove_all_ok(2) [OF s(2)] show ?thesis by blast
qed

theorem cvector_no_leak_witness:
  "\<exists>s s'. vrun [VResizeV 2 (5::nat), VPush 6] (CVector_empty 0) = Some ([(0, None), (3, None)], s) \<and>
     CVector_delete s = Some s' \<and> v_cells s' = Map.empty \<and> m_pValue s' = None"
  using cvector_no_leak [of "[VResizeV 2 (5::nat), VPush 6]" 0 "[(0, None), (3, None)]" "\<lparr>elems = [5, 5, 6], valid = 3, dflt = 0\<rparr>"]
  by (simp add: grow_def replicate_2)

end
