(* ===== verification/CStr.thy ===== *)
theory CStr
  imports Prelude
begin

text \<open>
  The string class \<open>CStr\<close> of \<open>include/comserv/comtypedef_vchar.h\<close> and
  \<open>comserv/comtypedef_vchar.C\<close>. The state holds the \<open>m_length\<close> bytes in front of
  the terminator and the capacity of the buffer; a buffer of the smallest capacity is the one
  inside the object. Every write into \<open>m_buffer\<close> goes through \<open>store\<close>, which is
  \<open>None\<close> when the bytes and the terminator do not fit, so that a buffer overflow is an
  undefined result. The functions of \<open>string.h\<close> see a string up to its first zero byte.
  Lengths and capacities are \<open>int\<close> in the code and natural numbers here; the sizes the editing calls
  compute are listed in \<open>int_sizes\<close> (\<open>CStrSpec\<close>) and shown to stay below \<open>2 ^ 31\<close> for texts up to
  \<open>2 ^ 28\<close> bytes.

  Several functions that return \<open>CStr&\<close> or \<open>int\<close> have no return statement
  (\<open>uricEncode\<close>, \<open>uricDecode\<close>, \<open>fCatChars\<close>, \<open>fCatShortBin\<close>,
  \<open>fCatBin2\<close>, \<open>merge\<close>); the model gives their effect on the string.
\<close>

unbundle bit_operations_syntax

section \<open>The C library on byte strings\<close>

definition cstr :: "CHAR8 list \<Rightarrow> CHAR8 list" where
  "cstr s = takeWhile (\<lambda>c. c \<noteq> 0) s"

fun strncmp_eq :: "CHAR8 list \<Rightarrow> CHAR8 list \<Rightarrow> bool" where
  "strncmp_eq s [] = True"
| "strncmp_eq [] (p # ps) = False"
| "strncmp_eq (c # s) (p # ps) = (c = p \<and> strncmp_eq s ps)"

fun strstr :: "CHAR8 list \<Rightarrow> CHAR8 list \<Rightarrow> nat option" where
  "strstr [] pat = (if pat = [] then Some 0 else None)"
| "strstr (c # s) pat = (if strncmp_eq (c # s) pat then Some 0 else map_option Suc (strstr s pat))"

text \<open>\<open>strcmp\<close> compares bytes as \<open>unsigned char\<close>.\<close>

fun strcmp :: "CHAR8 list \<Rightarrow> CHAR8 list \<Rightarrow> int" where
  "strcmp [] [] = 0"
| "strcmp [] (b # bs) = - 1"
| "strcmp (a # as) [] = 1"
| "strcmp (a # as) (b # bs) = (if a < b then - 1 else if b < a then 1 else strcmp as bs)"

definition isspace :: "CHAR8 \<Rightarrow> bool" where
  "isspace c = (c = 32 \<or> 9 \<le> c \<and> c \<le> 13)"

definition isdigit :: "CHAR8 \<Rightarrow> bool" where
  "isdigit c = (48 \<le> c \<and> c \<le> 57)"

definition isalnum :: "CHAR8 \<Rightarrow> bool" where
  "isalnum c = (isdigit c \<or> 65 \<le> c \<and> c \<le> 90 \<or> 97 \<le> c \<and> c \<le> 122)"

definition isgraph :: "CHAR8 \<Rightarrow> bool" where
  "isgraph c = (33 \<le> c \<and> c \<le> 126)"

definition tolower :: "CHAR8 \<Rightarrow> CHAR8" where
  "tolower c = (if 65 \<le> c \<and> c \<le> 90 then c + 32 else c)"

definition toupper :: "CHAR8 \<Rightarrow> CHAR8" where
  "toupper c = (if 97 \<le> c \<and> c \<le> 122 then c - 32 else c)"

text \<open>\<open>sprintf\<close> with \<open>%d\<close> and with \<open>%02X\<close>.\<close>

fun nat_str :: "nat \<Rightarrow> CHAR8 list" where
  "nat_str n = (if n < 10 then [48 + of_nat n] else nat_str (n div 10) @ [48 + of_nat (n mod 10)])"

declare nat_str.simps [simp del]

definition int_str :: "int \<Rightarrow> CHAR8 list" where
  "int_str i = (if i < 0 then 45 # nat_str (nat (- i)) else nat_str (nat i))"

definition hex_digit :: "nat \<Rightarrow> CHAR8" where
  "hex_digit n = (if n < 10 then 48 + of_nat n else 55 + of_nat n)"

definition hex2 :: "CHAR8 \<Rightarrow> CHAR8 list" where
  "hex2 c = [hex_digit (unat c div 16), hex_digit (unat c mod 16)]"

definition pad_left :: "nat \<Rightarrow> CHAR8 list \<Rightarrow> CHAR8 list" where
  "pad_left n s = replicate (n - length s) 32 @ s"

definition pad_right :: "nat \<Rightarrow> CHAR8 list \<Rightarrow> CHAR8 list" where
  "pad_right n s = s @ replicate (n - length s) 32"

text \<open>\<open>atoi\<close>: blanks, an optional sign, digits. The value is converted to \<open>int\<close>
  as \<open>(int) strtol(...)\<close> does.\<close>

definition digit_value :: "CHAR8 \<Rightarrow> nat" where
  "digit_value c = unat (c - 48)"

definition digits_value :: "CHAR8 list \<Rightarrow> nat" where
  "digits_value ds = foldl (\<lambda>v d. 10 * v + digit_value d) 0 ds"

definition atoi :: "CHAR8 list \<Rightarrow> 32 word" where
  "atoi s = (case dropWhile isspace (cstr s) of
       [] \<Rightarrow> 0
     | c # cs \<Rightarrow> (if c = 45 then - of_nat (digits_value (takeWhile isdigit cs))
         else if c = 43 then of_nat (digits_value (takeWhile isdigit cs))
         else of_nat (digits_value (takeWhile isdigit (c # cs)))))"

section \<open>State\<close>

record CStr =
  buf :: "CHAR8 list"
  m_capacity :: nat

abbreviation "MaxCStrBufferLen \<equiv> 32 :: nat"

abbreviation m_length :: "CStr \<Rightarrow> nat" where
  "m_length s \<equiv> length (buf s)"

definition store :: "CHAR8 list \<Rightarrow> CStr \<Rightarrow> CStr option" where
  "store bs s = (if length bs \<le> m_capacity s then Some (s\<lparr>buf := bs\<rparr>) else None)"

definition resize_c :: "nat \<Rightarrow> CStr \<Rightarrow> CStr" where
  "resize_c newCapacity s = (if newCapacity \<le> m_capacity s then s
     else s\<lparr>m_capacity := (newCapacity div MaxCStrBufferLen + 1) * MaxCStrBufferLen - 1\<rparr>)"

section \<open>Construction and assignment\<close>

definition CStr_new :: CStr where
  "CStr_new = \<lparr>buf = [], m_capacity = MaxCStrBufferLen - 1\<rparr>"

definition CStr_cs :: "CHAR8 list option \<Rightarrow> CStr option" where
  "CStr_cs str = (case str of None \<Rightarrow> Some CStr_new
     | Some p \<Rightarrow> (let l = length (cstr p) in
         store (cstr p) \<lparr>buf = [], m_capacity = (if l > MaxCStrBufferLen - 1 then l else MaxCStrBufferLen - 1)\<rparr>))"

definition CStr_copy :: "CStr \<Rightarrow> CStr option" where
  "CStr_copy str = (let s = CStr_new in
     store (buf str) (if m_length str > m_capacity s then s\<lparr>m_capacity := m_length str\<rparr> else s))"

definition CStr_int :: "int \<Rightarrow> CStr option" where
  "CStr_int val = store (int_str val) CStr_new"

definition clear_c :: "CStr \<Rightarrow> CStr" where
  "clear_c s = s\<lparr>buf := []\<rparr>"

definition assign_int :: "int \<Rightarrow> CStr \<Rightarrow> CStr option" where
  "assign_int value s = store (int_str value) s"

definition assign_cs :: "CHAR8 list option \<Rightarrow> CStr \<Rightarrow> CStr option" where
  "assign_cs str s = (case str of None \<Rightarrow> Some (clear_c s)
     | Some p \<Rightarrow> (if cstr p = [] then Some (clear_c s)
         else let len = length (cstr p); s = (if len > m_capacity s then resize_c len s else s) in store (cstr p) s))"

definition assign_s :: "CStr \<Rightarrow> CStr \<Rightarrow> CStr option" where
  "assign_s str s = store (buf str) (if m_length str > m_capacity s then resize_c (m_length str) s else s)"

definition set_c :: "CHAR8 list \<Rightarrow> CStr \<Rightarrow> CStr option" where
  "set_c str s = store str (if length str > m_capacity s then resize_c (length str) s else s)"

definition nCat :: "CHAR8 list \<Rightarrow> CStr \<Rightarrow> CStr option" where
  "nCat str s = (let l = length str; s = (if m_capacity s < m_length s + l then resize_c (m_length s + l) s else s) in
     store (buf s @ str) s)"

definition append_s :: "CStr \<Rightarrow> CStr \<Rightarrow> CStr option" where
  "append_s str s = (let s = (if m_capacity s < m_length s + m_length str then resize_c (m_length s + m_length str) s else s) in
     store (buf s @ buf str) s)"

definition append_cs :: "CHAR8 list \<Rightarrow> CStr \<Rightarrow> CStr option" where
  "append_cs str s = (let l = length (cstr str);
       s = (if m_capacity s < m_length s + l then resize_c (m_length s + l) s else s) in
     store (buf s @ cstr str) s)"

definition append_c :: "CHAR8 \<Rightarrow> CStr \<Rightarrow> CStr option" where
  "append_c c s = (let s = (if m_capacity s < m_length s + 1 then resize_c (m_length s + 1) s else s) in
     store (buf s @ [c]) s)"

definition shl_s :: "CStr \<Rightarrow> CStr \<Rightarrow> CStr option" where
  "shl_s str s = append_s str s"

definition shl_cs :: "CHAR8 list \<Rightarrow> CStr \<Rightarrow> CStr option" where
  "shl_cs str s = append_cs str s"

definition shl_int :: "int \<Rightarrow> CStr \<Rightarrow> CStr option" where
  "shl_int i s = append_cs (int_str i) s"

text \<open>\<open>steal\<close> hands the buffer over; \<open>str\<close> copies it.\<close>

definition steal :: "CStr \<Rightarrow> CHAR8 list \<times> nat \<times> CStr" where
  "steal s = (buf s, m_length s, \<lparr>buf = [], m_capacity = MaxCStrBufferLen - 1\<rparr>)"

definition str_c :: "CStr \<Rightarrow> CHAR8 list option" where
  "str_c s = (if m_length s > 0 then Some (buf s) else None)"

section \<open>Comparison\<close>

definition eq_cs :: "CHAR8 list option \<Rightarrow> CStr \<Rightarrow> bool" where
  "eq_cs str s = (case str of None \<Rightarrow> m_length s = 0 | Some p \<Rightarrow> strcmp (cstr (buf s)) (cstr p) = 0)"

definition ne_cs :: "CHAR8 list option \<Rightarrow> CStr \<Rightarrow> bool" where
  "ne_cs str s = (\<not> eq_cs str s)"

definition lt_cs :: "CHAR8 list option \<Rightarrow> CStr \<Rightarrow> bool" where
  "lt_cs str s = (case str of None \<Rightarrow> False | Some p \<Rightarrow> strcmp (cstr (buf s)) (cstr p) < 0)"

definition gt_cs :: "CHAR8 list option \<Rightarrow> CStr \<Rightarrow> bool" where
  "gt_cs str s = (case str of None \<Rightarrow> m_length s > 0 | Some p \<Rightarrow> strcmp (cstr (buf s)) (cstr p) > 0)"

definition ge_cs :: "CHAR8 list option \<Rightarrow> CStr \<Rightarrow> bool" where
  "ge_cs str s = (gt_cs str s \<or> eq_cs str s)"

definition le_cs :: "CHAR8 list option \<Rightarrow> CStr \<Rightarrow> bool" where
  "le_cs str s = (lt_cs str s \<or> eq_cs str s)"

definition eq_s :: "CStr \<Rightarrow> CStr \<Rightarrow> bool" where
  "eq_s str s = (m_length s = m_length str \<and> buf s = buf str)"

definition lt_s :: "CStr \<Rightarrow> CStr \<Rightarrow> bool" where
  "lt_s str s = lt_cs (Some (buf str)) s"

definition gt_s :: "CStr \<Rightarrow> CStr \<Rightarrow> bool" where
  "gt_s str s = gt_cs (Some (buf str)) s"

definition ge_s :: "CStr \<Rightarrow> CStr \<Rightarrow> bool" where
  "ge_s str s = ge_cs (Some (buf str)) s"

definition le_s :: "CStr \<Rightarrow> CStr \<Rightarrow> bool" where
  "le_s str s = le_cs (Some (buf str)) s"

definition toInt :: "CStr \<Rightarrow> 32 word" where
  "toInt s = atoi (buf s)"

text \<open>\<open>CStrInt\<close> orders by integer value first.\<close>

definition int_lt :: "CHAR8 list option \<Rightarrow> CStr \<Rightarrow> bool" where
  "int_lt str s = (case str of None \<Rightarrow> False
     | Some p \<Rightarrow> (let a = sint (atoi (buf s)); b = sint (atoi p) in
         if a = b then strcmp (cstr (buf s)) (cstr p) < 0 else a < b))"

definition int_gt :: "CHAR8 list option \<Rightarrow> CStr \<Rightarrow> bool" where
  "int_gt str s = (case str of None \<Rightarrow> m_length s > 0
     | Some p \<Rightarrow> (let a = sint (atoi (buf s)); b = sint (atoi p) in
         if a = b then strcmp (cstr (buf s)) (cstr p) > 0 else a > b))"

definition int_ge :: "CHAR8 list option \<Rightarrow> CStr \<Rightarrow> bool" where
  "int_ge str s = (int_gt str s \<or> eq_cs str s)"

definition int_le :: "CHAR8 list option \<Rightarrow> CStr \<Rightarrow> bool" where
  "int_le str s = (int_lt str s \<or> eq_cs str s)"

section \<open>Inspection and editing\<close>

definition getByte :: "int \<Rightarrow> CStr \<Rightarrow> CHAR8" where
  "getByte pos s = (if pos \<ge> int (m_length s) \<or> pos < - int (m_length s) then 0
     else if pos \<ge> 0 then buf s ! nat pos else buf s ! nat (int (m_length s) + pos))"

definition setByte :: "CHAR8 \<Rightarrow> int \<Rightarrow> CStr \<Rightarrow> CStr" where
  "setByte c pos s = (if pos \<ge> int (m_length s) \<or> pos < - int (m_length s) then s
     else if pos \<ge> 0 then s\<lparr>buf := (buf s)[nat pos := c]\<rparr>
     else s\<lparr>buf := (buf s)[nat (int (m_length s) + pos) := c]\<rparr>)"

text \<open>\<open>trim\<close> calls \<open>strcpy\<close> with the buffer as target and the text behind the leading blanks as
  source, whatever their number (the test in front of the block ends in a semicolon). The copy moves
  the text and its terminator to the front; what lies behind stays. It is defined only when source and
  target do not overlap, that is when there are more leading blanks than bytes behind them; otherwise
  the result is \<open>None\<close>.\<close>

definition overlaps :: "nat \<Rightarrow> nat \<Rightarrow> bool" where
  "overlaps offset n = (offset < n)"

definition strcpy_front :: "nat \<Rightarrow> CHAR8 list \<Rightarrow> CHAR8 list option" where
  "strcpy_front k bs = (let t = cstr (drop k bs) @ [0] in
     if overlaps k (length t) then None else Some (t @ drop (length t) bs))"

definition rstrip :: "CHAR8 list \<Rightarrow> CHAR8 list" where
  "rstrip bs = rev (dropWhile isspace (rev bs))"

definition trim :: "CStr \<Rightarrow> CStr option" where
  "trim s = (let k = length (takeWhile isspace (buf s)) in do {
     bs \<leftarrow> strcpy_front k (buf s @ [0]);
     Some (s\<lparr>buf := rstrip (take (m_length s - k) bs)\<rparr>) })"

definition trimAll :: "CStr \<Rightarrow> CStr" where
  "trimAll s = s\<lparr>buf := filter isalnum (cstr (buf s))\<rparr>"

text \<open>\<open>cut\<close> assigns the rest of its own buffer to the string, with \<open>memcpy\<close>: undefined when a rest that
  is not empty overlaps the front.\<close>

definition cut_sep :: "CHAR8 list \<Rightarrow> CStr \<Rightarrow> CStr \<Rightarrow> (CStr \<times> CStr) option" where
  "cut_sep sep result s = (case strstr (cstr (buf s)) (cstr sep) of
       None \<Rightarrow> do { result \<leftarrow> assign_s s result; Some (result, clear_c s) }
     | Some p \<Rightarrow> do {
         result \<leftarrow> nCat (take p (buf s)) (clear_c result);
         let rest = drop (p + length (cstr sep)) (cstr (buf s));
         if rest \<noteq> [] \<and> overlaps (p + length (cstr sep)) (length rest + 1) then None
         else do {
           s \<leftarrow> assign_cs (Some rest) s;
           Some (result, s) } })"

definition cut_len :: "int \<Rightarrow> CStr \<Rightarrow> CStr" where
  "cut_len len s = (if len \<ge> int (m_length s) \<or> len < - int (m_length s) then s
     else if len \<ge> 0 then s\<lparr>buf := take (nat len) (buf s)\<rparr>
     else s\<lparr>buf := take (nat (int (m_length s) + len)) (buf s)\<rparr>)"

definition contain_any :: "CHAR8 list \<Rightarrow> CStr \<Rightarrow> bool" where
  "contain_any charSet s = (\<exists>c \<in> set (cstr charSet). c \<in> set (cstr (buf s)))"

definition index_c :: "CHAR8 list \<Rightarrow> CStr \<Rightarrow> int" where
  "index_c subStr s = (case strstr (cstr (buf s)) (cstr subStr) of None \<Rightarrow> - 1 | Some n \<Rightarrow> int n)"

definition beginWith :: "CHAR8 list \<Rightarrow> CStr \<Rightarrow> bool" where
  "beginWith beginStr s = strncmp_eq (cstr (buf s)) (cstr beginStr)"

definition endWith :: "CHAR8 list \<Rightarrow> CStr \<Rightarrow> bool" where
  "endWith endStr s = (let len = length (cstr endStr) in
     if len > m_length s then False
     else strcmp (cstr (drop (m_length s - len) (buf s))) (cstr endStr) = 0)"

definition map_prefix :: "(CHAR8 \<Rightarrow> CHAR8) \<Rightarrow> CHAR8 list \<Rightarrow> CHAR8 list" where
  "map_prefix f bs = map f (cstr bs) @ drop (length (cstr bs)) bs"

definition toLower :: "CStr \<Rightarrow> CStr" where
  "toLower s = s\<lparr>buf := map_prefix tolower (buf s)\<rparr>"

definition toUpper :: "CStr \<Rightarrow> CStr" where
  "toUpper s = s\<lparr>buf := map_prefix toupper (buf s)\<rparr>"

text \<open>The first four bytes as a little-endian number, padded with zeros.\<close>

definition hash_c :: "CStr \<Rightarrow> UINT" where
  "hash_c s = (let t = take 4 (cstr (buf s)) @ replicate (4 - length (take 4 (cstr (buf s)))) 0 in
     ucast (t ! 0) + 256 * ucast (t ! 1) + 65536 * ucast (t ! 2) + 16777216 * ucast (t ! 3))"

text \<open>\<open>replace\<close>. With an empty pattern \<open>strstr\<close> always succeeds at once and
  \<open>p\<close> never moves: the loop does not end, which is \<open>None\<close>.\<close>

partial_function (option) replace_loop :: "CHAR8 list \<Rightarrow> CHAR8 list \<Rightarrow> CHAR8 list \<Rightarrow> CStr \<Rightarrow> CStr option" where
  "replace_loop pat rep p dest = (case strstr p pat of
       None \<Rightarrow> append_cs p dest
     | Some q \<Rightarrow> do {
         dest \<leftarrow> nCat (take q p) dest;
         dest \<leftarrow> append_cs rep dest;
         replace_loop pat rep (drop (q + length pat) p) dest })"

definition replace :: "CHAR8 list \<Rightarrow> CHAR8 list \<Rightarrow> CStr \<Rightarrow> CStr option" where
  "replace pat rep s = do {
     dest \<leftarrow> replace_loop (cstr pat) (cstr rep) (cstr (buf s)) CStr_new;
     assign_s dest s }"

section \<open>Escapes\<close>

text \<open>The size of the buffer for an escaped text is an \<open>int\<close> expression; its overflow is \<open>None\<close>.\<close>

definition lit :: "string \<Rightarrow> CHAR8 list" where
  "lit s = map of_char s"

fun uric_enc :: "CHAR8 list \<Rightarrow> CHAR8 list" where
  "uric_enc [] = []"
| "uric_enc (c # cs) = (if c = 38 \<or> c = 61 \<or> c = 43 \<or> c = 37 then 37 # hex2 c @ uric_enc cs
     else if c = 32 then 43 # uric_enc cs else c # uric_enc cs)"

definition uricEncode :: "CStr \<Rightarrow> CStr option" where
  "uricEncode s = (let buffer = uric_enc (cstr (buf s)) in
     if m_length s * 3 + 1 \<ge> 2 ^ 31 \<or> length buffer > m_length s * 3 then None
     else store buffer (if length buffer > m_capacity s then resize_c (length buffer) s else s))"

definition hex_value :: "CHAR8 \<Rightarrow> nat option" where
  "hex_value c = (if isdigit c then Some (unat (c - 48))
     else if 65 \<le> c \<and> c \<le> 70 then Some (unat (c - 55))
     else if 97 \<le> c \<and> c \<le> 102 then Some (unat (c - 87)) else None)"

definition c_div :: "int \<Rightarrow> int \<Rightarrow> int" where
  "c_div a b = sgn a * sgn b * (\<bar>a\<bar> div \<bar>b\<bar>)"

definition utf8_bytes :: "int \<Rightarrow> CHAR8 list" where
  "utf8_bytes i = (let highByte = of_int (c_div i 256) :: CHAR8; lowerByte = of_int (i - 256 * c_div i 256) :: CHAR8 in
     if highByte = 0 \<and> lowerByte < 0x80 then [lowerByte]
     else if highByte < 0x08 then
       [0xC0 OR (push_bit 2 highByte AND 0x1C) OR (drop_bit 6 lowerByte AND 0x03), 0x80 OR (lowerByte AND 0x3F)]
     else [0xE0 OR drop_bit 4 highByte, 0x80 OR (push_bit 2 highByte AND 0x3C) OR (drop_bit 6 lowerByte AND 0x03),
       0x80 OR (lowerByte AND 0x3F)])"

definition intCatUtf8 :: "int \<Rightarrow> CStr \<Rightarrow> CStr option" where
  "intCatUtf8 i s = nCat (utf8_bytes i) s"

text \<open>\<open>uricDecode\<close> with \<open>sscanf\<close> on complete hexadecimal digits; an escape that
  lacks digits leaves the value unset or steps over the terminator, which is \<open>None\<close>.\<close>

fun uric_dec :: "CHAR8 list \<Rightarrow> CHAR8 list option" where
  "uric_dec [] = Some []"
| "uric_dec (c # cs) = (if c = 37 then
       (case cs of
          u # a # b # c # d # rest \<Rightarrow>
            (if u = 117 then do {
               x \<leftarrow> hex_value a; y \<leftarrow> hex_value b; z \<leftarrow> hex_value c; w \<leftarrow> hex_value d;
               ds \<leftarrow> uric_dec rest;
               Some (utf8_bytes (int (4096 * x + 256 * y + 16 * z + w)) @ ds) }
             else do {
               x \<leftarrow> hex_value u; y \<leftarrow> hex_value a;
               ds \<leftarrow> uric_dec (b # c # d # rest);
               Some (of_nat (16 * x + y) # ds) })
        | u # a # rest \<Rightarrow> do {
            x \<leftarrow> hex_value u; y \<leftarrow> hex_value a;
            ds \<leftarrow> uric_dec rest;
            Some (of_nat (16 * x + y) # ds) }
        | _ \<Rightarrow> None)
     else do { ds \<leftarrow> uric_dec cs; Some ((if c = 43 then 32 else c) # ds) })"

definition uricDecode :: "CStr \<Rightarrow> CStr option" where
  "uricDecode s = do { w \<leftarrow> uric_dec (cstr (buf s)); store w s }"

fun html_enc :: "CHAR8 list \<Rightarrow> CHAR8 list" where
  "html_enc [] = []"
| "html_enc (c # cs) = (if c = 38 then lit ''&amp;'' @ html_enc cs
     else if c = 60 then lit ''&lt;'' @ html_enc cs
     else if c = 62 then lit ''&gt;'' @ html_enc cs
     else if c = 39 then lit ''&apos;'' @ html_enc cs
     else if c = 34 then lit ''&quot;'' @ html_enc cs
     else if c = 32 \<and> cs \<noteq> [] \<and> hd cs = 32 then lit ''&nbsp;'' @ html_enc cs
     else if c = 10 then lit ''<br>'' @ [10] @ html_enc cs
     else if c = 13 then html_enc cs
     else c # html_enc cs)"

definition htmlEncode :: "CStr \<Rightarrow> CStr option" where
  "htmlEncode s = (let buffer = html_enc (cstr (buf s)) in
     if m_length s * 6 + 1 \<ge> 2 ^ 31 \<or> length buffer > m_length s * 6 then None
     else store buffer (if length buffer > m_capacity s then resize_c (length buffer) s else s))"

section \<open>Binary integers and the wire format\<close>

definition enc_int :: "32 word \<Rightarrow> CHAR8 list" where
  "enc_int v = [ucast (drop_bit 24 v), ucast (drop_bit 16 v), ucast (drop_bit 8 v), ucast v]"

fun dec_int :: "CHAR8 list \<Rightarrow> (32 word \<times> CHAR8 list) option" where
  "dec_int (a # b # c # d # rest) =
     Some (push_bit 24 (ucast a) OR push_bit 16 (ucast b) OR push_bit 8 (ucast c) OR ucast d, rest)"
| "dec_int _ = None"

definition intCat4 :: "32 word \<Rightarrow> CStr \<Rightarrow> CStr option" where
  "intCat4 i s = nCat (enc_int i) s"

text \<open>The loop condition of \<open>intCatShort\<close> is \<open>(len>1 && A) || B\<close> as C++ groups it,
  so that \<open>B\<close> is read for the last byte too.\<close>

fun short_bytes :: "CHAR8 list \<Rightarrow> CHAR8 list option" where
  "short_bytes (x # y # r) = (if x = 0 \<and> y AND 0x80 = 0 \<or> x = 0xFF \<and> y AND 0x80 \<noteq> 0
     then short_bytes (y # r) else Some (x # y # r))"
| "short_bytes [x] = (if x = 0xFF then None else Some [x])"
| "short_bytes [] = None"

definition intCatShort :: "32 word \<Rightarrow> CStr \<Rightarrow> CStr option" where
  "intCatShort i s = do { p \<leftarrow> short_bytes (enc_int i); nCat p s }"

definition cat7_chars :: "32 word \<Rightarrow> CHAR8 list" where
  "cat7_chars v = [ucast (signed_drop_bit 28 (v AND 0xF0000000)), ucast (drop_bit 21 (v AND 0x0FE00000)),
     ucast (drop_bit 14 (v AND 0x001FC000)), ucast (drop_bit 7 (v AND 0x00003F80)), ucast (v AND 0x0000007F)]"

fun cat7_loop :: "bool \<Rightarrow> CHAR8 list \<Rightarrow> CStr \<Rightarrow> CStr option" where
  "cat7_loop begun [] s = Some s"
| "cat7_loop begun (c # cs) s = (if c \<noteq> 0 \<or> begun \<or> cs = []
     then do { s \<leftarrow> append_c (if cs \<noteq> [] then c OR 0x80 else c) s; cat7_loop True cs s }
     else cat7_loop begun cs s)"

definition intCat7 :: "32 word \<Rightarrow> CStr \<Rightarrow> CStr option" where
  "intCat7 v s = cat7_loop False (cat7_chars v) s"

definition size_c :: "CStr \<Rightarrow> nat" where
  "size_c s = 4 + m_length s"

definition encode_c :: "CStr \<Rightarrow> CHAR8 list" where
  "encode_c s = enc_int (of_nat (m_length s)) @ buf s"

text \<open>\<open>decode\<close> trusts the length it reads: a negative one, or one longer than the buffer
  behind \<open>buf\<close>, is undefined.\<close>

definition decode_c :: "CHAR8 list \<Rightarrow> CStr \<Rightarrow> (CStr \<times> CHAR8 list) option" where
  "decode_c b s = do {
     (len, b) \<leftarrow> dec_int b;
     if sint len < 0 \<or> unat len > length b then None
     else do {
       s \<leftarrow> store (take (unat len) b) (if unat len > m_capacity s then resize_c (unat len) s else s);
       Some (s, drop (unat len) b) } }"

definition short_size :: "CStr \<Rightarrow> nat" where
  "short_size s = 1 + m_length s"

definition short_encode :: "CStr \<Rightarrow> CHAR8 list" where
  "short_encode s = (let shortLen = (if m_length s > 255 then 255 else m_length s) in
     of_nat shortLen # take shortLen (buf s))"

definition short_decode :: "CHAR8 list \<Rightarrow> CStr \<Rightarrow> (CStr \<times> CHAR8 list) option" where
  "short_decode b s = (case b of [] \<Rightarrow> None
     | c # _ \<Rightarrow> (let len = unat c in
         if len > length b then None
         else do {
           s \<leftarrow> store (take len b) (if len > m_capacity s then resize_c len s else s);
           Some (s, drop len b) }))"

section \<open>Splitting and merging\<close>

fun split_loop :: "CHAR8 list \<Rightarrow> nat \<Rightarrow> CHAR8 list \<Rightarrow> nat \<Rightarrow> CStr list \<Rightarrow> (nat \<times> CStr list) option" where
  "split_loop sep 0 p argc argv = Some (argc, argv)"
| "split_loop sep (Suc n) p argc argv = (if p = [] then Some (argc, argv)
     else if argc \<ge> length argv then None
     else (case strstr (cstr p) sep of
         None \<Rightarrow> do { a \<leftarrow> assign_cs (Some p) (argv ! argc); Some (argc + 1, argv[argc := a]) }
       | Some q \<Rightarrow> do {
           a \<leftarrow> set_c (take q p) (argv ! argc);
           split_loop sep n (drop (q + length sep) p) (argc + 1) (argv[argc := a]) }))"

definition split_sep :: "CStr list \<Rightarrow> nat \<Rightarrow> CHAR8 list \<Rightarrow> CStr \<Rightarrow> (nat \<times> CStr list) option" where
  "split_sep argv maxArgc sep s = split_loop (cstr sep) maxArgc (buf s) 0 argv"

fun merge_loop :: "bool \<Rightarrow> CStr list \<Rightarrow> CStr \<Rightarrow> CStr option" where
  "merge_loop first [] s = Some s"
| "merge_loop first (a # as) s = do {
     s \<leftarrow> (if first then Some s else append_cs [32] s);
     s \<leftarrow> append_s a s;
     merge_loop False as s }"

definition merge :: "CStr list \<Rightarrow> CStr \<Rightarrow> CStr option" where
  "merge argv s = merge_loop True argv (clear_c s)"

text \<open>\<open>split\<close> on blanks, with quotes and backslashes. A position past the terminator is
  \<open>None\<close>.\<close>

definition blank :: "CHAR8 \<Rightarrow> bool" where
  "blank c = (c = 32 \<or> c = 9)"

definition after_escape :: "CHAR8 list \<Rightarrow> CHAR8 list" where
  "after_escape bs = (case bs of [] \<Rightarrow> [] | c # cs \<Rightarrow> (if c = 92 then cs else bs))"

lemma after_escape_le: "length (after_escape bs) \<le> length bs"
  by (auto simp: after_escape_def split: list.splits)

function split_word :: "bool \<Rightarrow> CHAR8 list \<Rightarrow> CStr \<Rightarrow> (CStr \<times> bool \<times> CHAR8 list) option" where
  "split_word q [] w = Some (w, q, [])"
| "split_word q (c # cs) w = (if \<not> q \<and> blank c then Some (w, q, c # cs)
     else (let q' = (if c = 39 then \<not> q else q) in
       case after_escape (if c = 39 then cs else c # cs) of
         [] \<Rightarrow> None
       | d # rest \<Rightarrow> do { w \<leftarrow> append_c d w; split_word q' rest w }))"
  by pat_completeness auto
termination
proof (relation "measure (\<lambda>(q, bs, w). length bs)", goal_cases)
  case (2 q c cs w q' d rest w')
  have "length (d # rest) \<le> length (c # cs)"
    using after_escape_le [of "if c = 39 then cs else c # cs"] 2(3) by (auto split: if_splits)
  then show ?case by simp
qed auto

fun split_ws_loop :: "nat \<Rightarrow> bool \<Rightarrow> CHAR8 list \<Rightarrow> nat \<Rightarrow> CStr list \<Rightarrow> (nat \<times> CStr list) option" where
  "split_ws_loop 0 q bs argc argv = Some (argc, argv)"
| "split_ws_loop (Suc n) q bs argc argv = (case dropWhile blank bs of
       [] \<Rightarrow> Some (argc, argv)
     | c # cs \<Rightarrow> (if argc \<ge> length argv then None
         else do {
           (w, q, rest) \<leftarrow> split_word q (c # cs) (argv ! argc);
           split_ws_loop n q rest (argc + 1) (argv[argc := w]) }))"

abbreviation "MaxArgC \<equiv> 20 :: nat"

definition split_ws :: "CStr list \<Rightarrow> CStr \<Rightarrow> (nat \<times> CStr list) option" where
  "split_ws argv s = split_ws_loop MaxArgC False (cstr (buf s)) 0 argv"

text \<open>The next component of a field path such as \<open>a[3].b\<close>.\<close>

definition getFieldName :: "CHAR8 list option \<Rightarrow> CStr \<Rightarrow> (CStr \<times> 32 word \<times> CHAR8 list option) option" where
  "getFieldName p s = (case p of
       None \<Rightarrow> Some (clear_c s, - 1, None)
     | Some t \<Rightarrow> do {
         (s, p) \<leftarrow> (case strstr (cstr t) [46] of
             None \<Rightarrow> do { s \<leftarrow> assign_cs (Some t) s; Some (s, None) }
           | Some n \<Rightarrow> do { s \<leftarrow> set_c (take n t) s; Some (s, Some (drop (n + 1) (cstr t))) });
         (case strstr (cstr (buf s)) [91] of
             None \<Rightarrow> Some (s, - 1, p)
           | Some k \<Rightarrow> Some (s\<lparr>buf := take k (buf s)\<rparr>, atoi (drop (k + 1) (buf s)), p)) })"

section \<open>Formatting\<close>

fun foldM :: "('x \<Rightarrow> 's \<Rightarrow> 's option) \<Rightarrow> 'x list \<Rightarrow> 's \<Rightarrow> 's option" where
  "foldM f [] s = Some s"
| "foldM f (x # xs) s = do { s \<leftarrow> f x s; foldM f xs s }"

definition fCatChars :: "CHAR8 \<Rightarrow> nat \<Rightarrow> CStr \<Rightarrow> CStr option" where
  "fCatChars fillChar lineLen s = foldM append_c (replicate lineLen fillChar) s"

definition fCatTitle :: "CHAR8 list \<Rightarrow> CHAR8 \<Rightarrow> nat \<Rightarrow> CStr \<Rightarrow> CStr option" where
  "fCatTitle title fillChar lineLen s = (let titleLen = length (cstr title) in
     if int titleLen > int lineLen - 4 then append_cs title s
     else do {
       let leftLen = (lineLen - titleLen - 2) div 2;
       let rightLen = lineLen - titleLen - 2 - leftLen;
       s \<leftarrow> fCatChars fillChar leftLen s;
       s \<leftarrow> append_c 32 s;
       s \<leftarrow> append_cs title s;
       s \<leftarrow> append_c 32 s;
       fCatChars fillChar rightLen s })"

definition fCatShortBin :: "CHAR8 list \<Rightarrow> CStr \<Rightarrow> CStr option" where
  "fCatShortBin content s = foldM (\<lambda>i. append_cs ((if i = 0 then [] else [32]) @ hex2 (content ! i))) [0..<length content] s"

definition fCatBin2 :: "CHAR8 list \<Rightarrow> nat \<Rightarrow> CStr \<Rightarrow> CStr option" where
  "fCatBin2 content indent s = foldM (\<lambda>i s. do {
       s \<leftarrow> (if i \<noteq> 0 \<and> i mod 16 = 0 then do { s \<leftarrow> append_cs [10] s; fCatChars 32 indent s } else Some s);
       append_cs (hex2 (content ! i) @ [32]) s }) [0..<length content] s"

definition printable :: "CHAR8 \<Rightarrow> CHAR8" where
  "printable c = (if isgraph c then c else 46)"

definition fCatBin :: "CHAR8 list \<Rightarrow> CStr \<Rightarrow> CStr option" where
  "fCatBin content s = (let len = length content; last_row = (len - 1) div 16 in do {
     s \<leftarrow> foldM (\<lambda>i s. do {
       s \<leftarrow> (if i mod 16 = 0 then do {
           s \<leftarrow> (if i \<noteq> 0 then do {
               s \<leftarrow> append_cs [32, 32] s;
               foldM (\<lambda>j. append_c (printable (content ! j))) [i - 16..<i] s }
             else Some s);
           append_cs ([10, 91] @ pad_left 3 (nat_str i) @ [45] @
             pad_right 3 (nat_str (if i + 16 \<le> len - 1 then i + 15 else len - 1)) @ [93]) s }
         else Some s);
       append_cs ((if i mod 8 = 0 then [32] else []) @ hex2 (content ! i) @ [32]) s }) [0..<len] s;
     s \<leftarrow> foldM (\<lambda>i s. do {
       s \<leftarrow> (if i mod 8 = 0 \<and> i mod 16 \<noteq> 0 then append_cs [32] s else Some s);
       append_cs [32, 32, 32] s }) [len..<(last_row + 1) * 16] s;
     s \<leftarrow> append_cs [32, 32] s;
     foldM (\<lambda>j. append_c (printable (content ! j))) [last_row * 16..<len] s })"

definition list_char :: "CHAR8 \<Rightarrow> CHAR8 list" where
  "list_char c = (if isgraph c then [c] else if c = 32 then [32] else if c = 9 then [94, 73]
     else if c = 10 then [36, 10] else if c = 13 then [94, 77] else 92 # hex2 c)"

definition c_strList :: "CStr \<Rightarrow> CHAR8 list" where
  "c_strList s = concat (map list_char (buf s))"

definition vchar_bprint :: "CHAR8 list \<Rightarrow> CHAR8 list" where
  "vchar_bprint s = concat (map (\<lambda>c. if isgraph c \<or> isspace c then [c] else 92 # hex2 c) (take 992 s)) @
     (if length s > 992 then lit '' ... <'' @ nat_str (length s - 992) @ lit '' bytes not displayed>'' else [])"

end
