(* ===== verification/CStrSpec.thy ===== *)
theory CStrSpec
  imports CStr Interfaces
begin

text \<open>
  Correctness of \<open>CStr\<close>: no operation writes outside the buffer, each has the effect on the
  byte sequence its name promises, and the wire and text formats can be read back.
\<close>

unbundle bit_operations_syntax

section \<open>Buffer safety\<close>

text \<open>\<open>s'\<close> holds given bytes within its capacity, which is not below that of \<open>s\<close>.\<close>

definition upd :: "CStr \<Rightarrow> CStr \<Rightarrow> CHAR8 list \<Rightarrow> bool" where
  "upd s s' bs = (buf s' = bs \<and> length bs \<le> m_capacity s' \<and> m_capacity s \<le> m_capacity s')"

lemma resize_cap: "n \<le> m_capacity (resize_c n s)"
  by (auto simp: resize_c_def)

lemma resize_mono: "m_capacity s \<le> m_capacity (resize_c n s)"
  by (auto simp: resize_c_def)

lemma resize_buf [simp]: "buf (resize_c n s) = buf s"
  by (simp add: resize_c_def)

lemma store_upd: "length bs \<le> m_capacity s \<Longrightarrow> m_capacity s0 \<le> m_capacity s \<Longrightarrow> \<exists>s'. store bs s = Some s' \<and> upd s0 s' bs"
  by (simp add: store_def upd_def)

lemma grow_store: "\<exists>s'. store bs (if length bs > m_capacity s then resize_c (length bs) s else s) = Some s' \<and> upd s s' bs"
  using resize_cap [of "length bs" s] by (auto intro!: store_upd resize_mono)

lemma nCat_ok: "\<exists>s'. nCat str s = Some s' \<and> upd s s' (buf s @ str)"
  using resize_cap [of "m_length s + length str" s] by (auto simp: nCat_def Let_def intro!: store_upd resize_mono)

lemma append_s_ok: "\<exists>s'. append_s str s = Some s' \<and> upd s s' (buf s @ buf str)"
  using resize_cap [of "m_length s + m_length str" s] by (auto simp: append_s_def Let_def intro!: store_upd resize_mono)

lemma append_cs_ok: "\<exists>s'. append_cs str s = Some s' \<and> upd s s' (buf s @ cstr str)"
  using resize_cap [of "m_length s + length (cstr str)" s] by (auto simp: append_cs_def Let_def intro!: store_upd resize_mono)

lemma append_c_ok: "\<exists>s'. append_c c s = Some s' \<and> upd s s' (buf s @ [c])"
  using resize_cap [of "m_length s + 1" s] by (auto simp: append_c_def Let_def intro!: store_upd resize_mono)

lemma assign_s_ok: "\<exists>s'. assign_s str s = Some s' \<and> upd s s' (buf str)"
  unfolding assign_s_def by (rule grow_store)

lemma set_c_ok: "\<exists>s'. set_c str s = Some s' \<and> upd s s' str"
  unfolding set_c_def by (rule grow_store)

lemma assign_cs_ok: "\<exists>s'. assign_cs (Some p) s = Some s' \<and> upd s s' (cstr p)"
  using grow_store [of "cstr p" s] by (auto simp: assign_cs_def clear_c_def upd_def Let_def)

lemma foldM_append:
  "(\<And>x s. \<exists>s'. f x s = Some s' \<and> upd s s' (buf s @ g x)) \<Longrightarrow>
   length (buf s) \<le> m_capacity s \<Longrightarrow> \<exists>s'. foldM f xs s = Some s' \<and> upd s s' (buf s @ concat (map g xs))"
proof (induction xs arbitrary: s)
  case (Cons x xs)
  obtain s1 where s1: "f x s = Some s1" "upd s s1 (buf s @ g x)" using Cons.prems(1) by blast
  from Cons.IH [of s1, OF Cons.prems(1)] s1 show ?case by (auto simp: upd_def)
qed (simp add: upd_def)

lemma cstr_id: "0 \<notin> set s \<Longrightarrow> cstr s = s"
  by (induction s) (auto simp: cstr_def)

lemma cstr_no_zero: "0 \<notin> set (cstr s)"
  by (induction s) (auto simp: cstr_def)

lemma cstr_cstr [simp]: "cstr (cstr s) = cstr s"
  by (rule cstr_id [OF cstr_no_zero])

lemma cstr_len: "length (cstr s) \<le> length s"
  by (simp add: cstr_def length_takeWhile_le)

section \<open>Searching\<close>

lemma strncmp_eq_prefix: "strncmp_eq s p \<longleftrightarrow> (\<exists>t. s = p @ t)"
  by (induction s p rule: strncmp_eq.induct) auto

lemma strstr_Some: "strstr s p = Some n \<Longrightarrow> \<exists>t. s = take n s @ p @ t \<and> n + length p \<le> length s"
proof (induction s p arbitrary: n rule: strstr.induct)
  case (2 c s p)
  show ?case
  proof (cases "strncmp_eq (c # s) p")
    case True
    then obtain t where "c # s = p @ t" by (auto simp: strncmp_eq_prefix)
    then show ?thesis using 2 True by (metis append_Nil length_append le_add1 add_0 option.inject strstr.simps(2) take0)
  next
    case False
    then show ?thesis using 2 by auto
  qed
qed (auto split: if_splits)

lemma strstr_None: "strstr s p = None \<Longrightarrow> s \<noteq> a @ p @ b"
proof (induction s p arbitrary: a rule: strstr.induct)
  case (2 c s p)
  then show ?case by (cases a) (auto simp: strncmp_eq_prefix split: if_splits)
qed (auto split: if_splits)

lemma strstr_first: "strstr s p = Some n \<Longrightarrow> m < n \<Longrightarrow> \<not> strncmp_eq (drop m s) p"
proof (induction s p arbitrary: n m rule: strstr.induct)
  case (2 c s p)
  then show ?case by (cases m) (auto split: if_splits)
qed (auto split: if_splits)

lemma strcmp_eq: "strcmp a b = 0 \<longleftrightarrow> a = b"
  by (induction a b rule: strcmp.induct) auto

section \<open>Replacement\<close>

lemma subst_shorter: "strstr s p = Some n \<Longrightarrow> p \<noteq> [] \<Longrightarrow> length (drop (n + length p) s) < length s"
  using strstr_Some [of s p n] by (cases p) auto

text \<open>The specification: replace the leftmost occurrence and go on behind it.\<close>

function subst :: "CHAR8 list \<Rightarrow> CHAR8 list \<Rightarrow> CHAR8 list \<Rightarrow> CHAR8 list" where
  "subst pat rep s = (if pat = [] then s else case strstr s pat of
       None \<Rightarrow> s | Some n \<Rightarrow> take n s @ rep @ subst pat rep (drop (n + length pat) s))"
  by pat_completeness auto
termination
  by (relation "measure (\<lambda>(pat, rep, s). length s)") (use subst_shorter in auto)

declare subst.simps [simp del]

lemma no_zero_sub: "0 \<notin> set s \<Longrightarrow> 0 \<notin> set (take n s) \<and> 0 \<notin> set (drop m s)"
  by (auto dest: in_set_takeD in_set_dropD)

lemma replace_loop_ok:
  "pat \<noteq> [] \<Longrightarrow> 0 \<notin> set p \<Longrightarrow> 0 \<notin> set rep \<Longrightarrow>
   \<exists>d'. replace_loop pat rep p d = Some d' \<and> upd d d' (buf d @ subst pat rep p)"
proof (induction pat rep p arbitrary: d rule: subst.induct)
  case (1 pat rep p)
  note S = replace_loop.simps [of pat rep p d] subst.simps [of pat rep p]
  show ?case
  proof (cases "strstr p pat")
    case None
    then show ?thesis using append_cs_ok [of p d] 1(2,3) by (simp add: S cstr_id)
  next
    case (Some n)
    obtain d1 where d1: "nCat (take n p) d = Some d1" "upd d d1 (buf d @ take n p)" using nCat_ok by blast
    obtain d2 where d2: "append_cs rep d1 = Some d2" "upd d1 d2 (buf d1 @ cstr rep)" using append_cs_ok by blast
    from 1(1) [OF 1(2) Some 1(2)] obtain d' where
      "replace_loop pat rep (drop (n + length pat) p) d2 = Some d'" "upd d2 d' (buf d2 @ subst pat rep (drop (n + length pat) p))"
      using 1(3,4) no_zero_sub by blast
    then show ?thesis using d1 d2 Some 1(2,4) by (auto simp: S cstr_id upd_def)
  qed
qed

lemma replace_ok:
  assumes "pat \<noteq> []" "0 \<notin> set pat" "0 \<notin> set rep" "0 \<notin> set (buf s)"
  shows "\<exists>s'. replace pat rep s = Some s' \<and> upd s s' (subst pat rep (buf s))"
proof -
  obtain d where d: "replace_loop pat rep (buf s) CStr_new = Some d" "upd CStr_new d (buf CStr_new @ subst pat rep (buf s))"
    using replace_loop_ok [of pat "buf s" rep CStr_new] assms by blast
  then show ?thesis using assign_s_ok [of d s] assms by (auto simp: replace_def cstr_id upd_def CStr_new_def)
qed

text \<open>With an empty pattern the loop never leaves its first position.\<close>

lemma strstr_empty [simp]: "strstr s [] = Some 0"
  by (cases s) auto

lemma replace_empty_diverges: "replace_loop [] rep p d = None"
proof -
  have "pat \<noteq> []" if "replace_loop pat rep p d = Some r" for pat d r
    by (rule replace_loop.raw_induct [OF _ that]) (fastforce simp: bind_Some_iff split: option.splits)
  then show ?thesis by (metis option.exhaust)
qed

section \<open>Call sequences\<close>

text \<open>Editing operations and their specification on byte sequences without zero bytes.\<close>

datatype sop = SAssign "CHAR8 list" | SSet "CHAR8 list" | SInt "32 word" | SCat "CHAR8 list" | SCatC CHAR8 | SCatInt "32 word"
  | SCatN "CHAR8 list" | SClear | STrim | STrimAll | SCut int | SSetByte CHAR8 int | SLower | SUpper | SUric | SHtml
  | SReplace "CHAR8 list" "CHAR8 list"

fun sexec :: "sop \<Rightarrow> CStr \<Rightarrow> CStr option" where
  "sexec (SAssign p) s = assign_cs (Some p) s"
| "sexec (SSet p) s = set_c p s"
| "sexec (SInt i) s = assign_int (sint i) s"
| "sexec (SCat p) s = append_cs p s"
| "sexec (SCatC c) s = append_c c s"
| "sexec (SCatInt i) s = shl_int (sint i) s"
| "sexec (SCatN p) s = nCat p s"
| "sexec SClear s = Some (clear_c s)"
| "sexec STrim s = trim s"
| "sexec STrimAll s = Some (trimAll s)"
| "sexec (SCut n) s = Some (cut_len n s)"
| "sexec (SSetByte c n) s = Some (setByte c n s)"
| "sexec SLower s = Some (toLower s)"
| "sexec SUpper s = Some (toUpper s)"
| "sexec SUric s = uricEncode s"
| "sexec SHtml s = htmlEncode s"
| "sexec (SReplace pat rep) s = replace pat rep s"

definition py_index :: "int \<Rightarrow> 'a list \<Rightarrow> nat option" where
  "py_index i xs = (if 0 \<le> i \<and> i < int (length xs) then Some (nat i)
     else if i < 0 \<and> - int (length xs) \<le> i then Some (nat (int (length xs) + i)) else None)"

fun sspec :: "sop \<Rightarrow> CHAR8 list \<Rightarrow> CHAR8 list option" where
  "sspec (SAssign p) b = (if 0 \<in> set p then None else Some p)"
| "sspec (SSet p) b = (if 0 \<in> set p then None else Some p)"
| "sspec (SInt i) b = Some (int_str (sint i))"
| "sspec (SCat p) b = (if 0 \<in> set p then None else Some (b @ p))"
| "sspec (SCatC c) b = (if c = 0 then None else Some (b @ [c]))"
| "sspec (SCatInt i) b = Some (b @ int_str (sint i))"
| "sspec (SCatN p) b = (if 0 \<in> set p then None else Some (b @ p))"
| "sspec SClear b = Some []"
| "sspec STrim b = (if 2 * length (takeWhile isspace b) \<le> length b then None else Some (rstrip (dropWhile isspace b)))"
| "sspec STrimAll b = Some (filter isalnum b)"
| "sspec (SCut n) b = Some (case py_index n b of None \<Rightarrow> b | Some k \<Rightarrow> take k b)"
| "sspec (SSetByte c n) b = (if c = 0 then None else Some (case py_index n b of None \<Rightarrow> b | Some k \<Rightarrow> b[k := c]))"
| "sspec SLower b = Some (map tolower b)"
| "sspec SUpper b = Some (map toupper b)"
| "sspec SUric b = Some (uric_enc b)"
| "sspec SHtml b = Some (html_enc b)"
| "sspec (SReplace pat rep) b = (if pat = [] \<or> 0 \<in> set pat \<or> 0 \<in> set rep then None else Some (subst pat rep b))"

text \<open>The \<open>int\<close> values a call computes for a length or a buffer: the length it asks for, the rounded
  capacity of \<open>resize\<close>, and the buffers of the escapes. A call in which one of them overflows is
  undefined.\<close>

definition grown :: "nat \<Rightarrow> nat list" where
  "grown n = [n, (n div MaxCStrBufferLen + 1) * MaxCStrBufferLen]"

fun int_sizes :: "sop \<Rightarrow> CStr \<Rightarrow> nat list" where
  "int_sizes (SAssign p) s = grown (length (cstr p))"
| "int_sizes (SSet p) s = grown (length p)"
| "int_sizes (SCat p) s = grown (m_length s + length (cstr p))"
| "int_sizes (SCatC c) s = grown (m_length s + 1)"
| "int_sizes (SCatInt i) s = grown (m_length s + length (int_str (sint i)))"
| "int_sizes (SCatN p) s = grown (m_length s + length p)"
| "int_sizes SUric s = (m_length s * 3 + 1) # grown (length (uric_enc (cstr (buf s))))"
| "int_sizes SHtml s = (m_length s * 6 + 1) # grown (length (html_enc (cstr (buf s))))"
| "int_sizes (SReplace pat rep) s = grown (length (subst (cstr pat) (cstr rep) (cstr (buf s))))"
| "int_sizes p s = [m_length s]"

definition sexec_int :: "sop \<Rightarrow> CStr \<Rightarrow> CStr option" where
  "sexec_int p s = (if list_all (\<lambda>n. n < 2 ^ 31) (int_sizes p s) then sexec p s else None)"

fun sexecs :: "sop list \<Rightarrow> CStr \<Rightarrow> CStr option" where
  "sexecs [] s = Some s"
| "sexecs (p # ps) s = do { s \<leftarrow> sexec_int p s; sexecs ps s }"

text \<open>The specification covers texts of up to \<open>2 ^ 28\<close> bytes.\<close>

definition max_text :: nat where
  "max_text = 2 ^ 28"

fun sspecs :: "sop list \<Rightarrow> CHAR8 list \<Rightarrow> CHAR8 list option" where
  "sspecs [] b = Some b"
| "sspecs (p # ps) b = do { b \<leftarrow> sspec p b; if length b \<le> max_text then sspecs ps b else None }"

definition str_ok :: "CStr \<Rightarrow> bool" where
  "str_ok s = (m_length s \<le> m_capacity s \<and> MaxCStrBufferLen - 1 \<le> m_capacity s \<and> 0 \<notin> set (buf s))"

lemma digit_nonzero: "n < 10 \<Longrightarrow> (48 + of_nat n :: CHAR8) \<noteq> 0"
proof -
  assume "n < 10"
  then have "n \<in> {0, 1, 2, 3, 4, 5, 6, 7, 8, 9}" by auto
  then show ?thesis by auto
qed

lemma nat_str_no_zero: "0 \<notin> set (nat_str n)"
proof (induction n rule: nat_str.induct)
  case (1 n)
  have "(48 + of_nat (n mod 10) :: CHAR8) \<noteq> 0" by (rule digit_nonzero) simp
  moreover have "n < 10 \<Longrightarrow> (48 + of_nat n :: CHAR8) \<noteq> 0" by (rule digit_nonzero)
  ultimately show ?case using 1 by (subst nat_str.simps) auto
qed

lemma nat_str_length: "n < 10 ^ Suc k \<Longrightarrow> length (nat_str n) \<le> Suc k"
proof (induction k arbitrary: n)
  case (Suc k)
  then have "n div 10 < 10 ^ Suc k" by (simp add: less_mult_imp_div_less)
  then show ?case using Suc.IH [of "n div 10"] by (subst nat_str.simps) simp
qed (simp add: nat_str.simps)

lemma int_str_ok: "0 \<notin> set (int_str i)" "length (int_str (sint (v :: 32 word))) \<le> 11"
proof -
  show "0 \<notin> set (int_str i)" using nat_str_no_zero by (simp add: int_str_def)
  have "sint v < 2 ^ 31" "- (2 ^ 31) \<le> sint v" using sint_lt [of v] sint_ge [of v] by simp_all
  then have "nat (sint v) < 10 ^ Suc 9" "nat (- sint v) < 10 ^ Suc 9" by simp_all
  from this [THEN nat_str_length] show "length (int_str (sint v)) \<le> 11" by (simp add: int_str_def)
qed

lemma trim_ok:
  assumes z: "0 \<notin> set (buf s)"
  shows "trim s = (if 2 * length (takeWhile isspace (buf s)) \<le> m_length s then None
    else Some (s\<lparr>buf := rstrip (dropWhile isspace (buf s))\<rparr>))"
proof -
  let ?k = "length (takeWhile isspace (buf s))"
  have k: "?k \<le> m_length s" by (rule length_takeWhile_le)
  have "cstr (drop ?k (buf s @ [0])) = cstr (drop ?k (buf s) @ [0])" using k by simp
  also have "\<dots> = drop ?k (buf s)" using no_zero_sub [OF z, of 0 ?k] unfolding cstr_def by (subst takeWhile_append2) auto
  finally have t: "cstr (drop ?k (buf s @ [0])) = drop ?k (buf s)" .
  have "overlaps ?k (length (drop ?k (buf s) @ [0])) \<longleftrightarrow> 2 * ?k \<le> m_length s" using k by (auto simp: overlaps_def)
  then show ?thesis unfolding trim_def strcpy_front_def t Let_def by (simp add: dropWhile_eq_drop)
qed

lemma rstrip_sub: "set (rstrip b) \<subseteq> set b" "length (rstrip b) \<le> length b"
  using length_dropWhile_le [of isspace "rev b"] by (auto simp: rstrip_def dest: set_dropWhileD)

lemma map_prefix_id: "0 \<notin> set b \<Longrightarrow> map_prefix f b = map f b"
  by (simp add: map_prefix_def cstr_id)

lemma case_no_zero: "c \<noteq> 0 \<Longrightarrow> tolower c \<noteq> 0 \<and> toupper c \<noteq> 0"
proof -
  have "(c + 32 = 0 \<longrightarrow> c = 224) \<and> (c - 32 = 0 \<longrightarrow> c = 32)" by (auto simp: add_eq_0_iff2)
  then show "c \<noteq> 0 \<Longrightarrow> tolower c \<noteq> 0 \<and> toupper c \<noteq> 0" by (auto simp: tolower_def toupper_def)
qed

lemma lit_eval [simp]: "lit (c # cs) = of_char c # lit cs" "lit [] = []"
  by (simp_all add: lit_def)

lemma hex2_eval: "hex2 38 = [50, 54]" "hex2 61 = [51, 68]" "hex2 43 = [50, 66]" "hex2 37 = [50, 53]"
  by (simp_all add: hex2_def hex_digit_def)

lemma uric_enc_ok: "0 \<notin> set b \<Longrightarrow> 0 \<notin> set (uric_enc b) \<and> length (uric_enc b) \<le> length b * 3"
  by (induction b) (auto simp: hex2_eval)

lemma html_enc_ok: "0 \<notin> set b \<Longrightarrow> 0 \<notin> set (html_enc b) \<and> length (html_enc b) \<le> length b * 6"
  by (induction b) auto

lemma subst_no_zero: "0 \<notin> set rep \<Longrightarrow> 0 \<notin> set p \<Longrightarrow> 0 \<notin> set (subst pat rep p)"
proof (induction pat rep p rule: subst.induct)
  case (1 pat rep p)
  note S = subst.simps [of pat rep p]
  show ?case
  proof (cases "pat = [] \<or> strstr p pat = None")
    case True
    then show ?thesis using 1 by (auto simp: S)
  next
    case False
    then obtain n where n: "strstr p pat = Some n" by blast
    then show ?thesis using 1(1) [OF _ n] 1(2,3) False no_zero_sub [OF 1(3)] by (simp add: S)
  qed
qed

lemma cut_ok: "buf (cut_len n s) = (case py_index n (buf s) of None \<Rightarrow> buf s | Some k \<Rightarrow> take k (buf s))"
  "buf (setByte c n s) = (case py_index n (buf s) of None \<Rightarrow> buf s | Some k \<Rightarrow> (buf s)[k := c])"
  by (auto simp: cut_len_def setByte_def py_index_def)

lemma cap_kept: "m_capacity (trimAll s) = m_capacity s" "m_capacity (cut_len n s) = m_capacity s"
  "m_capacity (setByte c n s) = m_capacity s" "m_capacity (toLower s) = m_capacity s" "m_capacity (toUpper s) = m_capacity s"
  "m_capacity (clear_c s) = m_capacity s"
  by (simp_all add: trimAll_def cut_len_def setByte_def toLower_def toUpper_def clear_c_def Let_def)

text \<open>Results of editing in place, and of growing.\<close>

lemma in_place:
  assumes "str_ok s" "buf s' = b'" "length b' \<le> m_length s" "m_capacity s' = m_capacity s" "0 \<notin> set b'"
  shows "str_ok s' \<and> buf s' = b'"
  using assms by (auto simp: str_ok_def)

lemma upd_str: "str_ok s \<Longrightarrow> upd s s' b' \<Longrightarrow> 0 \<notin> set b' \<Longrightarrow> str_ok s' \<and> buf s' = b'"
  by (auto simp: upd_def str_ok_def)

lemma sexec_refines:
  assumes ok: "str_ok s" and len: "m_length s \<le> max_text" and sp: "sspec p (buf s) = Some b'"
  shows "\<exists>s'. sexec p s = Some s' \<and> str_ok s' \<and> buf s' = b'"
proof -
  have z: "0 \<notin> set (buf s)" and cap: "31 \<le> m_capacity s" using ok by (auto simp: str_ok_def)
  have L: "length (dropWhile isspace (buf s)) \<le> m_length s" by (rule length_dropWhile_le)
  have D: "set (dropWhile isspace (buf s)) \<subseteq> set (buf s)" by (auto dest: set_dropWhileD)
  note rs = rstrip_sub [of "dropWhile isspace (buf s)"]
  show ?thesis
  proof (cases p)
    case (SAssign q)
    then show ?thesis using sp assign_cs_ok [of q s] by (auto simp: cstr_id split: if_splits dest!: upd_str [OF ok])
  next
    case (SSet q)
    then show ?thesis using sp set_c_ok [of q s] by (auto split: if_splits dest!: upd_str [OF ok])
  next
    case (SInt i)
    then show ?thesis using sp cap int_str_ok(2) [of i] store_upd [of "int_str (sint i)" s s]
      by (auto simp: assign_int_def int_str_ok(1) dest!: upd_str [OF ok])
  next
    case (SCat q)
    then show ?thesis using sp append_cs_ok [of q s] z by (auto simp: cstr_id split: if_splits dest!: upd_str [OF ok])
  next
    case (SCatC c)
    then show ?thesis using sp append_c_ok [of c s] z by (auto split: if_splits dest!: upd_str [OF ok])
  next
    case (SCatInt i)
    then show ?thesis using sp append_cs_ok [of "int_str (sint i)" s] z by (auto simp: shl_int_def cstr_id int_str_ok(1) dest!: upd_str [OF ok])
  next
    case (SCatN q)
    then show ?thesis using sp nCat_ok [of q s] z by (auto split: if_splits dest!: upd_str [OF ok])
  next
    case SClear
    then show ?thesis using sp ok by (auto simp: clear_c_def str_ok_def)
  next
    case STrim
    let ?t = "s\<lparr>buf := rstrip (dropWhile isspace (buf s))\<rparr>"
    have "trim s = Some ?t" "b' = buf ?t" using STrim sp trim_ok [OF z] by (auto split: if_splits)
    moreover have "str_ok ?t \<and> buf ?t = rstrip (dropWhile isspace (buf s))"
      by (rule in_place [OF ok]) (use rs L D z in auto)
    ultimately show ?thesis using STrim by simp
  next
    case STrimAll
    then show ?thesis using sp ok z by (auto simp: trimAll_def str_ok_def cstr_id intro: le_trans [OF length_filter_le])
  next
    case (SCut n)
    have "str_ok (cut_len n s) \<and> buf (cut_len n s) = (case py_index n (buf s) of None \<Rightarrow> buf s | Some k \<Rightarrow> take k (buf s))"
      by (rule in_place [OF ok cut_ok(1) _ cap_kept(2)]) (use z no_zero_sub [OF z] in \<open>auto split: option.splits\<close>)
    then show ?thesis using SCut sp by auto
  next
    case (SSetByte c n)
    have "str_ok (setByte c n s) \<and> buf (setByte c n s) = (case py_index n (buf s) of None \<Rightarrow> buf s | Some k \<Rightarrow> (buf s)[k := c])"
      by (rule in_place [OF ok cut_ok(2) _ cap_kept(3)])
        (use z SSetByte sp in \<open>auto split: option.splits if_splits dest!: set_update_subset_insert [THEN subsetD]\<close>)
    then show ?thesis using SSetByte sp by (auto split: if_splits)
  next
    case SLower
    then show ?thesis using sp ok z case_no_zero by (auto simp: toLower_def str_ok_def map_prefix_id) metis
  next
    case SUpper
    then show ?thesis using sp ok z case_no_zero by (auto simp: toUpper_def str_ok_def map_prefix_id) metis
  next
    case SUric
    then show ?thesis using sp uric_enc_ok [OF z] grow_store [of "uric_enc (buf s)" s] z
      len by (auto simp: uricEncode_def cstr_id Let_def not_less not_le max_text_def dest!: upd_str [OF ok])
  next
    case SHtml
    then show ?thesis using sp html_enc_ok [OF z] grow_store [of "html_enc (buf s)" s] z
      len by (auto simp: htmlEncode_def cstr_id Let_def not_less not_le max_text_def dest!: upd_str [OF ok])
  next
    case (SReplace pat rep)
    then show ?thesis using sp replace_ok [of pat rep s] subst_no_zero [of rep "buf s" pat] z by (auto split: if_splits dest!: upd_str [OF ok])
  qed
qed

lemma grown_fits: "n \<le> 268435456 \<Longrightarrow> list_all (\<lambda>n. n < 2147483648) (grown n)"
  by (auto simp: grown_def)

lemma int_sizes_fit:
  assumes ok: "str_ok s" and len: "m_length s \<le> max_text" and sp: "sspec p (buf s) = Some b'" "length b' \<le> max_text"
  shows "list_all (\<lambda>n. n < 2 ^ 31) (int_sizes p s)"
proof -
  have z: "0 \<notin> set (buf s)" using ok by (simp add: str_ok_def)
  show ?thesis using sp len z by (cases p) (auto simp: cstr_id max_text_def grown_fits split: if_splits)
qed

lemma sexecs_refines:
  "str_ok s \<Longrightarrow> m_length s \<le> max_text \<Longrightarrow> sspecs ps (buf s) = Some b' \<Longrightarrow> \<exists>s'. sexecs ps s = Some s' \<and> str_ok s' \<and> buf s' = b'"
proof (induction ps arbitrary: s)
  case (Cons p ps)
  then obtain b1 where b1: "sspec p (buf s) = Some b1" "length b1 \<le> max_text" "sspecs ps b1 = Some b'" by (auto simp: bind_Some_iff split: if_splits)
  obtain s1 where "sexec p s = Some s1" "str_ok s1" "buf s1 = b1" using sexec_refines [OF Cons.prems(1,2) b1(1)] by blast
  then show ?case using Cons.IH [of s1] b1 int_sizes_fit [OF Cons.prems(1,2) b1(1,2)] by (auto simp: sexec_int_def)
qed simp

section \<open>Numbers as text\<close>

lemma digit_value_digit: "n < 10 \<Longrightarrow> digit_value (48 + of_nat n) = n \<and> isdigit (48 + of_nat n)"
proof -
  assume "n < 10"
  then have "n \<in> {0, 1, 2, 3, 4, 5, 6, 7, 8, 9}" by auto
  then show ?thesis by (auto simp: digit_value_def isdigit_def)
qed

lemma digits_value_snoc: "digits_value (ds @ [d]) = 10 * digits_value ds + digit_value d"
  by (simp add: digits_value_def)

lemma nat_str_value: "digits_value (nat_str n) = n \<and> (\<forall>c \<in> set (nat_str n). isdigit c)"
proof (induction n rule: nat_str.induct)
  case (1 n)
  show ?case
  proof (cases "n < 10")
    case True
    then show ?thesis using digit_value_digit [of n] by (simp add: nat_str.simps [of n] digits_value_def)
  next
    case False
    then show ?thesis using 1 digit_value_digit [of "n mod 10"] by (simp add: nat_str.simps [of n] digits_value_snoc)
  qed
qed

lemma nat_str_Cons: "\<exists>c cs. nat_str n = c # cs"
  by (subst nat_str.simps) (auto simp: neq_Nil_conv [symmetric])

lemma isdigit_facts: "isdigit c \<Longrightarrow> \<not> isspace c \<and> c \<noteq> 45 \<and> c \<noteq> 43 \<and> c \<noteq> 0"
  by (auto simp: isdigit_def isspace_def word_le_nat_alt)

lemma atoi_nat_str: "atoi (nat_str n) = of_nat n" "atoi (45 # nat_str n) = - of_nat n"
proof -
  obtain c cs where c: "nat_str n = c # cs" using nat_str_Cons by blast
  then have d: "isdigit c" using nat_str_value [of n] by auto
  have z: "cstr (nat_str n) = nat_str n" "cstr (45 # nat_str n) = 45 # nat_str n" by (rule cstr_id, use nat_str_no_zero in auto)+
  have t: "takeWhile isdigit (nat_str n) = nat_str n" using nat_str_value [of n] by (simp add: takeWhile_eq_all_conv)
  have tc: "takeWhile isdigit cs = cs" using nat_str_value [of n] c by (simp add: takeWhile_eq_all_conv)
  show "atoi (nat_str n) = of_nat n"
    using isdigit_facts [OF d] nat_str_value [of n] unfolding atoi_def z by (simp add: c tc)
  have "\<not> isspace 45" by (simp add: isspace_def)
  then show "atoi (45 # nat_str n) = - of_nat n" using nat_str_value [of n] unfolding atoi_def z by (simp add: t)
qed

lemma atoi_int_str: "atoi (int_str (sint v)) = v"
proof (cases "sint v < 0")
  case True
  then have "- (of_nat (nat (- sint v)) :: 32 word) = of_int (sint v)"
    by (metis (no_types) add.inverse_inverse less_imp_le neg_0_le_iff_le of_int_minus of_int_of_nat_eq of_nat_nat)
  then show ?thesis using True atoi_nat_str(2) by (simp add: int_str_def)
next
  case False
  then have "(of_nat (nat (sint v)) :: 32 word) = of_int (sint v)" by simp
  then show ?thesis using False atoi_nat_str(1) by (simp add: int_str_def)
qed

section \<open>Wire format\<close>

lemma dec_enc_int: "dec_int (enc_int v @ rest) = Some (v, rest)"
proof -
  have "push_bit 24 (ucast (ucast (drop_bit 24 v) :: CHAR8)) OR push_bit 16 (ucast (ucast (drop_bit 16 v) :: CHAR8)) OR
     push_bit 8 (ucast (ucast (drop_bit 8 v) :: CHAR8)) OR ucast (ucast v :: CHAR8) = v" (is "?l = v")
  proof (rule bit_word_eqI)
    fix n assume n: "n < LENGTH(32)"
    consider "n < 8" | "8 \<le> n" "n < 16" | "16 \<le> n" "n < 24" | "24 \<le> n" using not_less by blast
    then show "bit ?l n = bit v n" using n by cases (auto simp: bit_simps)
  qed
  then show ?thesis by (simp add: enc_int_def)
qed

lemma enc_int_length [simp]: "length (enc_int v) = 4"
  by (simp add: enc_int_def)

interpretation int_codec: codec enc_int dec_int "\<lambda>_. True"
  by unfold_locales (rule dec_enc_int)

text \<open>A string fits the wire format when its length is an \<open>int\<close>. The codec of strings
  starts from a fresh object.\<close>

definition dec_str :: "CHAR8 list \<Rightarrow> (CHAR8 list \<times> CHAR8 list) option" where
  "dec_str b = map_option (\<lambda>(s, r). (buf s, r)) (decode_c b CStr_new)"

lemma decode_encode:
  assumes "m_length x < 2 ^ 31"
  shows "\<exists>s'. decode_c (encode_c x @ rest) s = Some (s', rest) \<and> upd s s' (buf x)"
proof -
  have u: "unat (of_nat (m_length x) :: 32 word) = m_length x" using assms by (simp add: unat_of_nat)
  have "sint (of_nat (m_length x) :: 32 word) = int (m_length x)"
    using assms by (simp add: sint_uint signed_take_bit_int_eq_self uint_nat u)
  then have "\<not> sint (of_nat (m_length x) :: 32 word) < 0" by simp
  then show ?thesis using grow_store [of "buf x" s] u
    by (auto simp: decode_c_def encode_c_def dec_enc_int)
qed

interpretation str_codec: codec "\<lambda>b. encode_c \<lparr>buf = b, m_capacity = c\<rparr>" dec_str "\<lambda>b. length b < 2 ^ 31"
proof
  fix b rest :: "CHAR8 list" assume "length b < 2 ^ 31"
  then show "dec_str (encode_c \<lparr>buf = b, m_capacity = c\<rparr> @ rest) = Some (b, rest)"
    using decode_encode [of "\<lparr>buf = b, m_capacity = c\<rparr>" rest CStr_new] by (auto simp: dec_str_def upd_def)
qed

section \<open>Compact integers\<close>

text \<open>Readers of the two compact formats: sign extension of the first byte, and seven bits per
  byte with a continuation bit.\<close>

definition short_value :: "CHAR8 list \<Rightarrow> 32 word" where
  "short_value bs = foldl (\<lambda>v b. push_bit 8 v OR ucast b) (if hd bs AND 0x80 \<noteq> 0 then - 1 else 0) bs"

lemma short_value_step:
  assumes "x = 0 \<and> y AND 0x80 = 0 \<or> x = 0xFF \<and> y AND 0x80 \<noteq> 0"
  shows "short_value (x # y # r) = short_value (y # r)"
proof -
  define m :: "32 word" where "m = - 1"
  define f where "f = (\<lambda>(v :: 32 word) (b :: CHAR8). push_bit 8 v OR ucast b)"
  have "f m 0xFF = m" "f 0 0 = 0" unfolding m_def f_def by (simp_all add: push_bit_eq_mult del: push_bit_minus_one)
  then show ?thesis using assms unfolding short_value_def m_def [symmetric] f_def [symmetric] by auto
qed

lemma short_bytes_value: "short_bytes bs = Some p \<Longrightarrow> short_value p = short_value bs"
  by (induction bs rule: short_bytes.induct) (auto simp: short_value_step split: if_splits)

lemma short_bytes_None: "bs \<noteq> [] \<Longrightarrow> short_bytes bs = None \<Longrightarrow> last bs = 0xFF \<and> short_value bs = short_value [0xFF]"
  by (induction bs rule: short_bytes.induct) (auto simp: short_value_step split: if_splits)

lemma short_value_enc: "short_value (enc_int v) = v"
proof -
  have "push_bit 8 (push_bit 8 (push_bit 8 (push_bit 8 w OR ucast (ucast (drop_bit 24 v) :: CHAR8)) OR ucast (ucast (drop_bit 16 v) :: CHAR8)) OR
     ucast (ucast (drop_bit 8 v) :: CHAR8)) OR ucast (ucast v :: CHAR8) = v" (is "?l = v") for w :: "32 word"
  proof (rule bit_word_eqI)
    fix n assume n: "n < LENGTH(32)"
    consider "n < 8" | "8 \<le> n" "n < 16" | "16 \<le> n" "n < 24" | "24 \<le> n" using not_less by blast
    then show "bit ?l n = bit v n" using n by cases (auto simp: bit_simps)
  qed
  then show ?thesis by (simp add: short_value_def enc_int_def)
qed

fun dec7 :: "32 word \<Rightarrow> CHAR8 list \<Rightarrow> (32 word \<times> CHAR8 list) option" where
  "dec7 v [] = None"
| "dec7 v (c # cs) = (if c AND 0x80 \<noteq> 0 then dec7 (push_bit 7 v OR ucast (c AND 0x7F)) cs
     else Some (push_bit 7 v OR ucast (c AND 0x7F), cs))"

fun cat7_bytes :: "bool \<Rightarrow> CHAR8 list \<Rightarrow> CHAR8 list" where
  "cat7_bytes begun [] = []"
| "cat7_bytes begun (c # cs) = (if c \<noteq> 0 \<or> begun \<or> cs = []
     then (if cs \<noteq> [] then c OR 0x80 else c) # cat7_bytes True cs else cat7_bytes begun cs)"

lemma cat7_loop_ok: "m_length s \<le> m_capacity s \<Longrightarrow> \<exists>s'. cat7_loop b cs s = Some s' \<and> upd s s' (buf s @ cat7_bytes b cs)"
proof (induction b cs arbitrary: s rule: cat7_bytes.induct)
  case (2 b c cs)
  obtain s1 where s1: "append_c (if cs \<noteq> [] then c OR 0x80 else c) s = Some s1" "upd s s1 (buf s @ [if cs \<noteq> [] then c OR 0x80 else c])"
    using append_c_ok by blast
  show ?case
  proof (cases "c \<noteq> 0 \<or> b \<or> cs = []")
    case True
    then show ?thesis using 2(1) [OF True, of s1] s1 by (auto simp: upd_def)
  next
    case False
    then show ?thesis using 2(2) [OF False, of s] 2(3) by simp
  qed
qed (simp add: upd_def)

lemma and_7F: "(c :: CHAR8) AND 0x7F = take_bit 7 c"
  by (simp add: take_bit_eq_mask mask_eq_exp_minus_1)

lemma push_7: "(0x80 :: CHAR8) = push_bit 7 1"
  by (simp add: push_bit_eq_mult)

lemma and_80: "((c :: CHAR8) AND 0x80 \<noteq> 0) = bit c 7"
  unfolding push_7 by (simp add: bit_iff_and_push_bit_not_eq_0)

lemma or_80: "bit (c OR 0x80 :: CHAR8) n = (bit c n \<or> n = 7)"
  by (simp only: push_7 bit_or_iff bit_push_bit_iff bit_1_iff) auto

lemma and_mask32:
  "(v :: 32 word) AND 0xF0000000 = push_bit 28 (mask 4) AND v" "v AND 0x0FE00000 = push_bit 21 (mask 7) AND v"
  "v AND 0x001FC000 = push_bit 14 (mask 7) AND v" "v AND 0x00003F80 = push_bit 7 (mask 7) AND v" "v AND 0x0000007F = mask 7 AND v"
  by (simp_all add: push_bit_eq_mult mask_eq_exp_minus_1 and.commute)

lemma dec7_cat7:
  "cs \<noteq> [] \<Longrightarrow> last cs AND 0x80 = 0 \<Longrightarrow> (\<not> b \<longrightarrow> v = 0) \<Longrightarrow>
   dec7 v (cat7_bytes b cs @ rest) = Some (foldl (\<lambda>v c. push_bit 7 v OR ucast (c AND 0x7F)) v cs, rest)"
proof (induction b cs arbitrary: v rule: cat7_bytes.induct)
  case (2 b c cs)
  have o: "(c OR 0x80) AND 0x80 \<noteq> 0" "(c OR 0x80) AND 0x7F = c AND 0x7F"
    unfolding and_80 and_7F by (auto simp: or_80 bit_simps intro!: bit_word_eqI)
  show ?case
  proof (cases "cs = []")
    case True
    then show ?thesis using 2(4) by simp
  next
    case False
    then show ?thesis using 2 o by (auto simp: push_bit_eq_mult)
  qed
qed simp

lemma cat7_char:
  "ucast (take_bit 7 (ucast (drop_bit k (push_bit k (mask 7) AND v)) :: CHAR8)) = (take_bit 7 (drop_bit k v) :: 32 word)"
  by (rule bit_word_eqI) (auto simp: bit_simps dest: bit_imp_le_length)

lemma cat7_first:
  "push_bit 28 (ucast (take_bit 7 (ucast (signed_drop_bit 28 (push_bit 28 (mask 4) AND v)) :: CHAR8))) = (push_bit 28 (drop_bit 28 v) :: 32 word)"
  by (rule bit_word_eqI) (auto simp: bit_simps)

lemma cat7_chars_value: "foldl (\<lambda>v c. push_bit 7 v OR ucast (c AND 0x7F)) 0 (cat7_chars v) = (v :: 32 word)"
proof -
  let ?d = "\<lambda>k. take_bit 7 (drop_bit k v)"
  let ?f = "\<lambda>k. ucast (take_bit 7 (ucast (drop_bit k (push_bit k (mask 7) AND v)) :: CHAR8)) :: 32 word"
  have "foldl (\<lambda>v c. push_bit 7 v OR ucast (c AND 0x7F)) 0 (cat7_chars v) =
     push_bit 28 (ucast (take_bit 7 (ucast (signed_drop_bit 28 (push_bit 28 (mask 4) AND v)) :: CHAR8))) OR
     push_bit 21 (?f 21) OR push_bit 14 (?f 14) OR push_bit 7 (?f 7) OR ?f 0"
    by (simp add: cat7_chars_def and_mask32 and_7F push_bit_or or.assoc)
  also have "\<dots> = push_bit 28 (drop_bit 28 v) OR push_bit 21 (?d 21) OR push_bit 14 (?d 14) OR push_bit 7 (?d 7) OR ?d 0"
    unfolding cat7_char cat7_first ..
  also have "\<dots> = v" (is "?r = v")
  proof (rule bit_word_eqI)
    fix n assume n: "n < LENGTH(32)"
    consider "n < 7" | "7 \<le> n" "n < 14" | "14 \<le> n" "n < 21" | "21 \<le> n" "n < 28" | "28 \<le> n" using not_less by blast
    then show "bit ?r n = bit v n" using n by cases (auto simp: bit_simps)
  qed
  finally show ?thesis .
qed

section \<open>Reading escapes back\<close>

lemma uric_dec_hex:
  assumes "x \<noteq> 117" "hex_value x = Some a" "hex_value y = Some b"
  shows "uric_dec (37 # x # y # r) = do { ds \<leftarrow> uric_dec r; Some (of_nat (16 * a + b) # ds) }"
proof -
  consider "r = []" | z1 where "r = [z1]" | z1 z2 where "r = [z1, z2]" | z1 z2 z3 r' where "r = z1 # z2 # z3 # r'"
    by (metis list.exhaust)
  then show ?thesis using assms by cases auto
qed

lemma hex_values: "hex_value 50 = Some 2" "hex_value 51 = Some 3" "hex_value 54 = Some 6" "hex_value 68 = Some 13"
  "hex_value 66 = Some 11" "hex_value 53 = Some 5"
  by (simp_all add: hex_value_def isdigit_def)

lemma uric_dec_other: "c \<noteq> 37 \<Longrightarrow> uric_dec (c # cs) = do { ds \<leftarrow> uric_dec cs; Some ((if c = 43 then 32 else c) # ds) }"
  by simp

lemma uric_dec_enc: "uric_dec (uric_enc b) = Some b"
proof (induction b)
  case (Cons c cs)
  consider "c = 38" | "c = 61" | "c = 43" | "c = 37" | "c = 32" | "c \<noteq> 38" "c \<noteq> 61" "c \<noteq> 43" "c \<noteq> 37" "c \<noteq> 32" by blast
  then show ?case using Cons
    by cases (simp_all add: hex2_eval uric_dec_hex hex_values uric_dec_other del: uric_dec.simps(2))
qed simp

section \<open>Splitting what was joined\<close>

fun join :: "CHAR8 \<Rightarrow> CHAR8 list list \<Rightarrow> CHAR8 list" where
  "join c [] = []"
| "join c [f] = f"
| "join c (f # fs) = f @ c # join c fs"

lemma strstr_char: "c \<notin> set f \<Longrightarrow> strstr (f @ c # r) [c] = Some (length f)" "c \<notin> set f \<Longrightarrow> strstr f [c] = None"
  by (induction f) (auto simp: strncmp_eq_prefix)

lemma join_no_zero: "0 \<notin> \<Union> (set ` set fs) \<Longrightarrow> c \<noteq> 0 \<Longrightarrow> 0 \<notin> set (join c fs)"
  by (induction c fs rule: join.induct) auto

lemma split_loop_ok:
  "fs \<noteq> [] \<Longrightarrow> last fs \<noteq> [] \<Longrightarrow> c \<noteq> 0 \<Longrightarrow> \<forall>f \<in> set fs. c \<notin> set f \<and> 0 \<notin> set f \<Longrightarrow> length fs \<le> n \<Longrightarrow> argc + length fs \<le> length argv \<Longrightarrow>
   \<exists>argv'. split_loop [c] n (join c fs) argc argv = Some (argc + length fs, argv') \<and> length argv' = length argv \<and>
     (\<forall>i < length fs. buf (argv' ! (argc + i)) = fs ! i) \<and> (\<forall>j < argc. argv' ! j = argv ! j)"
proof (induction c fs arbitrary: n argc argv rule: join.induct)
  case (2 c f)
  then obtain m where n: "n = Suc m" by (cases n) auto
  obtain a where "assign_cs (Some f) (argv ! argc) = Some a" "upd (argv ! argc) a (cstr f)" using assign_cs_ok by blast
  then show ?case using 2 n strstr_char(2) [of c f] by (auto simp: cstr_id upd_def)
next
  case (3 c f g fs)
  then obtain m where n: "n = Suc m" by (cases n) auto
  have p: "0 \<notin> set (f @ c # join c (g # fs))" using 3 join_no_zero [of "g # fs" c] by auto
  obtain a where a: "set_c f (argv ! argc) = Some a" "upd (argv ! argc) a f" using set_c_ok by blast
  obtain argv' where I: "split_loop [c] m (join c (g # fs)) (Suc argc) (argv[argc := a]) = Some (Suc argc + length (g # fs), argv')"
    "length argv' = length argv" "\<forall>i < length (g # fs). buf (argv' ! (Suc argc + i)) = (g # fs) ! i"
    "\<forall>j < Suc argc. argv' ! j = argv[argc := a] ! j"
    using 3(1) [of m "Suc argc" "argv[argc := a]"] 3(2-) n by auto
  have "split_loop [c] n (join c (f # g # fs)) argc argv = Some (argc + length (f # g # fs), argv')"
    using I(1) a n 3 strstr_char(1) [of c f "join c (g # fs)"] cstr_id [OF p] by (simp del: join.simps(3) add: join.simps(3) [of c f g fs])
  moreover have "buf (argv' ! (argc + i)) = (f # g # fs) ! i" if "i < length (f # g # fs)" for i
  proof (cases i)
    case 0
    then show ?thesis using I(4) a(2) 3(7) by (auto simp: upd_def)
  next
    case (Suc k)
    then show ?thesis using I(3) that by auto
  qed
  moreover have "\<forall>j < argc. argv' ! j = argv ! j" using I(4) by auto
  ultimately show ?case using I(2) by blast
qed simp

lemma uric_enc_longer: "length b \<le> length (uric_enc b)"
  by (induction b) (auto simp: hex2_def)

lemma split_word_quoted: "39 \<notin> set t \<Longrightarrow> 92 \<notin> set t \<Longrightarrow> split_word True (t @ [39]) w = None"
proof (induction t arbitrary: w)
  case Nil
  then show ?case by (simp add: after_escape_def)
next
  case (Cons a t)
  then show ?case by (cases "append_c a w") (auto simp: after_escape_def)
qed

lemma enc_int_minus_one: "enc_int (- 1) = [0xFF, 0xFF, 0xFF, 0xFF]"
proof -
  have m: "(- 1 :: 32 word) = 0xFFFFFFFF" by simp
  show ?thesis unfolding m enc_int_def by simp
qed

section \<open>Properties\<close>

text \<open>Property C17. No sequence of editing calls that the specification defines on a fresh string writes
  outside its buffer or overflows an \<open>int\<close> it computes for a length or a buffer, and each call has its
  effect on the byte sequence: assignment, concatenation, numbers, trimming, cutting with negative
  positions, case conversion, the two escapes and replacement. The specification defines calls on texts
  without zero bytes of at most \<open>2 ^ 28\<close> bytes, replacement of a pattern that is not empty, and \<open>trim\<close>
  only when the text has more leading blanks than other bytes: in every other case \<open>trim\<close> copies
  overlapping memory (\<open>trim_overlaps\<close>).\<close>

theorem cstr_run_safe:
  assumes "sspecs ps [] = Some b"
  shows "\<exists>s. sexecs ps CStr_new = Some s \<and> buf s = b \<and> m_length s \<le> m_capacity s"
  using sexecs_refines [of CStr_new ps b] assms by (auto simp: str_ok_def CStr_new_def)

theorem cstr_run_safe_witness:
  "\<exists>s. sexecs [SCat [32, 32, 32, 65, 66], STrim, SLower, SCatC 32, SUric] CStr_new = Some s \<and> buf s = [97, 98, 43] \<and>
     m_length s \<le> m_capacity s"
  using cstr_run_safe [of "[SCat [32, 32, 32, 65, 66], STrim, SLower, SCatC 32, SUric]" "[97, 98, 43]"]
  by (simp add: rstrip_def isspace_def tolower_def max_text_def)

text \<open>\<open>trim\<close> of a text without zero bytes is undefined unless more than half of the text are leading
  blanks; even a text that begins with no blank is copied onto itself.\<close>

theorem trim_overlaps:
  assumes "0 \<notin> set (buf s)"
  shows "trim s = None \<longleftrightarrow> 2 * length (takeWhile isspace (buf s)) \<le> m_length s"
  using trim_ok [OF assms] by simp

text \<open>Property C18. \<open>replace\<close> with a non-empty pattern returns, and the result replaces the
  leftmost occurrences one behind the other; with an empty pattern it does not return.\<close>

theorem replace_total:
  assumes "0 \<notin> set pat" "0 \<notin> set rep" "0 \<notin> set (buf s)"
  shows "(if pat = [] then replace pat rep s = None
     else \<exists>s'. replace pat rep s = Some s' \<and> buf s' = subst pat rep (buf s))"
proof (cases "pat = []")
  case True
  then show ?thesis using replace_empty_diverges by (simp add: replace_def cstr_def)
next
  case False
  then show ?thesis using replace_ok [of pat rep s] assms by (auto simp: upd_def)
qed

theorem replace_total_witness:
  "replace [] [120] \<lparr>buf = [97], m_capacity = 31\<rparr> = None \<and>
   (\<exists>s'. replace [97] [120, 97] \<lparr>buf = [97, 98, 97], m_capacity = 31\<rparr> = Some s' \<and> buf s' = [120, 97, 98, 120, 97])"
  using replace_total [of "[]" "[120]" "\<lparr>buf = [97], m_capacity = 31\<rparr>"]
    replace_total [of "[97]" "[120, 97]" "\<lparr>buf = [97, 98, 97], m_capacity = 31\<rparr>"]
  by (simp add: subst.simps)

text \<open>Property C19. A string written by \<open>encode\<close> is read back by \<open>decode\<close>, which
  consumes exactly the \<open>size()\<close> bytes written.\<close>

theorem cstr_wire_roundtrip:
  assumes "m_length x < 2 ^ 31"
  shows "length (encode_c x) = size_c x \<and> (\<exists>s'. decode_c (encode_c x @ rest) s = Some (s', rest) \<and> buf s' = buf x)"
  using decode_encode [OF assms, of rest s] by (auto simp: upd_def size_c_def encode_c_def)

theorem cstr_wire_roundtrip_witness:
  "\<exists>s'. decode_c (encode_c \<lparr>buf = [104, 0, 105], m_capacity = 31\<rparr> @ [9]) CStr_new = Some (s', [9]) \<and> buf s' = [104, 0, 105]"
  using cstr_wire_roundtrip [of "\<lparr>buf = [104, 0, 105], m_capacity = 31\<rparr>" "[9]" CStr_new] by simp

text \<open>\<open>CStrShort::decode\<close> does not step over the length byte: what it reads
  back of a non-empty string is the length byte and all but the last character, and the last
  character stays in the buffer.\<close>

theorem short_decode_wrong:
  assumes "buf x \<noteq> []" "m_length x \<le> 255"
  shows "\<exists>s'. short_decode (short_encode x @ rest) s = Some (s', last (buf x) # rest) \<and>
     buf s' = of_nat (m_length x) # butlast (buf x)"
proof -
  have u: "unat (of_nat (m_length x) :: CHAR8) = m_length x" using assms(2) by (simp add: unat_of_nat)
  obtain b c where x: "buf x = b @ [c]" using assms(1) by (cases "buf x" rule: rev_cases) auto
  show ?thesis using grow_store [of "of_nat (m_length x) # b" s] u x assms(2)
    by (auto simp: short_decode_def short_encode_def Let_def upd_def)
qed

theorem short_decode_wrong_witness:
  "\<exists>s'. short_decode (short_encode \<lparr>buf = [97, 98], m_capacity = 31\<rparr> @ []) CStr_new = Some (s', [98]) \<and> buf s' = [2, 97]"
  using short_decode_wrong [of "\<lparr>buf = [97, 98], m_capacity = 31\<rparr>" "[]" CStr_new] by simp

text \<open>\<open>uricDecode\<close> undoes \<open>uricEncode\<close> on every text without zero
  bytes of at most \<open>2 ^ 28\<close> bytes.\<close>

theorem uric_roundtrip:
  assumes "0 \<notin> set (buf s)" "m_length s \<le> max_text"
  shows "\<exists>s1 s2. uricEncode s = Some s1 \<and> uricDecode s1 = Some s2 \<and> buf s2 = buf s"
proof -
  note E = uric_enc_ok [OF assms(1)]
  obtain s1 where s1: "uricEncode s = Some s1" "upd s s1 (uric_enc (buf s))"
    using grow_store [of "uric_enc (buf s)" s] E assms by (auto simp: uricEncode_def Let_def cstr_id not_less not_le max_text_def)
  have "m_length s \<le> m_capacity s1" using uric_enc_longer [of "buf s"] s1(2) by (simp add: upd_def)
  then show ?thesis using s1 E uric_dec_enc [of "buf s"] by (auto simp: uricDecode_def upd_def cstr_id store_def)
qed

theorem uric_roundtrip_witness:
  "\<exists>s1 s2. uricEncode \<lparr>buf = [97, 32, 37, 43], m_capacity = 31\<rparr> = Some s1 \<and> uricDecode s1 = Some s2 \<and> buf s2 = [97, 32, 37, 43]"
  using uric_roundtrip [of "\<lparr>buf = [97, 32, 37, 43], m_capacity = 31\<rparr>"] by (simp add: max_text_def)

text \<open>Splitting at a separator character gives back the fields that were joined
  with it, when none of them contains the separator and the last one is not empty (an empty last
  field is dropped).\<close>

theorem split_joins_back:
  assumes "buf s = join c fs" "fs \<noteq> []" "last fs \<noteq> []" "c \<noteq> 0" "\<forall>f \<in> set fs. c \<notin> set f \<and> 0 \<notin> set f"
    and "length fs \<le> maxArgc" "length fs \<le> length argv"
  shows "\<exists>argv'. split_sep argv maxArgc [c] s = Some (length fs, argv') \<and> map buf (take (length fs) argv') = fs"
proof -
  obtain argv' where v: "split_loop [c] maxArgc (join c fs) 0 argv = Some (length fs, argv')" "length argv' = length argv"
    "\<forall>i < length fs. buf (argv' ! i) = fs ! i"
    using split_loop_ok [OF assms(2-6), of 0 argv] assms(7) by auto
  have "map buf (take (length fs) argv') = fs" using v(2,3) assms(7) by (intro nth_equalityI) auto
  then show ?thesis using v(1) assms(1,4) by (simp add: split_sep_def cstr_def)
qed

theorem split_joins_back_witness:
  "\<exists>argv'. split_sep [CStr_new, CStr_new, CStr_new] 3 [95] \<lparr>buf = [49, 95, 95, 51], m_capacity = 31\<rparr> = Some (Suc (Suc (Suc 0)), argv') \<and>
     map buf (take (Suc (Suc (Suc 0))) argv') = [[49], [], [51]]"
  using split_joins_back [of "\<lparr>buf = [49, 95, 95, 51], m_capacity = 31\<rparr>" 95 "[[49], [], [51]]" 3 "[CStr_new, CStr_new, CStr_new]"]
  by simp

text \<open>Splitting at blanks runs past the terminator when a quotation closes at the
  end of the text: the step behind the quote appends the terminator and moves on.\<close>

theorem split_quoted_end_overruns:
  assumes "0 \<notin> set t" "39 \<notin> set t" "92 \<notin> set t" "t \<noteq> []" "argv \<noteq> []"
  shows "split_ws argv \<lparr>buf = [39] @ t @ [39], m_capacity = c\<rparr> = None"
proof -
  obtain a u where t: "t = a # u" using assms(4) by (cases t) auto
  have u: "split_word True (u @ [39]) w = None" for w using split_word_quoted assms(2,3) t by simp
  have z: "cstr ([39] @ t @ [39]) = [39] @ t @ [39]" using assms(1) by (intro cstr_id) auto
  have "split_word False (39 # t @ [39]) w = None" for w
    using u assms(2,3) t by (cases "append_c a w") (auto simp: after_escape_def blank_def)
  moreover have "dropWhile blank (39 # t @ [39]) = 39 # t @ [39]" by (simp add: blank_def)
  ultimately show ?thesis using assms(5) z by (auto simp: split_ws_def numeral_eq_Suc)
qed

theorem split_quoted_end_overruns_witness:
  "split_ws [CStr_new] \<lparr>buf = [39] @ [97, 98] @ [39], m_capacity = 31\<rparr> = None"
  using split_quoted_end_overruns [of "[97, 98]" "[CStr_new]" 31] by simp

text \<open>Compact integers can be read back: \<open>intCat7\<close> for every \<open>int\<close>,
  and \<open>intCatShort\<close> for every \<open>int\<close> but \<open>-1\<close>, where the loop condition
  groups so that it reads the byte behind the integer.\<close>

theorem compact_ints_read_back:
  "(\<exists>s'. intCat7 v CStr_new = Some s' \<and> dec7 0 (buf s' @ rest) = Some (v, rest)) \<and>
   (if v = - 1 then intCatShort v CStr_new = None
    else \<exists>s'. intCatShort v CStr_new = Some s' \<and> short_value (buf s') = v)"
proof
  have l: "last (cat7_chars v) AND 0x80 = 0" using and_80 [of "last (cat7_chars v)"] by (simp add: cat7_chars_def and_mask32 bit_simps)
  obtain s' where "intCat7 v CStr_new = Some s'" "upd CStr_new s' (buf CStr_new @ cat7_bytes False (cat7_chars v))"
    using cat7_loop_ok [of CStr_new] by (auto simp: intCat7_def CStr_new_def)
  moreover have "dec7 0 (cat7_bytes False (cat7_chars v) @ rest) = Some (v, rest)"
    using dec7_cat7 [of "cat7_chars v" False 0 rest] l cat7_chars_value [of v] by (simp add: cat7_chars_def)
  ultimately show "\<exists>s'. intCat7 v CStr_new = Some s' \<and> dec7 0 (buf s' @ rest) = Some (v, rest)"
    by (auto simp: upd_def CStr_new_def)
  have m: "short_value [0xFF] = - 1" by (simp add: short_value_def push_bit_eq_mult del: push_bit_minus_one)
  show "if v = - 1 then intCatShort v CStr_new = None
    else \<exists>s'. intCatShort v CStr_new = Some s' \<and> short_value (buf s') = v"
  proof (cases "short_bytes (enc_int v)")
    case None
    have "enc_int v \<noteq> []" by (simp add: enc_int_def)
    then have "v = - 1" using short_bytes_None [OF _ None] short_value_enc [of v] m by simp
    then show ?thesis using None by (simp add: intCatShort_def)
  next
    case (Some p)
    then have "v \<noteq> - 1" by (auto simp: enc_int_minus_one)
    then show ?thesis using Some nCat_ok [of p CStr_new] short_bytes_value [OF Some] short_value_enc [of v]
      by (auto simp: intCatShort_def upd_def CStr_new_def)
  qed
qed

text \<open>A number assigned to a string is the number \<open>toInt\<close> reads, for every
  \<open>int\<close>.\<close>

theorem int_text_roundtrip:
  "\<exists>s'. assign_int (sint v) CStr_new = Some s' \<and> toInt s' = v"
  using int_str_ok(2) [of v] store_upd [of "int_str (sint v)" CStr_new CStr_new] atoi_int_str [of v]
  by (auto simp: assign_int_def toInt_def upd_def CStr_new_def)

end
