(* ===== verification/Messages.thy ===== *)
theory Messages
  imports CStrSpec
begin

text \<open>
  The messages the framework exchanges: \<open>TMsgAddress\<close> and \<open>TURI\<close>
  (\<open>msg/msgdatadef.*\<close>), \<open>TMsg\<close>, \<open>TTimeOutMsg\<close>, \<open>TEventMsg\<close>
  (\<open>msg/msg.*\<close>), \<open>TUniNetMsg\<close> (\<open>msg/msgdef.*\<close>), the \<open>COM\<close> header
  and body (\<open>msg/msgdef_com.*\<close>) and \<open>COMMsgHelper\<close>
  (\<open>msg/msghelper_com.C\<close>). A \<open>CStr\<close> member is the byte sequence it holds.

  A control header is an object of some class derived from \<open>TCtrlMsg\<close>; \<open>com\<close> is its
  content when that class is \<open>TComMsgHdr\<close>, and the results of the virtual
  \<open>getSessionId\<close> functions are fields. A message body is a \<open>TComMsgBody\<close> or a
  foreign one, known by its encoding.
\<close>

unbundle bit_operations_syntax

section \<open>Addresses\<close>

record TMsgAddress =
  logAddr :: UINT
  phyAddr :: UINT
  taskInstID :: UINT

definition TMsgAddress_new :: TMsgAddress where
  "TMsgAddress_new = \<lparr>logAddr = 0, phyAddr = 0, taskInstID = 0\<rparr>"

definition maddr_eq :: "TMsgAddress \<Rightarrow> TMsgAddress \<Rightarrow> bool" where
  "maddr_eq a b = (if \<not> (logAddr a = logAddr b) then False else if \<not> (phyAddr a = phyAddr b) then False
     else if \<not> (taskInstID a = taskInstID b) then False else True)"

definition maddr_size :: "TMsgAddress \<Rightarrow> nat" where
  "maddr_size a = 4 + 4 + 4"

definition maddr_encode :: "TMsgAddress \<Rightarrow> CHAR8 list" where
  "maddr_encode a = enc_int (logAddr a) @ enc_int (phyAddr a) @ enc_int (taskInstID a)"

definition maddr_decode :: "CHAR8 list \<Rightarrow> (TMsgAddress \<times> CHAR8 list) option" where
  "maddr_decode b = do {
     (l, b) \<leftarrow> dec_int b;
     (p, b) \<leftarrow> dec_int b;
     (t, b) \<leftarrow> dec_int b;
     Some (\<lparr>logAddr = l, phyAddr = p, taskInstID = t\<rparr>, b) }"

text \<open>Strings as objects, and the array a call to \<open>split\<close> fills.\<close>

definition strobj :: "CHAR8 list \<Rightarrow> CStr" where
  "strobj b = \<lparr>buf = b, m_capacity = max (MaxCStrBufferLen - 1) (length b)\<rparr>"

definition split_into :: "nat \<Rightarrow> CHAR8 list \<Rightarrow> CHAR8 list \<Rightarrow> (nat \<times> CHAR8 list list) option" where
  "split_into n sep b = do {
     (argc, argv) \<leftarrow> split_sep (replicate n CStr_new) n sep (strobj b);
     Some (argc, map buf argv) }"

definition parse_address :: "CHAR8 list \<Rightarrow> CHAR8 list \<Rightarrow> TMsgAddress option option" where
  "parse_address sep b = do {
     (argc, tmp) \<leftarrow> split_into 3 sep b;
     Some (if argc = 3 then Some \<lparr>logAddr = atoi (tmp ! 0), phyAddr = atoi (tmp ! 1), taskInstID = atoi (tmp ! 2)\<rparr>
           else None) }"

text \<open>The constructor from a string separates with colons; without three fields it leaves the
  members unset (\<open>None\<close>).\<close>

definition TMsgAddress_str :: "CHAR8 list \<Rightarrow> TMsgAddress option option" where
  "TMsgAddress_str b = parse_address [58] b"

definition maddr_encodeCStr :: "TMsgAddress \<Rightarrow> CStr \<Rightarrow> CStr option" where
  "maddr_encodeCStr a s = do {
     s \<leftarrow> shl_int (sint (logAddr a)) s;
     s \<leftarrow> shl_cs [95] s;
     s \<leftarrow> shl_int (sint (phyAddr a)) s;
     s \<leftarrow> shl_cs [95] s;
     shl_int (sint (taskInstID a)) s }"

definition maddr_decodeCStr :: "CHAR8 list \<Rightarrow> TMsgAddress option option" where
  "maddr_decodeCStr b = parse_address [95] b"

text \<open>The physical address joins host and container identifiers.\<close>

abbreviation (input) "MAX_TASKCONTAINERID \<equiv> 0xFFF :: UINT"

definition genPhyAddr :: "UINT \<Rightarrow> UINT \<Rightarrow> UINT" where
  "genPhyAddr hostid threadid = push_bit 12 hostid + threadid"

definition parsePhyAddr :: "UINT \<Rightarrow> UINT \<times> UINT" where
  "parsePhyAddr phyaddr = (drop_bit 12 phyaddr, phyaddr AND MAX_TASKCONTAINERID)"

text \<open>Fields by name: result code, type of the value, the value as text.\<close>

definition field_step :: "CHAR8 list option \<Rightarrow> (CStr \<times> 32 word \<times> CHAR8 list option) option" where
  "field_step p = getFieldName p CStr_new"

type_synonym fvalue = "int \<times> int \<times> CHAR8 list"

definition maddr_getFieldValue :: "CHAR8 list option \<Rightarrow> TMsgAddress \<Rightarrow> fvalue option" where
  "maddr_getFieldValue p a = (if p = None then Some (- 1, 0, []) else do {
     (f, i, p) \<leftarrow> field_step p;
     Some (if eq_cs (Some (lit ''logAddr'')) f then (1, 2, int_str (sint (logAddr a)))
       else if eq_cs (Some (lit ''phyAddr'')) f then (1, 2, int_str (sint (phyAddr a)))
       else if eq_cs (Some (lit ''taskInstID'')) f then (1, 2, int_str (sint (taskInstID a)))
       else (- 1, 0, [])) })"

definition maddr_setFieldValue :: "CHAR8 list option \<Rightarrow> CHAR8 list \<Rightarrow> TMsgAddress \<Rightarrow> (int \<times> TMsgAddress) option" where
  "maddr_setFieldValue p v a = (if p = None then Some (- 1, a) else do {
     (f, i, p) \<leftarrow> field_step p;
     Some (if eq_cs (Some (lit ''logAddr'')) f then (1, a\<lparr>logAddr := atoi v\<rparr>)
       else if eq_cs (Some (lit ''phyAddr'')) f then (1, a\<lparr>phyAddr := atoi v\<rparr>)
       else if eq_cs (Some (lit ''taskInstID'')) f then (1, a\<lparr>taskInstID := atoi v\<rparr>)
       else (- 1, a)) })"

section \<open>URIs\<close>

record TURI =
  uri :: "CHAR8 list"
  schema :: "CHAR8 list"
  user :: "CHAR8 list"
  password :: "CHAR8 list"
  domain :: "CHAR8 list"
  host :: "CHAR8 list"
  port :: "32 word"

definition TURI_new :: TURI where
  "TURI_new = \<lparr>uri = [], schema = [], user = [], password = [], domain = [], host = [], port = 0\<rparr>"

definition setUri :: "CHAR8 list \<Rightarrow> TURI \<Rightarrow> TURI option" where
  "setUri u t = do {
     let t = t\<lparr>uri := cstr u\<rparr>;
     (n, sch) \<leftarrow> split_into 2 [58, 47, 47] (uri t);
     let (t, rest) = (if n = 2 then (t\<lparr>schema := sch ! 0\<rparr>, sch ! 1) else (t, uri t));
     (n, usr) \<leftarrow> split_into 2 [64] rest;
     t \<leftarrow> (if n = 2 then do {
         (n, pwd) \<leftarrow> split_into 2 [58] (usr ! 0);
         let t = (if n = 2 then t\<lparr>user := pwd ! 0, password := pwd ! 1\<rparr> else t\<lparr>user := usr ! 0\<rparr>);
         Some (t\<lparr>domain := usr ! 1\<rparr>) }
       else Some (t\<lparr>domain := rest\<rparr>));
     (n, hst) \<leftarrow> split_into 2 [58] (domain t);
     Some (if n = 2 then t\<lparr>host := hst ! 0, port := atoi (hst ! 1)\<rparr> else t\<lparr>host := domain t\<rparr>) }"

definition uri_head :: "TURI \<Rightarrow> CHAR8 list" where
  "uri_head t = (if schema t \<noteq> [] then schema t @ [58, 47, 47] else []) @ user t @
     (if password t \<noteq> [] then 58 # password t else [])"

definition resetUri :: "TURI \<Rightarrow> TURI" where
  "resetUri t = t\<lparr>uri := uri_head t @ (if host t \<noteq> [] then 64 # host t else []) @
       (if port t \<noteq> 0 then 58 # int_str (sint (port t)) else []),
     domain := (if host t \<noteq> [] then host t else []) @ (if port t \<noteq> 0 then int_str (sint (port t)) else [])\<rparr>"

definition setSchema :: "CHAR8 list \<Rightarrow> TURI \<Rightarrow> TURI" where
  "setSchema s t = resetUri (t\<lparr>schema := cstr s\<rparr>)"

definition setUser :: "CHAR8 list \<Rightarrow> TURI \<Rightarrow> TURI" where
  "setUser s t = resetUri (t\<lparr>user := cstr s\<rparr>)"

definition setPassword :: "CHAR8 list \<Rightarrow> TURI \<Rightarrow> TURI" where
  "setPassword s t = resetUri (t\<lparr>password := cstr s\<rparr>)"

definition setHost :: "CHAR8 list \<Rightarrow> TURI \<Rightarrow> TURI" where
  "setHost s t = resetUri (t\<lparr>host := cstr s\<rparr>)"

definition setPort :: "32 word \<Rightarrow> TURI \<Rightarrow> TURI" where
  "setPort p t = resetUri (t\<lparr>port := p\<rparr>)"

definition setDomain :: "CHAR8 list \<Rightarrow> TURI \<Rightarrow> TURI option" where
  "setDomain d t = do {
     let t = t\<lparr>domain := cstr d\<rparr>;
     let t = t\<lparr>host := [], port := 0, uri := [], domain := []\<rparr>;
     let t = t\<lparr>uri := uri_head t\<rparr>;
     if domain t \<noteq> [] then do {
       let t = t\<lparr>uri := uri t @ 64 # domain t\<rparr>;
       (n, tmp) \<leftarrow> split_into 2 [58] (domain t);
       Some (if n = 2 then t\<lparr>host := tmp ! 0, port := atoi (tmp ! 1)\<rparr> else t\<lparr>host := domain t\<rparr>) }
     else Some t }"

definition uri_decodeCStr :: "CHAR8 list \<Rightarrow> TURI \<Rightarrow> TURI" where
  "uri_decodeCStr b t = resetUri (t\<lparr>uri := b\<rparr>)"

definition uri_size :: "TURI \<Rightarrow> nat" where
  "uri_size t = (4 + length (uri t)) + (4 + length (schema t)) + (4 + length (user t)) + (4 + length (password t)) +
     (4 + length (domain t)) + (4 + length (host t)) + 4"

definition estr :: "CHAR8 list \<Rightarrow> CHAR8 list" where
  "estr b = encode_c (strobj b)"

definition uri_encode :: "TURI \<Rightarrow> CHAR8 list \<times> TURI" where
  "uri_encode t = (let t = (if uri t = [] then resetUri t else t) in (estr (uri t), t))"

definition uri_decode :: "CHAR8 list \<Rightarrow> TURI \<Rightarrow> (TURI \<times> CHAR8 list) option" where
  "uri_decode b t = do { (u, b) \<leftarrow> dec_str b; t \<leftarrow> setUri u t; Some (t, b) }"

definition uri_eq :: "TURI \<Rightarrow> TURI \<Rightarrow> bool" where
  "uri_eq a b = (if \<not> (uri a = uri b) then False else if \<not> (schema a = schema b) then False
     else if \<not> (user a = user b) then False else if \<not> (password a = password b) then False
     else if \<not> (domain a = domain b) then False else if \<not> (host a = host b) then False
     else if \<not> (port a = port b) then False else True)"

definition uri_getFieldValue :: "CHAR8 list option \<Rightarrow> TURI \<Rightarrow> fvalue option" where
  "uri_getFieldValue p t = (if p = None then Some (- 1, 0, []) else do {
     (f, i, p) \<leftarrow> field_step p;
     Some (if eq_cs (Some (lit ''uri'')) f then (1, 4, uri t)
       else if eq_cs (Some (lit ''schema'')) f then (1, 4, schema t)
       else if eq_cs (Some (lit ''user'')) f then (1, 4, user t)
       else if eq_cs (Some (lit ''password'')) f then (1, 4, password t)
       else if eq_cs (Some (lit ''domain'')) f then (1, 4, domain t)
       else if eq_cs (Some (lit ''host'')) f then (1, 4, host t)
       else if eq_cs (Some (lit ''port'')) f then (1, 2, int_str (sint (port t)))
       else (- 1, 0, [])) })"

definition uri_setFieldValue :: "CHAR8 list option \<Rightarrow> CHAR8 list \<Rightarrow> TURI \<Rightarrow> (int \<times> TURI) option" where
  "uri_setFieldValue p v t = (if p = None then Some (- 1, t) else do {
     (f, i, p) \<leftarrow> field_step p;
     Some (if eq_cs (Some (lit ''uri'')) f then (1, t\<lparr>uri := v\<rparr>)
       else if eq_cs (Some (lit ''schema'')) f then (1, t\<lparr>schema := v\<rparr>)
       else if eq_cs (Some (lit ''user'')) f then (1, t\<lparr>user := v\<rparr>)
       else if eq_cs (Some (lit ''password'')) f then (1, t\<lparr>password := v\<rparr>)
       else if eq_cs (Some (lit ''domain'')) f then (1, t\<lparr>domain := v\<rparr>)
       else if eq_cs (Some (lit ''host'')) f then (1, t\<lparr>host := v\<rparr>)
       else if eq_cs (Some (lit ''port'')) f then (1, t\<lparr>port := atoi v\<rparr>)
       else (- 1, t)) })"

section \<open>Kernel messages\<close>

record STuple =
  taskType :: UINT
  taskID :: UINT
  instID :: UINT

abbreviation (input) "objtype_Invalid \<equiv> 0 :: UINT"
abbreviation (input) "objtype_Kernal \<equiv> 3 :: UINT"

definition sender_new :: STuple where
  "sender_new = \<lparr>taskType = objtype_Invalid, taskID = 0, instID = 0\<rparr>"

record TTimeOutMsg =
  to_sender :: STuple
  timerMark :: UINT
  timerKey :: UINT
  timerDelay :: UINT
  timerTID :: UINT
  timerIID :: UINT
  timerPara :: addr

definition TTimeOutMsg_new :: "UINT \<Rightarrow> UINT \<Rightarrow> UINT \<Rightarrow> UINT \<Rightarrow> UINT \<Rightarrow> addr \<Rightarrow> TTimeOutMsg" where
  "TTimeOutMsg_new mark key delay tid iid para = \<lparr>to_sender = sender_new, timerMark = mark, timerKey = key,
     timerDelay = delay, timerTID = tid, timerIID = iid, timerPara = para\<rparr>"

definition timeout_eq :: "TTimeOutMsg \<Rightarrow> TTimeOutMsg \<Rightarrow> bool" where
  "timeout_eq a b = (to_sender a = to_sender b \<and> timerMark a = timerMark b \<and> timerDelay a = timerDelay b \<and>
     timerKey a = timerKey b)"

text \<open>\<open>clone\<close> copies the parameter pointer, which the destructor of each copy deletes.\<close>

definition timeout_clone :: "TTimeOutMsg \<Rightarrow> TTimeOutMsg" where
  "timeout_clone m = \<lparr>to_sender = to_sender m, timerMark = timerMark m, timerKey = timerKey m,
     timerDelay = timerDelay m, timerTID = timerTID m, timerIID = timerIID m, timerPara = timerPara m\<rparr>"

record TEventMsg =
  ev_sender :: STuple
  eventID :: UINT
  ev_transID :: UINT
  ev_status :: "32 word"
  ev_taskID :: UINT
  ev_instID :: UINT
  eventInfo :: "CHAR8 list"

definition TEventMsg_new :: TEventMsg where
  "TEventMsg_new = \<lparr>ev_sender = sender_new, eventID = 0, ev_transID = 0, ev_status = 0, ev_taskID = 0, ev_instID = 0,
     eventInfo = []\<rparr>"

definition event_eq :: "TEventMsg \<Rightarrow> TEventMsg \<Rightarrow> bool" where
  "event_eq a b = (ev_sender a = ev_sender b \<and> eventID a = eventID b \<and> ev_transID a = ev_transID b \<and>
     ev_taskID a = ev_taskID b \<and> ev_instID a = ev_instID b \<and> ev_status a = ev_status b)"

definition event_clone :: "TEventMsg \<Rightarrow> TEventMsg" where
  "event_clone m = \<lparr>ev_sender = ev_sender m, eventID = eventID m, ev_transID = ev_transID m, ev_status = ev_status m,
     ev_taskID = ev_taskID m, ev_instID = ev_instID m, eventInfo = eventInfo m\<rparr>"

definition event_size :: "TEventMsg \<Rightarrow> nat" where
  "event_size m = 12 + 4 + 4 + 4 + 4 + 4 + (4 + length (eventInfo m))"

section \<open>COM header and body\<close>

abbreviation (input) "MAX_MSG_ARGV_NUM \<equiv> 5 :: nat"

record TComMsgHdr =
  status :: "32 word"
  pri :: "32 word"
  facility :: "32 word"
  argc :: "32 word"
  argv :: "CHAR8 list list"

record ctrlmsg =
  c_optionSet :: UINT
  orgAddr :: TMsgAddress
  com :: "TComMsgHdr option"
  session_int :: UINT
  session_str :: "CHAR8 list option"

abbreviation (input) "orgAddr_flag \<equiv> 1 :: UINT"
abbreviation (input) "session_flag \<equiv> 2 :: UINT"

definition hasOrgAddr :: "ctrlmsg \<Rightarrow> bool" where
  "hasOrgAddr c = (c_optionSet c AND orgAddr_flag \<noteq> 0)"

definition setOrgAddr :: "TMsgAddress \<Rightarrow> ctrlmsg \<Rightarrow> ctrlmsg" where
  "setOrgAddr a c = c\<lparr>orgAddr := a, c_optionSet := c_optionSet c OR orgAddr_flag\<rparr>"

definition hasSessionId :: "ctrlmsg \<Rightarrow> bool" where
  "hasSessionId c = (c_optionSet c AND session_flag \<noteq> 0)"

definition setSessionId :: "ctrlmsg \<Rightarrow> ctrlmsg" where
  "setSessionId c = c\<lparr>c_optionSet := c_optionSet c OR session_flag\<rparr>"

definition TComMsgHdr_new :: TComMsgHdr where
  "TComMsgHdr_new = \<lparr>status = 0, pri = 0, facility = 0, argc = 0, argv = replicate MAX_MSG_ARGV_NUM []\<rparr>"

text \<open>The loops over \<open>argv\<close> run to \<open>argc\<close>, which must not exceed the array.\<close>

definition argv_used :: "TComMsgHdr \<Rightarrow> CHAR8 list list option" where
  "argv_used h = (if sint (argc h) \<le> 0 then Some [] else if unat (argc h) > length (argv h) then None
     else Some (take (unat (argc h)) (argv h)))"

definition com_assign :: "TComMsgHdr \<Rightarrow> TComMsgHdr \<Rightarrow> TComMsgHdr option" where
  "com_assign r h = do {
     used \<leftarrow> argv_used r;
     Some (h\<lparr>status := status r, pri := pri r, facility := facility r, argc := argc r,
       argv := used @ drop (length used) (argv h)\<rparr>) }"

definition com_eq :: "TComMsgHdr \<Rightarrow> TComMsgHdr \<Rightarrow> bool option" where
  "com_eq a b = (if \<not> (status a = status b) then Some False else if \<not> (pri a = pri b) then Some False
     else if \<not> (facility a = facility b) then Some False else if \<not> (argc a = argc b) then Some False
     else do { x \<leftarrow> argv_used a; y \<leftarrow> argv_used b; Some (x = y) })"

definition ctrl_clone :: "ctrlmsg \<Rightarrow> ctrlmsg option" where
  "ctrl_clone c = (case com c of None \<Rightarrow> Some c
     | Some h \<Rightarrow> do { h' \<leftarrow> com_assign h TComMsgHdr_new; Some (c\<lparr>com := Some h'\<rparr>) })"

definition com_size :: "ctrlmsg \<Rightarrow> TComMsgHdr \<Rightarrow> nat option" where
  "com_size c h = do {
     used \<leftarrow> argv_used h;
     Some (4 + (if hasOrgAddr c then maddr_size (orgAddr c) else 0) + 4 + 4 + 4 + 4 + sum_list (map (\<lambda>a. 4 + length a) used)) }"

definition com_encode :: "ctrlmsg \<Rightarrow> TComMsgHdr \<Rightarrow> CHAR8 list option" where
  "com_encode c h = do {
     used \<leftarrow> argv_used h;
     Some (enc_int (c_optionSet c) @ (if hasOrgAddr c then maddr_encode (orgAddr c) else []) @
       enc_int (status h) @ enc_int (pri h) @ enc_int (facility h) @ enc_int (argc h) @ concat (map estr used)) }"

fun dec_strs :: "nat \<Rightarrow> CHAR8 list \<Rightarrow> (CHAR8 list list \<times> CHAR8 list) option" where
  "dec_strs 0 b = Some ([], b)"
| "dec_strs (Suc n) b = do { (x, b) \<leftarrow> dec_str b; (xs, b) \<leftarrow> dec_strs n b; Some (x # xs, b) }"

text \<open>\<open>CHECK_DECODE_ARRAY_SIZE\<close> sets \<open>argc\<close> to 0 and returns when it is out of range.\<close>

definition com_decode :: "CHAR8 list \<Rightarrow> ctrlmsg \<Rightarrow> TComMsgHdr \<Rightarrow> (ctrlmsg \<times> CHAR8 list) option" where
  "com_decode b c h = do {
     (os, b) \<leftarrow> dec_int b;
     let c = c\<lparr>c_optionSet := os\<rparr>;
     (c, b) \<leftarrow> (if hasOrgAddr c then do { (a, b) \<leftarrow> maddr_decode b; Some (c\<lparr>orgAddr := a\<rparr>, b) } else Some (c, b));
     (st, b) \<leftarrow> dec_int b;
     (pr, b) \<leftarrow> dec_int b;
     (fa, b) \<leftarrow> dec_int b;
     (ac, b) \<leftarrow> dec_int b;
     let h = h\<lparr>status := st, pri := pr, facility := fa, argc := ac\<rparr>;
     if sint ac > int MAX_MSG_ARGV_NUM \<or> sint ac < 0 then Some (c\<lparr>com := Some (h\<lparr>argc := 0\<rparr>)\<rparr>, b)
     else do {
       (as, b) \<leftarrow> dec_strs (unat ac) b;
       Some (c\<lparr>com := Some (h\<lparr>argv := as @ drop (length as) (argv h)\<rparr>)\<rparr>, b) } }"

definition com_getFieldValue :: "CHAR8 list option \<Rightarrow> ctrlmsg \<Rightarrow> TComMsgHdr \<Rightarrow> fvalue option" where
  "com_getFieldValue p c h = (if p = None then Some (- 1, 0, []) else do {
     (f, i, p) \<leftarrow> field_step p;
     if hasOrgAddr c \<and> eq_cs (Some (lit ''orgAddr'')) f then maddr_getFieldValue p (orgAddr c)
     else Some (if eq_cs (Some (lit ''status'')) f then (1, 2, int_str (sint (status h)))
       else if eq_cs (Some (lit ''pri'')) f then (1, 2, int_str (sint (pri h)))
       else if eq_cs (Some (lit ''facility'')) f then (1, 2, int_str (sint (facility h)))
       else if eq_cs (Some (lit ''argc'')) f then (1, 2, int_str (sint (argc h)))
       else if eq_cs (Some (lit ''argv'')) f then
         (if sint i < 0 then
            (if p \<noteq> None \<and> strcmp (cstr (the p)) (lit ''size'') = 0 then (1, 2, int_str (sint (argc h))) else (1, 1, []))
          else if sint i \<ge> sint (argc h) \<or> sint i \<ge> int MAX_MSG_ARGV_NUM then (1, 1, [])
          else (1, 4, argv h ! unat i))
       else (- 1, 0, [])) })"

definition com_setFieldValue :: "CHAR8 list option \<Rightarrow> CHAR8 list \<Rightarrow> ctrlmsg \<Rightarrow> TComMsgHdr \<Rightarrow> (int \<times> ctrlmsg \<times> TComMsgHdr) option" where
  "com_setFieldValue p v c h = (if p = None then Some (- 1, c, h) else do {
     (f, i, p) \<leftarrow> field_step p;
     if hasOrgAddr c \<and> eq_cs (Some (lit ''orgAddr'')) f
     then do { (r, a) \<leftarrow> maddr_setFieldValue p v (orgAddr c); Some (r, c\<lparr>orgAddr := a\<rparr>, h) }
     else Some (if eq_cs (Some (lit ''status'')) f then (1, c, h\<lparr>status := atoi v\<rparr>)
       else if eq_cs (Some (lit ''pri'')) f then (1, c, h\<lparr>pri := atoi v\<rparr>)
       else if eq_cs (Some (lit ''facility'')) f then (1, c, h\<lparr>facility := atoi v\<rparr>)
       else if eq_cs (Some (lit ''argc'')) f then (1, c, h\<lparr>argc := atoi v\<rparr>)
       else if eq_cs (Some (lit ''argv'')) f then
         (if sint i < 0 then (- 1, c, h)
          else if sint i \<ge> int MAX_MSG_ARGV_NUM then (- 1, c, h)
          else (1, c, (if sint i \<ge> sint (argc h) then h\<lparr>argc := i + 1\<rparr> else h)\<lparr>argv := (argv h)[unat i := v]\<rparr>))
       else (- 1, c, h)) })"

datatype msgbody = ComBody "CHAR8 list" | OtherBody "CHAR8 list"

definition body_encode :: "msgbody \<Rightarrow> CHAR8 list" where
  "body_encode b = (case b of ComBody info \<Rightarrow> estr info | OtherBody bs \<Rightarrow> bs)"

definition body_size :: "msgbody \<Rightarrow> nat" where
  "body_size b = (case b of ComBody info \<Rightarrow> 4 + length info | OtherBody bs \<Rightarrow> length bs)"

definition body_decode :: "CHAR8 list \<Rightarrow> (msgbody \<times> CHAR8 list) option" where
  "body_decode b = do { (info, b) \<leftarrow> dec_str b; Some (ComBody info, b) }"

section \<open>TUniNetMsg\<close>

record TUniNetMsg =
  sender :: STuple
  optionSet :: UINT
  oAddr :: TMsgAddress
  tAddr :: TMsgAddress
  dialogType :: BYTE
  msgName :: UINT
  msgType :: UINT
  transID :: "CHAR8 list"
  cseq :: UINT
  ctrlMsgHdr :: "ctrlmsg option"
  msgBody :: "msgbody option"

abbreviation (input) "DIALOG_BEGIN \<equiv> 1 :: BYTE"
abbreviation (input) "DIALOG_BROADCAST \<equiv> 4 :: BYTE"
abbreviation (input) "DIALOG_MULTICAST \<equiv> 5 :: BYTE"
abbreviation (input) "ctrlMsgHdr_flag \<equiv> 1 :: UINT"
abbreviation (input) "msgBody_flag \<equiv> 2 :: UINT"
abbreviation (input) "cseq_flag \<equiv> 4 :: UINT"
abbreviation (input) "transid_flag \<equiv> 8 :: UINT"

text \<open>The constructor does not set \<open>cseq\<close>; the model starts it at 0.\<close>

definition TUniNetMsg_new :: TUniNetMsg where
  "TUniNetMsg_new = \<lparr>sender = sender_new, optionSet = 0, oAddr = TMsgAddress_new, tAddr = TMsgAddress_new,
     dialogType = DIALOG_BEGIN, msgName = 0, msgType = 1, transID = [], cseq = 0, ctrlMsgHdr = None, msgBody = None\<rparr>"

definition hasCtrlMsgHdr :: "TUniNetMsg \<Rightarrow> bool" where
  "hasCtrlMsgHdr m = (optionSet m AND ctrlMsgHdr_flag \<noteq> 0)"

definition hasMsgBody :: "TUniNetMsg \<Rightarrow> bool" where
  "hasMsgBody m = (optionSet m AND msgBody_flag \<noteq> 0)"

definition hasCSeq :: "TUniNetMsg \<Rightarrow> bool" where
  "hasCSeq m = (optionSet m AND cseq_flag \<noteq> 0)"

definition hasTransId :: "TUniNetMsg \<Rightarrow> bool" where
  "hasTransId m = (optionSet m AND transid_flag \<noteq> 0)"

definition getCSeq :: "TUniNetMsg \<Rightarrow> UINT" where
  "getCSeq m = (if hasCSeq m then cseq m else 0)"

definition setCSeq :: "UINT \<Rightarrow> TUniNetMsg \<Rightarrow> TUniNetMsg" where
  "setCSeq s m = m\<lparr>cseq := s, optionSet := optionSet m OR cseq_flag\<rparr>"

text \<open>\<open>CStr::size\<close> counts its own length field, so that the test for an empty identifier
  always succeeds.\<close>

definition setTransId :: "CHAR8 list \<Rightarrow> TUniNetMsg \<Rightarrow> TUniNetMsg" where
  "setTransId tid m = (if size_c (strobj tid) \<noteq> 0 then m\<lparr>transID := tid, optionSet := optionSet m OR transid_flag\<rparr> else m)"

definition setTransId_cs :: "CHAR8 list \<Rightarrow> TUniNetMsg \<Rightarrow> TUniNetMsg" where
  "setTransId_cs tid m = (let m = m\<lparr>transID := cstr tid\<rparr> in
     if size_c (strobj (transID m)) \<noteq> 0 then m\<lparr>optionSet := optionSet m OR transid_flag\<rparr> else m)"

text \<open>The generated identifier: the digest \<open>md5\<close> of the origin, name and sequence number.\<close>

definition transid_text :: "TUniNetMsg \<Rightarrow> CHAR8 list" where
  "transid_text m = int_str (sint (logAddr (oAddr m))) @ [47] @ int_str (sint (phyAddr (oAddr m))) @ [47] @
     int_str (sint (taskInstID (oAddr m))) @ [47] @ int_str (sint (msgName m)) @ [47] @ int_str (sint (msgType m)) @ [47] @
     int_str (sint (cseq m))"

definition setTransId_gen :: "(CHAR8 list \<Rightarrow> CHAR8 list) \<Rightarrow> TUniNetMsg \<Rightarrow> TUniNetMsg" where
  "setTransId_gen md5 m = (if \<not> hasCSeq m then m
     else m\<lparr>transID := md5 (transid_text m), optionSet := optionSet m OR transid_flag\<rparr>)"

definition setCtrlMsgHdr :: "ctrlmsg option \<Rightarrow> TUniNetMsg \<Rightarrow> UINT \<times> TUniNetMsg" where
  "setCtrlMsgHdr ctrl m = (if ctrl = None then (0, m)
     else let os = optionSet m OR ctrlMsgHdr_flag in (os, m\<lparr>ctrlMsgHdr := ctrl, optionSet := os\<rparr>))"

definition setMsgBody :: "msgbody option \<Rightarrow> TUniNetMsg \<Rightarrow> UINT \<times> TUniNetMsg" where
  "setMsgBody body m = (if body = None then (0, m)
     else let os = optionSet m OR msgBody_flag in (os, m\<lparr>msgBody := body, optionSet := os\<rparr>))"

definition getCtrlMsgHdr :: "TUniNetMsg \<Rightarrow> ctrlmsg option" where
  "getCtrlMsgHdr m = (if hasCtrlMsgHdr m \<and> ctrlMsgHdr m \<noteq> None then ctrlMsgHdr m else None)"

definition getMsgBody :: "TUniNetMsg \<Rightarrow> msgbody option" where
  "getMsgBody m = (if hasMsgBody m \<and> msgBody m \<noteq> None then msgBody m else None)"

text \<open>Copy and assignment clone header and body as the flags say. The copy constructor clones
  without testing the pointer; assignment does.\<close>

definition uninet_copy :: "TUniNetMsg \<Rightarrow> TUniNetMsg option" where
  "uninet_copy r = do {
     ctrl \<leftarrow> (if hasCtrlMsgHdr r then do { c \<leftarrow> ctrlMsgHdr r; c \<leftarrow> ctrl_clone c; Some (Some c) } else Some None);
     body \<leftarrow> (if hasMsgBody r then do { b \<leftarrow> msgBody r; Some (Some b) } else Some None);
     Some (r\<lparr>ctrlMsgHdr := ctrl, msgBody := body\<rparr>) }"

definition uninet_assign :: "TUniNetMsg \<Rightarrow> TUniNetMsg \<Rightarrow> TUniNetMsg option" where
  "uninet_assign r m = do {
     ctrl \<leftarrow> (if hasCtrlMsgHdr r then (case ctrlMsgHdr r of None \<Rightarrow> Some None
                | Some c \<Rightarrow> do { c \<leftarrow> ctrl_clone c; Some (Some c) })
              else Some None);
     let body = (if hasMsgBody r then msgBody r else None);
     Some (m\<lparr>sender := sender r, oAddr := oAddr r, tAddr := tAddr r, dialogType := dialogType r, msgName := msgName r,
       msgType := msgType r, cseq := cseq r, transID := transID r, optionSet := optionSet r,
       ctrlMsgHdr := ctrl, msgBody := body\<rparr>) }"

definition uninet_clone :: "TUniNetMsg \<Rightarrow> TUniNetMsg option" where
  "uninet_clone m = uninet_assign m TUniNetMsg_new"

text \<open>Encoding. A header of a class other than \<open>TComMsgHdr\<close> is left to the parameter
  \<open>oenc\<close>.\<close>

definition uninet_hdr :: "TUniNetMsg \<Rightarrow> CHAR8 list" where
  "uninet_hdr m = enc_int (optionSet m) @ maddr_encode (oAddr m) @ maddr_encode (tAddr m) @ [dialogType m] @
     enc_int (msgName m) @ enc_int (msgType m) @ (if hasCSeq m then enc_int (cseq m) else []) @
     (if hasTransId m then estr (transID m) else [])"

definition ctrl_encode :: "(ctrlmsg \<Rightarrow> CHAR8 list) \<Rightarrow> ctrlmsg \<Rightarrow> CHAR8 list option" where
  "ctrl_encode oenc c = (case com c of None \<Rightarrow> Some (oenc c) | Some h \<Rightarrow> com_encode c h)"

definition ctrl_size :: "(ctrlmsg \<Rightarrow> CHAR8 list) \<Rightarrow> ctrlmsg \<Rightarrow> nat option" where
  "ctrl_size oenc c = (case com c of None \<Rightarrow> Some (length (oenc c)) | Some h \<Rightarrow> com_size c h)"

definition uninet_encode :: "(ctrlmsg \<Rightarrow> CHAR8 list) \<Rightarrow> TUniNetMsg \<Rightarrow> (CHAR8 list \<times> nat) option" where
  "uninet_encode oenc m = do {
     (c, cs) \<leftarrow> (case ctrlMsgHdr m of None \<Rightarrow> Some ([], 0)
       | Some c \<Rightarrow> do { b \<leftarrow> ctrl_encode oenc c; n \<leftarrow> ctrl_size oenc c; Some (b, n) });
     let (b, bs) = (case msgBody m of None \<Rightarrow> ([], 0) | Some b \<Rightarrow> (body_encode b, body_size b));
     Some (uninet_hdr m @ c @ b,
       (4 + 1 + 4 + 4 + maddr_size (oAddr m) + maddr_size (tAddr m)) + (if hasCSeq m then 4 else 0) +
       (if hasTransId m then size_c (strobj (transID m)) else 0) + cs + bs) }"

definition uninet_size :: "(ctrlmsg \<Rightarrow> CHAR8 list) \<Rightarrow> TUniNetMsg \<Rightarrow> nat option" where
  "uninet_size oenc m = do {
     cs \<leftarrow> (case ctrlMsgHdr m of None \<Rightarrow> Some 0 | Some c \<Rightarrow> ctrl_size oenc c);
     Some (12 + 4 + 1 + 4 + 4 + maddr_size (oAddr m) + maddr_size (tAddr m) +
       (if hasTransId m then size_c (strobj (transID m)) else 0) + cs +
       (case msgBody m of None \<Rightarrow> 0 | Some b \<Rightarrow> body_size b)) }"

definition uninet_decode :: "CHAR8 list \<Rightarrow> TUniNetMsg \<Rightarrow> (TUniNetMsg \<times> CHAR8 list) option" where
  "uninet_decode b m = do {
     (os, b) \<leftarrow> dec_int b;
     (oa, b) \<leftarrow> maddr_decode b;
     (ta, b) \<leftarrow> maddr_decode b;
     (d, b) \<leftarrow> (case b of [] \<Rightarrow> None | d # b \<Rightarrow> Some (d, b));
     (n, b) \<leftarrow> dec_int b;
     (t, b) \<leftarrow> dec_int b;
     let m = m\<lparr>optionSet := os, oAddr := oa, tAddr := ta, dialogType := d, msgName := n, msgType := t\<rparr>;
     (m, b) \<leftarrow> (if hasCSeq m then do { (s, b) \<leftarrow> dec_int b; Some (m\<lparr>cseq := s\<rparr>, b) } else Some (m, b));
     if hasTransId m then do { (tid, b) \<leftarrow> dec_str b; Some (m\<lparr>transID := tid\<rparr>, b) } else Some (m, b) }"

text \<open>The macros \<open>DECODE_CTRLHDR\<close> and \<open>DECODE_MSGBODY\<close> behind the header, at the
  classes of the \<open>COM\<close> message type.\<close>

definition ctrl_new :: ctrlmsg where
  "ctrl_new = \<lparr>c_optionSet = 0, orgAddr = TMsgAddress_new, com = Some TComMsgHdr_new, session_int = 0, session_str = None\<rparr>"

definition com_msg_decode :: "CHAR8 list \<Rightarrow> (TUniNetMsg \<times> CHAR8 list) option" where
  "com_msg_decode b = do {
     (m, b) \<leftarrow> uninet_decode b TUniNetMsg_new;
     (m, b) \<leftarrow> (if hasCtrlMsgHdr m then do { (c, b) \<leftarrow> com_decode b ctrl_new TComMsgHdr_new; Some (m\<lparr>ctrlMsgHdr := Some c\<rparr>, b) }
                else Some (m, b));
     if hasMsgBody m then do { (x, b) \<leftarrow> body_decode b; Some (m\<lparr>msgBody := Some x\<rparr>, b) } else Some (m, b) }"

definition uninet_eq :: "TUniNetMsg \<Rightarrow> TUniNetMsg \<Rightarrow> bool option" where
  "uninet_eq m r = (case (msgBody m, msgBody r) of
       (None, None) \<Rightarrow>
         (let rt = (optionSet m = optionSet r \<and> maddr_eq (oAddr m) (oAddr r) \<and> maddr_eq (tAddr m) (tAddr r) \<and>
                dialogType m = dialogType r \<and> msgName m = msgName r \<and> msgType m = msgType r \<and> transID m = transID r) in
          (case (ctrlMsgHdr m, ctrlMsgHdr r) of
             (None, None) \<Rightarrow> Some rt
           | (Some c, Some d) \<Rightarrow> (if \<not> rt then Some False
               else (case (com c, com d) of (Some h, Some k) \<Rightarrow> com_eq h k | _ \<Rightarrow> Some False))
           | _ \<Rightarrow> Some False))
     | (Some b, Some d) \<Rightarrow> Some (case (b, d) of (ComBody x, ComBody y) \<Rightarrow> x = y | _ \<Rightarrow> False)
     | _ \<Rightarrow> Some False)"

section \<open>COMMsgHelper\<close>

abbreviation (input) "COM_MESSAGE_REQ \<equiv> 100 :: UINT"
abbreviation (input) "COM_MESSAGE_RSP \<equiv> 101 :: UINT"
abbreviation (input) "COM_MESSAGE_TMP \<equiv> 102 :: UINT"

definition log_Level :: "CHAR8 list \<Rightarrow> int" where
  "log_Level s = (if cstr s = lit ''LOG_DEBUG'' then 0 else if cstr s = lit ''LOG_INFO'' then 1
     else if cstr s = lit ''LOG_NOTICE'' then 2 else if cstr s = lit ''LOG_WARNING'' then 3
     else if cstr s = lit ''LOG_ERR'' then 4 else if cstr s = lit ''LOG_CRIT'' then 5
     else if cstr s = lit ''LOG_ALERT'' then 6 else if cstr s = lit ''LOG_EMERG'' then 7 else 1)"

definition addMsgBody :: "TUniNetMsg \<Rightarrow> CHAR8 list \<Rightarrow> TUniNetMsg" where
  "addMsgBody m info = snd (setMsgBody (Some (ComBody info)) m)"

definition addCtrlMsgHdr :: "TUniNetMsg \<Rightarrow> 32 word \<Rightarrow> 32 word \<Rightarrow> 32 word \<Rightarrow> TUniNetMsg" where
  "addCtrlMsgHdr m st pr fa = snd (setCtrlMsgHdr
     (Some (ctrl_new\<lparr>com := Some (TComMsgHdr_new\<lparr>status := st, pri := pr, facility := fa\<rparr>)\<rparr>)) m)"

definition getComMsgCtrlHdr :: "TUniNetMsg \<Rightarrow> TComMsgHdr option" where
  "getComMsgCtrlHdr m = (if \<not> hasCtrlMsgHdr m then None else do { c \<leftarrow> ctrlMsgHdr m; com c })"

definition getComMsgBody :: "TUniNetMsg \<Rightarrow> CHAR8 list option" where
  "getComMsgBody m = (if \<not> hasMsgBody m then None
     else (case msgBody m of Some (ComBody info) \<Rightarrow> Some info | _ \<Rightarrow> None))"

definition getComMsgPri :: "TUniNetMsg \<Rightarrow> 32 word" where
  "getComMsgPri m = (case ctrlMsgHdr m of None \<Rightarrow> 0 | Some c \<Rightarrow> (case com c of None \<Rightarrow> 0 | Some h \<Rightarrow> pri h))"

text \<open>\<open>genComMsgResp\<close> casts the header to \<open>TComMsgHdr\<close> without a test: another class, or
  a missing header under a set flag, is undefined.\<close>

definition genComMsgResp :: "TUniNetMsg \<Rightarrow> 32 word \<Rightarrow> TUniNetMsg option" where
  "genComMsgResp m code = do {
     let r = TUniNetMsg_new\<lparr>oAddr := tAddr m, tAddr := oAddr m, dialogType := dialogType m,
       msgName := (if code = 100 then COM_MESSAGE_TMP else COM_MESSAGE_RSP), msgType := msgType m\<rparr>;
     let r = (if hasCSeq m then setCSeq (getCSeq m) r else r);
     let r = (if hasTransId m then setTransId (transID m) r else r);
     if hasCtrlMsgHdr m then do {
       c \<leftarrow> getCtrlMsgHdr m;
       h \<leftarrow> com c;
       h' \<leftarrow> com_assign h TComMsgHdr_new;
       Some (snd (setCtrlMsgHdr (Some (ctrl_new\<lparr>com := Some (h'\<lparr>status := code\<rparr>)\<rparr>)) r)) }
     else Some r }"

text \<open>The dynamic type of a message in a queue.\<close>

datatype TMsg = UniNet TUniNetMsg | Event TEventMsg | TimeOut TTimeOutMsg | PlainMsg STuple

end
