(* ===== verification/Fifo.thy ===== *)
theory Fifo
  imports Prelude
begin

text \<open>
  The message queues between threads: \<open>AbstractFifo\<close> (\<open>comserv/fifoabstract.*\<close>),
  \<open>Fifo\<close>, \<open>FiniteFifo\<close>, \<open>TimeLimitFifo\<close> and \<open>SortedFifo\<close>
  (\<open>comserv/fifo*.h\<close>).

  Every member function holds the mutex from its first line to its return, except while it waits
  on the condition variable. A critical section is therefore one atomic step; a thread that waits
  is an entry of \<open>waiters\<close> until \<open>signal\<close> moves it to \<open>woken\<close>, its wait ends
  spuriously, or its time expires. The choice of the thread a signal wakes and the clock readings
  are inputs of the steps. A failed \<open>assert\<close> is the outcome \<open>Abort\<close>.
\<close>

section \<open>AbstractFifo\<close>

type_synonym ulong = "64 word"

abbreviation (input) "NoSize \<equiv> (- 1) :: ulong"

record 'a fifo =
  mFifo :: "'a list"
  mSize :: ulong
  mMaxSize :: ulong

definition AbstractFifo_new :: "32 word \<Rightarrow> 'a fifo" where
  "AbstractFifo_new maxSize = \<lparr>mFifo = [], mSize = 0, mMaxSize = ucast maxSize\<rparr>"

datatype 'a outcome = Got 'a | Nothing | Waits | Abort | Done

text \<open>The critical section of \<open>getNext()\<close> from the test of the loop on.\<close>

definition take_front :: "'a fifo \<Rightarrow> 'a outcome \<times> 'a fifo" where
  "take_front q = (case mFifo q of [] \<Rightarrow> (Waits, q)
     | m # ms \<Rightarrow> let q = q\<lparr>mFifo := ms\<rparr> in
         if mSize q = 0 then (Abort, q) else (Got m, q\<lparr>mSize := mSize q - 1\<rparr>))"

definition getNext_try :: "'a fifo \<Rightarrow> 'a outcome \<times> 'a fifo" where
  "getNext_try q = take_front q"

text \<open>The same for \<open>getNext(ms)\<close>, with the end of the wait and the clock.\<close>

definition getNext_ms_try :: "ulong \<Rightarrow> ulong \<Rightarrow> 'a fifo \<Rightarrow> 'a outcome \<times> 'a fifo" where
  "getNext_ms_try end_t now q = (if mFifo q = [] then (if now \<ge> end_t then (Nothing, q) else (Waits, q)) else take_front q)"

definition fifo_empty :: "'a fifo \<Rightarrow> bool" where
  "fifo_empty q = (mSize q = 0)"

definition fifo_size :: "'a fifo \<Rightarrow> 32 word" where
  "fifo_size q = ucast (mSize q)"

definition messageAvailable :: "'a fifo \<Rightarrow> bool option" where
  "messageAvailable q = (if mSize q = NoSize then None else Some (mFifo q \<noteq> []))"

definition getCountDepth :: "'a fifo \<Rightarrow> ulong" where
  "getCountDepth q = mSize q"

section \<open>Fifo\<close>

definition Fifo_new :: "'a fifo" where
  "Fifo_new = AbstractFifo_new 0"

definition push :: "'a \<Rightarrow> 'a fifo \<Rightarrow> 'a fifo" where
  "push m q = q\<lparr>mFifo := mFifo q @ [m], mSize := mSize q + 1\<rparr>"

definition fifo_add :: "'a \<Rightarrow> 'a fifo \<Rightarrow> 'a fifo" where
  "fifo_add m q = push m q"

text \<open>\<open>clear\<close> deletes the messages, in order.\<close>

fun fifo_drain :: "'a list \<Rightarrow> 'a list \<Rightarrow> 'a list \<times> 'a list" where
  "fifo_drain [] deleted = ([], deleted)"
| "fifo_drain (m # ms) deleted = fifo_drain ms (deleted @ [m])"

definition fifo_clear :: "'a fifo \<Rightarrow> 'a list \<times> 'a fifo" where
  "fifo_clear q = (let (ms, deleted) = fifo_drain (mFifo q) [] in (deleted, q\<lparr>mFifo := ms, mSize := NoSize\<rparr>))"

section \<open>FiniteFifo\<close>

definition FiniteFifo_new :: "32 word \<Rightarrow> 'a fifo" where
  "FiniteFifo_new maxSize = AbstractFifo_new maxSize"

definition finite_add :: "'a \<Rightarrow> 'a fifo \<Rightarrow> bool \<times> 'a fifo" where
  "finite_add m q = (if mMaxSize q \<noteq> NoSize \<and> mSize q \<ge> mMaxSize q then (False, q) else (True, push m q))"

definition finite_delete :: "'a fifo \<Rightarrow> 'a list \<times> 'a fifo" where
  "finite_delete q = (let (ms, deleted) = fifo_drain (mFifo q) [] in (deleted, q\<lparr>mFifo := ms, mSize := NoSize\<rparr>))"

section \<open>TimeLimitFifo\<close>

text \<open>Entries carry their time; \<open>time_t\<close> is an \<open>int\<close>.\<close>

record 'a tfifo =
  base :: "('a \<times> int) fifo"
  mMaxDurationSecs :: int
  mUnreservedMaxSize :: "32 word"

datatype DepthUsage = EnforceTimeDepth | IgnoreTimeDepth | InternalElement

definition TimeLimitFifo_new :: "32 word \<Rightarrow> 32 word \<Rightarrow> 'a tfifo" where
  "TimeLimitFifo_new maxDurationSecs maxSize = \<lparr>base = AbstractFifo_new maxSize, mMaxDurationSecs = uint maxDurationSecs,
     mUnreservedMaxSize = (maxSize * 8) div 10\<rparr>"

definition timeDepthInternal :: "int \<Rightarrow> 'a tfifo \<Rightarrow> int option" where
  "timeDepthInternal now q = (case mFifo (base q) of [] \<Rightarrow> None | (m, t) # _ \<Rightarrow> Some (now - t))"

definition wouldAcceptInteral :: "int \<Rightarrow> DepthUsage \<Rightarrow> 'a tfifo \<Rightarrow> bool option" where
  "wouldAcceptInteral now usage q = (
     if mMaxSize (base q) \<noteq> 0 \<and> mSize (base q) \<ge> mMaxSize (base q) then Some False
     else if usage = InternalElement then Some True
     else if mUnreservedMaxSize q \<noteq> 0 \<and> mSize (base q) \<ge> ucast (mUnreservedMaxSize q) then Some False
     else if usage = IgnoreTimeDepth then Some True
     else if mSize (base q) = 0 \<or> mMaxDurationSecs q = 0 then Some True
     else do { d \<leftarrow> timeDepthInternal now q; Some (d < mMaxDurationSecs q) })"

definition wouldAccept :: "int \<Rightarrow> DepthUsage \<Rightarrow> 'a tfifo \<Rightarrow> bool option" where
  "wouldAccept now usage q = wouldAcceptInteral now usage q"

definition tl_add :: "int \<Rightarrow> int \<Rightarrow> 'a \<Rightarrow> DepthUsage \<Rightarrow> 'a tfifo \<Rightarrow> (bool \<times> 'a tfifo) option" where
  "tl_add now n m usage q = do {
     ok \<leftarrow> wouldAcceptInteral now usage q;
     Some (if ok then (True, q\<lparr>base := push (m, n) (base q)\<rparr>) else (False, q)) }"

definition tl_getNext_try :: "'a tfifo \<Rightarrow> ('a \<times> int) outcome \<times> 'a tfifo" where
  "tl_getNext_try q = (let (r, b) = getNext_try (base q) in (r, q\<lparr>base := b\<rparr>))"

definition tl_getNext_ms_try :: "ulong \<Rightarrow> ulong \<Rightarrow> 'a tfifo \<Rightarrow> ('a \<times> int) outcome \<times> 'a tfifo" where
  "tl_getNext_ms_try end_t now q = (let (r, b) = getNext_ms_try end_t now (base q) in (r, q\<lparr>base := b\<rparr>))"

definition timeDepth :: "int \<Rightarrow> 'a tfifo \<Rightarrow> int" where
  "timeDepth now q = (case mFifo (base q) of [] \<Rightarrow> 0 | (m, t) # _ \<Rightarrow> now - t)"

definition tl_clear :: "'a tfifo \<Rightarrow> 'a list \<times> 'a tfifo" where
  "tl_clear q = (let (ms, deleted) = fifo_drain (mFifo (base q)) [] in
     (map fst deleted, q\<lparr>base := (base q)\<lparr>mFifo := ms, mSize := 0\<rparr>\<rparr>))"

section \<open>SortedFifo\<close>

text \<open>A \<open>std::map\<close> as the list of its pairs in key order; \<open>insert\<close> keeps an entry that is
  there. The values are compared with their own \<open>operator<\<close>.\<close>

type_synonym ('k, 'v) stdmap = "('k \<times> 'v) list"

fun map_insert :: "('k :: linorder) \<Rightarrow> 'v \<Rightarrow> ('k, 'v) stdmap \<Rightarrow> ('k, 'v) stdmap" where
  "map_insert k v [] = [(k, v)]"
| "map_insert k v ((k', v') # m) = (if k < k' then (k, v) # (k', v') # m
     else if k' < k then (k', v') # map_insert k v m else (k', v') # m)"

definition sf_size :: "('k, 'v) stdmap \<Rightarrow> nat" where
  "sf_size m = length m"

definition sf_empty :: "('k, 'v) stdmap \<Rightarrow> bool" where
  "sf_empty m = (m = [])"

definition sf_add_ref :: "('k :: linorder) \<Rightarrow> 'v \<Rightarrow> ('k, 'v) stdmap \<Rightarrow> bool \<times> ('k, 'v) stdmap" where
  "sf_add_ref k v m = (True, map_insert k v m)"

definition sf_add :: "('k :: linorder) \<Rightarrow> 'v \<Rightarrow> ('k, 'v) stdmap \<Rightarrow> bool \<times> ('k, 'v) stdmap" where
  "sf_add k v m = (True, map_insert k v m)"

definition sf_add_ptr :: "('k :: linorder) \<Rightarrow> 'v option \<Rightarrow> ('k, 'v) stdmap \<Rightarrow> (bool \<times> ('k, 'v) stdmap) option" where
  "sf_add_ptr k p m = do { v \<leftarrow> p; Some (True, map_insert k v m) }"

fun front_loop :: "('v \<Rightarrow> 'v \<Rightarrow> bool) \<Rightarrow> ('k, 'v) stdmap \<Rightarrow> 'k \<times> 'v \<Rightarrow> 'k \<times> 'v" where
  "front_loop lt [] ret = ret"
| "front_loop lt (it # its) ret = front_loop lt its (if lt (snd it) (snd ret) then it else ret)"

definition getFront :: "('v \<Rightarrow> 'v \<Rightarrow> bool) \<Rightarrow> ('k, 'v) stdmap \<Rightarrow> ('k \<times> 'v) option" where
  "getFront lt m = (if m = [] then None else Some (front_loop lt m (hd m)))"

definition findByKey :: "'k \<Rightarrow> ('k, 'v) stdmap \<Rightarrow> 'v option" where
  "findByKey k m = map_of m k"

definition deleteByKey :: "'k \<Rightarrow> ('k, 'v) stdmap \<Rightarrow> ('k, 'v) stdmap" where
  "deleteByKey k m = filter (\<lambda>e. fst e \<noteq> k) m"

definition sf_clear :: "('k, 'v) stdmap \<Rightarrow> ('k, 'v) stdmap" where
  "sf_clear m = []"

section \<open>Threads at a Fifo\<close>

record 'a monitor =
  fifo_of :: "'a fifo"
  waiters :: "(nat \<times> ulong option) list"
  woken :: "(nat \<times> ulong option) list"

definition monitor_new :: "'a monitor" where
  "monitor_new = \<lparr>fifo_of = Fifo_new, waiters = [], woken = []\<rparr>"

datatype 'a action = Add 'a nat | GetNext nat | GetNextMs nat "32 word" ulong ulong | Resume nat ulong | Spurious nat ulong | Expire nat

text \<open>\<open>signal\<close> wakes one of the waiting threads, chosen by the system.\<close>

definition signal :: "nat \<Rightarrow> 'a monitor \<Rightarrow> 'a monitor" where
  "signal k s = (case waiters s of [] \<Rightarrow> s
     | w # ws \<Rightarrow> let i = k mod length (waiters s) in
         s\<lparr>waiters := take i (waiters s) @ drop (Suc i) (waiters s), woken := woken s @ [waiters s ! i]\<rparr>)"

definition forget :: "nat \<Rightarrow> (nat \<times> ulong option) list \<Rightarrow> (nat \<times> ulong option) list" where
  "forget t ws = filter (\<lambda>w. fst w \<noteq> t) ws"

text \<open>One run of the loop body of \<open>getNext\<close> by thread \<open>t\<close>, which waits until \<open>e\<close>.\<close>

definition attempt :: "nat \<Rightarrow> ulong option \<Rightarrow> ulong \<Rightarrow> 'a monitor \<Rightarrow> 'a outcome \<times> 'a monitor" where
  "attempt t e now s = (let (r, q) = (case e of None \<Rightarrow> getNext_try (fifo_of s) | Some e \<Rightarrow> getNext_ms_try e now (fifo_of s)) in
     (r, s\<lparr>fifo_of := q, waiters := (if r = Waits then waiters s @ [(t, e)] else waiters s)\<rparr>))"

definition idle :: "nat \<Rightarrow> 'a monitor \<Rightarrow> bool" where
  "idle t s = (t \<notin> fst ` set (waiters s) \<and> t \<notin> fst ` set (woken s))"

fun perform :: "'a action \<Rightarrow> 'a monitor \<Rightarrow> ('a outcome \<times> 'a monitor) option" where
  "perform (Add m k) s = Some (Done, signal k (s\<lparr>fifo_of := fifo_add m (fifo_of s)\<rparr>))"
| "perform (GetNext t) s = (if idle t s then Some (attempt t None 0 s) else None)"
| "perform (GetNextMs t ms begin_t now) s = (if idle t s then Some (
     if ms = 0 then attempt t None 0 s else attempt t (Some (begin_t + ucast ms)) now s) else None)"
| "perform (Resume t now) s = (case map_of (woken s) t of None \<Rightarrow> None
     | Some e \<Rightarrow> Some (attempt t e now (s\<lparr>woken := forget t (woken s)\<rparr>)))"
| "perform (Spurious t now) s = (case map_of (waiters s) t of None \<Rightarrow> None
     | Some e \<Rightarrow> Some (attempt t e now (s\<lparr>waiters := forget t (waiters s)\<rparr>)))"
| "perform (Expire t) s = (case map_of (waiters s) t of Some (Some e) \<Rightarrow> Some (Nothing, s\<lparr>waiters := forget t (waiters s)\<rparr>)
     | _ \<Rightarrow> None)"

text \<open>A run: the messages added and the messages returned, in order.\<close>

inductive run :: "'a list \<Rightarrow> 'a list \<Rightarrow> 'a outcome list \<Rightarrow> 'a monitor \<Rightarrow> bool" where
  start: "run [] [] [] monitor_new"
| step: "run ins outs rs s \<Longrightarrow> perform a s = Some (r, s') \<Longrightarrow>
    run (case a of Add m k \<Rightarrow> ins @ [m] | _ \<Rightarrow> ins) (case r of Got m \<Rightarrow> outs @ [m] | _ \<Rightarrow> outs) (rs @ [r]) s'"

end
