(* ===== verification/FifoSpec.thy ===== *)
theory FifoSpec
  imports Fifo "HOL-Library.Multiset"
begin

text \<open>
  The queues deliver in order whatever the interleaving of the threads, no wake-up is lost, the
  bounded queues respect their bounds, and what \<open>Fifo::clear\<close> leaves behind.
\<close>

section \<open>Threads at a Fifo\<close>

definition counted :: "'a fifo \<Rightarrow> bool" where
  "counted q = (mSize q = of_nat (length (mFifo q)))"

lemma of_nat_zero_small: "n < 2 ^ 64 \<Longrightarrow> (of_nat n :: ulong) = 0 \<longleftrightarrow> n = 0"
  by (simp add: word_unat_eq_iff unat_of_nat)

lemma take_front_ok:
  assumes "counted q" "length (mFifo q) < 2 ^ 64"
  obtains "mFifo q = []" "take_front q = (Waits, q)"
  | m ms q' where "mFifo q = m # ms" "take_front q = (Got m, q')" "mFifo q' = ms" "counted q'"
proof (cases "mFifo q")
  case Nil
  then show thesis using that(1) by (simp add: take_front_def)
next
  case (Cons m ms)
  then have "mSize q \<noteq> 0" using assms of_nat_zero_small [of "length (mFifo q)"] by (simp add: counted_def)
  then show thesis using Cons assms by (intro that(2) [of m ms "q\<lparr>mFifo := ms, mSize := mSize q - 1\<rparr>"]) (simp_all add: take_front_def counted_def)
qed

definition threads_ok :: "'a monitor \<Rightarrow> bool" where
  "threads_ok s = (distinct (map fst (waiters s @ woken s)) \<and> (waiters s \<noteq> [] \<longrightarrow> length (mFifo (fifo_of s)) \<le> length (woken s)))"

lemma forget_length: "distinct (map fst ws) \<Longrightarrow> map_of ws t = Some e \<Longrightarrow> length ws = Suc (length (forget t ws))"
proof (induction ws)
  case (Cons w ws)
  have "forget t ws = ws" if "t \<notin> fst ` set ws" using that by (auto simp: forget_def intro!: filter_True)
  then show ?case using Cons by (auto simp: forget_def split: if_splits)
qed simp

lemma distinct_forget: "distinct (map fst ws) \<Longrightarrow> distinct (map fst (forget t ws)) \<and> t \<notin> fst ` set (forget t ws)"
  by (auto simp: forget_def distinct_map_filter)

lemma set_forget: "fst ` set (forget t ws) \<subseteq> fst ` set ws"
  by (auto simp: forget_def)

lemma attempt_ok:
  assumes q: "counted (fifo_of s)" "length (mFifo (fifo_of s)) < 2 ^ 64"
    and d: "distinct (map fst (waiters s @ woken s))" "idle t s"
    and w: "waiters s \<noteq> [] \<longrightarrow> length (mFifo (fifo_of s)) \<le> Suc (length (woken s))"
    and a: "attempt t e now s = (r, s')"
  shows "counted (fifo_of s')" "r \<noteq> Abort" "mFifo (fifo_of s) = (case r of Got m \<Rightarrow> [m] | _ \<Rightarrow> []) @ mFifo (fifo_of s')"
    "threads_ok s'"
proof -
  let ?q = "fifo_of s"
  consider "mFifo ?q = []" | m ms q' where "mFifo ?q = m # ms" "take_front ?q = (Got m, q')" "mFifo q' = ms" "counted q'"
    by (rule take_front_ok [OF q]) auto
  then have "counted (fifo_of s') \<and> r \<noteq> Abort \<and> mFifo (fifo_of s) = (case r of Got m \<Rightarrow> [m] | _ \<Rightarrow> []) @ mFifo (fifo_of s') \<and> threads_ok s'"
  proof cases
    case 1
    then have "r \<in> {Waits, Nothing} \<and> s' = s\<lparr>waiters := (if r = Waits then waiters s @ [(t, e)] else waiters s)\<rparr>" using a
      by (cases e) (auto simp: attempt_def getNext_try_def getNext_ms_try_def take_front_def split: if_splits)
    then show ?thesis using 1 q d by (auto simp only: threads_ok_def idle_def) simp_all
  next
    case 2
    have "s' = s\<lparr>fifo_of := q'\<rparr>" "r = Got m" using a 2
      by (auto simp: attempt_def getNext_try_def getNext_ms_try_def split: option.splits if_splits)
    then show ?thesis using 2 d w by (simp add: threads_ok_def)
  qed
  then show "counted (fifo_of s')" "r \<noteq> Abort" "mFifo (fifo_of s) = (case r of Got m \<Rightarrow> [m] | _ \<Rightarrow> []) @ mFifo (fifo_of s')"
    "threads_ok s'" by blast+
qed

lemma mset_without: "i < length xs \<Longrightarrow> mset (take i xs @ drop (Suc i) xs) + {#xs ! i#} = mset xs"
  using arg_cong [OF id_take_nth_drop, of i xs mset] by simp

lemma signal_ok:
  assumes "distinct (map fst (waiters s @ woken s))" "waiters s \<noteq> [] \<longrightarrow> length (mFifo (fifo_of s)) \<le> Suc (length (woken s))"
  shows "threads_ok (signal k s)" "fifo_of (signal k s) = fifo_of s"
proof -
  show "fifo_of (signal k s) = fifo_of s" by (simp add: signal_def Let_def split: list.splits)
  show "threads_ok (signal k s)"
  proof (cases "waiters s")
    case Nil
    then show ?thesis using assms by (simp add: signal_def threads_ok_def)
  next
    case (Cons w ws)
    let ?i = "k mod length (waiters s)" let ?v = "take ?i (waiters s) @ drop (Suc ?i) (waiters s)"
    have i: "?i < length (waiters s)" using Cons by simp
    have "mset (?v @ woken s @ [waiters s ! ?i]) = mset (waiters s @ woken s)" using mset_without [OF i] by (simp add: add.assoc [symmetric])
    then have "mset (map fst (?v @ woken s @ [waiters s ! ?i])) = mset (map fst (waiters s @ woken s))" by (metis mset_map)
    then have "distinct (map fst (?v @ woken s @ [waiters s ! ?i]))" using assms(1) by (metis mset_eq_imp_distinct_iff)
    then show ?thesis using Cons assms(2) by (simp add: signal_def threads_ok_def Let_def)
  qed
qed

definition monitor_ok :: "'a list \<Rightarrow> 'a list \<Rightarrow> 'a outcome list \<Rightarrow> 'a monitor \<Rightarrow> bool" where
  "monitor_ok ins outs rs s = (counted (fifo_of s) \<and> threads_ok s \<and> outs @ mFifo (fifo_of s) = ins \<and> Abort \<notin> set rs)"

lemma run_ok: "run ins outs rs s \<Longrightarrow> length ins < 2 ^ 64 \<Longrightarrow> monitor_ok ins outs rs s"
proof (induction rule: run.induct)
  case start
  then show ?case by (simp add: monitor_ok_def counted_def threads_ok_def monitor_new_def Fifo_new_def AbstractFifo_new_def)
next
  case (step ins outs rs s a r s')
  have ok: "monitor_ok ins outs rs s" using step by (auto split: action.splits)
  then have q: "counted (fifo_of s)" "outs @ mFifo (fifo_of s) = ins" "Abort \<notin> set rs"
    and th: "distinct (map fst (waiters s @ woken s))" "waiters s \<noteq> [] \<longrightarrow> length (mFifo (fifo_of s)) \<le> length (woken s)"
    by (simp_all add: monitor_ok_def threads_ok_def)
  have l: "length (mFifo (fifo_of s)) < 2 ^ 64" using q(2) step.prems by (auto split: action.splits)
  have fin: ?case if "attempt t e now s1 = (r, s')" "fifo_of s1 = fifo_of s" "distinct (map fst (waiters s1 @ woken s1))"
    "idle t s1" "waiters s1 \<noteq> [] \<longrightarrow> length (mFifo (fifo_of s)) \<le> Suc (length (woken s1))" "\<forall>m k. a \<noteq> Add m k" for t e now s1
  proof -
    note A = attempt_ok [of s1, OF _ _ that(3,4) _ that(1)]
    have "counted (fifo_of s')" "r \<noteq> Abort" "threads_ok s'"
      "mFifo (fifo_of s) = (case r of Got m \<Rightarrow> [m] | _ \<Rightarrow> []) @ mFifo (fifo_of s')"
      using A q(1) l that by simp_all
    then show ?thesis using q that(6) by (cases r; cases a) (simp_all add: monitor_ok_def)
  qed
  show ?case
  proof (cases a)
    case (Add m k)
    then have "r = Done" "s' = signal k (s\<lparr>fifo_of := push m (fifo_of s)\<rparr>)" using step.hyps(2) by (simp_all add: fifo_add_def)
    then show ?thesis using Add q th signal_ok [of "s\<lparr>fifo_of := push m (fifo_of s)\<rparr>" k]
      by (simp add: monitor_ok_def counted_def push_def)
  next
    case (GetNext t)
    show ?thesis by (rule fin [of t None 0 s]) (use GetNext step.hyps(2) th in \<open>auto split: if_splits\<close>)
  next
    case (GetNextMs t ms b n)
    show ?thesis
      by (rule fin [of t "if ms = 0 then None else Some (b + ucast ms)" "if ms = 0 then 0 else n" s])
        (use GetNextMs step.hyps(2) th in \<open>auto split: if_splits\<close>)
  next
    case (Resume t now)
    then obtain e where e: "map_of (woken s) t = Some e" "attempt t e now (s\<lparr>woken := forget t (woken s)\<rparr>) = (r, s')"
      using step.hyps(2) by (auto split: option.splits)
    have "t \<in> fst ` set (woken s)" using e(1) by (metis domI dom_map_of_conv_image_fst)
    then show ?thesis using th Resume forget_length [OF _ e(1)] distinct_forget [of "woken s" t] set_forget [of t "woken s"]
      by (intro fin [OF e(2)]) (auto simp: idle_def)
  next
    case (Spurious t now)
    then obtain e where e: "map_of (waiters s) t = Some e" "attempt t e now (s\<lparr>waiters := forget t (waiters s)\<rparr>) = (r, s')"
      using step.hyps(2) by (auto split: option.splits)
    have "t \<in> fst ` set (waiters s)" "waiters s \<noteq> []" using e(1) by (metis domI dom_map_of_conv_image_fst, auto)
    then show ?thesis using th Spurious distinct_forget [of "waiters s" t] set_forget [of t "waiters s"]
      by (intro fin [OF e(2)]) (auto simp: idle_def)
  next
    case (Expire t)
    then have e: "r = Nothing" "s' = s\<lparr>waiters := forget t (waiters s)\<rparr>" "waiters s \<noteq> []" using step.hyps(2) by (auto split: option.splits)
    then show ?thesis using ok th Expire distinct_forget [of "waiters s" t] set_forget [of t "waiters s"]
      by (auto simp: monitor_ok_def threads_ok_def)
  qed
qed

text \<open>Property C5. In every interleaving of threads that add to one \<open>Fifo\<close>, call
  \<open>getNext\<close> with or without a time limit, are woken by signals or spuriously, or time out, the
  messages returned so far followed by the messages still queued are exactly the messages added, in
  order; no assertion fails and \<open>mSize\<close> counts the queue.\<close>

theorem fifo_in_order:
  assumes "run ins outs rs s" "length ins < 2 ^ 64"
  shows "outs @ mFifo (fifo_of s) = ins \<and> Abort \<notin> set rs \<and> unat (mSize (fifo_of s)) = length (mFifo (fifo_of s))"
proof -
  have ok: "monitor_ok ins outs rs s" using run_ok [OF assms] .
  then have "length (mFifo (fifo_of s)) < 2 ^ 64" using assms(2) by (auto simp: monitor_ok_def)
  then show ?thesis using ok by (simp add: monitor_ok_def counted_def unat_of_nat)
qed

text \<open>Property C20. No wake-up is lost: in every reachable state in which a message is queued while a
  thread waits in \<open>getNext\<close>, some thread has been woken and not yet run, and when it runs it
  returns the first message.\<close>

theorem fifo_no_lost_wakeup:
  assumes "run ins outs rs s" "length ins < 2 ^ 64" "waiters s \<noteq> []" "mFifo (fifo_of s) = m # ms"
  shows "\<exists>t \<in> fst ` set (woken s). \<forall>now. \<exists>s'. perform (Resume t now) s = Some (Got m, s')"
proof -
  have ok: "monitor_ok ins outs rs s" using run_ok [OF assms(1,2)] .
  then have q: "counted (fifo_of s)" "length (mFifo (fifo_of s)) < 2 ^ 64" using assms(2) by (auto simp: monitor_ok_def)
  have "length (m # ms) \<le> length (woken s)" using ok assms(3,4) by (simp add: monitor_ok_def threads_ok_def)
  then obtain t e ws where w: "woken s = (t, e) # ws" by (cases "woken s") auto
  obtain q' where "take_front (fifo_of s) = (Got m, q')" using take_front_ok [OF q] assms(4) by (metis list.inject list.distinct(1))
  then have "\<exists>s'. perform (Resume t now) s = Some (Got m, s')" for now using w assms(4)
    by (cases e) (simp_all add: attempt_def getNext_try_def getNext_ms_try_def)
  then show ?thesis using w by auto
qed

text \<open>Runs can be computed.\<close>

fun exec :: "'a action list \<Rightarrow> 'a list \<times> 'a list \<times> 'a outcome list \<times> 'a monitor \<Rightarrow> ('a list \<times> 'a list \<times> 'a outcome list \<times> 'a monitor) option" where
  "exec [] c = Some c"
| "exec (a # as) (ins, outs, rs, s) = do {
     (r, s') \<leftarrow> perform a s;
     exec as (case a of Add m k \<Rightarrow> ins @ [m] | _ \<Rightarrow> ins, case r of Got m \<Rightarrow> outs @ [m] | _ \<Rightarrow> outs, rs @ [r], s') }"

lemma exec_run: "run ins outs rs s \<Longrightarrow> exec as (ins, outs, rs, s) = Some (ins', outs', rs', s') \<Longrightarrow> run ins' outs' rs' s'"
proof (induction as "(ins, outs, rs, s)" arbitrary: ins outs rs s rule: exec.induct)
  case (2 a as ins outs rs s)
  then obtain r t where p: "perform a s = Some (r, t)" by (auto simp: bind_Some_iff)
  then show ?case using 2 run.step [OF 2(2) p] by (simp add: bind_Some_iff)
qed simp

lemmas exec_start = exec_run [OF run.start]

lemmas monitor_defs = monitor_new_def Fifo_new_def AbstractFifo_new_def attempt_def idle_def getNext_try_def getNext_ms_try_def
  take_front_def fifo_add_def push_def signal_def forget_def

definition sample_waiting :: "nat monitor" where
  "sample_waiting = \<lparr>fifo_of = \<lparr>mFifo = [8], mSize = 1, mMaxSize = 0\<rparr>, waiters = [(2, Some 10)], woken = [(1, None)]\<rparr>"

lemma sample_run: "run [8] [] [Waits, Waits, Done] sample_waiting"
  by (rule exec_start [of "[GetNext 1, GetNextMs 2 5 5 6, Add 8 0]"]) (simp add: monitor_defs Let_def sample_waiting_def)

theorem fifo_in_order_witness:
  "[] @ mFifo (fifo_of sample_waiting) = [8] \<and> Abort \<notin> set [Waits, Waits, Done :: nat outcome] \<and>
   unat (mSize (fifo_of sample_waiting)) = length (mFifo (fifo_of sample_waiting))"
  by (rule fifo_in_order [OF sample_run]) simp

theorem fifo_no_lost_wakeup_witness:
  "\<exists>t \<in> fst ` set (woken sample_waiting). \<forall>now. \<exists>s'. perform (Resume t now) sample_waiting = Some (Got 8, s')"
  by (rule fifo_no_lost_wakeup [OF sample_run, of 8 "[]"]) (simp_all add: sample_waiting_def)

section \<open>Clearing\<close>

lemma fifo_drain_all [simp]: "fifo_drain ms ds = ([], ds @ ms)"
  by (induction ms arbitrary: ds) auto

text \<open>\<open>Fifo::clear\<close> deletes every message once but sets \<open>mSize\<close> to
  \<open>NoSize\<close>: after the next \<open>add\<close> the queue holds the message, \<open>empty()\<close> reports
  true and the assertion in \<open>getNext\<close> fails.\<close>

theorem clear_breaks_count:
  "fst (fifo_clear q) = mFifo q \<and> mFifo (fifo_add m (snd (fifo_clear q))) = [m] \<and> fifo_empty (fifo_add m (snd (fifo_clear q))) \<and>
   fst (getNext_try (fifo_add m (snd (fifo_clear q)))) = Abort"
  by (simp add: fifo_clear_def fifo_add_def push_def fifo_empty_def getNext_try_def take_front_def)

section \<open>Bounded queues\<close>

datatype 'a tlop = TLAdd int int 'a DepthUsage | TLGet | TLGetMs ulong ulong | TLClear

text \<open>A call on a \<open>TimeLimitFifo\<close>; the result of \<open>add\<close> and the queue, \<open>None\<close> when
  an assertion fails.\<close>

fun tl_exec :: "'a tlop \<Rightarrow> 'a tfifo \<Rightarrow> 'a tfifo option" where
  "tl_exec (TLAdd now n m usage) q = map_option snd (tl_add now n m usage q)"
| "tl_exec TLGet q = (let (r, q') = tl_getNext_try q in if r = Abort then None else Some q')"
| "tl_exec (TLGetMs e now) q = (let (r, q') = tl_getNext_ms_try e now q in if r = Abort then None else Some q')"
| "tl_exec TLClear q = Some (snd (tl_clear q))"

fun tl_run :: "'a tlop list \<Rightarrow> 'a tfifo \<Rightarrow> 'a tfifo option" where
  "tl_run [] q = Some q"
| "tl_run (p # ps) q = do { q \<leftarrow> tl_exec p q; tl_run ps q }"

definition tl_inv :: "32 word \<Rightarrow> 32 word \<Rightarrow> 'a tfifo \<Rightarrow> bool" where
  "tl_inv d n q = (counted (base q) \<and> length (mFifo (base q)) \<le> unat n \<and> mMaxSize (base q) = ucast n \<and>
     mMaxDurationSecs q = uint d \<and> mUnreservedMaxSize q = (n * 8) div 10)"

lemma unat32: "unat (n :: 32 word) < 2 ^ 32"
  using unsigned_less [of n] by simp

lemma unat_widen: "unat (ucast (n :: 32 word) :: ulong) = unat n"
proof -
  have "unat n < 2 ^ 64" using unat32 [of n] by simp
  then show ?thesis by (simp only: unsigned_ucast_eq len_of_numeral_defs) (simp add: take_bit_nat_eq_self)
qed

lemma small_count:
  assumes "counted q" "length (mFifo q) \<le> unat (n :: 32 word)"
  shows "unat (mSize q) = length (mFifo q)" "length (mFifo q) < 2 ^ 64" "mSize q \<ge> ucast n \<longleftrightarrow> length (mFifo q) \<ge> unat n"
proof -
  have "unat n < 2 ^ 32" by (rule unat32)
  then show l: "length (mFifo q) < 2 ^ 64" using assms(2) by simp
  then show u: "unat (mSize q) = length (mFifo q)" using assms(1) by (simp add: counted_def unat_of_nat)
  show "mSize q \<ge> ucast n \<longleftrightarrow> length (mFifo q) \<ge> unat n" by (simp add: word_le_nat_alt u unat_widen)
qed


text \<open>What a queue accepts, in terms of its entries.\<close>

definition accepts :: "32 word \<Rightarrow> 32 word \<Rightarrow> int \<Rightarrow> DepthUsage \<Rightarrow> ('a \<times> int) list \<Rightarrow> bool" where
  "accepts d n now usage es = (length es < unat n \<and> (usage = InternalElement \<or>
     ((let u = (n * 8) div 10 in u = 0 \<or> length es < unat u) \<and>
      (usage = IgnoreTimeDepth \<or> es = [] \<or> d = 0 \<or> now - snd (hd es) < uint d))))"

lemma wouldAccept_eq:
  assumes "tl_inv d n q" "n \<noteq> 0"
  shows "wouldAcceptInteral now usage q = Some (accepts d n now usage (mFifo (base q)))"
proof -
  let ?q = "base q" let ?u = "(n * 8) div 10"
  have i: "counted ?q" "length (mFifo ?q) \<le> unat n" "mMaxSize ?q = ucast n" "mMaxDurationSecs q = uint d" "mUnreservedMaxSize q = ?u"
    using assms(1) by (simp_all add: tl_inv_def)
  note c = small_count [OF i(1,2)]
  have z: "(ucast n :: ulong) \<noteq> 0" using assms(2) by (simp add: word_unat_eq_iff unat_widen)
  have u: "mSize ?q \<ge> ucast ?u \<longleftrightarrow> length (mFifo ?q) \<ge> unat ?u" by (simp add: word_le_nat_alt c(1) unat_widen)
  have e: "mSize ?q = 0 \<longleftrightarrow> mFifo ?q = []" using c(1) by (metis length_0_conv unat_eq_zero)
  have d: "uint d = 0 \<longleftrightarrow> d = 0" by (simp add: word_uint_eq_iff)
  show ?thesis
    by (cases "mFifo ?q"; cases usage)
      (use i z u e d c(3) in \<open>auto simp: wouldAcceptInteral_def accepts_def timeDepthInternal_def Let_def not_le not_less split: prod.splits\<close>)
qed


definition tl_spec :: "32 word \<Rightarrow> 32 word \<Rightarrow> 'a tlop \<Rightarrow> ('a \<times> int) list \<Rightarrow> ('a \<times> int) list" where
  "tl_spec d n p es = (case p of TLAdd now t m usage \<Rightarrow> if accepts d n now usage es then es @ [(m, t)] else es
     | TLGet \<Rightarrow> tl es | TLGetMs e now \<Rightarrow> tl es | TLClear \<Rightarrow> [])"

lemma tl_exec_ok:
  assumes i: "tl_inv d n q" and n: "n \<noteq> 0"
  shows "\<exists>q'. tl_exec p q = Some q' \<and> tl_inv d n q' \<and> mFifo (base q') = tl_spec d n p (mFifo (base q))"
proof -
  have c: "counted (base q)" "length (mFifo (base q)) \<le> unat n" using i by (simp_all add: tl_inv_def)
  have l: "length (mFifo (base q)) < 2 ^ 64" using small_count [OF c] by simp
  have mx: "mMaxSize b = mMaxSize (base q)" if "take_front (base q) = (r, b)" for r b
    using that by (auto simp: take_front_def Let_def split: list.splits if_splits)
  have taken: "\<exists>q'. (let (r, q') = (r, q\<lparr>base := b\<rparr>) in if r = Abort then None else Some q') = Some q' \<and> tl_inv d n q' \<and>
      mFifo (base q') = tl (mFifo (base q))" if "take_front (base q) = (r, b)" for r b
  proof (rule take_front_ok [OF c(1) l])
    assume "mFifo (base q) = []" "take_front (base q) = (Waits, base q)"
    then show ?thesis using that i by simp
  next
    fix m ms q' assume "mFifo (base q) = m # ms" "take_front (base q) = (Got m, q')" "mFifo q' = ms" "counted q'"
    then show ?thesis using that i mx [OF that] by (simp add: tl_inv_def)
  qed
  obtain r b where rb: "take_front (base q) = (r, b)" by fastforce
  note taken = taken [OF rb]
  show ?thesis
  proof (cases p)
    case (TLAdd now t m usage)
    then show ?thesis using wouldAccept_eq [OF i n, of now usage] i
      by (auto simp: tl_add_def tl_spec_def tl_inv_def push_def counted_def accepts_def)
  next
    case TLGet
    then show ?thesis using taken rb by (simp add: tl_spec_def tl_getNext_try_def getNext_try_def)
  next
    case (TLGetMs e now)
    show ?thesis
    proof (cases "mFifo (base q) = []")
      case True
      then show ?thesis using TLGetMs i by (simp add: tl_spec_def tl_getNext_ms_try_def getNext_ms_try_def)
    next
      case False
      then show ?thesis using TLGetMs taken rb by (simp add: tl_spec_def tl_getNext_ms_try_def getNext_ms_try_def)
    qed
  next
    case TLClear
    then show ?thesis using i by (simp add: tl_spec_def tl_clear_def tl_inv_def counted_def)
  qed
qed

lemma tl_run_ok:
  assumes "tl_inv d n q" "n \<noteq> 0"
  shows "\<exists>q'. tl_run ps q = Some q' \<and> tl_inv d n q' \<and> mFifo (base q') = fold (tl_spec d n) ps (mFifo (base q))"
  using assms
proof (induction ps arbitrary: q)
  case (Cons p ps)
  obtain q1 where q1: "tl_exec p q = Some q1" "tl_inv d n q1" "mFifo (base q1) = tl_spec d n p (mFifo (base q))"
    using tl_exec_ok [OF Cons.prems, of p] by blast
  then show ?case using Cons.IH [OF q1(2) Cons.prems(2)] by simp
qed simp

text \<open>Property C28. Whatever sequence of calls is made on a fresh \<open>TimeLimitFifo\<close> with a size
  limit, no assertion fails, the queue never exceeds the limit, and it behaves as the specification:
  an entry is accepted while there is room, for all but internal elements only while the part not
  reserved for internal elements has room, and for elements under the time limit only while the oldest
  entry is younger than the limit.\<close>

theorem timelimit_refines:
  assumes "n \<noteq> 0"
  shows "\<exists>q. tl_run ps (TimeLimitFifo_new d n) = Some q \<and> mFifo (base q) = fold (tl_spec d n) ps [] \<and>
    length (mFifo (base q)) \<le> unat n \<and> unat (mSize (base q)) = length (mFifo (base q)) \<and>
    wouldAccept now usage q = Some (accepts d n now usage (mFifo (base q)))"
proof -
  have "tl_inv d n (TimeLimitFifo_new d n)" by (simp add: tl_inv_def TimeLimitFifo_new_def AbstractFifo_new_def counted_def)
  then obtain q where q: "tl_run ps (TimeLimitFifo_new d n) = Some q" "tl_inv d n q"
    "mFifo (base q) = fold (tl_spec d n) ps (mFifo (base (TimeLimitFifo_new d n)))" using tl_run_ok [OF _ assms] by blast
  then show ?thesis using wouldAccept_eq [OF q(2) assms] small_count [of "base q" n]
    by (auto simp: tl_inv_def wouldAccept_def TimeLimitFifo_new_def AbstractFifo_new_def)
qed

theorem timelimit_refines_witness:
  "\<exists>q. tl_run [TLAdd 5 5 (1 :: nat) EnforceTimeDepth, TLAdd 9 9 2 EnforceTimeDepth, TLAdd 9 9 3 InternalElement] (TimeLimitFifo_new 4 10) = Some q \<and>
    mFifo (base q) = fold (tl_spec 4 10) [TLAdd 5 5 1 EnforceTimeDepth, TLAdd 9 9 2 EnforceTimeDepth, TLAdd 9 9 3 InternalElement] [] \<and>
    length (mFifo (base q)) \<le> unat (10 :: 32 word) \<and> unat (mSize (base q)) = length (mFifo (base q)) \<and>
    wouldAccept 9 IgnoreTimeDepth q = Some (accepts 4 10 9 IgnoreTimeDepth (mFifo (base q)))"
  by (rule timelimit_refines) simp

section \<open>SortedFifo\<close>

definition sf_ok :: "('k :: linorder, 'v) stdmap \<Rightarrow> bool" where
  "sf_ok m = sorted_wrt (<) (map fst m)"

lemma map_insert_keys: "fst ` set (map_insert k v m) = insert k (fst ` set m)"
  by (induction k v m rule: map_insert.induct) auto

lemma map_insert_ok: "sf_ok m \<Longrightarrow> sf_ok (map_insert k v m)"
proof (induction k v m rule: map_insert.induct)
  case (2 k v k' v' m)
  then show ?case using map_insert_keys [of k v m] by (auto simp: sf_ok_def)
qed (simp add: sf_ok_def)

lemma map_insert_find:
  "sf_ok m \<Longrightarrow> map_of (map_insert k v m) = (if k \<in> dom (map_of m) then map_of m else (map_of m)(k \<mapsto> v))"
proof (induction k v m rule: map_insert.induct)
  case (2 k v k' v' m)
  have "k \<notin> dom (map_of m)" if "k < k'" using that 2(2) by (auto simp: sf_ok_def dom_map_of_conv_image_fst)
  moreover have "k \<notin> fst ` set m" if "k = k'" using that 2(2) by (auto simp: sf_ok_def)
  ultimately show ?case using 2 by (auto simp: sf_ok_def fun_eq_iff)
qed simp

lemma front_loop_least:
  fixes f :: "'v \<Rightarrow> 'b :: linorder"
  shows "front_loop (\<lambda>a b. f a < f b) es ret \<in> insert ret (set es) \<and>
    (\<forall>e \<in> insert ret (set es). f (snd (front_loop (\<lambda>a b. f a < f b) es ret)) \<le> f (snd e))"
proof (induction es arbitrary: ret)
  case (Cons e es)
  define r where "r = (if f (snd e) < f (snd ret) then e else ret)"
  have "r \<in> {e, ret}" "f (snd r) \<le> f (snd e)" "f (snd r) \<le> f (snd ret)" by (auto simp: r_def)
  moreover have "front_loop (\<lambda>a b. f a < f b) (e # es) ret = front_loop (\<lambda>a b. f a < f b) es r" by (simp add: r_def)
  ultimately show ?case using Cons.IH [of r] order_trans by (auto simp del: front_loop.simps)
qed simp

lemma front_loop_first:
  fixes f :: "'v \<Rightarrow> 'b :: linorder"
  assumes "sorted_wrt (<) (map fst (es :: ('k :: linorder \<times> 'v) list))" "\<forall>e \<in> set es. fst ret \<le> fst e" "e \<in> insert ret (set es)"
    "f (snd e) = f (snd (front_loop (\<lambda>a b. f a < f b) es ret))"
  shows "fst (front_loop (\<lambda>a b. f a < f b) es ret) \<le> fst e"
  using assms
proof (induction es arbitrary: ret e)
  case (Cons x es)
  define r where "r = (if f (snd x) < f (snd ret) then x else ret)"
  have r: "front_loop (\<lambda>a b. f a < f b) (x # es) ret = front_loop (\<lambda>a b. f a < f b) es r" by (simp add: r_def)
  have s: "sorted_wrt (<) (map fst es)" "\<forall>e \<in> set es. fst r \<le> fst e" using Cons.prems(1,2) by (auto simp: r_def)
  note L = front_loop_least [of f es r]
  have up: "f (snd r) \<le> f (snd x)" "f (snd r) \<le> f (snd ret)" "r = x \<or> r = ret" by (auto simp: r_def)
  show ?case
  proof (cases "e \<in> insert r (set es)")
    case True
    then show ?thesis using Cons.IH [OF s True] Cons.prems(4) by (simp only: r)
  next
    case False
    then have e: "e = x \<or> e = ret" using Cons.prems(3) by auto
    have "f (snd r) \<ge> f (snd e)" using Cons.prems(4) L r by auto
    then have "f (snd r) = f (snd e)" using up e by auto
    then have "e = x" "r = ret" using e False by (auto simp: r_def split: if_splits)
    moreover have "fst (front_loop (\<lambda>a b. f a < f b) es r) \<le> fst r"
      using Cons.IH [OF s, of r] Cons.prems(4) \<open>f (snd r) = f (snd e)\<close> by (simp only: r insert_iff simp_thms)
    ultimately show ?thesis using Cons.prems(2) by (simp only: r) auto
  qed
qed simp

datatype ('k, 'v) sfop = SFAdd 'k 'v | SFDelete 'k | SFClear

fun sf_exec :: "('k :: linorder, 'v) sfop \<Rightarrow> ('k, 'v) stdmap \<Rightarrow> ('k, 'v) stdmap" where
  "sf_exec (SFAdd k v) m = snd (sf_add k v m)"
| "sf_exec (SFDelete k) m = deleteByKey k m"
| "sf_exec SFClear m = sf_clear m"

fun sf_spec :: "('k, 'v) sfop \<Rightarrow> ('k \<rightharpoonup> 'v) \<Rightarrow> ('k \<rightharpoonup> 'v)" where
  "sf_spec (SFAdd k v) f = (if k \<in> dom f then f else f(k \<mapsto> v))"
| "sf_spec (SFDelete k) f = f(k := None)"
| "sf_spec SFClear f = Map.empty"

lemma map_of_delete: "map_of (deleteByKey k m) = (map_of m)(k := None)"
  by (induction m) (auto simp: deleteByKey_def fun_eq_iff)

lemma sf_exec_ok: "sf_ok m \<Longrightarrow> sf_ok (sf_exec p m) \<and> map_of (sf_exec p m) = sf_spec p (map_of m)"
proof (cases p)
  case (SFDelete k)
  assume "sf_ok m"
  then have "sf_ok (deleteByKey k m)" by (simp add: sf_ok_def deleteByKey_def sorted_wrt_map sorted_wrt_filter)
  then show ?thesis using SFDelete map_of_delete by simp
qed (auto simp: sf_add_def map_insert_ok map_insert_find sf_clear_def, simp add: sf_ok_def)

lemma sf_run_ok: "sf_ok m \<Longrightarrow> sf_ok (fold sf_exec ps m) \<and> map_of (fold sf_exec ps m) = fold sf_spec ps (map_of m)"
  by (induction ps arbitrary: m) (simp_all add: sf_exec_ok)

text \<open>After any sequence of insertions, deletions and clears a \<open>SortedFifo\<close> holds
  the map in which an inserted key keeps its first value until it is deleted; \<open>getFront\<close> returns
  an entry of least value, the one with the smallest key among these, and \<open>NULL\<close> only when the map
  is empty.\<close>

theorem sorted_fifo_front:
  fixes f :: "'v \<Rightarrow> 'b :: linorder" and ps :: "('k :: linorder, 'v) sfop list"
  shows "(\<lambda>k. findByKey k (fold sf_exec ps [])) = fold sf_spec ps Map.empty \<and>
    (case getFront (\<lambda>a b. f a < f b) (fold sf_exec ps []) of
       None \<Rightarrow> fold sf_spec ps Map.empty = Map.empty
     | Some (k, v) \<Rightarrow> fold sf_spec ps Map.empty k = Some v \<and>
         (\<forall>k' v'. fold sf_spec ps Map.empty k' = Some v' \<longrightarrow> f v < f v' \<or> f v = f v' \<and> k \<le> k'))"
proof -
  let ?m = "fold sf_exec ps []"
  have ok: "sf_ok ?m" "map_of ?m = fold sf_spec ps Map.empty" using sf_run_ok [of "[]" ps] by (auto simp: sf_ok_def)
  have d: "distinct (map fst ?m)" using ok(1) by (simp add: sf_ok_def strict_sorted_iff)
  show ?thesis
  proof (cases ?m)
    case Nil
    then show ?thesis using ok(2) by (simp add: findByKey_def getFront_def fun_eq_iff)
  next
    case (Cons e es)
    obtain k v where x: "front_loop (\<lambda>a b. f a < f b) ?m (hd ?m) = (k, v)" by fastforce
    have s: "sorted_wrt (<) (map fst ?m)" "\<forall>e \<in> set ?m. fst (hd ?m) \<le> fst e" "insert (hd ?m) (set ?m) = set ?m"
      using ok(1) Cons by (auto simp: sf_ok_def)
    have "map_of ?m k = Some v" using front_loop_least [of f ?m "hd ?m"] x s(3) d by simp
    moreover have "f v < f v' \<or> f v = f v' \<and> k \<le> k'" if "map_of ?m k' = Some v'" for k' v'
    proof -
      have e: "(k', v') \<in> insert (hd ?m) (set ?m)" using that s(3) by (metis map_of_SomeD)
      then have "f v \<le> f v'" using bspec [OF conjunct2 [OF front_loop_least [of f ?m "hd ?m"]] e] x by simp
      moreover have "k \<le> k'" if "f v = f v'" using front_loop_first [OF s(1,2) e, of f] x that by simp
      ultimately show ?thesis by auto
    qed
    moreover have g: "getFront (\<lambda>a b. f a < f b) ?m = Some (k, v)" using x Cons by (simp add: getFront_def)
    ultimately show ?thesis unfolding g ok(2) [symmetric] findByKey_def by simp
  qed
qed


theorem sorted_fifo_front_witness:
  "(\<lambda>k. findByKey k (fold sf_exec [SFAdd (3 :: nat) (9 :: nat), SFAdd 1 4, SFAdd 2 4, SFAdd 3 1] [])) =
     fold sf_spec [SFAdd 3 9, SFAdd 1 4, SFAdd 2 4, SFAdd 3 1] Map.empty \<and>
   getFront (\<lambda>a b. a < b) (fold sf_exec [SFAdd (3 :: nat) (9 :: nat), SFAdd 1 4, SFAdd 2 4, SFAdd 3 1] []) = Some (1, 4)"
  using sorted_fifo_front [of "[SFAdd (3 :: nat) (9 :: nat), SFAdd 1 4, SFAdd 2 4, SFAdd 3 1]" "\<lambda>v. v"]
  by (simp add: sf_add_def getFront_def)


section \<open>FiniteFifo\<close>

lemma finite_add_bound:
  fixes n :: "32 word"
  assumes "counted q" "length (mFifo q) \<le> unat n" "mMaxSize q = ucast n" "finite_add m q = (ok, q')"
  shows "counted q'" "length (mFifo q') \<le> unat n" "ok \<longleftrightarrow> length (mFifo q) < unat n" "mFifo q' = mFifo q @ (if ok then [m] else [])"
proof -
  have "(ucast n :: ulong) \<noteq> - 1" using unat32 [of n] by (simp add: word_unat_eq_iff unat_widen unsigned_minus_1_eq_mask mask_eq_exp_minus_1)
  then have "counted q' \<and> length (mFifo q') \<le> unat n \<and> (ok \<longleftrightarrow> length (mFifo q) < unat n) \<and> mFifo q' = mFifo q @ (if ok then [m] else [])"
    using assms small_count [OF assms(1,2)] by (auto simp: finite_add_def push_def counted_def not_le split: if_splits)
  then show "counted q'" "length (mFifo q') \<le> unat n" "ok \<longleftrightarrow> length (mFifo q) < unat n" "mFifo q' = mFifo q @ (if ok then [m] else [])"
    by blast+
qed

end
