(* ===== verification/Timers.thy ===== *)
theory Timers
  imports Messages FifoSpec HashTableSpec
begin

text \<open>
  Timers: \<open>TTimer\<close> (\<open>kernel/timer.*\<close>), \<open>TimerQueue\<close> and \<open>TaskTimerQueue\<close>
  (\<open>kernel/timerqueue.*\<close>), which send a \<open>TTimeOutMsg\<close> to the queue of the task
  container when a timer is due.

  The \<open>std::priority_queue\<close> is a bag; \<open>top\<close> is one of the timers with the least
  \<open>mWhen\<close>, and the parameter \<open>tie\<close> stands for the choice among them that the library leaves
  open. The table of timer states is the hash table of \<open>comserv/unihashtable.h\<close>, the message
  queue a \<open>Fifo\<close>. Clock readings are inputs. \<open>tq_deleted\<close> records the timer parameters
  that were deleted.
\<close>

section \<open>TTimer\<close>

record TTimer =
  mPara :: addr
  mWhen :: UINT64
  mTimerMark :: UINT
  mTimerKey :: UINT
  mTimerDelay :: UINT
  mTimerTID :: UINT
  mTimerIID :: UINT

definition TTimer_new :: "UINT64 \<Rightarrow> UINT \<Rightarrow> UINT \<Rightarrow> UINT \<Rightarrow> UINT \<Rightarrow> UINT \<Rightarrow> addr \<Rightarrow> TTimer" where
  "TTimer_new now mark key delay tid iid para = \<lparr>mPara = para, mWhen = ucast delay + now, mTimerMark = mark,
     mTimerKey = key, mTimerDelay = delay, mTimerTID = tid, mTimerIID = iid\<rparr>"

definition timer_gt :: "TTimer \<Rightarrow> TTimer \<Rightarrow> bool" where
  "timer_gt a b = (mWhen a > mWhen b)"

section \<open>The priority queue\<close>

definition earliest :: "TTimer list \<Rightarrow> TTimer list" where
  "earliest ts = filter (\<lambda>t. \<forall>u \<in> set ts. \<not> timer_gt t u) ts"

definition pq_top :: "(TTimer list \<Rightarrow> nat) \<Rightarrow> TTimer list \<Rightarrow> TTimer" where
  "pq_top tie ts = earliest ts ! (tie (earliest ts) mod length (earliest ts))"

definition pq_pop :: "(TTimer list \<Rightarrow> nat) \<Rightarrow> TTimer list \<Rightarrow> TTimer list" where
  "pq_pop tie ts = remove1 (pq_top tie ts) ts"

lemma earliest_ne: "ts \<noteq> [] \<Longrightarrow> earliest ts \<noteq> []"
proof -
  assume "ts \<noteq> []"
  then have "arg_min_on mWhen (set ts) \<in> set ts" "\<forall>u \<in> set ts. mWhen (arg_min_on mWhen (set ts)) \<le> mWhen u"
    by (auto intro: arg_min_if_finite arg_min_least)
  then show ?thesis by (auto simp: earliest_def timer_gt_def filter_empty_conv not_less)
qed

lemma pq_top_least: "ts \<noteq> [] \<Longrightarrow> pq_top tie ts \<in> set ts \<and> (\<forall>u \<in> set ts. mWhen (pq_top tie ts) \<le> mWhen u)"
proof -
  assume "ts \<noteq> []"
  then have "pq_top tie ts \<in> set (earliest ts)" unfolding pq_top_def by (intro nth_mem) (simp add: earliest_ne)
  then show ?thesis by (auto simp: earliest_def timer_gt_def not_less)
qed

lemma pq_pop_shorter: "ts \<noteq> [] \<Longrightarrow> length (pq_pop tie ts) < length ts"
  using pq_top_least [of ts tie] by (simp add: pq_pop_def length_remove1)

section \<open>TaskTimerQueue\<close>

abbreviation "ts_put \<equiv> put_v CompareKey (GetHash :: UINT \<Rightarrow> _)"
abbreviation "ts_get \<equiv> get_r CompareKey (GetHash :: UINT \<Rightarrow> _)"
abbreviation "ts_remove \<equiv> remove_k CompareKey (GetHash :: UINT \<Rightarrow> _)"

record ttq =
  mTimers :: "TTimer list"
  mLastKey :: UINT
  mTimerStoped :: "(UINT, bool) htable"
  tq_fifo :: "TMsg fifo"
  tq_deleted :: "addr list"

definition TaskTimerQueue_new :: "TMsg fifo \<Rightarrow> ttq" where
  "TaskTimerQueue_new q = \<lparr>mTimers = [], mLastKey = 0, mTimerStoped = CHashTable_new, tq_fifo = q, tq_deleted = []\<rparr>"

definition tq_add :: "UINT64 \<Rightarrow> UINT \<Rightarrow> UINT \<Rightarrow> UINT \<Rightarrow> UINT \<Rightarrow> addr \<Rightarrow> ttq \<Rightarrow> (UINT \<times> ttq) option" where
  "tq_add now mark delay tid iid para s = do {
     let key = mLastKey s + 1;
     let key = (if key = 0 then 1 else key);
     let timer = TTimer_new now mark key delay tid iid para;
     tab \<leftarrow> ts_put (mTimerStoped s) key True;
     Some (key, s\<lparr>mTimers := timer # mTimers s, mLastKey := key, mTimerStoped := tab\<rparr>) }"

definition tq_stop :: "UINT \<Rightarrow> ttq \<Rightarrow> ttq option" where
  "tq_stop key s = (case ts_get (mTimerStoped s) key of None \<Rightarrow> Some s
     | Some keyState \<Rightarrow> if keyState then do { tab \<leftarrow> ts_put (mTimerStoped s) key False; Some (s\<lparr>mTimerStoped := tab\<rparr>) } else Some s)"

definition tq_remove :: "UINT \<Rightarrow> ttq \<Rightarrow> ttq option" where
  "tq_remove key s = do { (_, tab) \<leftarrow> ts_remove (mTimerStoped s) key; Some (s\<lparr>mTimerStoped := tab\<rparr>) }"

definition timeout_of :: "TTimer \<Rightarrow> TMsg" where
  "timeout_of t = TimeOut (TTimeOutMsg_new (mTimerMark t) (mTimerKey t) (mTimerDelay t) (mTimerTID t) (mTimerIID t) (mPara t))"

definition processTimer :: "TTimer \<Rightarrow> ttq \<Rightarrow> ttq option" where
  "processTimer timer s = (case ts_get (mTimerStoped s) (mTimerKey timer) of
     Some keyState \<Rightarrow> do {
       let s = (if keyState then s\<lparr>tq_fifo := fifo_add (timeout_of timer) (tq_fifo s)\<rparr> else s);
       (_, tab) \<leftarrow> ts_remove (mTimerStoped s) (mTimerKey timer);
       Some (s\<lparr>mTimerStoped := tab\<rparr>) }
   | None \<Rightarrow> Some (if mPara timer \<noteq> NULL then s\<lparr>tq_deleted := mPara timer # tq_deleted s\<rparr> else s))"

section \<open>TimerQueue\<close>

abbreviation (input) "XFRAME_TIMER_STEP_MAX \<equiv> 1000 :: UINT"

definition msTillNextTimer :: "(TTimer list \<Rightarrow> nat) \<Rightarrow> UINT64 \<Rightarrow> ttq \<Rightarrow> UINT" where
  "msTillNextTimer tie now s = (if mTimers s \<noteq> [] then
       (let nxt = mWhen (pq_top tie (mTimers s)) in
        if now > nxt then 0
        else let ret64 = nxt - now in if ret64 > 0x7FFFFFFF then XFRAME_TIMER_STEP_MAX else ucast ret64)
     else XFRAME_TIMER_STEP_MAX)"

function process_loop :: "(TTimer list \<Rightarrow> nat) \<Rightarrow> UINT64 \<Rightarrow> TTimer list \<Rightarrow> ttq \<Rightarrow> (TTimer list \<times> ttq) option" where
  "process_loop tie now ts s = (if ts \<noteq> [] \<and> \<not> (mWhen (pq_top tie ts) > now) then do {
       s \<leftarrow> processTimer (pq_top tie ts) s;
       process_loop tie now (pq_pop tie ts) s }
     else Some (ts, s))"
  by pat_completeness auto
termination
  by (relation "measure (\<lambda>(tie, now, ts, s). length ts)") (auto simp: pq_pop_shorter)

declare process_loop.simps [simp del]

text \<open>\<open>process\<close> reads the clock for the loop and again for its result.\<close>

definition tq_process :: "(TTimer list \<Rightarrow> nat) \<Rightarrow> UINT64 \<Rightarrow> UINT64 \<Rightarrow> ttq \<Rightarrow> (UINT \<times> ttq) option" where
  "tq_process tie now now' s = do {
     s \<leftarrow> (if mTimers s \<noteq> [] then do { (ts, s') \<leftarrow> process_loop tie now (mTimers s) s; Some (s'\<lparr>mTimers := ts\<rparr>) } else Some s);
     Some (msTillNextTimer tie now' s, s) }"

definition tq_size :: "ttq \<Rightarrow> nat" where
  "tq_size s = length (mTimers s)"

definition tq_empty :: "ttq \<Rightarrow> bool" where
  "tq_empty s = (mTimers s = [])"

text \<open>The destructor deletes the parameters of the timers that are left.\<close>

function tq_delete_loop :: "(TTimer list \<Rightarrow> nat) \<Rightarrow> TTimer list \<Rightarrow> addr list \<Rightarrow> addr list" where
  "tq_delete_loop tie ts dead = (if ts = [] then dead
     else tq_delete_loop tie (pq_pop tie ts) (if mPara (pq_top tie ts) \<noteq> NULL then mPara (pq_top tie ts) # dead else dead))"
  by pat_completeness auto
termination
  by (relation "measure (\<lambda>(tie, ts, dead). length ts)") (auto simp: pq_pop_shorter)

declare tq_delete_loop.simps [simp del]

definition TaskTimerQueue_delete :: "(TTimer list \<Rightarrow> nat) \<Rightarrow> ttq \<Rightarrow> addr list" where
  "TaskTimerQueue_delete tie s = tq_delete_loop tie (mTimers s) (tq_deleted s)"

end
