(* ===== verification/TimersSpec.thy ===== *)
theory TimersSpec
  imports Timers
begin

text \<open>
  Timers fire exactly when they are due and have not been stopped, in the order of their times, and
  a stopped timer never fires. The table of timer states is used through the laws of the keyed store.
\<close>

section \<open>One pass of the timer queue\<close>

abbreviation tab_ok :: "(UINT, bool) htable \<Rightarrow> bool" where
  "tab_ok t \<equiv> \<exists>L. ht_rep GetHash t L"

abbreviation tstate :: "ttq \<Rightarrow> UINT \<Rightarrow> bool option" where
  "tstate s \<equiv> ts_get (mTimerStoped s)"

lemma processTimer_ok:
  assumes "tab_ok (mTimerStoped s)"
  shows "\<exists>s'. processTimer t s = Some s' \<and> tab_ok (mTimerStoped s') \<and> tstate s' = (tstate s)(mTimerKey t := None) \<and>
    mLastKey s' = mLastKey s \<and>
    mFifo (tq_fifo s') = mFifo (tq_fifo s) @ (if tstate s (mTimerKey t) = Some True then [timeout_of t] else [])"
proof (cases "tstate s (mTimerKey t)")
  case None
  then have "(tstate s)(mTimerKey t := None) = tstate s" by auto
  then show ?thesis using None assms by (simp add: processTimer_def)
next
  case (Some st)
  obtain tab where "ts_remove (mTimerStoped s) (mTimerKey t) = Some (tstate s (mTimerKey t) \<noteq> None, tab)" "tab_ok tab"
    "ts_get tab = (tstate s)(mTimerKey t := None)" using uint_keys.delE [OF assms] by metis
  then show ?thesis using Some by (cases st) (auto simp: processTimer_def Let_def fifo_add_def push_def)
qed

definition due :: "UINT64 \<Rightarrow> TTimer \<Rightarrow> bool" where
  "due now t = (mWhen t \<le> now)"

lemma mset_pop: "ts \<noteq> [] \<Longrightarrow> mset ts = add_mset (pq_top tie ts) (mset (pq_pop tie ts))"
  using pq_top_least [of ts tie] by (simp add: pq_pop_def)

lemma set_pop: "ts \<noteq> [] \<Longrightarrow> set ts = insert (pq_top tie ts) (set (pq_pop tie ts))"
  using arg_cong [OF mset_pop, of ts set_mset tie] by simp

lemma distinct_pop:
  assumes "ts \<noteq> []" "distinct (map mTimerKey ts)"
  shows "distinct (map mTimerKey (pq_pop tie ts))" "\<forall>u \<in> set (pq_pop tie ts). mTimerKey u \<noteq> mTimerKey (pq_top tie ts)"
proof -
  have "mset (map mTimerKey ts) = mset (mTimerKey (pq_top tie ts) # map mTimerKey (pq_pop tie ts))"
    using arg_cong [OF mset_pop [OF assms(1), of tie], of "image_mset mTimerKey"] by simp
  then have "distinct (mTimerKey (pq_top tie ts) # map mTimerKey (pq_pop tie ts))" using assms(2) by (metis mset_eq_imp_distinct_iff)
  then show "distinct (map mTimerKey (pq_pop tie ts))" "\<forall>u \<in> set (pq_pop tie ts). mTimerKey u \<noteq> mTimerKey (pq_top tie ts)"
    by (auto, metis image_eqI)
qed

text \<open>The result of a pass: what is left, what has fired, the states of the timers that are left.\<close>

definition passed :: "UINT64 \<Rightarrow> TTimer list \<Rightarrow> ttq \<Rightarrow> TTimer list \<Rightarrow> TTimer list \<Rightarrow> ttq \<Rightarrow> bool" where
  "passed now ts s fired ts' s' = (
     mset ts' = filter_mset (\<lambda>t. \<not> due now t) (mset ts) \<and>
     mset fired = filter_mset (\<lambda>t. due now t \<and> tstate s (mTimerKey t) = Some True) (mset ts) \<and>
     sorted (map mWhen fired) \<and>
     mFifo (tq_fifo s') = mFifo (tq_fifo s) @ map timeout_of fired \<and>
     tstate s' = (\<lambda>k. if \<exists>t \<in> set ts. mTimerKey t = k \<and> due now t then None else tstate s k) \<and>
     tab_ok (mTimerStoped s') \<and> mLastKey s' = mLastKey s)"

lemma process_loop_ok:
  "tab_ok (mTimerStoped s) \<Longrightarrow> distinct (map mTimerKey ts) \<Longrightarrow>
   \<exists>ts' s' fired. process_loop tie now ts s = Some (ts', s') \<and> passed now ts s fired ts' s'"
proof (induction tie now ts s rule: process_loop.induct)
  case (1 tie now ts s)
  let ?t = "pq_top tie ts" let ?p = "pq_pop tie ts"
  show ?case
  proof (cases "ts \<noteq> [] \<and> \<not> (mWhen ?t > now)")
    case False
    have "\<not> due now u" if "u \<in> set ts" for u using False that pq_top_least [of ts tie] by (fastforce simp: due_def)
    then have "passed now ts s [] ts s" using 1(2)
      by (auto simp: passed_def fun_eq_iff simp flip: mset_filter intro!: filter_False)
    then show ?thesis using False by (subst process_loop.simps) auto
  next
    case True
    obtain s1 where s1: "processTimer ?t s = Some s1" "tab_ok (mTimerStoped s1)" "tstate s1 = (tstate s)(mTimerKey ?t := None)"
      "mLastKey s1 = mLastKey s"
      "mFifo (tq_fifo s1) = mFifo (tq_fifo s) @ (if tstate s (mTimerKey ?t) = Some True then [timeout_of ?t] else [])"
      using processTimer_ok [OF 1(2)] by blast
    have d: "distinct (map mTimerKey ?p)" "\<forall>u \<in> set ?p. mTimerKey u \<noteq> mTimerKey ?t" using distinct_pop True 1(3) by auto
    obtain ts' s' fired where r: "process_loop tie now ?p s1 = Some (ts', s')" "passed now ?p s1 fired ts' s'"
      using 1(1) [OF True s1(1,2) d(1)] by blast
    have dt: "due now ?t" using True by (simp add: due_def not_less)
    let ?f = "if tstate s (mTimerKey ?t) = Some True then ?t # fired else fired"
    have "set fired = set_mset (filter_mset (\<lambda>t. due now t \<and> tstate s1 (mTimerKey t) = Some True) (mset ?p))"
      using r(2) unfolding passed_def by (metis set_mset_mset)
    then have sf: "set fired \<subseteq> set ?p" by auto
    have m: "filter_mset (\<lambda>t. due now t \<and> tstate s1 (mTimerKey t) = Some True) (mset ?p) =
        filter_mset (\<lambda>t. due now t \<and> tstate s (mTimerKey t) = Some True) (mset ?p)"
      using d(2) by (intro filter_mset_cong) (auto simp: s1(3))
    have "passed now ts s ?f ts' s'" unfolding passed_def
    proof (intro conjI)
      show "mset ts' = filter_mset (\<lambda>t. \<not> due now t) (mset ts)" using r(2) mset_pop [of ts tie] True dt by (simp add: passed_def)
      show "mset ?f = filter_mset (\<lambda>t. due now t \<and> tstate s (mTimerKey t) = Some True) (mset ts)"
        using r(2) m mset_pop [of ts tie] True dt by (simp add: passed_def)
      have "sorted (map mWhen fired)" "\<forall>u \<in> set fired. mWhen ?t \<le> mWhen u"
        using r(2) sf pq_top_least [of ts tie] True set_pop [of ts tie] by (auto simp: passed_def)
      then show "sorted (map mWhen ?f)" by auto
      show "mFifo (tq_fifo s') = mFifo (tq_fifo s) @ map timeout_of ?f" using r(2) s1(5) by (simp add: passed_def)
      show "tstate s' = (\<lambda>k. if \<exists>t \<in> set ts. mTimerKey t = k \<and> due now t then None else tstate s k)"
        using r(2) set_pop [of ts tie] True dt by (auto simp: passed_def s1(3) fun_eq_iff)
      show "tab_ok (mTimerStoped s')" "mLastKey s' = mLastKey s" using r(2) s1(4) by (auto simp: passed_def)
    qed
    then show ?thesis using True s1(1) r(1) by (subst process_loop.simps) auto
  qed
qed

section \<open>Runs\<close>

datatype tqop = TQAdd UINT64 UINT UINT UINT UINT addr | TQStop UINT | TQRemove UINT | TQProcess UINT64 UINT64

fun tq_exec :: "(TTimer list \<Rightarrow> nat) \<Rightarrow> tqop \<Rightarrow> ttq \<Rightarrow> ttq option" where
  "tq_exec tie (TQAdd now mark delay tid iid para) s = map_option snd (tq_add now mark delay tid iid para s)"
| "tq_exec tie (TQStop k) s = tq_stop k s"
| "tq_exec tie (TQRemove k) s = tq_remove k s"
| "tq_exec tie (TQProcess now now') s = map_option snd (tq_process tie now now' s)"

fun tq_run :: "(TTimer list \<Rightarrow> nat) \<Rightarrow> tqop list \<Rightarrow> ttq \<Rightarrow> ttq option" where
  "tq_run tie [] s = Some s"
| "tq_run tie (p # ps) s = do { s \<leftarrow> tq_exec tie p s; tq_run tie ps s }"

text \<open>Timer keys count the calls of \<open>add\<close>.\<close>

fun adds :: "tqop list \<Rightarrow> nat" where
  "adds [] = 0"
| "adds (p # ps) = (case p of TQAdd _ _ _ _ _ _ \<Rightarrow> Suc (adds ps) | _ \<Rightarrow> adds ps)"

definition tq_inv :: "nat \<Rightarrow> ttq \<Rightarrow> bool" where
  "tq_inv n s = (tab_ok (mTimerStoped s) \<and> unat (mLastKey s) = n \<and> distinct (map mTimerKey (mTimers s)) \<and>
     (\<forall>t \<in> set (mTimers s). unat (mTimerKey t) \<le> n) \<and> (\<forall>k. tstate s k \<noteq> None \<longrightarrow> unat k \<le> n))"

lemma tq_new_inv: "tq_inv 0 (TaskTimerQueue_new q)"
  by (auto simp: tq_inv_def TaskTimerQueue_new_def uint_keys.emp_lookup intro: uint_keys.emp_inv)

lemma tq_add_ok:
  assumes "tq_inv n s" "Suc n < 2 ^ 32"
  shows "\<exists>key s'. tq_add now mark delay tid iid para s = Some (key, s') \<and> tq_inv (Suc n) s' \<and> unat key = Suc n \<and>
    tstate s' = (tstate s)(key \<mapsto> True) \<and> mTimers s' = TTimer_new now mark key delay tid iid para # mTimers s \<and> tq_fifo s' = tq_fifo s"
proof -
  let ?key = "mLastKey s + 1"
  have i: "tab_ok (mTimerStoped s)" "unat (mLastKey s) = n" "distinct (map mTimerKey (mTimers s))"
    "\<forall>t \<in> set (mTimers s). unat (mTimerKey t) \<le> n" "\<forall>k. tstate s k \<noteq> None \<longrightarrow> unat k \<le> n" using assms(1) by (auto simp: tq_inv_def)
  have u: "unat ?key = Suc n" using i(2) assms(2) by (simp add: unat_word_ariths)
  then have k: "?key \<noteq> 0" by auto
  obtain tab where tab: "ts_put (mTimerStoped s) ?key True = Some tab" "tab_ok tab" "ts_get tab = (tstate s)(?key \<mapsto> True)"
    using uint_keys.insE [OF i(1)] by metis
  have "?key \<notin> mTimerKey ` set (mTimers s)" using i(4) u by force
  then show ?thesis using tab k u i
    by (simp add: tq_add_def Let_def tq_inv_def TTimer_new_def) (metis le_SucI)
qed

lemma tq_stop_ok:
  assumes "tq_inv n s"
  shows "\<exists>s'. tq_stop k s = Some s' \<and> tq_inv n s' \<and> mTimers s' = mTimers s \<and> tq_fifo s' = tq_fifo s \<and>
    tstate s' = (if tstate s k = Some True then (tstate s)(k \<mapsto> False) else tstate s)"
proof (cases "tstate s k = Some True")
  case True
  have i: "tab_ok (mTimerStoped s)" using assms by (simp add: tq_inv_def)
  obtain tab where tab: "ts_put (mTimerStoped s) k False = Some tab" "tab_ok tab" "ts_get tab = (tstate s)(k \<mapsto> False)"
    using uint_keys.insE [OF i] by metis
  then show ?thesis using True assms by (auto simp: tq_stop_def tq_inv_def)
next
  case False
  then show ?thesis using assms by (auto simp: tq_stop_def split: option.splits)
qed

lemma tq_remove_ok:
  assumes "tq_inv n s"
  shows "\<exists>s'. tq_remove k s = Some s' \<and> tq_inv n s' \<and> mTimers s' = mTimers s \<and> tq_fifo s' = tq_fifo s \<and> tstate s' = (tstate s)(k := None)"
proof -
  have i: "tab_ok (mTimerStoped s)" using assms by (simp add: tq_inv_def)
  obtain tab where "ts_remove (mTimerStoped s) k = Some (tstate s k \<noteq> None, tab)" "tab_ok tab" "ts_get tab = (tstate s)(k := None)"
    using uint_keys.delE [OF i] by metis
  then show ?thesis using assms by (auto simp: tq_remove_def tq_inv_def)
qed

lemma tq_process_ok:
  assumes "tq_inv n s"
  shows "\<exists>s' fired. tq_process tie now now' s = Some (msTillNextTimer tie now' s', s') \<and> tq_inv n s' \<and> passed now (mTimers s) s fired (mTimers s') s'"
proof (cases "mTimers s = []")
  case True
  then have "passed now (mTimers s) s [] (mTimers s) s" using assms by (simp add: passed_def tq_inv_def)
  then show ?thesis using True assms by (auto simp: tq_process_def)
next
  case False
  obtain ts' s' fired where r: "process_loop tie now (mTimers s) s = Some (ts', s')" "passed now (mTimers s) s fired ts' s'"
    using process_loop_ok assms unfolding tq_inv_def by blast
  have m: "mset ts' = mset (filter (\<lambda>t. \<not> due now t) (mTimers s))" using r(2) by (simp add: passed_def)
  then have "mset (map mTimerKey ts') = mset (map mTimerKey (filter (\<lambda>t. \<not> due now t) (mTimers s)))" by (metis mset_map)
  then have "distinct (map mTimerKey ts')" using assms by (metis tq_inv_def distinct_map_filter mset_eq_imp_distinct_iff)
  moreover have "set ts' \<subseteq> set (mTimers s)" using mset_eq_setD [OF m] by auto
  ultimately have "tq_inv n (s'\<lparr>mTimers := ts'\<rparr>)" using r(2) assms by (auto simp: tq_inv_def passed_def split: if_splits)
  moreover have "passed now (mTimers s) s fired ts' (s'\<lparr>mTimers := ts'\<rparr>)" using r(2) by (simp add: passed_def)
  moreover have "tq_process tie now now' s = Some (msTillNextTimer tie now' (s'\<lparr>mTimers := ts'\<rparr>), s'\<lparr>mTimers := ts'\<rparr>)"
    using False r(1) by (simp add: tq_process_def)
  ultimately show ?thesis by (intro exI [of _ "s'\<lparr>mTimers := ts'\<rparr>"] exI [of _ fired]) simp
qed

lemma tq_run_ok:
  "tq_inv n s \<Longrightarrow> n + adds ps < 2 ^ 32 \<Longrightarrow> \<exists>s'. tq_run tie ps s = Some s' \<and> tq_inv (n + adds ps) s'"
proof (induction ps arbitrary: n s)
  case (Cons p ps)
  obtain n1 s1 where 1: "tq_exec tie p s = Some s1" "tq_inv n1 s1" "n1 + adds ps = n + adds (p # ps)"
  proof (cases p)
    case (TQAdd now mark delay tid iid para)
    then obtain s1 where "tq_exec tie p s = Some s1" "tq_inv (Suc n) s1"
      using tq_add_ok [OF Cons.prems(1), of now mark delay tid iid para] Cons.prems(2) by auto
    then show ?thesis using that [of s1 "Suc n"] TQAdd by simp
  next
    case (TQStop k)
    then show ?thesis using that tq_stop_ok [OF Cons.prems(1), of k] by auto
  next
    case (TQRemove k)
    then show ?thesis using that tq_remove_ok [OF Cons.prems(1), of k] by auto
  next
    case (TQProcess now now')
    then show ?thesis using that tq_process_ok [OF Cons.prems(1), of tie now now'] by auto
  qed
  then show ?case using Cons.IH [OF 1(2)] Cons.prems(2) by simp
qed simp

text \<open>Property C7. Timers fire exactly when due. After any sequence of calls of \<open>add\<close>,
  \<open>stop\<close>, \<open>remove\<close> and \<open>process\<close> with fewer than \<open>2 ^ 32\<close> timers, a pass
  of \<open>process\<close> at time \<open>now\<close> returns, sends one timeout message for each timer whose time
  has come and whose state is still active and for no other, in the order of their times, keeps
  exactly the timers whose time has not come, and forgets the states of the others. The choice that
  the priority queue makes among timers of equal time does not matter.\<close>

theorem timers_fire_when_due:
  assumes "adds ps < 2 ^ 32"
  shows "\<exists>s s' ms fired. tq_run tie ps (TaskTimerQueue_new q) = Some s \<and> tq_process tie now now' s = Some (ms, s') \<and>
    mset (mTimers s') = filter_mset (\<lambda>t. \<not> mWhen t \<le> now) (mset (mTimers s)) \<and>
    mset fired = filter_mset (\<lambda>t. mWhen t \<le> now \<and> tstate s (mTimerKey t) = Some True) (mset (mTimers s)) \<and>
    sorted (map mWhen fired) \<and> mFifo (tq_fifo s') = mFifo (tq_fifo s) @ map timeout_of fired \<and>
    tstate s' = (\<lambda>k. if \<exists>t \<in> set (mTimers s). mTimerKey t = k \<and> mWhen t \<le> now then None else tstate s k)"
proof -
  obtain s where s: "tq_run tie ps (TaskTimerQueue_new q) = Some s" "tq_inv (adds ps) s"
    using tq_run_ok [OF tq_new_inv, of ps tie q] assms by auto
  obtain s' fired where "tq_process tie now now' s = Some (msTillNextTimer tie now' s', s')" "passed now (mTimers s) s fired (mTimers s') s'"
    using tq_process_ok [OF s(2), of tie now now'] by blast
  then show ?thesis using s(1) unfolding passed_def due_def by blast
qed

theorem timers_fire_when_due_witness:
  "\<exists>s s' ms fired. tq_run (\<lambda>_. 0) [TQAdd 100 1 50 7 8 0, TQAdd 100 2 20 7 8 0, TQStop 2] (TaskTimerQueue_new Fifo_new) = Some s \<and>
    tq_process (\<lambda>_. 0) 150 151 s = Some (ms, s') \<and>
    mset (mTimers s') = filter_mset (\<lambda>t. \<not> mWhen t \<le> 150) (mset (mTimers s)) \<and>
    mset fired = filter_mset (\<lambda>t. mWhen t \<le> 150 \<and> tstate s (mTimerKey t) = Some True) (mset (mTimers s)) \<and>
    sorted (map mWhen fired) \<and> mFifo (tq_fifo s') = mFifo (tq_fifo s) @ map timeout_of fired \<and>
    tstate s' = (\<lambda>k. if \<exists>t \<in> set (mTimers s). mTimerKey t = k \<and> mWhen t \<le> 150 then None else tstate s k)"
  by (rule timers_fire_when_due) simp

text \<open>A timer whose key is no longer active stays silent.\<close>

definition timeouts_of :: "UINT \<Rightarrow> TMsg list \<Rightarrow> TMsg list" where
  "timeouts_of k ms = filter (\<lambda>m. case m of TimeOut t \<Rightarrow> timerKey t = k | _ \<Rightarrow> False) ms"

definition silent :: "UINT \<Rightarrow> nat \<Rightarrow> ttq \<Rightarrow> bool" where
  "silent k n s = (tq_inv n s \<and> unat k \<le> n \<and> tstate s k \<noteq> Some True)"

lemma timeouts_of_fired: "\<forall>t \<in> set ts. mTimerKey t \<noteq> k \<Longrightarrow> timeouts_of k (map timeout_of ts) = []"
  by (induction ts) (auto simp: timeouts_of_def timeout_of_def TTimeOutMsg_new_def)

lemma silent_exec:
  assumes "silent k n s" "Suc n < 2 ^ 32 \<or> (\<forall>a b c d e f. p \<noteq> TQAdd a b c d e f)"
  shows "\<exists>s' m. tq_exec tie p s = Some s' \<and> m = n + adds [p] \<and> silent k m s' \<and>
    timeouts_of k (mFifo (tq_fifo s')) = timeouts_of k (mFifo (tq_fifo s))"
proof -
  have i: "tq_inv n s" "unat k \<le> n" "tstate s k \<noteq> Some True" using assms(1) by (auto simp: silent_def)
  show ?thesis
  proof (cases p)
    case (TQAdd now mark delay tid iid para)
    then obtain key s' where a: "tq_add now mark delay tid iid para s = Some (key, s')" "tq_inv (Suc n) s'" "unat key = Suc n"
      "tstate s' = (tstate s)(key \<mapsto> True)" "tq_fifo s' = tq_fifo s" using tq_add_ok [OF i(1)] assms(2) by metis
    then have "key \<noteq> k" using i(2) by auto
    then show ?thesis using a TQAdd i by (simp add: silent_def)
  next
    case (TQStop j)
    then show ?thesis using tq_stop_ok [OF i(1), of j] i by (auto simp: silent_def split: if_splits)
  next
    case (TQRemove j)
    then show ?thesis using tq_remove_ok [OF i(1), of j] i by (auto simp: silent_def)
  next
    case (TQProcess now now')
    obtain s' fired where f: "tq_process tie now now' s = Some (msTillNextTimer tie now' s', s')" "tq_inv n s'"
      "passed now (mTimers s) s fired (mTimers s') s'" using tq_process_ok [OF i(1), of tie now now'] by blast
    have "set fired = set_mset (filter_mset (\<lambda>t. due now t \<and> tstate s (mTimerKey t) = Some True) (mset (mTimers s)))"
      using f(3) unfolding passed_def by (metis set_mset_mset)
    then have "timeouts_of k (map timeout_of fired) = []" using i(3) by (intro timeouts_of_fired) auto
    then have "timeouts_of k (mFifo (tq_fifo s')) = timeouts_of k (mFifo (tq_fifo s))" using f(3) by (simp add: passed_def timeouts_of_def)
    then show ?thesis using f i TQProcess by (auto simp: silent_def passed_def)
  qed
qed

lemma silent_run:
  "silent k n s \<Longrightarrow> n + adds ps < 2 ^ 32 \<Longrightarrow>
   \<exists>s'. tq_run tie ps s = Some s' \<and> timeouts_of k (mFifo (tq_fifo s')) = timeouts_of k (mFifo (tq_fifo s))"
proof (induction ps arbitrary: n s)
  case (Cons p ps)
  have "Suc n < 2 ^ 32 \<or> (\<forall>a b c d e f. p \<noteq> TQAdd a b c d e f)" using Cons.prems(2) by (cases p) auto
  from silent_exec [OF Cons.prems(1) this, of tie] obtain s1 where s1: "tq_exec tie p s = Some s1" "silent k (n + adds [p]) s1"
    "timeouts_of k (mFifo (tq_fifo s1)) = timeouts_of k (mFifo (tq_fifo s))" by blast
  have "adds (p # ps) = adds [p] + adds ps" by (cases p) auto
  then show ?case using Cons.IH [OF s1(2)] s1 Cons.prems(2) by auto
qed simp

text \<open>Property C21. A stopped timer never fires. Once \<open>stop\<close> has been called with a key that
  was handed out, no later sequence of calls (with fewer than \<open>2 ^ 32\<close> timers in all) puts a
  timeout message with that key into the queue; the same holds after \<open>remove\<close>.\<close>

theorem stopped_timer_silent:
  assumes "adds ps + adds qs < 2 ^ 32" "unat k \<le> adds ps" "p \<in> {TQStop k, TQRemove k}"
  shows "\<exists>s s1 s2. tq_run tie ps (TaskTimerQueue_new q) = Some s \<and> tq_exec tie p s = Some s1 \<and> tq_run tie qs s1 = Some s2 \<and>
    timeouts_of k (mFifo (tq_fifo s2)) = timeouts_of k (mFifo (tq_fifo s))"
proof -
  obtain s where s: "tq_run tie ps (TaskTimerQueue_new q) = Some s" "tq_inv (adds ps) s"
    using tq_run_ok [OF tq_new_inv, of ps tie q] assms by auto
  obtain s1 where s1: "tq_exec tie p s = Some s1" "silent k (adds ps) s1" "tq_fifo s1 = tq_fifo s"
    using tq_stop_ok [OF s(2), of k] tq_remove_ok [OF s(2), of k] assms(2,3) by (auto simp: silent_def)
  then show ?thesis using s(1) silent_run [OF s1(2) assms(1), of tie] by auto
qed

theorem stopped_timer_silent_witness:
  "\<exists>s s1 s2. tq_run (\<lambda>_. 0) [TQAdd 100 1 50 7 8 0] (TaskTimerQueue_new Fifo_new) = Some s \<and> tq_exec (\<lambda>_. 0) (TQStop 1) s = Some s1 \<and>
    tq_run (\<lambda>_. 0) [TQProcess 200 200] s1 = Some s2 \<and> timeouts_of 1 (mFifo (tq_fifo s2)) = timeouts_of 1 (mFifo (tq_fifo s))"
  by (rule stopped_timer_silent) simp_all

end
