(* ===== verification/Transaction.thy ===== *)
theory Transaction
  imports MessagesSpec ExpireBufferSpec FifoSpec
begin

text \<open>
  The transaction layer: \<open>TTransState\<close> and \<open>TTransMachine\<close>
  (\<open>transport/transstate.*\<close>), \<open>TTransMsg\<close> and \<open>TTransport\<close>
  (\<open>transport/transport.*\<close>).

  A transaction is client (\<open>tssend\<close>) or server side. The virtual functions
  \<open>setResendTimer\<close> and \<open>delResendTimer\<close> belong to the derived class: the key a call of
  the first returns is an input of the step (\<open>nk\<close>), and the calls are logged as
  \<open>tact\<close>. An output parameter that is not assigned is \<open>None\<close>. A state object is an entry of
  \<open>tm_states\<close> from \<open>new\<close> to \<open>delete\<close>; the machine finds it through the
  \<open>CExpireBuffer\<close> keyed by the transaction identifier.
\<close>

unbundle bit_operations_syntax

section \<open>TTransState\<close>

datatype TS_TRANSSTATE = TS_INIT | TS_FORWARD | TS_TEMPORARY | TS_TERMINATED

datatype TS_CODE = TSC_NULL | TSC_FORWARD | TSC_REFUSE | TSC_TIMEOUT | TSC_RESEND

datatype tact = SetResend "CHAR8 list" UINT | DelResend UINT

record TTransState =
  tssend :: bool
  ts_msg :: "TUniNetMsg option"
  tsstate :: TS_TRANSSTATE
  tschange_from :: TS_TRANSSTATE
  tschange :: bool
  ts_timer :: UINT
  ts_cseq :: UINT
  ts_transID :: "CHAR8 list"
  needrsp :: bool
  ts_log :: "tact list"

text \<open>\<open>needrsp\<close> is not set by the constructor; every path sets it before it is read.\<close>

definition TTransState_new :: "bool \<Rightarrow> CHAR8 list \<Rightarrow> TTransState" where
  "TTransState_new type transid = \<lparr>tssend = type, ts_msg = None, tsstate = TS_INIT, tschange_from = TS_INIT, tschange = False,
     ts_timer = 0, ts_cseq = 0, ts_transID = transid, needrsp = False, ts_log = []\<rparr>"

definition setResend :: "UINT \<Rightarrow> TTransState \<Rightarrow> TTransState" where
  "setResend nk s = s\<lparr>ts_timer := nk, ts_log := ts_log s @ [SetResend (ts_transID s) nk]\<rparr>"

definition delResend :: "TTransState \<Rightarrow> TTransState" where
  "delResend s = s\<lparr>ts_timer := 0, ts_log := ts_log s @ [DelResend (ts_timer s)]\<rparr>"

definition move_to :: "TS_TRANSSTATE \<Rightarrow> TTransState \<Rightarrow> TTransState" where
  "move_to st s = s\<lparr>tschange := True, tschange_from := tsstate s, tsstate := st\<rparr>"

text \<open>Timer and stored message are dropped together.\<close>

definition drop_pending :: "TTransState \<Rightarrow> TTransState" where
  "drop_pending s = (let s = (if ts_timer s \<noteq> 0 then delResend s else s) in s\<lparr>ts_msg := None\<rparr>)"

type_synonym ts_result = "TS_CODE \<times> TUniNetMsg option \<times> TTransState"

definition TSClient_CHANGE :: "UINT \<Rightarrow> TUniNetMsg \<Rightarrow> TTransState \<Rightarrow> ts_result option" where
  "TSClient_CHANGE nk unimsg s = (let s = s\<lparr>tschange := False\<rparr> in case tsstate s of
     TS_INIT \<Rightarrow>
       if msgName unimsg = COM_MESSAGE_REQ then do {
         m \<leftarrow> uninet_copy unimsg;
         let s = setResend nk (s\<lparr>ts_msg := Some m\<rparr>);
         let s = move_to TS_FORWARD (s\<lparr>needrsp := getComMsgPri unimsg \<noteq> 0\<rparr>);
         let s = (if hasCSeq unimsg then s\<lparr>ts_cseq := getCSeq unimsg\<rparr> else s);
         Some (TSC_FORWARD, None, s) }
       else Some (TSC_NULL, None, s)
   | TS_FORWARD \<Rightarrow>
       if msgName unimsg = COM_MESSAGE_RSP then Some (TSC_FORWARD, None, move_to TS_TERMINATED (drop_pending s))
       else if msgName unimsg = COM_MESSAGE_TMP then
         Some (TSC_NULL, None, move_to (if needrsp s then TS_TEMPORARY else TS_TERMINATED) (drop_pending s))
       else Some (TSC_NULL, None, s)
   | TS_TEMPORARY \<Rightarrow>
       if msgName unimsg = COM_MESSAGE_RSP then do {
         r \<leftarrow> genComMsgResp unimsg 100;
         Some (TSC_FORWARD, Some r, move_to TS_TERMINATED s) }
       else Some (TSC_NULL, None, s)
   | TS_TERMINATED \<Rightarrow>
       if msgName unimsg = COM_MESSAGE_RSP then do { r \<leftarrow> genComMsgResp unimsg 100; Some (TSC_REFUSE, Some r, s) }
       else Some (TSC_NULL, None, s))"

definition TSServer_CHANGE :: "UINT \<Rightarrow> TUniNetMsg \<Rightarrow> TTransState \<Rightarrow> ts_result option" where
  "TSServer_CHANGE nk unimsg s = (let s = s\<lparr>tschange := False\<rparr> in case tsstate s of
     TS_INIT \<Rightarrow>
       if msgName unimsg = COM_MESSAGE_REQ then do {
         let s = s\<lparr>needrsp := getComMsgPri unimsg \<noteq> 0\<rparr>;
         let s = (if hasCSeq unimsg then s\<lparr>ts_cseq := getCSeq unimsg\<rparr> else s);
         if needrsp s then Some (TSC_FORWARD, None, move_to TS_FORWARD s)
         else do { r \<leftarrow> genComMsgResp unimsg 100; Some (TSC_FORWARD, Some r, move_to TS_TERMINATED s) } }
       else Some (TSC_NULL, None, s)
   | TS_FORWARD \<Rightarrow>
       if msgName unimsg = COM_MESSAGE_REQ then do {
         r \<leftarrow> genComMsgResp unimsg 100;
         Some (TSC_REFUSE, Some r, move_to TS_TEMPORARY s) }
       else if msgName unimsg = COM_MESSAGE_RSP then do {
         m \<leftarrow> uninet_copy unimsg;
         Some (TSC_FORWARD, None, move_to TS_TERMINATED (s\<lparr>ts_msg := Some m\<rparr>)) }
       else Some (TSC_NULL, None, s)
   | TS_TEMPORARY \<Rightarrow>
       if msgName unimsg = COM_MESSAGE_RSP then do {
         m \<leftarrow> uninet_copy unimsg;
         Some (TSC_FORWARD, None, move_to TS_TERMINATED (setResend nk (s\<lparr>ts_msg := Some m\<rparr>))) }
       else if msgName unimsg = COM_MESSAGE_REQ then do { r \<leftarrow> genComMsgResp unimsg 100; Some (TSC_REFUSE, Some r, s) }
       else Some (TSC_NULL, None, s)
   | TS_TERMINATED \<Rightarrow>
       if msgName unimsg = COM_MESSAGE_REQ then
         (case ts_msg s of
            Some m \<Rightarrow> do { r \<leftarrow> uninet_copy m; Some (TSC_REFUSE, Some r, s) }
          | None \<Rightarrow> if \<not> needrsp s then do { r \<leftarrow> genComMsgResp unimsg 100; Some (TSC_REFUSE, Some r, s) }
                    else Some (TSC_NULL, None, s))
       else if msgName unimsg = COM_MESSAGE_TMP then
         Some (TSC_NULL, None, (if ts_timer s \<noteq> 0 then delResend s else s)\<lparr>ts_timer := 0\<rparr>)
       else Some (TSC_NULL, None, s))"

definition TS_CHANGE :: "UINT \<Rightarrow> TUniNetMsg \<Rightarrow> TTransState \<Rightarrow> ts_result option" where
  "TS_CHANGE nk unimsg s = (if tssend s then TSClient_CHANGE nk unimsg s else TSServer_CHANGE nk unimsg s)"

text \<open>A resend timer has fired.\<close>

definition resend_copy :: "UINT \<Rightarrow> TTransState \<Rightarrow> ts_result option" where
  "resend_copy nk s = do {
     r \<leftarrow> (case ts_msg s of None \<Rightarrow> Some None | Some m \<Rightarrow> map_option Some (uninet_copy m));
     Some (TSC_RESEND, r, setResend nk s) }"

definition TS_CHANGE_timer :: "UINT \<Rightarrow> UINT \<Rightarrow> TTransState \<Rightarrow> ts_result option" where
  "TS_CHANGE_timer nk key s = (if key > 0 \<and> ts_timer s = key then
       (case tsstate s of
          TS_FORWARD \<Rightarrow> if tssend s then resend_copy nk s else Some (TSC_NULL, None, s)
        | TS_TERMINATED \<Rightarrow> if \<not> tssend s then resend_copy nk s else Some (TSC_NULL, None, s)
        | TS_INIT \<Rightarrow> Some (TSC_NULL, None, s)
        | TS_TEMPORARY \<Rightarrow> Some (TSC_NULL, None, s))
     else Some (TSC_NULL, None, s))"

text \<open>The destructor's calls.\<close>

definition TTransState_delete :: "TTransState \<Rightarrow> tact list" where
  "TTransState_delete s = ts_log s @ (if ts_timer s \<noteq> 0 then [DelResend (ts_timer s)] else [])"

section \<open>TTransMachine\<close>

text \<open>\<open>mTSState\<close> is a \<open>std::map\<close> with \<open>CStr\<close> keys, which \<open>operator<\<close> compares with \<open>strcmp\<close>: two
  identifiers name the same transaction when they agree up to the first zero, and the key is that part
  (\<open>cstr\<close>). \<open>tm_freed\<close> lists the timer parameters the machine has released.\<close>

record TTransMachine =
  mTSState :: "(CHAR8 list, addr) ebuf"
  tm_states :: "addr \<rightharpoonup> TTransState"
  tm_brk :: addr
  tm_dead :: "tact list list"
  tm_freed :: "CHAR8 list list"

definition TTransMachine_new :: "TTransMachine option" where
  "TTransMachine_new = do {
     b \<leftarrow> eb_new 0 False 172800;
     Some \<lparr>mTSState = b, tm_states = Map.empty, tm_brk = 1, tm_dead = [], tm_freed = []\<rparr> }"

definition tminit :: "int \<Rightarrow> TTransMachine \<Rightarrow> TTransMachine" where
  "tminit sendTimeOutSec t = (if sendTimeOutSec \<noteq> 0 then t\<lparr>mTSState := eb_setLivingTime (mTSState t) sendTimeOutSec\<rparr> else t)"

definition delete_state :: "addr \<Rightarrow> TTransMachine \<Rightarrow> TTransMachine option" where
  "delete_state p t = do {
     s \<leftarrow> tm_states t p;
     Some (t\<lparr>tm_states := (tm_states t)(p := None), tm_dead := tm_dead t @ [TTransState_delete s]\<rparr>) }"

type_synonym tm_result = "TS_CODE \<times> TUniNetMsg option \<times> TTransMachine"

definition change_at :: "addr \<Rightarrow> (TTransState \<Rightarrow> ts_result option) \<Rightarrow> TTransMachine \<Rightarrow> tm_result option" where
  "change_at p f t = do {
     s \<leftarrow> tm_states t p;
     (code, resp, s) \<leftarrow> f s;
     Some (code, resp, t\<lparr>tm_states := (tm_states t)(p \<mapsto> s)\<rparr>) }"

definition processTM_msg :: "int \<Rightarrow> UINT \<Rightarrow> bool \<Rightarrow> TUniNetMsg option \<Rightarrow> TTransMachine \<Rightarrow> tm_result option" where
  "processTM_msg now nk fromwire msg t = (case msg of None \<Rightarrow> Some (TSC_NULL, None, t) | Some msg \<Rightarrow>
     if hasTransId msg then do {
       let transid = transID msg;
       (found, b) \<leftarrow> eb_find (mTSState t) (cstr transid);
       let t = t\<lparr>mTSState := b\<rparr>;
       (st, t) \<leftarrow> (case found of Some p \<Rightarrow> Some (p, t)
         | None \<Rightarrow> if msgName msg = COM_MESSAGE_REQ then do {
             let p = tm_brk t;
             (_, b) \<leftarrow> eb_push (mTSState t) (cstr transid) p now;
             Some (p, t\<lparr>mTSState := b, tm_states := (tm_states t)(p \<mapsto> TTransState_new (\<not> fromwire) transid), tm_brk := Suc p\<rparr>) }
           else Some (NULL, t));
       if st \<noteq> NULL then change_at st (TS_CHANGE nk msg) t else Some (TSC_NULL, None, t) }
     else Some (TSC_NULL, None, t))"

text \<open>\<open>transid.size()\<close> counts the length field and is never 0. The parameter is the string
  \<open>setResendTimer\<close> was given; \<open>CStr::str()\<close> makes it \<open>NULL\<close> (\<open>None\<close>) for an empty identifier, and
  \<open>nTransfer\<close> then calls \<open>strlen(NULL)\<close>. \<open>nTransfer\<close> takes over a parameter whose C string is not
  empty, and the destructor of the local \<open>transid\<close> releases it at every return.\<close>

definition processTM_timer :: "UINT \<Rightarrow> UINT \<Rightarrow> CHAR8 list option \<Rightarrow> TTransMachine \<Rightarrow> tm_result option" where
  "processTM_timer nk tk para t = do {
     p \<leftarrow> para;
     let transid = cstr p;
     (code, resend, t) \<leftarrow> (if tk > 0 \<and> size_c (strobj transid) \<noteq> 0 then do {
         (found, b) \<leftarrow> eb_find (mTSState t) transid;
         let t = t\<lparr>mTSState := b\<rparr>;
         (case found of Some p \<Rightarrow> if p \<noteq> NULL then change_at p (TS_CHANGE_timer nk tk) t else Some (TSC_NULL, None, t)
          | None \<Rightarrow> Some (TSC_NULL, None, t)) }
       else Some (TSC_NULL, None, t));
     Some (code, resend, if transid \<noteq> [] then t\<lparr>tm_freed := tm_freed t @ [p]\<rparr> else t) }"

text \<open>The message of an expired timer: the task's \<open>onTimer\<close> gives the parameter to the machine, and the
  container deletes the message afterwards, whose destructor releases a parameter that is not \<open>NULL\<close>.
  Releasing it a second time is undefined.\<close>

definition timer_message :: "UINT \<Rightarrow> UINT \<Rightarrow> CHAR8 list option \<Rightarrow> TTransMachine \<Rightarrow> tm_result option" where
  "timer_message nk tk para t = do {
     (code, resend, t') \<leftarrow> processTM_timer nk tk para t;
     if para \<noteq> None \<and> tm_freed t' \<noteq> tm_freed t then None else Some (code, resend, t') }"

text \<open>Transactions that have lived too long: the first client transaction that still holds its request
  is answered 408, the others are deleted. The clock is read once per iteration.\<close>

partial_function (option) processTM_old :: "int \<Rightarrow> (nat \<Rightarrow> int) \<Rightarrow> nat \<Rightarrow> TTransMachine \<Rightarrow> tm_result option" where
  "processTM_old currenttime clk i t = do {
     ((r, kv), b) \<leftarrow> eb_pop_front_old_kv (mTSState t) currenttime (clk i);
     let t = t\<lparr>mTSState := b\<rparr>;
     if r then do {
       p \<leftarrow> map_option snd kv;
       s \<leftarrow> tm_states t p;
       if tsstate s \<noteq> TS_INIT \<and> tsstate s \<noteq> TS_TERMINATED \<and> tssend s \<and> ts_msg s \<noteq> None then do {
         m \<leftarrow> ts_msg s;
         resp \<leftarrow> genComMsgResp m 408;
         t \<leftarrow> delete_state p t;
         Some (TSC_TIMEOUT, Some resp, t) }
       else do { t \<leftarrow> delete_state p t; processTM_old currenttime clk (Suc i) t } }
     else Some (TSC_NULL, None, t) }"

text \<open>The destructor clears the buffer, whose own destructor follows; the state objects the buffer points
  to are not deleted.\<close>

definition TTransMachine_delete :: "TTransMachine \<Rightarrow> TTransMachine option" where
  "TTransMachine_delete t = do {
     b \<leftarrow> eb_clear (mTSState t);
     b \<leftarrow> eb_delete b;
     Some (t\<lparr>mTSState := b\<rparr>) }"

section \<open>TTransMsg\<close>

record TTransMsg =
  tsplit :: "CHAR8 list"
  tr_transid :: "CHAR8 list"
  tr_cseq :: "32 word"
  tr_length :: "32 word"

definition TTransMsg_new :: TTransMsg where
  "TTransMsg_new = \<lparr>tsplit = [0, 0xFF, 0], tr_transid = [], tr_cseq = 0, tr_length = 0\<rparr>"

definition transmsg_encode :: "TTransMsg \<Rightarrow> CHAR8 list" where
  "transmsg_encode m = tsplit m @ enc_int (tr_cseq m) @ estr (tr_transid m) @ enc_int (tr_length m)"

definition transmsg_decode :: "CHAR8 list \<Rightarrow> (TTransMsg \<times> CHAR8 list) option" where
  "transmsg_decode b = (if length b < 3 then None else do {
     let s = take 3 b;
     (c, b) \<leftarrow> dec_int (drop 3 b);
     (t, b) \<leftarrow> dec_str b;
     (l, b) \<leftarrow> dec_int b;
     Some (\<lparr>tsplit = s, tr_transid = t, tr_cseq = c, tr_length = l\<rparr>, b) })"

definition transmsg_size :: "TTransMsg \<Rightarrow> nat" where
  "transmsg_size m = 3 + 4 + size_c (strobj (tr_transid m)) + 4"

text \<open>\<open>CHAR\<close> is signed: the operand of the exclusive-or is the sign-extended byte.\<close>

definition transmsg_check :: "TTransMsg \<Rightarrow> bool" where
  "transmsg_check m = (tsplit m ! 0 = 0 \<and> (0xFF :: 32 word) XOR scast (tsplit m ! 1) \<noteq> 0 \<and> tsplit m ! 2 = 0 \<and> sint (tr_length m) > 0)"

section \<open>TTransport\<close>

text \<open>The parent task receives what \<open>postMsg\<close> and \<open>postEvent\<close> send; \<open>onRecvSendMsg\<close> of
  the derived class receives the messages taken from the queue.\<close>

record TTransport =
  tp_fifo :: "TMsg fifo"
  tp_shutdown :: bool
  shutdownmsg :: "TEventMsg option"
  mParentAddr :: TMsgAddress
  tv_sec :: nat
  tv_usec :: nat
  tp_posted :: "TMsg list"
  tp_sent :: "TUniNetMsg list"

definition TTransport_new :: "TMsgAddress \<Rightarrow> TTransport" where
  "TTransport_new a = \<lparr>tp_fifo = Fifo_new, tp_shutdown = False, shutdownmsg = None, mParentAddr = a, tv_sec = 0, tv_usec = 5000,
     tp_posted = [], tp_sent = []\<rparr>"

definition setMilliSeconds :: "nat \<Rightarrow> TTransport \<Rightarrow> TTransport" where
  "setMilliSeconds ms t = t\<lparr>tv_sec := ms div 1000, tv_usec := (ms mod 1000) * 1000\<rparr>"

definition postMsg :: "TUniNetMsg \<Rightarrow> TTransport \<Rightarrow> TTransport" where
  "postMsg m t = t\<lparr>tp_posted := tp_posted t @ [UniNet (m\<lparr>sender := \<lparr>taskType = 0, taskID = 0, instID = 0\<rparr>,
     oAddr := \<lparr>logAddr = 0, phyAddr = 0, taskInstID = 0\<rparr>, tAddr := mParentAddr t\<rparr>)]\<rparr>"

definition postEvent :: "TEventMsg \<Rightarrow> TTransport \<Rightarrow> TTransport" where
  "postEvent m t = t\<lparr>tp_posted := tp_posted t @ [Event (m\<lparr>ev_sender := \<lparr>taskType = 0, taskID = 0, instID = 0\<rparr>\<rparr>)]\<rparr>"

abbreviation (input) "KERNAL_APP_RELOAD \<equiv> 15 :: UINT"
abbreviation (input) "KERNAL_APP_SHUTDOWN \<equiv> 16 :: UINT"

definition transport_handle :: "TMsg \<Rightarrow> TTransport \<Rightarrow> TTransport" where
  "transport_handle msg t = (case msg of
     UniNet m \<Rightarrow> t\<lparr>tp_sent := tp_sent t @ [m]\<rparr>
   | Event e \<Rightarrow>
       if eventID e = KERNAL_APP_RELOAD then postEvent (e\<lparr>eventInfo := lit ''transport reload''\<rparr>) t
       else if eventID e = KERNAL_APP_SHUTDOWN then
         t\<lparr>tp_shutdown := True, shutdownmsg := Some (e\<lparr>eventInfo := lit ''transport shutdown''\<rparr>)\<rparr>
       else t
   | _ \<Rightarrow> t)"

text \<open>\<open>getNext(0)\<close> waits when the queue is empty; the test before it excludes that for a single
  reader. A failed assertion, or a wait, is \<open>None\<close>.\<close>

fun process_fifo :: "nat \<Rightarrow> TTransport \<Rightarrow> TTransport option" where
  "process_fifo 0 t = Some t"
| "process_fifo (Suc n) t = do {
     avail \<leftarrow> messageAvailable (tp_fifo t);
     if avail then (case getNext_try (tp_fifo t) of
         (Got m, q) \<Rightarrow> process_fifo n (transport_handle m (t\<lparr>tp_fifo := q\<rparr>))
       | _ \<Rightarrow> None)
     else Some t }"

definition transport_process :: "TTransport \<Rightarrow> (bool \<times> TTransport) option" where
  "transport_process t = (if tp_shutdown t then do { m \<leftarrow> shutdownmsg t; Some (False, postEvent m t) }
     else do { t \<leftarrow> process_fifo 20 t; Some (True, t) })"

end
