(* ===== verification/TransactionSpec.thy ===== *)
theory TransactionSpec
  imports Transaction Interfaces
begin

text \<open>
  Properties of the transaction layer: what one transaction forwards and answers, that the machine
  keeps its transactions apart, what expiry does, and the transport loop. The buffer of transactions
  is used through the interface \<open>expiring_store\<close>.
\<close>

unbundle bit_operations_syntax

section \<open>One transaction\<close>

text \<open>The timers that are set and neither deleted nor fired.\<close>

fun pend :: "tact list \<Rightarrow> UINT set \<Rightarrow> UINT set" where
  "pend [] P = P"
| "pend (SetResend t k # as) P = pend as (insert k P)"
| "pend (DelResend k # as) P = pend as (P - {k})"

lemma pend_append [simp]: "pend (as @ bs) P = pend bs (pend as P)"
  by (induction as P rule: pend.induct) auto

definition new_acts :: "TTransState \<Rightarrow> TTransState \<Rightarrow> tact list" where
  "new_acts s s' = drop (length (ts_log s)) (ts_log s')"

text \<open>The reachable states of a transaction, with the names of the messages it has forwarded and its
  pending timers. A timer key is never 0.\<close>

inductive ts_reach :: "bool \<Rightarrow> CHAR8 list \<Rightarrow> UINT list \<Rightarrow> UINT set \<Rightarrow> TTransState \<Rightarrow> bool" where
  start: "ts_reach c tid [] {} (TTransState_new c tid)"
| recv: "ts_reach c tid fw P s \<Longrightarrow> nk \<noteq> 0 \<Longrightarrow> TS_CHANGE nk m s = Some (code, resp, s') \<Longrightarrow>
    ts_reach c tid (if code = TSC_FORWARD then fw @ [msgName m] else fw) (pend (new_acts s s') P) s'"
| fired: "ts_reach c tid fw P s \<Longrightarrow> nk \<noteq> 0 \<Longrightarrow> TS_CHANGE_timer nk key s = Some (code, resp, s') \<Longrightarrow>
    ts_reach c tid fw (pend (new_acts s s') (P - {key})) s'"

definition ts_inv :: "bool \<Rightarrow> UINT list \<Rightarrow> UINT set \<Rightarrow> TTransState \<Rightarrow> bool" where
  "ts_inv c fw P s = (tssend s = c \<and> P = (if ts_timer s = 0 then {} else {ts_timer s}) \<and>
     (case tsstate s of
        TS_INIT \<Rightarrow> fw = [] \<and> ts_timer s = 0 \<and> ts_msg s = None
      | TS_FORWARD \<Rightarrow> fw = [COM_MESSAGE_REQ] \<and> (if c then ts_timer s \<noteq> 0 \<and> ts_msg s \<noteq> None else ts_timer s = 0 \<and> ts_msg s = None \<and> needrsp s)
      | TS_TEMPORARY \<Rightarrow> fw = [COM_MESSAGE_REQ] \<and> ts_timer s = 0 \<and> ts_msg s = None \<and> needrsp s
      | TS_TERMINATED \<Rightarrow> (if c then ts_timer s = 0 \<and> ts_msg s = None \<and> fw \<in> {[COM_MESSAGE_REQ], [COM_MESSAGE_REQ, COM_MESSAGE_RSP]}
          else if ts_msg s = None then fw = [COM_MESSAGE_REQ] \<and> \<not> needrsp s \<and> ts_timer s = 0
          else fw = [COM_MESSAGE_REQ, COM_MESSAGE_RSP])))"

lemmas ts_step_defs = setResend_def delResend_def move_to_def drop_pending_def new_acts_def Let_def

lemma client_change_inv:
  assumes "ts_inv True fw P s" "nk \<noteq> 0" "TSClient_CHANGE nk m s = Some (code, resp, s')"
  shows "ts_inv True (if code = TSC_FORWARD then fw @ [msgName m] else fw) (pend (new_acts s s') P) s'"
proof (cases "tsstate s")
  case TS_INIT
  show ?thesis
  proof (cases "msgName m = COM_MESSAGE_REQ \<and> uninet_copy m \<noteq> None")
    case True
    then show ?thesis using assms TS_INIT by (clarsimp simp: TSClient_CHANGE_def Let_def) (simp add: ts_inv_def ts_step_defs)
  next
    case False
    then show ?thesis using assms TS_INIT by (clarsimp simp: TSClient_CHANGE_def Let_def split: if_splits) (simp add: ts_inv_def ts_step_defs)
  qed
next
  case TS_FORWARD
  then show ?thesis using assms by (auto simp: TSClient_CHANGE_def ts_inv_def ts_step_defs split: if_splits)
next
  case TS_TEMPORARY
  then show ?thesis using assms by (auto simp: TSClient_CHANGE_def ts_inv_def ts_step_defs bind_Some_iff split: if_splits)
next
  case TS_TERMINATED
  then show ?thesis using assms by (auto simp: TSClient_CHANGE_def ts_inv_def ts_step_defs bind_Some_iff split: if_splits)
qed

lemma server_change_inv:
  assumes "ts_inv False fw P s" "nk \<noteq> 0" "TSServer_CHANGE nk m s = Some (code, resp, s')"
  shows "ts_inv False (if code = TSC_FORWARD then fw @ [msgName m] else fw) (pend (new_acts s s') P) s'"
  using assms
  by (cases "tsstate s") (auto simp: TSServer_CHANGE_def ts_inv_def ts_step_defs bind_Some_iff split: if_splits option.splits)

lemma timer_change_inv:
  assumes "ts_inv c fw P s" "nk \<noteq> 0" "TS_CHANGE_timer nk key s = Some (code, resp, s')"
  shows "ts_inv c fw (pend (new_acts s s') (P - {key})) s'" "code \<in> {TSC_NULL, TSC_RESEND}"
  using assms
  by (cases "tsstate s"; auto simp: TS_CHANGE_timer_def resend_copy_def ts_inv_def ts_step_defs bind_Some_iff word_gt_0 split: if_splits)+

lemma ts_reach_inv: "ts_reach c tid fw P s \<Longrightarrow> ts_inv c fw P s"
proof (induction rule: ts_reach.induct)
  case (start c tid)
  show ?case by (simp add: ts_inv_def TTransState_new_def)
next
  case (recv c tid fw P s nk m code resp s')
  then have "tssend s = c" by (simp add: ts_inv_def)
  then show ?case using recv client_change_inv server_change_inv by (cases c) (auto simp: TS_CHANGE_def)
next
  case (fired c tid fw P s nk key code resp s')
  then show ?case using timer_change_inv(1) by blast
qed


text \<open>Whatever messages arrive and timers fire in whatever order, the messages a
  transaction forwards are at most one request and, after it, at most one response; repetitions are
  never forwarded. Its pending timer is the one it remembers, if any, and the destructor releases it.\<close>

theorem transaction_at_most_once:
  assumes "ts_reach c tid fw P s"
  shows "(\<exists>r. fw @ r = [COM_MESSAGE_REQ, COM_MESSAGE_RSP]) \<and> P = (if ts_timer s = 0 then {} else {ts_timer s}) \<and>
    pend (drop (length (ts_log s)) (TTransState_delete s)) P = {}"
  using ts_reach_inv [OF assms]
  by (auto simp: ts_inv_def TTransState_delete_def split: TS_TRANSSTATE.splits if_splits)

definition sample_com :: "UINT \<Rightarrow> TUniNetMsg" where
  "sample_com n = addCtrlMsgHdr (setTransId [49] (TUniNetMsg_new\<lparr>msgName := n\<rparr>)) 0 1 0"

lemma sample_client:
  "\<exists>s. ts_reach True [49] [COM_MESSAGE_REQ] {5} s \<and> tsstate s = TS_FORWARD \<and> ts_timer s = 5"
proof -
  have c: "uninet_copy (sample_com 100) \<noteq> None" "msgName (sample_com 100) = 100"
    by (simp_all add: sample_com_def uninet_copy_def addCtrlMsgHdr_def setCtrlMsgHdr_def setTransId_def TUniNetMsg_new_def ctrl_new_def TComMsgHdr_new_def
      ctrl_clone_def com_assign_def argv_used_def hasMsgBody_def hasCtrlMsgHdr_def Let_def flag_or)
  then obtain s where s: "TS_CHANGE 5 (sample_com 100) (TTransState_new True [49]) = Some (TSC_FORWARD, None, s)" "tsstate s = TS_FORWARD" "ts_timer s = 5"
    "new_acts (TTransState_new True [49]) s = [SetResend [49] 5]"
    by (auto simp: TS_CHANGE_def TSClient_CHANGE_def TTransState_new_def ts_step_defs)
  show ?thesis using ts_reach.recv [OF ts_reach.start _ s(1)] s c by auto
qed

theorem transaction_at_most_once_witness:
  "\<exists>s. ts_timer s = 5 \<and> (\<exists>r. [COM_MESSAGE_REQ] @ r = [COM_MESSAGE_REQ, COM_MESSAGE_RSP]) \<and> {5} = (if ts_timer s = 0 then {} else {ts_timer s}) \<and>
    pend (drop (length (ts_log s)) (TTransState_delete s)) {5} = {}"
proof -
  obtain s where s: "ts_reach True [49] [COM_MESSAGE_REQ] {5} s" "ts_timer s = 5" using sample_client by blast
  show ?thesis using transaction_at_most_once [OF s(1)] s(2) by (intro exI [of _ s]) simp
qed

text \<open>A repeated request at a server transaction is always refused and answered: with
  the temporary response while the application has not answered, with a copy of the stored response
  afterwards.\<close>

theorem repeated_request_answered:
  assumes "ts_reach False tid fw P s" "fw \<noteq> []" "msgName m = COM_MESSAGE_REQ" "TS_CHANGE nk m s = Some (code, resp, s')"
  shows "code = TSC_REFUSE \<and> (\<exists>r. resp = Some r \<and>
    (if length fw = 1 then genComMsgResp m 100 = Some r else \<exists>m0. ts_msg s = Some m0 \<and> uninet_copy m0 = Some r))"
  using ts_reach_inv [OF assms(1)] assms(2-)
  by (cases "tsstate s")
    (auto simp: ts_inv_def TS_CHANGE_def TSServer_CHANGE_def Let_def bind_Some_iff intro: exI sym split: if_splits option.splits)

lemma sample_defs: "hasCtrlMsgHdr (sample_com n)" "hasTransId (sample_com n)" "getComMsgPri (sample_com n) = 1"
  "msgName (sample_com n) = n" "transID (sample_com n) = [49]" "\<exists>r. genComMsgResp (sample_com n) c = Some r"
  "\<not> hasCSeq (sample_com n)"
  by (simp_all add: sample_com_def addCtrlMsgHdr_def setCtrlMsgHdr_def setTransId_def TUniNetMsg_new_def ctrl_new_def TComMsgHdr_new_def
      getComMsgPri_def hasCtrlMsgHdr_def hasTransId_def hasCSeq_def genComMsgResp_def getCtrlMsgHdr_def com_assign_def argv_used_def Let_def flag_or)

theorem repeated_request_answered_witness:
  "\<exists>s code resp s'. TS_CHANGE 0 (sample_com 100) s = Some (code, resp, s') \<and> code = TSC_REFUSE \<and> (\<exists>r. resp = Some r \<and>
    (if length [COM_MESSAGE_REQ] = 1 then genComMsgResp (sample_com 100) 100 = Some r else \<exists>m0. ts_msg s = Some m0 \<and> uninet_copy m0 = Some r))"
proof -
  obtain s where s: "TS_CHANGE 5 (sample_com 100) (TTransState_new False [49]) = Some (TSC_FORWARD, None, s)" "tsstate s = TS_FORWARD" "\<not> tssend s"
    using sample_defs [of 100] by (auto simp: TS_CHANGE_def TSServer_CHANGE_def TTransState_new_def ts_step_defs)
  have r: "ts_reach False [49] [COM_MESSAGE_REQ] (pend (new_acts (TTransState_new False [49]) s) {}) s"
    using ts_reach.recv [OF ts_reach.start _ s(1)] sample_defs(4) by simp
  obtain code resp s' where t: "TS_CHANGE 0 (sample_com 100) s = Some (code, resp, s')"
    using s(2,3) sample_defs(4) [of 100] sample_defs(6) [of 100 100] by (auto simp: TS_CHANGE_def TSServer_CHANGE_def Let_def)
  show ?thesis using t repeated_request_answered [OF r _ sample_defs(4) t] by blast
qed

text \<open>A client transaction that has sent its request holds the request and a pending
  timer; when the timer fires it sends a copy and sets the timer again, until a response arrives.\<close>

theorem client_resends:
  assumes "ts_reach True tid fw P s" "tsstate s = TS_FORWARD"
  shows "\<exists>m0. ts_msg s = Some m0 \<and> P = {ts_timer s} \<and> ts_timer s \<noteq> 0 \<and>
    (\<forall>nk r. uninet_copy m0 = Some r \<longrightarrow> TS_CHANGE_timer nk (ts_timer s) s = Some (TSC_RESEND, Some r, setResend nk s))"
  using ts_reach_inv [OF assms(1)] assms(2)
  by (auto simp: ts_inv_def TS_CHANGE_timer_def resend_copy_def word_gt_0)

theorem client_resends_witness:
  "\<exists>s m0. ts_msg s = Some m0 \<and> {5} = {ts_timer s} \<and> ts_timer s \<noteq> 0 \<and>
    (\<forall>nk r. uninet_copy m0 = Some r \<longrightarrow> TS_CHANGE_timer nk (ts_timer s) s = Some (TSC_RESEND, Some r, setResend nk s))"
proof -
  obtain s where s: "ts_reach True [49] [COM_MESSAGE_REQ] {5} s" "tsstate s = TS_FORWARD" using sample_client by blast
  show ?thesis using client_resends [OF s] by blast
qed

lemma ts_inv_prefix: "ts_inv c fw P s \<Longrightarrow> \<exists>r. fw @ r = [COM_MESSAGE_REQ, COM_MESSAGE_RSP]"
  by (auto simp: ts_inv_def split: TS_TRANSSTATE.splits if_splits)

section \<open>The machine\<close>

text \<open>The specification: the transactions in the order of their creation, each with its identifier and
  the time it was created.\<close>

type_synonym tspec = "(CHAR8 list \<times> int \<times> TTransState) list"

fun tput :: "CHAR8 list \<Rightarrow> TTransState \<Rightarrow> tspec \<Rightarrow> tspec" where
  "tput k s [] = []"
| "tput k s ((k', t0, s') # es) = (if k' = k then (k', t0, s) # es else (k', t0, s') # tput k s es)"

datatype tcall = TMsgCall int UINT bool "TUniNetMsg option" | TTimerCall UINT UINT "CHAR8 list option" | TOldCall int "nat \<Rightarrow> int"

definition spec_msg :: "int \<Rightarrow> UINT \<Rightarrow> bool \<Rightarrow> TUniNetMsg option \<Rightarrow> tspec \<Rightarrow> (TS_CODE \<times> TUniNetMsg option \<times> tspec) option" where
  "spec_msg now nk fromwire msg es = (case msg of None \<Rightarrow> Some (TSC_NULL, None, es) | Some m \<Rightarrow>
     if \<not> hasTransId m then Some (TSC_NULL, None, es)
     else (case map_of es (cstr (transID m)) of
         Some (t0, s) \<Rightarrow> do { (c, r, s') \<leftarrow> TS_CHANGE nk m s; Some (c, r, tput (cstr (transID m)) s' es) }
       | None \<Rightarrow> if msgName m = COM_MESSAGE_REQ
           then do { (c, r, s') \<leftarrow> TS_CHANGE nk m (TTransState_new (\<not> fromwire) (transID m)); Some (c, r, es @ [(cstr (transID m), now, s')]) }
           else Some (TSC_NULL, None, es)))"

definition spec_timer :: "UINT \<Rightarrow> UINT \<Rightarrow> CHAR8 list option \<Rightarrow> tspec \<Rightarrow> (TS_CODE \<times> TUniNetMsg option \<times> tspec) option" where
  "spec_timer nk tk para es = (case para of None \<Rightarrow> None | Some p \<Rightarrow>
     if tk = 0 then Some (TSC_NULL, None, es)
     else (case map_of es (cstr p) of
         Some (t0, s) \<Rightarrow> do { (c, r, s') \<leftarrow> TS_CHANGE_timer nk tk s; Some (c, r, tput (cstr p) s' es) }
       | None \<Rightarrow> Some (TSC_NULL, None, es)))"

text \<open>The timer parameters a call takes over and releases.\<close>

fun given :: "tcall \<Rightarrow> CHAR8 list list" where
  "given (TTimerCall nk tk (Some p)) = (if cstr p = [] then [] else [p])"
| "given a = []"

definition reports :: "TTransState \<Rightarrow> bool" where
  "reports s = (tsstate s \<noteq> TS_INIT \<and> tsstate s \<noteq> TS_TERMINATED \<and> tssend s \<and> ts_msg s \<noteq> None)"

fun spec_old :: "int \<Rightarrow> int \<Rightarrow> (nat \<Rightarrow> int) \<Rightarrow> nat \<Rightarrow> tspec \<Rightarrow> (TS_CODE \<times> TUniNetMsg option \<times> tspec) option" where
  "spec_old l t clk i [] = Some (TSC_NULL, None, [])"
| "spec_old l t clk i ((k, t0, s) # es) = (if l < (if t \<noteq> 0 then t else clk i) - t0
     then if reports s then do { r \<leftarrow> genComMsgResp (the (ts_msg s)) 408; Some (TSC_TIMEOUT, Some r, es) }
          else spec_old l t clk (Suc i) es
     else Some (TSC_NULL, None, (k, t0, s) # es))"

text \<open>The machine state and its abstraction. The state objects of the transactions are distinct and
  all others have been deleted.\<close>

definition ptrs :: "(CHAR8 list \<times> addr \<times> int) list \<Rightarrow> addr list" where
  "ptrs ps = map (\<lambda>(k, p, t0). p) ps"

definition tm_rel :: "TTransMachine \<Rightarrow> tspec \<Rightarrow> int \<Rightarrow> bool" where
  "tm_rel t es l = (\<exists>ps. eb_store (mTSState t) ps l \<and> distinct (ptrs ps) \<and> dom (tm_states t) = set (ptrs ps) \<and>
     (\<forall>p \<in> set (ptrs ps). p \<noteq> NULL \<and> p < tm_brk t) \<and> 0 < tm_brk t \<and>
     es = map (\<lambda>(k, p, t0). (k, t0, the (tm_states t p))) ps)"

lemma ptrs_simps [simp]: "ptrs [] = []" "ptrs ((k, p, t0) # ps) = p # ptrs ps" "ptrs (ps @ qs) = ptrs ps @ ptrs qs"
  by (simp_all add: ptrs_def)

lemma tspec_find: "map_of (map (\<lambda>(k, p, t0). (k, t0, the (st p))) ps) k = map_option (\<lambda>(p, t0). (t0, the (st p))) (map_of ps k)"
  by (induction ps) auto

lemma ptrs_mem: "map_of ps k = Some (p, t0) \<Longrightarrow> p \<in> set (ptrs ps)"
  by (induction ps) (auto split: if_splits)

lemma tput_ptrs:
  "distinct (map fst ps) \<Longrightarrow> distinct (ptrs ps) \<Longrightarrow> map_of ps k = Some (p, t0) \<Longrightarrow>
   map (\<lambda>(k, q, t0). (k, t0, the ((st(p \<mapsto> s)) q))) ps = tput k s (map (\<lambda>(k, p, t0). (k, t0, the (st p))) ps)"
proof (induction ps)
  case (Cons x ps)
  obtain k' p' t' where x: "x = (k', p', t')" by (cases x) auto
  have same: "map (\<lambda>(k, q, t0). (k, t0, the ((st(p'' \<mapsto> s)) q))) ps = map (\<lambda>(k, p, t0). (k, t0, the (st p))) ps"
    if "p'' \<notin> set (ptrs ps)" for p'' using that by (force simp: ptrs_def)
  show ?case
  proof (cases "k' = k")
    case True
    then show ?thesis using Cons.prems x same [of p'] by simp
  next
    case False
    then have m: "map_of ps k = Some (p, t0)" using Cons.prems(3) x by simp
    then have "p \<noteq> p'" using Cons.prems(2) x ptrs_mem [OF m] by auto
    then show ?thesis using Cons.IH [OF _ _ m] Cons.prems x False by simp
  qed
qed simp

lemma change_at_ok:
  assumes "eb_store b ps l" "distinct (ptrs ps)" "dom (tm_states t) = set (ptrs ps)"
    "\<forall>p \<in> set (ptrs ps). p \<noteq> NULL \<and> p < tm_brk t" "0 < tm_brk t" "map_of ps k = Some (p, t0)"
    "es = map (\<lambda>(k, p, t0). (k, t0, the (tm_states t p))) ps" "f (the (tm_states t p)) = Some (c, r, s')" "mTSState t = b"
  shows "\<exists>t'. change_at p f t = Some (c, r, t') \<and> tm_rel t' (tput k s' es) l \<and> tm_freed t' = tm_freed t"
proof -
  have p: "p \<in> set (ptrs ps)" using ptrs_mem [OF assms(6)] .
  then obtain s where s: "tm_states t p = Some s" using assms(3) by (metis domD)
  let ?t = "t\<lparr>tm_states := (tm_states t)(p \<mapsto> s')\<rparr>"
  have "tm_rel ?t (tput k s' es) l" unfolding tm_rel_def
  proof (intro exI [of _ ps] conjI)
    show "tput k s' es = map (\<lambda>(k, q, t0). (k, t0, the (tm_states ?t q))) ps"
      using tput_ptrs [OF eb_expiring.rep_distinct [OF assms(1)] assms(2,6), of "tm_states t" s'] assms(7) by simp
    show "dom (tm_states ?t) = set (ptrs ps)" using assms(3) p by auto
  qed (use assms in auto)
  then show ?thesis using s assms(8) by (simp add: change_at_def)
qed


text \<open>A machine whose buffer only moved its cursor represents the same transactions.\<close>

lemma tm_rel_cursor:
  "tm_rel t es l \<Longrightarrow> \<exists>ps. eb_store (mTSState t) ps l \<and> es = map (\<lambda>(k, p, t0). (k, t0, the (tm_states t p))) ps \<and> distinct (ptrs ps) \<and>
    dom (tm_states t) = set (ptrs ps) \<and> (\<forall>p \<in> set (ptrs ps). p \<noteq> NULL \<and> p < tm_brk t) \<and> 0 < tm_brk t \<and>
    (\<forall>b. eb_store b ps l \<longrightarrow> tm_rel (t\<lparr>mTSState := b\<rparr>) es l)"
  unfolding tm_rel_def by fastforce

lemma processTM_msg_ok:
  assumes rel: "tm_rel t es l" and sp: "spec_msg now nk fromwire msg es = Some (c, r, es')"
  shows "\<exists>t'. processTM_msg now nk fromwire msg t = Some (c, r, t') \<and> tm_rel t' es' l \<and> tm_freed t' = tm_freed t"
proof (cases msg)
  case None
  then show ?thesis using assms by (simp add: spec_msg_def processTM_msg_def)
next
  case (Some m)
  obtain ps where ps: "eb_store (mTSState t) ps l" "es = map (\<lambda>(k, p, t0). (k, t0, the (tm_states t p))) ps" "distinct (ptrs ps)"
    "dom (tm_states t) = set (ptrs ps)" "\<forall>p \<in> set (ptrs ps). p \<noteq> NULL \<and> p < tm_brk t" "0 < tm_brk t"
    "\<forall>b. eb_store b ps l \<longrightarrow> tm_rel (t\<lparr>mTSState := b\<rparr>) es l" using tm_rel_cursor [OF rel] by (elim exE conjE) (rule that)
  obtain b where b: "eb_find (mTSState t) (cstr (transID m)) = Some (map_option fst (map_of ps (cstr (transID m))), b)" "eb_store b ps l"
    by (rule eb_expiring.findE [OF ps(1)])
  have look: "map_of es (cstr (transID m)) = map_option (\<lambda>(p, t0). (t0, the (tm_states t p))) (map_of ps (cstr (transID m)))"
    using ps(2) tspec_find by simp
  show ?thesis
  proof (cases "hasTransId m")
    case False
    then show ?thesis using assms Some by (simp add: spec_msg_def processTM_msg_def)
  next
    case True
    show ?thesis
    proof (cases "map_of ps (cstr (transID m))")
      case old: (Some pt)
      obtain p t0 where pt: "pt = (p, t0)" by (cases pt)
      have p: "p \<noteq> NULL" using ps(5) ptrs_mem old pt by blast
      obtain s' where s': "TS_CHANGE nk m (the (tm_states t p)) = Some (c, r, s')" "es' = tput (cstr (transID m)) s' es"
        using sp Some True look old pt by (auto simp: spec_msg_def bind_Some_iff)
      obtain t' where "change_at p (TS_CHANGE nk m) (t\<lparr>mTSState := b\<rparr>) = Some (c, r, t')" "tm_rel t' es' l" "tm_freed t' = tm_freed t"
        using change_at_ok [of b ps l "t\<lparr>mTSState := b\<rparr>" "cstr (transID m)" p t0 es "TS_CHANGE nk m" c r s'] b(2) ps old pt s' by auto
      then show ?thesis using b(1) True Some old pt p by (simp add: processTM_msg_def)
    next
      case None
      show ?thesis
      proof (cases "msgName m = COM_MESSAGE_REQ")
        case False
        then show ?thesis using sp Some True look None b(1) ps(7) b(2) by (simp add: spec_msg_def processTM_msg_def)
      next
        case req: True
        let ?p = "tm_brk t" let ?n = "TTransState_new (\<not> fromwire) (transID m)"
        obtain s' where s': "TS_CHANGE nk m ?n = Some (c, r, s')" "es' = es @ [(cstr (transID m), now, s')]"
          using sp Some True look None req by (auto simp: spec_msg_def bind_Some_iff)
        obtain b' where b': "eb_push b (cstr (transID m)) ?p now = Some (1, b')" "eb_store b' (ps @ [(cstr (transID m), ?p, now)]) l"
          using eb_expiring.push_ok [OF b(2), of "cstr (transID m)" ?p now] None by (auto simp: map_of_eq_None_iff)
        let ?t = "t\<lparr>mTSState := b', tm_states := (tm_states t)(?p \<mapsto> s'), tm_brk := Suc ?p\<rparr>"
        have fresh: "?p \<notin> set (ptrs ps)" using ps(5) by auto
        have "tm_rel ?t es' l" unfolding tm_rel_def
        proof (intro exI [of _ "ps @ [(cstr (transID m), ?p, now)]"] conjI)
          have "map (\<lambda>(k, q, t0). (k, t0, the (((tm_states t)(?p \<mapsto> s')) q))) ps = es"
            using fresh ps(2) by (force simp: ptrs_def)
          then show "es' = map (\<lambda>(k, q, t0). (k, t0, the (tm_states ?t q))) (ps @ [(cstr (transID m), ?p, now)])" using s'(2) by simp
        qed (use b'(2) ps(3-6) fresh in auto)
        moreover have "processTM_msg now nk fromwire msg t = Some (c, r, ?t)"
          using b(1) b'(1) True Some None req s'(1) ps(6) by (simp add: processTM_msg_def change_at_def Let_def)
        moreover have "tm_freed ?t = tm_freed t" by simp
        ultimately show ?thesis by (intro exI [of _ ?t] conjI)
      qed
    qed
  qed
qed

lemma tm_rel_freed: "tm_rel (t\<lparr>tm_freed := x\<rparr>) es l = tm_rel t es l"
  by (simp add: tm_rel_def)

lemma processTM_timer_ok:
  assumes rel: "tm_rel t es l" and sp: "spec_timer nk tk para es = Some (c, r, es')"
  shows "\<exists>t'. processTM_timer nk tk para t = Some (c, r, t') \<and> tm_rel t' es' l \<and> tm_freed t' = tm_freed t @ given (TTimerCall nk tk para)"
proof -
  obtain q where q: "para = Some q" using sp by (cases para) (simp_all add: spec_timer_def)
  let ?k = "cstr q"
  let ?body = "if tk > 0 \<and> size_c (strobj ?k) \<noteq> 0 then do {
         (found, b) \<leftarrow> eb_find (mTSState t) ?k;
         let t = t\<lparr>mTSState := b\<rparr>;
         (case found of Some p \<Rightarrow> if p \<noteq> NULL then change_at p (TS_CHANGE_timer nk tk) t else Some (TSC_NULL, None, t)
          | None \<Rightarrow> Some (TSC_NULL, None, t)) }
       else Some (TSC_NULL, None, t)"
  have "\<exists>t'. ?body = Some (c, r, t') \<and> tm_rel t' es' l \<and> tm_freed t' = tm_freed t"
  proof (cases "tk = 0")
    case True
    then show ?thesis using assms q by (simp add: spec_timer_def)
  next
    case False
    obtain ps where ps: "eb_store (mTSState t) ps l" "es = map (\<lambda>(k, p, t0). (k, t0, the (tm_states t p))) ps" "distinct (ptrs ps)"
      "dom (tm_states t) = set (ptrs ps)" "\<forall>p \<in> set (ptrs ps). p \<noteq> NULL \<and> p < tm_brk t" "0 < tm_brk t"
      "\<forall>b. eb_store b ps l \<longrightarrow> tm_rel (t\<lparr>mTSState := b\<rparr>) es l" using tm_rel_cursor [OF rel] by (elim exE conjE) (rule that)
    obtain b where b: "eb_find (mTSState t) ?k = Some (map_option fst (map_of ps ?k), b)" "eb_store b ps l"
      by (rule eb_expiring.findE [OF ps(1)])
    have look: "map_of es ?k = map_option (\<lambda>(p, t0). (t0, the (tm_states t p))) (map_of ps ?k)" using ps(2) tspec_find by simp
    show ?thesis
    proof (cases "map_of ps ?k")
      case None
      then show ?thesis using sp q False look b(1) ps(7) b(2) by (simp add: spec_timer_def word_gt_0)
    next
      case old: (Some pt)
      obtain p t0 where pt: "pt = (p, t0)" by (cases pt)
      have p: "p \<noteq> NULL" using ps(5) ptrs_mem old pt by blast
      obtain s' where s': "TS_CHANGE_timer nk tk (the (tm_states t p)) = Some (c, r, s')" "es' = tput ?k s' es"
        using sp q False look old pt by (auto simp: spec_timer_def bind_Some_iff)
      obtain t' where "change_at p (TS_CHANGE_timer nk tk) (t\<lparr>mTSState := b\<rparr>) = Some (c, r, t')" "tm_rel t' es' l" "tm_freed t' = tm_freed t"
        using change_at_ok [of b ps l "t\<lparr>mTSState := b\<rparr>" ?k p t0 es "TS_CHANGE_timer nk tk" c r s'] b(2) ps old pt s' by auto
      then show ?thesis using b(1) False old pt p by (simp add: word_gt_0)
    qed
  qed
  then obtain t' where t': "?body = Some (c, r, t')" "tm_rel t' es' l" "tm_freed t' = tm_freed t" by blast
  have "processTM_timer nk tk para t = do { (code, resend, t) \<leftarrow> ?body; Some (code, resend, if ?k \<noteq> [] then t\<lparr>tm_freed := tm_freed t @ [q]\<rparr> else t) }"
    by (simp add: processTM_timer_def q Let_def)
  then have "processTM_timer nk tk para t = Some (c, r, if ?k \<noteq> [] then t'\<lparr>tm_freed := tm_freed t' @ [q]\<rparr> else t')"
    unfolding t'(1) by simp
  then show ?thesis using t'(2,3) q tm_rel_freed by auto
qed

lemma processTM_old_ok:
  "tm_rel t es l \<Longrightarrow> spec_old l ct clk i es = Some (c, r, es') \<Longrightarrow>
   \<exists>t'. processTM_old ct clk i t = Some (c, r, t') \<and> tm_rel t' es' l \<and> tm_freed t' = tm_freed t"
proof (induction es arbitrary: i t)
  case Nil
  obtain ps where ps: "eb_store (mTSState t) ps l" "ps = []"
    "\<forall>b. eb_store b ps l \<longrightarrow> tm_rel (t\<lparr>mTSState := b\<rparr>) [] l" using tm_rel_cursor [OF Nil(1)] by auto
  obtain kv b where b: "eb_pop_front_old_kv (mTSState t) ct (clk i) = Some ((False, kv), b)" "eb_store b ps l"
    using eb_expiring.pop_none [OF ps(1), of ct "clk i"] ps(2) by blast
  then show ?case using ps(3) b(2) Nil(2) by (subst processTM_old.simps) simp
next
  case (Cons e es)
  obtain k t0 s where e: "e = (k, t0, s)" by (cases e) auto
  obtain ps where ps: "eb_store (mTSState t) ps l" "e # es = map (\<lambda>(k, p, t0). (k, t0, the (tm_states t p))) ps" "distinct (ptrs ps)"
    "dom (tm_states t) = set (ptrs ps)" "\<forall>p \<in> set (ptrs ps). p \<noteq> NULL \<and> p < tm_brk t" "0 < tm_brk t"
    "\<forall>b. eb_store b ps l \<longrightarrow> tm_rel (t\<lparr>mTSState := b\<rparr>) (e # es) l"
    using tm_rel_cursor [OF Cons.prems(1)] by (elim exE conjE) (rule that)
  then obtain p qs where q: "ps = (k, p, t0) # qs" "s = the (tm_states t p)" "es = map (\<lambda>(k, p, t0). (k, t0, the (tm_states t p))) qs"
    using e by (cases ps) auto
  show ?case
  proof (cases "l < (if ct \<noteq> 0 then ct else clk i) - t0")
    case False
    obtain kv b where b: "eb_pop_front_old_kv (mTSState t) ct (clk i) = Some ((False, kv), b)" "eb_store b ps l"
      using eb_expiring.pop_none [OF ps(1), of ct "clk i"] q(1) False by auto
    then show ?thesis using ps(7) b(2) Cons.prems(2) False e by (subst processTM_old.simps) simp
  next
    case True
    obtain b where b: "eb_pop_front_old_kv (mTSState t) ct (clk i) = Some ((True, Some (k, p)), b)" "eb_store b qs l"
      using eb_expiring.pop_some [OF ps(1) [unfolded q(1)] True] by blast
    have st: "tm_states t p = Some s" using q(1,2) ps(4) by (metis domD insertI1 list.set(2) option.sel ptrs_simps(2))
    let ?t = "t\<lparr>mTSState := b, tm_states := (tm_states t)(p := None), tm_dead := tm_dead t @ [TTransState_delete s]\<rparr>"
    have d: "delete_state p (t\<lparr>mTSState := b\<rparr>) = Some ?t" using st by (simp add: delete_state_def)
    have "p \<notin> set (ptrs qs)" using ps(3) q(1) by simp
    then have "map (\<lambda>(k, q, t0). (k, t0, the (((tm_states t)(p := None)) q))) qs = es" using q(3) by (force simp: ptrs_def)
    then have rel: "tm_rel ?t es l" unfolding tm_rel_def
      by (intro exI [of _ qs]) (use b(2) ps(3-6) q(1) \<open>p \<notin> set (ptrs qs)\<close> in auto)
    show ?thesis
    proof (cases "reports s")
      case rep: True
      then obtain m resp where m: "ts_msg s = Some m" "genComMsgResp m 408 = Some resp" "(c, r, es') = (TSC_TIMEOUT, Some resp, es)"
        using Cons.prems(2) e True by (auto simp: reports_def bind_Some_iff)
      then show ?thesis using b(1) st d rel rep by (subst processTM_old.simps) (simp add: reports_def)
    next
      case rep: False
      obtain t' where "processTM_old ct clk (Suc i) ?t = Some (c, r, t')" "tm_rel t' es' l" "tm_freed t' = tm_freed t"
        using Cons.IH [OF rel, of "Suc i"] Cons.prems(2) e True rep by auto
      then show ?thesis using b(1) st d rep by (subst processTM_old.simps) (auto simp: reports_def)
    qed
  qed
qed


text \<open>Runs of the machine and of the specification.\<close>

fun tm_exec :: "tcall \<Rightarrow> TTransMachine \<Rightarrow> tm_result option" where
  "tm_exec (TMsgCall now nk fromwire msg) t = processTM_msg now nk fromwire msg t"
| "tm_exec (TTimerCall nk tk para) t = processTM_timer nk tk para t"
| "tm_exec (TOldCall ct clk) t = processTM_old ct clk 0 t"

fun tspec_exec :: "int \<Rightarrow> tcall \<Rightarrow> tspec \<Rightarrow> (TS_CODE \<times> TUniNetMsg option \<times> tspec) option" where
  "tspec_exec l (TMsgCall now nk fromwire msg) es = spec_msg now nk fromwire msg es"
| "tspec_exec l (TTimerCall nk tk para) es = spec_timer nk tk para es"
| "tspec_exec l (TOldCall ct clk) es = spec_old l ct clk 0 es"

fun tm_run :: "tcall list \<Rightarrow> TTransMachine \<Rightarrow> ((TS_CODE \<times> TUniNetMsg option) list \<times> TTransMachine) option" where
  "tm_run [] t = Some ([], t)"
| "tm_run (a # as) t = do { (c, r, t) \<leftarrow> tm_exec a t; (out, t) \<leftarrow> tm_run as t; Some ((c, r) # out, t) }"

fun tspec_run :: "int \<Rightarrow> tcall list \<Rightarrow> tspec \<Rightarrow> ((TS_CODE \<times> TUniNetMsg option) list \<times> tspec) option" where
  "tspec_run l [] es = Some ([], es)"
| "tspec_run l (a # as) es = do { (c, r, es) \<leftarrow> tspec_exec l a es; (out, es) \<leftarrow> tspec_run l as es; Some ((c, r) # out, es) }"

lemma tm_exec_ok: "tm_rel t es l \<Longrightarrow> tspec_exec l a es = Some (c, r, es') \<Longrightarrow>
    \<exists>t'. tm_exec a t = Some (c, r, t') \<and> tm_rel t' es' l \<and> tm_freed t' = tm_freed t @ given a"
  using processTM_timer_ok [of t es l] by (cases a) (simp_all add: processTM_msg_ok processTM_old_ok)

lemma tm_run_ok: "tm_rel t es l \<Longrightarrow> tspec_run l as es = Some (out, es') \<Longrightarrow>
    \<exists>t'. tm_run as t = Some (out, t') \<and> tm_rel t' es' l \<and> tm_freed t' = tm_freed t @ concat (map given as)"
proof (induction as arbitrary: t es out)
  case (Cons a as)
  obtain c r es1 out1 where 1: "tspec_exec l a es = Some (c, r, es1)" "tspec_run l as es1 = Some (out1, es')" "out = (c, r) # out1"
    using Cons.prems(2) by (auto simp: bind_Some_iff)
  obtain t1 where "tm_exec a t = Some (c, r, t1)" "tm_rel t1 es1 l" "tm_freed t1 = tm_freed t @ given a"
    using tm_exec_ok [OF Cons.prems(1) 1(1)] by blast
  then show ?case using Cons.IH [OF _ 1(2)] 1(3) by fastforce
qed simp

lemma tm_new_ok: "\<exists>t. TTransMachine_new = Some t \<and> tm_rel (tminit l t) [] (if l = 0 then 172800 else l) \<and> tm_freed (tminit l t) = []"
proof -
  obtain b :: "(CHAR8 list, addr) ebuf" where b: "eb_new 0 False 172800 = Some b" "eb_rel b (espec_new 0 False 172800)" using eb_new_ok by blast
  let ?s = "espec_new 0 False 172800 :: (CHAR8 list, addr) espec"
  have "eb_refines (ESetLiving l) 0 b ?s" by (rule eb_refines_all [OF b(2)])
  then have "eb_rel (eb_setLivingTime b l) (?s\<lparr>es_living := l\<rparr>)" by (simp add: eb_refines_def)
  then have "eb_store (eb_setLivingTime b l) [] l" "eb_store b [] 172800"
    using b(2) by (auto simp: eb_store_def espec_new_def intro!: exI)
  then show ?thesis using b(1) by (simp add: TTransMachine_new_def tminit_def tm_rel_def)
qed

text \<open>The destructor frees the nodes of the buffer and nothing else.\<close>

lemma clear_delete_ok: "eb_rel b s \<Longrightarrow> \<exists>b1 b2. eb_clear b = Some b1 \<and> eb_delete b1 = Some b2 \<and> heap b2 = Map.empty"
proof -
  assume "eb_rel b s"
  then obtain as where rep: "eb_rep b as s" by (auto simp: eb_rel_def)
  show ?thesis
  proof (cases "es_ents s = []")
    case True
    then show ?thesis using eb_count [OF rep] eb_delete_ok [OF rep] by (simp add: eb_clear_def)
  next
    case False
    obtain b1 where b1: "eb_clear b = Some b1" using eb_clear_ok [OF rep False] by blast
    note H = eb_clear_heap [OF rep False b1]
    have t: "heap b1 (m_pTag b1) \<noteq> None" "(heap b1)(m_pTag b1 := None) = Map.empty" using H(4) by (blast, force)
    have "m_pTag b1 \<noteq> NULL" using eb_clear_ok [OF rep False] b1 ring_fresh(6) [OF rr_inv [OF eb_ring [OF rep]]] by auto
    then show ?thesis using b1 H(3) t by (simp add: eb_delete_def eb_delete_loop.simps [of b1] heap_simps)
  qed
qed

lemma machine_delete_leaks:
  assumes "tm_rel t es l"
  shows "\<exists>e. TTransMachine_delete t = Some e \<and> heap (mTSState e) = Map.empty \<and> tm_states e = tm_states t \<and> card (dom (tm_states e)) = length es"
proof -
  obtain ps where ps: "eb_store (mTSState t) ps l" "distinct (ptrs ps)" "dom (tm_states t) = set (ptrs ps)"
    "es = map (\<lambda>(k, p, t0). (k, t0, the (tm_states t p))) ps" using assms unfolding tm_rel_def by blast
  obtain s where "eb_rel (mTSState t) s" using ps(1) by (auto simp: eb_store_def)
  then obtain b1 b2 where "eb_clear (mTSState t) = Some b1" "eb_delete b1 = Some b2" "heap b2 = Map.empty" using clear_delete_ok by blast
  moreover have "card (dom (tm_states t)) = length es" using ps(2-4) distinct_card by (fastforce simp: ptrs_def)
  ultimately show ?thesis by (simp add: TTransMachine_delete_def)
qed

text \<open>The message of an expired timer releases its parameter a second time.\<close>

theorem timer_parameter_released_twice:
  assumes "cstr p \<noteq> []"
  shows "timer_message nk tk (Some p) t = None"
proof -
  have change: "change_at q f u = Some (c, r, u') \<Longrightarrow> tm_freed u' = tm_freed u" for q f u c r u'
    by (auto simp: change_at_def bind_Some_iff)
  have "tm_freed t' = tm_freed t @ [p]" if "processTM_timer nk tk (Some p) t = Some (c, r, t')" for c r t'
    using that assms by (auto simp: processTM_timer_def Let_def bind_Some_iff dest!: change split: if_splits option.splits)
  then show ?thesis by (cases "processTM_timer nk tk (Some p) t") (auto simp: timer_message_def)
qed

text \<open>Property C4. The transaction machine, with its heap of buffer nodes and state objects, behaves
  as a list of independent transactions in the order of their creation, keyed by their identifiers as C
  strings: every sequence of messages, timer expiries and clean-up calls that the specification defines
  runs without touching a freed node or state object, returns the codes and responses of the
  specification, and never mixes transactions up; while the machine lives, exactly the state objects of
  the transactions that are left are allocated. The specification leaves out a timer parameter that is
  \<open>NULL\<close>. The machine releases every timer parameter whose C string is not empty, once (the timer message
  does so again: \<open>timer_parameter_released_twice\<close>), and its destructor frees all nodes of the buffer but
  leaks the state objects of all transactions that are left.\<close>

theorem trans_machine_refines:
  assumes "tspec_run (if l = 0 then 172800 else l) as [] = Some (out, es)"
  shows "\<exists>t t' e. TTransMachine_new = Some t \<and> tm_run as (tminit l t) = Some (out, t') \<and> tm_rel t' es (if l = 0 then 172800 else l) \<and>
    tm_freed t' = concat (map given as) \<and>
    TTransMachine_delete t' = Some e \<and> heap (mTSState e) = Map.empty \<and> tm_states e = tm_states t' \<and> card (dom (tm_states e)) = length es"
proof -
  obtain t where t: "TTransMachine_new = Some t" "tm_rel (tminit l t) [] (if l = 0 then 172800 else l)" "tm_freed (tminit l t) = []"
    using tm_new_ok [of l] by blast
  obtain t' where t': "tm_run as (tminit l t) = Some (out, t')" "tm_rel t' es (if l = 0 then 172800 else l)" "tm_freed t' = concat (map given as)"
    using tm_run_ok [OF t(2) assms] t(3) by auto
  show ?thesis using t(1) t' machine_delete_leaks [OF t'(2)] by blast
qed


lemma sample_copy: "\<exists>m. uninet_copy (sample_com n) = Some m \<and> (\<exists>r. genComMsgResp m c = Some r) \<and> (\<exists>m'. uninet_copy m = Some m')"
  by (simp add: sample_com_def uninet_copy_def addCtrlMsgHdr_def setCtrlMsgHdr_def setTransId_def TUniNetMsg_new_def ctrl_new_def TComMsgHdr_new_def
      ctrl_clone_def com_assign_def argv_used_def flag_defs genComMsgResp_def getCtrlMsgHdr_def Let_def flag_or)

definition sample_calls :: "tcall list" where
  "sample_calls = [TMsgCall 10 5 False (Some (sample_com 100)), TTimerCall 6 5 (Some [49]), TOldCall 100 (\<lambda>_. 0)]"

lemma sample_key: "cstr [49] = [49]"
  by (simp add: cstr_id)

lemma sample_spec_run:
  "\<exists>out es. tspec_run 30 sample_calls [] = Some (out, es) \<and> map fst out = [TSC_FORWARD, TSC_RESEND, TSC_TIMEOUT]"
proof -
  obtain m r where m: "uninet_copy (sample_com 100) = Some m" "genComMsgResp m 408 = Some r" "\<exists>m'. uninet_copy m = Some m'"
    using sample_copy by blast
  then show ?thesis using sample_defs [of 100]
    by (auto simp: sample_calls_def sample_key spec_msg_def spec_timer_def TS_CHANGE_timer_def resend_copy_def
      TS_CHANGE_def TSClient_CHANGE_def TTransState_new_def ts_step_defs reports_def)
qed

theorem trans_machine_refines_witness:
  "\<exists>out es t t'. map fst out = [TSC_FORWARD, TSC_RESEND, TSC_TIMEOUT] \<and>
    TTransMachine_new = Some t \<and> tm_run sample_calls (tminit 30 t) = Some (out, t') \<and> tm_rel t' es 30 \<and> tm_freed t' = [[49]]"
proof -
  obtain out es where r: "tspec_run 30 sample_calls [] = Some (out, es)" "map fst out = [TSC_FORWARD, TSC_RESEND, TSC_TIMEOUT]"
    using sample_spec_run by (elim exE conjE) (rule that)
  have g: "concat (map given sample_calls) = [[49]]" by (simp add: sample_calls_def sample_key)
  obtain t t' where "TTransMachine_new = Some t" "tm_run sample_calls (tminit 30 t) = Some (out, t')" "tm_rel t' es 30" "tm_freed t' = [[49]]"
    using trans_machine_refines [of 30 sample_calls out es] r(1) g by auto
  then show ?thesis using r(2) by (intro exI conjI)
qed

text \<open>The names of the messages forwarded under one identifier.\<close>

fun forwards :: "CHAR8 list \<Rightarrow> tcall list \<Rightarrow> (TS_CODE \<times> TUniNetMsg option) list \<Rightarrow> UINT list" where
  "forwards k (TMsgCall now nk fromwire (Some m) # as) ((c, r) # out) =
     (if c = TSC_FORWARD \<and> cstr (transID m) = k then [msgName m] else []) @ forwards k as out"
| "forwards k (a # as) (x # out) = forwards k as out"
| "forwards k as out = []"

definition live_call :: "tcall \<Rightarrow> bool" where
  "live_call a = (case a of TMsgCall now nk fromwire msg \<Rightarrow> nk \<noteq> 0 | TTimerCall nk tk para \<Rightarrow> nk \<noteq> 0 | TOldCall ct clk \<Rightarrow> False)"

definition hist_ok :: "(CHAR8 list \<Rightarrow> UINT list) \<Rightarrow> tspec \<Rightarrow> bool" where
  "hist_ok F es = (\<forall>k. case map_of es k of None \<Rightarrow> F k = [] | Some (t0, s) \<Rightarrow> \<exists>c tid P. ts_reach c tid (F k) P s)"

lemma tput_find: "map_of (tput k s es) j = (if j = k \<and> map_of es k \<noteq> None then Some (fst (the (map_of es k)), s) else map_of es j)"
  by (induction k s es rule: tput.induct) auto

lemma hist_at: "hist_ok F es \<Longrightarrow> map_of es k = Some (t0, s) \<Longrightarrow> \<exists>c tid P. ts_reach c tid (F k) P s" "hist_ok F es \<Longrightarrow> map_of es k = None \<Longrightarrow> F k = []"
  unfolding hist_ok_def by (drule spec [of _ k], simp)+

lemma hist_update:
  assumes "hist_ok F es" "\<And>k. map_of es' k = (if k = j then Some (tt, ss) else map_of es k)" "\<exists>c tid P. ts_reach c tid (G j) P ss"
    "\<And>k. k \<noteq> j \<Longrightarrow> G k = F k"
  shows "hist_ok G es'"
  unfolding hist_ok_def
proof
  fix k
  show "case map_of es' k of None \<Rightarrow> G k = [] | Some (t0, s) \<Rightarrow> \<exists>c tid P. ts_reach c tid (G k) P s"
    using assms(2) [of k] assms(3) assms(4) [of k] assms(1) [unfolded hist_ok_def, rule_format, of k]
    by (cases "k = j"; cases "map_of es k") auto
qed

lemma hist_old:
  assumes "hist_ok F es" "nk \<noteq> 0" "map_of es (cstr (transID m)) = Some (t0, s)" "TS_CHANGE nk m s = Some (c, r, s')"
    "\<And>k. G k = F k @ (if c = TSC_FORWARD \<and> k = cstr (transID m) then [msgName m] else [])"
  shows "hist_ok G (tput (cstr (transID m)) s' es)"
proof -
  let ?k = "cstr (transID m)"
  obtain c0 tid P where reach: "ts_reach c0 tid (F ?k) P s" using hist_at(1) [OF assms(1,3)] by blast
  have "G ?k = (if c = TSC_FORWARD then F ?k @ [msgName m] else F ?k)" by (simp add: assms(5))
  then have G: "\<exists>c0 tid P. ts_reach c0 tid (G ?k) P s'" using ts_reach.recv [OF reach assms(2,4)] by (intro exI) simp
  show ?thesis
    by (rule hist_update [OF assms(1), where j = ?k and tt = t0 and ss = s']) (use G assms(3,5) in \<open>auto simp: tput_find\<close>)
qed

lemma hist_new:
  assumes "hist_ok F es" "nk \<noteq> 0" "map_of es (cstr (transID m)) = None" "TS_CHANGE nk m (TTransState_new b (transID m)) = Some (c, r, s')"
    "\<And>k. G k = F k @ (if c = TSC_FORWARD \<and> k = cstr (transID m) then [msgName m] else [])"
  shows "hist_ok G (es @ [(cstr (transID m), now, s')])"
proof -
  let ?k = "cstr (transID m)"
  have "G ?k = (if c = TSC_FORWARD then [] @ [msgName m] else [])" using hist_at(2) [OF assms(1,3)] by (simp add: assms(5))
  then have G: "\<exists>c0 tid P. ts_reach c0 tid (G ?k) P s'" using ts_reach.recv [OF ts_reach.start assms(2,4)] by (intro exI) simp
  show ?thesis
    by (rule hist_update [OF assms(1), where j = ?k and tt = now and ss = s'])
      (use G assms(3,5) in \<open>auto simp: map_add_def split: option.splits\<close>)
qed

lemma hist_timer:
  assumes "hist_ok F es" "nk \<noteq> 0" "map_of es k = Some (t0, s)" "TS_CHANGE_timer nk tk s = Some (c, r, s')"
  shows "hist_ok F (tput k s' es)"
proof -
  obtain c0 tid P where reach: "ts_reach c0 tid (F k) P s" using hist_at(1) [OF assms(1,3)] by blast
  have G: "\<exists>c0 tid P. ts_reach c0 tid (F k) P s'" using ts_reach.fired [OF reach assms(2,4)] by blast
  show ?thesis
    by (rule hist_update [OF assms(1), where j = k and tt = t0 and ss = s']) (use G assms(3) in \<open>auto simp: tput_find\<close>)
qed

lemma spec_msg_cases:
  assumes "spec_msg now nk fromwire msg es = Some (c, r, es')"
  shows "es' = es \<and> c = TSC_NULL \<or>
    (\<exists>m t0 s s'. msg = Some m \<and> map_of es (cstr (transID m)) = Some (t0, s) \<and> TS_CHANGE nk m s = Some (c, r, s') \<and> es' = tput (cstr (transID m)) s' es) \<or>
    (\<exists>m s'. msg = Some m \<and> map_of es (cstr (transID m)) = None \<and> TS_CHANGE nk m (TTransState_new (\<not> fromwire) (transID m)) = Some (c, r, s') \<and>
      es' = es @ [(cstr (transID m), now, s')])"
proof (cases "msg = None \<or> \<not> hasTransId (the msg)")
  case True
  then show ?thesis using assms by (cases msg) (simp_all add: spec_msg_def)
next
  case False
  then obtain m where m: "msg = Some m" "hasTransId m" by auto
  show ?thesis
  proof (cases "map_of es (cstr (transID m))")
    case None
    then show ?thesis using assms m by (cases "msgName m = COM_MESSAGE_REQ") (auto simp: spec_msg_def bind_Some_iff)
  next
    case (Some ts)
    then show ?thesis using assms m by (cases ts) (auto simp: spec_msg_def bind_Some_iff)
  qed
qed

lemma hist_step:
  assumes "hist_ok F es" "live_call a" "tspec_exec l a es = Some (c, r, es')"
  shows "hist_ok (\<lambda>k. F k @ forwards k [a] [(c, r)]) es'"
proof (cases a)
  case (TMsgCall now nk fromwire msg)
  have nk: "nk \<noteq> 0" using assms(2) TMsgCall by (simp add: live_call_def)
  have "spec_msg now nk fromwire msg es = Some (c, r, es')" using assms(3) TMsgCall by simp
  from spec_msg_cases [OF this] show ?thesis
  proof (elim disjE exE conjE)
    assume "es' = es" "c = TSC_NULL"
    then show ?thesis using assms(1) TMsgCall by (cases msg) auto
  next
    fix m t0 s s' assume h: "msg = Some m" "map_of es (cstr (transID m)) = Some (t0, s)" "TS_CHANGE nk m s = Some (c, r, s')" "es' = tput (cstr (transID m)) s' es"
    show ?thesis unfolding h(4) by (rule hist_old [OF assms(1) nk h(2,3)]) (use TMsgCall h(1) in simp)
  next
    fix m s' assume h: "msg = Some m" "map_of es (cstr (transID m)) = None" "TS_CHANGE nk m (TTransState_new (\<not> fromwire) (transID m)) = Some (c, r, s')"
      "es' = es @ [(cstr (transID m), now, s')]"
    show ?thesis unfolding h(4) by (rule hist_new [OF assms(1) nk h(2,3)]) (use TMsgCall h(1) in simp)
  qed
next
  case (TTimerCall nk tk para)
  have nk: "nk \<noteq> 0" using assms(2) TTimerCall by (simp add: live_call_def)
  obtain p where p: "para = Some p" using assms(3) TTimerCall by (cases para) (simp_all add: spec_timer_def)
  consider "es' = es" | t0 s s' where "map_of es (cstr p) = Some (t0, s)" "TS_CHANGE_timer nk tk s = Some (c, r, s')" "es' = tput (cstr p) s' es"
    using assms(3) TTimerCall p
    by (cases "tk = 0"; cases "map_of es (cstr p)") (auto simp: spec_timer_def bind_Some_iff)
  then have "hist_ok F es'" using assms(1) hist_timer [OF assms(1) nk] by cases auto
  then show ?thesis using TTimerCall by simp
next
  case (TOldCall ct clk)
  then show ?thesis using assms(2) by (simp add: live_call_def)
qed

lemma forwards_Cons: "forwards k (a # as) (x # out) = forwards k [a] [x] @ forwards k as out"
proof (cases a)
  case (TMsgCall now nk fw msg)
  then show ?thesis by (cases msg; cases x) auto
qed auto

lemma hist_run: "hist_ok F es \<Longrightarrow> \<forall>a \<in> set as. live_call a \<Longrightarrow> tspec_run l as es = Some (out, es') \<Longrightarrow> hist_ok (\<lambda>k. F k @ forwards k as out) es'"
proof (induction as arbitrary: F es out)
  case Nil
  then show ?case by simp
next
  case (Cons a as)
  obtain c r es1 out1 where 1: "tspec_exec l a es = Some (c, r, es1)" "tspec_run l as es1 = Some (out1, es')" "out = (c, r) # out1"
    using Cons.prems(3) by (auto simp: bind_Some_iff)
  have "hist_ok (\<lambda>k. (F k @ forwards k [a] [(c, r)]) @ forwards k as out1) es'"
    using Cons.IH [OF hist_step [OF Cons.prems(1) _ 1(1)] _ 1(2)] Cons.prems(2) by simp
  then show ?case using 1(3) forwards_Cons [of _ a as "(c, r)" out1] by simp
qed

text \<open>Property C3. Duplicate suppression of the whole machine: in every sequence of messages and
  timer expiries, from either side and for any number of interleaved transactions, the machine forwards
  under one transaction identifier (as a C string, the way the machine compares them) at most one request
  and then at most one response.\<close>

theorem machine_forwards_once:
  assumes "tspec_run (if l = 0 then 172800 else l) as [] = Some (out, es)" "\<forall>a \<in> set as. live_call a"
  shows "\<exists>t t'. TTransMachine_new = Some t \<and> tm_run as (tminit l t) = Some (out, t') \<and>
    (\<forall>k. \<exists>r. forwards k as out @ r = [COM_MESSAGE_REQ, COM_MESSAGE_RSP])"
proof -
  have "hist_ok (\<lambda>_. []) []" by (simp add: hist_ok_def)
  from hist_run [OF this assms(2,1)] have h: "hist_ok (\<lambda>k. forwards k as out) es" by simp
  have "\<exists>r. forwards k as out @ r = [COM_MESSAGE_REQ, COM_MESSAGE_RSP]" for k
  proof (cases "map_of es k")
    case None
    then show ?thesis using hist_at(2) [OF h] by simp
  next
    case (Some ts)
    then obtain c tid P where "ts_reach c tid (forwards k as out) P (snd ts)" using hist_at(1) [OF h, of k "fst ts" "snd ts"] by auto
    then show ?thesis using ts_inv_prefix [OF ts_reach_inv] by blast
  qed
  then show ?thesis using tm_new_ok [of l] tm_run_ok [OF _ assms(1)] by blast
qed


theorem machine_forwards_once_witness:
  "\<exists>out t t'. TTransMachine_new = Some t \<and> tm_run [TMsgCall 10 5 False (Some (sample_com 100))] (tminit 30 t) = Some (out, t') \<and>
    map fst out = [TSC_FORWARD] \<and>
    (\<forall>k. \<exists>r. forwards k [TMsgCall 10 5 False (Some (sample_com 100))] out @ r = [COM_MESSAGE_REQ, COM_MESSAGE_RSP])"
proof -
  obtain m where m: "uninet_copy (sample_com 100) = Some m" using sample_copy by blast
  obtain out es where r: "tspec_run 30 [TMsgCall 10 5 False (Some (sample_com 100))] [] = Some (out, es)" "map fst out = [TSC_FORWARD]"
    using sample_defs [of 100] m by (auto simp: sample_key spec_msg_def TS_CHANGE_def TSClient_CHANGE_def TTransState_new_def ts_step_defs)
  have "tspec_run (if (30 :: int) = 0 then 172800 else 30) [TMsgCall 10 5 False (Some (sample_com 100))] [] = Some (out, es)" using r by simp
  from machine_forwards_once [OF this] show ?thesis using r(2) unfolding live_call_def by (intro exI [of _ out]) auto
qed

text \<open>Property C22. What expiry reports. The clean-up call answers an expired client transaction with
  408 only as long as no temporary response has arrived; an expired client transaction in
  \<open>TS_TEMPORARY\<close>, which still waits for its response, no longer holds its request and is dropped
  without a report.\<close>

theorem expired_temporary_not_reported:
  assumes "ts_reach True k fw P s" "tm_rel t [(k, t0, s)] l" "ct \<noteq> 0" "l < ct - t0"
  shows "(tsstate s = TS_TEMPORARY \<longrightarrow> (\<exists>t'. processTM_old ct clk 0 t = Some (TSC_NULL, None, t') \<and> tm_rel t' [] l)) \<and>
    (tsstate s = TS_FORWARD \<longrightarrow> (\<exists>m. ts_msg s = Some m \<and> (\<forall>r. genComMsgResp m 408 = Some r \<longrightarrow>
       (\<exists>t'. processTM_old ct clk 0 t = Some (TSC_TIMEOUT, Some r, t') \<and> tm_rel t' [] l))))"
proof (intro conjI impI)
  note inv = ts_reach_inv [OF assms(1)]
  assume "tsstate s = TS_TEMPORARY"
  then have "\<not> reports s" using inv by (simp add: ts_inv_def reports_def)
  then show "\<exists>t'. processTM_old ct clk 0 t = Some (TSC_NULL, None, t') \<and> tm_rel t' [] l"
    using processTM_old_ok [OF assms(2), of ct clk 0 TSC_NULL None "[]"] assms(3,4) by auto
next
  note inv = ts_reach_inv [OF assms(1)]
  assume f: "tsstate s = TS_FORWARD"
  then obtain m where m: "ts_msg s = Some m" using inv by (auto simp: ts_inv_def)
  have "reports s" using f m inv by (simp add: reports_def ts_inv_def)
  then have "\<exists>t'. processTM_old ct clk 0 t = Some (TSC_TIMEOUT, Some r, t') \<and> tm_rel t' [] l" if "genComMsgResp m 408 = Some r" for r
    using processTM_old_ok [OF assms(2), of ct clk 0 TSC_TIMEOUT "Some r" "[]"] assms(3,4) m that by auto
  then show "\<exists>m. ts_msg s = Some m \<and> (\<forall>r. genComMsgResp m 408 = Some r \<longrightarrow>
       (\<exists>t'. processTM_old ct clk 0 t = Some (TSC_TIMEOUT, Some r, t') \<and> tm_rel t' [] l))" using m by blast
qed


theorem expired_temporary_not_reported_witness:
  "\<exists>(s :: TTransState) t. tsstate s = TS_FORWARD \<and> (tsstate s = TS_TEMPORARY \<longrightarrow> (\<exists>t'. processTM_old 100 (\<lambda>_. 0) 0 t = Some (TSC_NULL, None, t') \<and> tm_rel t' [] 30)) \<and>
    (tsstate s = TS_FORWARD \<longrightarrow> (\<exists>m. ts_msg s = Some m \<and> (\<forall>r. genComMsgResp m 408 = Some r \<longrightarrow>
       (\<exists>t'. processTM_old 100 (\<lambda>_. 0) 0 t = Some (TSC_TIMEOUT, Some r, t') \<and> tm_rel t' [] 30))))"
proof -
  obtain m where m: "uninet_copy (sample_com 100) = Some m" using sample_copy by blast
  obtain s where s: "TS_CHANGE 5 (sample_com 100) (TTransState_new True [49]) = Some (TSC_FORWARD, None, s)" "tsstate s = TS_FORWARD"
    using sample_defs [of 100] m by (auto simp: TS_CHANGE_def TSClient_CHANGE_def TTransState_new_def ts_step_defs)
  have r: "ts_reach True [49] [COM_MESSAGE_REQ] (pend (new_acts (TTransState_new True [49]) s) {}) s"
    using ts_reach.recv [OF ts_reach.start _ s(1)] sample_defs(4) by simp
  obtain t0 where t0: "tm_rel (tminit 30 t0) [] 30" using tm_new_ok [of 30] by auto
  have "spec_msg 10 5 False (Some (sample_com 100)) [] = Some (TSC_FORWARD, None, [([49], 10, s)])"
    using s sample_defs [of 100] by (simp add: spec_msg_def sample_key)
  then obtain t where t: "tm_rel t [([49], 10, s)] 30" using processTM_msg_ok [OF t0] by blast
  have "(100 :: int) \<noteq> 0" "(30 :: int) < 100 - 10" by simp_all
  note W = expired_temporary_not_reported [OF r t this, of "\<lambda>_. 0"]
  show ?thesis by (rule exI [of _ s], rule exI [of _ t], rule conjI [OF s(2) W])
qed

section \<open>Transport\<close>

text \<open>One pass of the transport loop never waits and fails no assertion: it takes at
  most twenty messages from the front of the queue, in order, hands the network messages among them to
  the sender in that order, and leaves the others in the queue.\<close>

theorem transport_pass:
  assumes "counted (tp_fifo t)" "length (mFifo (tp_fifo t)) < 2 ^ 64 - 1" "\<not> tp_shutdown t"
  shows "\<exists>t'. transport_process t = Some (True, t') \<and> mFifo (tp_fifo t') = drop 20 (mFifo (tp_fifo t)) \<and>
    tp_sent t' = tp_sent t @ concat (map (\<lambda>m. case m of UniNet u \<Rightarrow> [u] | _ \<Rightarrow> []) (take 20 (mFifo (tp_fifo t))))"
proof -
  have keep: "tp_fifo (transport_handle m t) = tp_fifo t"
    "tp_sent (transport_handle m t) = tp_sent t @ (case m of UniNet u \<Rightarrow> [u] | _ \<Rightarrow> [])" for m t
    by (simp_all add: transport_handle_def postEvent_def split: TMsg.splits)
  have "\<exists>t'. process_fifo n t = Some t' \<and> mFifo (tp_fifo t') = drop n (mFifo (tp_fifo t)) \<and>
    tp_sent t' = tp_sent t @ concat (map (\<lambda>m. case m of UniNet u \<Rightarrow> [u] | _ \<Rightarrow> []) (take n (mFifo (tp_fifo t))))"
    if "counted (tp_fifo t)" "length (mFifo (tp_fifo t)) < 2 ^ 64 - 1" for n t using that
  proof (induction n arbitrary: t)
    case (Suc n)
    have u: "unat (mSize (tp_fifo t)) = length (mFifo (tp_fifo t))" using Suc.prems by (simp add: counted_def unat_of_nat)
    then have a: "mSize (tp_fifo t) \<noteq> - 1" using Suc.prems(2) by (auto simp: unsigned_minus_1_eq_mask mask_eq_exp_minus_1)
    have l: "length (mFifo (tp_fifo t)) < 2 ^ 64" using Suc.prems(2) by simp
    show ?case
    proof (rule take_front_ok [OF Suc.prems(1) l])
      assume "mFifo (tp_fifo t) = []"
      then show ?thesis using a by (simp add: messageAvailable_def)
    next
      fix m ms q' assume q: "mFifo (tp_fifo t) = m # ms" "take_front (tp_fifo t) = (Got m, q')" "mFifo q' = ms" "counted q'"
      then obtain t' where "process_fifo n (transport_handle m (t\<lparr>tp_fifo := q'\<rparr>)) = Some t' \<and> mFifo (tp_fifo t') = drop n ms \<and>
        tp_sent t' = tp_sent t @ (case m of UniNet u \<Rightarrow> [u] | _ \<Rightarrow> []) @ concat (map (\<lambda>m. case m of UniNet u \<Rightarrow> [u] | _ \<Rightarrow> []) (take n ms))"
        using Suc.IH [of "transport_handle m (t\<lparr>tp_fifo := q'\<rparr>)"] Suc.prems(2) by (auto simp: keep)
      then show ?thesis using q a by (simp add: messageAvailable_def getNext_try_def)
    qed
  qed simp
  then obtain t' where "process_fifo 20 t = Some t'" "mFifo (tp_fifo t') = drop 20 (mFifo (tp_fifo t))"
    "tp_sent t' = tp_sent t @ concat (map (\<lambda>m. case m of UniNet u \<Rightarrow> [u] | _ \<Rightarrow> []) (take 20 (mFifo (tp_fifo t))))" using assms by blast
  then show ?thesis using assms(3) by (simp add: transport_process_def)
qed

theorem transport_pass_witness:
  "\<exists>t'. transport_process (TTransport_new TMsgAddress_new) = Some (True, t') \<and>
    mFifo (tp_fifo t') = drop 20 (mFifo (tp_fifo (TTransport_new TMsgAddress_new))) \<and>
    tp_sent t' = tp_sent (TTransport_new TMsgAddress_new) @
      concat (map (\<lambda>m. case m of UniNet u \<Rightarrow> [u] | _ \<Rightarrow> []) (take 20 (mFifo (tp_fifo (TTransport_new TMsgAddress_new)))))"
  by (rule transport_pass) (simp_all add: TTransport_new_def counted_def Fifo_new_def AbstractFifo_new_def)

text \<open>The header in front of every message on the wire can be read back; the test of
  its second byte accepts every value, because the byte is sign-extended before it is compared.\<close>

theorem transmsg_roundtrip:
  assumes "length (tsplit m) = 3" "length (tr_transid m) < 2 ^ 31"
  shows "transmsg_decode (transmsg_encode m @ r) = Some (m, r) \<and> length (transmsg_encode m) = transmsg_size m \<and>
    (transmsg_check m \<longleftrightarrow> tsplit m ! 0 = 0 \<and> tsplit m ! 2 = 0 \<and> 0 < sint (tr_length m))"
proof -
  have "(0xFF :: 32 word) XOR scast (b :: CHAR8) \<noteq> 0" for b
  proof
    assume "(0xFF :: 32 word) XOR scast b = 0"
    then have "bit ((0xFF :: 32 word) XOR scast b) 7 = False" "bit ((0xFF :: 32 word) XOR scast b) 8 = False" by simp_all
    then show False by (simp add: bit_simps)
  qed
  then show ?thesis using assms
    by (simp add: transmsg_decode_def transmsg_encode_def dec_enc_int dec_estr transmsg_size_def transmsg_check_def size_c_def strobj_def)
qed

theorem transmsg_roundtrip_witness:
  "transmsg_decode (transmsg_encode TTransMsg_new @ [9]) = Some (TTransMsg_new, [9]) \<and> length (transmsg_encode TTransMsg_new) = transmsg_size TTransMsg_new \<and>
    (transmsg_check TTransMsg_new \<longleftrightarrow> tsplit TTransMsg_new ! 0 = 0 \<and> tsplit TTransMsg_new ! 2 = 0 \<and> 0 < sint (tr_length TTransMsg_new))"
  by (rule transmsg_roundtrip) (simp_all add: TTransMsg_new_def)

end
