(* ===== verification/TaskContainer.thy ===== *)
theory TaskContainer
  imports TimersSpec MessagesSpec
begin

text \<open>
  Tasks and their containers: \<open>TAbstractTask\<close> (\<open>task/abstracttask.*\<close>),
  \<open>TTaskContainer\<close> (\<open>task/taskcontainer.*\<close>) and \<open>TPSAContainer\<close>
  (\<open>task/psacontainer.*\<close>).

  A container owns its task objects, a timer queue and the message queue the timer queue writes
  to. The virtual functions a task class overrides are the arguments in \<open>task_class\<close>; the
  calls of \<open>procMsg\<close> and \<open>onTimeOut\<close> are logged in the task, and what they call back
  (\<open>sendMsg\<close>, \<open>setTimer\<close>, \<dots>) are the operations below. The configuration file is the
  argument of type \<open>task_env\<close>. Clock readings are inputs. Messages for the frame control are
  results: \<open>ToKernel\<close> for its queue, \<open>ToManager\<close> for the queue of the frame manager.

  \<open>getObjectNameStr\<close> and \<open>waitCount\<close> have no return statement: what a call delivers is an
  argument.
\<close>

section \<open>TAbstractTask\<close>

abbreviation (input) "objtype_Task \<equiv> 5 :: UINT"
abbreviation (input) "TASK_TIMER_NUM \<equiv> 32 :: UINT"

record task_env =
  env_objectType :: UINT
  env_logType :: int
  env_logLevel :: int
  env_logToSyslog :: bool
  env_syslogTaskID :: UINT
  env_timers :: "(UINT \<times> UINT) list"

record TAbstractTask =
  t_objectType :: UINT
  t_taskId :: UINT
  t_hostId :: UINT
  t_containerId :: UINT
  t_phyAddr :: UINT
  t_instId :: UINT
  t_msgCount :: "UINT list"
  t_timerCount :: UINT
  t_currentTime :: int
  t_logType :: int
  t_logLevel :: int
  logToSyslog :: bool
  syslogTaskID :: UINT
  mTME :: "(UINT \<times> UINT) list"
  t_received :: "TUniNetMsg list"
  t_expired :: "(UINT \<times> UINT \<times> addr) list"

definition TAbstractTask_new :: TAbstractTask where
  "TAbstractTask_new = \<lparr>t_objectType = objtype_Task, t_taskId = 0, t_hostId = 0, t_containerId = 0, t_phyAddr = 0, t_instId = 0,
     t_msgCount = replicate 6 0, t_timerCount = 0, t_currentTime = 0, t_logType = 0, t_logLevel = 0, logToSyslog = False,
     syslogTaskID = 10, mTME = [], t_received = [], t_expired = []\<rparr>"

record task_class =
  preTaskStart :: "TAbstractTask \<Rightarrow> bool"
  preTaskShutdown :: "TAbstractTask \<Rightarrow> bool"
  reloadTaskEnv :: "CHAR8 list \<Rightarrow> TAbstractTask \<Rightarrow> bool"
  getStatues :: "CHAR8 list \<Rightarrow> TAbstractTask \<Rightarrow> CHAR8 list"
  getObjectNameStr :: "TAbstractTask \<Rightarrow> CHAR8 list"
  getBuildInfo :: "TAbstractTask \<Rightarrow> CHAR8 list"

datatype tout = ToKernel TMsg | ToManager TMsg

definition task_init :: "task_env \<Rightarrow> UINT \<Rightarrow> UINT \<Rightarrow> UINT \<Rightarrow> TAbstractTask \<Rightarrow> TAbstractTask" where
  "task_init env hostid containerid taskid t = t\<lparr>t_instId := 1, t_containerId := containerid, t_hostId := hostid,
     t_taskId := taskid, t_phyAddr := genPhyAddr hostid containerid, t_logType := env_logType env,
     t_logLevel := env_logLevel env, logToSyslog := env_logToSyslog env, syslogTaskID := env_syslogTaskID env,
     t_objectType := env_objectType env, mTME := env_timers env\<rparr>"

definition task_genTaskInst :: "TAbstractTask \<Rightarrow> UINT" where
  "task_genTaskInst t = t_instId t"

definition task_tuple :: "TAbstractTask \<Rightarrow> STuple" where
  "task_tuple t = \<lparr>taskType = t_objectType t, taskID = t_taskId t, instID = t_containerId t\<rparr>"

definition task_sendMsg :: "TUniNetMsg \<Rightarrow> TAbstractTask \<Rightarrow> tout list" where
  "task_sendMsg m t = [ToKernel (UniNet (m\<lparr>sender := task_tuple t,
     oAddr := \<lparr>logAddr = t_taskId t, phyAddr = t_phyAddr t, taskInstID = t_instId t\<rparr>\<rparr>))]"

definition task_postEvent :: "TEventMsg option \<Rightarrow> TAbstractTask \<Rightarrow> tout list" where
  "task_postEvent msg t = (case msg of None \<Rightarrow> [] | Some m \<Rightarrow> [ToManager (Event (m\<lparr>ev_sender := task_tuple t\<rparr>))])"

definition task_processTimeout :: "UINT \<Rightarrow> UINT \<Rightarrow> addr \<Rightarrow> TAbstractTask \<Rightarrow> TAbstractTask" where
  "task_processTimeout key iid para t = t\<lparr>t_timerCount := t_timerCount t + 1, t_expired := t_expired t @ [(key, iid, para)]\<rparr>"

definition task_process :: "TUniNetMsg \<Rightarrow> TAbstractTask \<Rightarrow> TAbstractTask" where
  "task_process m t = (let t = (if dialogType m \<le> DIALOG_MULTICAST
       then t\<lparr>t_msgCount := (t_msgCount t)[unat (dialogType m) := t_msgCount t ! unat (dialogType m) + 1]\<rparr> else t) in
     t\<lparr>t_received := t_received t @ [m]\<rparr>)"

definition task_onStart :: "task_class \<Rightarrow> TEventMsg \<Rightarrow> TAbstractTask \<Rightarrow> TEventMsg" where
  "task_onStart k rsp t = rsp\<lparr>ev_status := (if preTaskStart k t then 1 else 2)\<rparr>"

definition task_onShutdown :: "task_class \<Rightarrow> TEventMsg \<Rightarrow> TAbstractTask \<Rightarrow> TEventMsg" where
  "task_onShutdown k rsp t = rsp\<lparr>ev_status := (if preTaskShutdown k t then 1 else 2)\<rparr>"

definition task_onHeartBeat :: "TEventMsg \<Rightarrow> TEventMsg" where
  "task_onHeartBeat rsp = rsp\<lparr>ev_status := 1\<rparr>"

text \<open>The words of a command; \<open>split\<close> fills an array of five. Reconnecting the database is left out.\<close>

definition words_of :: "CHAR8 list \<Rightarrow> CHAR8 list list option" where
  "words_of cmd = do { (_, argv) \<leftarrow> split_ws (replicate 5 CStr_new) (strobj cmd); Some (map buf argv) }"

definition word_is :: "CHAR8 list \<Rightarrow> string \<Rightarrow> bool" where
  "word_is w s = eq_cs (Some (lit s)) (strobj w)"

definition task_onReload :: "task_env \<Rightarrow> task_class \<Rightarrow> TEventMsg \<Rightarrow> CHAR8 list \<Rightarrow> TAbstractTask \<times> int \<Rightarrow> (TEventMsg \<times> TAbstractTask \<times> int) option" where
  "task_onReload env k rsp cmd s = do {
     let (t, level) = s;
     scmd \<leftarrow> words_of cmd;
     let (t, level) = (if word_is (scmd ! 0) ''reload'' then
         (let (t, level) = (if word_is (scmd ! 1) ''all'' \<or> word_is (scmd ! 1) ''log''
              then (t\<lparr>t_logType := env_logType env, t_logLevel := env_logLevel env\<rparr>, env_logLevel env) else (t, level));
            t = (if word_is (scmd ! 1) ''all'' \<or> word_is (scmd ! 1) ''timer'' then t\<lparr>mTME := env_timers env\<rparr> else t)
          in (t, level)) else (t, level));
     Some (rsp\<lparr>ev_status := (if reloadTaskEnv k cmd t then 1 else 2)\<rparr>, t, level) }"

definition uint_text :: "UINT \<Rightarrow> CHAR8 list" where
  "uint_text n = int_str (sint n)"

definition task_onStatues :: "task_class \<Rightarrow> TEventMsg \<Rightarrow> CHAR8 list \<Rightarrow> TAbstractTask \<Rightarrow> TEventMsg" where
  "task_onStatues k rsp cmd t = rsp\<lparr>ev_status := 1, eventInfo := eventInfo rsp @
     lit ''             TaskName( '' @ getObjectNameStr k t @ lit '' v'' @ getBuildInfo k t @ lit ''), '' @
     lit ''msgCount: MESSAGE('' @ uint_text (t_msgCount t ! 0) @ lit ''),BEGIN('' @ uint_text (t_msgCount t ! 1) @
     lit ''),CONTINUE('' @ uint_text (t_msgCount t ! 2) @ lit ''),END('' @ uint_text (t_msgCount t ! 3) @
     lit ''),BROADCAST('' @ uint_text (t_msgCount t ! 4) @ lit ''),MULTICAST('' @ uint_text (t_msgCount t ! 5) @
     lit ''),TIMER('' @ uint_text (t_timerCount t) @ lit '')'' @ [13, 10] @ getStatues k cmd t\<rparr>"

definition cLogLevel :: "string list" where
  "cLogLevel = [''[LOG_EMERG]'', ''[LOG_ALERT]'', ''[LOG_CRIT]'', ''[LOG_ERR]'', ''[LOG_WARNING]'', ''[LOG_NOTICE]'',
     ''[LOG_INFO]'', ''[LOG_DEBUG]'']"

text \<open>Both forms of \<open>sysLog\<close>; \<open>ident\<close> is the identifier of the first.\<close>

definition task_sysLog :: "task_class \<Rightarrow> CHAR8 list option \<Rightarrow> int \<Rightarrow> CHAR8 list \<Rightarrow> int \<Rightarrow> TAbstractTask \<Rightarrow> tout list" where
  "task_sysLog k ident level info kind t = (if \<not> logToSyslog t then [] else
     let log = (if 0 \<le> level \<and> level \<le> 7 then lit (cLogLevel ! nat level) else []) @ getObjectNameStr k t @ [32] @
           uint_text (t_taskId t) @ [32] @ uint_text (t_instId t) @ [47] @
           (case ident of None \<Rightarrow> [] | Some i \<Rightarrow> lit ''id='' @ i @ [47]) @ info;
         m = addCtrlMsgHdr (addMsgBody TUniNetMsg_new log) 0 (word_of_int level) (word_of_int kind)
     in task_sendMsg (m\<lparr>tAddr := (tAddr m)\<lparr>logAddr := syslogTaskID t\<rparr>, dialogType := 0\<rparr>) t)"

section \<open>TTaskContainer\<close>

abbreviation (input) "FRAMECONTROL_TASKID \<equiv> 2 :: UINT"
abbreviation (input) "TASKSELECTOR_TASKID \<equiv> 3 :: UINT"
abbreviation (input) "TASKCONTAINER_TASKID \<equiv> 4 :: UINT"
abbreviation (input) "APP_HEATBEAT \<equiv> 11 :: UINT"
abbreviation (input) "APP_INIT \<equiv> 12 :: UINT"
abbreviation (input) "APP_STATUES \<equiv> 14 :: UINT"
abbreviation (input) "APP_RELOAD \<equiv> 15 :: UINT"
abbreviation (input) "APP_SHUTDOWN \<equiv> 16 :: UINT"

text \<open>Sum, average and countdown of the processing times, for messages and timers.\<close>

record steptimes =
  st_sum :: "32 word"
  st_avg :: "32 word"
  st_loop :: "32 word"

definition steptimes_new :: steptimes where
  "steptimes_new = \<lparr>st_sum = 0, st_avg = 0, st_loop = 100\<rparr>"

record TTaskInfo =
  ti_taskType :: UINT
  ti_taskId :: UINT
  ti_task :: TAbstractTask
  ti_msgTimes :: steptimes
  ti_timerTimes :: steptimes

record TTaskContainer =
  mTTQ :: ttq
  c_taskList :: "(UINT, TTaskInfo) stdmap"
  c_hostId :: UINT
  c_containerId :: UINT
  mCheckStepTime :: bool
  mWaitAtQueue :: bool
  mWaitMS :: UINT
  c_msgCount :: UINT
  c_timerCount :: UINT
  c_innerCount :: UINT
  c_msgTimes :: steptimes
  c_timerTimes :: steptimes
  th_logLevel :: int

definition TTaskContainer_new :: TTaskContainer where
  "TTaskContainer_new = \<lparr>mTTQ = TaskTimerQueue_new Fifo_new, c_taskList = [], c_hostId = 0, c_containerId = 0,
     mCheckStepTime = False, mWaitAtQueue = True, mWaitMS = 1000, c_msgCount = 0, c_timerCount = 0, c_innerCount = 0,
     c_msgTimes = steptimes_new, c_timerTimes = steptimes_new, th_logLevel = 0\<rparr>"

definition TPSAContainer_new :: TTaskContainer where
  "TPSAContainer_new = TTaskContainer_new\<lparr>mWaitAtQueue := False, mWaitMS := 0\<rparr>"

definition tc_fifo :: "TTaskContainer \<Rightarrow> TMsg fifo" where
  "tc_fifo c = tq_fifo (mTTQ c)"

definition tc_add :: "TMsg \<Rightarrow> TTaskContainer \<Rightarrow> TTaskContainer" where
  "tc_add m c = c\<lparr>mTTQ := (mTTQ c)\<lparr>tq_fifo := fifo_add m (tc_fifo c)\<rparr>\<rparr>"

definition tc_init :: "UINT \<Rightarrow> UINT \<Rightarrow> TTaskContainer \<Rightarrow> TTaskContainer" where
  "tc_init ctid hostid c = c\<lparr>c_containerId := ctid, c_hostId := hostid\<rparr>"

definition tc_genTaskInst :: "UINT \<Rightarrow> TTaskContainer \<Rightarrow> UINT" where
  "tc_genTaskInst taskid c = (case map_of (c_taskList c) taskid of Some ti \<Rightarrow> task_genTaskInst (ti_task ti) | None \<Rightarrow> 0)"

text \<open>\<open>std::map::insert\<close> keeps an entry that is there.\<close>

definition tc_registerTask :: "task_env \<Rightarrow> UINT \<Rightarrow> TAbstractTask option \<Rightarrow> TTaskContainer \<Rightarrow> bool \<times> TTaskContainer" where
  "tc_registerTask env taskid task c = (case task of
       Some t \<Rightarrow> if taskid > 0 then
           (let t = task_init env (c_hostId c) (c_containerId c) taskid t;
                ti = \<lparr>ti_taskType = t_objectType t, ti_taskId = taskid, ti_task = t, ti_msgTimes = steptimes_new,
                  ti_timerTimes = steptimes_new\<rparr> in
            if map_of (c_taskList c) taskid \<noteq> None then (False, c)
            else (True, c\<lparr>c_taskList := map_insert taskid ti (c_taskList c)\<rparr>))
         else (False, c)
     | None \<Rightarrow> (False, c))"

definition tc_setTimer :: "UINT64 \<Rightarrow> UINT \<Rightarrow> UINT \<Rightarrow> UINT \<Rightarrow> UINT \<Rightarrow> addr \<Rightarrow> TTaskContainer \<Rightarrow> (UINT \<times> TTaskContainer) option" where
  "tc_setTimer now mark delay tid iid para c = (if delay > 0 then do {
       (key, q) \<leftarrow> tq_add now mark delay tid iid para (mTTQ c);
       Some (key, c\<lparr>mTTQ := q\<rparr>) }
     else Some (0, c))"

definition tc_delTimer :: "UINT \<Rightarrow> TTaskContainer \<Rightarrow> TTaskContainer option" where
  "tc_delTimer key c = do { q \<leftarrow> tq_remove key (mTTQ c); Some (c\<lparr>mTTQ := q\<rparr>) }"

text \<open>The timer calls of a task.\<close>

definition task_setTimer :: "UINT64 \<Rightarrow> UINT \<Rightarrow> UINT \<Rightarrow> addr \<Rightarrow> TAbstractTask \<Rightarrow> TTaskContainer \<Rightarrow> (UINT \<times> TTaskContainer) option" where
  "task_setTimer now mark delay para t c = (if delay > 0 then tc_setTimer now mark delay (t_taskId t) 1 para c else Some (0, c))"

definition task_setTimer_id :: "UINT64 \<Rightarrow> UINT \<Rightarrow> addr \<Rightarrow> TAbstractTask \<Rightarrow> TTaskContainer \<Rightarrow> (UINT \<times> TTaskContainer) option" where
  "task_setTimer_id now mark para t c = (if mark < TASK_TIMER_NUM then
       (if unat mark < length (mTME t) then (let (i, d) = mTME t ! unat mark in task_setTimer now i d para t c) else None)
     else Some (0, c))"

section \<open>The container's loop\<close>

record proc_in =
  pi_tie :: "TTimer list \<Rightarrow> nat"
  pi_now :: UINT64
  pi_after :: UINT64
  pi_end :: ulong
  pi_wait :: ulong
  pi_time :: int
  pi_last :: "int \<times> int"
  pi_cur :: "int \<times> int"

definition steptime :: "int \<times> int \<Rightarrow> int \<times> int \<Rightarrow> UINT" where
  "steptime lastTime curTime = word_of_int (((fst curTime - fst lastTime) * 1000000 + snd curTime) - snd lastTime)"

definition count_step :: "UINT \<Rightarrow> steptimes \<Rightarrow> steptimes" where
  "count_step d s = (let sum = st_sum s + d; loop = st_loop s - 1 in
     if loop = 0 then \<lparr>st_sum = 0,
         st_avg = word_of_int (if sint sum < 0 then - ((- sint sum) div 100) else sint sum div 100), st_loop = 100\<rparr>
     else s\<lparr>st_sum := sum, st_loop := loop\<rparr>)"

definition CHECK_STEPTIME_PROCMSG :: "proc_in \<Rightarrow> TTaskInfo \<times> TTaskContainer \<Rightarrow> TTaskInfo \<times> TTaskContainer" where
  "CHECK_STEPTIME_PROCMSG i s = (case s of (ti, c) \<Rightarrow> if mCheckStepTime c then
       (let d = steptime (pi_last i) (pi_cur i) in
        (ti\<lparr>ti_msgTimes := count_step d (ti_msgTimes ti)\<rparr>, c\<lparr>c_msgTimes := count_step d (c_msgTimes c)\<rparr>))
     else (ti, c))"

definition CHECK_STEPTIME_TIMEOUT :: "proc_in \<Rightarrow> TTaskInfo \<times> TTaskContainer \<Rightarrow> TTaskInfo \<times> TTaskContainer" where
  "CHECK_STEPTIME_TIMEOUT i s = (case s of (ti, c) \<Rightarrow> if mCheckStepTime c then
       (let d = steptime (pi_last i) (pi_cur i) in
        (ti\<lparr>ti_timerTimes := count_step d (ti_timerTimes ti)\<rparr>, c\<lparr>c_timerTimes := count_step d (c_timerTimes c)\<rparr>))
     else (ti, c))"

text \<open>\<open>iter->second\<close> is changed in place.\<close>

definition put_info :: "UINT \<Rightarrow> TTaskInfo \<Rightarrow> TTaskContainer \<Rightarrow> TTaskContainer" where
  "put_info tid ti c = c\<lparr>c_taskList := map (\<lambda>e. if fst e = tid then (tid, ti) else e) (c_taskList c)\<rparr>"

definition tc_uninet :: "proc_in \<Rightarrow> TUniNetMsg \<Rightarrow> TTaskContainer \<Rightarrow> TTaskContainer" where
  "tc_uninet i m c = (let tid = logAddr (tAddr m) in if tid \<le> 0 then c else
     case map_of (c_taskList c) tid of None \<Rightarrow> c
     | Some ti \<Rightarrow>
         (let ti = ti\<lparr>ti_task := task_process m ((ti_task ti)\<lparr>t_currentTime := pi_time i\<rparr>)\<rparr>;
              (ti, c) = CHECK_STEPTIME_PROCMSG i (ti, c) in
          put_info tid ti (c\<lparr>c_msgCount := c_msgCount c + 1\<rparr>)))"

definition tc_timeout :: "proc_in \<Rightarrow> TTimeOutMsg \<Rightarrow> TTaskContainer \<Rightarrow> TTaskContainer" where
  "tc_timeout i m c = (let tid = timerTID m in
     case map_of (c_taskList c) tid of None \<Rightarrow> c
     | Some ti \<Rightarrow>
         (let ti = ti\<lparr>ti_task := task_processTimeout (timerKey m) (timerIID m) (timerPara m) ((ti_task ti)\<lparr>t_currentTime := pi_time i\<rparr>)\<rparr>;
              (ti, c) = CHECK_STEPTIME_TIMEOUT i (ti, c) in
          put_info tid ti (c\<lparr>c_timerCount := c_timerCount c + 1\<rparr>)))"

definition genEventRsp :: "TEventMsg \<Rightarrow> TTaskInfo option \<Rightarrow> TTaskContainer \<Rightarrow> TEventMsg" where
  "genEventRsp e info c = TEventMsg_new\<lparr>
     ev_sender := (case info of Some ti \<Rightarrow> \<lparr>taskType = ti_taskType ti, taskID = ti_taskId ti, instID = c_containerId c\<rparr>
       | None \<Rightarrow> \<lparr>taskType = objtype_Kernal, taskID = TASKCONTAINER_TASKID, instID = c_containerId c\<rparr>),
     eventID := eventID e, ev_status := 1, ev_transID := ev_transID e,
     ev_taskID := taskID (ev_sender e), ev_instID := instID (ev_sender e)\<rparr>"

definition genStatus :: "TEventMsg \<Rightarrow> TTaskInfo \<Rightarrow> TTaskContainer \<Rightarrow> TEventMsg" where
  "genStatus rsp ti c = rsp\<lparr>eventInfo := eventInfo rsp @
     lit ''Status: HostID='' @ uint_text (c_hostId c) @ lit '', ContainerID='' @ uint_text (c_containerId c) @
     lit '', TaskID='' @ uint_text (ti_taskId ti) @ [13, 10] @
     lit '' InstStatus: ProcMsgCount('' @ uint_text (c_msgCount c) @ lit ''), ProcTimerMsgCount('' @ uint_text (c_timerCount c) @
     lit ''), ProcEventMsgCount('' @ uint_text (c_innerCount c) @ lit '')'' @ [13, 10] @
     (if mCheckStepTime c then
        lit ''             AvgStepTime(UniMsg='' @ uint_text (st_avg (c_msgTimes c)) @ lit ''ms; TimerMsg='' @
        uint_text (st_avg (c_timerTimes c)) @ lit ''ms)'' @ [13, 10] @
        lit '' TaskStatus: AvgStepTime(UniMsg='' @ uint_text (st_avg (ti_msgTimes ti)) @ lit ''ms; TimerMsg='' @
        uint_text (st_avg (ti_timerTimes ti)) @ lit ''ms)'' @ [13, 10]
      else lit '' TaskStatus:'' @ [13, 10])\<rparr>"

text \<open>One task answers an event; the answer goes to the frame manager.\<close>

definition task_respond :: "task_env \<Rightarrow> task_class \<Rightarrow> TEventMsg \<Rightarrow> TTaskInfo \<Rightarrow> TTaskContainer \<Rightarrow> (TEventMsg \<times> TAbstractTask \<times> int) option" where
  "task_respond env k e ti c = (let rsp = genEventRsp e (Some ti) c; t = ti_task ti; level = th_logLevel c in
     if eventID e = APP_INIT then Some (task_onStart k rsp t, t, level)
     else if eventID e = APP_HEATBEAT then Some (task_onHeartBeat rsp, t, level)
     else if eventID e = APP_RELOAD then task_onReload env k rsp (eventInfo e) (t, level)
     else if eventID e = APP_SHUTDOWN then Some (task_onShutdown k rsp t, t, level)
     else if eventID e = APP_STATUES then Some (task_onStatues k (genStatus rsp ti c) (eventInfo e) t, t, level)
     else Some (rsp, t, level))"

definition task_answer :: "task_env \<Rightarrow> task_class \<Rightarrow> TEventMsg \<Rightarrow> UINT \<Rightarrow> TTaskInfo \<Rightarrow> TTaskContainer \<Rightarrow> (tout list \<times> TTaskContainer) option" where
  "task_answer env k e tid ti c = do {
     (rsp, t, level) \<leftarrow> task_respond env k e ti c;
     Some ([ToManager (Event rsp)],
       put_info tid (ti\<lparr>ti_task := t\<rparr>) (c\<lparr>th_logLevel := level, c_innerCount := c_innerCount c + 1\<rparr>)) }"

fun answer_all :: "task_env \<Rightarrow> task_class \<Rightarrow> TEventMsg \<Rightarrow> UINT list \<Rightarrow> TTaskContainer \<Rightarrow> (tout list \<times> TTaskContainer) option" where
  "answer_all env k e [] c = Some ([], c)"
| "answer_all env k e (tid # tids) c = (case map_of (c_taskList c) tid of None \<Rightarrow> None
     | Some ti \<Rightarrow> do {
         (out, c) \<leftarrow> task_answer env k e tid ti c;
         (outs, c) \<leftarrow> answer_all env k e tids c;
         Some (out @ outs, c) })"

definition event_to_tasks :: "task_env \<Rightarrow> task_class \<Rightarrow> TEventMsg \<Rightarrow> TTaskContainer \<Rightarrow> (tout list \<times> TTaskContainer) option" where
  "event_to_tasks env k e c = (if ev_taskID e > 0 then
       (case map_of (c_taskList c) (ev_taskID e) of None \<Rightarrow> Some ([], c)
        | Some ti \<Rightarrow> task_answer env k e (ev_taskID e) ti c)
     else answer_all env k e (map fst (c_taskList c)) c)"

definition set_stepcheck :: "CHAR8 list list \<Rightarrow> TEventMsg \<Rightarrow> TTaskContainer \<Rightarrow> tout list \<times> TTaskContainer" where
  "set_stepcheck scmd e c = (let c = c\<lparr>mCheckStepTime := word_is (scmd ! 2) ''on''\<rparr>; rsp = genEventRsp e None c in
     ([ToManager (Event (rsp\<lparr>eventInfo := eventInfo rsp @ lit ''stepcheck='' @
        (if mCheckStepTime c then lit ''on'' else lit ''off'')\<rparr>))], c))"

definition set_loglevel :: "CHAR8 list list \<Rightarrow> TEventMsg \<Rightarrow> TTaskContainer \<Rightarrow> tout list \<times> TTaskContainer" where
  "set_loglevel scmd e c = (let c = c\<lparr>th_logLevel := (if word_is (scmd ! 2) ''DEBUG'' then 7 else if word_is (scmd ! 2) ''INFO'' then 6 else 3)\<rparr>;
       rsp = genEventRsp e None c in
     ([ToManager (Event (rsp\<lparr>eventInfo := eventInfo rsp @ lit ''logLevel='' @
        (if scmd ! 2 = [] then lit ''ERROR'' else scmd ! 2)\<rparr>))], c))"

definition tc_event :: "task_env \<Rightarrow> task_class \<Rightarrow> TEventMsg \<Rightarrow> TTaskContainer \<Rightarrow> (tout list \<times> TTaskContainer) option" where
  "tc_event env k e c = (if eventID e = APP_RELOAD then do {
       scmd \<leftarrow> words_of (eventInfo e);
       if word_is (scmd ! 0) ''set'' \<and> word_is (scmd ! 1) ''stepcheck'' then Some (set_stepcheck scmd e c)
       else if word_is (scmd ! 0) ''set'' \<and> word_is (scmd ! 1) ''loglevel'' then Some (set_loglevel scmd e c)
       else event_to_tasks env k e c }
     else event_to_tasks env k e c)"

definition tc_handle :: "task_env \<Rightarrow> task_class \<Rightarrow> proc_in \<Rightarrow> TMsg \<Rightarrow> TTaskContainer \<Rightarrow> (tout list \<times> TTaskContainer) option" where
  "tc_handle env k i m c = (case m of
       UniNet u \<Rightarrow> Some ([], tc_uninet i u c)
     | TimeOut t \<Rightarrow> Some ([], tc_timeout i t c)
     | Event e \<Rightarrow> tc_event env k e c
     | PlainMsg s \<Rightarrow> Some ([], c))"

text \<open>\<open>process\<close>: the timers, then at most one message. A call that is blocked in
  \<open>getNext\<close> continues with \<open>tc_receive\<close>; \<open>None\<close> is a failed assertion.\<close>

definition tc_timers :: "proc_in \<Rightarrow> TTaskContainer \<Rightarrow> (UINT \<times> TTaskContainer) option" where
  "tc_timers i c = do {
     (nextstep, q) \<leftarrow> tq_process (pi_tie i) (pi_now i) (pi_after i) (mTTQ c);
     let c = c\<lparr>mTTQ := q\<rparr>;
     Some (if mWaitAtQueue c then (if nextstep > mWaitMS c then mWaitMS c else nextstep) else 0, c) }"

definition tc_receive :: "task_env \<Rightarrow> task_class \<Rightarrow> proc_in \<Rightarrow> UINT \<Rightarrow> TTaskContainer \<Rightarrow> (bool \<times> tout list \<times> TTaskContainer) option" where
  "tc_receive env k i nextstep c = (let (r, q) = (if nextstep = 0 then getNext_try (tc_fifo c) else getNext_ms_try (pi_end i) (pi_wait i) (tc_fifo c));
       c = c\<lparr>mTTQ := (mTTQ c)\<lparr>tq_fifo := q\<rparr>\<rparr> in
     case r of
       Got m \<Rightarrow> do { (out, c) \<leftarrow> tc_handle env k i m c; Some (True, out, c) }
     | Nothing \<Rightarrow> Some (True, [], c)
     | Waits \<Rightarrow> Some (False, [], c)
     | Abort \<Rightarrow> None
     | Done \<Rightarrow> None)"

definition tc_process :: "task_env \<Rightarrow> task_class \<Rightarrow> proc_in \<Rightarrow> TTaskContainer \<Rightarrow> (bool \<times> tout list \<times> TTaskContainer) option" where
  "tc_process env k i c = do {
     (nextstep, c) \<leftarrow> tc_timers i c;
     tc_receive env k i nextstep c }"

section \<open>TPSAContainer\<close>

text \<open>The limit of the wait for sockets only shrinks, seconds and microseconds apart.\<close>

definition psa_setMilliSeconds :: "nat \<Rightarrow> nat \<times> nat \<Rightarrow> nat \<times> nat" where
  "psa_setMilliSeconds ms t = (let sec = ms div 1000; usec = (ms mod 1000) * 1000 in
     (if fst t > sec then sec else fst t, if snd t > usec then usec else snd t))"

end
