(* ===== verification/TaskContainerSpec.thy ===== *)
theory TaskContainerSpec
  imports TaskContainer
begin

text \<open>
  Properties of the task container: every task gets the messages and timeouts addressed to it, in
  the order of the queue, and answers every event once.
\<close>

section \<open>The table of tasks\<close>

lemma map_of_replace: "map_of (map (\<lambda>e. if fst e = k then (k, v) else e) m) = (if k \<in> dom (map_of m) then (map_of m)(k \<mapsto> v) else map_of m)"
  by (induction m) (auto simp: fun_eq_iff split: if_splits)

lemma put_info_simps [simp]:
  "map_of (c_taskList (put_info tid ti c)) = (if tid \<in> dom (map_of (c_taskList c)) then (map_of (c_taskList c))(tid \<mapsto> ti) else map_of (c_taskList c))"
  "map fst (c_taskList (put_info tid ti c)) = map fst (c_taskList c)"
  "mTTQ (put_info tid ti c) = mTTQ c" "c_containerId (put_info tid ti c) = c_containerId c" "c_hostId (put_info tid ti c) = c_hostId c"
  by (auto simp: put_info_def map_of_replace)

definition task_at :: "TTaskContainer \<Rightarrow> UINT \<Rightarrow> TAbstractTask option" where
  "task_at c tid = map_option ti_task (map_of (c_taskList c) tid)"

text \<open>What the queue holds for a task.\<close>

definition for_task :: "UINT \<Rightarrow> TMsg \<Rightarrow> TUniNetMsg list" where
  "for_task tid m = (case m of UniNet u \<Rightarrow> if logAddr (tAddr u) = tid then [u] else [] | _ \<Rightarrow> [])"

definition timers_for :: "UINT \<Rightarrow> TMsg \<Rightarrow> (UINT \<times> UINT \<times> addr) list" where
  "timers_for tid m = (case m of TimeOut t \<Rightarrow> if timerTID t = tid then [(timerKey t, timerIID t, timerPara t)] else [] | _ \<Rightarrow> [])"

definition command_ok :: "TMsg \<Rightarrow> bool" where
  "command_ok m = (case m of Event e \<Rightarrow> eventID e = APP_RELOAD \<longrightarrow> words_of (eventInfo e) \<noteq> None | _ \<Rightarrow> True)"

text \<open>What a step does to the tasks.\<close>

definition grows :: "UINT \<Rightarrow> TUniNetMsg list \<Rightarrow> (UINT \<times> UINT \<times> addr) list \<Rightarrow> TTaskContainer \<Rightarrow> TTaskContainer \<Rightarrow> bool" where
  "grows tid us xs c c' = (case task_at c tid of None \<Rightarrow> task_at c' tid = None
     | Some t \<Rightarrow> \<exists>t'. task_at c' tid = Some t' \<and> t_received t' = t_received t @ us \<and> t_expired t' = t_expired t @ xs \<and>
         t_taskId t' = t_taskId t)"

lemma grows_refl: "task_at c' tid = task_at c tid \<Longrightarrow> grows tid [] [] c c'"
  by (simp add: grows_def split: option.splits)

lemma grows_trans: "grows tid us xs c c1 \<Longrightarrow> grows tid us' xs' c1 c2 \<Longrightarrow> grows tid (us @ us') (xs @ xs') c c2"
  by (auto simp: grows_def split: option.splits)

lemma put_info_grows:
  assumes "map_of (c_taskList c) k = Some ti" "c_taskList c1 = c_taskList c"
    "t_received (ti_task ti') = t_received (ti_task ti) @ us" "t_expired (ti_task ti') = t_expired (ti_task ti) @ xs"
    "t_taskId (ti_task ti') = t_taskId (ti_task ti)"
  shows "grows tid (if tid = k then us else []) (if tid = k then xs else []) c (put_info k ti' c1)"
  using assms by (auto simp: grows_def task_at_def split: option.splits)

lemma task_process_simps [simp]:
  "t_received (task_process m t) = t_received t @ [m]" "t_expired (task_process m t) = t_expired t"
  "t_taskId (task_process m t) = t_taskId t"
  by (simp_all add: task_process_def Let_def)

lemma check_msg_simps:
  "CHECK_STEPTIME_PROCMSG i (ti, c) = (ti', c') \<Longrightarrow> ti_task ti' = ti_task ti \<and> c_taskList c' = c_taskList c \<and> mTTQ c' = mTTQ c \<and> c_containerId c' = c_containerId c"
  "CHECK_STEPTIME_TIMEOUT i (ti, c) = (ti', c') \<Longrightarrow> ti_task ti' = ti_task ti \<and> c_taskList c' = c_taskList c \<and> mTTQ c' = mTTQ c \<and> c_containerId c' = c_containerId c"
  by (auto simp: CHECK_STEPTIME_PROCMSG_def CHECK_STEPTIME_TIMEOUT_def Let_def split: if_splits)

text \<open>The table keeps its keys.\<close>

definition same_tasks :: "TTaskContainer \<Rightarrow> TTaskContainer \<Rightarrow> bool" where
  "same_tasks c c' = (map fst (c_taskList c') = map fst (c_taskList c) \<and> mTTQ c' = mTTQ c \<and> c_containerId c' = c_containerId c)"

lemma tc_uninet_ok:
  assumes "map_of (c_taskList c) 0 = None"
  shows "grows tid (for_task tid (UniNet m)) [] c (tc_uninet i m c) \<and> same_tasks c (tc_uninet i m c)"
proof (cases "logAddr (tAddr m) = 0 \<or> map_of (c_taskList c) (logAddr (tAddr m)) = None")
  case True
  then have "tc_uninet i m c = c" by (auto simp: tc_uninet_def Let_def)
  moreover have "for_task tid (UniNet m) = [] \<or> task_at c tid = None" using True assms by (auto simp: for_task_def task_at_def)
  ultimately show ?thesis by (auto simp: grows_def same_tasks_def split: option.splits)
next
  case False
  then obtain ti where ti: "map_of (c_taskList c) (logAddr (tAddr m)) = Some ti" by auto
  obtain ti' c' where k: "CHECK_STEPTIME_PROCMSG i (ti\<lparr>ti_task := task_process m ((ti_task ti)\<lparr>t_currentTime := pi_time i\<rparr>)\<rparr>, c) = (ti', c')"
    by force
  have "grows tid (if tid = logAddr (tAddr m) then [m] else []) (if tid = logAddr (tAddr m) then [] else []) c
      (put_info (logAddr (tAddr m)) ti' (c'\<lparr>c_msgCount := c_msgCount c' + 1\<rparr>))"
    by (rule put_info_grows [OF ti]) (use check_msg_simps(1) [OF k] in simp_all)
  then show ?thesis using False ti k check_msg_simps(1) [OF k] by (auto simp: tc_uninet_def Let_def for_task_def same_tasks_def)
qed

lemma tc_timeout_ok: "grows tid [] (timers_for tid (TimeOut m)) c (tc_timeout i m c) \<and> same_tasks c (tc_timeout i m c)"
proof (cases "map_of (c_taskList c) (timerTID m)")
  case None
  then have "tc_timeout i m c = c" "timers_for tid (TimeOut m) = [] \<or> task_at c tid = None" by (auto simp: tc_timeout_def Let_def timers_for_def task_at_def)
  then show ?thesis by (auto simp: grows_def same_tasks_def split: option.splits)
next
  case (Some ti)
  obtain ti' c' where k: "CHECK_STEPTIME_TIMEOUT i (ti\<lparr>ti_task := task_processTimeout (timerKey m) (timerIID m) (timerPara m)
      ((ti_task ti)\<lparr>t_currentTime := pi_time i\<rparr>)\<rparr>, c) = (ti', c')" by force
  have "grows tid (if tid = timerTID m then [] else []) (if tid = timerTID m then [(timerKey m, timerIID m, timerPara m)] else []) c
      (put_info (timerTID m) ti' (c'\<lparr>c_timerCount := c_timerCount c' + 1\<rparr>))"
    by (rule put_info_grows [OF Some]) (use check_msg_simps(2) [OF k] in \<open>simp_all add: task_processTimeout_def\<close>)
  then show ?thesis using Some k check_msg_simps(2) [OF k] by (auto simp: tc_timeout_def Let_def timers_for_def same_tasks_def)
qed

section \<open>Events\<close>

lemma task_onReload_ok:
  assumes "words_of cmd = Some ws"
  shows "\<exists>t' l'. task_onReload env k rsp cmd (t, l) = Some (rsp\<lparr>ev_status := (if reloadTaskEnv k cmd t' then 1 else 2)\<rparr>, t', l') \<and>
    t_received t' = t_received t \<and> t_expired t' = t_expired t \<and> t_taskId t' = t_taskId t"
  using assms by (auto simp: task_onReload_def Let_def)

text \<open>The answer of a task: who answers, to whom, and to which request.\<close>

definition answers :: "TEventMsg \<Rightarrow> UINT \<Rightarrow> TTaskContainer \<Rightarrow> tout \<Rightarrow> bool" where
  "answers e tid c out = (\<exists>r ti. out = ToManager (Event r) \<and> map_of (c_taskList c) tid = Some ti \<and>
     ev_sender r = \<lparr>taskType = ti_taskType ti, taskID = ti_taskId ti, instID = c_containerId c\<rparr> \<and>
     eventID r = eventID e \<and> ev_transID r = ev_transID e \<and> ev_status r \<in> {1, 2} \<and>
     ev_taskID r = taskID (ev_sender e) \<and> ev_instID r = instID (ev_sender e))"

lemma task_respond_ok:
  assumes "command_ok (Event e)"
  shows "\<exists>rsp t l. task_respond env k e ti c = Some (rsp, t, l) \<and> t_received t = t_received (ti_task ti) \<and>
    t_expired t = t_expired (ti_task ti) \<and> t_taskId t = t_taskId (ti_task ti) \<and>
    ev_sender rsp = ev_sender (genEventRsp e (Some ti) c) \<and> eventID rsp = eventID e \<and> ev_transID rsp = ev_transID e \<and>
    ev_status rsp \<in> {1, 2} \<and> ev_taskID rsp = taskID (ev_sender e) \<and> ev_instID rsp = instID (ev_sender e)"
proof (cases "eventID e = APP_RELOAD")
  case True
  then obtain ws where "words_of (eventInfo e) = Some ws" using assms by (auto simp: command_ok_def)
  from task_onReload_ok [OF this, of env k "genEventRsp e (Some ti) c" "ti_task ti" "th_logLevel c"] True
  show ?thesis by (auto simp: task_respond_def Let_def genEventRsp_def)
next
  case False
  then show ?thesis
    by (simp add: task_respond_def Let_def genEventRsp_def task_onStart_def task_onHeartBeat_def task_onShutdown_def task_onStatues_def genStatus_def)
qed

definition kinds :: "TTaskContainer \<Rightarrow> UINT \<Rightarrow> (UINT \<times> UINT) option" where
  "kinds c tid = map_option (\<lambda>t. (ti_taskType t, ti_taskId t)) (map_of (c_taskList c) tid)"

lemma task_answer_ok:
  assumes "map_of (c_taskList c) tid = Some ti" "command_ok (Event e)"
  shows "\<exists>out c'. task_answer env k e tid ti c = Some ([out], c') \<and> answers e tid c out \<and> same_tasks c c' \<and>
    (\<forall>j. grows j [] [] c c') \<and> kinds c' = kinds c"
proof -
  obtain rsp t l where r: "task_respond env k e ti c = Some (rsp, t, l)" "t_received t = t_received (ti_task ti)"
    "t_expired t = t_expired (ti_task ti)" "t_taskId t = t_taskId (ti_task ti)"
    and a: "ev_sender rsp = ev_sender (genEventRsp e (Some ti) c)" "eventID rsp = eventID e" "ev_transID rsp = ev_transID e"
      "ev_status rsp \<in> {1, 2}" "ev_taskID rsp = taskID (ev_sender e)" "ev_instID rsp = instID (ev_sender e)"
    using task_respond_ok [OF assms(2), of env k ti c] by blast
  let ?c = "put_info tid (ti\<lparr>ti_task := t\<rparr>) (c\<lparr>th_logLevel := l, c_innerCount := c_innerCount c + 1\<rparr>)"
  have "grows j (if j = tid then [] else []) (if j = tid then [] else []) c ?c" for j
    by (rule put_info_grows [OF assms(1)]) (simp_all add: r)
  moreover have "kinds ?c = kinds c" using assms(1) by (auto simp: kinds_def fun_eq_iff)
  moreover have "answers e tid c (ToManager (Event rsp))" using a assms(1) by (auto simp: answers_def genEventRsp_def)
  ultimately show ?thesis using r(1) by (auto simp: task_answer_def same_tasks_def)
qed

text \<open>The answers of the tasks named in a list.\<close>

lemma answers_cong: "kinds c' = kinds c \<Longrightarrow> c_containerId c' = c_containerId c \<Longrightarrow> answers e tid c' out = answers e tid c out"
proof -
  have *: "answers e tid c out \<longleftrightarrow> (\<exists>r ty i. out = ToManager (Event r) \<and> kinds c tid = Some (ty, i) \<and>
     ev_sender r = \<lparr>taskType = ty, taskID = i, instID = c_containerId c\<rparr> \<and>
     eventID r = eventID e \<and> ev_transID r = ev_transID e \<and> ev_status r \<in> {1, 2} \<and>
     ev_taskID r = taskID (ev_sender e) \<and> ev_instID r = instID (ev_sender e))" for c
    unfolding answers_def kinds_def by auto
  assume "kinds c' = kinds c" "c_containerId c' = c_containerId c"
  then show ?thesis unfolding * by simp
qed

lemma grows_none: "(\<forall>j. grows j [] [] c c1) \<Longrightarrow> (\<forall>j. grows j [] [] c1 c2) \<Longrightarrow> (\<forall>j. grows j [] [] c c2)"
  using grows_trans [of _ "[]" "[]" c c1 "[]" "[]" c2] by simp

lemma answer_all_ok:
  assumes "command_ok (Event e)" "set tids \<subseteq> fst ` set (c_taskList c)"
  shows "\<exists>outs c'. answer_all env k e tids c = Some (outs, c') \<and> list_all2 (\<lambda>tid out. answers e tid c out) tids outs \<and> same_tasks c c' \<and>
    (\<forall>j. grows j [] [] c c') \<and> kinds c' = kinds c"
  using assms(2)
proof (induction tids arbitrary: c)
  case Nil
  then show ?case by (simp add: same_tasks_def grows_refl)
next
  case (Cons tid tids)
  then have "tid \<in> dom (map_of (c_taskList c))" by (auto simp: dom_map_of_conv_image_fst)
  then obtain ti where ti: "map_of (c_taskList c) tid = Some ti" by auto
  obtain out c1 where c1: "task_answer env k e tid ti c = Some ([out], c1)" "answers e tid c out" "same_tasks c c1"
    "\<forall>j. grows j [] [] c c1" "kinds c1 = kinds c" using task_answer_ok [OF ti assms(1), of env k] by blast
  have ids: "fst ` set (c_taskList c1) = fst ` set (c_taskList c)" "c_containerId c1 = c_containerId c"
    using c1(3) unfolding same_tasks_def by (metis list.set_map)+
  have "set tids \<subseteq> fst ` set (c_taskList c1)" using Cons.prems ids by simp
  from Cons.IH [OF this] obtain outs c' where c': "answer_all env k e tids c1 = Some (outs, c')"
    "list_all2 (\<lambda>tid out. answers e tid c1 out) tids outs" "same_tasks c1 c'" "\<forall>j. grows j [] [] c1 c'" "kinds c' = kinds c1" by blast
  have "list_all2 (\<lambda>tid out. answers e tid c out) tids outs" using c'(2) answers_cong [OF c1(5) ids(2)] by (simp add: list_all2_conv_all_nth)
  then show ?case using ti c1 c' grows_none [OF c1(4) c'(4)] by (auto simp: same_tasks_def)
qed

definition addressed :: "TEventMsg \<Rightarrow> TTaskContainer \<Rightarrow> UINT list" where
  "addressed e c = (if ev_taskID e > 0 then (if task_at c (ev_taskID e) = None then [] else [ev_taskID e])
     else map fst (c_taskList c))"

lemma event_to_tasks_ok:
  assumes "command_ok (Event e)"
  shows "\<exists>outs c'. event_to_tasks env k e c = Some (outs, c') \<and> list_all2 (\<lambda>tid out. answers e tid c out) (addressed e c) outs \<and>
    same_tasks c c' \<and> (\<forall>j. grows j [] [] c c')"
proof (cases "ev_taskID e > 0")
  case True
  show ?thesis
  proof (cases "map_of (c_taskList c) (ev_taskID e)")
    case None
    then show ?thesis using True by (simp add: event_to_tasks_def addressed_def task_at_def same_tasks_def grows_refl)
  next
    case (Some ti)
    then show ?thesis using True task_answer_ok [OF Some assms, of env k] by (auto simp: event_to_tasks_def addressed_def task_at_def)
  qed
next
  case False
  then show ?thesis using answer_all_ok [OF assms, of "map fst (c_taskList c)" c env k] by (auto simp: event_to_tasks_def addressed_def)
qed

lemma set_command_ok:
  "same_tasks c (snd (set_stepcheck ws e c)) \<and> grows j [] [] c (snd (set_stepcheck ws e c))"
  "same_tasks c (snd (set_loglevel ws e c)) \<and> grows j [] [] c (snd (set_loglevel ws e c))"
  by (auto simp: set_stepcheck_def set_loglevel_def Let_def same_tasks_def task_at_def intro!: grows_refl)

lemma tc_event_ok:
  assumes "command_ok (Event e)"
  shows "\<exists>outs c'. tc_event env k e c = Some (outs, c') \<and> same_tasks c c' \<and> (\<forall>j. grows j [] [] c c')"
proof -
  obtain outs c' where ev: "event_to_tasks env k e c = Some (outs, c')" "same_tasks c c'" "\<forall>j. grows j [] [] c c'"
    using event_to_tasks_ok [OF assms] by blast
  show ?thesis
  proof (cases "eventID e = APP_RELOAD")
    case True
    then obtain ws where ws: "words_of (eventInfo e) = Some ws" using assms by (auto simp: command_ok_def)
    obtain o1 c1 o2 c2 where "set_stepcheck ws e c = (o1, c1)" "set_loglevel ws e c = (o2, c2)" by force
    then show ?thesis using True ws ev set_command_ok [of c ws e] by (simp add: tc_event_def)
  qed (use ev in \<open>simp add: tc_event_def\<close>)
qed

text \<open>Handling a message.\<close>

lemma tc_handle_ok:
  assumes "command_ok m" "map_of (c_taskList c) 0 = None"
  shows "\<exists>out c'. tc_handle env k i m c = Some (out, c') \<and> same_tasks c c' \<and> (\<forall>j. grows j (for_task j m) (timers_for j m) c c')"
proof (cases m)
  case (UniNet u)
  then show ?thesis using tc_uninet_ok [OF assms(2), of _ u i] by (simp add: tc_handle_def timers_for_def)
next
  case (Event e)
  then show ?thesis using tc_event_ok [of e env k c] assms(1) by (simp add: tc_handle_def timers_for_def for_task_def)
next
  case (TimeOut t)
  then show ?thesis using tc_timeout_ok [of _ t c i] by (simp add: tc_handle_def for_task_def)
next
  case (PlainMsg s)
  then show ?thesis by (simp add: tc_handle_def timers_for_def for_task_def same_tasks_def grows_refl)
qed

section \<open>Runs of a container\<close>

datatype cstep = CAdd TMsg | CProcess proc_in | CResume UINT proc_in | CSetTimer UINT64 UINT UINT UINT UINT addr | CDelTimer UINT

abbreviation queue :: "TTaskContainer \<Rightarrow> TMsg list" where
  "queue c \<equiv> mFifo (tc_fifo c)"

text \<open>A step, with the messages that enter the queue.\<close>

fun c_exec :: "task_env \<Rightarrow> task_class \<Rightarrow> cstep \<Rightarrow> TTaskContainer \<Rightarrow> (TMsg list \<times> tout list \<times> TTaskContainer) option" where
  "c_exec env k (CAdd m) c = Some ([m], [], tc_add m c)"
| "c_exec env k (CProcess i) c = do {
     (n, d) \<leftarrow> tc_timers i c;
     (r, out, c') \<leftarrow> tc_process env k i c;
     Some (drop (length (queue c)) (queue d), out, c') }"
| "c_exec env k (CResume n i) c = do { (r, out, c') \<leftarrow> tc_receive env k i n c; Some ([], out, c') }"
| "c_exec env k (CSetTimer now mark delay tid iid para) c = do { (key, c') \<leftarrow> tc_setTimer now mark delay tid iid para c; Some ([], [], c') }"
| "c_exec env k (CDelTimer key) c = do { c' \<leftarrow> tc_delTimer key c; Some ([], [], c') }"

fun c_run :: "task_env \<Rightarrow> task_class \<Rightarrow> cstep list \<Rightarrow> TTaskContainer \<Rightarrow> (TMsg list \<times> tout list \<times> TTaskContainer) option" where
  "c_run env k [] c = Some ([], [], c)"
| "c_run env k (p # ps) c = do {
     (ins, out, c) \<leftarrow> c_exec env k p c;
     (ins', out', c) \<leftarrow> c_run env k ps c;
     Some (ins @ ins', out @ out', c) }"

definition step_ok :: "cstep \<Rightarrow> bool" where
  "step_ok p = (case p of CAdd m \<Rightarrow> command_ok m | _ \<Rightarrow> True)"

definition c_inv :: "nat \<Rightarrow> TTaskContainer \<Rightarrow> bool" where
  "c_inv n c = ((\<exists>j \<le> n. tq_inv j (mTTQ c)) \<and> counted (tc_fifo c) \<and> length (queue c) + length (mTimers (mTTQ c)) \<le> n \<and>
     map_of (c_taskList c) 0 = None \<and> (\<forall>m \<in> set (queue c). command_ok m))"

lemma c_inv_mono: "c_inv n c \<Longrightarrow> n \<le> n' \<Longrightarrow> c_inv n' c"
  unfolding c_inv_def by (meson le_trans)

lemma counted_push: "counted q \<Longrightarrow> counted (fifo_add m q)"
  by (simp add: counted_def fifo_add_def push_def)

lemma processTimer_counted: "processTimer t s = Some s' \<Longrightarrow> counted (tq_fifo s) \<Longrightarrow> counted (tq_fifo s')"
  by (auto simp: processTimer_def Let_def bind_Some_iff counted_push split: option.splits if_splits)

lemma process_loop_counted: "process_loop tie now ts s = Some (ts', s') \<Longrightarrow> counted (tq_fifo s) \<Longrightarrow> counted (tq_fifo s')"
proof (induction tie now ts s rule: process_loop.induct)
  case (1 tie now ts s)
  then show ?case by (subst (asm) (2) process_loop.simps) (auto simp: bind_Some_iff split: if_splits dest: processTimer_counted)
qed

lemma same_tasks_none: "same_tasks c c' \<Longrightarrow> (map_of (c_taskList c') j = None) = (map_of (c_taskList c) j = None)"
  unfolding same_tasks_def map_of_eq_None_iff by (metis list.set_map)

lemma tc_receive_ok:
  assumes "c_inv n c" "n < 2 ^ 32"
  shows "\<exists>r out c' h. tc_receive env k i ms c = Some (r, out, c') \<and> c_inv n c' \<and> queue c = h @ queue c' \<and>
    c_containerId c' = c_containerId c \<and> (\<forall>j. grows j (concat (map (for_task j) h)) (concat (map (timers_for j) h)) c c')"
proof -
  have c: "counted (tc_fifo c)" "length (queue c) < 2 ^ 64" "map_of (c_taskList c) 0 = None" using assms by (auto simp: c_inv_def)
  let ?r = "if ms = 0 then getNext_try (tc_fifo c) else getNext_ms_try (pi_end i) (pi_wait i) (tc_fifo c)"
  have idem: "c\<lparr>mTTQ := (mTTQ c)\<lparr>tq_fifo := tc_fifo c\<rparr>\<rparr> = c" by (simp add: tc_fifo_def)
  show ?thesis
  proof (cases rule: take_front_ok [OF c(1,2)])
    case 1
    then have "?r = (Waits, tc_fifo c) \<or> ?r = (Nothing, tc_fifo c)" by (auto simp: getNext_try_def getNext_ms_try_def)
    then have "\<exists>r. tc_receive env k i ms c = Some (r, [], c)" unfolding tc_receive_def by (auto simp: idem)
    then obtain r where "tc_receive env k i ms c = Some (r, [], c)" by blast
    then show ?thesis using assms(1) by (intro exI [of _ r] exI [of _ "[]"] exI [of _ c]) (simp add: grows_refl)
  next
    case (2 m ms' q')
    let ?c = "c\<lparr>mTTQ := (mTTQ c)\<lparr>tq_fifo := q'\<rparr>\<rparr>"
    have r: "?r = (Got m, q')" using 2 by (simp add: getNext_try_def getNext_ms_try_def)
    have inv: "c_inv n ?c" using assms(1) 2 by (auto simp: c_inv_def tc_fifo_def tq_inv_def)
    have "command_ok m" using assms(1) 2(1) by (simp add: c_inv_def)
    then obtain out c' where h: "tc_handle env k i m ?c = Some (out, c')" "same_tasks ?c c'"
      "\<forall>j. grows j (for_task j m) (timers_for j m) ?c c'" using tc_handle_ok [of m ?c env k i] c(3) by auto
    have "tc_receive env k i ms c = Some (True, out, c')" using r h(1) by (simp add: tc_receive_def Let_def)
    moreover have "c_inv n c'" using inv h(2) same_tasks_none [OF h(2)] by (simp add: c_inv_def tc_fifo_def same_tasks_def)
    moreover have "queue c = [m] @ queue c'" using 2 h(2) by (simp add: tc_fifo_def same_tasks_def)
    moreover have "grows j (for_task j m) (timers_for j m) c c'" for j using h(3) by (simp add: grows_def task_at_def)
    moreover have "c_containerId c' = c_containerId c" using h(2) by (simp add: same_tasks_def)
    ultimately show ?thesis by (intro exI [of _ True] exI [of _ out] exI [of _ c'] exI [of _ "[m]"]) simp
  qed
qed

lemma tc_timers_ok:
  assumes "c_inv n c"
  shows "\<exists>t d fired. tc_timers i c = Some (t, d) \<and> c_inv n d \<and> queue d = queue c @ map timeout_of fired \<and> task_at d = task_at c \<and>
    c_containerId d = c_containerId c"
proof -
  obtain j where j: "j \<le> n" "tq_inv j (mTTQ c)" using assms by (auto simp: c_inv_def)
  obtain q fired where q: "tq_process (pi_tie i) (pi_now i) (pi_after i) (mTTQ c) = Some (msTillNextTimer (pi_tie i) (pi_after i) q, q)"
    "tq_inv j q" "passed (pi_now i) (mTimers (mTTQ c)) (mTTQ c) fired (mTimers q) q"
    using tq_process_ok [OF j(2)] by blast
  have cq: "counted (tq_fifo q)"
    using q(1) assms unfolding c_inv_def tc_fifo_def
    by (auto simp: tq_process_def bind_Some_iff split: if_splits dest: process_loop_counted)
  have "mset (mTimers q) = filter_mset (\<lambda>t. \<not> due (pi_now i) t) (mset (mTimers (mTTQ c)))"
    "mset fired \<subseteq># filter_mset (due (pi_now i)) (mset (mTimers (mTTQ c)))"
    using q(3) by (auto simp: passed_def intro: multiset_filter_mono simp: filter_filter_mset [symmetric])
  then have "size (mset (mTimers q)) + size (mset fired) \<le>
      size (filter_mset (\<lambda>t. \<not> due (pi_now i) t) (mset (mTimers (mTTQ c)))) + size (filter_mset (due (pi_now i)) (mset (mTimers (mTTQ c))))"
    using size_mset_mono by (metis add_left_mono)
  also have "\<dots> = size (mset (mTimers (mTTQ c)))" by (metis add.commute multiset_partition size_union)
  finally have len: "length (mTimers q) + length fired \<le> length (mTimers (mTTQ c))" by simp
  have f: "mFifo (tq_fifo q) = mFifo (tq_fifo (mTTQ c)) @ map timeout_of fired" using q(3) by (simp add: passed_def)
  have "\<forall>m \<in> set (map timeout_of fired). command_ok m" by (auto simp: timeout_of_def command_ok_def)
  then have "c_inv n (c\<lparr>mTTQ := q\<rparr>)" using assms j(1) q(2) cq f len by (auto simp: c_inv_def tc_fifo_def)
  then show ?thesis using q(1) f by (auto simp: tc_timers_def Let_def tc_fifo_def task_at_def fun_eq_iff)
qed

lemma c_exec_ok:
  assumes "c_inv n c" "step_ok p" "Suc n < 2 ^ 32"
  shows "\<exists>ins out c' h. c_exec env k p c = Some (ins, out, c') \<and> c_inv (Suc n) c' \<and> queue c @ ins = h @ queue c' \<and>
    c_containerId c' = c_containerId c \<and> (\<forall>j. grows j (concat (map (for_task j) h)) (concat (map (timers_for j) h)) c c')"
proof -
  have keep: ?thesis if "c_exec env k p c = Some ([], [], c')" "c_inv (Suc n) c'" "queue c' = queue c" "c_taskList c' = c_taskList c" "c_containerId c' = c_containerId c" for c'
    using that by (intro exI [of _ "[]"] exI [of _ c']) (auto simp: grows_refl task_at_def)
  obtain j where j: "j \<le> n" "tq_inv j (mTTQ c)" using assms(1) by (auto simp: c_inv_def)
  show ?thesis
  proof (cases p)
    case (CAdd m)
    have "c_inv (Suc n) (tc_add m c)" using assms(1,2) CAdd
      by (auto simp: c_inv_def tc_add_def tc_fifo_def step_ok_def fifo_add_def push_def counted_def tq_inv_def intro: le_SucI)
    then show ?thesis using CAdd
      by (intro exI [of _ "[m]"] exI [of _ "[]"] exI [of _ "tc_add m c"])
        (simp add: tc_add_def tc_fifo_def fifo_add_def push_def grows_refl task_at_def)
  next
    case (CProcess i)
    obtain t d fired where d: "tc_timers i c = Some (t, d)" "c_inv n d" "queue d = queue c @ map timeout_of fired" "task_at d = task_at c" "c_containerId d = c_containerId c"
      using tc_timers_ok [OF assms(1)] by blast
    obtain r out c' h where c': "tc_receive env k i t d = Some (r, out, c')" "c_inv n c'" "queue d = h @ queue c'" "c_containerId c' = c_containerId d"
      "\<forall>j. grows j (concat (map (for_task j) h)) (concat (map (timers_for j) h)) d c'"
      using tc_receive_ok [OF d(2), of env k i t] assms(3) by auto
    have "c_exec env k p c = Some (map timeout_of fired, out, c')" using CProcess d c' by (simp add: tc_process_def)
    then show ?thesis using c_inv_mono [OF c'(2), of "Suc n"] c' d
      by (intro exI [of _ "map timeout_of fired"] exI [of _ out] exI [of _ c'] exI [of _ h]) (simp add: grows_def)
  next
    case (CResume t i)
    then show ?thesis using tc_receive_ok [OF assms(1), of env k i t] assms(3) c_inv_mono [of n _ "Suc n"] by fastforce
  next
    case (CSetTimer now mark delay tid iid para)
    show ?thesis
    proof (cases "delay > 0")
      case True
      obtain key q where q: "tq_add now mark delay tid iid para (mTTQ c) = Some (key, q)" "tq_inv (Suc j) q"
        "mTimers q = TTimer_new now mark key delay tid iid para # mTimers (mTTQ c)" "tq_fifo q = tq_fifo (mTTQ c)"
        using tq_add_ok [OF j(2), of now mark delay tid iid para] assms(3) j(1) by auto
      show ?thesis by (rule keep [of "c\<lparr>mTTQ := q\<rparr>"])
          (use CSetTimer True q j(1) assms(1) in \<open>auto simp: tc_setTimer_def c_inv_def tc_fifo_def\<close>)
    next
      case False
      then show ?thesis using CSetTimer c_inv_mono [OF assms(1), of "Suc n"] by (intro keep [of c]) (auto simp: tc_setTimer_def)
    qed
  next
    case (CDelTimer key)
    obtain q where q: "tq_remove key (mTTQ c) = Some q" "tq_inv j q" "mTimers q = mTimers (mTTQ c)" "tq_fifo q = tq_fifo (mTTQ c)"
      using tq_remove_ok [OF j(2), of key] by blast
    show ?thesis by (rule keep [of "c\<lparr>mTTQ := q\<rparr>"])
        (use CDelTimer q j(1) assms(1) in \<open>auto simp: tc_delTimer_def c_inv_def tc_fifo_def intro: exI [of _ j]\<close>)
  qed
qed

lemma c_run_ok:
  "c_inv n c \<Longrightarrow> \<forall>p \<in> set ps. step_ok p \<Longrightarrow> n + length ps < 2 ^ 32 \<Longrightarrow>
   \<exists>ins out c' h. c_run env k ps c = Some (ins, out, c') \<and> c_inv (n + length ps) c' \<and> queue c @ ins = h @ queue c' \<and>
    (\<forall>j. grows j (concat (map (for_task j) h)) (concat (map (timers_for j) h)) c c')"
proof (induction ps arbitrary: n c)
  case Nil
  then show ?case by (intro exI [of _ "[]"] exI [of _ c]) (simp add: grows_refl)
next
  case (Cons p ps)
  obtain ins out c1 h where 1: "c_exec env k p c = Some (ins, out, c1)" "c_inv (Suc n) c1" "queue c @ ins = h @ queue c1"
    "\<forall>j. grows j (concat (map (for_task j) h)) (concat (map (timers_for j) h)) c c1"
    using c_exec_ok [OF Cons.prems(1), of p env k] Cons.prems(2,3) by auto
  obtain ins' out' c' h' where 2: "c_run env k ps c1 = Some (ins', out', c')" "c_inv (Suc n + length ps) c'" "queue c1 @ ins' = h' @ queue c'"
    "\<forall>j. grows j (concat (map (for_task j) h')) (concat (map (timers_for j) h')) c1 c'"
    using Cons.IH [OF 1(2)] Cons.prems(2,3) by auto
  have "queue c @ ins @ ins' = (h @ h') @ queue c'" using 1(3) 2(3) by (metis append.assoc)
  moreover have "grows j (concat (map (for_task j) (h @ h'))) (concat (map (timers_for j) (h @ h'))) c c'" for j
    using grows_trans 1(4) 2(4) by fastforce
  ultimately show ?case using 1(1) 2(1,2) by (intro exI [of _ "ins @ ins'"] exI [of _ "out @ out'"] exI [of _ c'] exI [of _ "h @ h'"]) simp
qed

section \<open>Properties\<close>

text \<open>A container with its registrations.\<close>

definition tc_built :: "UINT \<Rightarrow> UINT \<Rightarrow> (UINT \<times> task_env \<times> TAbstractTask) list \<Rightarrow> TTaskContainer" where
  "tc_built cid hst regs = fold (\<lambda>(tid, env, t) c. snd (tc_registerTask env tid (Some t) c)) regs (tc_init cid hst TTaskContainer_new)"

lemma tc_registerTask_simps:
  "mTTQ (snd (tc_registerTask env tid t c)) = mTTQ c" "c_containerId (snd (tc_registerTask env tid t c)) = c_containerId c"
  "c_hostId (snd (tc_registerTask env tid t c)) = c_hostId c"
  "sf_ok (c_taskList c) \<Longrightarrow> sf_ok (c_taskList (snd (tc_registerTask env tid t c)))"
  by (auto simp: tc_registerTask_def Let_def map_insert_ok split: option.splits)

lemma tc_registerTask_find:
  assumes "sf_ok (c_taskList c)"
  shows "task_at (snd (tc_registerTask env tid (Some t) c)) j =
    (if j = tid \<and> tid \<noteq> 0 \<and> task_at c tid = None then Some (task_init env (c_hostId c) (c_containerId c) tid t) else task_at c j)"
  using assms map_insert_find [OF assms, of tid]
  by (auto simp: tc_registerTask_def Let_def task_at_def word_gt_0 dom_def)

lemma tc_built_ok:
  "mTTQ (tc_built cid hst regs) = TaskTimerQueue_new Fifo_new \<and> sf_ok (c_taskList (tc_built cid hst regs)) \<and>
   task_at (tc_built cid hst regs) 0 = None \<and> c_containerId (tc_built cid hst regs) = cid"
proof -
  have "mTTQ (fold (\<lambda>(tid, env, t) c. snd (tc_registerTask env tid (Some t) c)) regs c) = mTTQ c \<and>
    sf_ok (c_taskList (fold (\<lambda>(tid, env, t) c. snd (tc_registerTask env tid (Some t) c)) regs c)) \<and>
    task_at (fold (\<lambda>(tid, env, t) c. snd (tc_registerTask env tid (Some t) c)) regs c) 0 = None \<and>
    c_containerId (fold (\<lambda>(tid, env, t) c. snd (tc_registerTask env tid (Some t) c)) regs c) = c_containerId c"
    if "sf_ok (c_taskList c)" "task_at c 0 = None" for c
    using that by (induction regs arbitrary: c) (auto simp: tc_registerTask_simps tc_registerTask_find)
  from this [of "tc_init cid hst TTaskContainer_new"] show ?thesis
    by (simp add: tc_built_def tc_init_def TTaskContainer_new_def sf_ok_def task_at_def)
qed

lemma built_inv: "c_inv 0 (tc_built cid hst regs)"
  using tc_built_ok [of cid hst regs] tq_new_inv [of Fifo_new]
  by (auto simp: c_inv_def tc_fifo_def task_at_def TaskTimerQueue_new_def Fifo_new_def AbstractFifo_new_def counted_def)

text \<open>Property C6. A container dispatches in order. Whatever sequence of additions, timer calls and
  calls of \<open>process\<close> (blocked ones included) a freshly built container sees, up to \<open>2 ^ 32\<close> of them and
  with no reload event whose text cannot be split into five words (\<open>step_ok\<close>), it returns; the messages
  that entered its queue are those it has handled followed by those that wait, in order, and each task has
  received exactly the handled messages with its identifier as logical address and exactly the handled
  timeouts of its own timers, in order.\<close>

theorem container_in_order:
  assumes "\<forall>p \<in> set ps. step_ok p" "length ps < 2 ^ 32"
  shows "\<exists>ins out c handled. c_run env k ps (tc_built cid hst regs) = Some (ins, out, c) \<and> ins = handled @ mFifo (tc_fifo c) \<and>
    (\<forall>tid t. task_at (tc_built cid hst regs) tid = Some t \<longrightarrow> (\<exists>t'. task_at c tid = Some t' \<and>
       t_received t' = t_received t @ concat (map (for_task tid) handled) \<and>
       t_expired t' = t_expired t @ concat (map (timers_for tid) handled)))"
proof -
  have q: "queue (tc_built cid hst regs) = []"
    using tc_built_ok [of cid hst regs] by (simp add: tc_fifo_def TaskTimerQueue_new_def Fifo_new_def AbstractFifo_new_def)
  have inv: "c_inv 0 (tc_built cid hst regs)" by (rule built_inv)
  obtain ins out c h where "c_run env k ps (tc_built cid hst regs) = Some (ins, out, c)" "ins = h @ queue c"
    "\<forall>j. grows j (concat (map (for_task j) h)) (concat (map (timers_for j) h)) (tc_built cid hst regs) c"
    using c_run_ok [OF inv assms(1), of env k] assms(2) q by auto
  then show ?thesis unfolding grows_def
    by (intro exI [of _ ins] exI [of _ out] exI [of _ c] exI [of _ h]) (auto split: option.splits)
qed

definition sample_env :: task_env where
  "sample_env = \<lparr>env_objectType = objtype_Task, env_logType = 0, env_logLevel = 3, env_logToSyslog = False, env_syslogTaskID = 10,
     env_timers = replicate 32 (0, 0)\<rparr>"

definition sample_class :: task_class where
  "sample_class = \<lparr>preTaskStart = (\<lambda>_. True), preTaskShutdown = (\<lambda>_. False), reloadTaskEnv = (\<lambda>_ _. True),
     getStatues = (\<lambda>_ _. []), getObjectNameStr = (\<lambda>_. []), getBuildInfo = (\<lambda>_. [])\<rparr>"

definition sample_in :: proc_in where
  "sample_in = \<lparr>pi_tie = (\<lambda>_. 0), pi_now = 100, pi_after = 100, pi_end = 5, pi_wait = 5, pi_time = 7, pi_last = (0, 0), pi_cur = (0, 0)\<rparr>"

definition mail_to :: "UINT \<Rightarrow> TUniNetMsg" where
  "mail_to tid = TUniNetMsg_new\<lparr>tAddr := \<lparr>logAddr = tid, phyAddr = 0, taskInstID = 0\<rparr>\<rparr>"

theorem container_in_order_witness:
  "\<exists>ins out c handled. c_run sample_env sample_class [CAdd (UniNet (mail_to 1001)), CAdd (UniNet (mail_to 1002)), CProcess sample_in]
      (tc_built 1 7 [(1001, sample_env, TAbstractTask_new)]) = Some (ins, out, c) \<and> ins = handled @ mFifo (tc_fifo c) \<and>
    (\<forall>tid t. task_at (tc_built 1 7 [(1001, sample_env, TAbstractTask_new)]) tid = Some t \<longrightarrow> (\<exists>t'. task_at c tid = Some t' \<and>
       t_received t' = t_received t @ concat (map (for_task tid) handled) \<and>
       t_expired t' = t_expired t @ concat (map (timers_for tid) handled)))"
  by (rule container_in_order) (simp_all add: step_ok_def command_ok_def)

text \<open>The commands of a reload event that are for the container itself.\<close>

definition for_container :: "TEventMsg \<Rightarrow> bool" where
  "for_container e = (eventID e = APP_RELOAD \<and> (\<exists>scmd. words_of (eventInfo e) = Some scmd \<and> word_is (scmd ! 0) ''set'' \<and>
     (word_is (scmd ! 1) ''stepcheck'' \<or> word_is (scmd ! 1) ''loglevel'')))"

definition container_answers :: "TEventMsg \<Rightarrow> TTaskContainer \<Rightarrow> tout \<Rightarrow> bool" where
  "container_answers e c out = (\<exists>r. out = ToManager (Event r) \<and>
     ev_sender r = \<lparr>taskType = objtype_Kernal, taskID = TASKCONTAINER_TASKID, instID = c_containerId c\<rparr> \<and>
     eventID r = eventID e \<and> ev_transID r = ev_transID e \<and> ev_status r = 1 \<and>
     ev_taskID r = taskID (ev_sender e) \<and> ev_instID r = instID (ev_sender e))"

lemma set_stepcheck_ok:
  "\<exists>out c'. set_stepcheck scmd e c = ([out], c') \<and> container_answers e c out \<and> c_taskList c' = c_taskList c \<and> tc_fifo c' = tc_fifo c"
  by (auto simp: set_stepcheck_def container_answers_def genEventRsp_def tc_fifo_def Let_def)

lemma set_loglevel_ok:
  "\<exists>out c'. set_loglevel scmd e c = ([out], c') \<and> container_answers e c out \<and> c_taskList c' = c_taskList c \<and> tc_fifo c' = tc_fifo c"
  by (auto simp: set_loglevel_def container_answers_def genEventRsp_def tc_fifo_def Let_def)

text \<open>Property C24. Every event is answered exactly once by each of those it is for. A reload with the
  command \<open>set stepcheck\<close> or \<open>set loglevel\<close> is answered by the container alone, whatever task it names,
  and no task sees it. Every other event for task 0 is answered by every task of the container, in the
  order of their identifiers; one for a registered task by that task alone, one for any other task by
  none. Each answer goes to the frame manager, names the task and the container (or the container) as its
  sender, carries the event and transaction of the request, is addressed to the requester and has status 1
  or 2. The tasks of the container stay the same and no task loses a message by it. The text of a reload
  event has to be one that can be split into five words (\<open>command_ok\<close>).\<close>

theorem event_answered_once:
  assumes "command_ok (Event e)"
  shows "\<exists>outs c'. tc_event env k e c = Some (outs, c') \<and>
    (if for_container e then \<exists>out. outs = [out] \<and> container_answers e c out \<and> c_taskList c' = c_taskList c
     else list_all2 (\<lambda>tid out. answers e tid c out)
      (if ev_taskID e = 0 then map fst (c_taskList c) else if task_at c (ev_taskID e) = None then [] else [ev_taskID e]) outs) \<and>
    map fst (c_taskList c') = map fst (c_taskList c) \<and> mFifo (tc_fifo c') = mFifo (tc_fifo c)"
proof (cases "for_container e")
  case True
  then obtain scmd where s: "eventID e = APP_RELOAD" "words_of (eventInfo e) = Some scmd" "word_is (scmd ! 0) ''set''"
    "word_is (scmd ! 1) ''stepcheck'' \<or> word_is (scmd ! 1) ''loglevel''" unfolding for_container_def by blast
  then have "tc_event env k e c = Some (if word_is (scmd ! 1) ''stepcheck'' then set_stepcheck scmd e c else set_loglevel scmd e c)"
    by (auto simp: tc_event_def)
  then show ?thesis using True set_stepcheck_ok [of scmd e c] set_loglevel_ok [of scmd e c]
    by (cases "word_is (scmd ! 1) ''stepcheck''") auto
next
  case False
  have "tc_event env k e c = event_to_tasks env k e c"
  proof (cases "eventID e = APP_RELOAD")
    case True
    then obtain scmd where "words_of (eventInfo e) = Some scmd" using assms by (auto simp: command_ok_def)
    then show ?thesis using False True by (auto simp: tc_event_def for_container_def)
  qed (simp add: tc_event_def)
  with event_to_tasks_ok [OF assms, of env k c] show ?thesis
    using False by (auto simp: addressed_def word_gt_0 same_tasks_def tc_fifo_def)
qed

theorem event_answered_once_witness:
  "command_ok (Event (TEventMsg_new\<lparr>eventID := 12\<rparr>)) \<and>
   (\<exists>outs c'. tc_event sample_env sample_class (TEventMsg_new\<lparr>eventID := 12\<rparr>) (tc_built 1 7 [(1001, sample_env, TAbstractTask_new)]) = Some (outs, c') \<and>
    list_all2 (\<lambda>tid out. answers (TEventMsg_new\<lparr>eventID := 12\<rparr>) tid (tc_built 1 7 [(1001, sample_env, TAbstractTask_new)]) out) [1001] outs)"
proof -
  let ?c = "tc_built 1 7 [(1001, sample_env, TAbstractTask_new)]"
  have e: "command_ok (Event (TEventMsg_new\<lparr>eventID := 12\<rparr>))" "\<not> for_container (TEventMsg_new\<lparr>eventID := 12\<rparr>)"
    "ev_taskID (TEventMsg_new\<lparr>eventID := 12\<rparr>) = 0" by (simp_all add: TEventMsg_new_def command_ok_def for_container_def)
  have "map fst (c_taskList ?c) = [1001]"
    by (simp add: tc_built_def tc_registerTask_def Let_def tc_init_def TTaskContainer_new_def)
  then show ?thesis using event_answered_once [OF e(1), of sample_env sample_class ?c] e by auto
qed

text \<open>The limit of the wait for sockets is not the shortest of the requested times: a request for a whole
  second makes the wait of a new container vanish.\<close>

lemma psa_wait_vanishes: "psa_setMilliSeconds 1000 (0, 500000) = (0, 0)"
  by (simp add: psa_setMilliSeconds_def Let_def)

end
