(* ===== verification/TaskSelector.thy ===== *)
theory TaskSelector
  imports CListSpec ExpireBufferSpec TaskContainer
begin

text \<open>
  The dispatcher of the kernel thread: \<open>TTaskSelector\<close> (\<open>kernel/taskselector.*\<close>), with the call of
  \<open>TFRAMEControl::post\<close> it uses.

  The tables, the instance list of a task and the dialog buffers are the structures of
  \<open>comserv\<close>, with pointers as values: \<open>s_tcs\<close>, \<open>s_inst\<close> and \<open>s_task\<close> map the addresses of the
  allocated state objects to their contents, \<open>containers\<close> those of the containers. Following a
  pointer that is not allocated is \<open>None\<close>. \<open>time(0)\<close> is the input \<open>now\<close>; \<open>wc\<close> gives what
  \<open>waitCount()\<close> of a container delivers. A call that takes over a message tells whether it
  has deleted or passed on the object (\<open>gone\<close>).
\<close>

section \<open>State\<close>

abbreviation (input) "BalanceCountNumber \<equiv> 100 :: UINT"

record TaskContainerState =
  tcid :: UINT
  tc :: addr
  waitCount :: UINT

record InstState =
  is_weight :: UINT
  is_count :: UINT
  is_shuttingDown :: bool
  is_tcid :: UINT
  is_tcs :: addr

record TaskState =
  tk_taskid :: UINT
  tk_instpos :: UINT
  tk_count :: UINT
  tk_balanceCount :: UINT
  tk_inst :: "addr dll"

record TaskKey =
  key_tcid :: UINT
  key_tiid :: UINT

record TTaskSelector =
  mContainerList :: "(UINT, addr) htable"
  mTaskList :: "(UINT, addr) htable"
  s_tcs :: "addr \<rightharpoonup> TaskContainerState"
  s_inst :: "addr \<rightharpoonup> InstState"
  s_task :: "addr \<rightharpoonup> TaskState"
  s_brk :: addr
  containers :: "addr \<rightharpoonup> TTaskContainer"
  mIntDialog :: "(UINT, TaskKey) ebuf"
  mStrDialog :: "(CHAR8 list, TaskKey) ebuf"
  mCurrentTime :: int
  registeredTaskAmount :: "32 word"
  registeredInstAmount :: "32 word"
  sendMsgToTaskCount :: "32 word"
  multicastMsgCount :: "32 word"
  broadcastMsgCount :: "32 word"

abbreviation "uh_put \<equiv> put_v CompareKey (GetHash :: UINT \<Rightarrow> _)"
abbreviation "uh_get \<equiv> get_r CompareKey (GetHash :: UINT \<Rightarrow> _)"
abbreviation "uh_contains \<equiv> containsKey CompareKey (GetHash :: UINT \<Rightarrow> _)"

text \<open>The constructor leaves the counters unset; \<open>init\<close>, which sets them, is called by
  nobody. They start as \<open>g\<close>.\<close>

definition TTaskSelector_new :: "32 word \<Rightarrow> TTaskSelector option" where
  "TTaskSelector_new g = do {
     i \<leftarrow> eb_new 0 False 172800;
     s \<leftarrow> eb_new 0 False 172800;
     Some \<lparr>mContainerList = CHashTable_new, mTaskList = CHashTable_new, s_tcs = Map.empty, s_inst = Map.empty,
       s_task = Map.empty, s_brk = 1, containers = Map.empty, mIntDialog = i, mStrDialog = s, mCurrentTime = 0,
       registeredTaskAmount = g, registeredInstAmount = g, sendMsgToTaskCount = g, multicastMsgCount = g,
       broadcastMsgCount = g\<rparr> }"

definition sel_init :: "TTaskSelector \<Rightarrow> TTaskSelector option" where
  "sel_init s = do {
     c \<leftarrow> ht_clear (mContainerList s);
     t \<leftarrow> ht_clear (mTaskList s);
     i \<leftarrow> eb_clear (mIntDialog s);
     d \<leftarrow> eb_clear (mStrDialog s);
     Some (s\<lparr>mContainerList := c, mTaskList := t, mIntDialog := i, mStrDialog := d, registeredTaskAmount := 0,
       registeredInstAmount := 0, sendMsgToTaskCount := 0, multicastMsgCount := 0, broadcastMsgCount := 0\<rparr>) }"

definition setCurrentTime :: "int \<Rightarrow> TTaskSelector \<Rightarrow> TTaskSelector" where
  "setCurrentTime t s = s\<lparr>mCurrentTime := t\<rparr>"

definition setRecycleTime :: "int \<Rightarrow> TTaskSelector \<Rightarrow> TTaskSelector" where
  "setRecycleTime ct s = s\<lparr>mIntDialog := eb_setLivingTime (mIntDialog s) ct, mStrDialog := eb_setLivingTime (mStrDialog s) ct\<rparr>"

section \<open>Registration\<close>

definition registerContainer :: "UINT \<Rightarrow> addr \<Rightarrow> TTaskSelector \<Rightarrow> (bool \<times> TTaskSelector) option" where
  "registerContainer cid ptc s = (if cid = 0 \<or> ptc = NULL then Some (False, s)
     else if uh_contains (mContainerList s) cid then Some (False, s)
     else do {
       let p = s_brk s;
       ht \<leftarrow> uh_put (mContainerList s) cid p;
       Some (True, s\<lparr>s_tcs := (s_tcs s)(p \<mapsto> \<lparr>tcid = cid, tc = ptc, waitCount = 0\<rparr>), s_brk := Suc p, mContainerList := ht,
         registeredInstAmount := registeredInstAmount s + 1\<rparr>) })"

definition InstState_new :: "UINT \<Rightarrow> addr \<Rightarrow> InstState" where
  "InstState_new cid p = \<lparr>is_weight = 0, is_count = 0, is_shuttingDown = False, is_tcid = cid, is_tcs = p\<rparr>"

definition TaskState_new :: "UINT \<Rightarrow> addr dll \<Rightarrow> TaskState" where
  "TaskState_new tid l = \<lparr>tk_taskid = tid, tk_instpos = 0, tk_count = 0, tk_balanceCount = 0, tk_inst = l\<rparr>"

definition enlist :: "UINT \<Rightarrow> addr \<Rightarrow> TTaskSelector \<Rightarrow> (bool \<times> TTaskSelector) option" where
  "enlist taskid is s = (if \<not> uh_contains (mTaskList s) taskid then do {
       il \<leftarrow> CList_new;
       (_, il) \<leftarrow> push_back_r il is;
       let p = s_brk s;
       ht \<leftarrow> uh_put (mTaskList s) taskid p;
       Some (True, s\<lparr>s_task := (s_task s)(p \<mapsto> TaskState_new taskid il), s_brk := Suc p, mTaskList := ht,
         registeredTaskAmount := registeredTaskAmount s + 1\<rparr>) }
     else (case uh_get (mTaskList s) taskid of
         Some p \<Rightarrow> if p \<noteq> NULL then do {
             ts \<leftarrow> s_task s p;
             (lsize, il) \<leftarrow> push_back_r (tk_inst ts) is;
             Some (True, s\<lparr>s_task := (s_task s)(p \<mapsto>
               ts\<lparr>tk_inst := il, tk_balanceCount := word_of_int lsize * BalanceCountNumber\<rparr>)\<rparr>) }
           else Some (False, s)
       | None \<Rightarrow> Some (False, s)))"

definition registerTask :: "task_env \<Rightarrow> UINT \<Rightarrow> UINT \<Rightarrow> TAbstractTask option \<Rightarrow> TTaskSelector \<Rightarrow> (bool \<times> TTaskSelector) option" where
  "registerTask env taskid cid task s = (if taskid \<le> 0 \<or> cid \<le> 0 \<or> task = None then Some (False, s)
     else case uh_get (mContainerList s) cid of None \<Rightarrow> Some (False, s)
       | Some ptcs \<Rightarrow> if ptcs = NULL then Some (False, s) else do {
           tcs \<leftarrow> s_tcs s ptcs;
           c \<leftarrow> containers s (tc tcs);
           let (ok, c) = tc_registerTask env taskid task c;
           let s = s\<lparr>containers := (containers s)(tc tcs \<mapsto> c)\<rparr>;
           if \<not> ok then Some (False, s) else do {
             let is = s_brk s;
             let s = s\<lparr>s_inst := (s_inst s)(is \<mapsto> InstState_new cid ptcs), s_brk := Suc is\<rparr>;
             enlist taskid is s } })"

section \<open>Choice of an instance\<close>

text \<open>The instances of a task in list order; the loops over them do not change the list.\<close>

definition insts_of :: "addr dll \<Rightarrow> addr list option" where
  "insts_of l = do { vs \<leftarrow> iter_collect l (iter_begin l); those vs }"

fun measure_load :: "(addr \<Rightarrow> UINT) \<Rightarrow> addr list \<Rightarrow> UINT \<Rightarrow> TTaskSelector \<Rightarrow> (UINT \<times> TTaskSelector) option" where
  "measure_load wc [] acc s = Some (acc, s)"
| "measure_load wc (p # ps) acc s = (if p = NULL then measure_load wc ps acc s else do {
     is \<leftarrow> s_inst s p;
     tcs \<leftarrow> s_tcs s (is_tcs is);
     let w = wc (tc tcs);
     measure_load wc ps (acc + w) (s\<lparr>s_tcs := (s_tcs s)(is_tcs is \<mapsto> tcs\<lparr>waitCount := w\<rparr>)\<rparr>) })"

fun set_weights :: "UINT \<Rightarrow> addr list \<Rightarrow> TTaskSelector \<Rightarrow> TTaskSelector option" where
  "set_weights avg [] s = Some s"
| "set_weights avg (p # ps) s = do {
     is \<leftarrow> s_inst s p;
     tcs \<leftarrow> s_tcs s (is_tcs is);
     set_weights avg ps (s\<lparr>s_inst := (s_inst s)(p \<mapsto>
       is\<lparr>is_weight := (if waitCount tcs > avg + BalanceCountNumber then 1 else 0)\<rparr>)\<rparr>) }"

definition balanceCheck :: "(addr \<Rightarrow> UINT) \<Rightarrow> addr \<Rightarrow> TTaskSelector \<Rightarrow> TTaskSelector option" where
  "balanceCheck wc p s = (if p = NULL then Some s else do {
     ts \<leftarrow> s_task s p;
     ps \<leftarrow> insts_of (tk_inst ts);
     (sum, s) \<leftarrow> measure_load wc ps 0 s;
     if clist_count (tk_inst ts) = 1 then Some s
     else set_weights (sum div word_of_int (clist_count (tk_inst ts))) ps s })"

text \<open>An instance is used: the counters, and a balance check now and then.\<close>

definition use_instance :: "(addr \<Rightarrow> UINT) \<Rightarrow> addr \<Rightarrow> addr \<Rightarrow> InstState \<Rightarrow> TaskState \<Rightarrow> TTaskSelector \<Rightarrow> (addr \<times> TTaskSelector) option" where
  "use_instance wc p is i ts s = do {
     let ts = ts\<lparr>tk_count := tk_count ts + 1\<rparr>;
     let s = s\<lparr>s_task := (s_task s)(p \<mapsto> ts), s_inst := (s_inst s)(is \<mapsto> i\<lparr>is_count := is_count i + 1\<rparr>)\<rparr>;
     s \<leftarrow> (if tk_count ts > tk_balanceCount ts then do {
            s \<leftarrow> balanceCheck wc p s;
            ts \<leftarrow> s_task s p;
            Some (s\<lparr>s_task := (s_task s)(p \<mapsto> ts\<lparr>tk_count := 0\<rparr>)\<rparr>) }
          else Some s);
     Some (is_tcs i, s) }"

text \<open>The round of \<open>getTask\<close> over at most \<open>count()\<close> instances; \<open>is\<close> keeps its value when
  \<open>next_d\<close> stores nothing.\<close>

fun getTask_loop :: "(addr \<Rightarrow> UINT) \<Rightarrow> nat \<Rightarrow> addr \<Rightarrow> addr \<Rightarrow> TTaskSelector \<Rightarrow> (addr \<times> TTaskSelector) option" where
  "getTask_loop wc 0 p is s = Some (NULL, s)"
| "getTask_loop wc (Suc n) p is s = do {
     ts \<leftarrow> s_task s p;
     ((b, v), il) \<leftarrow> next_d (tk_inst ts);
     let is = (case v of Some q \<Rightarrow> q | None \<Rightarrow> is);
     let ts = ts\<lparr>tk_inst := il\<rparr>;
     let s = s\<lparr>s_task := (s_task s)(p \<mapsto> ts)\<rparr>;
     if b \<and> is \<noteq> NULL then do {
       let pos = tk_instpos ts + 1;
       let ts = ts\<lparr>tk_instpos := (if uint pos \<ge> clist_count il then 0 else pos)\<rparr>;
       let s = s\<lparr>s_task := (s_task s)(p \<mapsto> ts)\<rparr>;
       i \<leftarrow> s_inst s is;
       if is_weight i = 0 \<and> \<not> is_shuttingDown i then use_instance wc p is i ts s
       else getTask_loop wc n p is s }
     else getTask_loop wc n p is s }"

definition getTask :: "(addr \<Rightarrow> UINT) \<Rightarrow> UINT \<Rightarrow> UINT \<Rightarrow> TTaskSelector \<Rightarrow> (addr \<times> TTaskSelector) option" where
  "getTask wc taskid cid s = (
     if taskid > 0 \<and> cid > 0 \<and> uh_get (mContainerList s) cid \<noteq> None then Some (the (uh_get (mContainerList s) cid), s)
     else if taskid > 0 \<and> cid = 0 then
       (case uh_get (mTaskList s) taskid of None \<Rightarrow> Some (NULL, s)
        | Some p \<Rightarrow> if p = NULL then Some (NULL, s) else do {
            ts \<leftarrow> s_task s p;
            if clist_count (tk_inst ts) \<le> 0 then Some (NULL, s)
            else if clist_count (tk_inst ts) = 1 then do {
              ((b, v), il) \<leftarrow> front_v (tk_inst ts);
              let s = s\<lparr>s_task := (s_task s)(p \<mapsto> ts\<lparr>tk_inst := il\<rparr>)\<rparr>;
              if b then do { is \<leftarrow> v; i \<leftarrow> s_inst s is; Some (is_tcs i, s) } else Some (NULL, s) }
            else do {
              (b, il) \<leftarrow> reset_pos (tk_inst ts) (sint (tk_instpos ts));
              let s = s\<lparr>s_task := (s_task s)(p \<mapsto> ts\<lparr>tk_inst := il\<rparr>)\<rparr>;
              if b then getTask_loop wc (nat (clist_count il)) p NULL s else Some (NULL, s) } })
     else Some (NULL, s))"

section \<open>Delivery\<close>

definition deliver :: "addr \<Rightarrow> TMsg \<Rightarrow> TTaskSelector \<Rightarrow> TTaskSelector option" where
  "deliver p m s = do {
     c \<leftarrow> containers s p;
     Some (s\<lparr>containers := (containers s)(p \<mapsto> tc_add m c)\<rparr>) }"

text \<open>The containers in the order of \<open>reset\<close> and \<open>getNext\<close>.\<close>

definition all_tcs :: "TTaskSelector \<Rightarrow> (addr list \<times> TTaskSelector) option" where
  "all_tcs s = do {
     (kvs, ht) \<leftarrow> enum_collect (snd (ht_reset (mContainerList s)));
     Some (map snd kvs, s\<lparr>mContainerList := ht\<rparr>) }"

fun event_to_insts :: "TEventMsg \<Rightarrow> addr list \<Rightarrow> bool \<times> TTaskSelector \<Rightarrow> (bool \<times> TTaskSelector) option" where
  "event_to_insts msg [] s = Some s"
| "event_to_insts msg (p # ps) (found, s) = do {
     i \<leftarrow> s_inst s p;
     if (ev_instID msg = 0 \<or> is_tcid i = ev_instID msg) \<and> is_tcs i \<noteq> NULL then do {
       tcs \<leftarrow> s_tcs s (is_tcs i);
       s \<leftarrow> deliver (tc tcs) (Event ((event_clone msg)\<lparr>ev_taskID := ev_taskID msg, ev_instID := is_tcid i\<rparr>)) s;
       event_to_insts msg ps (True, s) }
     else event_to_insts msg ps (found, s) }"

fun event_to_all :: "TEventMsg \<Rightarrow> addr list \<Rightarrow> bool \<times> TTaskSelector \<Rightarrow> (bool \<times> TTaskSelector) option" where
  "event_to_all msg [] s = Some s"
| "event_to_all msg (p # ps) (found, s) = (if p \<noteq> NULL then do {
       tcs \<leftarrow> s_tcs s p;
       s \<leftarrow> deliver (tc tcs) (Event (event_clone msg)) s;
       event_to_all msg ps (True, s) }
     else event_to_all msg ps (found, s))"

definition fc_post :: "TEventMsg \<Rightarrow> tout list" where
  "fc_post m = [ToManager (Event (m\<lparr>ev_sender := \<lparr>taskType = objtype_Kernal, taskID = FRAMECONTROL_TASKID, instID = 0\<rparr>\<rparr>))]"

definition addEvent :: "TEventMsg \<Rightarrow> TTaskSelector \<Rightarrow> (bool \<times> tout list \<times> TTaskSelector) option" where
  "addEvent msg s = do {
     r \<leftarrow> (
       if ev_instID msg > 0 then
         (case uh_get (mContainerList s) (ev_instID msg) of
            Some p \<Rightarrow> if p \<noteq> NULL then do {
                tcs \<leftarrow> s_tcs s p;
                if tc tcs \<noteq> NULL then do { s \<leftarrow> deliver (tc tcs) (Event msg) s; Some (Inl s) } else Some (Inr (False, s)) }
              else Some (Inr (False, s))
          | None \<Rightarrow> Some (Inr (False, s)))
       else if ev_taskID msg > 0 then
         (case uh_get (mTaskList s) (ev_taskID msg) of
            Some p \<Rightarrow> if p \<noteq> NULL then do {
                ts \<leftarrow> s_task s p;
                ps \<leftarrow> insts_of (tk_inst ts);
                r \<leftarrow> event_to_insts msg ps (False, s);
                Some (Inr r) }
              else Some (Inr (False, s))
          | None \<Rightarrow> Some (Inr (False, s)))
       else do {
         (ps, s) \<leftarrow> all_tcs s;
         r \<leftarrow> event_to_all msg ps (False, s);
         Some (Inr r) });
     Some (case r of Inl s \<Rightarrow> (True, [], s)
       | Inr (found, s) \<Rightarrow> if found then (True, [], s)
           else (False, fc_post (msg\<lparr>ev_status := 2, eventInfo := lit ''taskid or instid not found!''\<rparr>), s)) }"

text \<open>Dialogs: the task instance a session began with.\<close>

definition getSessionId :: "ctrlmsg \<Rightarrow> UINT" where
  "getSessionId c = session_int c"

definition getSessionId_str :: "ctrlmsg \<Rightarrow> CHAR8 list option" where
  "getSessionId_str c = session_str c"

definition session_hdr :: "TUniNetMsg \<Rightarrow> ctrlmsg option option" where
  "session_hdr msg = (if hasCtrlMsgHdr msg then do { c \<leftarrow> ctrlMsgHdr msg; Some (if hasSessionId c then Some c else None) }
     else Some None)"

definition route_by :: "TaskKey \<Rightarrow> TUniNetMsg \<Rightarrow> TUniNetMsg" where
  "route_by tk msg = msg\<lparr>tAddr := (tAddr msg)\<lparr>phyAddr := key_tcid tk, taskInstID := key_tiid tk\<rparr>\<rparr>"

text \<open>The string dialogs are found through a \<open>std::map\<close> with \<open>CStr\<close> keys, which are compared by
  \<open>strcmp\<close>: the key is the session identifier up to its first zero. \<open>mCurrentTime\<close> is set from the clock
  at the beginning of every pass of the main loop and is not 0, so that \<open>pop_old\<close> uses it and not a
  reading of its own.\<close>

definition find_session :: "int \<Rightarrow> ctrlmsg \<Rightarrow> TUniNetMsg \<Rightarrow> TTaskSelector \<Rightarrow> (TUniNetMsg \<times> TTaskSelector) option" where
  "find_session now c msg s = do {
     (msg, s) \<leftarrow> (if getSessionId c > 0 then do {
         (r, b) \<leftarrow> eb_find (mIntDialog s) (getSessionId c);
         (case r of Some tk \<Rightarrow> if key_tcid tk > 0 \<and> key_tiid tk > 0 then do {
                (_, b) \<leftarrow> eb_update b (getSessionId c) (mCurrentTime s) now;
                Some (route_by tk msg, s\<lparr>mIntDialog := b\<rparr>) }
              else Some (msg, s\<lparr>mIntDialog := b\<rparr>)
          | None \<Rightarrow> Some (msg, s\<lparr>mIntDialog := b\<rparr>)) }
       else (case getSessionId_str c of
           Some ssid \<Rightarrow> if ssid \<noteq> [] then do {
               (r, b) \<leftarrow> eb_find (mStrDialog s) (cstr ssid);
               (case r of Some tk \<Rightarrow> if key_tcid tk > 0 \<and> key_tiid tk > 0 then do {
                      (_, b) \<leftarrow> eb_update b (cstr ssid) (mCurrentTime s) now;
                      Some (route_by tk msg, s\<lparr>mStrDialog := b\<rparr>) }
                    else Some (msg, s\<lparr>mStrDialog := b\<rparr>)
                | None \<Rightarrow> Some (msg, s\<lparr>mStrDialog := b\<rparr>)) }
             else Some (msg, s)
         | None \<Rightarrow> Some (msg, s)));
     (_, i) \<leftarrow> eb_pop_old (mIntDialog s) (mCurrentTime s) (\<lambda>_. now);
     (_, d) \<leftarrow> eb_pop_old (mStrDialog s) (mCurrentTime s) (\<lambda>_. now);
     Some (msg, s\<lparr>mIntDialog := i, mStrDialog := d\<rparr>) }"

definition begin_session :: "int \<Rightarrow> ctrlmsg \<Rightarrow> TaskKey \<Rightarrow> TTaskSelector \<Rightarrow> TTaskSelector option" where
  "begin_session now c tk s = (if getSessionId c > 0 then do {
       (_, b) \<leftarrow> eb_push (mIntDialog s) (getSessionId c) tk now;
       Some (s\<lparr>mIntDialog := b\<rparr>) }
     else (case getSessionId_str c of
         Some ssid \<Rightarrow> if ssid \<noteq> [] then do {
             (_, b) \<leftarrow> eb_push (mStrDialog s) (cstr ssid) tk now;
             Some (s\<lparr>mStrDialog := b\<rparr>) }
           else Some s
       | None \<Rightarrow> Some s))"

text \<open>The message for the chosen container; a dialog that begins is remembered.\<close>

definition hand_over :: "int \<Rightarrow> UINT \<Rightarrow> UINT \<Rightarrow> addr \<Rightarrow> TUniNetMsg \<Rightarrow> TTaskSelector \<Rightarrow> (bool \<times> TTaskSelector) option" where
  "hand_over now taskid containerid item msg s = do {
     tcs \<leftarrow> s_tcs s item;
     (msg, s) \<leftarrow> (if dialogType msg = DIALOG_BEGIN \<and> taskInstID (tAddr msg) = 0 then do {
         c \<leftarrow> containers s (tc tcs);
         let taskinstid = tc_genTaskInst taskid c;
         let msg = msg\<lparr>tAddr := (tAddr msg)\<lparr>taskInstID := taskinstid\<rparr>\<rparr>;
         let msg = (if containerid = 0 then msg\<lparr>tAddr := (tAddr msg)\<lparr>phyAddr := tcid tcs\<rparr>\<rparr> else msg);
         hdr \<leftarrow> session_hdr msg;
         s \<leftarrow> (case hdr of Some h \<Rightarrow> begin_session now h \<lparr>key_tcid = tcid tcs, key_tiid = taskinstid\<rparr> s | None \<Rightarrow> Some s);
         Some (msg, s) }
       else Some (msg, s));
     s \<leftarrow> deliver (tc tcs) (UniNet msg) s;
     Some (True, s\<lparr>sendMsgToTaskCount := sendMsgToTaskCount s + 1\<rparr>) }"

definition sendMsgToTask :: "int \<Rightarrow> (addr \<Rightarrow> UINT) \<Rightarrow> TUniNetMsg \<Rightarrow> TTaskSelector \<Rightarrow> (bool \<times> TTaskSelector) option" where
  "sendMsgToTask now wc msg s = (if \<not> uh_contains (mTaskList s) (logAddr (tAddr msg)) then Some (False, s) else do {
     let taskid = logAddr (tAddr msg);
     let containerid = (if phyAddr (tAddr msg) > 0 then snd (parsePhyAddr (phyAddr (tAddr msg))) else 0);
     let msg = (if phyAddr (tAddr msg) > 0 then msg\<lparr>tAddr := (tAddr msg)\<lparr>phyAddr := containerid\<rparr>\<rparr> else msg);
     hdr \<leftarrow> (if dialogType msg \<noteq> DIALOG_BEGIN \<and> containerid = 0 then session_hdr msg else Some None);
     (msg, s) \<leftarrow> (case hdr of Some c \<Rightarrow> find_session now c msg s | None \<Rightarrow> Some (msg, s));
     (item, s) \<leftarrow> getTask wc taskid containerid s;
     if item \<noteq> NULL then hand_over now taskid containerid item msg s else Some (False, s) })"

fun multicast_loop :: "TUniNetMsg \<Rightarrow> addr list \<Rightarrow> TTaskSelector \<Rightarrow> TTaskSelector option" where
  "multicast_loop msg [] s = Some s"
| "multicast_loop msg (p # ps) s = (if p = NULL then multicast_loop msg ps s else do {
     i \<leftarrow> s_inst s p;
     if is_tcid i > 0 then do {
       m \<leftarrow> uninet_clone msg;
       tcs \<leftarrow> s_tcs s (is_tcs i);
       s \<leftarrow> deliver (tc tcs) (UniNet (m\<lparr>tAddr := (tAddr m)\<lparr>phyAddr := is_tcid i\<rparr>\<rparr>)) s;
       multicast_loop msg ps (s\<lparr>s_inst := (s_inst s)(p \<mapsto> i\<lparr>is_count := is_count i + 1\<rparr>)\<rparr>) }
     else multicast_loop msg ps s })"

definition multicastMsgToTask :: "TUniNetMsg \<Rightarrow> TTaskSelector \<Rightarrow> (bool \<times> TTaskSelector) option" where
  "multicastMsgToTask msg s = (case uh_get (mTaskList s) (logAddr (tAddr msg)) of
       None \<Rightarrow> Some (False, s)
     | Some p \<Rightarrow> do {
         ts \<leftarrow> s_task s p;
         ps \<leftarrow> insts_of (tk_inst ts);
         s \<leftarrow> multicast_loop msg ps s;
         Some (True, s\<lparr>multicastMsgCount := multicastMsgCount s + 1\<rparr>) })"

fun broadcast_loop :: "TUniNetMsg \<Rightarrow> addr list \<Rightarrow> TTaskSelector \<Rightarrow> TTaskSelector option" where
  "broadcast_loop msg [] s = Some s"
| "broadcast_loop msg (p # ps) s = (if p = NULL then broadcast_loop msg ps s else do {
     m \<leftarrow> uninet_clone msg;
     tcs \<leftarrow> s_tcs s p;
     s \<leftarrow> deliver (tc tcs) (UniNet (m\<lparr>tAddr := (tAddr m)\<lparr>phyAddr := tcid tcs\<rparr>\<rparr>)) s;
     broadcast_loop msg ps s })"

definition broadcastMsgToTask :: "TUniNetMsg \<Rightarrow> TTaskSelector \<Rightarrow> (bool \<times> TTaskSelector) option" where
  "broadcastMsgToTask msg s = do {
     (ps, s) \<leftarrow> all_tcs s;
     s \<leftarrow> broadcast_loop msg ps s;
     Some (True, s\<lparr>broadcastMsgCount := broadcastMsgCount s + 1\<rparr>) }"

text \<open>\<open>add\<close> switches on \<open>msgType\<close>. The two loops delete the message on every path;
  \<open>sendMsgToTask\<close> passes it on exactly when it returns true.\<close>

definition sel_add :: "int \<Rightarrow> (addr \<Rightarrow> UINT) \<Rightarrow> TUniNetMsg \<Rightarrow> TTaskSelector \<Rightarrow> (bool \<times> bool \<times> TTaskSelector) option" where
  "sel_add now wc msg s = (
     if msgType msg = ucast DIALOG_BROADCAST then do { (r, s) \<leftarrow> broadcastMsgToTask msg s; Some (r, True, s) }
     else if msgType msg = ucast DIALOG_MULTICAST then do { (r, s) \<leftarrow> multicastMsgToTask msg s; Some (r, True, s) }
     else do { (r, s) \<leftarrow> sendMsgToTask now wc msg s; Some (r, r, s) })"

end
