(* ===== verification/FrameControl.thy ===== *)
theory FrameControl
  imports TaskSelector
begin

text \<open>
  The kernel thread \<open>TFRAMEControl\<close> (\<open>kernel/framectrl.*\<close>), the status text of the selector, and the
  part of \<open>TFRAMEManager::Init\<close> (\<open>framemng.C\<close>) that builds the containers and registers the tasks.
  \<open>exit(0)\<close> is the outcome \<open>Inl ()\<close>.
\<close>

section \<open>Status of the selector\<close>

definition instance_line :: "InstState \<Rightarrow> CHAR8 list" where
  "instance_line i = lit ''    InstID='' @ uint_text (is_tcid i) @ lit ''(count='' @ uint_text (is_count i) @
     lit '',weight='' @ uint_text (is_weight i) @ lit '')'' @ [13, 10]"

fun instance_lines :: "addr list \<Rightarrow> TTaskSelector \<Rightarrow> CHAR8 list option" where
  "instance_lines [] s = Some []"
| "instance_lines (p # ps) s = (if p = NULL then instance_lines ps s else do {
     i \<leftarrow> s_inst s p;
     rest \<leftarrow> instance_lines ps s;
     Some (instance_line i @ rest) })"

fun container_lines :: "addr list \<Rightarrow> TTaskSelector \<Rightarrow> CHAR8 list option" where
  "container_lines [] s = Some []"
| "container_lines (p # ps) s = (if p = NULL then container_lines ps s else do {
     t \<leftarrow> s_tcs s p;
     rest \<leftarrow> container_lines ps s;
     Some (lit ''  ContainerID='' @ uint_text (tcid t) @ lit ''(waitCount='' @ uint_text (waitCount t) @ lit '')'' @ [13, 10] @ rest) })"

fun task_lines :: "addr list \<Rightarrow> TTaskSelector \<Rightarrow> CHAR8 list option" where
  "task_lines [] s = Some []"
| "task_lines (p # ps) s = (if p = NULL then task_lines ps s else do {
     t \<leftarrow> s_task s p;
     qs \<leftarrow> insts_of (tk_inst t);
     ls \<leftarrow> instance_lines qs s;
     rest \<leftarrow> task_lines ps s;
     Some (lit '' TaskID='' @ uint_text (tk_taskid t) @ lit ''(balanceCount='' @ uint_text (tk_balanceCount t) @
       lit '',count='' @ uint_text (tk_count t) @ lit '')'' @ [13, 10] @ ls @ rest) })"

definition sel_getStatues :: "CHAR8 list \<Rightarrow> TTaskSelector \<Rightarrow> (CHAR8 list \<times> TTaskSelector) option" where
  "sel_getStatues st s = do {
     let st = st @ lit ''TaskInfo:(regtask='' @ uint_text (registeredTaskAmount s) @ lit '',reginst='' @
       uint_text (registeredInstAmount s) @ lit '',procmsg('' @ uint_text (sendMsgToTaskCount s) @ lit ''/'' @
       uint_text (multicastMsgCount s) @ lit ''/'' @ uint_text (broadcastMsgCount s) @ lit '')'' @ [13, 10] @
       lit ''ContainerList:'' @ [13, 10];
     (ps, s) \<leftarrow> all_tcs s;
     cl \<leftarrow> container_lines ps s;
     (kvs, ht) \<leftarrow> enum_collect (snd (ht_reset (mTaskList s)));
     let s = s\<lparr>mTaskList := ht\<rparr>;
     tl \<leftarrow> task_lines (map snd kvs) s;
     Some (st @ cl @ lit ''TaskList:'' @ [13, 10] @ tl, s) }"

section \<open>TFRAMEControl\<close>

record TFRAMEControl =
  fc_fifo :: "TMsg fifo"
  fc_selector :: TTaskSelector
  fc_shutdown :: bool
  loopCount :: UINT
  uninetmsgCountS :: UINT
  uninetmsgCountF :: UINT

definition TFRAMEControl_new :: "32 word \<Rightarrow> TFRAMEControl option" where
  "TFRAMEControl_new g = do {
     s \<leftarrow> TTaskSelector_new g;
     Some \<lparr>fc_fifo = Fifo_new, fc_selector = s, fc_shutdown = True, loopCount = 0, uninetmsgCountS = g, uninetmsgCountF = g\<rparr> }"

definition fc_init :: "int \<Rightarrow> TFRAMEControl \<Rightarrow> TFRAMEControl" where
  "fc_init recycleTime f = (if recycleTime \<noteq> 0 then f\<lparr>fc_selector := setRecycleTime recycleTime (fc_selector f)\<rparr> else f)"

definition fc_add :: "TMsg \<Rightarrow> TFRAMEControl \<Rightarrow> TFRAMEControl" where
  "fc_add m f = f\<lparr>fc_fifo := fifo_add m (fc_fifo f)\<rparr>"

definition own_event :: "UINT \<Rightarrow> UINT \<Rightarrow> CHAR8 list \<Rightarrow> tout list" where
  "own_event ev transid info = fc_post (TEventMsg_new\<lparr>eventID := ev, ev_transID := transid, ev_status := 1, eventInfo := info\<rparr>)"

definition onInit :: "UINT \<Rightarrow> TFRAMEControl \<Rightarrow> tout list \<times> TFRAMEControl" where
  "onInit transid f = (own_event APP_INIT transid [], f\<lparr>fc_shutdown := False\<rparr>)"

definition onHeartBeat :: "UINT \<Rightarrow> TFRAMEControl \<Rightarrow> tout list \<times> TFRAMEControl" where
  "onHeartBeat transid f = (own_event APP_HEATBEAT transid [], f)"

definition onReload :: "UINT \<Rightarrow> TFRAMEControl \<Rightarrow> tout list \<times> TFRAMEControl" where
  "onReload transid f = (own_event APP_RELOAD transid [], f)"

definition onShutdown :: "UINT \<Rightarrow> TFRAMEControl \<Rightarrow> tout list \<times> TFRAMEControl" where
  "onShutdown transid f = (own_event APP_SHUTDOWN transid [], f\<lparr>fc_shutdown := True\<rparr>)"

definition onStatues :: "UINT \<Rightarrow> TFRAMEControl \<Rightarrow> (tout list \<times> TFRAMEControl) option" where
  "onStatues transid f = do {
     let info = lit ''FrameCtrlStatus: loop='' @ uint_text (loopCount f) @ lit '', procmsg='' @ uint_text (uninetmsgCountS f) @
       lit '', failemsg='' @ uint_text (uninetmsgCountF f) @ lit '', wait='' @ uint_text (fifo_size (fc_fifo f)) @ [13, 10];
     (info, s) \<leftarrow> sel_getStatues info (fc_selector f);
     Some (own_event APP_STATUES transid info, f\<lparr>fc_selector := s\<rparr>) }"

record fc_in =
  fi_time :: int
  fi_end :: ulong
  fi_wait :: ulong
  fi_now :: int
  fi_wc :: "addr \<Rightarrow> UINT"

text \<open>Deleting a message that is gone is undefined.\<close>

definition fc_uninet :: "fc_in \<Rightarrow> TUniNetMsg \<Rightarrow> TFRAMEControl \<Rightarrow> TFRAMEControl option" where
  "fc_uninet i m f = do {
     (r, gone, s) \<leftarrow> (if \<not> fc_shutdown f then sel_add (fi_now i) (fi_wc i) m (fc_selector f)
       else Some (False, False, fc_selector f));
     let f = f\<lparr>fc_selector := s\<rparr>;
     if r then Some (f\<lparr>uninetmsgCountS := uninetmsgCountS f + 1\<rparr>)
     else if gone then None
     else Some (f\<lparr>uninetmsgCountF := uninetmsgCountF f + 1\<rparr>) }"

definition fc_event :: "TEventMsg \<Rightarrow> TFRAMEControl \<Rightarrow> (tout list \<times> TFRAMEControl) option" where
  "fc_event e f = do {
     (out, f) \<leftarrow> (if ev_instID e = 0 \<and> (ev_taskID e = FRAMECONTROL_TASKID \<or> ev_taskID e = TASKSELECTOR_TASKID \<or> ev_taskID e = 0) then
         (if eventID e = APP_INIT then Some (onInit (ev_transID e) f)
          else if eventID e = APP_HEATBEAT then Some (onHeartBeat (ev_transID e) f)
          else if eventID e = APP_RELOAD then Some (onReload (ev_transID e) f)
          else if eventID e = APP_SHUTDOWN then Some (onShutdown (ev_transID e) f)
          else if eventID e = APP_STATUES then onStatues (ev_transID e) f
          else Some ([], f))
       else Some ([], f));
     if ev_taskID e \<ge> TASKSELECTOR_TASKID \<or> ev_taskID e = 0 then do {
       (_, out2, s) \<leftarrow> addEvent e (fc_selector f);
       Some (out @ out2, f\<lparr>fc_selector := s\<rparr>) }
     else Some (out, f) }"

text \<open>\<open>mainLoop\<close> waits up to a second; a call that is still blocked in \<open>getNext\<close> (result
  \<open>False\<close>) continues with \<open>fc_receive\<close>.\<close>

definition fc_receive :: "fc_in \<Rightarrow> TFRAMEControl \<Rightarrow> (bool \<times> tout list \<times> TFRAMEControl) option" where
  "fc_receive i f = (let (r, q) = getNext_ms_try (fi_end i) (fi_wait i) (fc_fifo f); f = f\<lparr>fc_fifo := q\<rparr> in
     case r of
       Got m \<Rightarrow> (case m of
           UniNet u \<Rightarrow> do { f \<leftarrow> fc_uninet i u f; Some (True, [], f) }
         | Event e \<Rightarrow> do { (out, f) \<leftarrow> fc_event e f; Some (True, out, f) }
         | TimeOut t \<Rightarrow> Some (True, [], f)
         | PlainMsg p \<Rightarrow> Some (True, [], f))
     | Nothing \<Rightarrow> Some (True, [], f)
     | Waits \<Rightarrow> Some (False, [], f)
     | Abort \<Rightarrow> None
     | Done \<Rightarrow> None)"

definition mainLoop :: "fc_in \<Rightarrow> TFRAMEControl \<Rightarrow> (bool \<times> tout list \<times> TFRAMEControl) option" where
  "mainLoop i f = fc_receive i (f\<lparr>loopCount := loopCount f + 1, fc_selector := setCurrentTime (fi_time i) (fc_selector f)\<rparr>)"

section \<open>TFRAMEManager::Init\<close>

record TProcRsc =
  instType :: UINT
  threadNum :: nat
  taskList :: "UINT list"

abbreviation (input) "objtype_Psa \<equiv> 8 :: UINT"
abbreviation (input) "objtype_Extended \<equiv> 10 :: UINT"

text \<open>\<open>objs\<close> gives the object \<open>clone()\<close> makes for a task identifier of \<open>mTaskObj\<close>.\<close>

fun register_tasks :: "(UINT \<Rightarrow> task_env) \<Rightarrow> (UINT \<rightharpoonup> TAbstractTask) \<Rightarrow> UINT \<Rightarrow> UINT list \<Rightarrow> TTaskSelector \<Rightarrow> (unit + TTaskSelector) option" where
  "register_tasks env objs cid [] s = Some (Inr s)"
| "register_tasks env objs cid (t # ts) s = (case objs t of
       None \<Rightarrow> register_tasks env objs cid ts s
     | Some obj \<Rightarrow> do {
         (ok, s) \<leftarrow> registerTask (env t) t cid (Some obj) s;
         if ok then register_tasks env objs cid ts s else Some (Inl ()) })"

definition make_container :: "UINT \<Rightarrow> UINT \<Rightarrow> UINT \<Rightarrow> TTaskSelector \<Rightarrow> (unit + TTaskSelector) option" where
  "make_container mAppID kind cid s = (if kind \<ge> objtype_Task \<and> kind < objtype_Extended then do {
       let p = s_brk s;
       let c = (if kind < objtype_Psa then TTaskContainer_new else TPSAContainer_new);
       let s = s\<lparr>containers := (containers s)(p \<mapsto> tc_init cid mAppID c), s_brk := Suc p\<rparr>;
       (ok, s) \<leftarrow> registerContainer cid p s;
       Some (if ok then Inr s else Inl ()) }
     else Some (Inl ()))"

fun make_instances :: "(UINT \<Rightarrow> task_env) \<Rightarrow> (UINT \<rightharpoonup> TAbstractTask) \<Rightarrow> UINT \<Rightarrow> UINT \<Rightarrow> UINT list \<Rightarrow> nat \<Rightarrow> UINT \<Rightarrow> TTaskSelector
    \<Rightarrow> (unit + UINT \<times> TTaskSelector) option" where
  "make_instances env objs app kind tasks 0 cid s = Some (Inr (cid, s))"
| "make_instances env objs app kind tasks (Suc n) cid s = do {
     r \<leftarrow> make_container app kind cid s;
     case r of Inl _ \<Rightarrow> Some (Inl ()) | Inr s \<Rightarrow> do {
       r \<leftarrow> register_tasks env objs cid tasks s;
       case r of Inl _ \<Rightarrow> Some (Inl ()) | Inr s \<Rightarrow>
         if cid + 1 > MAX_TASKCONTAINERID then Some (Inl ())
         else make_instances env objs app kind tasks n (cid + 1) s } }"

fun make_procs :: "(UINT \<Rightarrow> task_env) \<Rightarrow> (UINT \<rightharpoonup> TAbstractTask) \<Rightarrow> UINT \<Rightarrow> TProcRsc list \<Rightarrow> UINT \<Rightarrow> TTaskSelector
    \<Rightarrow> (unit + UINT \<times> TTaskSelector) option" where
  "make_procs env objs app [] cid s = Some (Inr (cid, s))"
| "make_procs env objs app (p # ps) cid s = do {
     r \<leftarrow> make_instances env objs app (instType p) (taskList p) (threadNum p) cid s;
     case r of Inl _ \<Rightarrow> Some (Inl ()) | Inr (cid, s) \<Rightarrow> make_procs env objs app ps cid s }"

definition fm_Init :: "(UINT \<Rightarrow> task_env) \<Rightarrow> (UINT \<rightharpoonup> TAbstractTask) \<Rightarrow> UINT \<Rightarrow> int \<Rightarrow> TProcRsc list \<Rightarrow> TFRAMEControl \<Rightarrow> (unit + TFRAMEControl) option" where
  "fm_Init env objs app recycleTime procs f = do {
     let f = fc_init recycleTime f;
     r \<leftarrow> make_procs env objs app procs 1 (fc_selector f);
     Some (case r of Inl _ \<Rightarrow> Inl () | Inr (cid, s) \<Rightarrow> Inr (f\<lparr>fc_selector := s\<rparr>)) }"

end
