(* ===== verification/TaskSelectorSpec.thy ===== *)
theory TaskSelectorSpec
  imports FrameControl TaskContainerSpec
begin

text \<open>
  The dispatcher: \<open>getTask\<close> always finds an instance of a registered task and serves the instances in
  turn; the tables, instance lists and state objects stay consistent.
\<close>

section \<open>The instance list of a task\<close>

lemma clist_items: "clist_rel l (vs, c) \<Longrightarrow> insts_of l = Some vs"
proof -
  assume "clist_rel l (vs, c)"
  then obtain as where rep: "clist_rep l as vs c" by (auto simp: clist_rel_def)
  have "those (map Some vs) = Some vs" by (induction vs) auto
  then show ?thesis using iter_rep [OF rep, of 0] rep_head [OF rep] by (simp add: insts_of_def iter_begin_def)
qed

lemma clist_next_d:
  assumes "clist_rel (l :: addr dll) (vs, c)" "c < length vs" "1 < length vs"
  shows "\<exists>l'. next_d l = Some ((True, Some (vs ! (Suc c mod length vs))), l') \<and> clist_rel l' (vs, Suc c mod length vs)"
proof -
  have "op_refines NextD l (vs, c)" by (rule op_refines_all [OF assms(1)])
  moreover have "(if Suc c \<ge> length vs then 0 else Suc c) = Suc c mod length vs" using assms(2) by (cases "Suc c = length vs") auto
  moreover have "vs \<noteq> []" "length vs \<noteq> Suc 0" using assms(3) by auto
  ultimately have "\<exists>l'. out_b (next_d l) = Some ((1, [vs ! (Suc c mod length vs)]), l') \<and> clist_rel l' (vs, Suc c mod length vs)"
    by (simp add: op_refines_def Let_def)
  then show ?thesis by (auto simp: out_b_def bind_Some_iff split: option.splits)
qed

lemma clist_front:
  assumes "clist_rel (l :: addr dll) (vs, c)" "vs \<noteq> []"
  shows "\<exists>l'. front_v l = Some ((True, Some (hd vs)), l') \<and> clist_rel l' (vs, 0)"
proof -
  have "op_refines Front l (vs, c)" by (rule op_refines_all [OF assms(1)])
  then have "\<exists>l'. out_b (front_v l) = Some ((1, [hd vs]), l') \<and> clist_rel l' (vs, 0)" using assms(2) by (simp add: op_refines_def)
  then show ?thesis by (auto simp: out_b_def bind_Some_iff split: option.splits)
qed

lemma clist_reset_pos:
  assumes "clist_rel l (vs, c)" "i < length vs"
  shows "\<exists>l'. reset_pos l (int i) = Some (True, l') \<and> clist_rel l' (vs, i)"
proof -
  obtain as where rep: "clist_rep l as vs c" using assms(1) by (auto simp: clist_rel_def)
  have "clist_rep (l\<lparr>m_pCurrent := (as @ [m_pTag l]) ! i\<rparr>) as vs i" by (rule rep_move [OF rep]) (use assms(2) in auto)
  then show ?thesis using addr_pos_rep [OF rep, of "int i"] rep_count [OF rep] assms(2) clist_relI by (fastforce simp: reset_pos_def)
qed

interpretation insts: cursor_ring "clist_rel :: addr dll \<Rightarrow> _" insts_of clist_count push_back_r front_v reset_pos next_d
  by unfold_locales (erule clist_items clist_num clist_push_back clist_front clist_reset_pos clist_next_d; assumption?)+

section \<open>The load of the instances\<close>

text \<open>What dispatching leaves unchanged.\<close>

definition tcs_core :: "TTaskSelector \<Rightarrow> addr \<Rightarrow> (UINT \<times> addr) option" where
  "tcs_core s q = map_option (\<lambda>t. (tcid t, tc t)) (s_tcs s q)"

definition inst_core :: "TTaskSelector \<Rightarrow> addr \<Rightarrow> (bool \<times> UINT \<times> addr) option" where
  "inst_core s v = map_option (\<lambda>i. (is_shuttingDown i, is_tcid i, is_tcs i)) (s_inst s v)"

definition same_shape :: "TTaskSelector \<Rightarrow> TTaskSelector \<Rightarrow> bool" where
  "same_shape s s' = (mContainerList s' = mContainerList s \<and> mTaskList s' = mTaskList s \<and> containers s' = containers s \<and> s_brk s' = s_brk s \<and>
     mIntDialog s' = mIntDialog s \<and> mStrDialog s' = mStrDialog s \<and> mCurrentTime s' = mCurrentTime s \<and>
     tcs_core s' = tcs_core s \<and> inst_core s' = inst_core s)"

lemma same_shape_refl: "same_shape s s"
  by (simp add: same_shape_def)

lemma same_shape_trans: "same_shape s s1 \<Longrightarrow> same_shape s1 s2 \<Longrightarrow> same_shape s s2"
  by (simp add: same_shape_def)

lemma same_shape_inst:
  assumes "same_shape s s'" "s_inst s v = Some i"
  shows "\<exists>i'. s_inst s' v = Some i' \<and> is_shuttingDown i' = is_shuttingDown i \<and> is_tcid i' = is_tcid i \<and> is_tcs i' = is_tcs i"
proof -
  have "inst_core s' v = inst_core s v" using assms(1) by (simp add: same_shape_def)
  then show ?thesis using assms(2) by (auto simp: inst_core_def)
qed

lemma same_shape_tcs:
  assumes "same_shape s s'" "s_tcs s q = Some t"
  shows "\<exists>t'. s_tcs s' q = Some t' \<and> tcid t' = tcid t \<and> tc t' = tc t"
proof -
  have "tcs_core s' q = tcs_core s q" using assms(1) by (simp add: same_shape_def)
  then show ?thesis using assms(2) by (auto simp: tcs_core_def)
qed

text \<open>An instance whose objects are allocated, and what its container's \<open>waitCount\<close> delivers.\<close>

definition alive :: "TTaskSelector \<Rightarrow> addr \<Rightarrow> bool" where
  "alive s v = (v \<noteq> NULL \<and> (\<exists>i t. s_inst s v = Some i \<and> s_tcs s (is_tcs i) = Some t))"

definition load_of :: "(addr \<Rightarrow> UINT) \<Rightarrow> TTaskSelector \<Rightarrow> addr \<Rightarrow> UINT" where
  "load_of wc s v = wc (tc (the (s_tcs s (is_tcs (the (s_inst s v))))))"

lemma alive_shape: "same_shape s s' \<Longrightarrow> alive s v \<Longrightarrow> alive s' v \<and> load_of wc s' v = load_of wc s v"
  by (auto simp: alive_def load_of_def dest: same_shape_inst same_shape_tcs)
     (metis option.sel same_shape_inst same_shape_tcs)+

lemma measure_load_ok:
  assumes "\<forall>v \<in> set ps. alive s v"
  shows "\<exists>s'. measure_load wc ps acc s = Some (acc + sum_list (map (load_of wc s) ps), s') \<and> same_shape s s' \<and> s_task s' = s_task s \<and> s_inst s' = s_inst s \<and>
    (\<forall>v \<in> set ps. \<exists>i t. s_inst s v = Some i \<and> s_tcs s' (is_tcs i) = Some t \<and> waitCount t = load_of wc s v) \<and>
    (\<forall>q t. s_tcs s q = Some t \<longrightarrow> waitCount t = wc (tc t) \<longrightarrow> s_tcs s' q = Some t)"
  using assms
proof (induction ps arbitrary: acc s)
  case Nil
  then show ?case by (simp add: same_shape_refl)
next
  case (Cons p ps)
  obtain i t where it: "p \<noteq> NULL" "s_inst s p = Some i" "s_tcs s (is_tcs i) = Some t" using Cons.prems by (auto simp: alive_def)
  let ?s = "s\<lparr>s_tcs := (s_tcs s)(is_tcs i \<mapsto> t\<lparr>waitCount := wc (tc t)\<rparr>)\<rparr>"
  have sh: "same_shape s ?s" using it(3) by (auto simp: same_shape_def tcs_core_def inst_core_def fun_eq_iff)
  have al: "\<forall>v \<in> set ps. alive ?s v" using Cons.prems alive_shape [OF sh] by simp
  have ld: "map (load_of wc ?s) ps = map (load_of wc s) ps" using Cons.prems alive_shape [OF sh] by simp
  have lp: "load_of wc s p = wc (tc t)" using it by (simp add: load_of_def)
  obtain s' where s': "measure_load wc ps (acc + wc (tc t)) ?s = Some (acc + wc (tc t) + sum_list (map (load_of wc s) ps), s')" "same_shape ?s s'"
    "s_task s' = s_task ?s" "s_inst s' = s_inst ?s"
    "\<forall>v \<in> set ps. \<exists>i t. s_inst ?s v = Some i \<and> s_tcs s' (is_tcs i) = Some t \<and> waitCount t = load_of wc ?s v"
    "\<forall>q t. s_tcs ?s q = Some t \<longrightarrow> waitCount t = wc (tc t) \<longrightarrow> s_tcs s' q = Some t"
    using Cons.IH [OF al, of "acc + wc (tc t)"] unfolding ld by blast
  have 1: "measure_load wc (p # ps) acc s = Some (acc + sum_list (map (load_of wc s) (p # ps)), s')"
    using it s'(1) lp by (simp add: Let_def add.assoc)
  have 2: "s_tcs s' (is_tcs i) = Some (t\<lparr>waitCount := wc (tc t)\<rparr>)" using s'(6) by simp
  have 3: "\<forall>v \<in> set ps. \<exists>i t. s_inst s v = Some i \<and> s_tcs s' (is_tcs i) = Some t \<and> waitCount t = load_of wc s v"
    using s'(5) Cons.prems alive_shape [OF sh] by simp
  have 4: "\<forall>q u. s_tcs s q = Some u \<longrightarrow> waitCount u = wc (tc u) \<longrightarrow> s_tcs s' q = Some u"
  proof (intro allI impI)
    fix q u assume "s_tcs s q = Some u" "waitCount u = wc (tc u)"
    then show "s_tcs s' q = Some u" using s'(6) it(3) 2 by (cases "q = is_tcs i") auto
  qed
  show ?case using 1 2 3 4 s'(3,4) same_shape_trans [OF sh s'(2)] it lp by (intro exI [of _ s']) auto
qed

lemma set_weights_ok:
  assumes "\<forall>v \<in> set ps. \<exists>i t. s_inst s v = Some i \<and> s_tcs s (is_tcs i) = Some t \<and> waitCount t = w v"
  shows "\<exists>s'. set_weights avg ps s = Some s' \<and> same_shape s s' \<and> s_task s' = s_task s \<and> s_tcs s' = s_tcs s \<and>
    (\<forall>v. v \<notin> set ps \<longrightarrow> s_inst s' v = s_inst s v) \<and>
    (\<forall>v \<in> set ps. \<exists>i. s_inst s' v = Some i \<and> is_weight i = (if w v > avg + BalanceCountNumber then 1 else 0))"
  using assms
proof (induction ps arbitrary: s)
  case Nil
  then show ?case by (simp add: same_shape_refl)
next
  case (Cons p ps)
  obtain i t where it: "s_inst s p = Some i" "s_tcs s (is_tcs i) = Some t" "waitCount t = w p" using Cons.prems by auto
  let ?s = "s\<lparr>s_inst := (s_inst s)(p \<mapsto> i\<lparr>is_weight := (if waitCount t > avg + BalanceCountNumber then 1 else 0)\<rparr>)\<rparr>"
  have sh: "same_shape s ?s" using it(1) by (auto simp: same_shape_def tcs_core_def inst_core_def fun_eq_iff)
  have "\<forall>v \<in> set ps. \<exists>i t. s_inst ?s v = Some i \<and> s_tcs ?s (is_tcs i) = Some t \<and> waitCount t = w v" using Cons.prems it by auto
  from Cons.IH [OF this] obtain s' where s': "set_weights avg ps ?s = Some s'" "same_shape ?s s'" "s_task s' = s_task ?s" "s_tcs s' = s_tcs ?s"
    "\<forall>v. v \<notin> set ps \<longrightarrow> s_inst s' v = s_inst ?s v"
    "\<forall>v \<in> set ps. \<exists>i. s_inst s' v = Some i \<and> is_weight i = (if w v > avg + BalanceCountNumber then 1 else 0)" by blast
  have "\<exists>j. s_inst s' p = Some j \<and> is_weight j = (if w p > avg + BalanceCountNumber then 1 else 0)"
    using s'(5,6) it(3) by (cases "p \<in> set ps") auto
  then show ?case using s' it same_shape_trans [OF sh s'(2)] by (intro exI [of _ s']) auto
qed


text \<open>Not every instance can exceed the average: one stays available after a balance check.\<close>

definition wc_ok :: "(addr \<Rightarrow> UINT) \<Rightarrow> bool" where
  "wc_ok wc = (\<forall>p. unat (wc p) < 2 ^ 20)"

lemma unat_sum_list:
  assumes "\<forall>w \<in> set ws. unat (w :: UINT) < 2 ^ 20" "length ws < 2 ^ 12"
  shows "unat (sum_list ws) = sum_list (map unat ws) \<and> sum_list (map unat ws) \<le> length ws * (2 ^ 20 - 1)"
  using assms
proof (induction ws)
  case (Cons w ws)
  have *: "unat (sum_list ws) = sum_list (map unat ws)" "sum_list (map unat ws) \<le> length ws * (2 ^ 20 - 1)" using Cons by auto
  have "unat w \<le> 2 ^ 20 - 1" using Cons.prems(1) by simp
  moreover have "length (w # ws) * (2 ^ 20 - 1) < (2 ^ 32 :: nat)" using Cons.prems(2) by simp
  ultimately have "unat w + unat (sum_list ws) < 2 ^ 32" using * by simp
  then have "unat (w + sum_list ws) = unat w + unat (sum_list ws)" by (simp add: unat_word_ariths)
  then show ?case using * \<open>unat w \<le> 2 ^ 20 - 1\<close> by simp
qed simp

lemma sum_list_lower: "\<forall>x \<in> set xs. b \<le> x \<Longrightarrow> length xs * b \<le> sum_list (xs :: nat list)"
  by (induction xs) auto

lemma some_below_average:
  assumes "\<forall>w \<in> set ws. unat (w :: UINT) < 2 ^ 20" "length ws < 2 ^ 12" "ws \<noteq> []"
  shows "\<exists>w \<in> set ws. \<not> w > sum_list ws div of_nat (length ws) + 100"
proof (rule ccontr)
  let ?n = "length ws" let ?S = "sum_list (map unat ws)" let ?a = "sum_list ws div of_nat (length ws) :: UINT"
  assume "\<not> ?thesis"
  then have all: "\<forall>w \<in> set ws. unat ?a + 100 < unat w \<or> 2 ^ 32 \<le> unat ?a + 100"
    by (auto simp: word_less_nat_alt unat_word_ariths not_le)
  have n: "unat (of_nat ?n :: UINT) = ?n" using assms(2) by (simp add: unat_of_nat)
  have a: "unat ?a = ?S div ?n" using unat_sum_list [OF assms(1,2)] n by (simp add: unat_div)
  have "?S div ?n \<le> ?n * (2 ^ 20 - 1) div ?n" using unat_sum_list [OF assms(1,2)] by (intro div_le_mono) simp
  then have small: "?S div ?n + 100 < 2 ^ 32" using assms(3) by simp
  then have big: "\<forall>x \<in> set (map unat ws). ?S div ?n + 100 \<le> x" using all a by auto
  have "?n * (?S div ?n + 100) \<le> ?S" using sum_list_lower [OF big] by simp
  then have "?n * (?S div ?n) + ?n * 100 \<le> ?S" by (simp add: add_mult_distrib2)
  moreover have "?S = ?n * (?S div ?n) + ?S mod ?n" "?S mod ?n < ?n" using assms(3) by simp_all
  ultimately show False by linarith
qed

definition avail :: "TTaskSelector \<Rightarrow> addr \<Rightarrow> bool" where
  "avail s v = (\<exists>i. s_inst s v = Some i \<and> is_weight i = 0 \<and> \<not> is_shuttingDown i)"

lemma balanceCheck_ok:
  assumes "s_task s p = Some ts" "p \<noteq> NULL" "clist_rel (tk_inst ts) (vs, c)" "vs \<noteq> []" "length vs < 2 ^ 12" "\<forall>v \<in> set vs. alive s v"
    "wc_ok wc" "\<forall>v \<in> set vs. \<forall>i. s_inst s v = Some i \<longrightarrow> \<not> is_shuttingDown i" "\<exists>v \<in> set vs. avail s v"
  shows "\<exists>s'. balanceCheck wc p s = Some s' \<and> same_shape s s' \<and> s_task s' = s_task s \<and> (\<forall>v. v \<notin> set vs \<longrightarrow> s_inst s' v = s_inst s v) \<and>
    (\<exists>v \<in> set vs. avail s' v)"
proof -
  have items: "insts_of (tk_inst ts) = Some vs" "clist_count (tk_inst ts) = int (length vs)"
    using insts.items_ok [OF assms(3)] insts.num_ok [OF assms(3)] by auto
  obtain s1 where s1: "measure_load wc vs 0 s = Some (0 + sum_list (map (load_of wc s) vs), s1)" "same_shape s s1" "s_task s1 = s_task s" "s_inst s1 = s_inst s"
    "\<forall>v \<in> set vs. \<exists>i t. s_inst s v = Some i \<and> s_tcs s1 (is_tcs i) = Some t \<and> waitCount t = load_of wc s v"
    using measure_load_ok [OF assms(6)] by blast
  show ?thesis
  proof (cases "length vs = 1")
    case True
    then show ?thesis using assms(1,2,9) items s1 by (intro exI [of _ s1]) (auto simp: balanceCheck_def avail_def)
  next
    case False
    let ?avg = "sum_list (map (load_of wc s) vs) div word_of_int (int (length vs))"
    have "\<forall>v \<in> set vs. \<exists>i t. s_inst s1 v = Some i \<and> s_tcs s1 (is_tcs i) = Some t \<and> waitCount t = load_of wc s v" using s1(4,5) by simp
    from set_weights_ok [OF this, of ?avg] obtain s' where s': "set_weights ?avg vs s1 = Some s'" "same_shape s1 s'" "s_task s' = s_task s1"
      "\<forall>v. v \<notin> set vs \<longrightarrow> s_inst s' v = s_inst s1 v"
      "\<forall>v \<in> set vs. \<exists>i. s_inst s' v = Some i \<and> is_weight i = (if load_of wc s v > ?avg + BalanceCountNumber then 1 else 0)" by blast
    have "\<forall>w \<in> set (map (load_of wc s) vs). unat w < 2 ^ 20" using assms(7) by (auto simp: wc_ok_def load_of_def)
    from some_below_average [OF this] assms(4,5) obtain v where v: "v \<in> set vs" "\<not> load_of wc s v > ?avg + 100" by auto
    obtain i where i: "s_inst s' v = Some i" "is_weight i = 0" using s'(5) v by auto
    have sh: "same_shape s s'" using same_shape_trans [OF s1(2) s'(2)] .
    obtain i0 where "s_inst s v = Some i0" using assms(6) v(1) by (auto simp: alive_def)
    then have "\<not> is_shuttingDown i" using same_shape_inst [OF sh, of v i0] assms(8) v(1) i(1) by auto
    then have "avail s' v" using i by (auto simp: avail_def)
    then show ?thesis using False assms(1,2) items s1 s' sh v(1) by (intro exI [of _ s']) (auto simp: balanceCheck_def)
  qed
qed

section \<open>The choice of an instance\<close>

lemma getTask_loop_ok:
  assumes "s_task s p = Some ts" "clist_rel (tk_inst ts) (vs, c)" "c < length vs" "1 < length vs" "length vs < 2 ^ 12"
    "tk_instpos ts = of_nat c" "\<forall>v \<in> set vs. alive s v"
    "j < k" "avail s (vs ! ((c + Suc j) mod length vs))" "\<forall>j' < j. \<not> avail s (vs ! ((c + Suc j') mod length vs))"
  shows "\<exists>ts' i. s_inst s (vs ! ((c + Suc j) mod length vs)) = Some i \<and> is_weight i = 0 \<and>
    getTask_loop wc k p is s = use_instance wc p (vs ! ((c + Suc j) mod length vs)) i ts' (s\<lparr>s_task := (s_task s)(p \<mapsto> ts')\<rparr>) \<and>
    clist_rel (tk_inst ts') (vs, (c + Suc j) mod length vs) \<and> tk_instpos ts' = of_nat ((c + Suc j) mod length vs) \<and>
    tk_taskid ts' = tk_taskid ts \<and> tk_count ts' = tk_count ts \<and> tk_balanceCount ts' = tk_balanceCount ts"
  using assms
proof (induction k arbitrary: s ts c j "is")
  case 0
  then show ?case by simp
next
  case (Suc k)
  let ?n = "length vs" let ?c = "Suc c mod length vs" let ?v = "vs ! (Suc c mod length vs)"
  obtain il where il: "next_d (tk_inst ts) = Some ((True, Some ?v), il)" "clist_rel il (vs, ?c)"
    using insts.step_ok [OF Suc.prems(2,3,4)] by blast
  have cl: "?c < ?n" using Suc.prems(4) by (intro mod_less_divisor) linarith
  then have v: "?v \<in> set vs" by simp
  then obtain i where i: "?v \<noteq> NULL" "s_inst s ?v = Some i" using Suc.prems(7) by (auto simp: alive_def)
  have "unat (of_nat (Suc c) :: UINT) = Suc c" using Suc.prems(3,5) by (simp add: unat_of_nat take_bit_nat_eq_self del: of_nat_Suc)
  moreover have "of_nat c + 1 = (of_nat (Suc c) :: UINT)" by simp
  ultimately have u: "uint (of_nat c + 1 :: UINT) = int (Suc c)" by (simp only: uint_nat)
  have pos: "(if uint (tk_instpos ts + 1) \<ge> clist_count il then 0 else tk_instpos ts + 1) = of_nat ?c"
    using u insts.num_ok [OF il(2)] Suc.prems(3,6) by (cases "Suc c = ?n") (auto simp: add.commute)
  define ts1 where "ts1 = ts\<lparr>tk_inst := il, tk_instpos := of_nat ?c\<rparr>"
  define s1 where "s1 = s\<lparr>s_task := (s_task s)(p \<mapsto> ts1)\<rparr>"
  have loop: "getTask_loop wc (Suc k) p is s = (if is_weight i = 0 \<and> \<not> is_shuttingDown i then use_instance wc p ?v i ts1 s1 else getTask_loop wc k p ?v s1)"
    using Suc.prems(1) il(1) i pos by (simp add: Let_def ts1_def s1_def)
  show ?case
  proof (cases j)
    case 0
    have "avail s ?v" using Suc.prems(9) 0 by simp
    then have "is_weight i = 0 \<and> \<not> is_shuttingDown i" using i(2) by (simp add: avail_def)
    then show ?thesis using loop i(2) il(2) 0 by (intro exI [of _ ts1] exI [of _ i]) (simp add: ts1_def s1_def fun_upd_def del: getTask_loop.simps)
  next
    case (Suc j')
    have "\<not> avail s ?v" using Suc.prems(10) Suc by (metis add_Suc_right add.right_neutral zero_less_Suc)
    then have no: "\<not> (is_weight i = 0 \<and> \<not> is_shuttingDown i)" using i(2) by (auto simp: avail_def)
    have m: "(?c + Suc x) mod ?n = (c + Suc (Suc x)) mod ?n" for x by (metis add_Suc add_Suc_right mod_add_left_eq)
    have av: "avail s1 x = avail s x" for x by (simp add: avail_def s1_def)
    have "\<exists>ts' i'. s_inst s1 (vs ! ((?c + Suc j') mod ?n)) = Some i' \<and> is_weight i' = 0 \<and>
        getTask_loop wc k p ?v s1 = use_instance wc p (vs ! ((?c + Suc j') mod ?n)) i' ts' (s1\<lparr>s_task := (s_task s1)(p \<mapsto> ts')\<rparr>) \<and>
        clist_rel (tk_inst ts') (vs, (?c + Suc j') mod ?n) \<and> tk_instpos ts' = of_nat ((?c + Suc j') mod ?n) \<and>
        tk_taskid ts' = tk_taskid ts1 \<and> tk_count ts' = tk_count ts1 \<and> tk_balanceCount ts' = tk_balanceCount ts1"
    proof (rule Suc.IH)
      show "s_task s1 p = Some ts1" by (simp add: s1_def)
      show "clist_rel (tk_inst ts1) (vs, ?c)" "tk_instpos ts1 = of_nat ?c" using il(2) by (simp_all add: ts1_def)
      show "\<forall>v \<in> set vs. alive s1 v" using Suc.prems(7) by (simp add: alive_def s1_def)
      show "avail s1 (vs ! ((?c + Suc j') mod ?n))" using Suc.prems(9) Suc by (simp only: m av)
      show "\<forall>j'' < j'. \<not> avail s1 (vs ! ((?c + Suc j'') mod ?n))" using Suc.prems(10) Suc by (simp only: m av) auto
    qed (use Suc.prems Suc cl in auto)
    then obtain ts' i' where t: "s_inst s1 (vs ! ((?c + Suc j') mod ?n)) = Some i'" "is_weight i' = 0"
        "getTask_loop wc k p ?v s1 = use_instance wc p (vs ! ((?c + Suc j') mod ?n)) i' ts' (s1\<lparr>s_task := (s_task s1)(p \<mapsto> ts')\<rparr>)"
        "clist_rel (tk_inst ts') (vs, (?c + Suc j') mod ?n)" "tk_instpos ts' = of_nat ((?c + Suc j') mod ?n)"
        "tk_taskid ts' = tk_taskid ts1" "tk_count ts' = tk_count ts1" "tk_balanceCount ts' = tk_balanceCount ts1" by blast
    have "s1\<lparr>s_task := (s_task s1)(p \<mapsto> ts')\<rparr> = s\<lparr>s_task := (s_task s)(p \<mapsto> ts')\<rparr>" by (simp add: s1_def)
    moreover have "s_inst s1 = s_inst s" by (simp add: s1_def)
    moreover have "tk_taskid ts1 = tk_taskid ts" "tk_count ts1 = tk_count ts" "tk_balanceCount ts1 = tk_balanceCount ts" by (simp_all add: ts1_def)
    ultimately show ?thesis using loop no t unfolding m Suc by (intro exI [of _ ts'] exI [of _ i']) (simp add: fun_upd_def del: getTask_loop.simps)
  qed
qed

lemma core_task_upd [simp]: "tcs_core (s\<lparr>s_task := x\<rparr>) = tcs_core s" "inst_core (s\<lparr>s_task := x\<rparr>) = inst_core s"
  by (simp_all add: tcs_core_def inst_core_def fun_eq_iff)

lemma use_instance_ok:
  assumes "p \<noteq> NULL" "clist_rel (tk_inst ts) (vs, c)" "vs \<noteq> []" "length vs < 2 ^ 12" "\<forall>w \<in> set vs. alive s w" "wc_ok wc"
    "\<forall>w \<in> set vs. \<forall>i. s_inst s w = Some i \<longrightarrow> \<not> is_shuttingDown i" "v \<in> set vs" "s_inst s v = Some i" "is_weight i = 0"
  shows "\<exists>s' ts'. use_instance wc p v i ts s = Some (is_tcs i, s') \<and> same_shape s s' \<and> s_task s' = (s_task s)(p \<mapsto> ts') \<and>
    tk_inst ts' = tk_inst ts \<and> tk_instpos ts' = tk_instpos ts \<and> tk_taskid ts' = tk_taskid ts \<and> tk_balanceCount ts' = tk_balanceCount ts \<and>
    (\<forall>w. w \<notin> set vs \<longrightarrow> s_inst s' w = s_inst s w) \<and> (\<exists>w \<in> set vs. avail s' w) \<and>
    (tk_count ts + 1 \<le> tk_balanceCount ts \<longrightarrow> tk_count ts' = tk_count ts + 1 \<and> (\<forall>w. avail s' w = avail s w))"
proof -
  define ts1 where "ts1 = ts\<lparr>tk_count := tk_count ts + 1\<rparr>"
  define s1 where "s1 = s\<lparr>s_task := (s_task s)(p \<mapsto> ts1), s_inst := (s_inst s)(v \<mapsto> i\<lparr>is_count := is_count i + 1\<rparr>)\<rparr>"
  have sh: "same_shape s s1" using assms(9) by (auto simp: same_shape_def s1_def tcs_core_def inst_core_def fun_eq_iff)
  have av: "avail s1 w = avail s w" for w using assms(9) by (auto simp: avail_def s1_def)
  have "avail s v" using assms(7,8,9,10) by (auto simp: avail_def)
  then have ex: "\<exists>w \<in> set vs. avail s1 w" using assms(8) av by blast
  show ?thesis
  proof (cases "tk_count ts1 > tk_balanceCount ts1")
    case True
    have al: "\<forall>w \<in> set vs. alive s1 w" using assms(5) alive_shape [OF sh] by blast
    have nd: "\<forall>w \<in> set vs. \<forall>i. s_inst s1 w = Some i \<longrightarrow> \<not> is_shuttingDown i" using assms(7,8,9) by (auto simp: s1_def)
    obtain s2 where s2: "balanceCheck wc p s1 = Some s2" "same_shape s1 s2" "s_task s2 = s_task s1"
      "\<forall>w. w \<notin> set vs \<longrightarrow> s_inst s2 w = s_inst s1 w" "\<exists>w \<in> set vs. avail s2 w"
      using balanceCheck_ok [of s1 p ts1 vs c wc] assms(1,2,3,4,6) al nd ex by (auto simp: s1_def ts1_def)
    let ?s = "s2\<lparr>s_task := (s_task s2)(p \<mapsto> ts1\<lparr>tk_count := 0\<rparr>)\<rparr>"
    have u: "use_instance wc p v i ts s = Some (is_tcs i, ?s)"
      using True s2(1,3) unfolding use_instance_def by (simp add: Let_def s1_def ts1_def)
    have "same_shape s ?s" using same_shape_trans [OF sh s2(2)] by (simp add: same_shape_def)
    moreover have "s_task ?s = (s_task s)(p \<mapsto> ts1\<lparr>tk_count := 0\<rparr>)" using s2(3) by (simp add: s1_def)
    moreover have "\<forall>w. w \<notin> set vs \<longrightarrow> s_inst ?s w = s_inst s w" using s2(4) assms(8) by (auto simp: s1_def)
    moreover have "\<exists>w \<in> set vs. avail ?s w" using s2(5) by (simp add: avail_def)
    moreover have "\<not> tk_count ts + 1 \<le> tk_balanceCount ts" using True by (simp add: ts1_def not_le)
    ultimately show ?thesis using u by (intro exI [of _ ?s] exI [of _ "ts1\<lparr>tk_count := 0\<rparr>"]) (simp add: ts1_def)
  next
    case False
    then have "use_instance wc p v i ts s = Some (is_tcs i, s1)" unfolding use_instance_def by (simp add: Let_def s1_def ts1_def)
    then show ?thesis using sh ex av assms(8) by (intro exI [of _ s1] exI [of _ ts1]) (auto simp: s1_def ts1_def)
  qed
qed

section \<open>The dialog tables\<close>

text \<open>A buffer without limit holds a finite map from sessions to task instances.\<close>

abbreviation ents_map :: "('k, 'v) eb_value list \<Rightarrow> 'k \<rightharpoonup> 'v" where
  "ents_map es \<equiv> map_of (map (\<lambda>e. (ev_key e, ev_value e)) es)"

definition dlg_rel :: "('k, 'v) ebuf \<Rightarrow> ('k \<rightharpoonup> 'v) \<Rightarrow> bool" where
  "dlg_rel b f = (\<exists>s. eb_rel b s \<and> es_max s = 0 \<and> f = ents_map (es_ents s))"

lemma ents_map_pos: "ents_map es k = (if key_pos es k < length es then Some (ev_value (es ! key_pos es k)) else None)"
  by (induction es) (auto simp: key_pos_def)

lemma ents_map_perm: "distinct (map ev_key es) \<Longrightarrow> set (map (\<lambda>e. (ev_key e, ev_value e)) es) = set (map (\<lambda>e. (ev_key e, ev_value e)) es') \<Longrightarrow>
    distinct (map ev_key es') \<Longrightarrow> ents_map es' = ents_map es"
  by (rule map_of_inject_set [THEN iffD2]) (simp_all add: comp_def)

lemma eb_rel_distinct: "eb_rel b s \<Longrightarrow> distinct (map ev_key (es_ents s))"
  by (auto simp: eb_rel_def eb_rep_def)

lemma dlg_find:
  assumes "dlg_rel b f"
  obtains b' where "eb_find b k = Some (f k, b')" "dlg_rel b' f"
proof -
  obtain s where s: "eb_rel b s" "es_max s = 0" "f = ents_map (es_ents s)" using assms by (auto simp: dlg_rel_def)
  let ?j = "key_pos (es_ents s) k"
  have "eb_refines (EFind k) 0 b s" by (rule eb_refines_all [OF s(1)])
  then have *: "\<exists>b'. eo_v (eb_find b k) = Some (if ?j < length (es_ents s) then (1, [], [ev_value (es_ents s ! ?j)]) else no_out, b') \<and>
      eb_rel b' (if ?j < length (es_ents s) then s\<lparr>es_cur := Some ?j\<rparr> else s)"
    by (auto simp: eb_refines_def Let_def split: if_splits)
  then obtain r b' where b': "eb_find b k = Some (r, b')" "eb_rel b' (if ?j < length (es_ents s) then s\<lparr>es_cur := Some ?j\<rparr> else s)"
    by (auto simp: eo_v_def bind_Some_iff)
  have "r = f k" using * b'(1) ents_map_pos [of "es_ents s" k] by (auto simp: eo_v_def s(3) split: option.splits if_splits)
  moreover have "dlg_rel b' f" using b'(2) s unfolding dlg_rel_def by (intro exI [of _ "if ?j < length (es_ents s) then s\<lparr>es_cur := Some ?j\<rparr> else s"]) auto
  ultimately show thesis using b'(1) that by blast
qed

lemma dlg_update:
  assumes "dlg_rel b f"
  obtains r b' where "eb_update b k t now = Some (r, b')" "dlg_rel b' f"
proof -
  obtain s where s: "eb_rel b s" "es_max s = 0" "f = ents_map (es_ents s)" using assms by (auto simp: dlg_rel_def)
  let ?j = "key_pos (es_ents s) k" let ?e = "(es_ents s ! ?j)\<lparr>m_refreshtime := eb_oldtime t now\<rparr>"
  let ?s = "if ?j < length (es_ents s) then spec_refresh ?j ?e s else s"
  have "eb_refines (EUpdate k t) now b s" by (rule eb_refines_all [OF s(1)])
  then obtain r b' where b': "eb_update b k t now = Some (r, b')" "eb_rel b' ?s"
    by (auto simp: eb_refines_def Let_def eo_b_def bind_Some_iff split: if_splits)
  have "ents_map (es_ents ?s) = ents_map (es_ents s)"
  proof (cases "?j < length (es_ents s)")
    case True
    have "es_ents s = take ?j (es_ents s) @ es_ents s ! ?j # drop (Suc ?j) (es_ents s)" using True by (simp add: id_take_nth_drop)
    then have "set (map (\<lambda>e. (ev_key e, ev_value e)) (es_ents s)) = set (map (\<lambda>e. (ev_key e, ev_value e)) (es_ents ?s))"
      using True by (simp add: spec_refresh_def) (metis (no_types, lifting) Un_insert_right image_Un image_insert list.simps(15) set_append)
    then show ?thesis using eb_rel_distinct [OF s(1)] eb_rel_distinct [OF b'(2)] by (intro ents_map_perm)
  qed simp
  then have "dlg_rel b' f" using b'(2) s unfolding dlg_rel_def by (intro exI [of _ ?s]) (auto simp: spec_refresh_def)
  then show thesis using b'(1) that by blast
qed

lemma dlg_pop_old:
  assumes "dlg_rel b f"
  obtains n b' f' where "eb_pop_old b t clk = Some (n, b')" "dlg_rel b' f'" "f' \<subseteq>\<^sub>m f"
proof -
  obtain s where s: "eb_rel b s" "es_max s = 0" "f = ents_map (es_ents s)" using assms by (auto simp: dlg_rel_def)
  let ?ws = "drop_old (es_living s) t clk 0 (es_ents s)"
  let ?s = "if length ?ws = length (es_ents s) then s else s\<lparr>es_ents := ?ws, es_cur := Some 0\<rparr>"
  have "eb_refines (EPopOld t clk) 0 b s" by (rule eb_refines_all [OF s(1)])
  then obtain n b' where b': "eb_pop_old b t clk = Some (n, b')" "eb_rel b' ?s" by (auto simp: eb_refines_def Let_def eo_i_def bind_Some_iff)
  obtain m where m: "?ws = drop m (es_ents s)" using drop_old_suffix by blast
  have "ents_map ?ws \<subseteq>\<^sub>m f"
  proof -
    have split: "es_ents s = take m (es_ents s) @ ?ws" using m by simp
    moreover have "distinct (map ev_key (es_ents s))" by (rule eb_rel_distinct [OF s(1)])
    ultimately have "ev_key ` set (take m (es_ents s)) \<inter> ev_key ` set ?ws = {}" by (metis distinct_append map_append list.set_map)
    then have d: "dom (ents_map (take m (es_ents s))) \<inter> dom (ents_map ?ws) = {}" by (simp add: dom_map_of_conv_image_fst image_image)
    have "f = ents_map ?ws ++ ents_map (take m (es_ents s))" unfolding s(3)
      by (subst split) (simp only: map_append map_of_append)
    then have "f = ents_map (take m (es_ents s)) ++ ents_map ?ws" using map_add_comm [OF d] by simp
    then show ?thesis using map_le_map_add by metis
  qed
  then have "ents_map (es_ents ?s) \<subseteq>\<^sub>m f" using s(3) by auto
  moreover have "dlg_rel b' (ents_map (es_ents ?s))" using b'(2) s(2) unfolding dlg_rel_def by (intro exI [of _ ?s]) auto
  ultimately show thesis using b'(1) that by blast
qed

lemma dlg_push:
  assumes "dlg_rel b f"
  obtains r b' where "eb_push b k v now = Some (r, b')" "dlg_rel b' (if k \<in> dom f then f else f(k \<mapsto> v))"
proof -
  obtain s where s: "eb_rel b s" "es_max s = 0" "f = ents_map (es_ents s)" using assms by (auto simp: dlg_rel_def)
  let ?in = "k \<in> ev_key ` set (es_ents s)"
  let ?s = "if ?in then s else s\<lparr>es_ents := es_ents s @ [eb_value_new k v 0 now], es_cur := Some (length (es_ents s))\<rparr>"
  have d: "(k \<in> dom f) = ?in" unfolding s(3) by (simp add: dom_map_of_conv_image_fst image_image)
  have "eb_refines (EPush k v) now b s" by (rule eb_refines_all [OF s(1)])
  then obtain r b' where b': "eb_push_old b k v now = Some (r, b')" "eb_rel b' ?s"
    using s(2) by (auto simp: eb_refines_def Let_def eo_iv_def bind_Some_iff split: if_splits)
  then obtain q where q: "eb_push b k v now = Some (q, b')" by (auto simp: eb_push_old_def bind_Some_iff)
  have "ents_map (es_ents ?s) = (if ?in then f else f(k \<mapsto> v))"
  proof (cases ?in)
    case False
    then have "f k = None" using d by auto
    then show ?thesis using False unfolding s(3) by (auto simp: eb_value_new_def Let_def fun_eq_iff map_add_def split: option.splits)
  qed (simp add: s(3))
  then have "dlg_rel b' (if k \<in> dom f then f else f(k \<mapsto> v))" using b'(2) s(2) unfolding dlg_rel_def d by (intro exI [of _ ?s]) auto
  then show thesis using q that by blast
qed

lemma dlg_new: obtains b where "eb_new 0 False l = Some b" "dlg_rel b Map.empty"
proof -
  obtain b :: "('a, 'b) ebuf" where b: "eb_new 0 False l = Some b" "eb_rel b (espec_new 0 False l)" using eb_new_ok by blast
  have "dlg_rel b Map.empty" unfolding dlg_rel_def by (rule exI [of _ "espec_new 0 False l"]) (use b in \<open>simp add: espec_new_def\<close>)
  then show thesis using b that by blast
qed

lemma dlg_living: "dlg_rel b f \<Longrightarrow> dlg_rel (eb_setLivingTime b t) f"
proof -
  assume "dlg_rel b f"
  then obtain s where s: "eb_rel b s" "es_max s = 0" "f = ents_map (es_ents s)" by (auto simp: dlg_rel_def)
  have "eb_refines (ESetLiving t) 0 b s" by (rule eb_refines_all [OF s(1)])
  then have "eb_rel (eb_setLivingTime b t) (s\<lparr>es_living := t\<rparr>)" by (simp add: eb_refines_def)
  then show ?thesis using s unfolding dlg_rel_def by (intro exI [of _ "s\<lparr>es_living := t\<rparr>"]) simp
qed

section \<open>The invariant of the selector\<close>

abbreviation ptab_ok :: "(UINT, addr) htable \<Rightarrow> bool" where
  "ptab_ok t \<equiv> \<exists>L. ht_rep GetHash t L"

abbreviation ctab :: "TTaskSelector \<Rightarrow> UINT \<Rightarrow> addr option" where
  "ctab s \<equiv> uh_get (mContainerList s)"

abbreviation ttab :: "TTaskSelector \<Rightarrow> UINT \<Rightarrow> addr option" where
  "ttab s \<equiv> uh_get (mTaskList s)"

definition members :: "TTaskSelector \<Rightarrow> UINT \<Rightarrow> addr list" where
  "members s tid = (case ttab s tid of None \<Rightarrow> [] | Some p \<Rightarrow> (case s_task s p of None \<Rightarrow> [] | Some ts \<Rightarrow> the (insts_of (tk_inst ts))))"

definition cid_of :: "TTaskSelector \<Rightarrow> addr \<Rightarrow> UINT" where
  "cid_of s v = (case s_inst s v of None \<Rightarrow> 0 | Some i \<Rightarrow> is_tcid i)"

definition cont_ok :: "TTaskSelector \<Rightarrow> UINT \<Rightarrow> addr \<Rightarrow> bool" where
  "cont_ok s cid q = (cid \<noteq> 0 \<and> cid \<le> MAX_TASKCONTAINERID \<and> q \<noteq> NULL \<and>
     (\<exists>t c. s_tcs s q = Some t \<and> tcid t = cid \<and> tc t \<noteq> NULL \<and> containers s (tc t) = Some c \<and> c_containerId c = cid))"

definition inst_ok :: "TTaskSelector \<Rightarrow> UINT \<Rightarrow> addr \<Rightarrow> bool" where
  "inst_ok s tid v = (v \<noteq> NULL \<and> (\<exists>i t c. s_inst s v = Some i \<and> ctab s (is_tcid i) = Some (is_tcs i) \<and> s_tcs s (is_tcs i) = Some t \<and>
     containers s (tc t) = Some c \<and> task_at c tid \<noteq> None))"

definition task_ok :: "TTaskSelector \<Rightarrow> UINT \<Rightarrow> addr \<Rightarrow> bool" where
  "task_ok s tid p = (tid \<noteq> 0 \<and> p \<noteq> NULL \<and> (\<exists>ts c. s_task s p = Some ts \<and> tk_taskid ts = tid \<and> clist_rel (tk_inst ts) (members s tid, c) \<and>
       unat (tk_instpos ts) < length (members s tid)) \<and>
     distinct (map (cid_of s) (members s tid)) \<and> (\<forall>v \<in> set (members s tid). inst_ok s tid v) \<and> (\<exists>v \<in> set (members s tid). avail s v))"

definition fresh :: "TTaskSelector \<Rightarrow> bool" where
  "fresh s = (0 < s_brk s \<and> (\<forall>q \<ge> s_brk s. s_tcs s q = None \<and> s_inst s q = None \<and> s_task s q = None \<and> containers s q = None))"

definition sel_inv :: "TTaskSelector \<Rightarrow> bool" where
  "sel_inv s = (ptab_ok (mContainerList s) \<and> ptab_ok (mTaskList s) \<and>
     (\<forall>cid q. ctab s cid = Some q \<longrightarrow> cont_ok s cid q) \<and> (\<forall>tid p. ttab s tid = Some p \<longrightarrow> task_ok s tid p) \<and>
     (\<forall>tid tid'. tid \<noteq> tid' \<longrightarrow> set (members s tid) \<inter> set (members s tid') = {}) \<and>
     (\<forall>v i. s_inst s v = Some i \<longrightarrow> \<not> is_shuttingDown i) \<and>
     (\<exists>f. dlg_rel (mIntDialog s) f) \<and> (\<exists>g. dlg_rel (mStrDialog s) g) \<and> fresh s)"

lemma inst_ok_shape:
  assumes "same_shape s s'" "inst_ok s tid v"
  shows "inst_ok s' tid v"
proof -
  obtain i t c where i: "v \<noteq> NULL" "s_inst s v = Some i" "ctab s (is_tcid i) = Some (is_tcs i)" "s_tcs s (is_tcs i) = Some t"
     "containers s (tc t) = Some c" "task_at c tid \<noteq> None" using assms(2) by (auto simp: inst_ok_def)
  obtain i' where i': "s_inst s' v = Some i'" "is_tcid i' = is_tcid i" "is_tcs i' = is_tcs i" using same_shape_inst [OF assms(1) i(2)] by blast
  obtain t' where "s_tcs s' (is_tcs i) = Some t'" "tc t' = tc t" using same_shape_tcs [OF assms(1) i(4)] by blast
  then show ?thesis using i i' assms(1) unfolding inst_ok_def same_shape_def by auto
qed

lemma inst_ok_alive: "inst_ok s tid v \<Longrightarrow> alive s v"
  by (auto simp: inst_ok_def alive_def)

lemma cid_of_shape: "same_shape s s' \<Longrightarrow> cid_of s' = cid_of s"
proof
  fix v assume sh: "same_shape s s'"
  have "inst_core s' v = inst_core s v" using sh by (simp add: same_shape_def)
  then show "cid_of s' v = cid_of s v" by (auto simp: cid_of_def inst_core_def split: option.splits)
qed

lemma cont_ok_shape: "same_shape s s' \<Longrightarrow> cont_ok s cid q \<Longrightarrow> cont_ok s' cid q"
proof -
  assume sh: "same_shape s s'" and c: "cont_ok s cid q"
  obtain t b where t: "s_tcs s q = Some t" "tcid t = cid" "tc t \<noteq> NULL" "containers s (tc t) = Some b" "c_containerId b = cid" using c by (auto simp: cont_ok_def)
  obtain t' where "s_tcs s' q = Some t'" "tcid t' = tcid t" "tc t' = tc t" using same_shape_tcs [OF sh t(1)] by blast
  moreover have "containers s' = containers s" using sh by (simp add: same_shape_def)
  ultimately show ?thesis using t c by (simp add: cont_ok_def)
qed

text \<open>A task has fewer instances than there are container identifiers.\<close>

lemma members_few:
  assumes "sel_inv s" "ttab s tid = Some p"
  shows "length (members s tid) < 2 ^ 12" "members s tid \<noteq> []"
proof -
  let ?cs = "map (cid_of s) (members s tid)"
  have t: "task_ok s tid p" using assms by (simp add: sel_inv_def)
  then show "members s tid \<noteq> []" by (auto simp: task_ok_def)
  have "unat ` set ?cs \<subseteq> {1..4095}"
  proof (clarsimp)
    fix v assume "v \<in> set (members s tid)"
    then obtain i where "s_inst s v = Some i" "ctab s (is_tcid i) = Some (is_tcs i)" using t by (auto simp: task_ok_def inst_ok_def)
    then have "cont_ok s (cid_of s v) (is_tcs i)" using assms(1) by (simp add: sel_inv_def cid_of_def)
    then have "cid_of s v \<noteq> 0" "cid_of s v \<le> 4095" by (auto simp: cont_ok_def)
    then show "Suc 0 \<le> unat (cid_of s v) \<and> unat (cid_of s v) \<le> 4095"
      by (simp add: word_le_nat_alt Suc_le_eq unat_gt_0)
  qed
  then have "card (unat ` set ?cs) \<le> card {1..4095 :: nat}" by (intro card_mono) auto
  moreover have "card (unat ` set ?cs) = length ?cs"
  proof -
    have "card (unat ` set ?cs) = card (set ?cs)" by (rule card_image, rule inj_onI) (simp only: word_unat_eq_iff)
    then show ?thesis using t distinct_card [of ?cs] by (simp add: task_ok_def)
  qed
  ultimately show "length (members s tid) < 2 ^ 12" by simp
qed

lemma members_eq: "ttab s tid = Some p \<Longrightarrow> s_task s p = Some ts \<Longrightarrow> clist_rel (tk_inst ts) (vs, c) \<Longrightarrow> members s tid = vs"
  using insts.items_ok by (fastforce simp: members_def)

lemma task_okD:
  assumes "sel_inv s" "ttab s tid = Some p"
  obtains ts c where "tid \<noteq> 0" "p \<noteq> NULL" "s_task s p = Some ts" "tk_taskid ts = tid" "clist_rel (tk_inst ts) (members s tid, c)"
    "unat (tk_instpos ts) < length (members s tid)" "distinct (map (cid_of s) (members s tid))"
    "\<forall>v \<in> set (members s tid). inst_ok s tid v" "\<exists>v \<in> set (members s tid). avail s v"
proof -
  have "task_ok s tid p" using assms by (simp add: sel_inv_def)
  then show thesis using that unfolding task_ok_def by blast
qed

lemma sel_inv_taskid:
  assumes "sel_inv s" "ttab s tid = Some p" "ttab s tid' = Some p"
  shows "tid' = tid"
  by (rule task_okD [OF assms(1,2)], rule task_okD [OF assms(1,3)]) simp

lemma shape_none: "same_shape s s' \<Longrightarrow> (s_tcs s' q = None) = (s_tcs s q = None) \<and> (s_inst s' q = None) = (s_inst s q = None)"
proof -
  assume "same_shape s s'"
  then have "tcs_core s' q = tcs_core s q" "inst_core s' q = inst_core s q" by (simp_all add: same_shape_def)
  then show ?thesis by (cases "s_tcs s q"; cases "s_tcs s' q"; cases "s_inst s q"; cases "s_inst s' q") (auto simp: tcs_core_def inst_core_def)
qed

lemma sel_inv_dispatch:
  assumes inv: "sel_inv s" and p: "ttab s tid = Some p" and sh: "same_shape s s'" and tsk: "s_task s' = (s_task s)(p \<mapsto> ts')"
    and rel: "clist_rel (tk_inst ts') (members s tid, c)" and pos: "unat (tk_instpos ts') < length (members s tid)" and tt: "tk_taskid ts' = tid"
    and others: "\<forall>w. w \<notin> set (members s tid) \<longrightarrow> s_inst s' w = s_inst s w" and av: "\<exists>w \<in> set (members s tid). avail s' w"
  shows "sel_inv s' \<and> members s' = members s"
proof -
  have tabs: "mContainerList s' = mContainerList s" "mTaskList s' = mTaskList s" "s_brk s' = s_brk s" "containers s' = containers s"
    "mIntDialog s' = mIntDialog s" "mStrDialog s' = mStrDialog s" using sh by (simp_all add: same_shape_def)
  have mem: "members s' x = members s x" for x
  proof (cases "ttab s x = Some p")
    case True
    then have "x = tid" using sel_inv_taskid [OF inv p] by simp
    then show ?thesis using members_eq [of s' tid p ts' "members s tid" c] p tsk rel tabs(2) by simp
  next
    case False
    then show ?thesis by (auto simp: members_def tsk tabs(2) split: option.splits)
  qed
  have disj: "\<forall>tid tid'. tid \<noteq> tid' \<longrightarrow> set (members s tid) \<inter> set (members s tid') = {}" using inv by (simp add: sel_inv_def)
  have tok: "task_ok s' x q" if q: "ttab s x = Some q" for x q
  proof -
    obtain ts0 c0 where t: "x \<noteq> 0" "q \<noteq> NULL" "s_task s q = Some ts0" "tk_taskid ts0 = x" "clist_rel (tk_inst ts0) (members s x, c0)"
      "unat (tk_instpos ts0) < length (members s x)" "distinct (map (cid_of s) (members s x))"
      "\<forall>v \<in> set (members s x). inst_ok s x v" "\<exists>v \<in> set (members s x). avail s v" by (rule task_okD [OF inv q])
    have 1: "\<forall>v \<in> set (members s x). inst_ok s' x v" using t(8) inst_ok_shape [OF sh] by blast
    have 2: "\<exists>v \<in> set (members s x). avail s' v"
    proof (cases "x = tid")
      case False
      then have "\<forall>v \<in> set (members s x). avail s' v = avail s v" using disj others unfolding avail_def by (metis disjoint_iff)
      then show ?thesis using t(9) by blast
    qed (use av in simp)
    have 3: "\<exists>ts c. s_task s' q = Some ts \<and> tk_taskid ts = x \<and> clist_rel (tk_inst ts) (members s x, c) \<and> unat (tk_instpos ts) < length (members s x)"
    proof (cases "q = p")
      case True
      then have "x = tid" using sel_inv_taskid [OF inv p] q by simp
      then show ?thesis using True tsk rel pos tt by auto
    qed (use t tsk in auto)
    show ?thesis using t(1,2,7) 1 2 3 cid_of_shape [OF sh] by (simp add: task_ok_def mem)
  qed
  have nd: "\<not> is_shuttingDown i" if vi: "s_inst s' v = Some i" for v i
  proof -
    obtain i0 where "s_inst s v = Some i0" using vi shape_none [OF sh, of v] by (cases "s_inst s v") auto
    moreover have "\<not> is_shuttingDown i0" using inv calculation unfolding sel_inv_def by blast
    ultimately show ?thesis using same_shape_inst [OF sh, of v i0] vi by auto
  qed
  have fr: "fresh s'"
  proof -
    have f: "fresh s" using inv unfolding sel_inv_def by blast
    obtain ts0 where "s_task s p = Some ts0" by (rule task_okD [OF inv p])
    then have "p < s_brk s" using f unfolding fresh_def by (metis not_le option.distinct(1))
    then show ?thesis using f shape_none [OF sh] by (simp add: fresh_def tabs tsk)
  qed
  have "\<forall>tid p. ttab s' tid = Some p \<longrightarrow> task_ok s' tid p" using tok by (simp add: tabs)
  moreover have "\<forall>cid q. ctab s' cid = Some q \<longrightarrow> cont_ok s' cid q" using inv cont_ok_shape [OF sh] by (auto simp: sel_inv_def tabs)
  ultimately have "sel_inv s'" using inv nd fr disj by (simp add: sel_inv_def tabs mem)
  then show ?thesis using mem by blast
qed

definition pos_of :: "TTaskSelector \<Rightarrow> UINT \<Rightarrow> nat" where
  "pos_of s tid = (case ttab s tid of None \<Rightarrow> 0 | Some p \<Rightarrow> (case s_task s p of None \<Rightarrow> 0 | Some ts \<Rightarrow> unat (tk_instpos ts)))"

definition task_obj :: "TTaskSelector \<Rightarrow> UINT \<Rightarrow> TaskState option" where
  "task_obj s tid = (case ttab s tid of None \<Rightarrow> None | Some p \<Rightarrow> s_task s p)"

definition turn :: "TTaskSelector \<Rightarrow> UINT \<Rightarrow> nat \<Rightarrow> addr" where
  "turn s tid j = members s tid ! ((pos_of s tid + Suc j) mod length (members s tid))"

lemma sint_small: "unat (w :: UINT) < 2 ^ 12 \<Longrightarrow> sint w = int (unat w)"
proof -
  assume a: "unat w < 2 ^ 12"
  define k where "k = int (unat w)"
  have "unat w < 4096" using a by simp
  then have k: "0 \<le> k" "k < 4096" unfolding k_def by linarith+
  have "w = word_of_int k" by (simp add: k_def)
  moreover have "sint (word_of_int k :: UINT) = k" unfolding sint_sbintrunc' by (rule signed_take_bit_int_eq_self) (use k in simp_all)
  ultimately show ?thesis by (simp add: k_def)
qed

lemma unat_of_nat_small: "k < 2 ^ 12 \<Longrightarrow> unat (of_nat k :: UINT) = k"
  by (simp add: unat_of_nat take_bit_nat_eq_self)

lemma ex_turn:
  assumes "x \<in> set vs" "P x"
  shows "\<exists>j < length vs. P (vs ! ((c + Suc j) mod length vs)) \<and> (\<forall>j' < j. \<not> P (vs ! ((c + Suc j') mod length vs)))"
proof -
  let ?n = "length vs"
  obtain k where k: "k < ?n" "vs ! k = x" using assms(1) by (auto simp: in_set_conv_nth)
  define j where "j = (k + ?n * Suc c - Suc c) mod ?n"
  have n: "0 < ?n" using k by linarith
  have "(c + Suc j) mod ?n = (Suc c + (k + ?n * Suc c - Suc c)) mod ?n" unfolding j_def add_Suc_right add_Suc [symmetric] by (rule mod_add_right_eq)
  also have "Suc c + (k + ?n * Suc c - Suc c) = k + ?n * Suc c" using n by (metis le_add2 le_add_diff_inverse le_trans mult_le_cancel2 mult_1 Suc_leI One_nat_def)
  also have "(k + ?n * Suc c) mod ?n = k" using k(1) by (simp only: mod_mult_self2 mod_less)
  finally have j: "P (vs ! ((c + Suc j) mod ?n))" using k assms(2) by simp
  define j0 where "j0 = (LEAST j. P (vs ! ((c + Suc j) mod ?n)))"
  have "j < ?n" using n by (simp add: j_def)
  moreover have "j0 \<le> j" unfolding j0_def using j by (rule Least_le)
  moreover have "P (vs ! ((c + Suc j0) mod ?n))" unfolding j0_def using j by (rule LeastI)
  moreover have "\<forall>j' < j0. \<not> P (vs ! ((c + Suc j') mod ?n))" unfolding j0_def using not_less_Least by blast
  ultimately show ?thesis by (intro exI [of _ j0]) auto
qed

text \<open>The instance that is chosen: the first available one after the position.\<close>

lemma getTask_ok:
  assumes inv: "sel_inv s" and p: "ttab s tid = Some p" and wc: "wc_ok wc"
  obtains j i s' ts ts' where "j < length (members s tid)" "avail s (turn s tid j)" "\<forall>j' < j. \<not> avail s (turn s tid j')"
    "turn s tid j \<in> set (members s tid)" "s_inst s (turn s tid j) = Some i" "getTask wc tid 0 s = Some (is_tcs i, s')"
    "sel_inv s'" "same_shape s s'" "members s' = members s" "task_obj s tid = Some ts" "task_obj s' tid = Some ts'"
    "pos_of s' tid = (pos_of s tid + Suc j) mod length (members s tid)" "tk_balanceCount ts' = tk_balanceCount ts"
    "1 < length (members s tid) \<Longrightarrow> tk_count ts + 1 \<le> tk_balanceCount ts \<Longrightarrow> tk_count ts' = tk_count ts + 1 \<and> avail s' = avail s"
proof -
  let ?vs = "members s tid" let ?n = "length (members s tid)" let ?c = "pos_of s tid"
  obtain ts c0 where t: "tid \<noteq> 0" "p \<noteq> NULL" "s_task s p = Some ts" "tk_taskid ts = tid" "clist_rel (tk_inst ts) (?vs, c0)"
    "unat (tk_instpos ts) < ?n" "distinct (map (cid_of s) ?vs)" "\<forall>v \<in> set ?vs. inst_ok s tid v" "\<exists>v \<in> set ?vs. avail s v" by (rule task_okD [OF inv p])
  have few: "?n < 2 ^ 12" "?vs \<noteq> []" using members_few [OF inv p] by auto
  have c: "?c = unat (tk_instpos ts)" "?c < ?n" "tk_instpos ts = of_nat ?c" using p t(3,6) by (simp_all add: pos_of_def)
  have al: "\<forall>v \<in> set ?vs. alive s v" using t(8) inst_ok_alive by blast
  have nd: "\<forall>v \<in> set ?vs. \<forall>i. s_inst s v = Some i \<longrightarrow> \<not> is_shuttingDown i" using inv unfolding sel_inv_def by blast
  have num: "clist_count (tk_inst ts) = int ?n" using insts.num_ok [OF t(5)] .
  have to: "task_obj s tid = Some ts" using p t(3) by (simp add: task_obj_def)
  obtain j where j: "j < ?n" "avail s (turn s tid j)" "\<forall>j' < j. \<not> avail s (turn s tid j')"
    using ex_turn [of _ ?vs "avail s" ?c] t(9) unfolding turn_def by blast
  have lt: "(?c + Suc j) mod ?n < ?n" by (rule mod_less_divisor) (use j(1) in linarith)
  then have tin: "turn s tid j \<in> set ?vs" by (simp add: turn_def)
  obtain i where i: "s_inst s (turn s tid j) = Some i" using j(2) by (auto simp: avail_def)
  show thesis
  proof (cases "?n = 1")
    case True
    then obtain v where v: "?vs = [v]" by (auto simp: length_Suc_conv)
    have vt: "turn s tid j = v" using v tin by simp
    obtain il where il: "front_v (tk_inst ts) = Some ((True, Some v), il)" "clist_rel il (?vs, 0)" using insts.first_ok [OF t(5) few(2)] v by auto
    let ?ts = "ts\<lparr>tk_inst := il\<rparr>" let ?s = "s\<lparr>s_task := (s_task s)(p \<mapsto> ts\<lparr>tk_inst := il\<rparr>)\<rparr>"
    have g: "getTask wc tid 0 s = Some (is_tcs i, ?s)" using t(1,2,3) p num True il(1) i vt by (simp add: getTask_def word_gt_0)
    have sh: "same_shape s ?s" by (simp add: same_shape_def)
    have avs: "avail ?s = avail s" by (simp add: avail_def fun_eq_iff)
    have "sel_inv ?s \<and> members ?s = members s"
      by (rule sel_inv_dispatch [OF inv p sh, of ?ts 0]) (use il(2) t(4,6,9) avs in auto)
    moreover have "pos_of ?s tid = (?c + Suc j) mod ?n" using c True p by (simp add: pos_of_def)
    moreover have "task_obj ?s tid = Some ?ts" using p by (simp add: task_obj_def)
    ultimately show thesis using j tin i g sh to True by (intro that [of j i ?s ts ?ts]) auto
  next
    case False
    then have n1: "1 < ?n" using few(2) by (cases ?vs) auto
    obtain il where il: "reset_pos (tk_inst ts) (int ?c) = Some (True, il)" "clist_rel il (?vs, ?c)" using insts.goto_ok [OF t(5) c(2)] by blast
    have si: "sint (tk_instpos ts) = int ?c" using less_trans [OF t(6) few(1)] unfolding c(1) by (rule sint_small)
    define ts1 where "ts1 = ts\<lparr>tk_inst := il\<rparr>" define s1 where "s1 = s\<lparr>s_task := (s_task s)(p \<mapsto> ts1)\<rparr>"
    have g: "getTask wc tid 0 s = getTask_loop wc ?n p NULL s1"
      using t(1,2,3) p num n1 few(2) il(1) si insts.num_ok [OF il(2)] unfolding getTask_def s1_def ts1_def by (simp add: word_gt_0 Let_def)
    have avs: "avail s1 = avail s" "alive s1 = alive s" "s_inst s1 = s_inst s" by (simp_all add: avail_def alive_def fun_eq_iff s1_def)
    have "\<exists>ts' i. s_inst s1 (?vs ! ((?c + Suc j) mod ?n)) = Some i \<and> is_weight i = 0 \<and>
      getTask_loop wc ?n p NULL s1 = use_instance wc p (?vs ! ((?c + Suc j) mod ?n)) i ts' (s1\<lparr>s_task := (s_task s1)(p \<mapsto> ts')\<rparr>) \<and>
      clist_rel (tk_inst ts') (?vs, (?c + Suc j) mod ?n) \<and> tk_instpos ts' = of_nat ((?c + Suc j) mod ?n) \<and>
      tk_taskid ts' = tk_taskid ts1 \<and> tk_count ts' = tk_count ts1 \<and> tk_balanceCount ts' = tk_balanceCount ts1"
    proof (rule getTask_loop_ok [OF _ _ c(2) n1 few(1) _ _ j(1)])
      show "s_task s1 p = Some ts1" "clist_rel (tk_inst ts1) (?vs, ?c)" 
        using il(2) by (simp_all add: s1_def ts1_def)
      have "tk_instpos ts1 = tk_instpos ts" by (simp add: ts1_def)
      then show "tk_instpos ts1 = of_nat ?c" using c(3) by (rule trans)
      show "\<forall>v \<in> set ?vs. alive s1 v" "avail s1 (?vs ! ((?c + Suc j) mod ?n))" "\<forall>j' < j. \<not> avail s1 (?vs ! ((?c + Suc j') mod ?n))"
        using al j(2,3) unfolding avs turn_def by blast+
    qed
    then obtain ts2 where t2: "is_weight i = 0"
      "getTask_loop wc ?n p NULL s1 = use_instance wc p (turn s tid j) i ts2 (s1\<lparr>s_task := (s_task s1)(p \<mapsto> ts2)\<rparr>)"
      "clist_rel (tk_inst ts2) (?vs, (?c + Suc j) mod ?n)" "tk_instpos ts2 = of_nat ((?c + Suc j) mod ?n)"
      "tk_taskid ts2 = tid" "tk_count ts2 = tk_count ts" "tk_balanceCount ts2 = tk_balanceCount ts"
      using i t(4) by (auto simp: avs turn_def ts1_def)
    define s2 where "s2 = s1\<lparr>s_task := (s_task s1)(p \<mapsto> ts2)\<rparr>"
    have av2: "avail s2 = avail s" "alive s2 = alive s" "s_inst s2 = s_inst s" by (simp_all add: avail_def alive_def fun_eq_iff s1_def s2_def)
    obtain s' ts' where u: "use_instance wc p (turn s tid j) i ts2 s2 = Some (is_tcs i, s')" "same_shape s2 s'" "s_task s' = (s_task s2)(p \<mapsto> ts')"
      "tk_inst ts' = tk_inst ts2" "tk_instpos ts' = tk_instpos ts2" "tk_taskid ts' = tk_taskid ts2" "tk_balanceCount ts' = tk_balanceCount ts2"
      "\<forall>w. w \<notin> set ?vs \<longrightarrow> s_inst s' w = s_inst s2 w" "\<exists>w \<in> set ?vs. avail s' w"
      "tk_count ts2 + 1 \<le> tk_balanceCount ts2 \<longrightarrow> tk_count ts' = tk_count ts2 + 1 \<and> (\<forall>w. avail s' w = avail s2 w)"
      using use_instance_ok [OF t(2) t2(3) few(2,1), of s2 wc "turn s tid j" i] al nd wc tin i t2(1) unfolding av2 by blast
    have sh: "same_shape s s'" using same_shape_trans [OF _ u(2), of s] by (simp add: same_shape_def s1_def s2_def)
    have tk: "s_task s' = (s_task s)(p \<mapsto> ts')" using u(3) by (simp add: s1_def s2_def)
    have pos: "unat (tk_instpos ts') = (?c + Suc j) mod ?n"
      unfolding u(5) t2(4) by (rule unat_of_nat_small, rule less_trans [OF mod_less_divisor few(1)]) (use n1 in linarith)
    have "sel_inv s' \<and> members s' = members s"
      by (rule sel_inv_dispatch [OF inv p sh tk, of "(?c + Suc j) mod ?n"]) (use u(4,6,8,9) t2(3,5) pos lt n1 av2 in simp_all)
    moreover have "mTaskList s' = mTaskList s" using sh by (simp add: same_shape_def)
    moreover have "task_obj s' tid = Some ts'" using p tk calculation by (simp add: task_obj_def)
    moreover have "pos_of s' tid = (?c + Suc j) mod ?n" using p tk pos calculation by (simp add: pos_of_def)
    moreover have "tk_balanceCount ts' = tk_balanceCount ts" using u(7) t2(7) by simp
    moreover have "tk_count ts' = tk_count ts + 1 \<and> avail s' = avail s" if "tk_count ts + 1 \<le> tk_balanceCount ts"
      using u(10) t2(6,7) that unfolding av2 by (simp add: fun_eq_iff)
    moreover have "getTask wc tid 0 s = Some (is_tcs i, s')" using g t2(2) u(1) by (simp add: s2_def)
    ultimately show thesis using j tin i sh to by (intro that [of j i s' ts ts']) auto
  qed
qed

section \<open>Delivery\<close>

text \<open>The invariant reads neither the counters nor the contents of the queues.\<close>

lemma sel_inv_views:
  assumes "sel_inv s" "ctab s' = ctab s" "ttab s' = ttab s" "s_tcs s' = s_tcs s" "s_inst s' = s_inst s" "s_task s' = s_task s" "s_brk s' = s_brk s"
    "containers s' = containers s" "dlg_rel (mIntDialog s') f" "dlg_rel (mStrDialog s') g" "ptab_ok (mContainerList s')" "ptab_ok (mTaskList s')"
  shows "sel_inv s' \<and> members s' = members s \<and> pos_of s' = pos_of s \<and> avail s' = avail s"
proof -
  have e: "members s' = members s" "cid_of s' = cid_of s" "avail s' = avail s" "pos_of s' = pos_of s"
    by (intro ext; simp add: assms(2-8) members_def cid_of_def avail_def pos_of_def cong: option.case_cong)+
  have "cont_ok s' = cont_ok s" "inst_ok s' = inst_ok s" "fresh s' = fresh s"
    by ((intro ext)?; simp add: assms(2-8) cont_ok_def inst_ok_def fresh_def)+
  then have "task_ok s' = task_ok s" using e by (intro ext) (simp add: assms(6) task_ok_def)
  then have "sel_inv s'" using assms e \<open>cont_ok s' = cont_ok s\<close> \<open>fresh s' = fresh s\<close> unfolding sel_inv_def by auto
  then show ?thesis using e by blast
qed

lemma sel_inv_cong:
  assumes "sel_inv s" "mContainerList s' = mContainerList s" "mTaskList s' = mTaskList s" "s_tcs s' = s_tcs s" "s_inst s' = s_inst s"
    "s_task s' = s_task s" "s_brk s' = s_brk s" "containers s' = containers s" "dlg_rel (mIntDialog s') f" "dlg_rel (mStrDialog s') g"
  shows "sel_inv s' \<and> members s' = members s \<and> pos_of s' = pos_of s \<and> avail s' = avail s"
  by (rule sel_inv_views [OF assms(1) _ _ assms(4-10)]) (use assms(1-3) in \<open>simp_all add: sel_inv_def\<close>)

text \<open>Replacing a container by one with the same tasks.\<close>

definition same_jobs :: "TTaskContainer \<Rightarrow> TTaskContainer \<Rightarrow> bool" where
  "same_jobs c c' = (c_containerId c' = c_containerId c \<and> (\<forall>tid. (task_at c' tid = None) = (task_at c tid = None)))"

lemma sel_inv_container:
  assumes "sel_inv s" "containers s a = Some c" "same_jobs c c'"
  shows "sel_inv (s\<lparr>containers := (containers s)(a \<mapsto> c')\<rparr>) \<and> members (s\<lparr>containers := (containers s)(a \<mapsto> c')\<rparr>) = members s"
proof -
  let ?s = "s\<lparr>containers := (containers s)(a \<mapsto> c')\<rparr>"
  have e: "members ?s = members s" "cid_of ?s = cid_of s" "avail ?s = avail s"
    by (intro ext; simp add: members_def cid_of_def avail_def cong: option.case_cong)+
  have "(\<exists>b. ((containers s)(a \<mapsto> c')) x = Some b \<and> c_containerId b = n) = (\<exists>b. containers s x = Some b \<and> c_containerId b = n)" for x n
    using assms(2,3) by (auto simp: same_jobs_def)
  then have 1: "cont_ok ?s = cont_ok s" by (intro ext) (simp add: cont_ok_def del: fun_upd_apply)
  have 2: "inst_ok ?s tid v" if iv: "inst_ok s tid v" for tid v
  proof -
    obtain i t b where i: "v \<noteq> NULL" "s_inst s v = Some i" "ctab s (is_tcid i) = Some (is_tcs i)" "s_tcs s (is_tcs i) = Some t"
      "containers s (tc t) = Some b" "task_at b tid \<noteq> None" using iv unfolding inst_ok_def by blast
    then have "task_at (the (((containers s)(a \<mapsto> c')) (tc t))) tid \<noteq> None" using assms(2,3) by (auto simp: same_jobs_def simp del: not_None_eq)
    then show ?thesis using i assms(2) unfolding inst_ok_def by (cases "tc t = a") auto
  qed
  then have "task_ok s tid p \<Longrightarrow> task_ok ?s tid p" for tid p using e by (auto simp: task_ok_def)
  moreover have "a < s_brk s" using assms(1,2) unfolding sel_inv_def fresh_def by (metis not_le option.distinct(1))
  then have "fresh s \<Longrightarrow> fresh ?s" by (simp add: fresh_def)
  ultimately have "sel_inv ?s" using assms(1) 1 e(1) unfolding sel_inv_def by auto
  then show ?thesis using e by blast
qed

lemma same_jobs_add: "same_jobs c (tc_add m c)"
  by (simp add: same_jobs_def task_at_def tc_add_def)

text \<open>The container of an instance.\<close>

definition box_of :: "TTaskSelector \<Rightarrow> addr \<Rightarrow> addr option" where
  "box_of s v = do { i \<leftarrow> s_inst s v; t \<leftarrow> s_tcs s (is_tcs i); Some (tc t) }"

lemma box_of_shape: "same_shape s s' \<Longrightarrow> box_of s' = box_of s"
proof
  fix v assume sh: "same_shape s s'"
  show "box_of s' v = box_of s v"
  proof (cases "s_inst s v")
    case None
    then show ?thesis using shape_none [OF sh, of v] by (simp add: box_of_def)
  next
    case (Some i)
    then obtain i' where i': "s_inst s' v = Some i'" "is_tcs i' = is_tcs i" using same_shape_inst [OF sh Some] by blast
    show ?thesis
    proof (cases "s_tcs s (is_tcs i)")
      case None
      then show ?thesis using Some i' shape_none [OF sh, of "is_tcs i"] by (simp add: box_of_def)
    next
      case (Some t)
      then show ?thesis using \<open>s_inst s v = Some i\<close> i' same_shape_tcs [OF sh Some] by (auto simp: box_of_def)
    qed
  qed
qed

lemma deliver_ok:
  assumes "sel_inv s" "containers s a = Some c"
  obtains s' where "deliver a m s = Some s'" "s' = s\<lparr>containers := (containers s)(a \<mapsto> tc_add m c)\<rparr>" "sel_inv s'" "members s' = members s"
  using sel_inv_container [OF assms same_jobs_add] assms(2) that by (simp add: deliver_def)

text \<open>Delivery changes only the address of a message below the logical address.\<close>

definition readdressed :: "TUniNetMsg \<Rightarrow> TUniNetMsg \<Rightarrow> bool" where
  "readdressed m m' = (m' = m\<lparr>tAddr := tAddr m'\<rparr> \<and> logAddr (tAddr m') = logAddr (tAddr m))"

definition hdr_ok :: "TUniNetMsg \<Rightarrow> bool" where
  "hdr_ok m = (hasCtrlMsgHdr m \<longrightarrow> ctrlMsgHdr m \<noteq> None)"

lemma hdr_ok_session: "hdr_ok m \<Longrightarrow> \<exists>h. session_hdr m = Some h"
  by (auto simp: hdr_ok_def session_hdr_def)

lemma readdressed_refl [simp]: "readdressed m m"
  by (simp add: readdressed_def)

lemma readdressed_trans: "readdressed m m' \<Longrightarrow> readdressed m' m'' \<Longrightarrow> readdressed m m''"
  unfolding readdressed_def by (cases m; cases m'; cases m'') simp

lemma readdressed_hdr: "readdressed m m' \<Longrightarrow> hdr_ok m \<Longrightarrow> hdr_ok m'"
  unfolding readdressed_def hdr_ok_def hasCtrlMsgHdr_def by (cases m; cases m') simp

lemma readdressed_upd [simp]:
  "readdressed m (m\<lparr>tAddr := (tAddr m)\<lparr>phyAddr := x\<rparr>\<rparr>)" "readdressed m (m\<lparr>tAddr := (tAddr m)\<lparr>taskInstID := y\<rparr>\<rparr>)"
  "readdressed m (m\<lparr>tAddr := (tAddr m)\<lparr>taskInstID := y, phyAddr := x\<rparr>\<rparr>)" "readdressed m (route_by k m)"
  by (simp_all add: readdressed_def route_by_def)

lemma find_session_ok:
  assumes "dlg_rel (mIntDialog s) f" "dlg_rel (mStrDialog s) g"
  obtains m' i d f' g' where "find_session now c m s = Some (m', s\<lparr>mIntDialog := i, mStrDialog := d\<rparr>)" "readdressed m m'"
    "dlg_rel i f'" "dlg_rel d g'" "f' \<subseteq>\<^sub>m f" "g' \<subseteq>\<^sub>m g"
proof -
  let ?first = "if getSessionId c > 0 then do {
         (r, b) \<leftarrow> eb_find (mIntDialog s) (getSessionId c);
         (case r of Some tk \<Rightarrow> if key_tcid tk > 0 \<and> key_tiid tk > 0 then do {
                (_, b) \<leftarrow> eb_update b (getSessionId c) (mCurrentTime s) now;
                Some (route_by tk m, s\<lparr>mIntDialog := b\<rparr>) }
              else Some (m, s\<lparr>mIntDialog := b\<rparr>)
          | None \<Rightarrow> Some (m, s\<lparr>mIntDialog := b\<rparr>)) }
       else (case getSessionId_str c of
           Some ssid \<Rightarrow> if ssid \<noteq> [] then do {
               (r, b) \<leftarrow> eb_find (mStrDialog s) (cstr ssid);
               (case r of Some tk \<Rightarrow> if key_tcid tk > 0 \<and> key_tiid tk > 0 then do {
                      (_, b) \<leftarrow> eb_update b (cstr ssid) (mCurrentTime s) now;
                      Some (route_by tk m, s\<lparr>mStrDialog := b\<rparr>) }
                    else Some (m, s\<lparr>mStrDialog := b\<rparr>)
                | None \<Rightarrow> Some (m, s\<lparr>mStrDialog := b\<rparr>)) }
             else Some (m, s)
         | None \<Rightarrow> Some (m, s))"
  have idem: "s\<lparr>mIntDialog := b\<rparr> = s\<lparr>mIntDialog := b, mStrDialog := mStrDialog s\<rparr>" "s\<lparr>mStrDialog := e\<rparr> = s\<lparr>mIntDialog := mIntDialog s, mStrDialog := e\<rparr>"
    "s = s\<lparr>mIntDialog := mIntDialog s, mStrDialog := mStrDialog s\<rparr>" for b e by simp_all
  have "\<exists>m' i d. ?first = Some (m', s\<lparr>mIntDialog := i, mStrDialog := d\<rparr>) \<and> readdressed m m' \<and> dlg_rel i f \<and> dlg_rel d g"
  proof (cases "getSessionId c > 0")
    case True
    obtain b where b: "eb_find (mIntDialog s) (getSessionId c) = Some (f (getSessionId c), b)" "dlg_rel b f" by (rule dlg_find [OF assms(1)])
    obtain r b' where b': "eb_update b (getSessionId c) (mCurrentTime s) now = Some (r, b')" "dlg_rel b' f" by (rule dlg_update [OF b(2)])
    show ?thesis using True b b' assms(2) idem(1) by (cases "f (getSessionId c)") force+
  next
    case False
    show ?thesis
    proof (cases "getSessionId_str c = None \<or> getSessionId_str c = Some []")
      case True
      then have "?first = Some (m, s\<lparr>mIntDialog := mIntDialog s, mStrDialog := mStrDialog s\<rparr>)" using False by auto
      then show ?thesis using assms readdressed_refl by blast
    next
      case str: False
      then obtain x where x: "getSessionId_str c = Some x" "x \<noteq> []" by auto
      obtain b where b: "eb_find (mStrDialog s) (cstr x) = Some (g (cstr x), b)" "dlg_rel b g" by (rule dlg_find [OF assms(2)])
      obtain r b' where b': "eb_update b (cstr x) (mCurrentTime s) now = Some (r, b')" "dlg_rel b' g" by (rule dlg_update [OF b(2)])
      show ?thesis using False x b b' assms(1) idem(2) by (cases "g (cstr x)") force+
    qed
  qed
  then obtain m' i d where 1: "?first = Some (m', s\<lparr>mIntDialog := i, mStrDialog := d\<rparr>)" "readdressed m m'" "dlg_rel i f" "dlg_rel d g" by blast
  obtain n i' f' where 2: "eb_pop_old i (mCurrentTime s) (\<lambda>_. now) = Some (n, i')" "dlg_rel i' f'" "f' \<subseteq>\<^sub>m f" by (rule dlg_pop_old [OF 1(3)])
  obtain k d' g' where 3: "eb_pop_old d (mCurrentTime s) (\<lambda>_. now) = Some (k, d')" "dlg_rel d' g'" "g' \<subseteq>\<^sub>m g" by (rule dlg_pop_old [OF 1(4)])
  have "find_session now c m s = Some (m', s\<lparr>mIntDialog := i', mStrDialog := d'\<rparr>)" unfolding find_session_def 1(1) using 2 3 by simp
  then show thesis using 1(2) 2 3 that by blast
qed

text \<open>What dispatching changes apart from the queues: neither tables, nor instances, nor their containers.\<close>

definition steady :: "TTaskSelector \<Rightarrow> TTaskSelector \<Rightarrow> bool" where
  "steady s s' = (sel_inv s' \<and> members s' = members s \<and> ctab s' = ctab s \<and> ttab s' = ttab s \<and> tcs_core s' = tcs_core s \<and> inst_core s' = inst_core s)"

lemma steady_refl: "sel_inv s \<Longrightarrow> steady s s"
  by (simp add: steady_def)

lemma steady_trans: "steady s s1 \<Longrightarrow> steady s1 s2 \<Longrightarrow> steady s s2"
  by (simp add: steady_def)

lemma steady_shape: "sel_inv s' \<Longrightarrow> members s' = members s \<Longrightarrow> same_shape s s' \<Longrightarrow> steady s s'"
  by (simp add: steady_def same_shape_def)

lemma steady_same:
  "sel_inv s' \<Longrightarrow> members s' = members s \<Longrightarrow> mContainerList s' = mContainerList s \<Longrightarrow> mTaskList s' = mTaskList s \<Longrightarrow> s_tcs s' = s_tcs s \<Longrightarrow>
    s_inst s' = s_inst s \<Longrightarrow> steady s s'"
  by (simp add: steady_def tcs_core_def inst_core_def fun_eq_iff)

lemma begin_session_ok:
  assumes "dlg_rel (mIntDialog s) f" "dlg_rel (mStrDialog s) g"
  obtains i d f' g' where "begin_session now c tk s = Some (s\<lparr>mIntDialog := i, mStrDialog := d\<rparr>)" "dlg_rel i f'" "dlg_rel d g'"
    "getSessionId c > 0 \<Longrightarrow> f' = (if getSessionId c \<in> dom f then f else f(getSessionId c \<mapsto> tk))"
proof (cases "getSessionId c > 0")
  case True
  obtain r b where b: "eb_push (mIntDialog s) (getSessionId c) tk now = Some (r, b)" "dlg_rel b (if getSessionId c \<in> dom f then f else f(getSessionId c \<mapsto> tk))"
    by (rule dlg_push [OF assms(1)])
  then show thesis using True assms(2) that [where i = b and d = "mStrDialog s"] by (simp add: begin_session_def)
next
  case False
  show thesis
  proof (cases "getSessionId_str c = None \<or> getSessionId_str c = Some []")
    case True
    then show thesis using False assms that [where i = "mIntDialog s" and d = "mStrDialog s"] by (auto simp: begin_session_def)
  next
    case str: False
    then obtain x where x: "getSessionId_str c = Some x" "x \<noteq> []" by auto
    obtain r b where b: "eb_push (mStrDialog s) (cstr x) tk now = Some (r, b)" "dlg_rel b (if cstr x \<in> dom g then g else g(cstr x \<mapsto> tk))"
      by (rule dlg_push [OF assms(2)])
    then show thesis using False x assms(1) that [where i = "mIntDialog s" and d = b] by (simp add: begin_session_def)
  qed
qed

lemma sel_inv_dialogs:
  assumes "sel_inv s" "dlg_rel i f" "dlg_rel d g"
  shows "sel_inv (s\<lparr>mIntDialog := i, mStrDialog := d\<rparr>)" "members (s\<lparr>mIntDialog := i, mStrDialog := d\<rparr>) = members s"
    "pos_of (s\<lparr>mIntDialog := i, mStrDialog := d\<rparr>) = pos_of s" "avail (s\<lparr>mIntDialog := i, mStrDialog := d\<rparr>) = avail s"
  using sel_inv_cong [OF assms(1), of "s\<lparr>mIntDialog := i, mStrDialog := d\<rparr>" f g] assms(2,3) by simp_all

lemma sel_inv_counters:
  assumes "sel_inv s"
  shows "sel_inv (s\<lparr>sendMsgToTaskCount := n\<rparr>)" "members (s\<lparr>sendMsgToTaskCount := n\<rparr>) = members s"
    "sel_inv (s\<lparr>multicastMsgCount := n\<rparr>)" "members (s\<lparr>multicastMsgCount := n\<rparr>) = members s"
    "sel_inv (s\<lparr>broadcastMsgCount := n\<rparr>)" "members (s\<lparr>broadcastMsgCount := n\<rparr>) = members s"
    "sel_inv (s\<lparr>mCurrentTime := t\<rparr>)" "members (s\<lparr>mCurrentTime := t\<rparr>) = members s"
proof -
  obtain f g where "dlg_rel (mIntDialog s) f" "dlg_rel (mStrDialog s) g" using assms unfolding sel_inv_def by blast
  then have *: "mContainerList s' = mContainerList s \<Longrightarrow> mTaskList s' = mTaskList s \<Longrightarrow> s_tcs s' = s_tcs s \<Longrightarrow> s_inst s' = s_inst s \<Longrightarrow>
    s_task s' = s_task s \<Longrightarrow> s_brk s' = s_brk s \<Longrightarrow> containers s' = containers s \<Longrightarrow> mIntDialog s' = mIntDialog s \<Longrightarrow> mStrDialog s' = mStrDialog s \<Longrightarrow>
    sel_inv s' \<and> members s' = members s" for s' using sel_inv_cong [OF assms, of s' f g] by simp
  show "sel_inv (s\<lparr>sendMsgToTaskCount := n\<rparr>)" "members (s\<lparr>sendMsgToTaskCount := n\<rparr>) = members s"
    "sel_inv (s\<lparr>multicastMsgCount := n\<rparr>)" "members (s\<lparr>multicastMsgCount := n\<rparr>) = members s"
    "sel_inv (s\<lparr>broadcastMsgCount := n\<rparr>)" "members (s\<lparr>broadcastMsgCount := n\<rparr>) = members s"
    "sel_inv (s\<lparr>mCurrentTime := t\<rparr>)" "members (s\<lparr>mCurrentTime := t\<rparr>) = members s" by (rule * [THEN conjunct1] * [THEN conjunct2]; simp)+
qed

lemma hand_over_ok:
  assumes inv: "sel_inv s" and t: "s_tcs s item = Some t" and c: "containers s (tc t) = Some c" and h: "hdr_ok m"
  obtains m' s' where "hand_over now tid cid item m s = Some (True, s')" "readdressed m m'" "steady s s'"
    "containers s' = (containers s)(tc t \<mapsto> tc_add (UniNet m') c)"
proof -
  obtain f g where fg: "dlg_rel (mIntDialog s) f" "dlg_rel (mStrDialog s) g" using inv unfolding sel_inv_def by blast
  let ?new = "if dialogType m = DIALOG_BEGIN \<and> taskInstID (tAddr m) = 0 then do {
         c \<leftarrow> containers s (tc t);
         let taskinstid = tc_genTaskInst tid c;
         let msg = m\<lparr>tAddr := (tAddr m)\<lparr>taskInstID := taskinstid\<rparr>\<rparr>;
         let msg = (if cid = 0 then msg\<lparr>tAddr := (tAddr msg)\<lparr>phyAddr := tcid t\<rparr>\<rparr> else msg);
         hdr \<leftarrow> session_hdr msg;
         s \<leftarrow> (case hdr of Some h \<Rightarrow> begin_session now h \<lparr>key_tcid = tcid t, key_tiid = taskinstid\<rparr> s | None \<Rightarrow> Some s);
         Some (msg, s) }
       else Some (m, s)"
  have "\<exists>m' i d f' g'. ?new = Some (m', s\<lparr>mIntDialog := i, mStrDialog := d\<rparr>) \<and> readdressed m m' \<and> dlg_rel i f' \<and> dlg_rel d g'"
  proof (cases "dialogType m = DIALOG_BEGIN \<and> taskInstID (tAddr m) = 0")
    case True
    define m1 where "m1 = m\<lparr>tAddr := (tAddr m)\<lparr>taskInstID := tc_genTaskInst tid c\<rparr>\<rparr>"
    define m2 where "m2 = (if cid = 0 then m1\<lparr>tAddr := (tAddr m1)\<lparr>phyAddr := tcid t\<rparr>\<rparr> else m1)"
    have re: "readdressed m m2" by (simp add: m2_def m1_def)
    obtain hd where hd: "session_hdr m2 = Some hd" using hdr_ok_session [OF readdressed_hdr [OF re h]] by blast
    show ?thesis
    proof (cases hd)
      case None
      then have "?new = Some (m2, s)" using True c hd by (cases "cid = 0") (simp_all add: Let_def m1_def m2_def)
      then show ?thesis using re fg by (intro exI [of _ m2] exI [of _ "mIntDialog s"] exI [of _ "mStrDialog s"] exI [of _ f] exI [of _ g]) simp
    next
      case (Some x)
      obtain i d f' g' where b: "begin_session now x \<lparr>key_tcid = tcid t, key_tiid = tc_genTaskInst tid c\<rparr> s = Some (s\<lparr>mIntDialog := i, mStrDialog := d\<rparr>)"
        "dlg_rel i f'" "dlg_rel d g'" by (rule begin_session_ok [OF fg])
      then have "?new = Some (m2, s\<lparr>mIntDialog := i, mStrDialog := d\<rparr>)" using True c hd Some by (cases "cid = 0") (simp_all add: Let_def m1_def m2_def)
      then show ?thesis using re b by blast
    qed
  next
    case False
    then have "?new = Some (m, s\<lparr>mIntDialog := mIntDialog s, mStrDialog := mStrDialog s\<rparr>)" by auto
    then show ?thesis using fg readdressed_refl by blast
  qed
  then obtain m' i d f' g' where n: "?new = Some (m', s\<lparr>mIntDialog := i, mStrDialog := d\<rparr>)" "readdressed m m'" "dlg_rel i f'" "dlg_rel d g'" by blast
  let ?s = "s\<lparr>mIntDialog := i, mStrDialog := d\<rparr>"
  have "sel_inv ?s" "containers ?s (tc t) = Some c" using sel_inv_dialogs [OF inv n(3,4)] c by simp_all
  then obtain s1 where s1: "deliver (tc t) (UniNet m') ?s = Some s1" "s1 = ?s\<lparr>containers := (containers ?s)(tc t \<mapsto> tc_add (UniNet m') c)\<rparr>" "sel_inv s1" "members s1 = members ?s"
    by (rule deliver_ok)
  have "hand_over now tid cid item m s = Some (True, s1\<lparr>sendMsgToTaskCount := sendMsgToTaskCount s1 + 1\<rparr>)"
    unfolding hand_over_def using t n(1) s1(1) by simp
  moreover have "containers (s1\<lparr>sendMsgToTaskCount := sendMsgToTaskCount s1 + 1\<rparr>) = (containers s)(tc t \<mapsto> tc_add (UniNet m') c)" using s1(2) by simp
  moreover have "members s1 = members s" using s1(4) sel_inv_dialogs(2) [OF inv n(3,4)] by simp
  moreover have "steady s (s1\<lparr>sendMsgToTaskCount := sendMsgToTaskCount s1 + 1\<rparr>)"
    by (rule steady_same) (use sel_inv_counters(1,2) [OF s1(3)] \<open>members s1 = members s\<close> s1(2) in simp_all)
  ultimately show thesis using that n(2) by blast
qed

end
