(* ===== verification/DispatchSpec.thy ===== *)
theory DispatchSpec
  imports TaskSelectorSpec
begin

text \<open>
  What dispatching does: \<open>getTask\<close> chooses as the reference \<open>next_instance\<close> does, \<open>sendMsgToTask\<close> puts
  the message into the container of the chosen instance, and the instances are served in turn.
\<close>

section \<open>The tables\<close>

lemma ptab_contains: "ptab_ok t \<Longrightarrow> uh_contains t k = (uh_get t k \<noteq> None)"
proof -
  assume "ptab_ok t"
  then obtain L where L: "ht_core GetHash t L" by (auto simp: ht_rep_def)
  then show ?thesis using uint_keys.containsKey_ok [OF L, of k] uint_keys.core_lookup [OF L]
    by (simp add: map_of_eq_None_iff)
qed

text \<open>The enumeration of the containers.\<close>

lemma ptab_enum:
  assumes "ptab_ok (t :: (UINT, addr) htable)"
  obtains kvs t' where "enum_collect (snd (ht_reset t)) = Some (kvs, t')" "ptab_ok t'" "uh_get t' = uh_get t" "distinct (map fst kvs)" "map_of kvs = uh_get t"
proof -
  obtain L where L: "ht_rep GetHash t L" using assms by blast
  note R = uint_keys.reset_ok [OF L]
  obtain t' where t': "enum_collect (snd (ht_reset t)) = Some (map (\<lambda>e. (m_key e, h_value e)) (concat (m_table t)), t')" "ht_rep GetHash t' L"
    using uint_keys.enum_collect_ok [OF R(1)] R(2) by auto
  let ?kvs = "map (\<lambda>e. (m_key e, h_value e)) (concat (m_table t))"
  have "image_mset snd (image_mset trip (mset (concat (m_table t)))) = mset (map snd L)"
    using L core_mset [of GetHash t L] by (simp add: ht_rep_def)
  then have ms: "mset ?kvs = mset (map snd L)" by (simp add: image_mset.compositionality comp_def trip_def)
  have dl: "distinct (map fst (map snd L))" using L by (simp add: ht_rep_def ht_core_def)
  have "mset (map fst ?kvs) = mset (map fst (map snd L))" using arg_cong [OF ms, of "image_mset fst"] by (simp only: mset_map)
  from mset_eq_imp_distinct_iff [OF this] have dk: "distinct (map fst ?kvs)" using dl by (rule iffD2)
  have g: "uh_get t = map_of (map snd L)" "uh_get t' = map_of (map snd L)" using L t'(2) uint_keys.core_lookup by (auto simp: ht_rep_def)
  have "map_of ?kvs = map_of (map snd L)" by (rule map_of_inject_set [THEN iffD2, OF dk dl]) (use ms mset_eq_setD in blast)
  then show thesis using t' dk g by (intro that [of ?kvs t']) auto
qed

lemma all_tcs_ok:
  assumes "sel_inv s"
  obtains qs ht where "all_tcs s = Some (qs, s\<lparr>mContainerList := ht\<rparr>)" "sel_inv (s\<lparr>mContainerList := ht\<rparr>)" "uh_get ht = ctab s"
    "members (s\<lparr>mContainerList := ht\<rparr>) = members s" "distinct qs" "set qs = ran (ctab s)"
proof -
  obtain f g where fg: "dlg_rel (mIntDialog s) f" "dlg_rel (mStrDialog s) g" using assms unfolding sel_inv_def by blast
  have tabs: "ptab_ok (mContainerList s)" "ptab_ok (mTaskList s)" using assms unfolding sel_inv_def by blast+
  obtain kvs t' where k: "enum_collect (snd (ht_reset (mContainerList s))) = Some (kvs, t')" "ptab_ok t'" "uh_get t' = ctab s"
    "distinct (map fst kvs)" "map_of kvs = ctab s" by (rule ptab_enum [OF tabs(1)])
  have co: "cont_ok s cid q" if "(cid, q) \<in> set kvs" for cid q
    using that map_of_is_SomeI [OF k(4)] k(5) assms unfolding sel_inv_def by metis
  have "distinct (map snd kvs)" unfolding distinct_map
  proof (intro conjI inj_onI)
    show "distinct kvs" using k(4) by (simp add: distinct_map)
    fix x y assume xy: "x \<in> set kvs" "y \<in> set kvs" "snd x = snd y"
    then have "cont_ok s (fst x) (snd x)" "cont_ok s (fst y) (snd x)" using co by (metis prod.collapse)+
    then show "x = y" using xy(3) by (auto simp: cont_ok_def prod_eq_iff)
  qed
  moreover have "set (map snd kvs) = ran (ctab s)" using ran_distinct [OF k(4)] k(5) by simp
  moreover have "sel_inv (s\<lparr>mContainerList := t'\<rparr>) \<and> members (s\<lparr>mContainerList := t'\<rparr>) = members s"
    using sel_inv_views [OF assms, of "s\<lparr>mContainerList := t'\<rparr>" f g] fg tabs(2) k(2,3) by simp
  ultimately show thesis using k by (intro that [of "map snd kvs" t']) (auto simp: all_tcs_def)
qed

text \<open>\<open>sendMsgToTask\<close>: without a container in the address the message goes to the first available instance in turn,
  with one to that container.\<close>

lemma parse_zero: "(if x > 0 then snd (parsePhyAddr x) else 0) = snd (parsePhyAddr x)"
  by (auto simp: parsePhyAddr_def word_gt_0)

abbreviation dest :: "TUniNetMsg \<Rightarrow> UINT" where
  "dest m \<equiv> snd (parsePhyAddr (phyAddr (tAddr m)))"

lemma send_prepare:
  assumes inv: "sel_inv s" and h: "hdr_ok m" and t: "ttab s (logAddr (tAddr m)) \<noteq> None"
  obtains m' s' where "sendMsgToTask now wc m s = do { (item, s) \<leftarrow> getTask wc (logAddr (tAddr m)) (dest m) s';
       if item \<noteq> NULL then hand_over now (logAddr (tAddr m)) (dest m) item m' s else Some (False, s) }" "readdressed m m'"
    "sel_inv s'" "members s' = members s" "pos_of s' = pos_of s" "avail s' = avail s" "containers s' = containers s" "s_tcs s' = s_tcs s" "s_inst s' = s_inst s"
    "mContainerList s' = mContainerList s" "mTaskList s' = mTaskList s"
proof -
  obtain f g where fg: "dlg_rel (mIntDialog s) f" "dlg_rel (mStrDialog s) g" using inv unfolding sel_inv_def by blast
  have con: "uh_contains (mTaskList s) (logAddr (tAddr m))" using ptab_contains t inv unfolding sel_inv_def by blast
  define m1 where "m1 = (if phyAddr (tAddr m) > 0 then m\<lparr>tAddr := (tAddr m)\<lparr>phyAddr := dest m\<rparr>\<rparr> else m)"
  have re: "readdressed m m1" by (simp add: m1_def)
  let ?h = "if dialogType m1 \<noteq> DIALOG_BEGIN \<and> dest m = 0 then session_hdr m1 else Some None"
  obtain hd where hd: "?h = Some hd" using hdr_ok_session [OF readdressed_hdr [OF re h]] by (cases "dialogType m1 \<noteq> DIALOG_BEGIN \<and> dest m = 0") auto
  have S: "sendMsgToTask now wc m s = do { (m2, s) \<leftarrow> (case hd of Some c \<Rightarrow> find_session now c m1 s | None \<Rightarrow> Some (m1, s));
     (item, s) \<leftarrow> getTask wc (logAddr (tAddr m)) (dest m) s;
     if item \<noteq> NULL then hand_over now (logAddr (tAddr m)) (dest m) item m2 s else Some (False, s) }"
    using con hd unfolding sendMsgToTask_def Let_def parse_zero m1_def [symmetric] by simp
  show thesis
  proof (cases hd)
    case None
    then show thesis using S re inv by (intro that [where m' = m1 and s' = s]) auto
  next
    case (Some c)
    obtain m2 i d f' g' where fs: "find_session now c m1 s = Some (m2, s\<lparr>mIntDialog := i, mStrDialog := d\<rparr>)" "readdressed m1 m2" "dlg_rel i f'" "dlg_rel d g'"
      by (rule find_session_ok [OF fg])
    then show thesis using S Some readdressed_trans [OF re fs(2)] sel_inv_dialogs [OF inv fs(3,4)]
      by (intro that [where m' = m2 and s' = "s\<lparr>mIntDialog := i, mStrDialog := d\<rparr>"]) auto
  qed
qed

text \<open>The reference: the first available instance behind the position, around the ring.\<close>

definition next_instance :: "TTaskSelector \<Rightarrow> UINT \<Rightarrow> addr option" where
  "next_instance s tid = find (avail s) (rotate (Suc (pos_of s tid)) (members s tid))"

lemma next_instance_turn:
  assumes "j < length (members s tid)" "avail s (turn s tid j)" "\<forall>j' < j. \<not> avail s (turn s tid j')"
  shows "next_instance s tid = Some (turn s tid j)"
proof -
  have n: "rotate (Suc (pos_of s tid)) (members s tid) ! k = turn s tid k" if "k < length (members s tid)" for k
    using that by (simp add: turn_def nth_rotate del: rotate_Suc)
  show ?thesis unfolding next_instance_def find_Some_iff using assms n by (intro exI [of _ j]) auto
qed

lemma member_box:
  assumes "sel_inv s" "ttab s tid = Some p" "v \<in> set (members s tid)" "s_inst s v = Some i"
  obtains t c where "ctab s (is_tcid i) = Some (is_tcs i)" "is_tcs i \<noteq> NULL" "s_tcs s (is_tcs i) = Some t" "containers s (tc t) = Some c" "task_at c tid \<noteq> None"
    "box_of s v = Some (tc t)" "c_containerId c = is_tcid i"
proof -
  have "inst_ok s tid v" using task_okD [OF assms(1,2)] assms(3) by metis
  then obtain t c where t: "ctab s (is_tcid i) = Some (is_tcs i)" "s_tcs s (is_tcs i) = Some t" "containers s (tc t) = Some c" "task_at c tid \<noteq> None"
    using assms(4) unfolding inst_ok_def by auto
  then have "cont_ok s (is_tcid i) (is_tcs i)" using assms(1) unfolding sel_inv_def by blast
  then show thesis using t assms(4) by (intro that [of t c]) (auto simp: cont_ok_def box_of_def)
qed

lemma getTask_chosen:
  assumes inv: "sel_inv s" and p: "ttab s tid = Some p" and wc: "wc_ok wc"
  obtains v i s' where "next_instance s tid = Some v" "v \<in> set (members s tid)" "s_inst s v = Some i" "getTask wc tid 0 s = Some (is_tcs i, s')" "sel_inv s'"
    "same_shape s s'" "members s' = members s" "members s tid ! pos_of s' tid = v"
proof (rule getTask_ok [OF inv p wc])
  fix j i s' ts ts'
  assume a: "j < length (members s tid)" "avail s (turn s tid j)" "\<forall>j'<j. \<not> avail s (turn s tid j')"
    "turn s tid j \<in> set (members s tid)" "s_inst s (turn s tid j) = Some i" "getTask wc tid 0 s = Some (is_tcs i, s')"
    "sel_inv s'" "same_shape s s'" "members s' = members s" "pos_of s' tid = (pos_of s tid + Suc j) mod length (members s tid)"
  have "members s tid ! pos_of s' tid = turn s tid j" by (simp add: a(10) turn_def)
  then show thesis using that [OF next_instance_turn [OF a(1-3)] a(4-9)] by blast
qed

lemma sendMsgToTask_ok:
  assumes inv: "sel_inv s" and wc: "wc_ok wc" and h: "hdr_ok m" and p: "ttab s (logAddr (tAddr m)) = Some p" and d: "dest m = 0"
  obtains v a c m' s' where "sendMsgToTask now wc m s = Some (True, s')" "next_instance s (logAddr (tAddr m)) = Some v" "v \<in> set (members s (logAddr (tAddr m)))"
    "box_of s v = Some a" "containers s a = Some c" "task_at c (logAddr (tAddr m)) \<noteq> None" "readdressed m m'"
    "containers s' = (containers s)(a \<mapsto> tc_add (UniNet m') c)" "steady s s'"
proof -
  let ?tid = "logAddr (tAddr m)"
  obtain m1 s1 where s1: "sendMsgToTask now wc m s = do { (item, s) \<leftarrow> getTask wc ?tid (dest m) s1;
       if item \<noteq> NULL then hand_over now ?tid (dest m) item m1 s else Some (False, s) }" "readdressed m m1"
    "sel_inv s1" "members s1 = members s" "pos_of s1 = pos_of s" "avail s1 = avail s" "containers s1 = containers s" "s_tcs s1 = s_tcs s" "s_inst s1 = s_inst s"
    "mContainerList s1 = mContainerList s" "mTaskList s1 = mTaskList s" by (rule send_prepare [OF inv h, of now wc]) (use p in simp)
  have p1: "ttab s1 ?tid = Some p" using p s1(11) by simp
  obtain v i s2 where s2: "next_instance s1 ?tid = Some v" "v \<in> set (members s1 ?tid)" "s_inst s1 v = Some i" "getTask wc ?tid 0 s1 = Some (is_tcs i, s2)" "sel_inv s2"
    "same_shape s1 s2" "members s2 = members s1" by (rule getTask_chosen [OF s1(3) p1 wc])
  obtain t c where t: "is_tcs i \<noteq> NULL" "s_tcs s1 (is_tcs i) = Some t" "containers s1 (tc t) = Some c" "task_at c ?tid \<noteq> None"
    "box_of s1 v = Some (tc t)" by (rule member_box [OF s1(3) p1 s2(2,3)])
  obtain t2 where t2: "s_tcs s2 (is_tcs i) = Some t2" "tc t2 = tc t" using same_shape_tcs [OF s2(6) t(2)] by blast
  have c2: "containers s2 = containers s" using s2(6) s1(7) by (simp add: same_shape_def)
  then have "containers s2 (tc t2) = Some c" using t(3) t2(2) s1(7) by simp
  then obtain m' s' where s': "hand_over now ?tid (dest m) (is_tcs i) m1 s2 = Some (True, s')" "readdressed m1 m'" "steady s2 s'"
    "containers s' = (containers s2)(tc t2 \<mapsto> tc_add (UniNet m') c)" by (rule hand_over_ok [OF s2(5) t2(1) _ readdressed_hdr [OF s1(2) h]])
  have "box_of s1 = box_of s" using s1(8,9) by (simp add: box_of_def fun_eq_iff)
  moreover have "next_instance s1 ?tid = next_instance s ?tid" by (simp add: next_instance_def s1(4,5,6))
  moreover have "sendMsgToTask now wc m s = Some (True, s')" using s1(1) d s2(4) s'(1) t(1) by simp
  moreover have "steady s s1" by (rule steady_same [OF s1(3,4,10,11,8,9)])
  moreover have "steady s1 s2" by (rule steady_shape [OF s2(5,7,6)])
  ultimately have "steady s s'" using steady_trans s'(3) by blast
  then show thesis using that [of s' v "tc t" c m'] s2 t s' t2(2) c2 s1(4,7) readdressed_trans [OF s1(2) s'(2)]
      \<open>box_of s1 = box_of s\<close> \<open>next_instance s1 ?tid = next_instance s ?tid\<close> \<open>sendMsgToTask now wc m s = Some (True, s')\<close> by simp
qed

lemma getTask_directed: "tid \<noteq> 0 \<Longrightarrow> cid \<noteq> 0 \<Longrightarrow> getTask wc tid cid s = Some (case ctab s cid of Some q \<Rightarrow> q | None \<Rightarrow> NULL, s)"
  by (auto simp: getTask_def word_gt_0 split: option.splits)

lemma sendMsg_directed:
  assumes inv: "sel_inv s" and h: "hdr_ok m" and p: "ttab s (logAddr (tAddr m)) = Some p" and d: "dest m \<noteq> 0"
  obtains "ctab s (dest m) = None" "\<exists>s'. sendMsgToTask now wc m s = Some (False, s') \<and> steady s s' \<and> containers s' = containers s"
    | q t c m' s' where "ctab s (dest m) = Some q" "s_tcs s q = Some t" "containers s (tc t) = Some c" "c_containerId c = dest m" "readdressed m m'"
      "sendMsgToTask now wc m s = Some (True, s')" "containers s' = (containers s)(tc t \<mapsto> tc_add (UniNet m') c)" "steady s s'"
proof -
  let ?tid = "logAddr (tAddr m)"
  obtain m1 s1 where s1: "sendMsgToTask now wc m s = do { (item, s) \<leftarrow> getTask wc ?tid (dest m) s1;
       if item \<noteq> NULL then hand_over now ?tid (dest m) item m1 s else Some (False, s) }" "readdressed m m1"
    "sel_inv s1" "members s1 = members s" "pos_of s1 = pos_of s" "avail s1 = avail s" "containers s1 = containers s" "s_tcs s1 = s_tcs s" "s_inst s1 = s_inst s"
    "mContainerList s1 = mContainerList s" "mTaskList s1 = mTaskList s" by (rule send_prepare [OF inv h, of now wc]) (use p in simp)
  have tid: "?tid \<noteq> 0" by (rule task_okD [OF inv p])
  have st1: "steady s s1" by (rule steady_same [OF s1(3,4,10,11,8,9)])
  show thesis
  proof (cases "ctab s (dest m)")
    case None
    then show thesis using s1 st1 getTask_directed [OF tid d, of wc s1] by (intro that(1)) simp_all
  next
    case (Some q)
    then have "cont_ok s (dest m) q" using inv unfolding sel_inv_def by blast
    then obtain t c where t: "q \<noteq> NULL" "s_tcs s q = Some t" "containers s (tc t) = Some c" "c_containerId c = dest m" by (auto simp: cont_ok_def)
    have t1: "s_tcs s1 q = Some t" "containers s1 (tc t) = Some c" using t s1 by simp_all
    obtain m' s' where s': "hand_over now ?tid (dest m) q m1 s1 = Some (True, s')" "readdressed m1 m'" "steady s1 s'"
      "containers s' = (containers s1)(tc t \<mapsto> tc_add (UniNet m') c)" by (rule hand_over_ok [OF s1(3) t1 readdressed_hdr [OF s1(2) h]])
    then show thesis using Some t s1 getTask_directed [OF tid d, of wc s1] readdressed_trans [OF s1(2) s'(2)] steady_trans [OF st1 s'(3)] by (intro that(2) [of q t c m' s']) simp_all
  qed
qed

text \<open>The instances are served in turn.\<close>

fun serve :: "(addr \<Rightarrow> UINT) list \<Rightarrow> UINT \<Rightarrow> TTaskSelector \<Rightarrow> (addr list \<times> TTaskSelector) option" where
  "serve [] tid s = Some ([], s)"
| "serve (wc # wcs) tid s = do { (q, s) \<leftarrow> getTask wc tid 0 s; (qs, s) \<leftarrow> serve wcs tid s; Some (q # qs, s) }"

definition tcs_of :: "TTaskSelector \<Rightarrow> addr \<Rightarrow> addr" where
  "tcs_of s v = is_tcs (the (s_inst s v))"

lemma serve_turns:
  assumes "sel_inv s" "ttab s tid = Some p" "\<forall>wc \<in> set wcs. wc_ok wc" "1 < length (members s tid)" "\<forall>v \<in> set (members s tid). avail s v"
    "task_obj s tid = Some ts" "unat (tk_count ts) + length wcs \<le> unat (tk_balanceCount ts)"
  shows "\<exists>s'. serve wcs tid s = Some (map (\<lambda>j. tcs_of s (turn s tid j)) [0..<length wcs], s') \<and> sel_inv s' \<and> members s' = members s"
  using assms
proof (induction wcs arbitrary: s ts)
  case (Cons wc wcs)
  let ?n = "length (members s tid)"
  have n0: "0 < ?n" using Cons.prems(4) by linarith
  have wc: "wc_ok wc" using Cons.prems(3) by simp
  obtain j i s1 ts0 ts1 where g: "j < ?n" "\<forall>j' < j. \<not> avail s (turn s tid j')" "s_inst s (turn s tid j) = Some i" "getTask wc tid 0 s = Some (is_tcs i, s1)"
    "sel_inv s1" "same_shape s s1" "members s1 = members s" "task_obj s tid = Some ts0" "task_obj s1 tid = Some ts1"
    "pos_of s1 tid = (pos_of s tid + Suc j) mod ?n" "tk_balanceCount ts1 = tk_balanceCount ts0"
    "1 < ?n \<Longrightarrow> tk_count ts0 + 1 \<le> tk_balanceCount ts0 \<Longrightarrow> tk_count ts1 = tk_count ts0 + 1 \<and> avail s1 = avail s"
    by (rule getTask_ok [OF Cons.prems(1,2) wc]) blast
  have mem: "turn s tid k \<in> set (members s tid)" for k unfolding turn_def using n0 by (intro nth_mem mod_less_divisor)
  have j: "j = 0" using g(2) Cons.prems(5) mem by (cases j) auto
  have "unat (tk_count ts) + 1 \<le> unat (tk_balanceCount ts)" using Cons.prems(7) by simp
  moreover have "unat (tk_balanceCount ts) < 2 ^ 32" using unsigned_less [of "tk_balanceCount ts", where ?'a = nat] by simp
  ultimately have u: "unat (tk_count ts + 1) = unat (tk_count ts) + 1" "tk_count ts + 1 \<le> tk_balanceCount ts"
    by (simp_all add: unat_word_ariths word_le_nat_alt)
  have r: "tk_count ts1 = tk_count ts + 1" "avail s1 = avail s" "tk_balanceCount ts1 = tk_balanceCount ts"
    using g(8,11,12) u(2) Cons.prems(4,6) by auto
  have tab: "ttab s1 tid = Some p" using g(6) Cons.prems(2) by (simp add: same_shape_def)
  have "\<exists>s'. serve wcs tid s1 = Some (map (\<lambda>j. tcs_of s1 (turn s1 tid j)) [0..<length wcs], s') \<and> sel_inv s' \<and> members s' = members s1"
    using Cons.prems(3,4,5,7) g(7) r u(1) by (intro Cons.IH [OF g(5) tab _ _ _ g(9)]) auto
  then obtain s' where s': "serve wcs tid s1 = Some (map (\<lambda>j. tcs_of s1 (turn s1 tid j)) [0..<length wcs], s')" "sel_inv s'" "members s' = members s" using g(7) by auto
  have "turn s1 tid k = turn s tid (Suc k)" for k
    unfolding turn_def g(7) g(10) j by (metis add_Suc add_Suc_right mod_add_left_eq add_0_right)
  moreover have "tcs_of s1 v = tcs_of s v" if vm: "v \<in> set (members s tid)" for v
  proof -
    obtain i where "s_inst s v = Some i" using Cons.prems(5) vm by (auto simp: avail_def)
    then show ?thesis using same_shape_inst [OF g(6)] by (fastforce simp: tcs_of_def)
  qed
  ultimately have "map (\<lambda>j. tcs_of s1 (turn s1 tid j)) [0..<length wcs] = map (\<lambda>j. tcs_of s (turn s tid (Suc j))) [0..<length wcs]" using mem by simp
  moreover have "is_tcs i = tcs_of s (turn s tid 0)" using g(3) j by (simp add: tcs_of_def)
  moreover have "map (\<lambda>j. tcs_of s (turn s tid j)) [0..<Suc (length wcs)] = tcs_of s (turn s tid 0) # map (\<lambda>j. tcs_of s (turn s tid (Suc j))) [0..<length wcs]"
    by (simp add: map_upt_Suc del: upt_Suc)
  ultimately show ?case using g(4) s' by simp
qed simp

lemma turns_rotate: "map (turn s tid) [0..<length (members s tid)] = rotate (Suc (pos_of s tid)) (members s tid)"
  by (rule nth_equalityI) (simp_all add: nth_rotate turn_def del: rotate_Suc)

end
