(* ===== verification/RegistrationSpec.thy ===== *)
theory RegistrationSpec
  imports DispatchSpec
begin

text \<open>
  Registration and start-up: \<open>registerContainer\<close>, \<open>registerTask\<close> and \<open>TFRAMEManager::Init\<close> establish the
  invariant of the selector and register every configured task in every container of its process.
\<close>

section \<open>Registration\<close>

text \<open>Registration only adds: state objects, table entries, tasks in containers.\<close>

definition extends :: "TTaskSelector \<Rightarrow> TTaskSelector \<Rightarrow> bool" where
  "extends s s' = (s_inst s \<subseteq>\<^sub>m s_inst s' \<and> ctab s \<subseteq>\<^sub>m ctab s' \<and> s_tcs s \<subseteq>\<^sub>m s_tcs s' \<and>
     (\<forall>a c. containers s a = Some c \<longrightarrow> (\<exists>c'. containers s' a = Some c' \<and> c_containerId c' = c_containerId c \<and>
        (\<forall>tid. task_at c tid \<noteq> None \<longrightarrow> task_at c' tid \<noteq> None))))"

lemma map_leD: "m \<subseteq>\<^sub>m m' \<Longrightarrow> m k = Some v \<Longrightarrow> m' k = Some v"
  by (metis domI map_le_def)

lemma map_le_upd_fresh: "m k = None \<Longrightarrow> m \<subseteq>\<^sub>m m(k \<mapsto> v)"
  by (auto simp: map_le_def)

lemma inst_ok_ext:
  assumes e: "extends s s'" and i: "inst_ok s tid v"
  shows "inst_ok s' tid v"
proof -
  obtain i t c where i: "v \<noteq> NULL" "s_inst s v = Some i" "ctab s (is_tcid i) = Some (is_tcs i)" "s_tcs s (is_tcs i) = Some t"
    "containers s (tc t) = Some c" "task_at c tid \<noteq> None" using i unfolding inst_ok_def by blast
  obtain c' where "containers s' (tc t) = Some c'" "task_at c' tid \<noteq> None" using e i(5,6) unfolding extends_def by blast
  moreover have "s_inst s' v = Some i" "ctab s' (is_tcid i) = Some (is_tcs i)" "s_tcs s' (is_tcs i) = Some t"
    using e i(2,3,4) unfolding extends_def by (blast intro: map_leD)+
  ultimately show ?thesis using i(1) unfolding inst_ok_def by blast
qed

lemma cont_ok_ext:
  assumes e: "extends s s'" and c: "cont_ok s cid q"
  shows "cont_ok s' cid q"
proof -
  obtain t b where t: "cid \<noteq> 0" "cid \<le> MAX_TASKCONTAINERID" "q \<noteq> NULL" "s_tcs s q = Some t" "tcid t = cid" "tc t \<noteq> NULL"
    "containers s (tc t) = Some b" "c_containerId b = cid" using c unfolding cont_ok_def by blast
  obtain b' where "containers s' (tc t) = Some b'" "c_containerId b' = cid" using e t(7,8) unfolding extends_def by blast
  moreover have "s_tcs s' q = Some t" using e t(4) unfolding extends_def by (blast intro: map_leD)
  ultimately show ?thesis using t unfolding cont_ok_def by blast
qed

lemma extends_members:
  assumes "extends s s'" "\<forall>v \<in> set vs. inst_ok s tid v"
  shows "map (cid_of s') vs = map (cid_of s) vs" "\<forall>v \<in> set vs. avail s' v = avail s v"
proof -
  have "s_inst s' v = s_inst s v" if "v \<in> set vs" for v using assms that map_leD unfolding extends_def inst_ok_def by metis
  then show "map (cid_of s') vs = map (cid_of s) vs" "\<forall>v \<in> set vs. avail s' v = avail s v" by (simp_all add: cid_of_def avail_def)
qed

text \<open>A container that has not run yet.\<close>

definition unused :: "TTaskContainer \<Rightarrow> bool" where
  "unused c = (mTTQ c = TaskTimerQueue_new Fifo_new \<and> sf_ok (c_taskList c) \<and> task_at c 0 = None)"

text \<open>The state of the selector while it is being filled: \<open>R\<close> lists the pairs of a container and a
  task that are registered, \<open>n\<close> is the next container identifier.\<close>

definition balance_for :: "nat \<Rightarrow> UINT" where
  "balance_for n = (if n \<le> 1 then 0 else of_nat n * BalanceCountNumber)"

definition task_new_ok :: "TTaskSelector \<Rightarrow> UINT \<Rightarrow> bool" where
  "task_new_ok s tid = (\<forall>ts. task_obj s tid = Some ts \<longrightarrow> tk_instpos ts = 0 \<and> tk_count ts = 0 \<and> tk_balanceCount ts = balance_for (length (members s tid)))"

definition jobs_ok :: "(UINT \<times> UINT) list \<Rightarrow> TTaskSelector \<Rightarrow> UINT \<Rightarrow> addr \<Rightarrow> bool" where
  "jobs_ok R s cid q = (\<exists>t c. s_tcs s q = Some t \<and> containers s (tc t) = Some c \<and> (\<forall>tid. (task_at c tid \<noteq> None) = ((cid, tid) \<in> set R)))"

definition reg_inv :: "(UINT \<times> UINT) list \<Rightarrow> nat \<Rightarrow> TTaskSelector \<Rightarrow> bool" where
  "reg_inv R n s = (sel_inv s \<and> (\<forall>cid. (ctab s cid \<noteq> None) = (0 < unat cid \<and> unat cid < n)) \<and> (\<forall>x \<in> set R. unat (fst x) < n) \<and>
     (\<forall>tid. map (cid_of s) (members s tid) = map fst (filter (\<lambda>x. snd x = tid) R)) \<and> (\<forall>tid. task_new_ok s tid) \<and>
     (\<forall>v i. s_inst s v = Some i \<longrightarrow> is_weight i = 0) \<and> (\<forall>a c. containers s a = Some c \<longrightarrow> unused c) \<and>
     (\<forall>cid q. ctab s cid = Some q \<longrightarrow> jobs_ok R s cid q))"

text \<open>A new selector.\<close>

lemma selector_new_ok: obtains s where "TTaskSelector_new g = Some s" "reg_inv [] 1 s"
proof -
  obtain i :: "(UINT, TaskKey) ebuf" where i: "eb_new 0 False 172800 = Some i" "dlg_rel i Map.empty" by (rule dlg_new)
  obtain d :: "(CHAR8 list, TaskKey) ebuf" where d: "eb_new 0 False 172800 = Some d" "dlg_rel d Map.empty" by (rule dlg_new)
  obtain s where s: "TTaskSelector_new g = Some s" "mContainerList s = CHashTable_new" "mTaskList s = CHashTable_new" "s_tcs s = Map.empty" "s_inst s = Map.empty"
    "s_task s = Map.empty" "s_brk s = 1" "containers s = Map.empty" "mIntDialog s = i" "mStrDialog s = d" using i(1) d(1) by (simp add: TTaskSelector_new_def)
  have e: "ctab s cid = None" "ttab s cid = None" for cid using s(2,3) uint_keys.emp_lookup by simp_all
  have t: "ptab_ok (mContainerList s)" "ptab_ok (mTaskList s)" using s(2,3) uint_keys.emp_inv by simp_all
  have m: "members s tid = []" "task_obj s tid = None" for tid using e by (simp_all add: members_def task_obj_def)
  have "sel_inv s" using e t m s i(2) d(2) by (auto simp: sel_inv_def fresh_def)
  moreover have "(0 < unat cid \<and> unat cid < 1) = False" for cid :: UINT by auto
  ultimately have "reg_inv [] 1 s" using e m s(5,8) by (simp add: reg_inv_def task_new_ok_def)
  then show thesis using s(1) that by blast
qed

text \<open>A new container.\<close>

lemma make_container_ok:
  assumes reg: "reg_inv R n s" and n: "0 < n" "n \<le> 4095" and kind: "objtype_Task \<le> kind" "kind < objtype_Extended"
  obtains s' where "make_container app kind (of_nat n) s = Some (Inr s')" "reg_inv R (Suc n) s'"
proof -
  let ?cid = "of_nat n :: UINT"
  have un: "unat ?cid = n" by (rule unat_of_nat_small) (use n in simp)
  then have cid: "?cid \<noteq> 0" "?cid \<le> MAX_TASKCONTAINERID" using n by (auto simp: word_le_nat_alt)
  have inv: "sel_inv s" using reg by (simp add: reg_inv_def)
  have no: "ctab s ?cid = None" using reg un unfolding reg_inv_def by (metis less_irrefl)
  have fr: "fresh s" using inv by (simp add: sel_inv_def)
  have brk: "0 < s_brk s" using fr by (simp add: fresh_def)
  have tabs: "ptab_ok (mContainerList s)" using inv by (simp add: sel_inv_def)
  define c where "c = tc_init ?cid app (if kind < objtype_Psa then TTaskContainer_new else TPSAContainer_new)"
  define p where "p = s_brk s"
  obtain ht where ht: "uh_put (mContainerList s) ?cid (Suc p) = Some ht" "ptab_ok ht" "uh_get ht = (ctab s)(?cid \<mapsto> Suc p)" by (rule uint_keys.insE [OF tabs])
  define s' where "s' = s\<lparr>containers := (containers s)(p \<mapsto> c), s_tcs := (s_tcs s)(Suc p \<mapsto> \<lparr>tcid = ?cid, tc = p, waitCount = 0\<rparr>), s_brk := Suc (Suc p),
    mContainerList := ht, registeredInstAmount := registeredInstAmount s + 1\<rparr>"
  have mk: "make_container app kind ?cid s = Some (Inr s')"
    using kind cid brk no ht(1) ptab_contains [OF tabs, of ?cid] by (simp add: make_container_def registerContainer_def Let_def s'_def c_def p_def)
  have ci: "unused c" "c_containerId c = ?cid" "task_at c tid = None" for tid
    by (simp_all add: c_def unused_def tc_init_def TTaskContainer_new_def TPSAContainer_new_def sf_ok_def task_at_def)
  have old: "s_tcs s (Suc p) = None" "containers s p = None" using fr by (simp_all add: fresh_def p_def)
  have f: "s_inst s' = s_inst s" "s_task s' = s_task s" "mTaskList s' = mTaskList s" "ctab s' = (ctab s)(?cid \<mapsto> Suc p)"
    "s_tcs s' = (s_tcs s)(Suc p \<mapsto> \<lparr>tcid = ?cid, tc = p, waitCount = 0\<rparr>)" "containers s' = (containers s)(p \<mapsto> c)" "mIntDialog s' = mIntDialog s" "mStrDialog s' = mStrDialog s"
    by (simp_all add: s'_def ht(3))
  have exs: "extends s s'" unfolding extends_def f using no old by (auto intro!: map_le_upd_fresh)
  have mem: "members s' = members s" "task_obj s' = task_obj s" "cid_of s' = cid_of s" "avail s' = avail s"
    by (intro ext; simp add: f members_def task_obj_def cid_of_def avail_def cong: option.case_cong)+
  have to: "task_ok s tid q \<Longrightarrow> task_ok s' tid q" for tid q using inst_ok_ext [OF exs] by (auto simp: task_ok_def mem f(2))
  have "cont_ok s' ?cid (Suc p)" using cid ci brk by (simp add: cont_ok_def f p_def)
  moreover have "ctab s x = Some q \<Longrightarrow> cont_ok s' x q" for x q using inv cont_ok_ext [OF exs] by (simp add: sel_inv_def)
  ultimately have co: "ctab s' x = Some q \<Longrightarrow> cont_ok s' x q" for x q by (simp add: f(4) split: if_splits)
  have "fresh s'" using fr by (simp add: fresh_def s'_def p_def)
  moreover have "mContainerList s' = ht" by (simp add: s'_def)
  ultimately have inv': "sel_inv s'" using inv ht(2) to co unfolding sel_inv_def mem f by simp
  have Rn: "\<forall>x \<in> set R. unat (fst x) < n" using reg by (simp add: reg_inv_def)
  then have "?cid \<notin> fst ` set R" using un by auto
  then have "jobs_ok R s' ?cid (Suc p)" using ci(3) by (force simp: jobs_ok_def f)
  moreover have "jobs_ok R s x q \<Longrightarrow> jobs_ok R s' x q" for x q using old by (fastforce simp: jobs_ok_def f)
  moreover have "ctab s x = Some q \<Longrightarrow> jobs_ok R s x q" for x q using reg by (simp add: reg_inv_def)
  ultimately have j: "ctab s' x = Some q \<Longrightarrow> jobs_ok R s' x q" for x q by (auto simp: f(4) split: if_splits)
  have "(ctab s' x \<noteq> None) = (0 < unat x \<and> unat x < Suc n)" for x
  proof (cases "x = ?cid")
    case False
    then have "unat x \<noteq> n" using un by (metis word_unat_eq_iff)
    then show ?thesis using False reg unfolding f reg_inv_def by (auto simp: less_Suc_eq)
  qed (use un n f(4) in simp)
  moreover have "\<forall>x \<in> set R. unat (fst x) < Suc n" using Rn by (simp add: less_Suc_eq)
  moreover have "All (task_new_ok s')" using reg unfolding reg_inv_def task_new_ok_def mem by blast
  ultimately have "reg_inv R (Suc n) s'" using reg inv' j ci(1) unfolding reg_inv_def by (simp add: mem f)
  then show thesis using mk that by blast
qed

text \<open>Another instance of a task, old or new.\<close>

lemma sel_inv_enlisted:
  assumes inv: "sel_inv s" and tab: "ttab s' = (ttab s)(tid \<mapsto> p)" "ptab_ok (mTaskList s')"
    and same: "mContainerList s' = mContainerList s" "s_tcs s' = s_tcs s" "s_inst s' = s_inst s" "containers s' = containers s"
      "mIntDialog s' = mIntDialog s" "mStrDialog s' = mStrDialog s"
    and tsk: "s_task s' = (s_task s)(p \<mapsto> ts')" and p: "ttab s tid = Some p \<or> ttab s tid = None \<and> s_task s p = None"
    and rel: "clist_rel (tk_inst ts') (members s tid @ [v], c)" and t: "tk_taskid ts' = tid" "unat (tk_instpos ts') \<le> length (members s tid)" "tid \<noteq> 0" "p \<noteq> NULL"
    and v: "inst_ok s tid v" "avail s v" "\<forall>x. v \<notin> set (members s x)" "cid_of s v \<notin> cid_of s ` set (members s tid)"
    and brk: "s_brk s \<le> s_brk s'" "p < s_brk s'"
  shows "sel_inv s' \<and> members s' = (members s)(tid := members s tid @ [v])"
proof -
  have pu: "ttab s x = Some p \<Longrightarrow> x = tid" for x
  proof -
    assume x: "ttab s x = Some p"
    from p show "x = tid"
    proof
      assume "ttab s tid = Some p"
      then show ?thesis using sel_inv_taskid [OF inv _ x] by blast
    next
      assume "ttab s tid = None \<and> s_task s p = None"
      then show ?thesis using task_okD [OF inv x] by (metis option.distinct(1))
    qed
  qed
  have mem: "members s' x = (if x = tid then members s tid @ [v] else members s x)" for x
  proof (cases "x = tid")
    case True
    then show ?thesis using members_eq [of s' tid p ts' "members s tid @ [v]" c] tab(1) tsk rel by simp
  next
    case False
    then have "ttab s x \<noteq> Some p" using pu by blast
    then show ?thesis using False by (auto simp: members_def tab(1) tsk split: option.splits)
  qed
  have same2: "cid_of s' = cid_of s" "avail s' = avail s" "inst_ok s' = inst_ok s" "cont_ok s' = cont_ok s"
    by (intro ext; simp add: same cid_of_def avail_def inst_ok_def cont_ok_def)+
  have ok: "task_ok s x q" if "ttab s x = Some q" for x q using inv that by (simp add: sel_inv_def)
  have "task_ok s' x q" if q: "ttab s' x = Some q" for x q
  proof (cases "x = tid")
    case True
    then have qp: "q = p" using q tab(1) by simp
    have "distinct (map (cid_of s) (members s tid)) \<and> (\<forall>w \<in> set (members s tid). inst_ok s tid w)"
    proof (cases "ttab s tid")
      case None
      then show ?thesis by (simp add: members_def)
    next
      case (Some y)
      then show ?thesis using ok [OF Some] unfolding task_ok_def by blast
    qed
    moreover have "s_task s' p = Some ts'" using tsk by simp
    moreover have "members s' tid = members s tid @ [v]" using mem by simp
    ultimately show ?thesis unfolding True qp task_ok_def same2 using t rel v by auto
  next
    case False
    then have q': "ttab s x = Some q" using q tab(1) by simp
    have "q \<noteq> p" using pu q' False by blast
    then show ?thesis using ok [OF q'] False by (simp add: task_ok_def mem same2 tsk)
  qed
  moreover have "\<forall>x y. x \<noteq> y \<longrightarrow> set (members s' x) \<inter> set (members s' y) = {}"
  proof (intro allI impI)
    fix x y :: UINT assume "x \<noteq> y"
    then have "set (members s x) \<inter> set (members s y) = {}" using inv by (simp add: sel_inv_def)
    then show "set (members s' x) \<inter> set (members s' y) = {}" using v(3) \<open>x \<noteq> y\<close> by (cases "x = tid"; cases "y = tid") (simp_all add: mem)
  qed
  moreover have "fresh s'" using inv brk unfolding sel_inv_def fresh_def same tsk by auto
  ultimately have "sel_inv s'" using inv tab(2) by (simp add: sel_inv_def same same2)
  then show ?thesis using mem by (simp add: fun_eq_iff)
qed

lemma members_none: "ttab s tid = None \<Longrightarrow> members s tid = []"
  by (simp add: members_def)

lemma of_nat_word_of_int: "word_of_int (int n + 1) = (of_nat (Suc n) :: UINT)"
  using word_of_int_nat [of "int n + 1"] by (simp add: nat_add_distrib)

text \<open>The instance is entered into the list of its task.\<close>

lemma enlist_ok:
  assumes inv: "sel_inv s" and new: "\<forall>x. task_new_ok s x" and tid: "tid \<noteq> 0"
    and v: "inst_ok s tid v" "avail s v" "\<forall>x. v \<notin> set (members s x)" "cid_of s v \<notin> cid_of s ` set (members s tid)"
  obtains s' where "enlist tid v s = Some (True, s')" "sel_inv s'" "members s' = (members s)(tid := members s tid @ [v])" "\<forall>x. task_new_ok s' x"
    "mContainerList s' = mContainerList s" "s_tcs s' = s_tcs s" "s_inst s' = s_inst s" "containers s' = containers s"
proof (cases "ttab s tid")
  case None
  have tabs: "ptab_ok (mTaskList s)" using inv by (simp add: sel_inv_def)
  have fr: "fresh s" using inv by (simp add: sel_inv_def)
  then have brk: "s_task s (s_brk s) = None" "s_brk s \<noteq> NULL" by (simp_all add: fresh_def)
  obtain l :: "addr dll" where l: "CList_new = Some l" "clist_rel l ([], 0)" using new_rep by blast
  obtain l' where l': "push_back_r l v = Some (int (length ([] :: addr list)) + 1, l')" "clist_rel l' ([] @ [v], length ([] :: addr list))" using insts.append_ok [OF l(2)] by blast
  obtain ht where ht: "uh_put (mTaskList s) tid (s_brk s) = Some ht" "ptab_ok ht" "uh_get ht = (ttab s)(tid \<mapsto> s_brk s)" by (rule uint_keys.insE [OF tabs])
  define s' where "s' = s\<lparr>s_task := (s_task s)(s_brk s \<mapsto> TaskState_new tid l'), s_brk := Suc (s_brk s), mTaskList := ht, registeredTaskAmount := registeredTaskAmount s + 1\<rparr>"
  have e: "enlist tid v s = Some (True, s')" using None ptab_contains [OF tabs, of tid] l'(1) ht(1) unfolding enlist_def l(1) by (simp add: Let_def s'_def)
  have si: "sel_inv s' \<and> members s' = (members s)(tid := members s tid @ [v])"
    by (rule sel_inv_enlisted [OF inv, where p = "s_brk s" and ts' = "TaskState_new tid l'" and c = 0])
      (use None ht brk l'(2) v tid members_none [OF None] in \<open>simp_all add: s'_def TaskState_new_def\<close>)
  have "task_new_ok s' x" for x
  proof (cases "x = tid")
    case True
    then show ?thesis using si ht(3) members_none [OF None] by (simp add: task_new_ok_def task_obj_def s'_def TaskState_new_def balance_for_def)
  next
    case False
    have "ttab s x \<noteq> Some (s_brk s)" using brk(1) task_okD [OF inv] by (metis option.distinct(1))
    then have "task_obj s' x = task_obj s x" using False by (simp add: task_obj_def s'_def ht(3) split: option.splits)
    then show ?thesis using new si False by (simp add: task_new_ok_def)
  qed
  then show thesis using e si by (intro that [of s']) (simp_all add: s'_def)
next
  case (Some p)
  have tabs: "ptab_ok (mTaskList s)" using inv by (simp add: sel_inv_def)
  obtain ts c where t: "p \<noteq> NULL" "s_task s p = Some ts" "tk_taskid ts = tid" "clist_rel (tk_inst ts) (members s tid, c)"
    "unat (tk_instpos ts) < length (members s tid)" by (rule task_okD [OF inv Some])
  obtain l' where l': "push_back_r (tk_inst ts) v = Some (int (length (members s tid)) + 1, l')" "clist_rel l' (members s tid @ [v], length (members s tid))"
    using insts.append_ok [OF t(4)] by blast
  define ts' where "ts' = ts\<lparr>tk_inst := l', tk_balanceCount := of_nat (Suc (length (members s tid))) * BalanceCountNumber\<rparr>"
  define s' where "s' = s\<lparr>s_task := (s_task s)(p \<mapsto> ts')\<rparr>"
  have e: "enlist tid v s = Some (True, s')" using Some ptab_contains [OF tabs, of tid] t(1,2) l'(1) of_nat_word_of_int [of "length (members s tid)"]
    by (simp add: enlist_def s'_def ts'_def del: of_nat_Suc)
  have fr: "fresh s" using inv by (simp add: sel_inv_def)
  have "p < s_brk s" using fr t(2) unfolding fresh_def by (metis not_le option.distinct(1))
  moreover have "ttab s = (ttab s)(tid \<mapsto> p)" using Some by (simp add: fun_eq_iff)
  ultimately have si: "sel_inv s' \<and> members s' = (members s)(tid := members s tid @ [v])"
    by (intro sel_inv_enlisted [OF inv, where p = p and ts' = ts' and c = "length (members s tid)"])
      (use Some t l'(2) v tid tabs in \<open>simp_all add: s'_def ts'_def\<close>)
  have "task_obj s tid = Some ts" using Some t(2) by (simp add: task_obj_def)
  then have old: "tk_instpos ts = 0 \<and> tk_count ts = 0" using new unfolding task_new_ok_def by blast
  have "length (members s tid) \<noteq> 0" using t(5) by linarith
  have "task_new_ok s' x" for x
  proof (cases "x = tid")
    case True
    then show ?thesis using si Some old \<open>length (members s tid) \<noteq> 0\<close> by (simp add: task_new_ok_def task_obj_def s'_def ts'_def balance_for_def)
  next
    case False
    have "ttab s x \<noteq> Some p" using sel_inv_taskid [OF inv Some] False by blast
    then have "task_obj s' x = task_obj s x" by (simp add: task_obj_def s'_def split: option.splits)
    then show ?thesis using new si False by (simp add: task_new_ok_def)
  qed
  then show thesis using e si by (intro that [of s']) (simp_all add: s'_def)
qed

text \<open>The task is put into its container and entered into the tables.\<close>

lemma tc_registerTask_new:
  assumes "unused c" "tid \<noteq> 0" "task_at c tid = None"
  obtains c' where "tc_registerTask env tid (Some obj) c = (True, c')" "unused c'" "c_containerId c' = c_containerId c"
    "\<forall>x. (task_at c' x \<noteq> None) = (task_at c x \<noteq> None \<or> x = tid)"
proof -
  obtain ok c' where r: "tc_registerTask env tid (Some obj) c = (ok, c')" by force
  have sf: "sf_ok (c_taskList c)" using assms(1) by (simp add: unused_def)
  have "ok" using r assms(2,3) by (auto simp: tc_registerTask_def Let_def word_gt_0 task_at_def)
  moreover have "task_at c' x = (if x = tid \<and> tid \<noteq> 0 \<and> task_at c tid = None then Some (task_init env (c_hostId c) (c_containerId c) tid obj) else task_at c x)" for x
    using tc_registerTask_find [OF sf, of env tid obj x] r by simp
  moreover have "c_containerId c' = c_containerId c" "mTTQ c' = mTTQ c" "sf_ok (c_taskList c')"
    using tc_registerTask_simps [where env = env and tid = tid and t = "Some obj" and c = c] r sf by simp_all
  ultimately show thesis using r assms by (intro that [of c']) (auto simp: unused_def)
qed

lemma registerTask_ok:
  assumes reg: "reg_inv R n s" and cid: "0 < unat cid" "unat cid < n" and tid: "tid \<noteq> 0" and new: "(cid, tid) \<notin> set R"
  obtains s' where "registerTask env tid cid (Some obj) s = Some (True, s')" "reg_inv (R @ [(cid, tid)]) n s'"
proof -
  have inv: "sel_inv s" using reg by (simp add: reg_inv_def)
  have "ctab s cid \<noteq> None" using reg cid by (simp add: reg_inv_def)
  then obtain q where q: "ctab s cid = Some q" by blast
  have co: "cont_ok s cid q" using q inv by (simp add: sel_inv_def)
  have jo: "jobs_ok R s cid q" using q reg by (simp add: reg_inv_def)
  obtain t c where t: "q \<noteq> NULL" "s_tcs s q = Some t" "tcid t = cid" "containers s (tc t) = Some c" "c_containerId c = cid"
    "\<forall>x. (task_at c x \<noteq> None) = ((cid, x) \<in> set R)" using co jo unfolding cont_ok_def jobs_ok_def by auto
  have un: "unused c" using reg t(4) unfolding reg_inv_def by blast
  have "task_at c tid = None" using t(6) new by blast
  then obtain c' where c': "tc_registerTask env tid (Some obj) c = (True, c')" "unused c'" "c_containerId c' = c_containerId c"
    "\<forall>x. (task_at c' x \<noteq> None) = (task_at c x \<noteq> None \<or> x = tid)" by (rule tc_registerTask_new [OF un tid])
  define v where "v = s_brk s"
  define s1 where "s1 = s\<lparr>containers := (containers s)(tc t \<mapsto> c'), s_inst := (s_inst s)(v \<mapsto> InstState_new cid q), s_brk := Suc v\<rparr>"
  have fr: "fresh s" using inv by (simp add: sel_inv_def)
  then have vf: "s_inst s v = None" "v \<noteq> NULL" "tc t < v" using t(4) unfolding fresh_def v_def by (simp, simp, metis not_le option.distinct(1))
  have f: "mContainerList s1 = mContainerList s" "mTaskList s1 = mTaskList s" "s_tcs s1 = s_tcs s" "s_task s1 = s_task s"
    "s_inst s1 = (s_inst s)(v \<mapsto> InstState_new cid q)" "containers s1 = (containers s)(tc t \<mapsto> c')" "mIntDialog s1 = mIntDialog s" "mStrDialog s1 = mStrDialog s"
    by (simp_all add: s1_def)
  have exs: "extends s s1" unfolding extends_def f using vf(1) t(4) c'(3,4) by (auto intro: map_le_upd_fresh simp del: not_None_eq)
  have mem: "members s1 = members s" "task_obj s1 = task_obj s" by (intro ext; simp add: f members_def task_obj_def cong: option.case_cong)+
  have ok: "task_ok s x p" if "ttab s x = Some p" for x p using inv that by (simp add: sel_inv_def)
  have mi: "\<forall>w \<in> set (members s x). inst_ok s x w" for x by (cases "ttab s x") (use ok members_none in \<open>auto simp: task_ok_def\<close>)
  have "task_ok s1 x p" if "ttab s x = Some p" for x p
    using ok [OF that] extends_members(2) [OF exs mi, of x] inst_ok_ext [OF exs] unfolding task_ok_def mem f(4) extends_members(1) [OF exs mi, of x] by blast
  moreover have "cont_ok s x p \<Longrightarrow> cont_ok s1 x p" for x p by (rule cont_ok_ext [OF exs])
  moreover have "fresh s1" using fr vf(3) by (auto simp: fresh_def s1_def v_def)
  moreover have "\<not> is_shuttingDown i" if "s_inst s1 w = Some i" for w i using that inv by (auto simp: f(5) sel_inv_def InstState_new_def split: if_splits)
  ultimately have inv1: "sel_inv s1" using inv by (simp add: sel_inv_def mem f)
  have iv: "inst_ok s1 tid v" using vf(2) q t(2) c'(4) by (simp add: inst_ok_def f InstState_new_def)
  have av: "avail s1 v" "cid_of s1 v = cid" by (simp_all add: avail_def cid_of_def f InstState_new_def)
  have nm: "\<forall>x. v \<notin> set (members s1 x)" using mi vf(1) unfolding mem inst_ok_def by fastforce
  have cs: "map (cid_of s1) (members s x) = map fst (filter (\<lambda>y. snd y = x) R)" for x
    unfolding extends_members(1) [OF exs mi] using reg by (simp add: reg_inv_def)
  have "cid \<notin> set (map fst (filter (\<lambda>y. snd y = tid) R))" using new by auto
  then have nc: "cid_of s1 v \<notin> cid_of s1 ` set (members s1 tid)" unfolding av(2) mem cs [symmetric] by simp
  have tn: "\<forall>x. task_new_ok s1 x" using reg by (simp add: task_new_ok_def mem reg_inv_def)
  obtain s' where s': "enlist tid v s1 = Some (True, s')" "sel_inv s'" "members s' = (members s1)(tid := members s1 tid @ [v])" "\<forall>x. task_new_ok s' x"
    "mContainerList s' = mContainerList s1" "s_tcs s' = s_tcs s1" "s_inst s' = s_inst s1" "containers s' = containers s1"
    by (rule enlist_ok [OF inv1 tn tid iv av(1) nm nc])
  have "\<not> tid \<le> 0" "\<not> cid \<le> 0" using tid cid(1) by auto
  then have R: "registerTask env tid cid (Some obj) s = Some (True, s')"
    using q t(1,2,4) c'(1) s'(1) by (simp add: registerTask_def Let_def s1_def v_def)
  have cid': "cid_of s' = cid_of s1" by (simp add: fun_eq_iff cid_of_def s'(7))
  have 1: "map (cid_of s') (members s' x) = map fst (filter (\<lambda>y. snd y = x) (R @ [(cid, tid)]))" for x using cs av(2) by (simp add: s'(3) cid' mem)
  have 2: "is_weight i = 0" if "s_inst s' w = Some i" for w i
    using that reg by (auto simp: s'(7) f(5) reg_inv_def InstState_new_def split: if_splits)
  have 3: "unused d" if "containers s' a = Some d" for a d using that reg c'(2) by (auto simp: s'(8) f(6) reg_inv_def split: if_splits)
  have 4: "jobs_ok (R @ [(cid, tid)]) s' x p" if x: "ctab s' x = Some p" for x p
  proof -
    have x0: "ctab s x = Some p" using x by (simp add: s'(5) f(1))
    have jx: "jobs_ok R s x p" "cont_ok s x p" using x0 reg inv unfolding reg_inv_def sel_inv_def by blast+
    obtain u d where u: "s_tcs s p = Some u" "containers s (tc u) = Some d" "c_containerId d = x" "\<forall>y. (task_at d y \<noteq> None) = ((x, y) \<in> set R)"
      using jx unfolding jobs_ok_def cont_ok_def by auto
    show ?thesis
    proof (cases "x = cid")
      case True
      then have "u = t" using x0 q u(1) t(2) by simp
      then show ?thesis using True u(1) c'(4) t(6) unfolding jobs_ok_def s'(6,8) f by auto
    next
      case False
      then have "tc u \<noteq> tc t" using u(2,3) t(4,5) by auto
      then show ?thesis using False u unfolding jobs_ok_def s'(6,8) f by auto
    qed
  qed
  have "\<forall>x \<in> set (R @ [(cid, tid)]). unat (fst x) < n" using reg cid(2) by (auto simp: reg_inv_def)
  moreover have "(ctab s' x \<noteq> None) = (0 < unat x \<and> unat x < n)" for x using reg unfolding reg_inv_def s'(5) f(1) by blast
  ultimately have "reg_inv (R @ [(cid, tid)]) n s'" unfolding reg_inv_def using s'(2,4) 1 2 3 4 by blast
  then show thesis using R that by blast
qed

section \<open>Start of the framework\<close>

text \<open>The pairs of a container and a task the configuration asks for.\<close>

definition known :: "(UINT \<rightharpoonup> TAbstractTask) \<Rightarrow> UINT list \<Rightarrow> UINT list" where
  "known objs ts = filter (\<lambda>t. objs t \<noteq> None) ts"

definition proc_layout :: "(UINT \<rightharpoonup> TAbstractTask) \<Rightarrow> UINT list \<Rightarrow> nat \<Rightarrow> nat \<Rightarrow> (UINT \<times> UINT) list" where
  "proc_layout objs ts n k = concat (map (\<lambda>j. map (Pair (of_nat j)) (known objs ts)) [n..<n + k])"

fun layout :: "(UINT \<rightharpoonup> TAbstractTask) \<Rightarrow> TProcRsc list \<Rightarrow> nat \<Rightarrow> (UINT \<times> UINT) list" where
  "layout objs [] n = []"
| "layout objs (p # ps) n = proc_layout objs (taskList p) n (threadNum p) @ layout objs ps (n + threadNum p)"

definition proc_ok :: "TProcRsc \<Rightarrow> bool" where
  "proc_ok p = (objtype_Task \<le> instType p \<and> instType p < objtype_Extended \<and> distinct (taskList p))"

lemma register_tasks_ok:
  assumes "reg_inv R n s" "0 < unat cid" "unat cid < n" "objs 0 = None" "distinct ts" "\<forall>t \<in> set ts. (cid, t) \<notin> set R"
  shows "\<exists>s'. register_tasks env objs cid ts s = Some (Inr s') \<and> reg_inv (R @ map (Pair cid) (known objs ts)) n s'"
  using assms(1,5,6)
proof (induction ts arbitrary: R s)
  case Nil
  then show ?case by (simp add: known_def)
next
  case (Cons t ts)
  show ?case
  proof (cases "objs t")
    case None
    then show ?thesis using Cons.IH [OF Cons.prems(1)] Cons.prems(2,3) by (simp add: known_def)
  next
    case (Some obj)
    then have t: "t \<noteq> 0" using assms(4) by auto
    have nt: "(cid, t) \<notin> set R" using Cons.prems(3) by simp
    obtain s1 where s1: "registerTask (env t) t cid (Some obj) s = Some (True, s1)" "reg_inv (R @ [(cid, t)]) n s1"
      by (rule registerTask_ok [OF Cons.prems(1) assms(2,3) t nt])
    have "\<exists>s'. register_tasks env objs cid ts s1 = Some (Inr s') \<and> reg_inv ((R @ [(cid, t)]) @ map (Pair cid) (known objs ts)) n s'"
      by (rule Cons.IH [OF s1(2)]) (use Cons.prems(2,3) in auto)
    then show ?thesis using Some s1(1) by (simp add: known_def)
  qed
qed

lemma make_instances_ok:
  assumes "reg_inv R n s" "0 < n" "n + k \<le> 4095" "objs 0 = None" "distinct ts" "objtype_Task \<le> kind" "kind < objtype_Extended"
  shows "\<exists>s'. make_instances env objs app kind ts k (of_nat n) s = Some (Inr (of_nat (n + k), s')) \<and> reg_inv (R @ proc_layout objs ts n k) (n + k) s'"
  using assms(1-3)
proof (induction k arbitrary: R n s)
  case 0
  then show ?case by (simp add: proc_layout_def)
next
  case (Suc k)
  have n: "n \<le> 4095" "unat (of_nat n :: UINT) = n" using Suc.prems(3) by (simp, intro unat_of_nat_small, simp)
  obtain s1 where s1: "make_container app kind (of_nat n) s = Some (Inr s1)" "reg_inv R (Suc n) s1"
    by (rule make_container_ok [OF Suc.prems(1,2) n(1) assms(6,7)])
  have "\<forall>x \<in> set R. unat (fst x) < n" using Suc.prems(1) by (simp add: reg_inv_def)
  then have new: "\<forall>t \<in> set ts. (of_nat n, t) \<notin> set R" using n(2) by auto
  obtain s2 where s2: "register_tasks env objs (of_nat n) ts s1 = Some (Inr s2)" "reg_inv (R @ map (Pair (of_nat n)) (known objs ts)) (Suc n) s2"
    using register_tasks_ok [where objs = objs, OF s1(2) _ _ assms(4,5) new] n(2) Suc.prems(2) by auto
  have "unat (of_nat (Suc n) :: UINT) = Suc n" by (rule unat_of_nat_small) (use Suc.prems(3) in simp)
  moreover have e: "of_nat (Suc n) = (of_nat n + 1 :: UINT)" by simp
  moreover have "unat (MAX_TASKCONTAINERID :: UINT) = 4095" by simp
  ultimately have m: "\<not> (of_nat n + 1 :: UINT) > MAX_TASKCONTAINERID" using Suc.prems(3) unfolding word_less_nat_alt e [symmetric] by linarith
  obtain s' where s': "make_instances env objs app kind ts k (of_nat (Suc n)) s2 = Some (Inr (of_nat (Suc n + k), s'))"
    "reg_inv ((R @ map (Pair (of_nat n)) (known objs ts)) @ proc_layout objs ts (Suc n) k) (Suc n + k) s'"
    using Suc.IH [OF s2(2)] Suc.prems(3) by auto
  have "proc_layout objs ts n (Suc k) = map (Pair (of_nat n)) (known objs ts) @ proc_layout objs ts (Suc n) k"
    by (simp add: proc_layout_def upt_conv_Cons del: upt_Suc)
  then show ?case using s1(1) s2(1) m s' by (simp add: add.commute)
qed

lemma make_procs_ok:
  assumes "reg_inv R n s" "0 < n" "n + sum_list (map threadNum procs) \<le> 4095" "objs 0 = None" "\<forall>p \<in> set procs. proc_ok p"
  shows "\<exists>s' m. make_procs env objs app procs (of_nat n) s = Some (Inr (of_nat m, s')) \<and> reg_inv (R @ layout objs procs n) m s' \<and>
    m = n + sum_list (map threadNum procs)"
  using assms(1-3,5)
proof (induction procs arbitrary: R n s)
  case Nil
  then show ?case by auto
next
  case (Cons p ps)
  have k: "n + threadNum p \<le> 4095" using Cons.prems(3) by simp
  have po: "distinct (taskList p)" "objtype_Task \<le> instType p" "instType p < objtype_Extended" using Cons.prems(4) by (simp_all add: proc_ok_def)
  obtain s1 where s1: "make_instances env objs app (instType p) (taskList p) (threadNum p) (of_nat n) s = Some (Inr (of_nat (n + threadNum p), s1))"
    "reg_inv (R @ proc_layout objs (taskList p) n (threadNum p)) (n + threadNum p) s1"
    using make_instances_ok [where objs = objs, OF Cons.prems(1,2) k assms(4) po] by blast
  show ?case using s1(1) Cons.IH [OF s1(2)] Cons.prems(2,3,4) by (auto simp: add.assoc)
qed

lemma reg_inv_recycle: "reg_inv R n s \<Longrightarrow> reg_inv R n (setRecycleTime t s)"
proof -
  assume reg: "reg_inv R n s"
  let ?s = "setRecycleTime t s"
  have inv: "sel_inv s" using reg by (simp add: reg_inv_def)
  obtain f g where fg: "dlg_rel (mIntDialog s) f" "dlg_rel (mStrDialog s) g" using inv unfolding sel_inv_def by blast
  have si: "sel_inv ?s" "members ?s = members s" using sel_inv_cong [OF inv, of ?s f g] dlg_living [OF fg(1), of t] dlg_living [OF fg(2), of t]
    by (simp_all add: setRecycleTime_def)
  have "task_obj ?s = task_obj s" "cid_of ?s = cid_of s" "jobs_ok R ?s = jobs_ok R s"
    by (intro ext; simp add: setRecycleTime_def task_obj_def cid_of_def jobs_ok_def cong: option.case_cong)+
  moreover have "mContainerList ?s = mContainerList s" "s_inst ?s = s_inst s" "containers ?s = containers s" by (simp_all add: setRecycleTime_def)
  ultimately show ?thesis using reg si by (simp add: reg_inv_def task_new_ok_def)
qed

lemma fm_Init_ok:
  assumes "\<forall>p \<in> set procs. proc_ok p" "objs 0 = None" "sum_list (map threadNum procs) < 4095"
  obtains f f' where "TFRAMEControl_new g = Some f" "fm_Init env objs app rt procs f = Some (Inr f')" "reg_inv (layout objs procs 1) (1 + sum_list (map threadNum procs)) (fc_selector f')"
    "fc_fifo f' = Fifo_new" "fc_shutdown f'"
proof -
  obtain s where s: "TTaskSelector_new g = Some s" "reg_inv [] 1 s" by (rule selector_new_ok)
  define f where "f = \<lparr>fc_fifo = Fifo_new, fc_selector = s, fc_shutdown = True, loopCount = 0, uninetmsgCountS = g, uninetmsgCountF = g\<rparr>"
  have new: "TFRAMEControl_new g = Some f" using s(1) by (simp add: TFRAMEControl_new_def f_def)
  have r: "reg_inv [] 1 (fc_selector (fc_init rt f))" using s(2) reg_inv_recycle by (simp add: fc_init_def f_def)
  have "1 + sum_list (map threadNum procs) \<le> 4095" using assms(3) by simp
  from make_procs_ok [where objs = objs, OF r _ this assms(2,1), of env app] obtain s' m where
    m: "make_procs env objs app procs 1 (fc_selector (fc_init rt f)) = Some (Inr (of_nat m, s'))" "reg_inv (layout objs procs 1) m s'"
    "m = 1 + sum_list (map threadNum procs)" by auto
  have "fm_Init env objs app rt procs f = Some (Inr ((fc_init rt f)\<lparr>fc_selector := s'\<rparr>))" using m(1) by (simp add: fm_Init_def Let_def)
  moreover have "fc_fifo (fc_init rt f) = Fifo_new" "fc_shutdown (fc_init rt f)" by (simp_all add: fc_init_def f_def)
  ultimately show thesis using m(2,3) by (intro that [of f "(fc_init rt f)\<lparr>fc_selector := s'\<rparr>", OF new]) simp_all
qed

end
