(* ===== verification/KernelSpec.thy ===== *)
theory KernelSpec
  imports RegistrationSpec
begin

text \<open>
  What the calls of the kernel thread put into the queues of the containers: events, messages to one instance,
  multicasts and broadcasts, and one pass of \<open>mainLoop\<close>. None of them is undefined on a consistent selector.
\<close>

section \<open>Deliveries\<close>

text \<open>What a call puts into the queues: messages for containers, in order.\<close>

fun posts :: "(addr \<times> TMsg) list \<Rightarrow> (addr \<rightharpoonup> TTaskContainer) \<Rightarrow> (addr \<rightharpoonup> TTaskContainer)" where
  "posts [] cs = cs"
| "posts ((a, m) # ds) cs = posts ds (case cs a of None \<Rightarrow> cs | Some c \<Rightarrow> cs(a \<mapsto> tc_add m c))"

lemma steady_inst:
  assumes "steady s s'" "s_inst s v = Some i" "s_tcs s q = Some t"
  shows "\<exists>i'. s_inst s' v = Some i' \<and> is_tcid i' = is_tcid i \<and> is_tcs i' = is_tcs i" "\<exists>t'. s_tcs s' q = Some t' \<and> tcid t' = tcid t \<and> tc t' = tc t"
proof -
  have "inst_core s' v = inst_core s v" "tcs_core s' q = tcs_core s q" using assms(1) by (simp_all add: steady_def)
  then show "\<exists>i'. s_inst s' v = Some i' \<and> is_tcid i' = is_tcid i \<and> is_tcs i' = is_tcs i" "\<exists>t'. s_tcs s' q = Some t' \<and> tcid t' = tcid t \<and> tc t' = tc t"
    using assms(2,3) by (auto simp: inst_core_def tcs_core_def)
qed

lemma deliver_steady:
  assumes "sel_inv s" "containers s a = Some c"
  obtains s' where "deliver a m s = Some s'" "steady s s'" "containers s' = posts [(a, m)] (containers s)" "s_inst s' = s_inst s" "s_tcs s' = s_tcs s"
proof -
  obtain s' where s': "deliver a m s = Some s'" "s' = s\<lparr>containers := (containers s)(a \<mapsto> tc_add m c)\<rparr>" "sel_inv s'" "members s' = members s"
    by (rule deliver_ok [OF assms])
  have "steady s s'" using s'(3,4) by (simp add: steady_def s'(2) tcs_core_def inst_core_def fun_eq_iff)
  then show thesis using s' assms(2) by (intro that [of s']) simp_all
qed

text \<open>The container of an instance and of a table entry.\<close>

definition tcs_box :: "TTaskSelector \<Rightarrow> addr \<Rightarrow> addr" where
  "tcs_box s q = tc (the (s_tcs s q))"

definition inst_box :: "TTaskSelector \<Rightarrow> addr \<Rightarrow> addr" where
  "inst_box s v = tcs_box s (tcs_of s v)"

lemma box_steady:
  assumes "steady s s'"
  shows "s_tcs s q \<noteq> None \<Longrightarrow> tcs_box s' q = tcs_box s q" "inst_ok s tid v \<Longrightarrow> inst_box s' v = inst_box s v" "cid_of s' v = cid_of s v"
proof -
  show 1: "tcs_box s' q = tcs_box s q" if q: "s_tcs s q \<noteq> None" for q
  proof -
    have "tcs_core s' q = tcs_core s q" using assms by (simp add: steady_def)
    then show ?thesis using q by (auto simp: tcs_box_def tcs_core_def)
  qed
  have ic: "inst_core s' v = inst_core s v" using assms by (simp add: steady_def)
  then show "cid_of s' v = cid_of s v" by (auto simp: cid_of_def inst_core_def split: option.splits)
  show "inst_box s' v = inst_box s v" if v: "inst_ok s tid v"
  proof -
    obtain i t where i: "s_inst s v = Some i" "s_tcs s (is_tcs i) = Some t" using v unfolding inst_ok_def by blast
    then have "tcs_of s' v = tcs_of s v" using ic by (auto simp: tcs_of_def inst_core_def)
    then show ?thesis using i 1 by (simp add: inst_box_def tcs_of_def)
  qed
qed

lemma inst_boxed:
  assumes "sel_inv s" "inst_ok s tid v"
  obtains i t c where "s_inst s v = Some i" "s_tcs s (is_tcs i) = Some t" "is_tcs i \<noteq> NULL" "containers s (tc t) = Some c" "inst_box s v = tc t" "is_tcid i = cid_of s v"
    "is_tcid i \<noteq> 0" "c_containerId c = cid_of s v" "task_at c tid \<noteq> None"
proof -
  obtain i t c where i: "s_inst s v = Some i" "ctab s (is_tcid i) = Some (is_tcs i)" "s_tcs s (is_tcs i) = Some t" "containers s (tc t) = Some c" "task_at c tid \<noteq> None"
    using assms(2) unfolding inst_ok_def by blast
  then have "cont_ok s (is_tcid i) (is_tcs i)" using assms(1) by (simp add: sel_inv_def)
  then show thesis using i by (intro that [of i t c]) (auto simp: cont_ok_def inst_box_def tcs_box_def tcs_of_def cid_of_def)
qed

lemma inst_ok_steady:
  assumes "steady s s'" "inst_ok s tid v" "v \<in> set (members s tid)"
  shows "inst_ok s' tid v"
proof -
  have "sel_inv s'" "v \<in> set (members s' tid)" using assms(1,3) by (simp_all add: steady_def)
  moreover obtain p where "ttab s' tid = Some p" using calculation(2) by (cases "ttab s' tid") (simp_all add: members_def)
  ultimately show ?thesis using task_okD by metis
qed

section \<open>Events\<close>

lemma event_to_insts_ok:
  assumes "sel_inv s" "\<forall>v \<in> set vs. v \<in> set (members s tid) \<and> inst_ok s tid v" "ev_instID e = 0"
  shows "\<exists>s'. event_to_insts e vs (b, s) = Some (b \<or> vs \<noteq> [], s') \<and> steady s s' \<and>
    containers s' = posts (map (\<lambda>v. (inst_box s v, Event (e\<lparr>ev_instID := cid_of s v\<rparr>))) vs) (containers s)"
  using assms(1,2)
proof (induction vs arbitrary: b s)
  case Nil
  then show ?case by (simp add: steady_refl)
next
  case (Cons v vs)
  have iv: "inst_ok s tid v" using Cons.prems(2) by simp
  obtain i t c where i: "s_inst s v = Some i" "s_tcs s (is_tcs i) = Some t" "is_tcs i \<noteq> NULL" "containers s (tc t) = Some c" "inst_box s v = tc t" "is_tcid i = cid_of s v"
    by (rule inst_boxed [OF Cons.prems(1) iv])
  obtain s1 where s1: "deliver (tc t) (Event (e\<lparr>ev_instID := cid_of s v\<rparr>)) s = Some s1" "steady s s1"
    "containers s1 = posts [(tc t, Event (e\<lparr>ev_instID := cid_of s v\<rparr>))] (containers s)" by (rule deliver_steady [OF Cons.prems(1) i(4)])
  have inv1: "sel_inv s1" "members s1 = members s" using s1(2) by (simp_all add: steady_def)
  have ok: "\<forall>w \<in> set vs. w \<in> set (members s1 tid) \<and> inst_ok s1 tid w" using Cons.prems(2) inst_ok_steady [OF s1(2)] inv1(2) by simp
  obtain s' where s': "event_to_insts e vs (True, s1) = Some (True, s')" "steady s1 s'"
    "containers s' = posts (map (\<lambda>v. (inst_box s1 v, Event (e\<lparr>ev_instID := cid_of s1 v\<rparr>))) vs) (containers s1)" using Cons.IH [OF inv1(1) ok, of True] by auto
  have eqs: "map (\<lambda>v. (inst_box s1 v, Event (e\<lparr>ev_instID := cid_of s1 v\<rparr>))) vs = map (\<lambda>v. (inst_box s v, Event (e\<lparr>ev_instID := cid_of s v\<rparr>))) vs"
    using Cons.prems(2) box_steady(2) [OF s1(2), of tid] box_steady(3) [OF s1(2)] by simp
  have "containers s' = posts (map (\<lambda>v. (inst_box s v, Event (e\<lparr>ev_instID := cid_of s v\<rparr>))) (v # vs)) (containers s)"
    using s'(3) s1(3) i(5) unfolding eqs by simp
  moreover have "event_clone e\<lparr>ev_taskID := ev_taskID e, ev_instID := is_tcid i\<rparr> = e\<lparr>ev_instID := cid_of s v\<rparr>" using i(6) by (simp add: event_clone_def)
  ultimately show ?case using i assms(3) s1(1) s'(1) steady_trans [OF s1(2) s'(2)] by simp
qed

lemma event_to_all_ok:
  assumes "sel_inv s" "\<forall>q \<in> set qs. q \<in> ran (ctab s)"
  shows "\<exists>s'. event_to_all e qs (b, s) = Some (b \<or> qs \<noteq> [], s') \<and> steady s s' \<and> containers s' = posts (map (\<lambda>q. (tcs_box s q, Event e)) qs) (containers s)"
  using assms
proof (induction qs arbitrary: b s)
  case Nil
  then show ?case by (simp add: steady_refl)
next
  case (Cons q qs)
  obtain cid where "ctab s cid = Some q" using Cons.prems(2) by (auto simp: ran_def)
  then have "cont_ok s cid q" using Cons.prems(1) by (simp add: sel_inv_def)
  then obtain t c where t: "q \<noteq> NULL" "s_tcs s q = Some t" "containers s (tc t) = Some c" by (auto simp: cont_ok_def)
  obtain s1 where s1: "deliver (tc t) (Event e) s = Some s1" "steady s s1" "containers s1 = posts [(tc t, Event e)] (containers s)"
    by (rule deliver_steady [OF Cons.prems(1) t(3)])
  have st1: "sel_inv s1" "ctab s1 = ctab s" using s1(2) by (simp_all add: steady_def)
  obtain s' where s': "event_to_all e qs (True, s1) = Some (True, s')" "steady s1 s'" "containers s' = posts (map (\<lambda>q. (tcs_box s1 q, Event e)) qs) (containers s1)"
    using Cons.IH [OF st1(1), of True] Cons.prems(2) st1(2) by auto
  have "s_tcs s x \<noteq> None" if xq: "x \<in> set qs" for x
  proof -
    obtain cid where "ctab s cid = Some x" using Cons.prems(2) xq by (auto simp: ran_def)
    then have "cont_ok s cid x" using Cons.prems(1) by (simp add: sel_inv_def)
    then show ?thesis by (auto simp: cont_ok_def)
  qed
  then have eqs: "map (\<lambda>q. (tcs_box s1 q, Event e)) qs = map (\<lambda>q. (tcs_box s q, Event e)) qs" using box_steady(1) [OF s1(2)] by simp
  have "event_clone e = e" by (simp add: event_clone_def)
  moreover have "tcs_box s q = tc t" using t(2) by (simp add: tcs_box_def)
  ultimately show ?case using t s1(1,3) s' steady_trans [OF s1(2) s'(2)] unfolding eqs by simp
qed

text \<open>The containers an event is for.\<close>

definition event_posts :: "TEventMsg \<Rightarrow> TTaskSelector \<Rightarrow> (addr \<times> TMsg) list \<Rightarrow> bool" where
  "event_posts e s ds = (
     if ev_instID e > 0 then ds = (case ctab s (ev_instID e) of None \<Rightarrow> [] | Some q \<Rightarrow> [(tcs_box s q, Event e)])
     else if ev_taskID e > 0 then ds = map (\<lambda>v. (inst_box s v, Event (e\<lparr>ev_instID := cid_of s v\<rparr>))) (members s (ev_taskID e))
     else distinct (map fst ds) \<and> set ds = (\<lambda>q. (tcs_box s q, Event e)) ` ran (ctab s))"

lemma tcs_box_inj: "sel_inv s \<Longrightarrow> inj_on (tcs_box s) (ran (ctab s))"
proof (rule inj_onI)
  fix x y assume inv: "sel_inv s" and xy: "x \<in> ran (ctab s)" "y \<in> ran (ctab s)" "tcs_box s x = tcs_box s y"
  obtain i j where ij: "ctab s i = Some x" "ctab s j = Some y" using xy by (auto simp: ran_def)
  have "cont_ok s i x" "cont_ok s j y" using inv ij by (simp_all add: sel_inv_def)
  then have "i = j" using xy(3) by (auto simp: cont_ok_def tcs_box_def)
  then show "x = y" using ij by simp
qed

lemma steady_table: "sel_inv s \<Longrightarrow> sel_inv (s\<lparr>mContainerList := ht\<rparr>) \<Longrightarrow> uh_get ht = ctab s \<Longrightarrow> members (s\<lparr>mContainerList := ht\<rparr>) = members s \<Longrightarrow>
    steady s (s\<lparr>mContainerList := ht\<rparr>)"
  by (simp add: steady_def tcs_core_def inst_core_def fun_eq_iff)

lemma addEvent_ok:
  assumes inv: "sel_inv s"
  obtains ds s' where "addEvent e s = Some (ds \<noteq> [], (if ds \<noteq> [] then [] else fc_post (e\<lparr>ev_status := 2, eventInfo := lit ''taskid or instid not found!''\<rparr>)), s')"
    "event_posts e s ds" "containers s' = posts ds (containers s)" "steady s s'"
proof -
  consider (inst) "ev_instID e > 0" | (task) "ev_instID e = 0" "ev_taskID e > 0" | (all) "ev_instID e = 0" "ev_taskID e = 0" by (metis word_gt_0)
  then show thesis
  proof cases
    case inst
    show thesis
    proof (cases "ctab s (ev_instID e)")
      case None
      then show thesis using inst inv by (intro that [of "[]" s]) (simp_all add: addEvent_def event_posts_def steady_refl)
    next
      case (Some q)
      then have "cont_ok s (ev_instID e) q" using inv by (simp add: sel_inv_def)
      then obtain t c where t: "q \<noteq> NULL" "s_tcs s q = Some t" "tc t \<noteq> NULL" "containers s (tc t) = Some c" by (auto simp: cont_ok_def)
      obtain s1 where s1: "deliver (tc t) (Event e) s = Some s1" "steady s s1" "containers s1 = posts [(tc t, Event e)] (containers s)" by (rule deliver_steady [OF inv t(4)])
      then show thesis using inst Some t by (intro that [of "[(tc t, Event e)]" s1]) (simp_all add: addEvent_def event_posts_def tcs_box_def)
    qed
  next
    case task
    show thesis
    proof (cases "ttab s (ev_taskID e)")
      case None
      then show thesis using task inv members_none [OF None] by (intro that [of "[]" s]) (simp_all add: addEvent_def event_posts_def steady_refl)
    next
      case (Some p)
      let ?ds = "map (\<lambda>v. (inst_box s v, Event (e\<lparr>ev_instID := cid_of s v\<rparr>))) (members s (ev_taskID e))"
      obtain ts c where t: "p \<noteq> NULL" "s_task s p = Some ts" "clist_rel (tk_inst ts) (members s (ev_taskID e), c)"
        "\<forall>v \<in> set (members s (ev_taskID e)). inst_ok s (ev_taskID e) v" by (rule task_okD [OF inv Some])
      obtain s1 where s1: "event_to_insts e (members s (ev_taskID e)) (False, s) = Some (members s (ev_taskID e) \<noteq> [], s1)" "steady s s1" "containers s1 = posts ?ds (containers s)"
        using event_to_insts_ok [OF inv _ task(1), of "members s (ev_taskID e)" "ev_taskID e" False] t(4) by auto
      have "addEvent e s = Some (?ds \<noteq> [], (if ?ds \<noteq> [] then [] else fc_post (e\<lparr>ev_status := 2, eventInfo := lit ''taskid or instid not found!''\<rparr>)), s1)"
        using task Some t(1,2) insts.items_ok [OF t(3)] s1(1) by (simp add: addEvent_def)
      then show thesis using task s1(2,3) by (intro that [of ?ds s1]) (simp_all add: event_posts_def)
    qed
  next
    case all
    obtain qs ht where q: "all_tcs s = Some (qs, s\<lparr>mContainerList := ht\<rparr>)" "sel_inv (s\<lparr>mContainerList := ht\<rparr>)" "uh_get ht = ctab s"
      "members (s\<lparr>mContainerList := ht\<rparr>) = members s" "distinct qs" "set qs = ran (ctab s)" by (rule all_tcs_ok [OF inv])
    let ?s = "s\<lparr>mContainerList := ht\<rparr>" let ?ds = "map (\<lambda>q. (tcs_box s q, Event e)) qs"
    have st: "steady s ?s" by (rule steady_table [OF inv q(2-4)])
    have bx: "tcs_box ?s = tcs_box s" by (simp add: fun_eq_iff tcs_box_def)
    obtain s1 where s1: "event_to_all e qs (False, ?s) = Some (qs \<noteq> [], s1)" "steady ?s s1" "containers s1 = posts ?ds (containers s)"
      using event_to_all_ok [OF q(2), of qs e False] q(3,6) unfolding bx by auto
    have "distinct (map fst ?ds)" using q(5,6) tcs_box_inj [OF inv] by (simp add: comp_def distinct_map)
    moreover have "addEvent e s = Some (?ds \<noteq> [], (if ?ds \<noteq> [] then [] else fc_post (e\<lparr>ev_status := 2, eventInfo := lit ''taskid or instid not found!''\<rparr>)), s1)"
      using all q(1) s1(1) by (simp add: addEvent_def)
    ultimately show thesis using all s1(3) steady_trans [OF st s1(2)] q(6) by (intro that [of ?ds s1]) (simp_all add: event_posts_def)
  qed
qed

section \<open>Multicast and broadcast\<close>

lemma sel_inv_inst_count:
  assumes "sel_inv s" "s_inst s v = Some i"
  shows "steady s (s\<lparr>s_inst := (s_inst s)(v \<mapsto> i\<lparr>is_count := n\<rparr>)\<rparr>)"
proof -
  let ?s = "s\<lparr>s_inst := (s_inst s)(v \<mapsto> i\<lparr>is_count := n\<rparr>)\<rparr>"
  have m: "members ?s = members s" "cid_of ?s = cid_of s" "avail ?s = avail s"
    by (intro ext; use assms(2) in \<open>simp add: members_def cid_of_def avail_def cong: option.case_cong\<close>)+
  have sh: "same_shape s ?s" using assms(2) by (auto simp: same_shape_def tcs_core_def inst_core_def fun_eq_iff)
  have "task_ok s x p \<Longrightarrow> task_ok ?s x p" for x p using inst_ok_shape [OF sh] unfolding task_ok_def m by auto
  moreover have "cont_ok s x q \<Longrightarrow> cont_ok ?s x q" for x q by (rule cont_ok_shape [OF sh])
  moreover have "fresh s \<Longrightarrow> fresh ?s" using assms(2) unfolding fresh_def by auto
  ultimately have "sel_inv ?s" using assms unfolding sel_inv_def m by auto
  then show ?thesis using m sh by (simp add: steady_def same_shape_def)
qed

lemma multicast_loop_ok:
  assumes "sel_inv s" "\<forall>v \<in> set vs. v \<in> set (members s tid) \<and> inst_ok s tid v" "uninet_clone u = Some m"
  shows "\<exists>s'. multicast_loop u vs s = Some s' \<and> steady s s' \<and>
    containers s' = posts (map (\<lambda>v. (inst_box s v, UniNet (m\<lparr>tAddr := (tAddr m)\<lparr>phyAddr := cid_of s v\<rparr>\<rparr>))) vs) (containers s)"
  using assms(1,2)
proof (induction vs arbitrary: s)
  case Nil
  then show ?case by (simp add: steady_refl)
next
  case (Cons v vs)
  let ?m = "\<lambda>s v. UniNet (m\<lparr>tAddr := (tAddr m)\<lparr>phyAddr := cid_of s v\<rparr>\<rparr>)"
  have iv: "inst_ok s tid v" "v \<noteq> NULL" using Cons.prems(2) by (auto simp: inst_ok_def)
  obtain i t c where i: "s_inst s v = Some i" "s_tcs s (is_tcs i) = Some t" "containers s (tc t) = Some c" "inst_box s v = tc t" "is_tcid i = cid_of s v" "is_tcid i \<noteq> 0"
    by (rule inst_boxed [OF Cons.prems(1) iv(1)])
  obtain s1 where s1: "deliver (tc t) (?m s v) s = Some s1" "steady s s1" "containers s1 = posts [(tc t, ?m s v)] (containers s)" "s_inst s1 = s_inst s"
    by (rule deliver_steady [OF Cons.prems(1) i(3)])
  let ?s2 = "s1\<lparr>s_inst := (s_inst s1)(v \<mapsto> i\<lparr>is_count := is_count i + 1\<rparr>)\<rparr>"
  have s2: "steady s1 ?s2" by (rule sel_inv_inst_count) (use s1(2,4) i(1) in \<open>simp_all add: steady_def\<close>)
  have st: "steady s ?s2" by (rule steady_trans [OF s1(2) s2])
  have inv2: "sel_inv ?s2" "members ?s2 = members s" using st by (simp_all add: steady_def)
  have ok: "\<forall>w \<in> set vs. w \<in> set (members ?s2 tid) \<and> inst_ok ?s2 tid w" using Cons.prems(2) inst_ok_steady [OF st] inv2(2) by simp
  obtain s' where s': "multicast_loop u vs ?s2 = Some s'" "steady ?s2 s'" "containers s' = posts (map (\<lambda>v. (inst_box ?s2 v, ?m ?s2 v)) vs) (containers ?s2)"
    using Cons.IH [OF inv2(1) ok] by auto
  have eqs: "map (\<lambda>v. (inst_box ?s2 v, ?m ?s2 v)) vs = map (\<lambda>v. (inst_box s v, ?m s v)) vs"
    using Cons.prems(2) box_steady(2) [OF st, of tid] box_steady(3) [OF st] by simp
  have "containers s' = posts (map (\<lambda>v. (inst_box s v, ?m s v)) (v # vs)) (containers s)" using s'(3) s1(3) i(4) unfolding eqs by simp
  moreover have "multicast_loop u (v # vs) s = Some s'" using iv(2) i(1,2,5,6) s1(1) s'(1) assms(3) by (simp add: word_gt_0)
  ultimately show ?case using steady_trans [OF st s'(2)] by blast
qed

lemma broadcast_loop_ok:
  assumes "sel_inv s" "\<forall>q \<in> set qs. q \<in> ran (ctab s)" "uninet_clone u = Some m"
  shows "\<exists>s'. broadcast_loop u qs s = Some s' \<and> steady s s' \<and>
    containers s' = posts (map (\<lambda>q. (tcs_box s q, UniNet (m\<lparr>tAddr := (tAddr m)\<lparr>phyAddr := tcid (the (s_tcs s q))\<rparr>\<rparr>))) qs) (containers s)"
  using assms(1,2)
proof (induction qs arbitrary: s)
  case Nil
  then show ?case by (simp add: steady_refl)
next
  case (Cons q qs)
  let ?m = "\<lambda>s q. UniNet (m\<lparr>tAddr := (tAddr m)\<lparr>phyAddr := tcid (the (s_tcs s q))\<rparr>\<rparr>)"
  have al: "s_tcs s x \<noteq> None" if xq: "x \<in> set (q # qs)" for x
  proof -
    obtain cid where "ctab s cid = Some x" using Cons.prems(2) xq by (auto simp: ran_def)
    then have "cont_ok s cid x" using Cons.prems(1) by (simp add: sel_inv_def)
    then show ?thesis by (auto simp: cont_ok_def)
  qed
  obtain cid where "ctab s cid = Some q" using Cons.prems(2) by (auto simp: ran_def)
  then have "cont_ok s cid q" using Cons.prems(1) by (simp add: sel_inv_def)
  then obtain t c where t: "q \<noteq> NULL" "s_tcs s q = Some t" "containers s (tc t) = Some c" by (auto simp: cont_ok_def)
  obtain s1 where s1: "deliver (tc t) (?m s q) s = Some s1" "steady s s1" "containers s1 = posts [(tc t, ?m s q)] (containers s)" "s_tcs s1 = s_tcs s"
    by (rule deliver_steady [OF Cons.prems(1) t(3)])
  have st1: "sel_inv s1" "ctab s1 = ctab s" using s1(2) by (simp_all add: steady_def)
  obtain s' where s': "broadcast_loop u qs s1 = Some s'" "steady s1 s'" "containers s' = posts (map (\<lambda>q. (tcs_box s1 q, ?m s1 q)) qs) (containers s1)"
    using Cons.IH [OF st1(1)] Cons.prems(2) st1(2) by auto
  have eqs: "map (\<lambda>q. (tcs_box s1 q, ?m s1 q)) qs = map (\<lambda>q. (tcs_box s q, ?m s q)) qs" by (simp add: s1(4) tcs_box_def)
  have "tcs_box s q = tc t" using t(2) by (simp add: tcs_box_def)
  then show ?case using t s1(1,3) s' steady_trans [OF s1(2) s'(2)] assms(3) unfolding eqs by simp
qed

text \<open>The containers a message is for, whatever the kind of delivery.\<close>

definition msg_posts :: "TUniNetMsg \<Rightarrow> TTaskSelector \<Rightarrow> (addr \<times> TMsg) list \<Rightarrow> bool" where
  "msg_posts u s ds = (
     if msgType u = ucast DIALOG_BROADCAST then distinct (map fst ds) \<and> (\<exists>m. uninet_clone u = Some m \<and>
       set ds = (\<lambda>q. (tcs_box s q, UniNet (m\<lparr>tAddr := (tAddr m)\<lparr>phyAddr := tcid (the (s_tcs s q))\<rparr>\<rparr>))) ` ran (ctab s))
     else if msgType u = ucast DIALOG_MULTICAST then (\<exists>m. uninet_clone u = Some m \<and>
       ds = map (\<lambda>v. (inst_box s v, UniNet (m\<lparr>tAddr := (tAddr m)\<lparr>phyAddr := cid_of s v\<rparr>\<rparr>))) (members s (logAddr (tAddr u))))
     else if ttab s (logAddr (tAddr u)) = None then ds = []
     else if dest u = 0 then (\<exists>v m. next_instance s (logAddr (tAddr u)) = Some v \<and> v \<in> set (members s (logAddr (tAddr u))) \<and> readdressed u m \<and> ds = [(inst_box s v, UniNet m)])
     else (case ctab s (dest u) of None \<Rightarrow> ds = [] | Some q \<Rightarrow> \<exists>m. readdressed u m \<and> ds = [(tcs_box s q, UniNet m)]))"

lemma counters_steady:
  "steady s s1 \<Longrightarrow> steady s (s1\<lparr>multicastMsgCount := n\<rparr>)" "steady s s1 \<Longrightarrow> steady s (s1\<lparr>broadcastMsgCount := n\<rparr>)"
  "sel_inv s2 \<Longrightarrow> steady s2 (setCurrentTime t s2)"
  using sel_inv_counters [of s1] sel_inv_counters [of s2] by (simp_all add: steady_def setCurrentTime_def tcs_core_def inst_core_def fun_eq_iff)

lemma multicast_ok:
  assumes inv: "sel_inv s" and p: "ttab s (logAddr (tAddr u)) = Some p" and m: "uninet_clone u = Some m"
  obtains s' where "multicastMsgToTask u s = Some (True, s')" "steady s s'"
    "containers s' = posts (map (\<lambda>v. (inst_box s v, UniNet (m\<lparr>tAddr := (tAddr m)\<lparr>phyAddr := cid_of s v\<rparr>\<rparr>))) (members s (logAddr (tAddr u)))) (containers s)"
proof -
  obtain ts c where t: "s_task s p = Some ts" "clist_rel (tk_inst ts) (members s (logAddr (tAddr u)), c)" "\<forall>v \<in> set (members s (logAddr (tAddr u))). inst_ok s (logAddr (tAddr u)) v"
    by (rule task_okD [OF inv p])
  obtain s1 where s1: "multicast_loop u (members s (logAddr (tAddr u))) s = Some s1" "steady s s1"
    "containers s1 = posts (map (\<lambda>v. (inst_box s v, UniNet (m\<lparr>tAddr := (tAddr m)\<lparr>phyAddr := cid_of s v\<rparr>\<rparr>))) (members s (logAddr (tAddr u)))) (containers s)"
    using multicast_loop_ok [OF inv _ m, of "members s (logAddr (tAddr u))" "logAddr (tAddr u)"] t(3) by auto
  then show thesis using p t(1) insts.items_ok [OF t(2)] counters_steady(1) [OF s1(2)]
    by (intro that [of "s1\<lparr>multicastMsgCount := multicastMsgCount s1 + 1\<rparr>"]) (simp_all add: multicastMsgToTask_def)
qed

lemma broadcast_ok:
  assumes inv: "sel_inv s" and m: "uninet_clone u = Some m"
  obtains ds s' where "broadcastMsgToTask u s = Some (True, s')" "steady s s'" "containers s' = posts ds (containers s)" "distinct (map fst ds)"
    "set ds = (\<lambda>q. (tcs_box s q, UniNet (m\<lparr>tAddr := (tAddr m)\<lparr>phyAddr := tcid (the (s_tcs s q))\<rparr>\<rparr>))) ` ran (ctab s)"
proof -
  obtain qs ht where q: "all_tcs s = Some (qs, s\<lparr>mContainerList := ht\<rparr>)" "sel_inv (s\<lparr>mContainerList := ht\<rparr>)" "uh_get ht = ctab s"
    "members (s\<lparr>mContainerList := ht\<rparr>) = members s" "distinct qs" "set qs = ran (ctab s)" by (rule all_tcs_ok [OF inv])
  let ?s = "s\<lparr>mContainerList := ht\<rparr>" let ?ds = "map (\<lambda>q. (tcs_box s q, UniNet (m\<lparr>tAddr := (tAddr m)\<lparr>phyAddr := tcid (the (s_tcs s q))\<rparr>\<rparr>))) qs"
  have st: "steady s ?s" by (rule steady_table [OF inv q(2-4)])
  have bx: "tcs_box ?s = tcs_box s" by (simp add: fun_eq_iff tcs_box_def)
  have "\<forall>q \<in> set qs. q \<in> ran (ctab ?s)" using q(3,6) by simp
  from broadcast_loop_ok [OF q(2) this m] obtain s1 where s1: "broadcast_loop u qs ?s = Some s1" "steady ?s s1" "containers s1 = posts ?ds (containers s)"
    unfolding bx by auto
  have "distinct (map fst ?ds)" using q(5,6) tcs_box_inj [OF inv] by (simp add: comp_def distinct_map)
  moreover have "broadcastMsgToTask u s = Some (True, s1\<lparr>broadcastMsgCount := broadcastMsgCount s1 + 1\<rparr>)" using q(1) s1(1) by (simp add: broadcastMsgToTask_def)
  ultimately show thesis using s1(3) counters_steady(2) [OF steady_trans [OF st s1(2)]] q(6)
    by (intro that [of "s1\<lparr>broadcastMsgCount := broadcastMsgCount s1 + 1\<rparr>" ?ds]) auto
qed

lemma sel_add_ok:
  assumes inv: "sel_inv s" and wc: "wc_ok wc" and h: "hdr_ok u" and m: "uninet_clone u = Some m"
    and mc: "msgType u = ucast DIALOG_MULTICAST \<Longrightarrow> ttab s (logAddr (tAddr u)) \<noteq> None"
  obtains ok ds s' where "sel_add now wc u s = Some (ok, ok, s')" "msg_posts u s ds" "containers s' = posts ds (containers s)" "steady s s'" "\<not> ok \<Longrightarrow> ds = []"
proof -
  let ?tid = "logAddr (tAddr u)"
  consider (b) "msgType u = ucast DIALOG_BROADCAST" | (m) "msgType u \<noteq> ucast DIALOG_BROADCAST" "msgType u = ucast DIALOG_MULTICAST"
    | (u) "msgType u \<noteq> ucast DIALOG_BROADCAST" "msgType u \<noteq> ucast DIALOG_MULTICAST" by blast
  then show thesis
  proof cases
    case b
    obtain ds s' where "broadcastMsgToTask u s = Some (True, s')" "steady s s'" "containers s' = posts ds (containers s)" "distinct (map fst ds)"
      "set ds = (\<lambda>q. (tcs_box s q, UniNet (m\<lparr>tAddr := (tAddr m)\<lparr>phyAddr := tcid (the (s_tcs s q))\<rparr>\<rparr>))) ` ran (ctab s)" by (rule broadcast_ok [OF inv m])
    then show thesis using b m that [of True s' ds] by (simp add: sel_add_def msg_posts_def)
  next
    case m': m
    then obtain p where p: "ttab s ?tid = Some p" using mc by blast
    obtain s' where "multicastMsgToTask u s = Some (True, s')" "steady s s'"
      "containers s' = posts (map (\<lambda>v. (inst_box s v, UniNet (m\<lparr>tAddr := (tAddr m)\<lparr>phyAddr := cid_of s v\<rparr>\<rparr>))) (members s ?tid)) (containers s)"
      by (rule multicast_ok [OF inv p m])
    then show thesis using m' m by (intro that [of True s']) (simp_all add: sel_add_def msg_posts_def)
  next
    case u
    have add: "sel_add now wc u s = do { (r, s) \<leftarrow> sendMsgToTask now wc u s; Some (r, r, s) }" using u by (simp add: sel_add_def)
    show thesis
    proof (cases "ttab s ?tid")
      case None
      then have "\<not> uh_contains (mTaskList s) ?tid" using ptab_contains inv unfolding sel_inv_def by metis
      then have "sendMsgToTask now wc u s = Some (False, s)" by (simp add: sendMsgToTask_def)
      then show thesis using None u add steady_refl [OF inv] that [of False s "[]"] by (simp add: msg_posts_def)
    next
      case (Some p)
      show thesis
      proof (cases "dest u = 0")
        case True
        obtain v a c m' s' where r: "sendMsgToTask now wc u s = Some (True, s')" "next_instance s ?tid = Some v" "v \<in> set (members s ?tid)" "box_of s v = Some a" "containers s a = Some c"
          "readdressed u m'" "containers s' = (containers s)(a \<mapsto> tc_add (UniNet m') c)" "steady s s'" by (rule sendMsgToTask_ok [OF inv wc h Some True])
        have "inst_box s v = a" using r(4) by (auto simp: box_of_def inst_box_def tcs_box_def tcs_of_def bind_Some_iff)
        then show thesis using u add Some True r that [of True s' "[(a, UniNet m')]"] by (auto simp: msg_posts_def)
      next
        case False
        show thesis
        proof (rule sendMsg_directed [OF inv h Some False, of now wc])
          assume a: "ctab s (dest u) = None" "\<exists>s'. sendMsgToTask now wc u s = Some (False, s') \<and> steady s s' \<and> containers s' = containers s"
          then obtain s' where "sendMsgToTask now wc u s = Some (False, s')" "steady s s'" "containers s' = containers s" by blast
          then show thesis using u add Some False a(1) that [of False s' "[]"] by (simp add: msg_posts_def)
        next
          fix q t c m' s'
          assume a: "ctab s (dest u) = Some q" "s_tcs s q = Some t" "containers s (tc t) = Some c" "readdressed u m'" "sendMsgToTask now wc u s = Some (True, s')"
            "containers s' = (containers s)(tc t \<mapsto> tc_add (UniNet m') c)" "steady s s'"
          then show thesis using u add Some False that [of True s' "[(tc t, UniNet m')]"] by (auto simp: msg_posts_def tcs_box_def)
        qed
      qed
    qed
  qed
qed

text \<open>The status text can always be written.\<close>

lemma instance_lines_ok: "\<forall>v \<in> set vs. inst_ok s tid v \<Longrightarrow> \<exists>x. instance_lines vs s = Some x"
  by (induction vs) (auto simp: inst_ok_def)

lemma container_lines_ok: "sel_inv s \<Longrightarrow> \<forall>q \<in> set qs. q \<in> ran (ctab s) \<Longrightarrow> \<exists>x. container_lines qs s = Some x"
proof (induction qs)
  case (Cons q qs)
  obtain cid where "ctab s cid = Some q" using Cons.prems(2) by (auto simp: ran_def)
  then have "cont_ok s cid q" using Cons.prems(1) by (simp add: sel_inv_def)
  then show ?case using Cons by (auto simp: cont_ok_def)
qed simp

lemma task_lines_ok: "sel_inv s \<Longrightarrow> \<forall>p \<in> set ps. p \<in> ran (ttab s) \<Longrightarrow> \<exists>x. task_lines ps s = Some x"
proof (induction ps)
  case (Cons p ps)
  obtain tid where t: "ttab s tid = Some p" using Cons.prems(2) by (auto simp: ran_def)
  obtain ts c where ts: "p \<noteq> NULL" "s_task s p = Some ts" "clist_rel (tk_inst ts) (members s tid, c)" "\<forall>v \<in> set (members s tid). inst_ok s tid v"
    by (rule task_okD [OF Cons.prems(1) t])
  obtain x where "instance_lines (members s tid) s = Some x" using instance_lines_ok [OF ts(4)] by blast
  then show ?case using ts(1,2) insts.items_ok [OF ts(3)] Cons by auto
qed simp

lemma sel_getStatues_ok:
  assumes "sel_inv s"
  obtains x s' where "sel_getStatues st s = Some (x, s')" "steady s s'" "containers s' = containers s"
proof -
  obtain qs ht where q: "all_tcs s = Some (qs, s\<lparr>mContainerList := ht\<rparr>)" "sel_inv (s\<lparr>mContainerList := ht\<rparr>)" "uh_get ht = ctab s"
    "members (s\<lparr>mContainerList := ht\<rparr>) = members s" "distinct qs" "set qs = ran (ctab s)" by (rule all_tcs_ok [OF assms])
  let ?s = "s\<lparr>mContainerList := ht\<rparr>"
  have "\<forall>q \<in> set qs. q \<in> ran (ctab ?s)" using q(3,6) by simp
  from container_lines_ok [OF q(2) this] obtain cl where cl: "container_lines qs ?s = Some cl" by blast
  obtain f g where fg: "dlg_rel (mIntDialog s) f" "dlg_rel (mStrDialog s) g" using assms unfolding sel_inv_def by blast
  have tabs: "ptab_ok ht" "ptab_ok (mTaskList s)" using q(2) by (simp_all add: sel_inv_def)
  obtain kvs t' where k: "enum_collect (snd (ht_reset (mTaskList s))) = Some (kvs, t')" "ptab_ok t'" "uh_get t' = ttab s" "distinct (map fst kvs)" "map_of kvs = ttab s"
    by (rule ptab_enum [OF tabs(2)])
  let ?s2 = "?s\<lparr>mTaskList := t'\<rparr>"
  have s2: "sel_inv ?s2" "members ?s2 = members ?s" using sel_inv_views [OF q(2), of ?s2 f g] fg tabs(1) k(2,3) by simp_all
  have "set (map snd kvs) = ran (ttab s)" using ran_distinct [OF k(4)] k(5) by simp
  then have "\<forall>p \<in> set (map snd kvs). p \<in> ran (ttab ?s2)" using k(3) by simp
  from task_lines_ok [OF s2(1) this] obtain tl where tl: "task_lines (map snd kvs) ?s2 = Some tl" by blast
  have "steady s ?s2" using s2 q(3,4) k(3) by (simp add: steady_def tcs_core_def inst_core_def fun_eq_iff)
  moreover have "\<exists>x. sel_getStatues st s = Some (x, ?s2)" using q(1) cl k(1) tl by (simp add: sel_getStatues_def Let_def)
  ultimately show thesis using that by auto
qed

section \<open>The kernel loop\<close>

definition kernel_posts :: "TFRAMEControl \<Rightarrow> TMsg \<Rightarrow> (addr \<times> TMsg) list \<Rightarrow> bool" where
  "kernel_posts f m ds = (case m of
       UniNet u \<Rightarrow> if fc_shutdown f then ds = [] else msg_posts u (fc_selector f) ds
     | Event e \<Rightarrow> if ev_taskID e \<ge> TASKSELECTOR_TASKID \<or> ev_taskID e = 0 then event_posts e (fc_selector f) ds else ds = []
     | _ \<Rightarrow> ds = [])"

text \<open>The messages the kernel can handle: a message that has a control header says so, its parts can be copied, a
  multicast is for a registered task, and the text of a reload command can be split.\<close>

definition kmsg_ok :: "TTaskSelector \<Rightarrow> TMsg \<Rightarrow> bool" where
  "kmsg_ok s m = (command_ok m \<and> (case m of
       UniNet u \<Rightarrow> hdr_ok u \<and> uninet_clone u \<noteq> None \<and> (msgType u = ucast DIALOG_MULTICAST \<longrightarrow> ttab s (logAddr (tAddr u)) \<noteq> None)
     | _ \<Rightarrow> True))"

lemma kmsg_ok_steady: "steady s s' \<Longrightarrow> kmsg_ok s' = kmsg_ok s"
  by (auto simp: fun_eq_iff kmsg_ok_def steady_def split: TMsg.splits)

lemma fc_uninet_ok:
  assumes "sel_inv (fc_selector f)" "wc_ok (fi_wc i)" "kmsg_ok (fc_selector f) (UniNet u)"
  obtains ds f' where "fc_uninet i u f = Some f'" "kernel_posts f (UniNet u) ds" "containers (fc_selector f') = posts ds (containers (fc_selector f))"
    "steady (fc_selector f) (fc_selector f')" "fc_fifo f' = fc_fifo f" "fc_shutdown f' = fc_shutdown f"
proof (cases "fc_shutdown f")
  case True
  then show thesis using assms(1) steady_refl that [of "f\<lparr>uninetmsgCountF := uninetmsgCountF f + 1\<rparr>" "[]"] by (simp add: fc_uninet_def kernel_posts_def)
next
  case False
  obtain m where m: "hdr_ok u" "uninet_clone u = Some m" "msgType u = ucast DIALOG_MULTICAST \<Longrightarrow> ttab (fc_selector f) (logAddr (tAddr u)) \<noteq> None"
    using assms(3) by (auto simp: kmsg_ok_def)
  obtain ok ds s' where s': "sel_add (fi_now i) (fi_wc i) u (fc_selector f) = Some (ok, ok, s')" "msg_posts u (fc_selector f) ds"
    "containers s' = posts ds (containers (fc_selector f))" "steady (fc_selector f) s'" by (rule sel_add_ok [OF assms(1,2) m])
  let ?f = "f\<lparr>fc_selector := s', uninetmsgCountS := (if ok then uninetmsgCountS f + 1 else uninetmsgCountS f), uninetmsgCountF := (if ok then uninetmsgCountF f else uninetmsgCountF f + 1)\<rparr>"
  have "fc_uninet i u f = Some ?f" using False s'(1) by (cases ok) (simp_all add: fc_uninet_def)
  then show thesis using False s' by (intro that [of ?f ds]) (simp_all add: kernel_posts_def)
qed

lemma fc_event_ok:
  assumes inv: "sel_inv (fc_selector f)"
  obtains out ds f' where "fc_event e f = Some (out, f')" "kernel_posts f (Event e) ds" "containers (fc_selector f') = posts ds (containers (fc_selector f))"
    "steady (fc_selector f) (fc_selector f')" "fc_fifo f' = fc_fifo f"
proof -
  let ?own = "if ev_instID e = 0 \<and> (ev_taskID e = FRAMECONTROL_TASKID \<or> ev_taskID e = TASKSELECTOR_TASKID \<or> ev_taskID e = 0) then
         (if eventID e = APP_INIT then Some (onInit (ev_transID e) f)
          else if eventID e = APP_HEATBEAT then Some (onHeartBeat (ev_transID e) f)
          else if eventID e = APP_RELOAD then Some (onReload (ev_transID e) f)
          else if eventID e = APP_SHUTDOWN then Some (onShutdown (ev_transID e) f)
          else if eventID e = APP_STATUES then onStatues (ev_transID e) f
          else Some ([], f))
       else Some ([], f)"
  have "\<exists>out f1. ?own = Some (out, f1) \<and> containers (fc_selector f1) = containers (fc_selector f) \<and> steady (fc_selector f) (fc_selector f1) \<and> fc_fifo f1 = fc_fifo f"
  proof (cases "eventID e = APP_STATUES")
    case True
    obtain x s' where "sel_getStatues (lit ''FrameCtrlStatus: loop='' @ uint_text (loopCount f) @ lit '', procmsg='' @ uint_text (uninetmsgCountS f) @
       lit '', failemsg='' @ uint_text (uninetmsgCountF f) @ lit '', wait='' @ uint_text (fifo_size (fc_fifo f)) @ [13, 10]) (fc_selector f) = Some (x, s')"
      "steady (fc_selector f) s'" "containers s' = containers (fc_selector f)" by (rule sel_getStatues_ok [OF inv])
    then show ?thesis using True steady_refl [OF inv] by (auto simp: onStatues_def Let_def)
  next
    case False
    then show ?thesis using steady_refl [OF inv] by (auto simp: onInit_def onHeartBeat_def onReload_def onShutdown_def)
  qed
  then obtain out f1 where o: "?own = Some (out, f1)" "containers (fc_selector f1) = containers (fc_selector f)" "steady (fc_selector f) (fc_selector f1)" "fc_fifo f1 = fc_fifo f" by blast
  have inv1: "sel_inv (fc_selector f1)" using o(3) by (simp add: steady_def)
  show thesis
  proof (cases "ev_taskID e \<ge> TASKSELECTOR_TASKID \<or> ev_taskID e = 0")
    case True
    obtain ds s' where a: "addEvent e (fc_selector f1) = Some (ds \<noteq> [], (if ds \<noteq> [] then [] else fc_post (e\<lparr>ev_status := 2, eventInfo := lit ''taskid or instid not found!''\<rparr>)), s')"
      "event_posts e (fc_selector f1) ds" "containers s' = posts ds (containers (fc_selector f1))" "steady (fc_selector f1) s'" by (rule addEvent_ok [OF inv1])
    have "\<exists>out'. fc_event e f = Some (out', f1\<lparr>fc_selector := s'\<rparr>)" unfolding fc_event_def o(1) using True a(1) by simp
    moreover have "event_posts e (fc_selector f) ds"
    proof -
      have "s_tcs (fc_selector f) q \<noteq> None" if q: "q \<in> ran (ctab (fc_selector f))" for q
      proof -
        obtain cid where "ctab (fc_selector f) cid = Some q" using q by (auto simp: ran_def)
        then have "cont_ok (fc_selector f) cid q" using inv by (simp add: sel_inv_def)
        then show ?thesis by (auto simp: cont_ok_def)
      qed
      then have b: "tcs_box (fc_selector f1) q = tcs_box (fc_selector f) q" if "q \<in> ran (ctab (fc_selector f))" for q using box_steady(1) [OF o(3)] that by blast
      have c: "inst_box (fc_selector f1) v = inst_box (fc_selector f) v" if v: "v \<in> set (members (fc_selector f) tid)" for v tid
      proof -
        obtain p where p: "ttab (fc_selector f) tid = Some p" using v by (cases "ttab (fc_selector f) tid") (simp_all add: members_def)
        have "inst_ok (fc_selector f) tid v" by (rule task_okD [OF inv p]) (use v in blast)
        then show ?thesis by (rule box_steady(2) [OF o(3)])
      qed
      have t: "ctab (fc_selector f1) = ctab (fc_selector f)" "members (fc_selector f1) = members (fc_selector f)" "cid_of (fc_selector f1) = cid_of (fc_selector f)"
        using o(3) box_steady(3) [OF o(3)] by (simp_all add: steady_def fun_eq_iff)
      have e1: "(\<lambda>q. (tcs_box (fc_selector f1) q, Event e)) ` ran (ctab (fc_selector f)) = (\<lambda>q. (tcs_box (fc_selector f) q, Event e)) ` ran (ctab (fc_selector f))"
        by (rule image_cong) (use b in simp_all)
      have e2: "map (\<lambda>v. (inst_box (fc_selector f1) v, Event (e\<lparr>ev_instID := cid_of (fc_selector f) v\<rparr>))) (members (fc_selector f) (ev_taskID e)) =
          map (\<lambda>v. (inst_box (fc_selector f) v, Event (e\<lparr>ev_instID := cid_of (fc_selector f) v\<rparr>))) (members (fc_selector f) (ev_taskID e))" using c by simp
      have e3: "tcs_box (fc_selector f1) q = tcs_box (fc_selector f) q" if "ctab (fc_selector f) x = Some q" for x q by (rule b) (use that in \<open>auto simp: ran_def\<close>)
      show ?thesis using a(2) e3 unfolding event_posts_def t e1 e2 by (auto split: option.splits if_splits)
    qed
    ultimately show thesis using True a(3,4) o steady_trans [OF o(3) a(4)] that [where ds = ds] by (force simp: kernel_posts_def)
  next
    case False
    then have "fc_event e f = Some (out, f1)" unfolding fc_event_def o(1) by simp
    then show thesis using False o that [where ds = "[]"] by (simp add: kernel_posts_def)
  qed
qed

lemma fc_receive_ok:
  assumes inv: "sel_inv (fc_selector f)" and q: "counted (fc_fifo f)" "length (mFifo (fc_fifo f)) < 2 ^ 64" and wc: "wc_ok (fi_wc i)"
    and ok: "\<forall>m \<in> set (mFifo (fc_fifo f)). kmsg_ok (fc_selector f) m"
  obtains r out h ds f' where "fc_receive i f = Some (r, out, f')" "mFifo (fc_fifo f) = h @ mFifo (fc_fifo f')" "counted (fc_fifo f')"
    "steady (fc_selector f) (fc_selector f')" "containers (fc_selector f') = posts ds (containers (fc_selector f))"
    "if mFifo (fc_fifo f) = [] then h = [] \<and> ds = [] else h = [hd (mFifo (fc_fifo f))] \<and> kernel_posts f (hd (mFifo (fc_fifo f))) ds \<and> r"
proof (rule take_front_ok [OF q])
  assume e: "mFifo (fc_fifo f) = []" "take_front (fc_fifo f) = (Waits, fc_fifo f)"
  then have "\<exists>r. fc_receive i f = Some (r, [], f)" by (auto simp: fc_receive_def getNext_ms_try_def)
  then obtain r where "fc_receive i f = Some (r, [], f)" by blast
  then show thesis using e q(1) steady_refl [OF inv] by (intro that [where h = "[]" and ds = "[]"]) simp_all
next
  fix m ms q'
  assume e: "mFifo (fc_fifo f) = m # ms" "take_front (fc_fifo f) = (Got m, q')" "mFifo q' = ms" "counted q'"
  let ?f = "f\<lparr>fc_fifo := q'\<rparr>"
  have g: "getNext_ms_try (fi_end i) (fi_wait i) (fc_fifo f) = (Got m, q')" using e by (simp add: getNext_ms_try_def)
  have inv': "sel_inv (fc_selector ?f)" using inv by simp
  have km: "kmsg_ok (fc_selector ?f) m" using ok e(1) by simp
  have kp: "kernel_posts ?f m ds = kernel_posts f m ds" for ds by (cases m) (simp_all add: kernel_posts_def)
  show thesis
  proof (cases m)
    case (UniNet u)
    obtain ds f' where u: "fc_uninet i u ?f = Some f'" "kernel_posts ?f (UniNet u) ds" "containers (fc_selector f') = posts ds (containers (fc_selector ?f))"
      "steady (fc_selector ?f) (fc_selector f')" "fc_fifo f' = fc_fifo ?f" by (rule fc_uninet_ok [OF inv' wc km [unfolded UniNet]])
    have "fc_receive i f = Some (True, [], f')" using g u(1) UniNet by (simp add: fc_receive_def)
    then show thesis using e u UniNet kp [of ds] by (intro that [where h = "[m]" and ds = ds]) simp_all
  next
    case (Event ev)
    obtain out ds f' where u: "fc_event ev ?f = Some (out, f')" "kernel_posts ?f (Event ev) ds" "containers (fc_selector f') = posts ds (containers (fc_selector ?f))"
      "steady (fc_selector ?f) (fc_selector f')" "fc_fifo f' = fc_fifo ?f" by (rule fc_event_ok [OF inv'])
    have "fc_receive i f = Some (True, out, f')" using g u(1) Event by (simp add: fc_receive_def)
    then show thesis using e u Event kp [of ds] by (intro that [where h = "[m]" and ds = ds]) simp_all
  next
    case (TimeOut t)
    then have "fc_receive i f = Some (True, [], ?f)" using g by (simp add: fc_receive_def)
    then show thesis using e TimeOut steady_refl [OF inv] by (intro that [where f' = ?f and r = True and out = "[]" and h = "[m]" and ds = "[]"]) (simp_all add: kernel_posts_def)
  next
    case (PlainMsg p)
    then have "fc_receive i f = Some (True, [], ?f)" using g by (simp add: fc_receive_def)
    then show thesis using e PlainMsg steady_refl [OF inv] by (intro that [where f' = ?f and r = True and out = "[]" and h = "[m]" and ds = "[]"]) (simp_all add: kernel_posts_def)
  qed
qed

lemma time_views:
  "members (setCurrentTime t s) = members s" "pos_of (setCurrentTime t s) = pos_of s" "avail (setCurrentTime t s) = avail s" "cid_of (setCurrentTime t s) = cid_of s"
  "tcs_box (setCurrentTime t s) = tcs_box s" "inst_box (setCurrentTime t s) = inst_box s"
  by (intro ext; simp add: setCurrentTime_def members_def pos_of_def avail_def cid_of_def tcs_box_def inst_box_def tcs_of_def cong: option.case_cong)+

lemma posts_time: "msg_posts u (setCurrentTime t s) = msg_posts u s" "event_posts e (setCurrentTime t s) = event_posts e s"
proof -
  have "mContainerList (setCurrentTime t s) = mContainerList s" "mTaskList (setCurrentTime t s) = mTaskList s" "s_tcs (setCurrentTime t s) = s_tcs s" by (simp_all add: setCurrentTime_def)
  moreover have "next_instance (setCurrentTime t s) = next_instance s" by (rule ext) (simp add: next_instance_def time_views)
  ultimately show "msg_posts u (setCurrentTime t s) = msg_posts u s" "event_posts e (setCurrentTime t s) = event_posts e s"
    by (intro ext; simp only: msg_posts_def event_posts_def time_views)+
qed

lemma mainLoop_ok:
  assumes inv: "sel_inv (fc_selector f)" and q: "counted (fc_fifo f)" "length (mFifo (fc_fifo f)) < 2 ^ 64" and wc: "wc_ok (fi_wc i)"
    and ok: "\<forall>m \<in> set (mFifo (fc_fifo f)). kmsg_ok (fc_selector f) m"
  obtains r out h ds f' where "mainLoop i f = Some (r, out, f')" "mFifo (fc_fifo f) = h @ mFifo (fc_fifo f')" "counted (fc_fifo f')"
    "steady (fc_selector f) (fc_selector f')" "containers (fc_selector f') = posts ds (containers (fc_selector f))"
    "if mFifo (fc_fifo f) = [] then h = [] \<and> ds = [] else h = [hd (mFifo (fc_fifo f))] \<and> kernel_posts f (hd (mFifo (fc_fifo f))) ds \<and> r"
proof -
  let ?f = "f\<lparr>loopCount := loopCount f + 1, fc_selector := setCurrentTime (fi_time i) (fc_selector f)\<rparr>"
  have st: "steady (fc_selector f) (fc_selector ?f)" using counters_steady(3) [OF inv] by simp
  have i1: "sel_inv (fc_selector ?f)" using st by (simp add: steady_def)
  have o1: "\<forall>m \<in> set (mFifo (fc_fifo ?f)). kmsg_ok (fc_selector ?f) m" using ok kmsg_ok_steady [OF st] by simp
  have kp: "kernel_posts ?f m = kernel_posts f m" for m by (rule ext, cases m) (simp_all add: kernel_posts_def posts_time)
  have fifo: "fc_fifo ?f = fc_fifo f" by simp
  have q1: "counted (fc_fifo ?f)" "length (mFifo (fc_fifo ?f)) < 2 ^ 64" using q by simp_all
  obtain r out h ds f' where r: "fc_receive i ?f = Some (r, out, f')" "mFifo (fc_fifo ?f) = h @ mFifo (fc_fifo f')" "counted (fc_fifo f')"
    "steady (fc_selector ?f) (fc_selector f')" "containers (fc_selector f') = posts ds (containers (fc_selector ?f))"
    "if mFifo (fc_fifo ?f) = [] then h = [] \<and> ds = [] else h = [hd (mFifo (fc_fifo ?f))] \<and> kernel_posts ?f (hd (mFifo (fc_fifo ?f))) ds \<and> r"
    by (rule fc_receive_ok [OF i1 q1 wc o1])
  have "containers (fc_selector ?f) = containers (fc_selector f)" by (simp add: setCurrentTime_def)
  then have c: "containers (fc_selector f') = posts ds (containers (fc_selector f))" using r(5) by simp
  have ml: "mainLoop i f = Some (r, out, f')" using r(1) by (simp add: mainLoop_def)
  have "if mFifo (fc_fifo f) = [] then h = [] \<and> ds = [] else h = [hd (mFifo (fc_fifo f))] \<and> kernel_posts f (hd (mFifo (fc_fifo f))) ds \<and> r"
    using r(6) unfolding kp fifo .
  then show thesis using r(2) by (intro that [OF ml _ r(3) steady_trans [OF st r(4)] c]) simp_all
qed

text \<open>A call posts at most one message to a container.\<close>

lemma inst_box_distinct:
  assumes "sel_inv s"
  shows "distinct (map (inst_box s) (members s tid))"
proof (cases "ttab s tid")
  case None
  then show ?thesis by (simp add: members_none)
next
  case (Some p)
  have d: "distinct (map (cid_of s) (members s tid))" and ok: "\<forall>v \<in> set (members s tid). inst_ok s tid v" by (rule task_okD [OF assms Some], blast)+
  have "inj_on (inst_box s) (set (members s tid))"
  proof (rule inj_onI)
    fix x y assume xy: "x \<in> set (members s tid)" "y \<in> set (members s tid)" "inst_box s x = inst_box s y"
    have ix: "inst_ok s tid x" "inst_ok s tid y" using ok xy by auto
    obtain i t c where i: "s_inst s x = Some i" "s_tcs s (is_tcs i) = Some t" and 1: "containers s (tc t) = Some c" "inst_box s x = tc t" "c_containerId c = cid_of s x" by (rule inst_boxed [OF assms ix(1)])
    obtain i' t' c' where i': "s_inst s y = Some i'" "s_tcs s (is_tcs i') = Some t'" and 2: "containers s (tc t') = Some c'" "inst_box s y = tc t'" "c_containerId c' = cid_of s y" by (rule inst_boxed [OF assms ix(2)])
    have "cid_of s x = cid_of s y" using 1 2 xy(3) by simp
    then show "x = y" using d xy(1,2) by (auto simp: distinct_map dest: inj_onD)
  qed
  then show ?thesis using d by (simp add: distinct_map)
qed

lemma kernel_posts_distinct:
  assumes "sel_inv (fc_selector f)" "kernel_posts f m ds" "command_ok m"
  shows "distinct (map fst ds)" "\<forall>d \<in> set ds. command_ok (snd d)"
proof -
  have m: "distinct (map fst (map (\<lambda>v. (inst_box (fc_selector f) v, g v)) (members (fc_selector f) tid)))" for tid and g :: "addr \<Rightarrow> TMsg"
    using inst_box_distinct [OF assms(1), of tid] by (simp add: comp_def)
  show "distinct (map fst ds)"
    using assms(2) m by (cases m) (auto simp: kernel_posts_def msg_posts_def event_posts_def split: if_splits option.splits)
  show "\<forall>d \<in> set ds. command_ok (snd d)"
    using assms(2,3) by (cases m) (auto simp: kernel_posts_def msg_posts_def event_posts_def command_ok_def split: if_splits option.splits)
qed

end
