(* ===== verification/SystemSpec.thy ===== *)
theory SystemSpec
  imports KernelSpec
begin

text \<open>
  The kernel thread and the container threads together: every interleaving of their steps from the start of the
  framework is defined, keeps the state consistent and hands each task its messages in order. The properties of
  the dispatcher, with a small system of two containers as their instance.
\<close>

section \<open>The whole system\<close>

text \<open>The kernel thread and the container threads, interleaved step by step.\<close>

datatype sys_step = KAdd TMsg | KLoop fc_in | KResume fc_in | InBox addr cstep

text \<open>What entered the queue of a container.\<close>

definition entered :: "TFRAMEControl \<Rightarrow> TFRAMEControl \<Rightarrow> addr \<Rightarrow> TMsg list" where
  "entered f f' a = (case containers (fc_selector f) a of None \<Rightarrow> [] | Some c \<Rightarrow>
     (case containers (fc_selector f') a of None \<Rightarrow> [] | Some c' \<Rightarrow> drop (length (queue c)) (queue c')))"

fun sys_exec :: "task_env \<Rightarrow> task_class \<Rightarrow> sys_step \<Rightarrow> TFRAMEControl \<Rightarrow> ((addr \<Rightarrow> TMsg list) \<times> TFRAMEControl) option" where
  "sys_exec env k (KAdd m) f = Some (\<lambda>_. [], fc_add m f)"
| "sys_exec env k (KLoop i) f = do { (r, out, f') \<leftarrow> mainLoop i f; Some (entered f f', f') }"
| "sys_exec env k (KResume i) f = do { (r, out, f') \<leftarrow> fc_receive i f; Some (entered f f', f') }"
| "sys_exec env k (InBox a p) f = (case containers (fc_selector f) a of None \<Rightarrow> Some (\<lambda>_. [], f)
     | Some c \<Rightarrow> do {
         (ins, out, c') \<leftarrow> c_exec env k p c;
         Some ((\<lambda>_. [])(a := ins), f\<lparr>fc_selector := (fc_selector f)\<lparr>containers := (containers (fc_selector f))(a \<mapsto> c')\<rparr>\<rparr>) })"

fun sys_run :: "task_env \<Rightarrow> task_class \<Rightarrow> sys_step list \<Rightarrow> TFRAMEControl \<Rightarrow> ((addr \<Rightarrow> TMsg list) \<times> TFRAMEControl) option" where
  "sys_run env k [] f = Some (\<lambda>_. [], f)"
| "sys_run env k (p # ps) f = do {
     (ins, f) \<leftarrow> sys_exec env k p f;
     (ins', f) \<leftarrow> sys_run env k ps f;
     Some (\<lambda>a. ins a @ ins' a, f) }"

definition sys_step_ok :: "TTaskSelector \<Rightarrow> sys_step \<Rightarrow> bool" where
  "sys_step_ok s p = (case p of KAdd m \<Rightarrow> kmsg_ok s m | KLoop i \<Rightarrow> wc_ok (fi_wc i) | KResume i \<Rightarrow> wc_ok (fi_wc i) | InBox a q \<Rightarrow> step_ok q)"

definition sys_inv :: "nat \<Rightarrow> TFRAMEControl \<Rightarrow> bool" where
  "sys_inv n f = (sel_inv (fc_selector f) \<and> counted (fc_fifo f) \<and> length (mFifo (fc_fifo f)) \<le> n \<and> (\<forall>m \<in> set (mFifo (fc_fifo f)). kmsg_ok (fc_selector f) m) \<and>
     (\<forall>a c. containers (fc_selector f) a = Some c \<longrightarrow> c_inv n c))"

text \<open>The history of a container: what it had and got is what it has handled and what still waits.\<close>

definition handled :: "(addr \<Rightarrow> TMsg list) \<Rightarrow> TFRAMEControl \<Rightarrow> TFRAMEControl \<Rightarrow> bool" where
  "handled ins f f' = (\<forall>a c. containers (fc_selector f) a = Some c \<longrightarrow> (\<exists>c' h. containers (fc_selector f') a = Some c' \<and> queue c @ ins a = h @ queue c' \<and>
     (\<forall>j. grows j (concat (map (for_task j) h)) (concat (map (timers_for j) h)) c c')))"

lemma handled_trans:
  assumes "handled i1 f f1" "handled i2 f1 f2"
  shows "handled (\<lambda>a. i1 a @ i2 a) f f2"
  unfolding handled_def
proof (intro allI impI)
  fix a c assume c: "containers (fc_selector f) a = Some c"
  obtain c1 h1 where 1: "containers (fc_selector f1) a = Some c1" "queue c @ i1 a = h1 @ queue c1"
    "\<forall>j. grows j (concat (map (for_task j) h1)) (concat (map (timers_for j) h1)) c c1" using assms(1) c unfolding handled_def by blast
  obtain c2 h2 where 2: "containers (fc_selector f2) a = Some c2" "queue c1 @ i2 a = h2 @ queue c2"
    "\<forall>j. grows j (concat (map (for_task j) h2)) (concat (map (timers_for j) h2)) c1 c2" using assms(2) 1(1) unfolding handled_def by blast
  have "queue c @ i1 a @ i2 a = (h1 @ h2) @ queue c2" using 1(2) 2(2) by (metis append.assoc)
  moreover have "grows j (concat (map (for_task j) (h1 @ h2))) (concat (map (timers_for j) (h1 @ h2))) c c2" for j using grows_trans 1(3) 2(3) by fastforce
  ultimately show "\<exists>c' h. containers (fc_selector f2) a = Some c' \<and> queue c @ i1 a @ i2 a = h @ queue c' \<and>
      (\<forall>j. grows j (concat (map (for_task j) h)) (concat (map (timers_for j) h)) c c')" using 2(1) by blast
qed

lemma posts_at:
  assumes "distinct (map fst ds)"
  shows "posts ds cs a = (case map_of ds a of None \<Rightarrow> cs a | Some m \<Rightarrow> map_option (tc_add m) (cs a))"
  using assms
proof (induction ds arbitrary: cs)
  case (Cons d ds)
  obtain b m where d: "d = (b, m)" by force
  have "map_of ds b = None" using Cons.prems d by (simp add: map_of_eq_None_iff)
  then show ?case using Cons d by (cases "a = b") (auto split: option.splits)
qed simp

lemma queue_add [simp]: "queue (tc_add m c) = queue c @ [m]"
  by (simp add: tc_add_def tc_fifo_def fifo_add_def push_def)

lemma c_inv_add: "c_inv n c \<Longrightarrow> command_ok m \<Longrightarrow> c_inv (Suc n) (tc_add m c)"
  by (auto simp: c_inv_def tc_add_def tc_fifo_def fifo_add_def push_def counted_def tq_inv_def intro: le_SucI)

lemma kernel_step_ok:
  assumes inv: "sys_inv n f" and st: "steady (fc_selector f) (fc_selector f')" and c: "counted (fc_fifo f')" and q: "mFifo (fc_fifo f) = h @ mFifo (fc_fifo f')"
    and cs: "containers (fc_selector f') = posts ds (containers (fc_selector f))"
    and ds: "if mFifo (fc_fifo f) = [] then h = [] \<and> ds = [] else h = [hd (mFifo (fc_fifo f))] \<and> kernel_posts f (hd (mFifo (fc_fifo f))) ds \<and> r"
  shows "sys_inv (Suc n) f' \<and> handled (entered f f') f f'"
proof -
  have si: "sel_inv (fc_selector f)" "sel_inv (fc_selector f')" using inv st by (simp_all add: sys_inv_def steady_def)
  have d: "distinct (map fst ds) \<and> (\<forall>x \<in> set ds. command_ok (snd x))"
  proof (cases "mFifo (fc_fifo f)")
    case (Cons m ms)
    then have "kernel_posts f m ds" "command_ok m" using ds inv by (simp_all add: sys_inv_def kmsg_ok_def)
    then show ?thesis using kernel_posts_distinct [OF si(1)] by blast
  qed (use ds in simp)
  have at: "containers (fc_selector f') a = (case map_of ds a of None \<Rightarrow> containers (fc_selector f) a | Some m \<Rightarrow> map_option (tc_add m) (containers (fc_selector f) a))" for a
    unfolding cs by (rule posts_at) (use d in blast)
  have cm: "command_ok m" if "map_of ds a = Some m" for a m using d map_of_SomeD [OF that] by fastforce
  have "c_inv (Suc n) c'" if c': "containers (fc_selector f') a = Some c'" for a c'
  proof (cases "map_of ds a")
    case None
    then have "c_inv n c'" using c' at inv by (simp add: sys_inv_def)
    then show ?thesis by (rule c_inv_mono) simp
  next
    case (Some m)
    then obtain c where "containers (fc_selector f) a = Some c" "c' = tc_add m c" using c' at by auto
    then show ?thesis using inv cm [OF Some] c_inv_add by (simp add: sys_inv_def)
  qed
  moreover have "set (mFifo (fc_fifo f')) \<subseteq> set (mFifo (fc_fifo f))" "length (mFifo (fc_fifo f')) \<le> length (mFifo (fc_fifo f))" using q by simp_all
  ultimately have "sys_inv (Suc n) f'" using inv si(2) c kmsg_ok_steady [OF st] by (auto simp: sys_inv_def)
  moreover have "handled (entered f f') f f'" unfolding handled_def
  proof (intro allI impI)
    fix a c assume ca: "containers (fc_selector f) a = Some c"
    show "\<exists>c' h. containers (fc_selector f') a = Some c' \<and> queue c @ entered f f' a = h @ queue c' \<and>
      (\<forall>j. grows j (concat (map (for_task j) h)) (concat (map (timers_for j) h)) c c')"
    proof (cases "map_of ds a")
      case None
      then show ?thesis using at [of a] ca by (intro exI [of _ c] exI [of _ "[]"]) (simp add: entered_def grows_refl)
    next
      case (Some m)
      have "task_at (tc_add m c) = task_at c" by (simp add: fun_eq_iff task_at_def tc_add_def)
      then show ?thesis using Some at [of a] ca by (intro exI [of _ "tc_add m c"] exI [of _ "[]"]) (simp add: entered_def grows_refl)
    qed
  qed
  ultimately show ?thesis by blast
qed

lemma sys_exec_ok:
  assumes inv: "sys_inv n f" and ok: "sys_step_ok (fc_selector f) p" and n: "Suc n < 2 ^ 32"
  obtains ins f' where "sys_exec env k p f = Some (ins, f')" "sys_inv (Suc n) f'" "handled ins f f'" "ttab (fc_selector f') = ttab (fc_selector f)" "members (fc_selector f') = members (fc_selector f)"
proof -
  have si: "sel_inv (fc_selector f)" "counted (fc_fifo f)" "length (mFifo (fc_fifo f)) < 2 ^ 64" "\<forall>m \<in> set (mFifo (fc_fifo f)). kmsg_ok (fc_selector f) m"
    using inv n by (simp_all add: sys_inv_def)
  have same: "handled (\<lambda>_. []) f f'" if "containers (fc_selector f') = containers (fc_selector f)" for f'
    using that by (auto simp: handled_def grows_refl)
  have mono: "c_inv (Suc n) c" if "containers (fc_selector f) a = Some c" for a c using inv that c_inv_mono [of n c "Suc n"] by (simp add: sys_inv_def)
  show thesis
  proof (cases p)
    case (KAdd m)
    have "sys_inv (Suc n) (fc_add m f)" using inv ok KAdd mono counted_push [OF si(2)]
      by (auto simp: sys_inv_def fc_add_def fifo_add_def push_def sys_step_ok_def)
    then show thesis using KAdd same [of "fc_add m f"] by (intro that [of "\<lambda>_. []" "fc_add m f"]) (simp_all add: fc_add_def)
  next
    case (KLoop i)
    then have wc: "wc_ok (fi_wc i)" using ok by (simp add: sys_step_ok_def)
    obtain r out h ds f' where m: "mainLoop i f = Some (r, out, f')" "mFifo (fc_fifo f) = h @ mFifo (fc_fifo f')" "counted (fc_fifo f')"
      "steady (fc_selector f) (fc_selector f')" "containers (fc_selector f') = posts ds (containers (fc_selector f))"
      "if mFifo (fc_fifo f) = [] then h = [] \<and> ds = [] else h = [hd (mFifo (fc_fifo f))] \<and> kernel_posts f (hd (mFifo (fc_fifo f))) ds \<and> r"
      by (rule mainLoop_ok [OF si(1-3) wc si(4)])
    have "sys_exec env k p f = Some (entered f f', f')" using KLoop m(1) by simp
    moreover have "ttab (fc_selector f') = ttab (fc_selector f)" "members (fc_selector f') = members (fc_selector f)" using m(4) by (simp_all add: steady_def)
    ultimately show thesis using kernel_step_ok [OF inv m(4,3,2,5,6)] by (intro that [of "entered f f'" f']) blast+
  next
    case (KResume i)
    then have wc: "wc_ok (fi_wc i)" using ok by (simp add: sys_step_ok_def)
    obtain r out h ds f' where m: "fc_receive i f = Some (r, out, f')" "mFifo (fc_fifo f) = h @ mFifo (fc_fifo f')" "counted (fc_fifo f')"
      "steady (fc_selector f) (fc_selector f')" "containers (fc_selector f') = posts ds (containers (fc_selector f))"
      "if mFifo (fc_fifo f) = [] then h = [] \<and> ds = [] else h = [hd (mFifo (fc_fifo f))] \<and> kernel_posts f (hd (mFifo (fc_fifo f))) ds \<and> r"
      by (rule fc_receive_ok [OF si(1-3) wc si(4)])
    have "sys_exec env k p f = Some (entered f f', f')" using KResume m(1) by simp
    moreover have "ttab (fc_selector f') = ttab (fc_selector f)" "members (fc_selector f') = members (fc_selector f)" using m(4) by (simp_all add: steady_def)
    ultimately show thesis using kernel_step_ok [OF inv m(4,3,2,5,6)] by (intro that [of "entered f f'" f']) blast+
  next
    case (InBox a q)
    show thesis
    proof (cases "containers (fc_selector f) a")
      case None
      have "sys_inv (Suc n) f" using inv mono by (auto simp: sys_inv_def)
      then show thesis using InBox None same [of f] by (intro that [of "\<lambda>_. []" f]) simp_all
    next
      case (Some c)
      have ci: "c_inv n c" using inv Some by (simp add: sys_inv_def)
      have sq: "step_ok q" using ok InBox by (simp add: sys_step_ok_def)
      obtain ins out c' h where c': "c_exec env k q c = Some (ins, out, c')" "c_inv (Suc n) c'" "queue c @ ins = h @ queue c'" "c_containerId c' = c_containerId c"
        "\<forall>j. grows j (concat (map (for_task j) h)) (concat (map (timers_for j) h)) c c'" using c_exec_ok [OF ci sq n] by blast
      have "(task_at c' j = None) = (task_at c j = None)" for j using c'(5) [rule_format, of j] by (auto simp: grows_def split: option.splits)
      then have jobs: "same_jobs c c'" using c'(4) by (simp add: same_jobs_def)
      let ?f = "f\<lparr>fc_selector := (fc_selector f)\<lparr>containers := (containers (fc_selector f))(a \<mapsto> c')\<rparr>\<rparr>"
      have s': "sel_inv (fc_selector ?f)" "members (fc_selector ?f) = members (fc_selector f)" using sel_inv_container [OF si(1) Some jobs] by simp_all
      have "kmsg_ok (fc_selector ?f) = kmsg_ok (fc_selector f)" by (auto simp: fun_eq_iff kmsg_ok_def split: TMsg.splits)
      then have "sys_inv (Suc n) ?f" using inv s'(1) c'(2) mono by (auto simp: sys_inv_def split: if_splits)
      moreover have "handled ((\<lambda>_. [])(a := ins)) f ?f" using c'(3,5) Some by (auto simp: handled_def grows_refl)
      ultimately show thesis using InBox Some c'(1) s'(2) by (intro that [of "(\<lambda>_. [])(a := ins)" ?f]) simp_all
    qed
  qed
qed

lemma sys_run_ok:
  assumes "sys_inv n f" "\<forall>p \<in> set ps. sys_step_ok (fc_selector f) p" "n + length ps < 2 ^ 32"
  shows "\<exists>ins f'. sys_run env k ps f = Some (ins, f') \<and> sys_inv (n + length ps) f' \<and> handled ins f f' \<and> members (fc_selector f') = members (fc_selector f)"
  using assms
proof (induction ps arbitrary: n f)
  case Nil
  then show ?case by (auto simp: handled_def grows_refl)
next
  case (Cons p ps)
  have p: "sys_step_ok (fc_selector f) p" "Suc n < 2 ^ 32" using Cons.prems(2,3) by simp_all
  obtain i1 f1 where 1: "sys_exec env k p f = Some (i1, f1)" "sys_inv (Suc n) f1" "handled i1 f f1" "ttab (fc_selector f1) = ttab (fc_selector f)"
    "members (fc_selector f1) = members (fc_selector f)" by (rule sys_exec_ok [OF Cons.prems(1) p, where env = env and k = k])
  have "sys_step_ok (fc_selector f1) = sys_step_ok (fc_selector f)" using 1(4) by (auto simp: fun_eq_iff sys_step_ok_def kmsg_ok_def split: sys_step.splits TMsg.splits)
  then have "\<forall>p \<in> set ps. sys_step_ok (fc_selector f1) p" using Cons.prems(2) by simp
  from Cons.IH [OF 1(2) this] obtain i2 f2 where 2: "sys_run env k ps f1 = Some (i2, f2)" "sys_inv (Suc n + length ps) f2" "handled i2 f1 f2"
    "members (fc_selector f2) = members (fc_selector f1)" using Cons.prems(3) by auto
  show ?case using 1(1,5) 2 handled_trans [OF 1(3) 2(3)] by auto
qed

section \<open>Dialogs\<close>

lemma find_session_hit:
  assumes "dlg_rel (mIntDialog s) f" "dlg_rel (mStrDialog s) g" "getSessionId c > 0" "f (getSessionId c) = Some tk" "key_tcid tk > 0" "key_tiid tk > 0"
  obtains i d f' g' where "find_session now c m s = Some (route_by tk m, s\<lparr>mIntDialog := i, mStrDialog := d\<rparr>)" "dlg_rel i f'" "dlg_rel d g'"
proof -
  obtain b where b: "eb_find (mIntDialog s) (getSessionId c) = Some (f (getSessionId c), b)" "dlg_rel b f" by (rule dlg_find [OF assms(1)])
  obtain r b' where b': "eb_update b (getSessionId c) (mCurrentTime s) now = Some (r, b')" "dlg_rel b' f" by (rule dlg_update [OF b(2)])
  obtain n i' f' where 2: "eb_pop_old b' (mCurrentTime s) (\<lambda>_. now) = Some (n, i')" "dlg_rel i' f'" by (rule dlg_pop_old [OF b'(2)])
  obtain k d' g' where 3: "eb_pop_old (mStrDialog s) (mCurrentTime s) (\<lambda>_. now) = Some (k, d')" "dlg_rel d' g'" by (rule dlg_pop_old [OF assms(2)])
  have "find_session now c m s = Some (route_by tk m, s\<lparr>mIntDialog := i', mStrDialog := d'\<rparr>)"
    using assms(3-6) b b' 2 3 by (simp add: find_session_def)
  then show thesis using 2 3 that by blast
qed

lemma hand_over_plain:
  assumes "sel_inv s" "s_tcs s item = Some t" "containers s (tc t) = Some c" "dialogType m \<noteq> DIALOG_BEGIN"
  shows "\<exists>s'. hand_over now tid cid item m s = Some (True, s') \<and> containers s' = (containers s)(tc t \<mapsto> tc_add (UniNet m) c)"
proof -
  obtain s1 where s1: "deliver (tc t) (UniNet m) s = Some s1" "s1 = s\<lparr>containers := (containers s)(tc t \<mapsto> tc_add (UniNet m) c)\<rparr>" by (rule deliver_ok [OF assms(1,3)])
  then show ?thesis using assms(2,4) by (simp add: hand_over_def)
qed

lemma session_send:
  assumes inv: "sel_inv s" and p: "ttab s (logAddr (tAddr u)) = Some p" and wc: "wc_ok wc" and d: "dest u = 0" "dialogType u \<noteq> DIALOG_BEGIN"
    and h: "hasCtrlMsgHdr u" "ctrlMsgHdr u = Some c" "hasSessionId c" "getSessionId c > 0"
    and f: "dlg_rel (mIntDialog s) f" "f (getSessionId c) = Some tk" "key_tcid tk > 0" "key_tiid tk > 0"
  shows "\<exists>v b s'. sendMsgToTask now wc u s = Some (True, s') \<and> next_instance s (logAddr (tAddr u)) = Some v \<and> containers s (inst_box s v) = Some b \<and>
    c_containerId b = cid_of s v \<and> containers s' = (containers s)(inst_box s v \<mapsto> tc_add (UniNet (route_by tk u)) b)"
proof -
  let ?tid = "logAddr (tAddr u)"
  obtain g where g: "dlg_rel (mStrDialog s) g" using inv unfolding sel_inv_def by blast
  define u1 where "u1 = (if phyAddr (tAddr u) > 0 then u\<lparr>tAddr := (tAddr u)\<lparr>phyAddr := dest u\<rparr>\<rparr> else u)"
  have sh: "session_hdr u1 = Some (Some c)" "dialogType u1 = dialogType u" "route_by tk u1 = route_by tk u"
    using h by (simp_all add: u1_def session_hdr_def hasCtrlMsgHdr_def route_by_def)
  obtain i e f' g' where fs: "find_session now c u1 s = Some (route_by tk u1, s\<lparr>mIntDialog := i, mStrDialog := e\<rparr>)" "dlg_rel i f'" "dlg_rel e g'"
    by (rule find_session_hit [OF f(1) g h(4) f(2-4)])
  let ?s = "s\<lparr>mIntDialog := i, mStrDialog := e\<rparr>"
  note si = sel_inv_dialogs [OF inv fs(2,3)]
  have p1: "ttab ?s ?tid = Some p" using p by simp
  have con: "uh_contains (mTaskList s) ?tid" using ptab_contains p inv unfolding sel_inv_def by blast
  have S: "sendMsgToTask now wc u s = do { (item, s) \<leftarrow> getTask wc ?tid 0 ?s;
     if item \<noteq> NULL then hand_over now ?tid (dest u) item (route_by tk u) s else Some (False, s) }"
    using con sh d fs(1) unfolding sendMsgToTask_def Let_def parse_zero u1_def [symmetric] by simp
  obtain v j s2 where s2: "next_instance ?s ?tid = Some v" "v \<in> set (members ?s ?tid)" "s_inst ?s v = Some j" "getTask wc ?tid 0 ?s = Some (is_tcs j, s2)" "sel_inv s2"
    "same_shape ?s s2" "members s2 = members ?s" by (rule getTask_chosen [OF si(1) p1 wc])
  obtain t b where t: "ctab ?s (is_tcid j) = Some (is_tcs j)" "is_tcs j \<noteq> NULL" "s_tcs ?s (is_tcs j) = Some t" "containers ?s (tc t) = Some b" "task_at b ?tid \<noteq> None" "box_of ?s v = Some (tc t)"
    "c_containerId b = is_tcid j" by (rule member_box [OF si(1) p1 s2(2,3)])
  obtain t2 where t2: "s_tcs s2 (is_tcs j) = Some t2" "tc t2 = tc t" using same_shape_tcs [OF s2(6) t(3)] by blast
  have c2: "containers s2 = containers s" using s2(6) by (simp add: same_shape_def)
  then have "containers s2 (tc t2) = Some b" using t(4) t2(2) by simp
  moreover have "dialogType (route_by tk u) \<noteq> DIALOG_BEGIN" using d(2) by (simp add: route_by_def)
  ultimately obtain s' where s': "hand_over now ?tid (dest u) (is_tcs j) (route_by tk u) s2 = Some (True, s')" "containers s' = (containers s2)(tc t2 \<mapsto> tc_add (UniNet (route_by tk u)) b)"
    using hand_over_plain [OF s2(5) t2(1)] by blast
  have "inst_box s v = tc t" "cid_of s v = is_tcid j" using s2(3) t(3) by (simp_all add: inst_box_def tcs_box_def tcs_of_def cid_of_def)
  moreover have "next_instance s ?tid = Some v" using s2(1) by (simp add: next_instance_def si(2-4))
  ultimately show ?thesis using S s2(4) t s' t2(2) c2 by (intro exI [of _ v] exI [of _ b] exI [of _ s']) simp
qed

section \<open>A small system\<close>

text \<open>Two containers, each with an instance of task 1001.\<close>

definition sample_procs :: "TProcRsc list" where
  "sample_procs = [\<lparr>instType = 5, threadNum = 2, taskList = [1001]\<rparr>]"

definition sample_objs :: "UINT \<rightharpoonup> TAbstractTask" where
  "sample_objs = [1001 \<mapsto> TAbstractTask_new\<lparr>t_instId := 5\<rparr>]"

lemma sample_layout: "layout sample_objs sample_procs 1 = [(1, 1001), (2, 1001)]"
  by (simp add: sample_procs_def sample_objs_def proc_layout_def known_def upt_conv_Cons)

lemma sample_ok: "\<forall>p \<in> set sample_procs. proc_ok p" "sample_objs 0 = None" "sum_list (map threadNum sample_procs) < 4095"
  by (simp_all add: sample_procs_def sample_objs_def proc_ok_def)

lemma reg_inv_sys:
  assumes "reg_inv R n (fc_selector f)" "fc_fifo f = Fifo_new"
  shows "sys_inv 0 f"
proof -
  have "unused c \<Longrightarrow> c_inv 0 c" for c
    using tq_new_inv [of Fifo_new] by (auto simp: unused_def c_inv_def tc_fifo_def task_at_def TaskTimerQueue_new_def Fifo_new_def AbstractFifo_new_def counted_def)
  then show ?thesis using assms by (auto simp: sys_inv_def reg_inv_def Fifo_new_def AbstractFifo_new_def counted_def)
qed

lemma reg_inv_ttab: "reg_inv R n s \<Longrightarrow> dom (ttab s) = snd ` set R"
proof -
  assume reg: "reg_inv R n s"
  have inv: "sel_inv s" and m: "map (cid_of s) (members s tid) = map fst (filter (\<lambda>x. snd x = tid) R)" for tid using reg by (simp_all add: reg_inv_def)
  have "(members s tid = []) = (filter (\<lambda>x. snd x = tid) R = [])" for tid using arg_cong [OF m [of tid], of "\<lambda>xs. xs = []"] by simp
  then have "(members s tid \<noteq> []) = (tid \<in> snd ` set R)" for tid unfolding filter_empty_conv by fastforce
  moreover have "(ttab s tid \<noteq> None) = (members s tid \<noteq> [])" for tid using members_few(2) [OF inv] members_none by blast
  ultimately show ?thesis by (auto simp: dom_def)
qed

lemma sample_system:
  obtains f0 f where "TFRAMEControl_new g = Some f0" "fm_Init (\<lambda>_. sample_env) sample_objs 7 0 sample_procs f0 = Some (Inr f)"
    "reg_inv [(1, 1001), (2, 1001)] 3 (fc_selector f)" "fc_fifo f = Fifo_new" "fc_shutdown f"
proof -
  have n: "1 + sum_list (map threadNum sample_procs) = 3" by (simp add: sample_procs_def)
  obtain f f' where "TFRAMEControl_new g = Some f" "fm_Init (\<lambda>_. sample_env) sample_objs 7 0 sample_procs f = Some (Inr f')"
    "reg_inv (layout sample_objs sample_procs 1) (1 + sum_list (map threadNum sample_procs)) (fc_selector f')" "fc_fifo f' = Fifo_new" "fc_shutdown f'"
    by (rule fm_Init_ok [where objs = sample_objs, OF sample_ok])
  then show thesis unfolding sample_layout n by (rule that)
qed

lemma sample_members:
  assumes "reg_inv [(1, 1001), (2, 1001)] n s"
  obtains v1 v2 p ts where "members s 1001 = [v1, v2]" "cid_of s v1 = 1" "cid_of s v2 = 2" "avail s v1" "avail s v2" "pos_of s 1001 = 0" "ttab s 1001 = Some p"
    "task_obj s 1001 = Some ts" "tk_count ts = 0" "tk_balanceCount ts = 200" "sel_inv s"
proof -
  have inv: "sel_inv s" and m: "map (cid_of s) (members s 1001) = [1, 2]" using assms by (simp_all add: reg_inv_def)
  then obtain v1 v2 where v: "members s 1001 = [v1, v2]" "cid_of s v1 = 1" "cid_of s v2 = 2" by (auto simp: map_eq_Cons_conv)
  then obtain p where p: "ttab s 1001 = Some p" using members_none [of s 1001] by (cases "ttab s 1001") auto
  obtain ts c where t: "s_task s p = Some ts" "\<forall>v \<in> set (members s 1001). inst_ok s 1001 v" by (rule task_okD [OF inv p])
  have to: "task_obj s 1001 = Some ts" using p t(1) by (simp add: task_obj_def)
  moreover have "task_new_ok s 1001" using assms by (simp add: reg_inv_def)
  ultimately have tn: "tk_instpos ts = 0" "tk_count ts = 0" "tk_balanceCount ts = 200" by (simp_all add: task_new_ok_def v balance_for_def)
  have "avail s w" if w: "w \<in> set (members s 1001)" for w
  proof -
    obtain i where "s_inst s w = Some i" using t(2) w unfolding inst_ok_def by blast
    then show ?thesis using assms inv by (auto simp: avail_def reg_inv_def sel_inv_def)
  qed
  then show thesis using v p to tn inv t(1) by (intro that [of v1 v2 p ts]) (simp_all add: pos_of_def)
qed

lemma wc_zero: "wc_ok (\<lambda>_. 0)"
  by (simp add: wc_ok_def)

section \<open>Properties\<close>

text \<open>The inputs of a run, given the registered tasks.\<close>

definition input_ok :: "UINT set \<Rightarrow> sys_step \<Rightarrow> bool" where
  "input_ok T p = (case p of
       KAdd m \<Rightarrow> command_ok m \<and> (case m of
           UniNet u \<Rightarrow> hdr_ok u \<and> uninet_clone u \<noteq> None \<and> (msgType u = ucast DIALOG_MULTICAST \<longrightarrow> logAddr (tAddr u) \<in> T)
         | _ \<Rightarrow> True)
     | KLoop i \<Rightarrow> wc_ok (fi_wc i) | KResume i \<Rightarrow> wc_ok (fi_wc i) | InBox a q \<Rightarrow> step_ok q)"

lemma input_ok_step: "input_ok (dom (ttab s)) p = sys_step_ok s p"
  by (auto simp: input_ok_def sys_step_ok_def kmsg_ok_def split: sys_step.splits TMsg.splits)

text \<open>Property C1. The whole system works in order. Start the framework with any configuration of at most 4094
  threads whose processes name a task at most once, and let the kernel thread and the container threads run in any
  interleaving, on any sequence of messages for the kernel in which a multicast is for a registered task (the
  message of any other is deleted twice) and the text of a reload event can be split into five words (any other
  overruns an array already in the frame manager), with loads below \<open>2 ^ 20\<close>. No step is
  undefined, the tables stay consistent, and for every container the messages that entered its queue are those
  it has handled followed by those that wait; each of its tasks has received exactly the handled messages for it,
  and its own timeouts, in that order.\<close>

theorem system_in_order:
  assumes "\<forall>p \<in> set procs. proc_ok p" "objs 0 = None" "sum_list (map threadNum procs) < 4095"
    "\<forall>p \<in> set ps. input_ok (snd ` set (layout objs procs 1)) p" "length ps < 2 ^ 32"
  shows "\<exists>f0 f ins f'. TFRAMEControl_new g = Some f0 \<and> fm_Init env objs app rt procs f0 = Some (Inr f) \<and> sys_run tenv k ps f = Some (ins, f') \<and>
    sel_inv (fc_selector f') \<and>
    (\<forall>a c. containers (fc_selector f) a = Some c \<longrightarrow> (\<exists>c' h. containers (fc_selector f') a = Some c' \<and> ins a = h @ mFifo (tc_fifo c') \<and>
       (\<forall>tid t. task_at c tid = Some t \<longrightarrow> (\<exists>t'. task_at c' tid = Some t' \<and>
          t_received t' = t_received t @ concat (map (for_task tid) h) \<and> t_expired t' = t_expired t @ concat (map (timers_for tid) h)))))"
proof -
  obtain f0 f where f: "TFRAMEControl_new g = Some f0" "fm_Init env objs app rt procs f0 = Some (Inr f)"
    "reg_inv (layout objs procs 1) (1 + sum_list (map threadNum procs)) (fc_selector f)" "fc_fifo f = Fifo_new"
    by (rule fm_Init_ok [where objs = objs, OF assms(1-3)])
  have "\<forall>p \<in> set ps. sys_step_ok (fc_selector f) p" using assms(4) unfolding reg_inv_ttab [OF f(3), symmetric] input_ok_step .
  from sys_run_ok [OF reg_inv_sys [OF f(3,4)] this, of tenv k] assms(5) obtain ins f' where
    r: "sys_run tenv k ps f = Some (ins, f')" "sys_inv (0 + length ps) f'" "handled ins f f'" by auto
  have q: "queue c = []" if "containers (fc_selector f) a = Some c" for a c
  proof -
    have "unused c" using f(3) that unfolding reg_inv_def by blast
    then show ?thesis by (simp add: unused_def tc_fifo_def TaskTimerQueue_new_def Fifo_new_def AbstractFifo_new_def)
  qed
  have "\<exists>c' h. containers (fc_selector f') a = Some c' \<and> ins a = h @ mFifo (tc_fifo c') \<and>
       (\<forall>tid t. task_at c tid = Some t \<longrightarrow> (\<exists>t'. task_at c' tid = Some t' \<and>
          t_received t' = t_received t @ concat (map (for_task tid) h) \<and> t_expired t' = t_expired t @ concat (map (timers_for tid) h)))"
    if c: "containers (fc_selector f) a = Some c" for a c
  proof -
    obtain c' h where "containers (fc_selector f') a = Some c'" "queue c @ ins a = h @ queue c'"
      "\<forall>j. grows j (concat (map (for_task j) h)) (concat (map (timers_for j) h)) c c'" using r(3) c unfolding handled_def by blast
    then show ?thesis using q [OF c] unfolding grows_def by (intro exI [of _ c'] exI [of _ h]) (auto split: option.splits)
  qed
  moreover have "sel_inv (fc_selector f')" using r(2) by (simp add: sys_inv_def)
  ultimately show ?thesis using f(1,2) r(1) by blast
qed

definition sample_fin :: fc_in where
  "sample_fin = \<lparr>fi_time = 9, fi_end = 5, fi_wait = 5, fi_now = 9, fi_wc = (\<lambda>_. 0)\<rparr>"

theorem system_in_order_witness:
  "\<exists>f0 f ins f'. TFRAMEControl_new 0 = Some f0 \<and> fm_Init (\<lambda>_. sample_env) sample_objs 7 0 sample_procs f0 = Some (Inr f) \<and>
    sys_run sample_env sample_class [KAdd (UniNet (mail_to 1001)), KLoop sample_fin, InBox 1 (CProcess sample_in)] f = Some (ins, f') \<and> sel_inv (fc_selector f') \<and>
    (\<forall>a c. containers (fc_selector f) a = Some c \<longrightarrow> (\<exists>c' h. containers (fc_selector f') a = Some c' \<and> ins a = h @ mFifo (tc_fifo c') \<and>
       (\<forall>tid t. task_at c tid = Some t \<longrightarrow> (\<exists>t'. task_at c' tid = Some t' \<and>
          t_received t' = t_received t @ concat (map (for_task tid) h) \<and> t_expired t' = t_expired t @ concat (map (timers_for tid) h)))))"
proof (rule system_in_order [where objs = sample_objs, OF sample_ok])
  have "hdr_ok (mail_to 1001)" "uninet_clone (mail_to 1001) \<noteq> None" "msgType (mail_to 1001) = 1"
    by (simp_all add: hdr_ok_def hasCtrlMsgHdr_def mail_to_def TUniNetMsg_new_def uninet_clone_def uninet_assign_def Let_def)
  then show "\<forall>p \<in> set [KAdd (UniNet (mail_to 1001)), KLoop sample_fin, InBox 1 (CProcess sample_in)]. input_ok (snd ` set (layout sample_objs sample_procs 1)) p"
    using wc_zero by (simp add: input_ok_def command_ok_def step_ok_def sample_fin_def)
qed simp

text \<open>Property C10. Start-up registers the configuration. \<open>TFRAMEManager::Init\<close> on a configuration of at most
  4094 threads, whose processes have a container kind and name a task at most once, succeeds: the containers get
  consecutive identifiers, each runs exactly the configured tasks of its process that have an object, every task is
  listed with the containers that run it, in their order, and all tables and state objects are consistent.\<close>

theorem init_registers:
  assumes "\<forall>p \<in> set procs. proc_ok p" "objs 0 = None" "sum_list (map threadNum procs) < 4095"
  shows "\<exists>f0 f. TFRAMEControl_new g = Some f0 \<and> fm_Init env objs app rt procs f0 = Some (Inr f) \<and> sel_inv (fc_selector f) \<and>
    (\<forall>cid. (ctab (fc_selector f) cid \<noteq> None) = (0 < unat cid \<and> unat cid \<le> sum_list (map threadNum procs))) \<and>
    (\<forall>cid q. ctab (fc_selector f) cid = Some q \<longrightarrow> jobs_ok (layout objs procs 1) (fc_selector f) cid q) \<and>
    (\<forall>tid. map (cid_of (fc_selector f)) (members (fc_selector f) tid) = map fst (filter (\<lambda>x. snd x = tid) (layout objs procs 1)))"
proof -
  obtain f0 f where f: "TFRAMEControl_new g = Some f0" "fm_Init env objs app rt procs f0 = Some (Inr f)"
    "reg_inv (layout objs procs 1) (1 + sum_list (map threadNum procs)) (fc_selector f)" by (rule fm_Init_ok [where objs = objs, OF assms])
  have "(ctab (fc_selector f) cid \<noteq> None) = (0 < unat cid \<and> unat cid \<le> sum_list (map threadNum procs))" for cid
    using f(3) unfolding reg_inv_def by (simp add: less_Suc_eq_le)
  moreover have "sel_inv (fc_selector f)" "\<forall>cid q. ctab (fc_selector f) cid = Some q \<longrightarrow> jobs_ok (layout objs procs 1) (fc_selector f) cid q"
    "\<forall>tid. map (cid_of (fc_selector f)) (members (fc_selector f) tid) = map fst (filter (\<lambda>x. snd x = tid) (layout objs procs 1))"
    using f(3) unfolding reg_inv_def by blast+
  ultimately show ?thesis using f(1,2) by blast
qed

theorem init_registers_witness:
  "\<exists>f0 f. TFRAMEControl_new 0 = Some f0 \<and> fm_Init (\<lambda>_. sample_env) sample_objs 7 0 sample_procs f0 = Some (Inr f) \<and> sel_inv (fc_selector f) \<and>
    map (cid_of (fc_selector f)) (members (fc_selector f) 1001) = [1, 2]"
proof -
  obtain f0 f where "TFRAMEControl_new 0 = Some f0" "fm_Init (\<lambda>_. sample_env) sample_objs 7 0 sample_procs f0 = Some (Inr f)" "sel_inv (fc_selector f)"
    "\<forall>tid. map (cid_of (fc_selector f)) (members (fc_selector f) tid) = map fst (filter (\<lambda>x. snd x = tid) [(1, 1001), (2, 1001)])"
    using init_registers [where objs = sample_objs, OF sample_ok, of 0 "\<lambda>_. sample_env" 7 0] unfolding sample_layout by blast
  then show ?thesis by auto
qed

text \<open>Property C2. The kernel loop puts every message where it belongs. One pass of \<open>mainLoop\<close> over a waiting
  message takes exactly that message and adds to the queues of the containers what the specification
  \<open>kernel_posts\<close> says: nothing for a message while the kernel is shut down; one message, its
  address completed, for the first available instance in turn or for the container the address names; a copy for
  every instance of the task of a multicast; a copy for every container for a broadcast; an event for the container, for
  every instance of the task or for all containers. Nothing else in the containers changes and the state
  stays consistent.\<close>

theorem kernel_loop_refines:
  assumes "sys_inv n f" "n < 2 ^ 32" "wc_ok (fi_wc i)" "mFifo (fc_fifo f) = m # ms"
  shows "\<exists>out ds f'. mainLoop i f = Some (True, out, f') \<and> kernel_posts f m ds \<and> containers (fc_selector f') = posts ds (containers (fc_selector f)) \<and>
    mFifo (fc_fifo f') = ms \<and> sys_inv (Suc n) f'"
proof -
  have si: "sel_inv (fc_selector f)" "counted (fc_fifo f)" "length (mFifo (fc_fifo f)) < 2 ^ 64" "\<forall>m \<in> set (mFifo (fc_fifo f)). kmsg_ok (fc_selector f) m"
    using assms(1,2) by (simp_all add: sys_inv_def)
  obtain r out h ds f' where l: "mainLoop i f = Some (r, out, f')" "mFifo (fc_fifo f) = h @ mFifo (fc_fifo f')" "counted (fc_fifo f')"
    "steady (fc_selector f) (fc_selector f')" "containers (fc_selector f') = posts ds (containers (fc_selector f))"
    "if mFifo (fc_fifo f) = [] then h = [] \<and> ds = [] else h = [hd (mFifo (fc_fifo f))] \<and> kernel_posts f (hd (mFifo (fc_fifo f))) ds \<and> r"
    by (rule mainLoop_ok [OF si(1-3) assms(3) si(4)])
  have "sys_inv (Suc n) f'" using kernel_step_ok [OF assms(1) l(4,3,2,5,6)] by blast
  moreover have "h = [m]" "kernel_posts f m ds" "r" using l(6) assms(4) by simp_all
  ultimately show ?thesis using l(1,2,5) assms(4) by (intro exI [of _ out] exI [of _ ds] exI [of _ f']) simp
qed

lemma sample_msg: "kmsg_ok s (UniNet (mail_to 1001))"
  by (simp add: kmsg_ok_def command_ok_def hdr_ok_def hasCtrlMsgHdr_def mail_to_def TUniNetMsg_new_def uninet_clone_def uninet_assign_def Let_def)

lemma sample_running:
  obtains f where "sys_inv 1 f" "\<not> fc_shutdown f" "mFifo (fc_fifo f) = [UniNet (mail_to 1001)]" "reg_inv [(1, 1001), (2, 1001)] 3 (fc_selector f)"
proof -
  obtain f0 f where f: "TFRAMEControl_new 0 = Some f0" "fm_Init (\<lambda>_. sample_env) sample_objs 7 0 sample_procs f0 = Some (Inr f)" "reg_inv [(1, 1001), (2, 1001)] 3 (fc_selector f)" "fc_fifo f = Fifo_new"
    by (rule sample_system)
  let ?f = "(fc_add (UniNet (mail_to 1001)) f)\<lparr>fc_shutdown := False\<rparr>"
  have "sys_inv 0 f" by (rule reg_inv_sys [OF f(3,4)])
  moreover have "c_inv 0 c \<Longrightarrow> c_inv 1 c" for c using c_inv_mono [of 0 c 1] by simp
  ultimately have "sys_inv 1 ?f" using sample_msg counted_push [of "fc_fifo f" "UniNet (mail_to 1001)"]
    by (auto simp: sys_inv_def fc_add_def fifo_add_def push_def)
  then show thesis using f(3,4) by (intro that [of ?f]) (simp_all add: fc_add_def fifo_add_def push_def Fifo_new_def AbstractFifo_new_def)
qed

theorem kernel_loop_refines_witness:
  "\<exists>f out a m f'. sys_inv 1 f \<and> mFifo (fc_fifo f) = [UniNet (mail_to 1001)] \<and> mainLoop sample_fin f = Some (True, out, f') \<and> readdressed (mail_to 1001) m \<and>
    containers (fc_selector f') = posts [(a, UniNet m)] (containers (fc_selector f)) \<and> mFifo (fc_fifo f') = []"
proof -
  obtain f where f: "sys_inv 1 f" "\<not> fc_shutdown f" "mFifo (fc_fifo f) = [UniNet (mail_to 1001)]" "reg_inv [(1, 1001), (2, 1001)] 3 (fc_selector f)" by (rule sample_running)
  obtain v1 v2 p where t: "ttab (fc_selector f) 1001 = Some p" using sample_members [OF f(4)] by metis
  have wc: "wc_ok (fi_wc sample_fin)" using wc_zero by (simp add: sample_fin_def)
  obtain out ds f' where l: "mainLoop sample_fin f = Some (True, out, f')" "kernel_posts f (UniNet (mail_to 1001)) ds"
    "containers (fc_selector f') = posts ds (containers (fc_selector f))" "mFifo (fc_fifo f') = []" using kernel_loop_refines [OF f(1) _ wc f(3)] by auto
  have "msgType (mail_to 1001) = 1" "dest (mail_to 1001) = 0" "logAddr (tAddr (mail_to 1001)) = 1001" by (simp_all add: mail_to_def TUniNetMsg_new_def parsePhyAddr_def)
  then obtain a m where "readdressed (mail_to 1001) m" "ds = [(a, UniNet m)]" using l(2) f(2) t by (auto simp: kernel_posts_def msg_posts_def)
  then show ?thesis using f l by blast
qed

text \<open>Property C9. The search for an instance is equivalent to its reference. For a registered task \<open>getTask\<close>
  returns the container of the first instance behind the remembered position, around the list, that is neither
  overloaded nor shutting down, remembers its position and never fails: a balance check leaves at least one instance
  available. No instance list, table or state object becomes inconsistent.\<close>

theorem getTask_first_available:
  assumes "sel_inv s" "ttab s tid = Some p" "wc_ok wc"
  shows "\<exists>v i s'. find (avail s) (rotate (Suc (pos_of s tid)) (members s tid)) = Some v \<and> s_inst s v = Some i \<and>
    getTask wc tid 0 s = Some (is_tcs i, s') \<and> is_tcs i \<noteq> NULL \<and> members s tid ! pos_of s' tid = v \<and> members s' = members s \<and> sel_inv s'"
proof -
  obtain v i s' where v: "next_instance s tid = Some v" "v \<in> set (members s tid)" "s_inst s v = Some i" "getTask wc tid 0 s = Some (is_tcs i, s')" "sel_inv s'"
    "same_shape s s'" "members s' = members s" "members s tid ! pos_of s' tid = v" by (rule getTask_chosen [OF assms])
  have "is_tcs i \<noteq> NULL" by (rule member_box [OF assms(1,2) v(2,3)])
  then show ?thesis using v unfolding next_instance_def by blast
qed

lemma sample_selector: obtains s where "reg_inv [(1, 1001), (2, 1001)] 3 s"
  using sample_system [of 0] by metis

theorem getTask_first_available_witness:
  "\<exists>s v i s'. find (avail s) (rotate (Suc (pos_of s 1001)) (members s 1001)) = Some v \<and> s_inst s v = Some i \<and> cid_of s v = 2 \<and>
    getTask (\<lambda>_. 0) 1001 0 s = Some (is_tcs i, s') \<and> sel_inv s'"
proof -
  obtain s where s: "reg_inv [(1, 1001), (2, 1001)] 3 s" by (rule sample_selector)
  obtain v1 v2 p ts where m: "members s 1001 = [v1, v2]" "cid_of s v1 = 1" "cid_of s v2 = 2" "avail s v1" "avail s v2" "pos_of s 1001 = 0" "ttab s 1001 = Some p"
    "task_obj s 1001 = Some ts" "tk_count ts = 0" "tk_balanceCount ts = 200" "sel_inv s" by (rule sample_members [OF s])
  have "find (avail s) (rotate (Suc (pos_of s 1001)) (members s 1001)) = Some v2" using m by simp
  then show ?thesis using getTask_first_available [OF m(11,7) wc_zero] m(3) by (intro exI [of _ s] exI [of _ v2]) auto
qed

text \<open>Property C25. The instances of a task are served in turn. While all instances are available and no
  balance check is due, as many calls of \<open>getTask\<close> as the task has instances return each instance's container
  exactly once, in list order from the remembered position.\<close>

theorem getTask_round_robin:
  assumes "sel_inv s" "ttab s tid = Some p" "\<forall>wc \<in> set wcs. wc_ok wc" "1 < length (members s tid)" "\<forall>v \<in> set (members s tid). avail s v"
    "task_obj s tid = Some ts" "unat (tk_count ts) + length wcs \<le> unat (tk_balanceCount ts)" "length wcs = length (members s tid)"
  shows "\<exists>s'. serve wcs tid s = Some (map (tcs_of s) (rotate (Suc (pos_of s tid)) (members s tid)), s') \<and> sel_inv s'"
proof -
  have "map (\<lambda>j. tcs_of s (turn s tid j)) [0..<length (members s tid)] = map (tcs_of s) (rotate (Suc (pos_of s tid)) (members s tid))"
    unfolding turns_rotate [symmetric] by simp
  then show ?thesis using serve_turns [OF assms(1-7)] unfolding assms(8) by auto
qed

theorem getTask_round_robin_witness:
  "\<exists>s v1 v2 s'. members s 1001 = [v1, v2] \<and> cid_of s v1 = 1 \<and> cid_of s v2 = 2 \<and> serve [\<lambda>_. 0, \<lambda>_. 7] 1001 s = Some ([tcs_of s v2, tcs_of s v1], s')"
proof -
  obtain s where s: "reg_inv [(1, 1001), (2, 1001)] 3 s" by (rule sample_selector)
  obtain v1 v2 p ts where m: "members s 1001 = [v1, v2]" "cid_of s v1 = 1" "cid_of s v2 = 2" "avail s v1" "avail s v2" "pos_of s 1001 = 0" "ttab s 1001 = Some p"
    "task_obj s 1001 = Some ts" "tk_count ts = 0" "tk_balanceCount ts = 200" "sel_inv s" by (rule sample_members [OF s])
  have "\<exists>s'. serve [\<lambda>_. 0, \<lambda>_. 7] 1001 s = Some (map (tcs_of s) (rotate (Suc (pos_of s 1001)) (members s 1001)), s') \<and> sel_inv s'"
    by (rule getTask_round_robin [OF m(11,7) _ _ _ m(8)]) (use m in \<open>simp_all add: wc_ok_def\<close>)
  then show ?thesis using m by auto
qed


definition dialog_mail :: TUniNetMsg where
  "dialog_mail = (mail_to 1001)\<lparr>dialogType := 2, optionSet := 1, ctrlMsgHdr := Some (ctrl_new\<lparr>c_optionSet := 2, session_int := 7\<rparr>)\<rparr>"


text \<open>Property C27. A multicast to a task that is not registered deletes its message twice. \<open>multicastMsgToTask\<close>
  deletes the message and reports failure, whereupon \<open>mainLoop\<close> deletes it again.\<close>

theorem multicast_double_free:
  assumes "\<not> fc_shutdown f" "counted (fc_fifo f)" "mFifo (fc_fifo f) = [UniNet u]" "msgType u = 5" "uh_get (mTaskList (fc_selector f)) (logAddr (tAddr u)) = None"
  shows "mainLoop i f = None"
proof -
  have "mSize (fc_fifo f) = 1" using assms(2,3) by (simp add: counted_def)
  then have "getNext_ms_try (fi_end i) (fi_wait i) (fc_fifo f) = (Got (UniNet u), (fc_fifo f)\<lparr>mFifo := [], mSize := 0\<rparr>)"
    using assms(3) by (simp add: getNext_ms_try_def take_front_def)
  then show ?thesis using assms(1,4,5)
    by (simp add: mainLoop_def fc_receive_def fc_uninet_def sel_add_def multicastMsgToTask_def setCurrentTime_def)
qed

theorem multicast_double_free_witness:
  "\<exists>f. TFRAMEControl_new 0 = Some f \<and> mainLoop sample_fin (fc_add (UniNet ((mail_to 1001)\<lparr>msgType := 5\<rparr>)) (f\<lparr>fc_shutdown := False\<rparr>)) = None"
proof -
  obtain s where s: "TTaskSelector_new 0 = Some s" "reg_inv [] 1 s" by (rule selector_new_ok)
  define f where "f = \<lparr>fc_fifo = Fifo_new, fc_selector = s, fc_shutdown = True, loopCount = 0, uninetmsgCountS = 0, uninetmsgCountF = 0\<rparr>"
  have "TFRAMEControl_new 0 = Some f" using s(1) by (simp add: TFRAMEControl_new_def f_def)
  moreover have "uh_get (mTaskList s) 1001 = None" using reg_inv_ttab [OF s(2)] by auto
  then have "mainLoop sample_fin (fc_add (UniNet ((mail_to 1001)\<lparr>msgType := 5\<rparr>)) (f\<lparr>fc_shutdown := False\<rparr>)) = None"
    by (intro multicast_double_free [where u = "(mail_to 1001)\<lparr>msgType := 5\<rparr>"])
      (simp_all add: f_def fc_add_def fifo_add_def push_def Fifo_new_def AbstractFifo_new_def counted_def mail_to_def)
  ultimately show ?thesis by blast
qed

end
