(* ===== verification/UdpTransport.thy ===== *)
theory UdpTransport
  imports CListSpec TransactionSpec
begin

text \<open>
  The transport over UDP: \<open>TBind\<close> and \<open>TUDPTrasnport\<close> (\<open>transport/transportudp.*\<close>), derived from
  \<open>TTransport\<close>. Messages wait in a \<open>CList\<close> per bound address and leave as datagrams; datagrams become
  messages for the parent task.

  The socket is an argument: the datagrams that wait at it, each with the text of its sender, and whether the
  system takes a datagram to send. \<open>recvfrom\<close> stores at most \<open>MaxRecvBufSize\<close> bytes; the socket buffer keeps
  what earlier datagrams left behind. Reading or writing beyond the buffer is \<open>None\<close>. A message that a
  list holds is its value; \<open>NULL\<close> in the map of bound addresses is \<open>None\<close>.
\<close>

abbreviation (input) "SocketBufferSize \<equiv> 8193 :: nat"
abbreviation (input) "MaxRecvBufSize \<equiv> 8096 :: nat"
abbreviation (input) "DIALOG_MESSAGE \<equiv> 0 :: BYTE"
abbreviation (input) "COM_MESSAGE_TYPE \<equiv> 10 :: UINT"

record TBind =
  mBindID :: "32 word"
  mHost :: "CHAR8 list"
  mPort :: "32 word"
  mSendBuffer :: "TUniNetMsg dll"

definition TBind_new :: "32 word \<Rightarrow> CHAR8 list \<Rightarrow> 32 word \<Rightarrow> TBind option" where
  "TBind_new bindid hst prt = do {
     l \<leftarrow> CList_new;
     Some \<lparr>mBindID = bindid, mHost = hst, mPort = prt, mSendBuffer = l\<rparr> }"

record TUDPTrasnport =
  tport :: TTransport
  mBinds :: "(UINT, TBind option) stdmap"
  mSockBuffer :: "CHAR8 list"
  mRecvCount :: UINT
  mSendCount :: UINT
  mSendFaile :: UINT

text \<open>The counters and the fresh buffer are not set by the constructor.\<close>

definition TUDPTrasnport_new :: "UINT \<Rightarrow> CHAR8 list \<Rightarrow> TMsgAddress \<Rightarrow> TUDPTrasnport" where
  "TUDPTrasnport_new g junk addr = \<lparr>tport = TTransport_new addr, mBinds = [], mSockBuffer = junk, mRecvCount = g, mSendCount = g,
     mSendFaile = g\<rparr>"

text \<open>\<open>open_ok\<close> is the result of \<open>openServer\<close>, converted to \<open>BOOL\<close>.\<close>

definition addTransport :: "bool \<Rightarrow> 32 word \<Rightarrow> CHAR8 list \<Rightarrow> 32 word \<Rightarrow> TUDPTrasnport \<Rightarrow> (bool \<times> TUDPTrasnport) option" where
  "addTransport open_ok bindid hst prt t = do {
     b \<leftarrow> TBind_new bindid hst prt;
     Some (if \<not> open_ok then (False, t) else (True, t\<lparr>mBinds := map_insert bindid (Some b) (mBinds t)\<rparr>)) }"

text \<open>\<open>onBuildFDSet\<close> follows every pointer of the map: the addresses it asks about.\<close>

fun onBuildFDSet :: "(UINT, TBind option) stdmap \<Rightarrow> UINT list option" where
  "onBuildFDSet [] = Some []"
| "onBuildFDSet ((k, p) # m) = do { b \<leftarrow> p; ks \<leftarrow> onBuildFDSet m; Some (k # ks) }"

text \<open>\<open>mBinds[bindid]\<close> creates an entry with \<open>NULL\<close> when there is none.\<close>

definition bind_at :: "UINT \<Rightarrow> TUDPTrasnport \<Rightarrow> TBind option \<times> TUDPTrasnport" where
  "bind_at k t = (case map_of (mBinds t) k of Some p \<Rightarrow> (p, t)
     | None \<Rightarrow> (None, t\<lparr>mBinds := map_insert k None (mBinds t)\<rparr>))"

definition put_bind :: "UINT \<Rightarrow> TBind \<Rightarrow> TUDPTrasnport \<Rightarrow> TUDPTrasnport" where
  "put_bind k b t = t\<lparr>mBinds := map (\<lambda>e. if fst e = k then (k, Some b) else e) (mBinds t)\<rparr>"

definition enqueue :: "UINT \<Rightarrow> TBind option \<Rightarrow> TUniNetMsg \<Rightarrow> TUDPTrasnport \<Rightarrow> TUDPTrasnport option" where
  "enqueue k p msg t = (case p of None \<Rightarrow> Some t
     | Some b \<Rightarrow> do {
         (_, l) \<leftarrow> push_back_r (mSendBuffer b) msg;
         Some (put_bind k (b\<lparr>mSendBuffer := l\<rparr>) t) })"

definition onRecvSendMsg :: "TUniNetMsg \<Rightarrow> TUDPTrasnport \<Rightarrow> TUDPTrasnport option" where
  "onRecvSendMsg msg t = (case getComMsgCtrlHdr msg of None \<Rightarrow> Some t
     | Some hdr \<Rightarrow>
         let bindid = facility hdr in
         if sint bindid > 0 then (let (p, t) = bind_at bindid t in enqueue bindid p msg t)
         else (case mBinds t of [] \<Rightarrow> None | (k, p) # _ \<Rightarrow> enqueue k p msg t))"

text \<open>The loop of the base class hands \<open>onRecvSendMsg\<close> the messages it takes from the queue, in order.\<close>

fun onRecvSendMsgs :: "TUniNetMsg list \<Rightarrow> TUDPTrasnport \<Rightarrow> TUDPTrasnport option" where
  "onRecvSendMsgs [] t = Some t"
| "onRecvSendMsgs (m # ms) t = do { t \<leftarrow> onRecvSendMsg m t; onRecvSendMsgs ms t }"

definition udp_process :: "TUDPTrasnport \<Rightarrow> (bool \<times> TUDPTrasnport) option" where
  "udp_process t = do {
     (r, b) \<leftarrow> transport_process ((tport t)\<lparr>tp_sent := []\<rparr>);
     t \<leftarrow> onRecvSendMsgs (tp_sent b) (t\<lparr>tport := b\<lparr>tp_sent := []\<rparr>\<rparr>);
     Some (r, t) }"

section \<open>Sending\<close>

text \<open>The header in front of the body.\<close>

definition trans_hdr :: "TUniNetMsg \<Rightarrow> CHAR8 list \<Rightarrow> TTransMsg" where
  "trans_hdr msg info = TTransMsg_new\<lparr>tr_length := of_nat (size_c (strobj info)),
     tr_cseq := (if hasCSeq msg then getCSeq msg else 0), tr_transid := (if hasTransId msg then transID msg else [])\<rparr>"

definition datagram :: "TUniNetMsg \<Rightarrow> CHAR8 list \<Rightarrow> CHAR8 list" where
  "datagram msg info = transmsg_encode (trans_hdr msg info) @ estr info"

definition overwrite :: "CHAR8 list \<Rightarrow> CHAR8 list \<Rightarrow> CHAR8 list option" where
  "overwrite bs b = (if length bs \<le> length b then Some (bs @ drop (length bs) b) else None)"

text \<open>\<open>takes\<close> is the answer of the system to a datagram with its destination. The constructor
  \<open>TURI(CStr&)\<close> does not set the port: a text without one leaves it as it was, and \<open>p0 m\<close> stands for that
  value when message \<open>m\<close> is sent.\<close>

type_synonym dest_data = "CHAR8 list \<times> 32 word \<times> CHAR8 list"

definition send_one :: "(TUniNetMsg \<Rightarrow> 32 word) \<Rightarrow> (dest_data \<Rightarrow> bool) \<Rightarrow> TUniNetMsg \<Rightarrow> TUDPTrasnport \<Rightarrow> (dest_data list \<times> TUDPTrasnport) option" where
  "send_one p0 takes msg t = (case (getComMsgCtrlHdr msg, getComMsgBody msg) of
       (Some hdr, Some info) \<Rightarrow> do {
         b \<leftarrow> overwrite (datagram msg info) ((mSockBuffer t)[0 := 0]);
         a \<leftarrow> (if argv hdr = [] then None else Some (hd (argv hdr)));
         u \<leftarrow> setUri a (TURI_new\<lparr>port := p0 msg\<rparr>);
         let d = (host u, port u, take (transmsg_size (trans_hdr msg info) + size_c (strobj info)) b);
         let t = t\<lparr>mSockBuffer := b\<rparr>;
         Some (if takes d then ([d], t\<lparr>mSendCount := mSendCount t + 1\<rparr>) else ([], t\<lparr>mSendFaile := mSendFaile t + 1\<rparr>)) }
     | _ \<Rightarrow> Some ([], t))"

text \<open>The loop runs while the list is not empty: once per element.\<close>

fun send_loop :: "nat \<Rightarrow> (TUniNetMsg \<Rightarrow> 32 word) \<Rightarrow> (dest_data \<Rightarrow> bool) \<Rightarrow> TUniNetMsg dll \<Rightarrow> TUDPTrasnport \<Rightarrow> (dest_data list \<times> TUniNetMsg dll \<times> TUDPTrasnport) option" where
  "send_loop 0 p0 takes l t = (if clist_count l = 0 then Some ([], l, t) else None)"
| "send_loop (Suc n) p0 takes l t = (if clist_count l = 0 then Some ([], l, t) else do {
     ((_, v), l) \<leftarrow> pop_front_v l;
     m \<leftarrow> v;
     (d, t) \<leftarrow> send_one p0 takes m t;
     (ds, l, t) \<leftarrow> send_loop n p0 takes l t;
     Some (d @ ds, l, t) })"

definition udp_Send :: "(TUniNetMsg \<Rightarrow> 32 word) \<Rightarrow> (dest_data \<Rightarrow> bool) \<Rightarrow> UINT \<Rightarrow> TUDPTrasnport \<Rightarrow> (dest_data list \<times> TUDPTrasnport) option" where
  "udp_Send p0 takes k t = do {
     p \<leftarrow> map_of (mBinds t) k;
     b \<leftarrow> p;
     (ds, l, t) \<leftarrow> send_loop (nat (clist_count (mSendBuffer b))) p0 takes (mSendBuffer b) t;
     Some (ds, put_bind k (b\<lparr>mSendBuffer := l\<rparr>) t) }"

section \<open>Receiving\<close>

text \<open>The message made of a datagram that has arrived at an address.\<close>

definition make_msg :: "32 word \<Rightarrow> CHAR8 list \<Rightarrow> TTransMsg \<Rightarrow> CHAR8 list \<Rightarrow> TUniNetMsg" where
  "make_msg bindid client tm info = (let
       m = TUniNetMsg_new\<lparr>dialogType := DIALOG_MESSAGE, msgName := COM_MESSAGE_REQ, msgType := COM_MESSAGE_TYPE\<rparr>;
       m = (if tr_cseq tm \<noteq> 0 then setCSeq (tr_cseq tm) m else m);
       m = (if tr_transid tm \<noteq> [] then setTransId (tr_transid tm) m else m);
       hdr = TComMsgHdr_new\<lparr>status := 0, facility := bindid, argc := 1, argv := (argv TComMsgHdr_new)[0 := client]\<rparr>;
       m = snd (setCtrlMsgHdr (Some (ctrl_new\<lparr>com := Some hdr\<rparr>)) m)
     in snd (setMsgBody (Some (ComBody info)) m))"

text \<open>\<open>continue\<close> does not count the datagram against the limit of ten.\<close>

fun recv_loop :: "nat \<Rightarrow> 32 word \<Rightarrow> (CHAR8 list \<times> CHAR8 list) list \<Rightarrow> TUDPTrasnport \<Rightarrow> ((CHAR8 list \<times> CHAR8 list) list \<times> TUDPTrasnport) option" where
  "recv_loop 0 bindid ds t = Some (ds, t)"
| "recv_loop (Suc n) bindid [] t = Some ([], t\<lparr>mSockBuffer := (mSockBuffer t)[0 := 0]\<rparr>)"
| "recv_loop (Suc n) bindid ((client, d) # ds) t = do {
     let d = take MaxRecvBufSize d;
     b \<leftarrow> overwrite d ((mSockBuffer t)[0 := 0]);
     let t = t\<lparr>mSockBuffer := b\<rparr>;
     if d = [] then Some (ds, t) else do {
       (tm, rest) \<leftarrow> transmsg_decode b;
       if \<not> transmsg_check tm then recv_loop (Suc n) bindid ds t
       else if sint (tr_length tm) > int (length d) - int (transmsg_size tm) then recv_loop (Suc n) bindid ds t
       else do {
         (info, _) \<leftarrow> dec_str rest;
         let t = t\<lparr>tport := postMsg (make_msg bindid client tm info) (tport t), mRecvCount := mRecvCount t + 1\<rparr>;
         recv_loop n bindid ds t } } }"

definition udp_Recv :: "UINT \<Rightarrow> (CHAR8 list \<times> CHAR8 list) list \<Rightarrow> TUDPTrasnport \<Rightarrow> ((CHAR8 list \<times> CHAR8 list) list \<times> TUDPTrasnport) option" where
  "udp_Recv k ds t = do {
     p \<leftarrow> map_of (mBinds t) k;
     b \<leftarrow> p;
     recv_loop 10 (mBindID b) ds t }"

end
