(* ===== verification/UdpTransportSpec.thy ===== *)
theory UdpTransportSpec
  imports UdpTransport
begin

text \<open>
  What one transport sends arrives at the other, in order and unchanged, within the limits of the buffers;
  what happens beyond the limits and with an address that is not bound. The send list is used through the
  interface \<open>fifo_list\<close>.
\<close>

section \<open>Sending\<close>

lemma send_loop_consume: "send_loop n p0 takes l t = clist_queue.consume (send_one p0 takes) n l t"
  by (induction n arbitrary: l t) (simp_all)

text \<open>A message as the transport can carry it, and its datagram with its destination.\<close>

definition sendable :: "(TUniNetMsg \<Rightarrow> 32 word) \<Rightarrow> TUniNetMsg \<Rightarrow> bool" where
  "sendable p0 m = (case (getComMsgCtrlHdr m, getComMsgBody m) of
     (Some h, Some info) \<Rightarrow> argv h \<noteq> [] \<and> setUri (hd (argv h)) (TURI_new\<lparr>port := p0 m\<rparr>) \<noteq> None \<and> length (datagram m info) \<le> MaxRecvBufSize
   | _ \<Rightarrow> False)"

definition wire :: "(TUniNetMsg \<Rightarrow> 32 word) \<Rightarrow> TUniNetMsg \<Rightarrow> dest_data" where
  "wire p0 m = (let u = the (setUri (hd (argv (the (getComMsgCtrlHdr m)))) (TURI_new\<lparr>port := p0 m\<rparr>)) in (host u, port u, datagram m (the (getComMsgBody m))))"

lemma trans_hdr_simps [simp]:
  "tsplit (trans_hdr m info) = [0, 0xFF, 0]" "tr_length (trans_hdr m info) = of_nat (4 + length info)"
  "tr_cseq (trans_hdr m info) = getCSeq m" "tr_transid (trans_hdr m info) = (if hasTransId m then transID m else [])"
  by (auto simp: trans_hdr_def TTransMsg_new_def size_c_def strobj_def getCSeq_def)

lemma transmsg_length: "length (transmsg_encode tm) = transmsg_size tm" if "length (tsplit tm) = 3"
  using that by (simp add: transmsg_encode_def transmsg_size_def size_c_def strobj_def)


lemma datagram_length: "length (datagram m info) = transmsg_size (trans_hdr m info) + 4 + length info"
  by (simp add: datagram_def transmsg_length)

lemma send_one_ok:
  assumes "sendable p0 m" "length (mSockBuffer t) = SocketBufferSize"
  shows "\<exists>t'. send_one p0 takes m t = Some (filter takes [wire p0 m], t') \<and> length (mSockBuffer t') = SocketBufferSize \<and> mBinds t' = mBinds t \<and> tport t' = tport t"
proof -
  obtain h info where hi: "getComMsgCtrlHdr m = Some h" "getComMsgBody m = Some info" "argv h \<noteq> []" "length (datagram m info) \<le> MaxRecvBufSize"
    "setUri (hd (argv h)) (TURI_new\<lparr>port := p0 m\<rparr>) \<noteq> None"
    using assms(1) by (auto simp: sendable_def split: option.splits)
  obtain u where u: "setUri (hd (argv h)) (TURI_new\<lparr>port := p0 m\<rparr>) = Some u" using hi(5) by auto
  define d where "d = datagram m info"
  have w: "wire p0 m = (host u, port u, d)" by (simp add: wire_def hi u d_def Let_def)
  have o: "overwrite d ((mSockBuffer t)[0 := 0]) = Some (d @ drop (length d) ((mSockBuffer t)[0 := 0]))"
    using hi(4) assms(2) by (simp add: overwrite_def d_def)
  have l: "transmsg_size (trans_hdr m info) + size_c (strobj info) = length d"
    by (simp add: d_def datagram_length size_c_def strobj_def)
  have len: "length d \<le> SocketBufferSize" using hi(4) by (simp add: d_def)
  show ?thesis using hi(1-3) u o len assms(2) by (auto simp: send_one_def w l d_def [symmetric] Let_def)
qed

lemma send_all_ok:
  assumes "\<forall>m \<in> set ms. sendable p0 m" "length (mSockBuffer t) = SocketBufferSize"
  shows "\<exists>t'. run_all (send_one p0 takes) ms t = Some (filter takes (map (wire p0) ms), t') \<and> length (mSockBuffer t') = SocketBufferSize \<and>
    mBinds t' = mBinds t \<and> tport t' = tport t"
  using assms
proof (induction ms arbitrary: t)
  case Nil
  then show ?case by simp
next
  case (Cons m ms)
  obtain t1 where t1: "send_one p0 takes m t = Some (filter takes [wire p0 m], t1)" "length (mSockBuffer t1) = SocketBufferSize"
    "mBinds t1 = mBinds t" "tport t1 = tport t" using send_one_ok [of p0 m t takes] Cons.prems by auto
  show ?case using Cons.IH [OF _ t1(2)] Cons.prems(1) t1 by auto
qed

lemma put_bind_at:
  assumes "map_of (mBinds t) k = Some p"
  shows "map_of (mBinds (put_bind k b t)) j = (if j = k then Some (Some b) else map_of (mBinds t) j)"
proof -
  have 1: "j \<noteq> k \<Longrightarrow> map_of (map (\<lambda>e. if fst e = k then (k, Some b) else e) xs) j = map_of xs j" for xs :: "(UINT, TBind option) stdmap"
    by (induction xs) auto
  have 2: "map_of xs k \<noteq> None \<Longrightarrow> map_of (map (\<lambda>e. if fst e = k then (k, Some b) else e) xs) k = Some (Some b)" for xs :: "(UINT, TBind option) stdmap"
    by (induction xs) auto
  show ?thesis using assms 1 2 [of "mBinds t"] by (auto simp: put_bind_def)
qed

lemma udp_Send_ok:
  assumes "map_of (mBinds t) k = Some (Some b)" "clist_rel (mSendBuffer b) (ms, c)" "\<forall>m \<in> set ms. sendable p0 m"
    "length (mSockBuffer t) = SocketBufferSize"
  shows "\<exists>t' l c'. udp_Send p0 takes k t = Some (filter takes (map (wire p0) ms), t') \<and>
    map_of (mBinds t') k = Some (Some (b\<lparr>mSendBuffer := l\<rparr>)) \<and> clist_rel l ([], c')"
proof -
  obtain t1 where t1: "run_all (send_one p0 takes) ms t = Some (filter takes (map (wire p0) ms), t1)" "mBinds t1 = mBinds t"
    using send_all_ok [OF assms(3,4)] by blast
  obtain l c' where l: "clist_queue.consume (send_one p0 takes) (length ms) (mSendBuffer b) t = Some (filter takes (map (wire p0) ms), l, t1)" "clist_rel l ([], c')"
    using clist_queue.consume_ok [OF _ t1(1)] assms(2) by blast
  have "nat (clist_count (mSendBuffer b)) = length ms" using clist_num [OF assms(2)] by simp
  then show ?thesis using l assms(1) t1(2) put_bind_at [of t1 k "Some b"] by (auto simp: udp_Send_def send_loop_consume)
qed

section \<open>Receiving\<close>

text \<open>What the peer posts to its parent for a message.\<close>

definition arrives :: "32 word \<Rightarrow> CHAR8 list \<Rightarrow> TMsgAddress \<Rightarrow> TUniNetMsg \<Rightarrow> TMsg \<Rightarrow> bool" where
  "arrives bindid client parent m x = (\<exists>u h. x = UniNet u \<and> getComMsgBody u = getComMsgBody m \<and> getCSeq u = getCSeq m \<and>
     (if hasTransId u then transID u else []) = (if hasTransId m then transID m else []) \<and> tAddr u = parent \<and>
     getComMsgCtrlHdr u = Some h \<and> facility h = bindid \<and> hd (argv h) = client \<and> argc h = 1 \<and> msgName u = COM_MESSAGE_REQ \<and> dialogType u = DIALOG_MESSAGE)"

lemma make_msg_simps [simp]:
  "getComMsgBody (make_msg bindid client tm info) = Some info"
  "getCSeq (make_msg bindid client tm info) = tr_cseq tm"
  "(if hasTransId (make_msg bindid client tm info) then transID (make_msg bindid client tm info) else []) = tr_transid tm"
  "getComMsgCtrlHdr (make_msg bindid client tm info) = Some (TComMsgHdr_new\<lparr>facility := bindid, argc := 1, argv := (argv TComMsgHdr_new)[0 := client]\<rparr>)"
  "msgName (make_msg bindid client tm info) = COM_MESSAGE_REQ" "dialogType (make_msg bindid client tm info) = DIALOG_MESSAGE"
  by (auto simp: make_msg_def Let_def setMsgBody_def setCtrlMsgHdr_def getComMsgBody_def getComMsgCtrlHdr_def
     flag_defs setCSeq_def setTransId_def getCSeq_def TUniNetMsg_new_def ctrl_new_def TComMsgHdr_new_def size_c_def strobj_def flag_or)

text \<open>Setting the addresses leaves the rest.\<close>

lemma addressed_simps [simp]:
  "getComMsgBody (m\<lparr>sender := a, oAddr := b, tAddr := c\<rparr>) = getComMsgBody m" "getCSeq (m\<lparr>sender := a, oAddr := b, tAddr := c\<rparr>) = getCSeq m"
  "hasTransId (m\<lparr>sender := a, oAddr := b, tAddr := c\<rparr>) = hasTransId m" "getComMsgCtrlHdr (m\<lparr>sender := a, oAddr := b, tAddr := c\<rparr>) = getComMsgCtrlHdr m"
  by (simp_all add: getComMsgBody_def getCSeq_def getComMsgCtrlHdr_def flag_defs)

lemma transID_keeps: "transID (m\<lparr>sender := a, oAddr := b, tAddr := c\<rparr>) = transID m"
  by simp

lemma make_msg_arrives:
  assumes "getComMsgBody m = Some info"
  shows "\<exists>u. postMsg (make_msg bindid client (trans_hdr m info) info) b = b\<lparr>tp_posted := tp_posted b @ [u]\<rparr> \<and>
    arrives bindid client (mParentAddr b) m u"
proof -
  define u where "u = (make_msg bindid client (trans_hdr m info) info)\<lparr>sender := \<lparr>taskType = 0, taskID = 0, instID = 0\<rparr>,
     oAddr := \<lparr>logAddr = 0, phyAddr = 0, taskInstID = 0\<rparr>, tAddr := mParentAddr b\<rparr>"
  have t: "(if hasTransId u then transID u else []) = (if hasTransId m then transID m else [])"
    unfolding u_def using make_msg_simps(3) [of bindid client "trans_hdr m info" info] by (metis addressed_simps(3) trans_hdr_simps(4) transID_keeps)
  have "getComMsgBody u = Some info" "getCSeq u = getCSeq m" "tAddr u = mParentAddr b" "msgName u = COM_MESSAGE_REQ" "dialogType u = DIALOG_MESSAGE"
    "getComMsgCtrlHdr u = Some (TComMsgHdr_new\<lparr>facility := bindid, argc := 1, argv := (argv TComMsgHdr_new)[0 := client]\<rparr>)"
    by (simp_all add: u_def)
  then have "arrives bindid client (mParentAddr b) m (UniNet u)" using t assms by (auto simp: arrives_def TComMsgHdr_new_def numeral_eq_Suc)
  moreover have "postMsg (make_msg bindid client (trans_hdr m info) info) b = b\<lparr>tp_posted := tp_posted b @ [UniNet u]\<rparr>"
    by (simp add: postMsg_def u_def)
  ultimately show ?thesis by blast
qed

lemma sint_nat_small: "n < 2 ^ 31 \<Longrightarrow> sint (of_nat n :: 32 word) = int n"
  by (simp add: signed_take_bit_int_eq_self_iff sint_sbintrunc' signed_of_nat signed_take_bit_int_eq_self)

lemma recv_one:
  assumes "sendable p0 m" "length (mSockBuffer t) = SocketBufferSize"
  shows "\<exists>t' u. recv_loop (Suc n) bindid ((client, snd (snd (wire p0 m))) # ds) t = recv_loop n bindid ds t' \<and>
    tport t' = (tport t)\<lparr>tp_posted := tp_posted (tport t) @ [u]\<rparr> \<and> arrives bindid client (mParentAddr (tport t)) m u \<and>
    length (mSockBuffer t') = SocketBufferSize"
proof -
  obtain h info where hi: "getComMsgCtrlHdr m = Some h" "getComMsgBody m = Some info" "length (datagram m info) \<le> MaxRecvBufSize"
    using assms(1) by (auto simp: sendable_def split: option.splits)
  define d where "d = datagram m info"
  have w: "snd (snd (wire p0 m)) = d" by (simp add: wire_def hi d_def Let_def)
  have len: "length d = transmsg_size (trans_hdr m info) + 4 + length info" by (simp add: d_def datagram_length)
  have tk: "take MaxRecvBufSize d = d" "d \<noteq> []" using hi(3) len by (auto simp: d_def)
  define j where "j = drop (length d) ((mSockBuffer t)[0 := 0])"
  have o: "overwrite d ((mSockBuffer t)[0 := 0]) = Some (d @ j)"
    using hi(3) assms(2) by (simp add: overwrite_def d_def j_def)
  have small: "length info < 2 ^ 31" "length (tr_transid (trans_hdr m info)) < 2 ^ 31"
    using hi(3) by (auto simp: datagram_length transmsg_size_def size_c_def strobj_def)
  have dec: "transmsg_decode (d @ j) = Some (trans_hdr m info, estr info @ j)"
    using transmsg_roundtrip [OF _ small(2), of "estr info @ j"] by (simp add: d_def datagram_def)
  have si: "sint (of_nat (4 + length info) :: 32 word) = int (4 + length info)"
    by (rule sint_nat_small) (use hi(3) len in \<open>simp add: d_def\<close>)
  have chk: "transmsg_check (trans_hdr m info)" using transmsg_roundtrip [OF _ small(2), of "[]"] si by simp
  obtain u where u: "postMsg (make_msg bindid client (trans_hdr m info) info) (tport t) = (tport t)\<lparr>tp_posted := tp_posted (tport t) @ [u]\<rparr>"
    "arrives bindid client (mParentAddr (tport t)) m u" using make_msg_arrives [OF hi(2)] by blast
  define t' where "t' = t\<lparr>mSockBuffer := d @ j, tport := (tport t)\<lparr>tp_posted := tp_posted (tport t) @ [u]\<rparr>, mRecvCount := mRecvCount t + 1\<rparr>"
  have "length (d @ j) = SocketBufferSize" using len hi(3) assms(2) by (simp add: j_def d_def)
  moreover have "recv_loop (Suc n) bindid ((client, d) # ds) t = recv_loop n bindid ds t'"
    using o dec chk si u(1) len tk dec_estr [OF small(1), of j] by (simp add: Let_def t'_def)
  ultimately show ?thesis unfolding w using u(2)
    by (intro exI [of _ t'] exI [of _ u] conjI) (simp_all add: t'_def del: recv_loop.simps)
qed

lemma recv_all:
  assumes "\<forall>m \<in> set ms. sendable p0 m" "length (mSockBuffer t) = SocketBufferSize" "length ms \<le> n"
  shows "\<exists>t' us. recv_loop n bindid (map (\<lambda>m. (client, snd (snd (wire p0 m)))) ms) t = Some ([], t') \<and>
    tport t' = (tport t)\<lparr>tp_posted := tp_posted (tport t) @ us\<rparr> \<and> list_all2 (arrives bindid client (mParentAddr (tport t))) ms us"
  using assms
proof (induction ms arbitrary: t n)
  case Nil
  then show ?case by (cases n) auto
next
  case (Cons m ms)
  obtain n' where n: "n = Suc n'" "length ms \<le> n'" using Cons.prems(3) by (cases n) auto
  obtain t1 u where t1: "recv_loop n bindid (map (\<lambda>m. (client, snd (snd (wire p0 m)))) (m # ms)) t = recv_loop n' bindid (map (\<lambda>m. (client, snd (snd (wire p0 m)))) ms) t1"
    "tport t1 = (tport t)\<lparr>tp_posted := tp_posted (tport t) @ [u]\<rparr>" "arrives bindid client (mParentAddr (tport t)) m u" "length (mSockBuffer t1) = SocketBufferSize"
    using recv_one [of p0 m t n' bindid client "map (\<lambda>m. (client, snd (snd (wire p0 m)))) ms"] Cons.prems(1,2) unfolding n(1) by (auto simp del: recv_loop.simps)
  obtain t2 us where t2: "recv_loop n' bindid (map (\<lambda>m. (client, snd (snd (wire p0 m)))) ms) t1 = Some ([], t2)"
    "tport t2 = (tport t1)\<lparr>tp_posted := tp_posted (tport t1) @ us\<rparr>" "list_all2 (arrives bindid client (mParentAddr (tport t1))) ms us"
    using Cons.IH [OF _ t1(4) n(2)] Cons.prems(1) by auto
  show ?case using t1(1-3) t2 by (intro exI [of _ t2] exI [of _ "u # us"]) (simp del: recv_loop.simps list.map)
qed

section \<open>Properties\<close>



text \<open>Property C34. The limits of a datagram. A message whose datagram is longer than the buffer of 8193 bytes overruns
  it. One of 8097 to 8193 bytes is sent, but the receiver reads 8096 bytes of it and drops it
  as incomplete.\<close>

theorem udp_size_limits:
  assumes "getComMsgCtrlHdr m = Some h" "getComMsgBody m = Some info" "argv h \<noteq> []" "setUri (hd (argv h)) (TURI_new\<lparr>port := p0 m\<rparr>) = Some u"
    "length (mSockBuffer t) = 8193" "length (mSockBuffer r) = 8193" "length (transID m) \<le> 8000" "8096 < length (datagram m info)"
  shows "if 8193 < length (datagram m info) then send_one p0 takes m t = None
    else (\<exists>t' r'. send_one p0 (\<lambda>_. True) m t = Some ([(host u, port u, datagram m info)], t') \<and>
      recv_loop (Suc n) bindid ((client, datagram m info) # ds) r = recv_loop (Suc n) bindid ds r' \<and> tport r' = tport r)"
proof (cases "8193 < length (datagram m info)")
  case True
  then show ?thesis using assms(1,2,5) by (simp add: send_one_def overwrite_def)
next
  case False
  define d hs where "d = datagram m info" and "hs = transmsg_size (trans_hdr m info)"
  have hs: "hs \<le> 8096" "length (tr_transid (trans_hdr m info)) < 2 ^ 31"
    using assms(7) by (auto simp: hs_def transmsg_size_def size_c_def strobj_def)
  have len: "length d = hs + 4 + length info" "8096 < length d" "length d \<le> 8193"
    using assms(8) False by (simp_all add: d_def hs_def datagram_length)
  have ne: "d \<noteq> []" using len(2) by auto
  define b e where "b = take 8096 d @ drop 8096 ((mSockBuffer r)[0 := 0])" and "e = take (8096 - hs) (estr info) @ drop 8096 ((mSockBuffer r)[0 := 0])"
  have "take 8096 d = transmsg_encode (trans_hdr m info) @ take (8096 - hs) (estr info)"
    using hs(1) by (simp add: d_def datagram_def transmsg_length hs_def)
  then have dec: "transmsg_decode b = Some (trans_hdr m info, e)"
    using transmsg_roundtrip [OF _ hs(2), of e] by (simp add: b_def e_def)
  have si: "sint (of_nat (4 + length info) :: 32 word) = int (4 + length info)"
    by (rule sint_nat_small) (use len in simp)
  have chk: "transmsg_check (trans_hdr m info)" using transmsg_roundtrip [OF _ hs(2), of "[]"] si by simp
  have "recv_loop (Suc n) bindid ((client, d) # ds) r = recv_loop (Suc n) bindid ds (r\<lparr>mSockBuffer := b\<rparr>)"
    using dec chk si len ne assms(6) by (simp add: overwrite_def b_def Let_def hs_def)
  moreover have "take (hs + size_c (strobj info)) (d @ drop (length d) ((mSockBuffer t)[0 := 0])) = d"
    using len by (simp add: size_c_def strobj_def)
  then have "\<exists>t'. send_one p0 (\<lambda>_. True) m t = Some ([(host u, port u, d)], t')"
    using assms(1-5) len by (auto simp: send_one_def overwrite_def d_def [symmetric] hs_def [symmetric])
  ultimately show ?thesis using False by (auto simp: d_def [symmetric] simp del: recv_loop.simps)
qed

text \<open>A message for an address that is not bound stops the transport. \<open>onRecvSendMsg\<close> stores
  \<open>NULL\<close> under the unknown number and drops the message; the next \<open>onBuildFDSet\<close> follows the pointer.\<close>

theorem udp_unknown_bind:
  assumes "getComMsgCtrlHdr m = Some h" "sint (facility h) > 0" "map_of (mBinds t) (facility h) = None"
  shows "\<exists>t'. onRecvSendMsg m t = Some t' \<and> onBuildFDSet (mBinds t') = None"
proof -
  have "map_of xs k = None \<Longrightarrow> onBuildFDSet (map_insert k None xs) = None" for xs :: "(UINT, TBind option) stdmap" and k
    by (induction xs) (auto split: Option.bind_splits if_splits)
  then show ?thesis using assms by (simp add: onRecvSendMsg_def bind_at_def enqueue_def Let_def)
qed

section \<open>An instance\<close>

definition sample_mail :: "32 word \<Rightarrow> CHAR8 list \<Rightarrow> TUniNetMsg" where
  "sample_mail fac info = addMsgBody (snd (setCtrlMsgHdr (Some (ctrl_new\<lparr>com := Some (TComMsgHdr_new\<lparr>facility := fac, argc := 1,
     argv := [[104, 58, 53], [], [], [], []]\<rparr>)\<rparr>)) (setTransId ([116, 49]) (setCSeq 7 TUniNetMsg_new)))) info"

lemma sample_mail_parts:
  "getComMsgCtrlHdr (sample_mail fac info) = Some (TComMsgHdr_new\<lparr>facility := fac, argc := 1, argv := [[104, 58, 53], [], [], [], []]\<rparr>)"
  "getComMsgBody (sample_mail fac info) = Some info" "getCSeq (sample_mail fac info) = 7" "transID (sample_mail fac info) = [116, 49]"
  by (simp_all add: sample_mail_def addMsgBody_def setMsgBody_def setCtrlMsgHdr_def getComMsgBody_def getComMsgCtrlHdr_def Let_def
     flag_defs setCSeq_def setTransId_def getCSeq_def TUniNetMsg_new_def ctrl_new_def TComMsgHdr_new_def size_c_def strobj_def flag_or)

lemma sample_uri: "setUri ([104, 58, 53]) (TURI_new\<lparr>port := 77\<rparr>) = Some \<lparr>uri = [104, 58, 53], schema = [], user = [], password = [], domain = [104, 58, 53], host = [104], port = 5\<rparr>"
  by code_simp


text \<open>A transport with one bound address and an empty or a filled list.\<close>

lemma sample_bind: "\<exists>b c. TBind_new 1 ([104]) 5 = Some b \<and> mBindID b = 1 \<and> clist_rel (mSendBuffer b) ([], c)"
proof -
  obtain l :: "TUniNetMsg dll" where l: "CList_new = Some l" "clist_rel l ([], 0)" using new_rep by blast
  have "TBind_new 1 [104] 5 = Some \<lparr>mBindID = 1, mHost = [104], mPort = 5, mSendBuffer = l\<rparr>" unfolding TBind_new_def l(1) by simp
  then show ?thesis using l(2) by auto
qed

lemma sample_sendable: "sendable (\<lambda>_. 77) (sample_mail 1 ([97, 98]))"
  by (simp add: sendable_def sample_mail_parts sample_uri datagram_length transmsg_size_def size_c_def strobj_def TComMsgHdr_new_def)


theorem udp_size_limits_witness:
  "send_one (\<lambda>_. 77) (\<lambda>_. True) (sample_mail 1 (replicate 9000 0)) (TUDPTrasnport_new 0 (replicate 8193 0) TMsgAddress_new) = None"
  using udp_size_limits [of "sample_mail 1 (replicate 9000 0)" _ "replicate 9000 0" "\<lambda>_. 77" _ "TUDPTrasnport_new 0 (replicate 8193 0) TMsgAddress_new"
      "TUDPTrasnport_new 0 (replicate 8193 0) TMsgAddress_new" "\<lambda>_. True", OF sample_mail_parts(1,2)]
  by (auto simp: sample_uri sample_mail_parts datagram_length TUDPTrasnport_new_def TComMsgHdr_new_def)

theorem udp_unknown_bind_witness:
  "\<exists>t'. onRecvSendMsg (sample_mail 3 []) (TUDPTrasnport_new 0 [] TMsgAddress_new) = Some t' \<and> onBuildFDSet (mBinds t') = None"
  by (rule udp_unknown_bind [OF sample_mail_parts(1)]) (simp_all add: TUDPTrasnport_new_def TComMsgHdr_new_def)

end
