(* ===== verification/RWMutex.thy ===== *)
theory RWMutex
  imports Prelude
begin

text \<open>
  The readers/writers lock \<open>RWMutex\<close> (\<open>comserv/threadmutexRW.*\<close>). Every member function is one section under
  \<open>mMutex\<close>; a thread that waits on a condition continues with the test of its loop. The threads that use
  the lock are a list of their states. A condition may wake a thread without a signal.

  In every reachable state a writer excludes all others, the counters count the threads, no assertion
  fails, and no wake-up is lost.
\<close>

section \<open>The lock\<close>

record rwmutex =
  mReaderCount :: UINT
  mWriterHasLock :: bool
  mPendingWriterCount :: UINT

definition RWMutex_new :: rwmutex where
  "RWMutex_new = \<lparr>mReaderCount = 0, mWriterHasLock = False, mPendingWriterCount = 0\<rparr>"

text \<open>The test of the loop and what follows it; \<open>False\<close> means that the thread waits.\<close>

definition readlock_try :: "rwmutex \<Rightarrow> bool \<times> rwmutex" where
  "readlock_try m = (if mWriterHasLock m \<or> mPendingWriterCount m > 0 then (False, m)
     else (True, m\<lparr>mReaderCount := mReaderCount m + 1\<rparr>))"

definition writelock_try :: "rwmutex \<Rightarrow> bool \<times> rwmutex" where
  "writelock_try m = (if mWriterHasLock m \<or> mReaderCount m > 0 then (False, m)
     else (True, m\<lparr>mPendingWriterCount := mPendingWriterCount m - 1, mWriterHasLock := True\<rparr>))"

definition writelock :: "rwmutex \<Rightarrow> bool \<times> rwmutex" where
  "writelock m = writelock_try (m\<lparr>mPendingWriterCount := mPendingWriterCount m + 1\<rparr>)"

datatype wakeup = NoWakeup | SignalWriter | BroadcastReaders

text \<open>A failed assertion is \<open>None\<close>.\<close>

definition rw_unlock :: "rwmutex \<Rightarrow> (wakeup \<times> rwmutex) option" where
  "rw_unlock m = (if mWriterHasLock m then
       (if mReaderCount m = 0 then
          Some (if mPendingWriterCount m > 0 then SignalWriter else BroadcastReaders, m\<lparr>mWriterHasLock := False\<rparr>)
        else None)
     else
       (if mReaderCount m > 0 then
          (let m = m\<lparr>mReaderCount := mReaderCount m - 1\<rparr> in
           Some (if mReaderCount m = 0 \<and> mPendingWriterCount m > 0 then SignalWriter else NoWakeup, m))
        else None))"

section \<open>Threads\<close>

datatype rwthread = Idle | ReadWaits | ReadWoken | Reads | WriteWaits | WriteWoken | Writes

inductive rw_step :: "rwmutex \<times> rwthread list \<Rightarrow> rwmutex \<times> rwthread list \<Rightarrow> bool" where
  enter_read: "i < length ts \<Longrightarrow> ts ! i = Idle \<or> ts ! i = ReadWoken \<Longrightarrow> readlock_try m = (ok, m') \<Longrightarrow>
    rw_step (m, ts) (m', ts[i := if ok then Reads else ReadWaits])"
| enter_write: "i < length ts \<Longrightarrow> ts ! i = Idle \<Longrightarrow> writelock m = (ok, m') \<Longrightarrow>
    rw_step (m, ts) (m', ts[i := if ok then Writes else WriteWaits])"
| retry_write: "i < length ts \<Longrightarrow> ts ! i = WriteWoken \<Longrightarrow> writelock_try m = (ok, m') \<Longrightarrow>
    rw_step (m, ts) (m', ts[i := if ok then Writes else WriteWaits])"
| unlock_none: "i < length ts \<Longrightarrow> ts ! i = Reads \<or> ts ! i = Writes \<Longrightarrow> rw_unlock m = Some (w, m') \<Longrightarrow>
    w = NoWakeup \<or> w = SignalWriter \<and> WriteWaits \<notin> set ts \<Longrightarrow> rw_step (m, ts) (m', ts[i := Idle])"
| unlock_signal: "i < length ts \<Longrightarrow> ts ! i = Reads \<or> ts ! i = Writes \<Longrightarrow> rw_unlock m = Some (SignalWriter, m') \<Longrightarrow>
    j < length ts \<Longrightarrow> ts ! j = WriteWaits \<Longrightarrow> rw_step (m, ts) (m', ts[i := Idle, j := WriteWoken])"
| unlock_all: "i < length ts \<Longrightarrow> ts ! i = Reads \<or> ts ! i = Writes \<Longrightarrow> rw_unlock m = Some (BroadcastReaders, m') \<Longrightarrow>
    rw_step (m, ts) (m', map (\<lambda>s. if s = ReadWaits then ReadWoken else s) (ts[i := Idle]))"
| spurious: "i < length ts \<Longrightarrow> ts ! i = ReadWaits \<and> s = ReadWoken \<or> ts ! i = WriteWaits \<and> s = WriteWoken \<Longrightarrow>
    rw_step (m, ts) (m, ts[i := s])"

inductive_cases rw_stepE: "rw_step (m, ts) s'"

definition rw_reach :: "nat \<Rightarrow> rwmutex \<times> rwthread list \<Rightarrow> bool" where
  "rw_reach n = rw_step\<^sup>*\<^sup>* (RWMutex_new, replicate n Idle)"

section \<open>Invariant\<close>

definition rw_inv :: "rwmutex \<times> rwthread list \<Rightarrow> bool" where
  "rw_inv s = (case s of (m, ts) \<Rightarrow> length ts < 2 ^ 32 \<and>
     unat (mReaderCount m) = count_list ts Reads \<and>
     unat (mPendingWriterCount m) = count_list ts WriteWaits + count_list ts WriteWoken \<and>
     count_list ts Writes = of_bool (mWriterHasLock m) \<and>
     (mWriterHasLock m \<longrightarrow> count_list ts Reads = 0) \<and>
     (\<not> mWriterHasLock m \<and> count_list ts Reads = 0 \<and> 0 < count_list ts WriteWaits \<longrightarrow> 0 < count_list ts WriteWoken) \<and>
     (\<not> mWriterHasLock m \<and> count_list ts WriteWaits + count_list ts WriteWoken = 0 \<longrightarrow> count_list ts ReadWaits = 0))"

lemma count_update:
  "i < length ts \<Longrightarrow> count_list (ts[i := s]) z + of_bool (ts ! i = z) = count_list ts z + of_bool (s = z)"
proof (induction ts arbitrary: i)
  case (Cons t ts)
  then show ?case by (cases i) auto
qed simp

lemma count_woken: "count_list (map (\<lambda>s. if s = ReadWaits then ReadWoken else s) ts) z =
    (if z = ReadWaits then 0 else if z = ReadWoken then count_list ts ReadWoken + count_list ts ReadWaits else count_list ts z)"
  by (induction ts) auto

lemma count_sum:
  "count_list ts Reads + count_list ts WriteWaits + count_list ts WriteWoken + count_list ts Writes \<le> length ts"
  by (induction ts) auto

lemma count_member: "i < length ts \<Longrightarrow> 0 < count_list ts (ts ! i)"
  by (simp add: count_list_0_iff zero_less_iff_neq_zero)


text \<open>The counts after one thread has changed its state.\<close>

lemma count_to:
  assumes "i < length ts" "ts ! i \<noteq> s"
  shows "count_list (ts[i := s]) s = Suc (count_list ts s)" "count_list (ts[i := s]) (ts ! i) = count_list ts (ts ! i) - 1"
    "z \<noteq> s \<Longrightarrow> z \<noteq> ts ! i \<Longrightarrow> count_list (ts[i := s]) z = count_list ts z"
  using count_update [OF assms(1), of s s] count_update [OF assms(1), of s "ts ! i"] count_update [OF assms(1), of s z] assms(2) by auto

lemma rw_unat_inc: "unat (w :: UINT) = n \<Longrightarrow> n + 1 < 2 ^ 32 \<Longrightarrow> unat (w + 1) = Suc n"
  by (simp add: unat_word_ariths)

lemma unat_dec: "unat (w :: UINT) = Suc n \<Longrightarrow> unat (w - 1) = n"
  by (metis One_nat_def Suc_eq_plus1 add_diff_cancel_right' unat_eq_zero unat_minus_one nat.distinct(1))

lemma uint_zero_iff: "unat (w :: UINT) = n \<Longrightarrow> (w = 0) = (n = 0)"
  by (auto simp: unat_eq_zero)

lemma inv_init: "n < 2 ^ 32 \<Longrightarrow> rw_inv (RWMutex_new, replicate n Idle)"
proof -
  have "count_list (replicate n Idle) z = (if z = Idle then n else 0)" for z by (induction n) auto
  then show "n < 2 ^ 32 \<Longrightarrow> ?thesis" by (simp add: rw_inv_def RWMutex_new_def)
qed

lemma inv_read:
  assumes I: "rw_inv (m, ts)" and i: "i < length ts" "ts ! i = Idle \<or> ts ! i = ReadWoken" and r: "readlock_try m = (ok, m')"
  shows "rw_inv (m', ts[i := if ok then Reads else ReadWaits])"
proof (cases ok)
  case True
  have ne: "ts ! i \<noteq> Reads" using i(2) by auto
  note c = count_to [OF i(1) ne]
  have k: "count_list (ts[i := Reads]) z = count_list ts z" if "z \<in> {WriteWaits, WriteWoken, Writes, ReadWaits}" for z using c(3) that i(2) by auto
  have "count_list ts Reads + 1 < 2 ^ 32" using count_sum [of "ts[i := Reads]"] c(1) I by (auto simp: rw_inv_def)
  moreover have "mReaderCount m' = mReaderCount m + 1" "mWriterHasLock m' = mWriterHasLock m" "mPendingWriterCount m' = mPendingWriterCount m" "\<not> mWriterHasLock m"
    "mPendingWriterCount m = 0" using r True by (auto simp: readlock_try_def word_gt_0 split: if_splits)
  ultimately show ?thesis using I True rw_unat_inc by (simp add: rw_inv_def k c(1))
next
  case False
  have ne: "ts ! i \<noteq> ReadWaits" using i(2) by auto
  note c = count_to [OF i(1) ne]
  have k: "count_list (ts[i := ReadWaits]) z = count_list ts z" if "z \<in> {WriteWaits, WriteWoken, Writes, Reads}" for z using c(3) that i(2) by auto
  have "m' = m" "mWriterHasLock m \<or> mPendingWriterCount m \<noteq> 0" using r False by (auto simp: readlock_try_def word_neq_0_conv split: if_splits)
  then show ?thesis using I False uint_zero_iff [of "mPendingWriterCount m"] by (auto simp: rw_inv_def k)
qed


lemma inv_retry:
  assumes I: "rw_inv (m, ts)" and i: "i < length ts" "ts ! i = WriteWoken" and r: "writelock_try m = (ok, m')"
  shows "rw_inv (m', ts[i := if ok then Writes else WriteWaits])"
proof (cases ok)
  case True
  have ne: "ts ! i \<noteq> Writes" using i(2) by auto
  note c = count_to [OF i(1) ne]
  have k: "count_list (ts[i := Writes]) z = count_list ts z" if "z \<in> {WriteWaits, Reads, ReadWaits}" for z using c(3) that i(2) by auto
  have pos: "0 < count_list ts WriteWoken" using count_member [OF i(1)] i(2) by simp
  have m: "mReaderCount m' = mReaderCount m" "mWriterHasLock m'" "mPendingWriterCount m' = mPendingWriterCount m - 1" "\<not> mWriterHasLock m"
    "mReaderCount m = 0" using r True by (auto simp: writelock_try_def word_gt_0 split: if_splits)
  have "unat (mPendingWriterCount m - 1) = count_list ts WriteWaits + (count_list ts WriteWoken - 1)"
    by (rule unat_dec) (use I pos in \<open>simp add: rw_inv_def\<close>)
  then show ?thesis using I True m c(1,2) i(2) by (simp add: rw_inv_def k)
next
  case False
  have ne: "ts ! i \<noteq> WriteWaits" using i(2) by auto
  note c = count_to [OF i(1) ne]
  have k: "count_list (ts[i := WriteWaits]) z = count_list ts z" if "z \<in> {Writes, Reads, ReadWaits}" for z using c(3) that i(2) by auto
  have pos: "0 < count_list ts WriteWoken" using count_member [OF i(1)] i(2) by simp
  have m: "m' = m" "mWriterHasLock m \<or> mReaderCount m \<noteq> 0" using r False by (auto simp: writelock_try_def word_gt_0 split: if_splits)
  then have "mWriterHasLock m \<or> count_list ts Reads \<noteq> 0" using I uint_zero_iff [of "mReaderCount m"] by (auto simp: rw_inv_def)
  then show ?thesis using I False m(1) c(1,2) i(2) pos by (auto simp: rw_inv_def k)
qed

text \<open>A writer that enters does what a woken writer does, once it is counted.\<close>

lemma inv_write:
  assumes I: "rw_inv (m, ts)" and i: "i < length ts" "ts ! i = Idle" and r: "writelock m = (ok, m')"
  shows "rw_inv (m', ts[i := if ok then Writes else WriteWaits])"
proof -
  have ne: "ts ! i \<noteq> WriteWoken" using i(2) by auto
  note c = count_to [OF i(1) ne]
  have k: "count_list (ts[i := WriteWoken]) z = count_list ts z" if "z \<in> {WriteWaits, Writes, Reads, ReadWaits}" for z using c(3) that i(2) by auto
  have "count_list ts WriteWaits + count_list ts WriteWoken + 1 < 2 ^ 32"
    using count_sum [of "ts[i := WriteWoken]"] c(1) k [of WriteWaits] I by (auto simp: rw_inv_def)
  then have "rw_inv (m\<lparr>mPendingWriterCount := mPendingWriterCount m + 1\<rparr>, ts[i := WriteWoken])"
    using I c(1) rw_unat_inc [of "mPendingWriterCount m"] by (auto simp: rw_inv_def k)
  from inv_retry [OF this _ _ r [unfolded writelock_def], of i] i(1) show ?thesis by simp
qed

text \<open>A thread that holds the lock can release it; what is left to wake.\<close>

lemma unlock_holder:
  assumes I: "rw_inv (m, ts)" and i: "i < length ts" "ts ! i = Reads \<or> ts ! i = Writes"
  shows "\<exists>w m'. rw_unlock m = Some (w, m') \<and> \<not> mWriterHasLock m' \<and> mPendingWriterCount m' = mPendingWriterCount m \<and>
    unat (mReaderCount m') = count_list (ts[i := Idle]) Reads \<and> count_list (ts[i := Idle]) Writes = 0 \<and>
    (w = BroadcastReaders \<longrightarrow> mPendingWriterCount m = 0) \<and> (w = NoWakeup \<longrightarrow> count_list (ts[i := Idle]) Reads \<noteq> 0 \<or> mPendingWriterCount m = 0) \<and>
    (w \<noteq> BroadcastReaders \<longrightarrow> mPendingWriterCount m \<noteq> 0 \<or> \<not> mWriterHasLock m)"
proof (cases "mWriterHasLock m")
  case True
  then have z: "count_list ts Reads = 0" "count_list ts Writes = 1" "mReaderCount m = 0"
    using I uint_zero_iff [of "mReaderCount m"] by (auto simp: rw_inv_def)
  have w: "ts ! i = Writes" using i count_member [OF i(1)] z(1) by auto
  then have ne: "ts ! i \<noteq> Idle" by simp
  have "count_list (ts[i := Idle]) Reads = 0" "count_list (ts[i := Idle]) Writes = 0"
    using count_to(2,3) [OF i(1) ne] w z by auto
  then show ?thesis using True z by (simp add: rw_unlock_def word_gt_0)
next
  case False
  then have z: "count_list ts Writes = 0" using I by (auto simp: rw_inv_def)
  have w: "ts ! i = Reads" using i count_member [OF i(1)] z(1) by auto
  then have ne: "ts ! i \<noteq> Idle" by simp
  have c: "count_list (ts[i := Idle]) Reads = count_list ts Reads - 1" "count_list (ts[i := Idle]) Writes = 0" "0 < count_list ts Reads"
    using count_to(2,3) [OF i(1) ne] w z count_member [OF i(1)] by auto
  have d: "unat (mReaderCount m - 1) = count_list (ts[i := Idle]) Reads" by (rule unat_dec) (use I c in \<open>simp add: rw_inv_def\<close>)
  have "mReaderCount m > 0" using I c uint_zero_iff [of "mReaderCount m"] by (auto simp: rw_inv_def word_gt_0)
  then show ?thesis using False d c(2) uint_zero_iff [OF d] by (simp add: rw_unlock_def word_gt_0 Let_def)
qed


text \<open>What is to show of a state in which no writer holds the lock.\<close>

lemma rw_freeI:
  assumes "\<not> mWriterHasLock m" "length ts < 2 ^ 32" "unat (mReaderCount m) = count_list ts Reads"
    "unat (mPendingWriterCount m) = count_list ts WriteWaits + count_list ts WriteWoken" "count_list ts Writes = 0"
    "count_list ts Reads = 0 \<Longrightarrow> 0 < count_list ts WriteWaits \<Longrightarrow> 0 < count_list ts WriteWoken"
    "count_list ts WriteWaits = 0 \<Longrightarrow> count_list ts WriteWoken = 0 \<Longrightarrow> count_list ts ReadWaits = 0"
  shows "rw_inv (m, ts)"
  using assms by (simp add: rw_inv_def)

lemma inv_unlock:
  assumes I: "rw_inv (m, ts)" and i: "i < length ts" "ts ! i = Reads \<or> ts ! i = Writes" and r: "rw_unlock m = Some (w, m')"
  shows "w = NoWakeup \<or> w = SignalWriter \<and> WriteWaits \<notin> set ts \<Longrightarrow> rw_inv (m', ts[i := Idle])"
    and "w = SignalWriter \<Longrightarrow> j < length ts \<Longrightarrow> ts ! j = WriteWaits \<Longrightarrow> rw_inv (m', ts[i := Idle, j := WriteWoken])"
    and "w = BroadcastReaders \<Longrightarrow> rw_inv (m', map (\<lambda>s. if s = ReadWaits then ReadWoken else s) (ts[i := Idle]))"
proof -
  define us where "us = ts[i := Idle]"
  have ne: "ts ! i \<noteq> Idle" using i(2) by auto
  have k: "count_list us z = count_list ts z" if "z \<in> {WriteWaits, WriteWoken, ReadWaits}" for z
    using count_to(3) [OF i(1) ne, of z] that i(2) by (auto simp: us_def)
  have m: "\<not> mWriterHasLock m'" "mPendingWriterCount m' = mPendingWriterCount m" "unat (mReaderCount m') = count_list us Reads"
    "count_list us Writes = 0" "w = BroadcastReaders \<longrightarrow> mPendingWriterCount m = 0" "w = NoWakeup \<longrightarrow> count_list us Reads \<noteq> 0 \<or> mPendingWriterCount m = 0"
    "w \<noteq> BroadcastReaders \<longrightarrow> mPendingWriterCount m \<noteq> 0 \<or> \<not> mWriterHasLock m"
    using unlock_holder [OF I i] r by (auto simp: us_def)
  have p: "unat (mPendingWriterCount m) = count_list ts WriteWaits + count_list ts WriteWoken" using I by (simp add: rw_inv_def)
  have len: "length us < 2 ^ 32" using I by (simp add: rw_inv_def us_def)
  have kk: "count_list us WriteWaits = count_list ts WriteWaits" "count_list us WriteWoken = count_list ts WriteWoken" "count_list us ReadWaits = count_list ts ReadWaits"
    using k by simp_all
  have calm: "\<not> mWriterHasLock m \<Longrightarrow> count_list ts WriteWaits = 0 \<Longrightarrow> count_list ts WriteWoken = 0 \<Longrightarrow> count_list ts ReadWaits = 0"
    using I by (simp add: rw_inv_def)
  have p0: "mPendingWriterCount m = 0 \<longleftrightarrow> count_list ts WriteWaits + count_list ts WriteWoken = 0" by (rule uint_zero_iff [OF p])
  show "rw_inv (m', ts[i := Idle])" if w: "w = NoWakeup \<or> w = SignalWriter \<and> WriteWaits \<notin> set ts"
    unfolding us_def [symmetric]
  proof (rule rw_freeI)
    show "0 < count_list us WriteWoken" if "count_list us Reads = 0" "0 < count_list us WriteWaits"
      using w m(6) p0 that unfolding kk by (auto simp: count_list_0_iff)
    show "count_list us ReadWaits = 0" if "count_list us WriteWaits = 0" "count_list us WriteWoken = 0"
      using w m(7) p0 that calm unfolding kk by auto
  qed (use len in \<open>simp_all add: m p kk\<close>)
  show "rw_inv (m', ts[i := Idle, j := WriteWoken])" if w: "w = SignalWriter" and j: "j < length ts" "ts ! j = WriteWaits"
    unfolding us_def [symmetric]
  proof (rule rw_freeI)
    have "i \<noteq> j" using j(2) i(2) by auto
    then have uj: "us ! j = WriteWaits" "j < length us" using j by (simp_all add: us_def)
    then have c: "count_list (us[j := WriteWoken]) WriteWoken = Suc (count_list ts WriteWoken)" "count_list (us[j := WriteWoken]) WriteWaits = count_list ts WriteWaits - 1"
      "count_list (us[j := WriteWoken]) Reads = count_list us Reads" "count_list (us[j := WriteWoken]) Writes = count_list us Writes"
      using count_to [of j us WriteWoken] kk by auto
    have "0 < count_list ts WriteWaits" using count_member [OF j(1)] j(2) by simp
    then show "unat (mPendingWriterCount m') = count_list (us[j := WriteWoken]) WriteWaits + count_list (us[j := WriteWoken]) WriteWoken"
      using m(2) p c by simp
    show "unat (mReaderCount m') = count_list (us[j := WriteWoken]) Reads" "count_list (us[j := WriteWoken]) Writes = 0" using m c by simp_all
    show "0 < count_list (us[j := WriteWoken]) WriteWoken" using c by simp
    show "count_list (us[j := WriteWoken]) ReadWaits = 0" if "count_list (us[j := WriteWoken]) WriteWoken = 0" using c that by simp
  qed (use len in \<open>simp_all add: m\<close>)
  show "rw_inv (m', map (\<lambda>s. if s = ReadWaits then ReadWoken else s) (ts[i := Idle]))" if w: "w = BroadcastReaders"
    unfolding us_def [symmetric] by (rule rw_freeI) (use w m p0 len in \<open>simp_all add: count_woken kk p\<close>)
qed

lemma inv_spurious:
  assumes I: "rw_inv (m, ts)" and i: "i < length ts" and s: "ts ! i = ReadWaits \<and> s = ReadWoken \<or> ts ! i = WriteWaits \<and> s = WriteWoken"
  shows "rw_inv (m, ts[i := s])"
proof -
  have ne: "ts ! i \<noteq> s" using s by auto
  note c = count_to [OF i ne]
  have k: "count_list (ts[i := s]) z = count_list ts z" if "z \<in> {Reads, Writes}" for z using c(3) that s by auto
  have pos: "0 < count_list ts (ts ! i)" using count_member [OF i] .
  have "count_list (ts[i := s]) WriteWaits + count_list (ts[i := s]) WriteWoken = count_list ts WriteWaits + count_list ts WriteWoken"
    "count_list (ts[i := s]) ReadWaits \<le> count_list ts ReadWaits" "count_list ts WriteWoken \<le> count_list (ts[i := s]) WriteWoken"
    "0 < count_list (ts[i := s]) WriteWaits \<Longrightarrow> 0 < count_list ts WriteWaits"
    using s c pos by auto
  then show ?thesis using I by (auto simp: rw_inv_def k)
qed

lemma inv_step: "rw_step s s' \<Longrightarrow> rw_inv s \<Longrightarrow> rw_inv s'"
  by (induction rule: rw_step.induct) (blast intro: inv_read inv_write inv_retry inv_unlock inv_spurious)+

lemma reach_inv: "rw_reach n s \<Longrightarrow> n < 2 ^ 32 \<Longrightarrow> rw_inv s"
  unfolding rw_reach_def by (induction rule: rtranclp_induct) (auto intro: inv_init inv_step)


section \<open>Properties\<close>

text \<open>Property C35. Writers exclude all others. Whatever fewer than \<open>2 ^ 32\<close> threads do with the lock, at most one of
  them writes, none reads while one writes, the counters hold the numbers of readers and of writers that wait, and
  a thread that holds the lock can release it: no assertion fails.\<close>

theorem rw_exclusion:
  assumes "rw_reach n (m, ts)" "n < 2 ^ 32"
  shows "(\<forall>i j. i < length ts \<longrightarrow> j < length ts \<longrightarrow> ts ! i = Writes \<longrightarrow> ts ! j = Reads \<or> ts ! j = Writes \<longrightarrow> i = j) \<and>
    unat (mReaderCount m) = count_list ts Reads \<and> unat (mPendingWriterCount m) = count_list ts WriteWaits + count_list ts WriteWoken \<and>
    (\<forall>i < length ts. ts ! i = Reads \<or> ts ! i = Writes \<longrightarrow> rw_unlock m \<noteq> None)"
proof -
  note I = reach_inv [OF assms]
  have two: "count_list ts Writes \<ge> 2" if "i < length ts" "j < length ts" "ts ! i = Writes" "ts ! j = Writes" "i \<noteq> j" for i j
    using count_to [of j ts Idle] count_member [of i "ts[j := Idle]"] that by auto
  have "i = j" if "i < length ts" "j < length ts" "ts ! i = Writes" "ts ! j = Reads \<or> ts ! j = Writes" for i j
    using two [of i j] that count_member [of i ts] count_member [of j ts] I by (auto simp: rw_inv_def split: if_splits)
  moreover have "rw_unlock m \<noteq> None" if "i < length ts" "ts ! i = Reads \<or> ts ! i = Writes" for i
    using unlock_holder [OF I that] by auto
  moreover have "unat (mReaderCount m) = count_list ts Reads" "unat (mPendingWriterCount m) = count_list ts WriteWaits + count_list ts WriteWoken"
    using I by (simp_all add: rw_inv_def)
  ultimately show ?thesis by blast
qed

theorem rw_exclusion_witness:
  "rw_reach 2 (\<lparr>mReaderCount = 0, mWriterHasLock = True, mPendingWriterCount = 0\<rparr>, [Idle, Writes]) \<and>
    rw_unlock \<lparr>mReaderCount = 0, mWriterHasLock = True, mPendingWriterCount = 0\<rparr> \<noteq> None"
proof -
  have "rw_step (RWMutex_new, [Idle, Idle]) (\<lparr>mReaderCount = 0, mWriterHasLock = True, mPendingWriterCount = 0\<rparr>, [Idle, Idle][1 := if True then Writes else WriteWaits])"
    by (rule enter_write) (simp_all add: writelock_def writelock_try_def RWMutex_new_def)
  then have r: "rw_reach 2 (\<lparr>mReaderCount = 0, mWriterHasLock = True, mPendingWriterCount = 0\<rparr>, [Idle, Writes])"
    by (auto simp: rw_reach_def numeral_2_eq_2)
  then show ?thesis using rw_exclusion [OF r] by auto
qed

text \<open>Property C36. No wake-up is lost. Whenever no thread holds the lock while a writer waits, some writer has been woken
  and takes the lock when it runs; when no writer waits either, no reader is left asleep and every woken
  reader takes the lock when it runs.\<close>

theorem rw_no_lost_wakeup:
  assumes "rw_reach n (m, ts)" "n < 2 ^ 32" "Reads \<notin> set ts" "Writes \<notin> set ts"
  shows "(WriteWaits \<in> set ts \<longrightarrow> WriteWoken \<in> set ts) \<and> fst (writelock_try m) \<and>
    (WriteWaits \<notin> set ts \<and> WriteWoken \<notin> set ts \<longrightarrow> ReadWaits \<notin> set ts \<and> fst (readlock_try m))"
proof -
  note I = reach_inv [OF assms(1,2)]
  have c: "count_list ts Reads = 0" "count_list ts Writes = 0" using assms(3,4) by (simp_all add: count_list_0_iff)
  then have m: "\<not> mWriterHasLock m" "mReaderCount m = 0" using I uint_zero_iff [of "mReaderCount m" 0] by (auto simp: rw_inv_def)
  have z: "z \<in> set ts \<longleftrightarrow> 0 < count_list ts z" for z using count_list_0_iff [of ts z] by auto
  have "mPendingWriterCount m = 0" if "WriteWaits \<notin> set ts" "WriteWoken \<notin> set ts"
    using I that uint_zero_iff [of "mPendingWriterCount m" 0] by (simp add: rw_inv_def z)
  then show ?thesis using I m c unfolding z by (auto simp: rw_inv_def writelock_try_def readlock_try_def)
qed

theorem rw_no_lost_wakeup_witness:
  "rw_reach 2 (\<lparr>mReaderCount = 0, mWriterHasLock = False, mPendingWriterCount = 1\<rparr>, [Idle, WriteWoken]) \<and>
    fst (writelock_try \<lparr>mReaderCount = 0, mWriterHasLock = False, mPendingWriterCount = 1\<rparr>)"
proof -
  let ?m = "\<lambda>h p. \<lparr>mReaderCount = 0, mWriterHasLock = h, mPendingWriterCount = p\<rparr>"
  have 1: "rw_step (RWMutex_new, [Idle, Idle]) (?m True 0, [Idle, Idle][0 := if True then Writes else WriteWaits])"
    by (rule enter_write) (simp_all add: writelock_def writelock_try_def RWMutex_new_def)
  have 2: "rw_step (?m True 0, [Writes, Idle]) (?m True 1, [Writes, Idle][1 := if False then Writes else WriteWaits])"
    by (rule enter_write) (simp_all add: writelock_def writelock_try_def)
  have 3: "rw_step (?m True 1, [Writes, WriteWaits]) (?m False 1, [Writes, WriteWaits][0 := Idle, 1 := WriteWoken])"
    by (rule unlock_signal) (simp_all add: rw_unlock_def)
  have r: "rw_reach 2 (?m False 1, [Idle, WriteWoken])"
    using 1 2 3 unfolding rw_reach_def by (simp add: numeral_2_eq_2)
  then show ?thesis using rw_no_lost_wakeup [OF r] by simp
qed

end
