(* ===== verification/TBuffer.thy ===== *)
theory TBuffer
  imports CStr
begin

text \<open>
  The ring buffer \<open>TBuffer\<close> of the sockets (\<open>include/comserv/unibuffer.h\<close>). Pointers into the buffer are
  offsets. The two functions of the master that move bytes are arguments: given the bytes it is offered,
  \<open>pop\<close> tells how many it has taken, and \<open>push\<close>, given what it is to store and the room for it,
  how many it has stored; \<open>TBufferMaster\<close> moves all of them. An access outside the buffer, and a \<open>memcpy\<close> between overlapping regions, is
  \<open>None\<close>.

  With a master that makes progress the buffer is a bounded queue of bytes; \<open>rearrange\<close> keeps its
  contents when its copies do not overlap.
\<close>

section \<open>State\<close>

record tbuffer =
  msgBuf :: "CHAR8 list"
  pBufHead :: nat
  pBufTail :: nat
  m_filledLength :: nat
  m_freeLength :: nat

definition TBuffer_new :: "CHAR8 list \<Rightarrow> tbuffer" where
  "TBuffer_new junk = \<lparr>msgBuf = junk, pBufHead = 0, pBufTail = 0, m_filledLength = 0, m_freeLength = length junk\<rparr>"

definition tb_reset :: "tbuffer \<Rightarrow> tbuffer" where
  "tb_reset b = b\<lparr>m_freeLength := length (msgBuf b), m_filledLength := 0, pBufHead := 0, pBufTail := 0\<rparr>"

definition pop_all :: "CHAR8 list \<Rightarrow> int" where
  "pop_all bs = int (length bs)"

section \<open>Memory\<close>

definition region :: "nat \<Rightarrow> nat \<Rightarrow> tbuffer \<Rightarrow> CHAR8 list option" where
  "region p n b = (if p + n \<le> length (msgBuf b) then Some (take n (drop p (msgBuf b))) else None)"

definition put_region :: "nat \<Rightarrow> CHAR8 list \<Rightarrow> tbuffer \<Rightarrow> tbuffer option" where
  "put_region p bs b = (if p + length bs \<le> length (msgBuf b)
     then Some (b\<lparr>msgBuf := take p (msgBuf b) @ bs @ drop (p + length bs) (msgBuf b)\<rparr>) else None)"

definition memmove :: "nat \<Rightarrow> nat \<Rightarrow> nat \<Rightarrow> tbuffer \<Rightarrow> tbuffer option" where
  "memmove dst src n b = do { bs \<leftarrow> region src n b; put_region dst bs b }"

definition memcpy :: "nat \<Rightarrow> nat \<Rightarrow> nat \<Rightarrow> tbuffer \<Rightarrow> tbuffer option" where
  "memcpy dst src n b = (if n = 0 \<or> dst + n \<le> src \<or> src + n \<le> dst then memmove dst src n b else None)"

section \<open>Reading\<close>

definition take_head :: "int \<Rightarrow> nat \<Rightarrow> tbuffer \<Rightarrow> tbuffer" where
  "take_head ret n b = (if 0 < ret \<and> ret \<le> int n then b\<lparr>pBufHead := pBufHead b + nat ret, m_filledLength := m_filledLength b - nat ret,
     m_freeLength := m_freeLength b + nat ret\<rparr> else b)"

definition read_at_head :: "(CHAR8 list \<Rightarrow> int) \<Rightarrow> nat \<Rightarrow> tbuffer \<Rightarrow> (int \<times> CHAR8 list \<times> tbuffer) option" where
  "read_at_head pop n b = do {
     bs \<leftarrow> region (pBufHead b) n b;
     let ret = pop bs;
     Some (ret, take (nat ret) bs, take_head ret n b) }"

text \<open>The bytes at the end of the buffer, then those at its start.\<close>

definition read_around :: "(CHAR8 list \<Rightarrow> int) \<Rightarrow> nat \<Rightarrow> nat \<Rightarrow> tbuffer \<Rightarrow> (int \<times> CHAR8 list \<times> tbuffer) option" where
  "read_around pop first rest b = do {
     bs \<leftarrow> region (pBufHead b) first b;
     let ret = pop bs;
     if ret = int first then do {
       cs \<leftarrow> region 0 rest b;
       let ret2 = pop cs;
       Some (if 0 < ret2 \<and> ret2 \<le> int rest
         then (ret + ret2, bs @ take (nat ret2) cs, b\<lparr>pBufHead := nat ret2, m_filledLength := m_filledLength b - nat (ret + ret2),
           m_freeLength := m_freeLength b + nat (ret + ret2)\<rparr>)
         else (ret, bs, b)) }
     else Some (ret, take (nat ret) bs, take_head ret first b) }"

definition readFromBuffer :: "(CHAR8 list \<Rightarrow> int) \<Rightarrow> int \<Rightarrow> tbuffer \<Rightarrow> (int \<times> CHAR8 list \<times> tbuffer) option" where
  "readFromBuffer pop len b = (if len \<le> 0 then Some (len, [], b)
     else if m_filledLength b = 0 then Some (0, [], b)
     else do {
       let n = (if len \<le> int (m_filledLength b) then nat len else m_filledLength b);
       let first = length (msgBuf b) - pBufHead b;
       (ret, out, b) \<leftarrow> (if pBufHead b < pBufTail b then read_at_head pop n b
          else if n \<le> first then read_at_head pop n b
          else read_around pop first (n - first) b);
       Some (ret, out, if m_filledLength b = 0 then b\<lparr>pBufHead := 0, pBufTail := 0\<rparr> else b) })"

section \<open>Writing\<close>

definition put_tail :: "int \<Rightarrow> nat \<Rightarrow> tbuffer \<Rightarrow> tbuffer" where
  "put_tail ret n b = (if 0 < ret \<and> ret \<le> int n then b\<lparr>pBufTail := pBufTail b + nat ret, m_filledLength := m_filledLength b + nat ret,
     m_freeLength := m_freeLength b - nat ret\<rparr> else b)"

text \<open>The master stores what it takes of the bytes it is offered.\<close>

definition write_at_tail :: "(CHAR8 list \<Rightarrow> int) \<Rightarrow> CHAR8 list \<Rightarrow> tbuffer \<Rightarrow> (int \<times> tbuffer) option" where
  "write_at_tail push bs b = do {
     let ret = push bs;
     b \<leftarrow> put_region (pBufTail b) (take (nat ret) bs) b;
     Some (ret, put_tail ret (length bs) b) }"

definition write_around :: "(CHAR8 list \<Rightarrow> int) \<Rightarrow> CHAR8 list \<Rightarrow> CHAR8 list \<Rightarrow> tbuffer \<Rightarrow> (int \<times> tbuffer) option" where
  "write_around push bs cs b = do {
     let ret = push bs;
     b \<leftarrow> put_region (pBufTail b) (take (nat ret) bs) b;
     if ret = int (length bs) then do {
       let ret2 = push cs;
       b \<leftarrow> put_region 0 (take (nat ret2) cs) b;
       Some (if 0 < ret2 \<and> ret2 \<le> int (length cs)
         then (ret + ret2, b\<lparr>pBufTail := nat ret2, m_filledLength := m_filledLength b + nat (ret + ret2),
           m_freeLength := m_freeLength b - nat (ret + ret2)\<rparr>)
         else (ret, b)) }
     else Some (ret, put_tail ret (length bs) b) }"

definition writeIntoBuffer :: "(CHAR8 list \<Rightarrow> int) \<Rightarrow> CHAR8 list \<Rightarrow> int \<Rightarrow> tbuffer \<Rightarrow> (int \<times> tbuffer) option" where
  "writeIntoBuffer push src len b = (if len \<le> 0 then Some (len, b)
     else if m_freeLength b = 0 then Some (0, b)
     else do {
       let n = (if len \<le> int (m_freeLength b) then nat len else m_freeLength b);
       let first = length (msgBuf b) - pBufTail b;
       if n > length src then None
       else if pBufHead b > pBufTail b then write_at_tail push (take n src) b
       else if n \<le> first then write_at_tail push (take n src) b
       else write_around push (take first src) (take (n - first) (drop first src)) b })"

section \<open>Rearranging\<close>

definition tb_rearrange :: "tbuffer \<Rightarrow> tbuffer option" where
  "tb_rearrange b = (if pBufHead b = 0 then Some b else do {
     b \<leftarrow> (if pBufHead b < pBufTail b then memcpy 0 (pBufHead b) (m_filledLength b) b
       else (let frontLength = length (msgBuf b) - pBufHead b; endLength = pBufTail b in
         if frontLength \<le> m_freeLength b then do {
           b \<leftarrow> memmove frontLength 0 endLength b;
           memcpy 0 (pBufHead b) frontLength b }
         else do {
           temp \<leftarrow> region 0 endLength b;
           b \<leftarrow> memcpy 0 (pBufHead b) frontLength b;
           put_region frontLength temp b }));
     Some (b\<lparr>pBufHead := 0, pBufTail := m_filledLength b\<rparr>) })"

section \<open>Contents\<close>

definition contents :: "tbuffer \<Rightarrow> CHAR8 list" where
  "contents b = (if m_filledLength b = 0 then []
     else if pBufHead b < pBufTail b then take (pBufTail b - pBufHead b) (drop (pBufHead b) (msgBuf b))
     else drop (pBufHead b) (msgBuf b) @ take (pBufTail b) (msgBuf b))"

definition tb_inv :: "tbuffer \<Rightarrow> bool" where
  "tb_inv b = (pBufHead b \<le> length (msgBuf b) \<and> pBufTail b \<le> length (msgBuf b) \<and>
     m_filledLength b + m_freeLength b = length (msgBuf b) \<and> m_filledLength b = length (contents b) \<and>
     (m_filledLength b = 0 \<longrightarrow> pBufHead b = 0 \<and> pBufTail b = 0))"

text \<open>A master that makes progress.\<close>

definition busy :: "(CHAR8 list \<Rightarrow> int) \<Rightarrow> bool" where
  "busy f = (\<forall>bs. (bs = [] \<longrightarrow> f bs = 0) \<and> (bs \<noteq> [] \<longrightarrow> 0 < f bs \<and> f bs \<le> int (length bs)))"

lemma busy_pop_all: "busy pop_all"
  by (simp add: busy_def pop_all_def)

lemma busyD:
  assumes "busy f"
  shows "\<exists>k. f bs = int k \<and> k \<le> length bs \<and> (bs \<noteq> [] \<longrightarrow> 0 < k)"
proof -
  have "0 \<le> f bs \<and> f bs \<le> int (length bs) \<and> (bs \<noteq> [] \<longrightarrow> 0 < f bs)" using spec [OF assms [unfolded busy_def], of bs] by auto
  then show ?thesis by (intro exI [of _ "nat (f bs)"]) auto
qed

lemma filled_eq:
  assumes "tb_inv b" "0 < m_filledLength b"
  shows "m_filledLength b = (if pBufHead b < pBufTail b then pBufTail b - pBufHead b else length (msgBuf b) - pBufHead b + pBufTail b)"
  using assms unfolding tb_inv_def contents_def by (auto split: if_splits)

section \<open>Reading takes from the front\<close>

text \<open>The state after \<open>k\<close> bytes have been taken, before the pointers of an empty buffer are reset.\<close>

definition settle :: "tbuffer \<Rightarrow> tbuffer" where
  "settle b = (if m_filledLength b = 0 then b\<lparr>pBufHead := 0, pBufTail := 0\<rparr> else b)"

lemma settle_ok:
  assumes "m_filledLength b' = m_filledLength b - k" "m_freeLength b' = m_freeLength b + k" "msgBuf b' = msgBuf b" "tb_inv b" "k \<le> m_filledLength b"
    "k < m_filledLength b \<Longrightarrow> contents b' = drop k (contents b) \<and> pBufHead b' \<le> length (msgBuf b) \<and> pBufTail b' \<le> length (msgBuf b)"
  shows "contents (settle b') = drop k (contents b) \<and> tb_inv (settle b') \<and> msgBuf (settle b') = msgBuf b"
proof (cases "k = m_filledLength b")
  case True
  have "contents (settle b') = []" "settle b' = b'\<lparr>pBufHead := 0, pBufTail := 0\<rparr>" using assms(1) True by (simp_all add: settle_def contents_def)
  moreover have "k = length (contents b)" using assms(4) True by (simp add: tb_inv_def)
  ultimately show ?thesis using assms True by (simp add: tb_inv_def)
next
  case False
  then have k: "k < m_filledLength b" using assms(5) by simp
  then have "settle b' = b'" using assms(1) by (simp add: settle_def)
  then show ?thesis using assms k by (simp add: tb_inv_def)
qed

lemma read_at_head_ok:
  assumes I: "tb_inv b" and n: "0 < n" "n \<le> m_filledLength b" "pBufHead b < pBufTail b \<or> n \<le> length (msgBuf b) - pBufHead b" and f: "busy pop"
  shows "\<exists>k b'. read_at_head pop n b = Some (int k, take k (contents b), b') \<and> 0 < k \<and> k \<le> n \<and>
    contents (settle b') = drop k (contents b) \<and> tb_inv (settle b') \<and> msgBuf (settle b') = msgBuf b"
proof -
  have fl: "m_filledLength b = (if pBufHead b < pBufTail b then pBufTail b - pBufHead b else length (msgBuf b) - pBufHead b + pBufTail b)"
    using filled_eq [OF I] n by simp
  have le: "pBufHead b \<le> length (msgBuf b)" "pBufTail b \<le> length (msgBuf b)" using I by (simp_all add: tb_inv_def)
  have r: "pBufHead b + n \<le> length (msgBuf b)" using fl n le by (auto split: if_splits)
  have c: "take n (drop (pBufHead b) (msgBuf b)) = take n (contents b)"
    using fl n r le by (auto simp: contents_def min_def split: if_splits)
  obtain k where k: "pop (take n (contents b)) = int k" "k \<le> length (take n (contents b))" "take n (contents b) \<noteq> [] \<Longrightarrow> 0 < k" using busyD [OF f] by blast
  have len: "length (contents b) = m_filledLength b" using I by (simp add: tb_inv_def)
  then have "take n (contents b) \<noteq> []" using n(1,2) by auto
  then have k': "0 < k" "k \<le> n" using k(2,3) by auto
  define b' where "b' = b\<lparr>pBufHead := pBufHead b + k, m_filledLength := m_filledLength b - k, m_freeLength := m_freeLength b + k\<rparr>"
  have "contents b' = drop k (contents b)" if "k < m_filledLength b"
    using that fl k' n le r by (auto simp: contents_def b'_def drop_take add.commute split: if_splits)
  then have S: "contents (settle b') = drop k (contents b) \<and> tb_inv (settle b') \<and> msgBuf (settle b') = msgBuf b"
    by (intro settle_ok) (use I k' n r le in \<open>simp_all add: b'_def\<close>)
  have "read_at_head pop n b = Some (int k, take k (contents b), b')"
    using r k(1) k' by (simp add: read_at_head_def region_def c take_head_def b'_def min_def)
  then show ?thesis using S k' by blast
qed


lemma read_around_ok:
  assumes I: "tb_inv b" and n: "n \<le> m_filledLength b" "\<not> pBufHead b < pBufTail b" "length (msgBuf b) - pBufHead b < n" and f: "busy pop"
  shows "\<exists>k b'. read_around pop (length (msgBuf b) - pBufHead b) (n - (length (msgBuf b) - pBufHead b)) b = Some (int k, take k (contents b), b') \<and>
    0 < k \<and> k \<le> n \<and> contents (settle b') = drop k (contents b) \<and> tb_inv (settle b') \<and> msgBuf (settle b') = msgBuf b"
proof -
  define s where "s = length (msgBuf b) - pBufHead b"
  have pos: "0 < m_filledLength b" using n by simp
  have fl: "m_filledLength b = s + pBufTail b" using filled_eq [OF I pos] n(2) by (simp add: s_def)
  have le: "pBufHead b \<le> length (msgBuf b)" "pBufTail b \<le> length (msgBuf b)" using I by (simp_all add: tb_inv_def)
  have c: "contents b = drop (pBufHead b) (msgBuf b) @ take (pBufTail b) (msgBuf b)" using pos n(2) by (simp add: contents_def)
  have r1: "region (pBufHead b) s b = Some (drop (pBufHead b) (msgBuf b))" using le by (simp add: region_def s_def)
  have r2: "region 0 (n - s) b = Some (take (n - s) (msgBuf b))" using fl n(1) le by (simp add: region_def)
  obtain k where k: "pop (drop (pBufHead b) (msgBuf b)) = int k" "k \<le> s" "0 < s \<Longrightarrow> 0 < k"
    using busyD [OF f, of "drop (pBufHead b) (msgBuf b)"] by (auto simp: s_def)
  show ?thesis
  proof (cases "k = s")
    case True
    have ne: "take (n - s) (msgBuf b) \<noteq> []" using n(3) fl n(1) le by (auto simp: s_def)
    obtain j where j: "pop (take (n - s) (msgBuf b)) = int j" "j \<le> n - s" "0 < j"
      using busyD [OF f, of "take (n - s) (msgBuf b)"] ne by auto
    define b' where "b' = b\<lparr>pBufHead := j, m_filledLength := m_filledLength b - (s + j), m_freeLength := m_freeLength b + (s + j)\<rparr>"
    have ji: "int j \<le> int n - int s" using j(2) n(3) by (simp add: s_def)
    have jt: "j \<le> pBufTail b" using j(2) fl n(1) by simp
    have "contents b' = drop (s + j) (contents b)" if "s + j < m_filledLength b"
    proof -
      have "contents b' = take (pBufTail b - j) (drop j (msgBuf b))" using that fl by (simp add: contents_def b'_def)
      then show ?thesis unfolding c by (simp add: s_def drop_take)
    qed
    then have S: "contents (settle b') = drop (s + j) (contents b) \<and> tb_inv (settle b') \<and> msgBuf (settle b') = msgBuf b"
      by (intro settle_ok) (use I fl j jt le in \<open>simp_all add: b'_def\<close>)
    have t: "drop (pBufHead b) (msgBuf b) @ take j (take (n - s) (msgBuf b)) = take (s + j) (contents b)"
      using j(2) jt by (simp add: c s_def min_def)
    have "read_around pop s (n - s) b = Some (int (s + j), take (s + j) (contents b), b')"
      using k(1) True j ji by (simp add: read_around_def r1 r2 t [symmetric] b'_def nat_int_add Let_def min_def)
    then show ?thesis using S j n(3) unfolding s_def [symmetric] by (intro exI [of _ "s + j"] exI [of _ b']) auto
  next
    case False
    then have ks: "k < s" "0 < k" using k by auto
    then have tk: "take k (drop (pBufHead b) (msgBuf b)) = take k (contents b)" by (simp add: c s_def)
    define b' where "b' = b\<lparr>pBufHead := pBufHead b + k, m_filledLength := m_filledLength b - k, m_freeLength := m_freeLength b + k\<rparr>"
    have "contents b' = drop k (contents b)" if "k < m_filledLength b"
    proof -
      have "contents b' = drop (pBufHead b + k) (msgBuf b) @ take (pBufTail b) (msgBuf b)" using that n(2) by (simp add: contents_def b'_def)
      then show ?thesis unfolding c using ks by (simp add: s_def add.commute)
    qed
    then have S: "contents (settle b') = drop k (contents b) \<and> tb_inv (settle b') \<and> msgBuf (settle b') = msgBuf b"
      by (intro settle_ok) (use I fl ks le in \<open>auto simp: b'_def s_def\<close>)
    have "read_around pop s (n - s) b = Some (int k, take k (contents b), b')"
      using k(1) ks tk by (simp add: read_around_def r1 take_head_def b'_def Let_def)
    then show ?thesis using S ks n(3) unfolding s_def [symmetric] by (intro exI [of _ k] exI [of _ b']) auto
  qed
qed

lemma read_ok:
  assumes I: "tb_inv b" and f: "busy pop"
  shows "\<exists>r k b'. readFromBuffer pop len b = Some (r, take k (contents b), b') \<and> contents b' = drop k (contents b) \<and> tb_inv b' \<and> msgBuf b' = msgBuf b \<and>
    (if 0 < len \<and> contents b \<noteq> [] then r = int k \<and> 0 < k \<and> k \<le> nat len else k = 0)"
proof (cases "0 < len \<and> contents b \<noteq> []")
  case False
  then have "len \<le> 0 \<or> m_filledLength b = 0" using I by (auto simp: tb_inv_def)
  then show ?thesis using I False by (auto simp: readFromBuffer_def)
next
  case True
  define n where "n = (if len \<le> int (m_filledLength b) then nat len else m_filledLength b)"
  have fl: "0 < m_filledLength b" using True I by (simp add: tb_inv_def)
  have n: "0 < n" "n \<le> m_filledLength b" "n \<le> nat len" using True fl by (auto simp: n_def)
  define first where "first = length (msgBuf b) - pBufHead b"
  obtain k b' where k: "(if pBufHead b < pBufTail b then read_at_head pop n b else if n \<le> first then read_at_head pop n b
      else read_around pop first (n - first) b) = Some (int k, take k (contents b), b')" "0 < k" "k \<le> n"
    "contents (settle b') = drop k (contents b)" "tb_inv (settle b')" "msgBuf (settle b') = msgBuf b"
    using read_at_head_ok [OF I n(1,2) _ f] read_around_ok [OF I n(2) _ _ f] unfolding first_def by (metis not_le)
  then have "readFromBuffer pop len b = Some (int k, take k (contents b), settle b')"
    using True fl by (simp add: readFromBuffer_def n_def [symmetric] first_def [symmetric] settle_def Let_def)
  then show ?thesis using k n True by (intro exI [of _ "int k"] exI [of _ k] exI [of _ "settle b'"]) auto
qed


section \<open>Writing appends\<close>

lemma put_region_ok:
  assumes "p + length bs \<le> length (msgBuf b)"
  shows "\<exists>mem. put_region p bs b = Some (b\<lparr>msgBuf := mem\<rparr>) \<and> length mem = length (msgBuf b) \<and> take (length bs) (drop p mem) = bs \<and>
    (\<forall>q \<le> p. take q mem = take q (msgBuf b)) \<and> (\<forall>q \<ge> p + length bs. drop q mem = drop q (msgBuf b))"
  using assms by (intro exI [of _ "take p (msgBuf b) @ bs @ drop (p + length bs) (msgBuf b)"]) (auto simp: put_region_def min_def)

text \<open>The counters after \<open>k\<close> bytes have been added.\<close>

lemma grown:
  assumes "tb_inv b" "k \<le> m_freeLength b" "0 < k" "length (msgBuf b') = length (msgBuf b)" "m_filledLength b' = m_filledLength b + k"
    "m_freeLength b' = m_freeLength b - k" "pBufHead b' \<le> length (msgBuf b)" "pBufTail b' \<le> length (msgBuf b)" "contents b' = contents b @ bs" "length bs = k"
  shows "tb_inv b'"
  using assms by (simp add: tb_inv_def)

lemma write_at_tail_ok:
  assumes I: "tb_inv b" and n: "bs \<noteq> []" "length bs \<le> m_freeLength b" "pBufTail b < pBufHead b \<or> length bs \<le> length (msgBuf b) - pBufTail b" and f: "busy push"
  shows "\<exists>k b'. write_at_tail push bs b = Some (int k, b') \<and> 0 < k \<and> k \<le> length bs \<and> contents b' = contents b @ take k bs \<and> tb_inv b'"
proof -
  obtain k where k: "push bs = int k" "k \<le> length bs" "0 < k" using busyD [OF f, of bs] n(1) by auto
  have le: "pBufHead b \<le> length (msgBuf b)" "pBufTail b \<le> length (msgBuf b)" "m_filledLength b + m_freeLength b = length (msgBuf b)" using I by (simp_all add: tb_inv_def)
  have shape: "m_filledLength b = 0 \<and> pBufHead b = 0 \<and> pBufTail b = 0 \<or> 0 < m_filledLength b \<and> pBufHead b < pBufTail b \<or>
    0 < m_filledLength b \<and> pBufTail b < pBufHead b \<and> k \<le> pBufHead b - pBufTail b"
    using filled_eq [OF I] I n k le unfolding tb_inv_def by (cases "m_filledLength b = 0") (auto split: if_splits)
  have r: "pBufTail b + k \<le> length (msgBuf b)" using shape n(3) k(2) le by auto
  have lk: "length (take k bs) = k" using k(2) by simp
  obtain mem where mem: "put_region (pBufTail b) (take k bs) b = Some (b\<lparr>msgBuf := mem\<rparr>)" "length mem = length (msgBuf b)"
    "take k (drop (pBufTail b) mem) = take k bs" "\<forall>q \<le> pBufTail b. take q mem = take q (msgBuf b)" "\<forall>q \<ge> pBufTail b + k. drop q mem = drop q (msgBuf b)"
    using put_region_ok [of "pBufTail b" "take k bs" b, unfolded lk] r by blast
  define b' where "b' = b\<lparr>msgBuf := mem, pBufTail := pBufTail b + k, m_filledLength := m_filledLength b + k, m_freeLength := m_freeLength b - k\<rparr>"
  have tk: "take (pBufTail b + k) mem = take (pBufTail b) (msgBuf b) @ take k bs" using mem(3,4) by (simp add: take_add)
  have dt: "take (t - h) (drop h xs) = drop h (take t xs)" for t h and xs :: "CHAR8 list" by (simp add: drop_take)
  have C: "contents b' = contents b @ take k bs"
    using shape tk mem(2,5) k(3) le unfolding contents_def b'_def dt by (auto simp: dt)
  have "tb_inv b'" by (rule grown [OF I _ k(3) _ _ _ _ _ C]) (use n(2) k r le mem(2) in \<open>simp_all add: b'_def\<close>)
  moreover have "write_at_tail push bs b = Some (int k, b')" using k mem(1) by (simp add: write_at_tail_def put_tail_def b'_def)
  ultimately show ?thesis using C k by blast
qed


lemma write_around_ok:
  assumes I: "tb_inv b" and n: "cs \<noteq> []" "length bs = length (msgBuf b) - pBufTail b" "length bs + length cs \<le> m_freeLength b" "pBufHead b \<le> pBufTail b" and f: "busy push"
  shows "\<exists>k b'. write_around push bs cs b = Some (int k, b') \<and> 0 < k \<and> k \<le> length (bs @ cs) \<and> contents b' = contents b @ take k (bs @ cs) \<and> tb_inv b'"
proof -
  have le: "pBufHead b \<le> length (msgBuf b)" "pBufTail b \<le> length (msgBuf b)" "m_filledLength b + m_freeLength b = length (msgBuf b)" using I by (simp_all add: tb_inv_def)
  have pos: "0 < m_filledLength b" using I n le by (cases "m_filledLength b = 0") (auto simp: tb_inv_def)
  have free: "0 < m_freeLength b" using n(1,3) by (metis length_greater_0_conv add_gr_0 order.strict_trans2)
  have ht: "pBufHead b < pBufTail b" "m_filledLength b = pBufTail b - pBufHead b" using filled_eq [OF I pos] free n(4) le by (auto split: if_splits)
  have c: "contents b = take (pBufTail b - pBufHead b) (drop (pBufHead b) (msgBuf b))" using pos ht by (simp add: contents_def)
  obtain k where k: "push bs = int k" "k \<le> length bs" "bs \<noteq> [] \<longrightarrow> 0 < k" using busyD [OF f, of bs] by auto
  show ?thesis
  proof (cases "k = length bs")
    case False
    then have kb: "k < length bs" "bs \<noteq> []" using k by auto
    have "length bs \<le> m_freeLength b" "length bs \<le> length (msgBuf b) - pBufTail b" using n by simp_all
    then obtain k1 b' where b1: "write_at_tail push bs b = Some (int k1, b')" "0 < k1" "contents b' = contents b @ take k1 bs" "tb_inv b'"
      using write_at_tail_ok [OF I kb(2) _ _ f] by blast
    moreover have "k1 = k" using b1(1) k(1) by (auto simp: write_at_tail_def bind_eq_Some_conv Let_def)
    ultimately have b': "write_at_tail push bs b = Some (int k, b')" "0 < k" "contents b' = contents b @ take k bs" "tb_inv b'" by simp_all
    have "write_around push bs cs b = write_at_tail push bs b" using k(1) kb by (simp add: write_around_def write_at_tail_def)
    then show ?thesis using b' kb by auto
  next
    case True
    obtain j where j: "push cs = int j" "j \<le> length cs" "0 < j" using busyD [OF f, of cs] n(1) by auto
    have jh: "j \<le> pBufHead b" using j(2) n(2,3) le ht by simp
    have lj: "length (take j cs) = j" using j(2) by simp
    have r1: "pBufTail b + length bs \<le> length (msgBuf b)" using n(2) le by simp
    obtain m1 where m1: "put_region (pBufTail b) bs b = Some (b\<lparr>msgBuf := m1\<rparr>)" "length m1 = length (msgBuf b)" "take (length bs) (drop (pBufTail b) m1) = bs"
      "\<forall>q \<le> pBufTail b. take q m1 = take q (msgBuf b)" using put_region_ok [OF r1] by blast
    obtain m2 where m2: "put_region 0 (take j cs) (b\<lparr>msgBuf := m1\<rparr>) = Some (b\<lparr>msgBuf := m2\<rparr>)" "length m2 = length (msgBuf b)" "take j m2 = take j cs"
      "\<forall>q \<ge> j. drop q m2 = drop q m1" using put_region_ok [of 0 "take j cs" "b\<lparr>msgBuf := m1\<rparr>", unfolded lj] jh le m1(2) by auto
    define b' where "b' = b\<lparr>msgBuf := m2, pBufTail := j, m_filledLength := m_filledLength b + (length bs + j), m_freeLength := m_freeLength b - (length bs + j)\<rparr>"
    have "drop (pBufHead b) m2 = drop (pBufHead b) (take (pBufTail b) m1 @ drop (pBufTail b) m1)" using m2(4) jh by simp
    also have "\<dots> = contents b @ bs" using m1(2-4) n(2) ht le by (simp add: c drop_take min_def)
    finally have C: "contents b' = contents b @ (bs @ take j cs)" using jh pos m2(3) by (simp add: contents_def b'_def)
    have "tb_inv b'" by (rule grown [OF I _ _ _ _ _ _ _ C, where k = "length bs + j"]) (use n(2,3) j jh le m2(2) in \<open>simp_all add: b'_def\<close>)
    moreover have "write_around push bs cs b = Some (int (length bs + j), b')"
      using k(1) True j m1(1) m2(1) by (simp add: write_around_def b'_def nat_int_add Let_def)
    ultimately show ?thesis using C j by (intro exI [of _ "length bs + j"] exI [of _ b']) simp
  qed
qed

lemma write_ok:
  assumes I: "tb_inv b" and f: "busy push" and src: "nat len \<le> length src"
  shows "\<exists>r k b'. writeIntoBuffer push src len b = Some (r, b') \<and> contents b' = contents b @ take k src \<and> tb_inv b' \<and>
    (if 0 < len \<and> 0 < m_freeLength b then r = int k \<and> 0 < k \<and> k \<le> nat len else k = 0)"
proof (cases "0 < len \<and> 0 < m_freeLength b")
  case False
  then show ?thesis using I by (auto simp: writeIntoBuffer_def intro!: exI [of _ "0 :: nat"])
next
  case True
  define n where "n = (if len \<le> int (m_freeLength b) then nat len else m_freeLength b)"
  have n: "0 < n" "n \<le> m_freeLength b" "n \<le> nat len" "n \<le> length src" using True src by (auto simp: n_def)
  define first where "first = length (msgBuf b) - pBufTail b"
  define w where "w = (if pBufHead b > pBufTail b then write_at_tail push (take n src) b else if n \<le> first then write_at_tail push (take n src) b
      else write_around push (take first src) (take (n - first) (drop first src)) b)"
  have ne: "take n src \<noteq> []" "length (take n src) = n" using n by auto
  have at: "\<exists>k b'. write_at_tail push (take n src) b = Some (int k, b') \<and> 0 < k \<and> k \<le> n \<and> contents b' = contents b @ take k src \<and> tb_inv b'"
    if "pBufTail b < pBufHead b \<or> n \<le> first"
    using write_at_tail_ok [OF I ne(1) _ _ f] ne(2) n(2) that unfolding first_def by (fastforce simp: min_def)
  have around: "\<exists>k b'. write_around push (take first src) (take (n - first) (drop first src)) b = Some (int k, b') \<and> 0 < k \<and> k \<le> n \<and> contents b' = contents b @ take k src \<and> tb_inv b'"
    if "\<not> pBufTail b < pBufHead b" "\<not> n \<le> first"
  proof -
    have cat: "take first src @ take (n - first) (drop first src) = take n src" using that by (metis le_add_diff_inverse nat_le_linear take_add)
    have "take (n - first) (drop first src) \<noteq> []" "length (take first src) = length (msgBuf b) - pBufTail b"
      "length (take first src) + length (take (n - first) (drop first src)) \<le> m_freeLength b"
      using that n by (auto simp: first_def)
    from write_around_ok [OF I this _ f, unfolded cat] that(1) ne(2) show ?thesis by (fastforce simp: min_def)
  qed
  obtain k b' where k: "w = Some (int k, b')" "0 < k" "k \<le> n" "contents b' = contents b @ take k src" "tb_inv b'"
    using at around unfolding w_def by (metis (full_types))
  have "writeIntoBuffer push src len b = w" using True n(4) by (simp add: writeIntoBuffer_def n_def [symmetric] first_def [symmetric] w_def Let_def)
  then show ?thesis using k n(3) True by (intro exI [of _ "int k"] exI [of _ k] exI [of _ b']) simp
qed


section \<open>Rearranging\<close>

lemma memmove_ok:
  assumes "src + n \<le> length (msgBuf b)" "dst + n \<le> length (msgBuf b)"
  shows "\<exists>mem. memmove dst src n b = Some (b\<lparr>msgBuf := mem\<rparr>) \<and> length mem = length (msgBuf b) \<and> take n (drop dst mem) = take n (drop src (msgBuf b)) \<and>
    (\<forall>q \<le> dst. take q mem = take q (msgBuf b)) \<and> (\<forall>q \<ge> dst + n. drop q mem = drop q (msgBuf b))"
proof -
  have l: "length (take n (drop src (msgBuf b))) = n" using assms by simp
  show ?thesis using put_region_ok [of dst "take n (drop src (msgBuf b))" b, unfolded l] assms by (simp add: memmove_def region_def)
qed

lemma memcpy_memmove: "memcpy dst src n b = Some b' \<Longrightarrow> memmove dst src n b = Some b'"
  by (simp add: memcpy_def split: if_splits)

text \<open>The bytes end up at the start of the buffer.\<close>

lemma rearrange_front:
  assumes I: "tb_inv b" and r: "tb_rearrange b = Some b'" and h: "0 < pBufHead b"
  shows "\<exists>mem. b' = b\<lparr>msgBuf := mem, pBufHead := 0, pBufTail := m_filledLength b\<rparr> \<and> take (m_filledLength b) mem = contents b \<and> length mem = length (msgBuf b)"
proof -
  have pos: "0 < m_filledLength b" using h I by (auto simp: tb_inv_def)
  have le: "pBufHead b \<le> length (msgBuf b)" "pBufTail b \<le> length (msgBuf b)" "m_filledLength b + m_freeLength b = length (msgBuf b)"
    using I by (simp_all add: tb_inv_def)
  note fl = filled_eq [OF I pos]
  show ?thesis
  proof (cases "pBufHead b < pBufTail b")
    case True
    have "pBufHead b + m_filledLength b \<le> length (msgBuf b)" "0 + m_filledLength b \<le> length (msgBuf b)" using fl True le by auto
    from memmove_ok [OF this] obtain mem where m: "memmove 0 (pBufHead b) (m_filledLength b) b = Some (b\<lparr>msgBuf := mem\<rparr>)" "length mem = length (msgBuf b)"
      "take (m_filledLength b) mem = take (m_filledLength b) (drop (pBufHead b) (msgBuf b))" by auto
    have "b' = b\<lparr>msgBuf := mem, pBufHead := 0, pBufTail := m_filledLength b\<rparr>"
      using r h True m(1) by (auto simp: tb_rearrange_def bind_eq_Some_conv dest!: memcpy_memmove)
    then show ?thesis using m(2,3) True pos fl by (auto simp: contents_def)
  next
    case False
    define fr where "fr = length (msgBuf b) - pBufHead b"
    have f: "m_filledLength b = fr + pBufTail b" using fl False by (simp add: fr_def)
    have c: "contents b = drop (pBufHead b) (msgBuf b) @ take (pBufTail b) (msgBuf b)" using pos False by (simp add: contents_def)
    have fin: "take (m_filledLength b) mem = contents b" if "take fr mem = drop (pBufHead b) (msgBuf b)" "take (pBufTail b) (drop fr mem) = take (pBufTail b) (msgBuf b)" for mem
      using that by (simp add: f take_add c)
    have fh: "take fr (drop (pBufHead b) xs) = drop (pBufHead b) xs" if "length xs = length (msgBuf b)" for xs :: "CHAR8 list"
      using that by (simp add: fr_def)
    show ?thesis
    proof (cases "fr \<le> m_freeLength b")
      case True
      have "0 + pBufTail b \<le> length (msgBuf b)" "fr + pBufTail b \<le> length (msgBuf b)" using f le by simp_all
      from memmove_ok [OF this] obtain m1 where m1: "memmove fr 0 (pBufTail b) b = Some (b\<lparr>msgBuf := m1\<rparr>)" "length m1 = length (msgBuf b)"
        "take (pBufTail b) (drop fr m1) = take (pBufTail b) (msgBuf b)" "\<forall>q \<ge> fr + pBufTail b. drop q m1 = drop q (msgBuf b)" by auto
      have "pBufHead b + fr \<le> length (msgBuf (b\<lparr>msgBuf := m1\<rparr>))" "0 + fr \<le> length (msgBuf (b\<lparr>msgBuf := m1\<rparr>))" using le m1(2) by (simp_all add: fr_def)
      from memmove_ok [OF this] obtain m2 where m2: "memmove 0 (pBufHead b) fr (b\<lparr>msgBuf := m1\<rparr>) = Some (b\<lparr>msgBuf := m2\<rparr>)" "length m2 = length (msgBuf b)"
        "take fr m2 = take fr (drop (pBufHead b) m1)" "\<forall>q \<ge> fr. drop q m2 = drop q m1" using m1(2) by auto
      have "fr + pBufTail b \<le> pBufHead b" using True f le by (simp add: fr_def)
      then have "take (m_filledLength b) m2 = contents b" using m1 m2 fh [OF m1(2)] by (intro fin) simp_all
      moreover have "b' = b\<lparr>msgBuf := m2, pBufHead := 0, pBufTail := m_filledLength b\<rparr>"
        using r h False True m1(1) m2(1) by (auto simp: tb_rearrange_def fr_def [symmetric] bind_eq_Some_conv Let_def dest!: memcpy_memmove)
      ultimately show ?thesis using m2(2) by blast
    next
      case nofit: False
      have "pBufHead b + fr \<le> length (msgBuf b)" "0 + fr \<le> length (msgBuf b)" using le by (simp_all add: fr_def)
      from memmove_ok [OF this] obtain m1 where m1: "memmove 0 (pBufHead b) fr b = Some (b\<lparr>msgBuf := m1\<rparr>)" "length m1 = length (msgBuf b)"
        "take fr m1 = take fr (drop (pBufHead b) (msgBuf b))" by auto
      have l: "length (take (pBufTail b) (msgBuf b)) = pBufTail b" using le by simp
      have "fr + pBufTail b \<le> length (msgBuf (b\<lparr>msgBuf := m1\<rparr>))" using f le m1(2) by simp
      from put_region_ok [of fr "take (pBufTail b) (msgBuf b)", unfolded l, OF this] obtain m2 where
        m2: "put_region fr (take (pBufTail b) (msgBuf b)) (b\<lparr>msgBuf := m1\<rparr>) = Some (b\<lparr>msgBuf := m2\<rparr>)" "length m2 = length (msgBuf b)"
        "take (pBufTail b) (drop fr m2) = take (pBufTail b) (msgBuf b)" "\<forall>q \<le> fr. take q m2 = take q m1" using m1(2) by auto
      have "take (m_filledLength b) m2 = contents b" using m1 m2 fh [of "msgBuf b"] by (intro fin) simp_all
      moreover have "b' = b\<lparr>msgBuf := m2, pBufHead := 0, pBufTail := m_filledLength b\<rparr>"
        using r h False nofit m1(1) m2(1) le by (auto simp: tb_rearrange_def fr_def [symmetric] bind_eq_Some_conv Let_def region_def dest!: memcpy_memmove)
      ultimately show ?thesis using m2(2) by blast
    qed
  qed
qed

lemma rearrange_ok:
  assumes I: "tb_inv b" and r: "tb_rearrange b = Some b'"
  shows "contents b' = contents b \<and> tb_inv b' \<and> pBufHead b' = 0"
proof (cases "pBufHead b = 0")
  case True
  then show ?thesis using I r by (simp add: tb_rearrange_def)
next
  case False
  then obtain mem where mem: "b' = b\<lparr>msgBuf := mem, pBufHead := 0, pBufTail := m_filledLength b\<rparr>" "take (m_filledLength b) mem = contents b"
    "length mem = length (msgBuf b)" using rearrange_front [OF I r] by auto
  have "0 < m_filledLength b" "m_filledLength b \<le> length (msgBuf b)" using False I by (auto simp: tb_inv_def)
  then have c: "contents b' = contents b" using mem by (simp add: contents_def)
  then show ?thesis using I mem \<open>m_filledLength b \<le> _\<close> \<open>0 < m_filledLength b\<close> unfolding tb_inv_def c by simp
qed


section \<open>Properties\<close>

datatype tb_op = TbRead "CHAR8 list \<Rightarrow> int" int | TbWrite "CHAR8 list \<Rightarrow> int" "CHAR8 list" int | TbRearrange

text \<open>The bytes the calls accept and those they deliver.\<close>

fun tb_run :: "tb_op list \<Rightarrow> tbuffer \<Rightarrow> (CHAR8 list \<times> CHAR8 list \<times> tbuffer) option" where
  "tb_run [] b = Some ([], [], b)"
| "tb_run (TbRead pop len # ops) b = do {
     (_, out, b) \<leftarrow> readFromBuffer pop len b;
     (w, r, b) \<leftarrow> tb_run ops b;
     Some (w, out @ r, b) }"
| "tb_run (TbWrite push src len # ops) b = do {
     (ret, b) \<leftarrow> writeIntoBuffer push src len b;
     (w, r, b) \<leftarrow> tb_run ops b;
     Some (take (nat ret) src @ w, r, b) }"
| "tb_run (TbRearrange # ops) b = do { b \<leftarrow> tb_rearrange b; tb_run ops b }"

definition tb_op_ok :: "tb_op \<Rightarrow> bool" where
  "tb_op_ok p = (case p of TbRead pop len \<Rightarrow> busy pop | TbWrite push src len \<Rightarrow> busy push \<and> nat len \<le> length src | TbRearrange \<Rightarrow> True)"

lemma write_taken:
  assumes "tb_inv b" "busy push" "nat len \<le> length src"
  shows "\<exists>r b'. writeIntoBuffer push src len b = Some (r, b') \<and> contents b' = contents b @ take (nat r) src \<and> tb_inv b'"
proof -
  obtain r k b' where w: "writeIntoBuffer push src len b = Some (r, b')" "contents b' = contents b @ take k src" "tb_inv b'"
    "if 0 < len \<and> 0 < m_freeLength b then r = int k \<and> 0 < k \<and> k \<le> nat len else k = 0" using write_ok [OF assms] by blast
  have "nat r = k" using w(1,4) by (auto simp: writeIntoBuffer_def split: if_splits)
  then show ?thesis using w by auto
qed

lemma tb_run_order:
  assumes "tb_inv b" "\<forall>p \<in> set ops. tb_op_ok p" "tb_run ops b = Some (w, r, b')"
  shows "contents b @ w = r @ contents b' \<and> tb_inv b'"
  using assms
proof (induction ops b arbitrary: w r b' rule: tb_run.induct)
  case (2 pop len ops b)
  then obtain q k b1 where s: "readFromBuffer pop len b = Some (q, take k (contents b), b1)" "contents b1 = drop k (contents b)" "tb_inv b1"
    using read_ok [of b pop len] by (auto simp: tb_op_ok_def)
  then obtain r1 where r1: "tb_run ops b1 = Some (w, r1, b')" "r = take k (contents b) @ r1" using "2.prems"(3) by (auto simp: bind_eq_Some_conv)
  have "contents b1 @ w = r1 @ contents b' \<and> tb_inv b'" using "2.IH" [OF s(1) _ _ s(3) _ r1(1)] "2.prems"(2) by simp
  then show ?case using s(2) r1(2) by (metis append.assoc append_take_drop_id)
next
  case (3 push src len ops b)
  then obtain q b1 where s: "writeIntoBuffer push src len b = Some (q, b1)" "contents b1 = contents b @ take (nat q) src" "tb_inv b1"
    using write_taken [of b push len src] by (auto simp: tb_op_ok_def)
  then obtain w1 where w1: "tb_run ops b1 = Some (w1, r, b')" "w = take (nat q) src @ w1" using "3.prems"(3) by (auto simp: bind_eq_Some_conv)
  then show ?case using "3.IH" [OF s(1) _ s(3) _ w1(1)] "3.prems"(2) s(2) by simp
next
  case (4 ops b)
  then show ?case using rearrange_ok [of b] by (fastforce simp: bind_eq_Some_conv)
qed simp

text \<open>The buffer itself is never replaced.\<close>

lemma put_region_length: "put_region p bs b = Some b' \<Longrightarrow> length (msgBuf b') = length (msgBuf b)"
  by (auto simp: put_region_def split: if_splits)

lemma put_tail_length [simp]: "msgBuf (put_tail ret n b) = msgBuf b"
  by (simp add: put_tail_def)

lemma write_at_tail_length: "write_at_tail push bs b = Some (r, b') \<Longrightarrow> length (msgBuf b') = length (msgBuf b)"
  unfolding write_at_tail_def Let_def bind_eq_Some_conv using put_region_length by fastforce

lemma write_around_length: "write_around push bs cs b = Some (r, b') \<Longrightarrow> length (msgBuf b') = length (msgBuf b)"
  unfolding write_around_def Let_def bind_eq_Some_conv by (elim exE conjE) (simp add: put_region_length bind_eq_Some_conv split: if_splits, auto dest!: put_region_length)

lemma write_length: "writeIntoBuffer push src len b = Some (r, b') \<Longrightarrow> length (msgBuf b') = length (msgBuf b)"
  unfolding writeIntoBuffer_def Let_def by (simp split: if_splits add: write_at_tail_length write_around_length)

lemma tb_run_length:
  assumes "tb_inv b" "\<forall>p \<in> set ops. tb_op_ok p" "tb_run ops b = Some (w, r, b')"
  shows "length (msgBuf b') = length (msgBuf b)"
  using assms
proof (induction ops b arbitrary: w r b' rule: tb_run.induct)
  case (2 pop len ops b)
  then obtain q k b1 where s: "readFromBuffer pop len b = Some (q, take k (contents b), b1)" "msgBuf b1 = msgBuf b" "tb_inv b1"
    using read_ok [of b pop len] by (auto simp: tb_op_ok_def)
  then obtain r1 where r1: "tb_run ops b1 = Some (w, r1, b')" using "2.prems"(3) by (auto simp: bind_eq_Some_conv)
  then show ?case using "2.IH" [OF s(1) _ _ s(3) _ r1] "2.prems"(2) s(2) by simp
next
  case (3 push src len ops b)
  then obtain q b1 where s: "writeIntoBuffer push src len b = Some (q, b1)" "tb_inv b1"
    using write_taken [of b push len src] by (auto simp: tb_op_ok_def)
  then obtain w1 where w1: "tb_run ops b1 = Some (w1, r, b')" using "3.prems"(3) by (auto simp: bind_eq_Some_conv)
  then show ?case using "3.IH" [OF s(1) _ s(2) _ w1] "3.prems"(2) write_length [OF s(1)] by simp
next
  case (4 ops b)
  then obtain b1 where b1: "tb_rearrange b = Some b1" "tb_run ops b1 = Some (w, r, b')" by (auto simp: bind_eq_Some_conv)
  have "length (msgBuf b1) = length (msgBuf b)" using rearrange_front [OF "4.prems"(1) b1(1)] b1(1) by (cases "pBufHead b = 0") (auto simp: tb_rearrange_def)
  then show ?case using "4.IH" [OF b1(1) _ _ b1(2)] rearrange_ok [OF "4.prems"(1) b1(1)] "4.prems"(2) by simp
qed simp

lemma tb_run_defined:
  assumes "tb_inv b" "\<forall>p \<in> set ops. tb_op_ok p" "TbRearrange \<notin> set ops"
  shows "tb_run ops b \<noteq> None"
  using assms
proof (induction ops b rule: tb_run.induct)
  case (2 pop len ops b)
  then obtain q k b1 where s: "readFromBuffer pop len b = Some (q, take k (contents b), b1)" "tb_inv b1"
    using read_ok [of b pop len] by (auto simp: tb_op_ok_def)
  have "tb_run ops b1 \<noteq> None" using "2.IH" [OF s(1) _ _ s(2)] "2.prems" by simp
  then obtain w r b2 where "tb_run ops b1 = Some (w, r, b2)" by auto
  then show ?case using s(1) by simp
next
  case (3 push src len ops b)
  then obtain q b1 where s: "writeIntoBuffer push src len b = Some (q, b1)" "tb_inv b1"
    using write_taken [of b push len src] by (auto simp: tb_op_ok_def)
  show ?case using "3.IH" [OF s(1) _ s(2)] "3.prems" s(1) by auto
qed simp_all

lemma tb_new: "tb_inv (TBuffer_new junk)" "contents (TBuffer_new junk) = []"
  by (simp_all add: tb_inv_def TBuffer_new_def contents_def)

text \<open>Property C37. The buffer is a bounded queue of bytes, for a master that always makes progress. Whatever
  sequence of reads, writes and rearrangements of whatever lengths is made on a fresh buffer, when the master
  takes or gives at least one byte and at most all bytes each time it is offered some (\<open>busy\<close>) and a write has
  as many bytes as it announces: the bytes accepted are those delivered followed by those that are left, in
  order; the counters agree with them, and they never exceed the size. Without rearrangements no call
  accesses memory outside the buffer. A master that takes nothing, or reports an error, breaks the order:
  \<open>short_read_repeats\<close>.\<close>

theorem tbuffer_in_order:
  assumes "\<forall>p \<in> set ops. tb_op_ok p"
  shows "(TbRearrange \<notin> set ops \<longrightarrow> tb_run ops (TBuffer_new junk) \<noteq> None) \<and>
    (\<forall>w r b. tb_run ops (TBuffer_new junk) = Some (w, r, b) \<longrightarrow> w = r @ contents b \<and> m_filledLength b = length (contents b) \<and>
       m_filledLength b + m_freeLength b = length junk)"
proof (intro conjI impI allI)
  show "tb_run ops (TBuffer_new junk) \<noteq> None" if "TbRearrange \<notin> set ops" using tb_run_defined [OF tb_new(1) assms that] .
next
  fix w r b assume R: "tb_run ops (TBuffer_new junk) = Some (w, r, b)"
  have l: "length (msgBuf b) = length junk" using tb_run_length [OF tb_new(1) assms R] by (simp add: TBuffer_new_def)
  from tb_run_order [OF tb_new(1) assms R]
  show "w = r @ contents b" "m_filledLength b = length (contents b)" "m_filledLength b + m_freeLength b = length junk"
    by (simp_all add: tb_new(2) tb_inv_def l)
qed

theorem tbuffer_in_order_witness:
  "\<exists>b. tb_run [TbWrite pop_all [1, 2, 3] 3, TbRead pop_all 2, TbWrite pop_all [4, 5] 2, TbRead pop_all 9] (TBuffer_new [0, 0, 0]) = Some ([1, 2, 3, 4, 5], [1, 2, 3, 4, 5], b) \<and>
    contents b = []"
proof -
  let ?ops = "[TbWrite pop_all [1, 2, 3] 3, TbRead pop_all 2, TbWrite pop_all [4, 5] 2, TbRead pop_all 9]"
  have ok: "\<forall>p \<in> set ?ops. tb_op_ok p" by (simp add: tb_op_ok_def busy_pop_all)
  obtain b where b: "tb_run ?ops (TBuffer_new [0, 0, 0]) = Some ([1, 2, 3, 4, 5], [1, 2, 3, 4, 5], b)"
    by (simp add: TBuffer_new_def writeIntoBuffer_def write_at_tail_def put_region_def pop_all_def put_tail_def readFromBuffer_def read_at_head_def
        region_def take_head_def write_around_def read_around_def Let_def)
  then have "[1, 2, 3, 4, 5] = [1, 2, 3, 4, 5] @ contents b" using tbuffer_in_order [OF ok, of "[0, 0, 0]"] by blast
  then show ?thesis using b by simp
qed

text \<open>When the master takes the bytes at the end of the buffer and nothing of those at its start, the call
  reports the first ones as read but leaves them in the buffer: the next read delivers them again.\<close>

theorem short_read_repeats:
  assumes "tb_inv b" "\<not> pBufHead b < pBufTail b" "pBufHead b < length (msgBuf b)" "int (length (msgBuf b) - pBufHead b) < len" "len \<le> int (m_filledLength b)"
    "pop (drop (pBufHead b) (msgBuf b)) = int (length (msgBuf b) - pBufHead b)" "pop (take (nat len - (length (msgBuf b) - pBufHead b)) (msgBuf b)) \<le> 0"
  shows "readFromBuffer pop len b = Some (int (length (msgBuf b) - pBufHead b), drop (pBufHead b) (msgBuf b), b)"
proof -
  have "m_filledLength b \<le> length (msgBuf b)" using assms(1) by (simp add: tb_inv_def)
  then have "nat len - (length (msgBuf b) - pBufHead b) \<le> length (msgBuf b)" using assms(5) by linarith
  moreover have "\<not> nat len \<le> length (msgBuf b) - pBufHead b" using assms(4) by linarith
  ultimately show ?thesis using assms by (simp add: readFromBuffer_def read_around_def region_def Let_def)
qed

text \<open>Rearranging copies with \<open>memcpy\<close> between regions that overlap.\<close>

theorem rearrange_overlaps: "tb_rearrange \<lparr>msgBuf = [0, 1, 2, 3], pBufHead = 1, pBufTail = 4, m_filledLength = 3, m_freeLength = 1\<rparr> = None"
  by (simp add: tb_rearrange_def memcpy_def)

end
