(* ===== verification/OfCounter.thy ===== *)
theory OfCounter
  imports Prelude
begin

text \<open>
  The counter with flow control \<open>COverflow\<close> (\<open>include/comserv/ofcounter.h\<close>, \<open>comserv/ofcounter.C\<close>): it counts the
  requests of a second, refuses the rest of a second that exceeds its limit, and restarts slowly after it.

  \<open>int\<close> and \<open>time_t\<close> are integers without bound, which is exact as long as the counter of a second stays below
  \<open>2 ^ 31\<close> requests and six fifths of the limit do; the difference of two times is converted to an \<open>int\<close> of 32 bits. The thresholds
  \<open>int(limit * percent)\<close> are computed without rounding, which gives the value the C++ expression has for every
  limit it is defined for: the products that are integers are exact in \<open>double\<close>, and the others are a tenth away from one.
  \<open>time(0)\<close> is the argument \<open>now\<close>.
\<close>

section \<open>State\<close>

record COverflow =
  m_pre_time :: int
  m_pre_policy :: int
  m_cur_caps :: int
  m_cur_time :: int
  m_max_caps_time :: int
  m_max_caps :: int
  m_caps_limition :: int
  m_pd :: int
  m_pd_limition :: int
  m_start1_limition :: int
  m_start2_limition :: int
  m_cur_limition :: int
  m_flow_control :: bool

record TOverFlowInfo =
  max_caps :: int
  max_caps_time :: int

text \<open>The conversion to \<open>int\<close> drops the fraction.\<close>

definition tenths :: "int \<Rightarrow> int \<Rightarrow> int" where
  "tenths n x = (if 0 \<le> x then (n * x) div 10 else - ((n * - x) div 10))"

definition COverflow_new :: "int \<Rightarrow> int \<Rightarrow> COverflow" where
  "COverflow_new maxCaps now = \<lparr>m_pre_time = now, m_pre_policy = 1, m_cur_caps = 0, m_cur_time = now, m_max_caps_time = 0, m_max_caps = 0,
     m_caps_limition = maxCaps, m_pd = 0, m_pd_limition = tenths 12 maxCaps, m_start1_limition = tenths 3 maxCaps,
     m_start2_limition = tenths 6 maxCaps, m_cur_limition = maxCaps, m_flow_control = False\<rparr>"

definition resetThreshold :: "int \<Rightarrow> COverflow \<Rightarrow> COverflow" where
  "resetThreshold maxCaps c = c\<lparr>m_caps_limition := maxCaps, m_pd_limition := tenths 12 maxCaps, m_start1_limition := tenths 3 maxCaps,
     m_start2_limition := tenths 6 maxCaps, m_cur_limition := maxCaps\<rparr>"

definition getFlowInfo :: "COverflow \<Rightarrow> TOverFlowInfo \<times> COverflow" where
  "getFlowInfo c = (\<lparr>max_caps = m_max_caps c, max_caps_time = m_max_caps_time c\<rparr>, c\<lparr>m_max_caps := 0, m_max_caps_time := 0\<rparr>)"

section \<open>The check\<close>

definition to_int32 :: "int \<Rightarrow> int" where
  "to_int32 x = (x + 2 ^ 31) mod 2 ^ 32 - 2 ^ 31"

text \<open>A further request of the same second.\<close>

definition in_period :: "COverflow \<Rightarrow> bool \<times> COverflow" where
  "in_period c = (let c = c\<lparr>m_cur_caps := m_cur_caps c + 1\<rparr> in
     if m_caps_limition c \<le> 0 then (True, c)
     else if m_flow_control c then (False, c)
     else if m_cur_caps c \<ge> m_cur_limition c \<and> m_cur_caps c < m_pd_limition c
       then (let c = c\<lparr>m_pre_policy := (if m_pre_policy c = 0 then 1 else 0)\<rparr> in (m_pre_policy c \<noteq> 0, c))
     else if m_cur_caps c \<ge> m_pd_limition c then (False, c\<lparr>m_flow_control := True\<rparr>)
     else (True, c))"

text \<open>The stage of the slow start, \<open>i\<close> seconds after the last request.\<close>

definition next_stage :: "int \<Rightarrow> COverflow \<Rightarrow> COverflow" where
  "next_stage i c = (
     if i = 1 then
       if m_flow_control c then c\<lparr>m_pd := 1, m_cur_limition := m_start1_limition c\<rparr>
       else if m_pd c = 1 then c\<lparr>m_pd := 2, m_cur_limition := m_start2_limition c\<rparr>
       else if m_pd c = 2 then c\<lparr>m_pd := 0, m_cur_limition := m_caps_limition c\<rparr>
       else c
     else if i = 2 then
       if m_flow_control c then c\<lparr>m_pd := 2, m_cur_limition := m_start2_limition c\<rparr>
       else if m_pd c \<noteq> 0 then c\<lparr>m_pd := 0, m_cur_limition := m_caps_limition c\<rparr>
       else c
     else if i > 2 then c\<lparr>m_pd := 0, m_cur_limition := m_caps_limition c\<rparr>
     else c)"

definition new_period :: "int \<Rightarrow> COverflow \<Rightarrow> bool \<times> COverflow" where
  "new_period i c = (let
     c = (if m_cur_caps c > m_max_caps c then c\<lparr>m_max_caps_time := m_pre_time c, m_max_caps := m_cur_caps c\<rparr> else c);
     c = c\<lparr>m_cur_caps := 1, m_pre_time := m_cur_time c\<rparr>;
     c = next_stage i c
   in (True, c\<lparr>m_flow_control := False\<rparr>))"

definition checkOverflow :: "int \<Rightarrow> int \<Rightarrow> COverflow \<Rightarrow> bool \<times> COverflow" where
  "checkOverflow currenttime now c = (let
     c = c\<lparr>m_cur_time := (if currenttime \<noteq> 0 then currenttime else now)\<rparr>;
     i = to_int32 (m_cur_time c - m_pre_time c)
   in if i = 0 then in_period c else new_period i c)"

section \<open>Sequences of requests\<close>

text \<open>The requests arrive at the given times.\<close>

fun checks :: "int list \<Rightarrow> COverflow \<Rightarrow> bool list \<times> COverflow" where
  "checks [] c = ([], c)"
| "checks (t # ts) c = (let (r, c) = checkOverflow t t c; (rs, c) = checks ts c in (r # rs, c))"

definition stage_limit :: "int \<Rightarrow> int \<Rightarrow> int" where
  "stage_limit L pd = (if pd = 1 then tenths 3 L else if pd = 2 then tenths 6 L else L)"

definition flow_inv :: "int \<Rightarrow> COverflow \<Rightarrow> bool" where
  "flow_inv L c = (m_caps_limition c = L \<and> m_pd_limition c = tenths 12 L \<and> m_start1_limition c = tenths 3 L \<and> m_start2_limition c = tenths 6 L \<and>
     m_pd c \<in> {0, 1, 2} \<and> m_cur_limition c = stage_limit L (m_pd c) \<and> m_pre_policy c \<in> {0, 1})"

lemma flow_new: "flow_inv L (COverflow_new L now)"
  by (simp add: flow_inv_def COverflow_new_def stage_limit_def)

lemma inv_in_period: "flow_inv L c \<Longrightarrow> flow_inv L (snd (in_period c))"
  by (simp add: flow_inv_def in_period_def Let_def)

lemma inv_new_period: "flow_inv L c \<Longrightarrow> flow_inv L (snd (new_period i c))"
  unfolding flow_inv_def new_period_def next_stage_def Let_def by (auto simp: stage_limit_def)

lemma flow_check: "flow_inv L c \<Longrightarrow> flow_inv L (snd (checkOverflow t now c))"
  unfolding checkOverflow_def Let_def using inv_in_period inv_new_period by (simp add: flow_inv_def)

lemma flow_checks: "flow_inv L c \<Longrightarrow> flow_inv L (snd (checks ts c))"
proof (induction ts arbitrary: c)
  case (Cons t ts)
  then show ?case using flow_check [OF Cons.prems, of t t] by (simp add: case_prod_beta)
qed simp

lemma checks_Cons:
  assumes "checks (t # ts) c = (rs, c')" "checkOverflow t t c = (r, c1)"
  shows "\<exists>rs1. checks ts c1 = (rs1, c') \<and> rs = r # rs1"
  using assms by (cases "checks ts c1") (simp add: Let_def)

lemma to_int32_small [simp]: "- (2 ^ 31) \<le> x \<Longrightarrow> x < 2 ^ 31 \<Longrightarrow> to_int32 x = x"
  by (simp add: to_int32_def)

section \<open>Within a second\<close>

text \<open>Twice the number of requests that can still be let through.\<close>

definition room :: "COverflow \<Rightarrow> int" where
  "room c = (if m_flow_control c then 0 else
     2 * max 0 (m_cur_limition c - 1 - m_cur_caps c) + max 0 (m_pd_limition c - 1 - max (m_cur_caps c) (m_cur_limition c - 1)) +
     (if m_pre_policy c = 0 then 1 else 0))"

lemma tenths_mono: "0 \<le> L \<Longrightarrow> n \<le> m \<Longrightarrow> tenths n L \<le> tenths m L"
  by (simp add: tenths_def zdiv_mono1 mult_right_mono)

lemma stage_le: "0 \<le> L \<Longrightarrow> stage_limit L pd \<le> L \<and> L \<le> tenths 12 L"
proof -
  assume "0 \<le> L"
  then have "3 * L div 10 \<le> L" "6 * L div 10 \<le> L" "L \<le> 12 * L div 10" by linarith+
  then show ?thesis using \<open>0 \<le> L\<close> by (simp add: stage_limit_def tenths_def)
qed

lemma room_step:
  assumes "flow_inv L c" "0 < L" "in_period c = (r, c')"
  shows "2 * of_bool r + room c' \<le> room c \<and> (m_flow_control c \<longrightarrow> \<not> r \<and> m_flow_control c')"
proof -
  have "m_cur_limition c \<le> m_pd_limition c" using assms(1,2) stage_le [of L "m_pd c"] by (simp add: flow_inv_def)
  then show ?thesis using assms unfolding in_period_def room_def Let_def flow_inv_def by (auto split: if_splits)
qed

lemma room_nonneg: "0 \<le> room c"
  by (simp add: room_def)

lemma in_period_time: "m_pre_time (snd (in_period c)) = m_pre_time c" "m_pd (snd (in_period c)) = m_pd c" "m_cur_limition (snd (in_period c)) = m_cur_limition c"
  by (simp_all add: in_period_def Let_def)

lemma room_time: "room (c\<lparr>m_cur_time := t\<rparr>) = room c"
  by (simp add: room_def)

lemma same_second: "m_pre_time c = t \<Longrightarrow> checkOverflow t t c = in_period (c\<lparr>m_cur_time := t\<rparr>)"
  by (simp add: checkOverflow_def Let_def)

lemma rest_of_second:
  assumes "flow_inv L c" "0 < L" "m_pre_time c = t" "checks (replicate n t) c = (rs, c')"
  shows "2 * int (length (filter id rs)) + room c' \<le> room c \<and> (m_flow_control c \<longrightarrow> True \<notin> set rs) \<and>
    m_pre_time c' = t \<and> m_pd c' = m_pd c \<and> m_cur_limition c' = m_cur_limition c"
  using assms
proof (induction n arbitrary: c rs)
  case (Suc n)
  let ?c = "c\<lparr>m_cur_time := t\<rparr>"
  obtain r c1 where r: "in_period ?c = (r, c1)" by fastforce
  obtain rs1 where rs1: "checks (replicate n t) c1 = (rs1, c')" "rs = r # rs1" using checks_Cons [of t "replicate n t" c rs c' r c1] Suc.prems(4) r same_second [OF Suc.prems(3)] by auto
  have c1: "flow_inv L c1" using flow_check [OF Suc.prems(1), of t t] r same_second [OF Suc.prems(3)] by simp
  have k: "m_pre_time c1 = t" "m_pd c1 = m_pd c" "m_cur_limition c1 = m_cur_limition c" using in_period_time [of ?c] Suc.prems(3) r by simp_all
  have "flow_inv L ?c" using Suc.prems(1) by (simp add: flow_inv_def)
  then have "2 * of_bool r + room c1 \<le> room c" "m_flow_control c \<longrightarrow> \<not> r \<and> m_flow_control c1"
    using room_step [OF _ Suc.prems(2) r] by (simp_all add: room_time)
  then show ?case using Suc.IH [OF c1 Suc.prems(2) k(1) rs1(1)] k(2,3) rs1(2) by auto
qed simp

section \<open>Properties\<close>

lemma new_period_first:
  "to_int32 (t - m_pre_time c) \<noteq> 0 \<Longrightarrow> checkOverflow t t c = (r, c') \<Longrightarrow> r \<and> m_pre_time c' = t \<and> m_cur_caps c' = 1 \<and> \<not> m_flow_control c'"
  by (auto simp: checkOverflow_def new_period_def next_stage_def Let_def)

text \<open>Property C31. For a positive limit \<open>L\<close>, whatever has been requested before: the first request of a new second
  is let through, and of all the requests of that second, however many (fewer than \<open>2 ^ 31\<close>, the range of the
  counter), at most half of \<open>max 3 (max 2 s + p - 1)\<close> are, where \<open>s\<close> is the limit of its stage (\<open>L\<close>, or three or
  six tenths of it during a slow start) and \<open>p\<close> is the peak limit, six fifths of \<open>L\<close>, rounded down. With a limit of
  0 or less everything is let through (\<open>no_limit\<close>).\<close>

theorem flow_bound:
  assumes "0 < L" "to_int32 (t - m_pre_time (snd (checks ts (COverflow_new L now)))) \<noteq> 0"
    "checks (replicate (Suc n) t) (snd (checks ts (COverflow_new L now))) = (rs, c)"
  shows "hd rs \<and> 2 * int (length (filter id rs)) \<le> max 3 (max 2 (stage_limit L (m_pd c)) + tenths 12 L - 1)"
proof -
  let ?c = "snd (checks ts (COverflow_new L now))"
  obtain r c1 where r: "checkOverflow t t ?c = (r, c1)" by fastforce
  obtain rs1 where rs1: "checks (replicate n t) c1 = (rs1, c)" "rs = r # rs1" using checks_Cons [OF assms(3) [unfolded replicate_Suc] r] by blast
  have I: "flow_inv L c1" using flow_check [OF flow_checks [OF flow_new], of L t t ts now] r by simp
  note f = new_period_first [OF assms(2) r]
  have s: "2 * int (length (filter id rs1)) \<le> room c1" "m_pd c = m_pd c1" using rest_of_second [OF I assms(1) _ rs1(1)] f room_nonneg [of c] by auto
  have "room c1 \<le> 2 * max 0 (stage_limit L (m_pd c1) - 2) + max 0 (tenths 12 L - 1 - max 1 (stage_limit L (m_pd c1) - 1)) + 1"
    using I f by (simp add: room_def flow_inv_def)
  moreover have "stage_limit L (m_pd c1) \<le> tenths 12 L" using stage_le [of L "m_pd c1"] assms(1) by simp
  ultimately have "2 + room c1 \<le> max 3 (max 2 (stage_limit L (m_pd c1)) + tenths 12 L - 1)"
    unfolding max_def by (simp split: if_splits)
  then show ?thesis using s f rs1(2) by simp
qed

theorem flow_bound_witness:
  "\<exists>rs c. checks (replicate 13 8) (COverflow_new 10 7) = (rs, c) \<and> hd rs \<and> 2 * int (length (filter id rs)) \<le> 21 \<and> length (filter id rs) = 10"
proof -
  obtain rs c where c: "checks (replicate (Suc 12) 8) (snd (checks [] (COverflow_new 10 7))) = (rs, c)" by fastforce
  have ts: "to_int32 (8 - m_pre_time (snd (checks [] (COverflow_new 10 7)))) \<noteq> 0" by (simp add: COverflow_new_def)
  have v: "checks (replicate 13 8) (COverflow_new 10 7) = (replicate 9 True @ [False, True, False, False],
      snd (checks (replicate 13 8) (COverflow_new 10 7)))" "m_pd (snd (checks (replicate 13 8) (COverflow_new 10 7))) = 0" by code_simp+
  have rs: "rs = replicate 9 True @ [False, True, False, False]" "m_pd c = 0" using v c by auto
  then show ?thesis using flow_bound [OF _ ts c] c by (simp add: stage_limit_def tenths_def)
qed

lemma no_limit: "m_caps_limition c \<le> 0 \<Longrightarrow> fst (checkOverflow t now c)"
  by (simp add: checkOverflow_def in_period_def new_period_def Let_def)

text \<open>One second later.\<close>

lemma next_second:
  assumes "flow_inv L c" "0 < L" "t = m_pre_time c + 1" "checks (replicate (Suc n) t) c = (rs, c')"
  shows "m_pre_time c' = t \<and> flow_inv L c' \<and> m_pd c' = (if m_flow_control c then 1 else if m_pd c = 1 then 2 else 0)"
proof -
  obtain r c1 where r: "checkOverflow t t c = (r, c1)" by fastforce
  obtain rs1 where rs1: "checks (replicate n t) c1 = (rs1, c')" using checks_Cons [OF assms(4) [unfolded replicate_Suc] r] by blast
  have I: "flow_inv L c1" using flow_check [OF assms(1), of t t] r by simp
  have p: "m_pd c1 = (if m_flow_control c then 1 else if m_pd c = 1 then 2 else 0)" "m_pre_time c1 = t"
    using r assms(1,3) by (auto simp: checkOverflow_def new_period_def next_stage_def Let_def flow_inv_def)
  show ?thesis using rest_of_second [OF I assms(2) p(2) rs1] p(1) flow_checks [OF I, of "replicate n t"] rs1 by simp
qed

text \<open>Property C32. The slow start with a positive limit. When a second has been overloaded, whatever has been
  requested before: the rest of that second is refused. If there is a request in each of the next three seconds
  and neither of the first two is overloaded itself, the limit of the first is three tenths of the configured
  one, that of the second six tenths, and that of the third is the configured one again: the stages run
  0 - 1 - 2 - 0, not 0 - 1 - 2 - 1 - 0 as the comment of the class says.\<close>

theorem slow_start:
  assumes "0 < L" "c = snd (checks ts (COverflow_new L now))" "m_pre_time c = t" "m_flow_control c"
    "checks (replicate (Suc n1) (t + 1)) c = (rs1, c1)" "\<not> m_flow_control c1"
    "checks (replicate (Suc n2) (t + 2)) c1 = (rs2, c2)" "\<not> m_flow_control c2"
    "checks (replicate (Suc n3) (t + 3)) c2 = (rs3, c3)"
  shows "True \<notin> set (fst (checks (replicate n t) c)) \<and> m_cur_limition c1 = tenths 3 L \<and> m_cur_limition c2 = tenths 6 L \<and> m_cur_limition c3 = L"
proof -
  have I: "flow_inv L c" unfolding assms(2) by (rule flow_checks [OF flow_new])
  have s1: "m_pre_time c1 = t + 1" "flow_inv L c1" "m_pd c1 = 1" using next_second [OF I assms(1) _ assms(5)] assms(3,4) by simp_all
  have s2: "m_pre_time c2 = t + 2" "flow_inv L c2" "m_pd c2 = 2" using next_second [OF s1(2) assms(1) _ assms(7)] assms(6) s1(1,3) by simp_all
  have s3: "flow_inv L c3" "m_pd c3 = 0" using next_second [OF s2(2) assms(1) _ assms(9)] assms(8) s2(1,3) by simp_all
  obtain rs c' where "checks (replicate n t) c = (rs, c')" by fastforce
  then show ?thesis using rest_of_second [OF I assms(1,3)] assms(4) s1 s2 s3 by (auto simp: flow_inv_def stage_limit_def)
qed

theorem slow_start_witness:
  "m_cur_limition (snd (checks (replicate 13 8 @ [9]) (COverflow_new 10 7))) = 3 \<and> m_cur_limition (snd (checks (replicate 13 8 @ [9, 10]) (COverflow_new 10 7))) = 6"
proof -
  let ?c = "snd (checks (replicate 13 8) (COverflow_new 10 7))"
  have app: "snd (checks (xs @ ys) c) = snd (checks ys (snd (checks xs c)))" for xs ys c
    by (induction xs arbitrary: c) (simp_all add: case_prod_beta Let_def)
  have h: "m_pre_time ?c = 8" "m_flow_control ?c" "\<not> m_flow_control (snd (checks [9] ?c))" "\<not> m_flow_control (snd (checks [10] (snd (checks [9] ?c))))"
    by code_simp+
  obtain r1 c1 where c1: "checks [9] ?c = (r1, c1)" by fastforce
  obtain r2 c2 where c2: "checks [10] c1 = (r2, c2)" by fastforce
  obtain r3 c3 where c3: "checks [11] c2 = (r3, c3)" by fastforce
  have "m_cur_limition c1 = tenths 3 10 \<and> m_cur_limition c2 = tenths 6 10"
    using slow_start [of 10 ?c "replicate 13 8" 7 8 0 r1 c1 0 r2 c2 0 r3 c3 0] h c1 c2 c3 by simp
  then show ?thesis using c1 c2 app [of "replicate 13 8" "[9]"] app [of "replicate 13 8" "[9, 10]"] app [of "[9]" "[10]" ?c] by (simp add: tenths_def)
qed

end
