(* ===== verification/Des.thy ===== *)
theory Des
  imports Prelude
begin

text \<open>
  The block cipher of \<open>comserv/des.C\<close>: \<open>DES\<close>, \<open>DES_1\<close>, \<open>TripleDES\<close> and \<open>TripleDES_1\<close>. Bits are bytes that are 0 or 1, as in the
  code, and its tables are copied. The key schedule lives in the static arrays \<open>C\<close>, \<open>D\<close> and \<open>K\<close>, so the functions
  take and return their state. A key or text that is too short is read out of bounds: the result is \<open>None\<close>.
\<close>

unbundle bit_operations_syntax

section \<open>Tables\<close>

definition pc_1_c :: "nat list" where
  "pc_1_c =
    [57, 49, 41, 33, 25, 17, 9, 1, 58, 50, 42, 34, 26, 18,
     10, 2, 59, 51, 43, 35, 27, 19, 11, 3, 60, 52, 44, 36]"

definition pc_1_d :: "nat list" where
  "pc_1_d =
    [63, 55, 47, 39, 31, 23, 15, 7, 62, 54, 46, 38, 30, 22,
     14, 6, 61, 53, 45, 37, 29, 21, 13, 5, 28, 20, 12, 4]"

definition pc_2 :: "nat list" where
  "pc_2 =
    [14, 17, 11, 24, 1, 5, 3, 28, 15, 6, 21, 10, 23, 19, 12, 4, 26, 8, 16, 7, 27, 20, 13, 2,
     41, 52, 31, 37, 47, 55, 30, 40, 51, 45, 33, 48, 44, 49, 39, 56, 34, 53, 46, 42, 50, 36, 29, 32]"

definition ls_count :: "nat list" where
  "ls_count =
    [1, 1, 2, 2, 2, 2, 2, 2, 1, 2, 2, 2, 2, 2, 2, 1]"

definition ip_tab :: "nat list" where
  "ip_tab =
    [58, 50, 42, 34, 26, 18, 10, 2, 60, 52, 44, 36, 28, 20, 12, 4,
     62, 54, 46, 38, 30, 22, 14, 6, 64, 56, 48, 40, 32, 24, 16, 8,
     57, 49, 41, 33, 25, 17, 9, 1, 59, 51, 43, 35, 27, 19, 11, 3,
     61, 53, 45, 37, 29, 21, 13, 5, 63, 55, 47, 39, 31, 23, 15, 7]"

definition inv_ip_tab :: "nat list" where
  "inv_ip_tab =
    [40, 8, 48, 16, 56, 24, 64, 32, 39, 7, 47, 15, 55, 23, 63, 31,
     38, 6, 46, 14, 54, 22, 62, 30, 37, 5, 45, 13, 53, 21, 61, 29,
     36, 4, 44, 12, 52, 20, 60, 28, 35, 3, 43, 11, 51, 19, 59, 27,
     34, 2, 42, 10, 50, 18, 58, 26, 33, 1, 41, 9, 49, 17, 57, 25]"

definition e_r :: "nat list" where
  "e_r =
    [32, 1, 2, 3, 4, 5, 4, 5, 6, 7, 8, 9, 8, 9, 10, 11, 12, 13, 12, 13, 14, 15, 16, 17,
     16, 17, 18, 19, 20, 21, 20, 21, 22, 23, 24, 25, 24, 25, 26, 27, 28, 29, 28, 29, 30, 31, 32, 1]"

definition P_tab :: "nat list" where
  "P_tab =
    [16, 7, 20, 21, 29, 12, 28, 17, 1, 15, 23, 26, 5, 18, 31, 10,
     2, 8, 24, 14, 32, 27, 3, 9, 19, 13, 30, 6, 22, 11, 4, 25]"

definition SSS :: "CHAR8 list list list" where
  "SSS = [
    [[14, 4, 13, 1, 2, 15, 11, 8, 3, 10, 6, 12, 5, 9, 0, 7],
     [0, 15, 7, 4, 14, 2, 13, 1, 10, 6, 12, 11, 9, 5, 3, 8],
     [4, 1, 14, 8, 13, 6, 2, 11, 15, 12, 9, 7, 3, 10, 5, 0],
     [15, 12, 8, 2, 4, 9, 1, 7, 5, 11, 3, 14, 10, 0, 6, 13]],
    [[15, 1, 8, 14, 6, 11, 3, 4, 9, 7, 2, 13, 12, 0, 5, 10],
     [3, 13, 4, 7, 15, 2, 8, 14, 12, 0, 1, 10, 6, 9, 11, 5],
     [0, 14, 7, 11, 10, 4, 13, 1, 5, 8, 12, 6, 9, 3, 2, 15],
     [13, 8, 10, 1, 3, 15, 4, 2, 11, 6, 7, 12, 0, 5, 14, 9]],
    [[10, 0, 9, 14, 6, 3, 15, 5, 1, 13, 12, 7, 11, 4, 2, 8],
     [13, 7, 0, 9, 3, 4, 6, 10, 2, 8, 5, 14, 12, 11, 15, 1],
     [13, 6, 4, 9, 8, 15, 3, 0, 11, 1, 2, 12, 5, 10, 14, 7],
     [1, 10, 13, 0, 6, 9, 8, 7, 4, 15, 14, 3, 11, 5, 2, 12]],
    [[7, 13, 14, 3, 0, 6, 9, 10, 1, 2, 8, 5, 11, 12, 4, 15],
     [13, 8, 11, 5, 6, 15, 0, 3, 4, 7, 2, 12, 1, 10, 14, 9],
     [10, 6, 9, 0, 12, 11, 7, 13, 15, 1, 3, 14, 5, 2, 8, 4],
     [3, 15, 0, 6, 10, 1, 13, 8, 9, 4, 5, 11, 12, 7, 2, 14]],
    [[2, 12, 4, 1, 7, 10, 11, 6, 8, 5, 3, 15, 13, 0, 14, 9],
     [14, 11, 2, 12, 4, 7, 13, 1, 5, 0, 15, 10, 3, 9, 8, 6],
     [4, 2, 1, 11, 10, 13, 7, 8, 15, 9, 12, 5, 6, 3, 0, 14],
     [11, 8, 12, 7, 1, 14, 2, 13, 6, 15, 0, 9, 10, 4, 5, 3]],
    [[12, 1, 10, 15, 9, 2, 6, 8, 0, 13, 3, 4, 14, 7, 5, 11],
     [10, 15, 4, 2, 7, 12, 9, 5, 6, 1, 13, 14, 0, 11, 3, 8],
     [9, 14, 15, 5, 2, 8, 12, 3, 7, 0, 4, 10, 1, 13, 11, 6],
     [4, 3, 2, 12, 9, 5, 15, 10, 11, 14, 1, 7, 6, 0, 8, 13]],
    [[4, 11, 2, 14, 15, 0, 8, 13, 3, 12, 9, 7, 5, 10, 6, 1],
     [13, 0, 11, 7, 4, 9, 1, 10, 14, 3, 5, 12, 2, 15, 8, 6],
     [1, 4, 11, 13, 12, 3, 7, 14, 10, 15, 6, 8, 0, 5, 9, 2],
     [6, 11, 13, 8, 1, 4, 10, 7, 9, 5, 0, 15, 14, 2, 3, 12]],
    [[13, 2, 8, 4, 6, 15, 11, 1, 10, 9, 3, 14, 5, 0, 12, 7],
     [1, 15, 13, 8, 10, 3, 7, 4, 12, 5, 6, 11, 0, 14, 9, 2],
     [7, 11, 4, 1, 9, 12, 14, 2, 0, 6, 10, 13, 15, 3, 5, 8],
     [2, 1, 14, 7, 4, 10, 8, 13, 15, 12, 9, 0, 3, 5, 6, 11]]]"

text \<open>The tables count from 1.\<close>

definition sel :: "nat list \<Rightarrow> CHAR8 list \<Rightarrow> CHAR8 list" where
  "sel tab xs = map (\<lambda>i. xs ! (i - 1)) tab"

section \<open>State\<close>

record des_keys =
  C_rows :: "CHAR8 list list"
  D_rows :: "CHAR8 list list"
  K_rows :: "CHAR8 list list"

section \<open>Tools\<close>

definition s_box_row :: "CHAR8 list list \<Rightarrow> CHAR8 list \<Rightarrow> CHAR8 list" where
  "s_box_row S aa = (let
     y = aa ! 0 * 2 + aa ! 5;
     z = aa ! 1 * 8 + aa ! 2 * 4 + aa ! 3 * 2 + aa ! 4;
     ss = S ! unat y ! unat z
   in map (\<lambda>d. (ss div d) AND 1) [8, 4, 2, 1])"

definition s_box :: "CHAR8 list \<Rightarrow> CHAR8 list" where
  "s_box aa = concat (map (\<lambda>i. s_box_row (SSS ! i) (take 6 (drop (6 * i) aa))) [0..<8])"

definition LS :: "CHAR8 list \<Rightarrow> nat \<Rightarrow> CHAR8 list" where
  "LS bits count = map (\<lambda>i. bits ! ((i + count) mod 28)) [0..<28]"

definition xor_bits :: "CHAR8 list \<Rightarrow> CHAR8 list \<Rightarrow> CHAR8 list" where
  "xor_bits as bs = map2 (\<lambda>a b. (a + b) AND 1) as bs"

definition des_F :: "des_keys \<Rightarrow> nat \<Rightarrow> CHAR8 list \<times> CHAR8 list \<Rightarrow> CHAR8 list \<times> CHAR8 list" where
  "des_F k n = (\<lambda>(ll, rr). (let
     buffer = sel e_r rr;
     buffer = xor_bits buffer (K_rows k ! n);
     buffer = sel P_tab (s_box buffer)
   in (rr, xor_bits buffer ll)))"

definition ip_1 :: "CHAR8 list \<Rightarrow> CHAR8 list \<Rightarrow> CHAR8 list" where
  "ip_1 ll rr = sel inv_ip_tab (ll @ rr)"

definition divides :: "CHAR8 list" where
  "divides = [0x80, 0x40, 0x20, 0x10, 8, 4, 2, 1]"

definition expand_byte :: "CHAR8 \<Rightarrow> CHAR8 list" where
  "expand_byte b = map (\<lambda>d. (b div d) AND 1) divides"

definition expand0 :: "CHAR8 list \<Rightarrow> CHAR8 list option" where
  "expand0 inp = (if length inp < 8 then None else Some (concat (map expand_byte (take 8 inp))))"

definition son :: "CHAR8 list \<Rightarrow> CHAR8 list \<Rightarrow> CHAR8 list" where
  "son cc dd = sel pc_2 (cc @ dd)"

definition compress_byte :: "CHAR8 list \<Rightarrow> CHAR8" where
  "compress_byte bits = foldl (+) 0 (map2 (*) bits divides)"

definition compress0 :: "CHAR8 list \<Rightarrow> CHAR8 list" where
  "compress0 out = map (\<lambda>i. compress_byte (take 8 (drop (8 * i) out))) [0..<8]"

definition key_round :: "des_keys \<Rightarrow> nat \<Rightarrow> des_keys" where
  "key_round k j = (let
     k = k\<lparr>C_rows := (C_rows k)[j + 1 := LS (C_rows k ! j) (ls_count ! j)]\<rparr>;
     k = k\<lparr>D_rows := (D_rows k)[j + 1 := LS (D_rows k ! j) (ls_count ! j)]\<rparr>
   in k\<lparr>K_rows := (K_rows k)[j + 1 := son (C_rows k ! (j + 1)) (D_rows k ! (j + 1))]\<rparr>)"

definition setkeystar :: "CHAR8 list \<Rightarrow> des_keys \<Rightarrow> des_keys" where
  "setkeystar bits k = foldl key_round (k\<lparr>C_rows := (C_rows k)[0 := sel pc_1_c bits], D_rows := (D_rows k)[0 := sel pc_1_d bits]\<rparr>) [0..<16]"

definition ip :: "CHAR8 list \<Rightarrow> (CHAR8 list \<times> CHAR8 list) option" where
  "ip text = do {
     buffer \<leftarrow> expand0 text;
     Some (sel (take 32 ip_tab) buffer, sel (drop 32 ip_tab) buffer) }"

section \<open>Encryption\<close>

definition encrypt0 :: "des_keys \<Rightarrow> CHAR8 list \<Rightarrow> CHAR8 list option" where
  "encrypt0 k text = do {
     lr \<leftarrow> ip text;
     let (ll, rr) = foldl (\<lambda>lr i. des_F k i lr) lr [1..<17];
     Some (compress0 (ip_1 rr ll)) }"

definition discrypt0 :: "des_keys \<Rightarrow> CHAR8 list \<Rightarrow> CHAR8 list option" where
  "discrypt0 k mtext = do {
     lr \<leftarrow> ip mtext;
     let (ll, rr) = foldl (\<lambda>lr i. des_F k i lr) lr (rev [1..<17]);
     Some (compress0 (ip_1 rr ll)) }"

definition DES :: "CHAR8 list \<Rightarrow> CHAR8 list \<Rightarrow> des_keys \<Rightarrow> (CHAR8 list \<times> des_keys) option" where
  "DES key text k = do {
     tmp \<leftarrow> expand0 key;
     let k = setkeystar tmp k;
     mtext \<leftarrow> encrypt0 k text;
     Some (mtext, k) }"

definition DES_1 :: "CHAR8 list \<Rightarrow> CHAR8 list \<Rightarrow> des_keys \<Rightarrow> (CHAR8 list \<times> des_keys) option" where
  "DES_1 key text k = do {
     tmp \<leftarrow> expand0 key;
     let k = setkeystar tmp k;
     mtext \<leftarrow> discrypt0 k text;
     Some (mtext, k) }"

definition split_key :: "CHAR8 list \<Rightarrow> (CHAR8 list \<times> CHAR8 list) option" where
  "split_key key16 = (if length key16 < 16 then None else Some (take 8 key16, take 8 (drop 8 key16)))"

definition TripleDES :: "CHAR8 list \<Rightarrow> CHAR8 list \<Rightarrow> des_keys \<Rightarrow> (CHAR8 list \<times> des_keys) option" where
  "TripleDES key16 text k = do {
     (keyL, keyR) \<leftarrow> split_key key16;
     (dump1, k) \<leftarrow> DES keyL text k;
     (dump2, k) \<leftarrow> DES_1 keyR dump1 k;
     DES keyL dump2 k }"

definition TripleDES_1 :: "CHAR8 list \<Rightarrow> CHAR8 list \<Rightarrow> des_keys \<Rightarrow> (CHAR8 list \<times> des_keys) option" where
  "TripleDES_1 key16 text k = do {
     (keyL, keyR) \<leftarrow> split_key key16;
     (dump1, k) \<leftarrow> DES_1 keyL text k;
     (dump2, k) \<leftarrow> DES keyR dump1 k;
     DES_1 keyL dump2 k }"

end
