(* ===== verification/DesSpec.thy ===== *)
theory DesSpec
  imports Des
begin

text \<open>
  Decryption undoes encryption. The rounds are a Feistel network, whose inverse is the same network with the rounds in
  the opposite order whatever the round function is; the two permutations and the two conversions between bytes and
  bits are inverse to each other by evaluation of their tables.
\<close>

section \<open>Bits\<close>

definition bits :: "nat \<Rightarrow> CHAR8 list \<Rightarrow> bool" where
  "bits n xs = (length xs = n \<and> set xs \<subseteq> {0, 1})"

lemma and_1_bit: "x AND 1 \<in> {0, 1}" for x :: CHAR8
  by (cases "odd x") (simp_all add: and_one_eq odd_iff_mod_2_eq_one even_iff_mod_2_eq_zero)

lemma xor_twice: "bits n as \<Longrightarrow> bits n bs \<Longrightarrow> xor_bits as (xor_bits as bs) = bs"
proof (induction n arbitrary: as bs)
  case (Suc n)
  then obtain a as' b bs' where c: "as = a # as'" "bs = b # bs'" by (metis bits_def length_Suc_conv)
  then have "bits n as'" "bits n bs'" "a \<in> {0, 1}" "b \<in> {0, 1}" using Suc.prems by (simp_all add: bits_def)
  then show ?case using Suc.IH c by (auto simp: xor_bits_def)
qed (simp add: bits_def xor_bits_def)

lemma xor_bits_bits: "length as = n \<Longrightarrow> length bs = n \<Longrightarrow> bits n (xor_bits as bs)"
  unfolding bits_def xor_bits_def using and_1_bit by auto

lemma sel_bits: "bits n xs \<Longrightarrow> list_all (\<lambda>i. i - 1 < n) tab \<Longrightarrow> bits (length tab) (sel tab xs)"
  unfolding bits_def sel_def list_all_iff by (auto dest!: nth_mem [of _ xs])

section \<open>Bytes and bits\<close>

lemma div_bit: "(b div 2 ^ i) AND 1 = of_bool (bit b i)" for b :: CHAR8
  by (simp add: drop_bit_eq_div [symmetric] and_one_eq mod_2_eq_odd bit_iff_odd_drop_bit)

lemma expand_byte_bit: "expand_byte b = map (\<lambda>i. of_bool (bit b i)) (rev [0..<8])"
proof -
  have "rev [0..<8] = [7, 6, 5, 4, 3, 2, 1, 0 :: nat]" by code_simp
  then show ?thesis
    using div_bit [of b 7] div_bit [of b 6] div_bit [of b 5] div_bit [of b 4] div_bit [of b 3] div_bit [of b 2] div_bit [of b 1] div_bit [of b 0]
    by (simp add: expand_byte_def divides_def)
qed

lemma compress_byte_sum:
  assumes "length bs = 8"
  shows "compress_byte (map of_bool bs) = horner_sum of_bool 2 (rev bs)"
proof -
  obtain a0 a1 a2 a3 a4 a5 a6 a7 where "bs = [a0, a1, a2, a3, a4, a5, a6, a7]" using assms by (auto simp: length_Suc_conv numeral_eq_Suc)
  then show ?thesis by (simp add: compress_byte_def divides_def algebra_simps)
qed

lemma compress_expand_byte: "compress_byte (expand_byte b) = b"
proof -
  have "compress_byte (expand_byte b) = horner_sum of_bool 2 (map (bit b) [0..<8])"
    using compress_byte_sum [of "map (bit b) (rev [0..<8])"] by (simp add: expand_byte_bit rev_map o_def)
  then show ?thesis by (simp add: horner_sum_bit_eq_take_bit take_bit_word_eq_self)
qed

lemma expand_compress_byte:
  assumes "bits 8 xs"
  shows "expand_byte (compress_byte xs) = xs"
proof -
  define bs where "bs = map (\<lambda>x. x = 1) xs"
  have xs: "xs = map of_bool bs" "length bs = 8" using assms by (auto simp: bs_def bits_def o_def intro!: map_idI [symmetric])
  then have "expand_byte (compress_byte xs) = map (\<lambda>i. of_bool (rev bs ! i)) (rev [0..<8])"
    by (simp add: expand_byte_bit compress_byte_sum bit_horner_sum_bit_iff)
  also have "\<dots> = map of_bool bs" using xs(2) by (auto simp: rev_map [symmetric] rev_nth intro!: nth_equalityI)
  finally show ?thesis using xs(1) by simp
qed

lemma eight:
  assumes "length xs = 8 * n"
  shows "concat (map (\<lambda>i. take 8 (drop (8 * i) xs)) [0..<n]) = xs"
  using assms
proof (induction n arbitrary: xs)
  case (Suc n)
  have "concat (map (\<lambda>i. take 8 (drop (8 * i) xs)) [0..<Suc n]) = take 8 xs @ concat (map (\<lambda>i. take 8 (drop (8 * i) (drop 8 xs))) [0..<n])"
    by (simp add: upt_conv_Cons map_Suc_upt [symmetric] o_def add.commute del: upt_Suc)
  then show ?case using Suc.IH [of "drop 8 xs"] Suc.prems by simp
qed simp

lemma chunk_bits: "bits 64 xs \<Longrightarrow> i < 8 \<Longrightarrow> bits 8 (take 8 (drop (8 * i) xs))"
  unfolding bits_def using set_take_subset [of 8 "drop (8 * i) xs"] set_drop_subset [of "8 * i" xs] by auto

lemma expand_compress: "bits 64 xs \<Longrightarrow> expand0 (compress0 xs) = Some xs"
proof -
  assume b: "bits 64 xs"
  have "map expand_byte (compress0 xs) = map (\<lambda>i. take 8 (drop (8 * i) xs)) [0..<8]"
    unfolding compress0_def using expand_compress_byte [OF chunk_bits [OF b]] by simp
  moreover have "length (compress0 xs) = 8" by (simp add: compress0_def)
  ultimately show ?thesis using eight [of xs 8] b by (simp add: expand0_def bits_def)
qed

lemma expand_byte_bits: "bits 8 (expand_byte b)"
  unfolding bits_def expand_byte_def using and_1_bit by (auto simp: divides_def)

lemma expand_ok:
  assumes "length text = 8"
  shows "\<exists>b. expand0 text = Some b \<and> bits 64 b \<and> compress0 b = text"
proof -
  obtain a0 a1 a2 a3 a4 a5 a6 a7 where t: "text = [a0, a1, a2, a3, a4, a5, a6, a7]"
    using assms by (auto simp: length_Suc_conv numeral_eq_Suc)
  have l: "length (expand_byte b) = 8" for b using expand_byte_bits [of b] by (simp add: bits_def)
  have "set (expand_byte b) \<subseteq> {0, 1}" for b using expand_byte_bits [of b] by (simp add: bits_def)
  then have "bits 64 (concat (map expand_byte text))" unfolding t bits_def by (simp add: l)
  moreover have "compress0 (concat (map expand_byte text)) = text"
    unfolding compress0_def t by (simp add: upt_rec l compress_expand_byte)
  ultimately show ?thesis by (simp add: expand0_def t)
qed

section \<open>The permutations\<close>

lemma sel_sel: "list_all (\<lambda>i. i - 1 < length u) t \<Longrightarrow> sel t (sel u xs) = sel (map (\<lambda>i. u ! (i - 1)) t) xs"
  by (simp add: sel_def list_all_iff)

lemma sel_id: "length xs = 64 \<Longrightarrow> sel [1..<65] xs = xs"
  by (rule nth_equalityI) (simp_all add: sel_def)

lemma ip_tables:
  "map (\<lambda>i. inv_ip_tab ! (i - 1)) ip_tab = [1..<65]" "map (\<lambda>i. ip_tab ! (i - 1)) inv_ip_tab = [1..<65]"
  "list_all (\<lambda>i. i - 1 < length inv_ip_tab) ip_tab" "list_all (\<lambda>i. i - 1 < length ip_tab) inv_ip_tab"
  "list_all (\<lambda>i. i - 1 < 64) ip_tab" "list_all (\<lambda>i. i - 1 < 64) inv_ip_tab" "length ip_tab = 64" "length inv_ip_tab = 64"
  by code_simp+

lemma ip_inverse: "length xs = 64 \<Longrightarrow> sel ip_tab (sel inv_ip_tab xs) = xs" "length xs = 64 \<Longrightarrow> sel inv_ip_tab (sel ip_tab xs) = xs"
  by (simp_all only: sel_sel [OF ip_tables(3)] sel_sel [OF ip_tables(4)] ip_tables(1,2) sel_id)

lemma ip_sel:
  assumes "expand0 text = Some b"
  shows "ip text = Some (take 32 (sel ip_tab b), drop 32 (sel ip_tab b))"
  using assms by (simp add: ip_def sel_def take_map drop_map)

section \<open>The rounds\<close>

definition halves :: "CHAR8 list \<times> CHAR8 list \<Rightarrow> bool" where
  "halves lr = (bits 32 (fst lr) \<and> bits 32 (snd lr))"

lemma s_box_bits: "bits 32 (s_box aa)"
proof -
  have r: "length (s_box_row S xs) = 4" "set (s_box_row S xs) \<subseteq> {0, 1}" for S xs
    using and_1_bit by (auto simp: s_box_row_def Let_def)
  then show ?thesis unfolding bits_def s_box_def by (auto simp: upt_rec dest: subsetD [OF r(2)])
qed

text \<open>The round function: 32 bits for every key and half.\<close>

definition round_bits :: "des_keys \<Rightarrow> nat \<Rightarrow> CHAR8 list \<Rightarrow> CHAR8 list" where
  "round_bits k n rr = sel P_tab (s_box (xor_bits (sel e_r rr) (K_rows k ! n)))"

lemma round_bits_32: "bits 32 (round_bits k n rr)"
proof -
  have "list_all (\<lambda>i. i - 1 < 32) P_tab" "length P_tab = 32" by code_simp+
  then show ?thesis unfolding round_bits_def using sel_bits [OF s_box_bits] by metis
qed

lemma des_F_round: "des_F k n (ll, rr) = (rr, xor_bits (round_bits k n rr) ll)"
  by (simp add: des_F_def round_bits_def Let_def)

lemma halves_F: "halves lr \<Longrightarrow> halves (des_F k n lr)"
proof (cases lr)
  case (Pair ll rr)
  assume "halves lr"
  then have "length ll = 32" "bits 32 rr" using Pair by (simp_all add: halves_def bits_def)
  moreover have "length (round_bits k n rr) = 32" using round_bits_32 by (simp add: bits_def)
  ultimately show ?thesis using Pair xor_bits_bits by (simp add: halves_def des_F_round)
qed

lemma F_undoes: "halves lr \<Longrightarrow> des_F k n (prod.swap (des_F k n lr)) = prod.swap lr"
  by (cases lr) (simp add: halves_def des_F_round xor_twice [OF round_bits_32])

lemma rounds_undo:
  assumes "halves lr"
  shows "foldl (\<lambda>lr i. des_F k i lr) (prod.swap (foldl (\<lambda>lr i. des_F k i lr) lr ns)) (rev ns) = prod.swap lr \<and> halves (foldl (\<lambda>lr i. des_F k i lr) lr ns)"
  using assms
proof (induction ns arbitrary: lr)
  case (Cons n ns)
  then show ?case using halves_F [OF Cons.prems] F_undoes [OF Cons.prems] by simp
qed simp

section \<open>One block\<close>

lemma halves_split: "bits 64 xs \<Longrightarrow> halves (take 32 xs, drop 32 xs)"
  unfolding bits_def halves_def using set_take_subset [of 32 xs] set_drop_subset [of 32 xs] by auto

lemma bits_join: "halves (ll, rr) \<Longrightarrow> bits 64 (rr @ ll)"
  by (simp add: halves_def bits_def)

lemma sel_ip_bits: "bits 64 b \<Longrightarrow> bits 64 (sel ip_tab b)" "bits 64 b \<Longrightarrow> bits 64 (sel inv_ip_tab b)"
  using sel_bits ip_tables(5-8) by metis+

text \<open>A block goes through the rounds in one order, and its result through them in the other.\<close>

definition block :: "des_keys \<Rightarrow> nat list \<Rightarrow> CHAR8 list \<Rightarrow> CHAR8 list option" where
  "block k ns text = do {
     lr \<leftarrow> ip text;
     let (ll, rr) = foldl (\<lambda>lr i. des_F k i lr) lr ns;
     Some (compress0 (ip_1 rr ll)) }"

lemma block_ok:
  assumes "length text = 8"
  shows "\<exists>m. block k ns text = Some m \<and> length m = 8 \<and> block k (rev ns) m = Some text"
proof -
  obtain b where b: "expand0 text = Some b" "bits 64 b" "compress0 b = text" using expand_ok [OF assms] by blast
  define lr where "lr = (take 32 (sel ip_tab b), drop 32 (sel ip_tab b))"
  obtain ll rr where f: "foldl (\<lambda>lr i. des_F k i lr) lr ns = (ll, rr)" by fastforce
  have h: "halves lr" unfolding lr_def by (rule halves_split [OF sel_ip_bits(1) [OF b(2)]])
  have u: "foldl (\<lambda>lr i. des_F k i lr) (rr, ll) (rev ns) = prod.swap lr" "halves (ll, rr)" using rounds_undo [OF h, of k ns] f by simp_all
  define m where "m = compress0 (ip_1 rr ll)"
  have m1: "block k ns text = Some m" by (simp add: block_def ip_sel [OF b(1)] f [unfolded lr_def] m_def)
  have j: "bits 64 (rr @ ll)" "length rr = 32" using bits_join [OF u(2)] u(2) by (simp_all add: halves_def bits_def)
  have "expand0 m = Some (sel inv_ip_tab (rr @ ll))" unfolding m_def ip_1_def by (rule expand_compress [OF sel_ip_bits(2) [OF j(1)]])
  then have "ip m = Some (rr, ll)" using ip_sel j by (simp add: ip_inverse(1) bits_def)
  then have "block k (rev ns) m = Some (compress0 (sel inv_ip_tab (sel ip_tab b)))" using u(1) by (simp add: block_def ip_1_def lr_def)
  moreover have "sel inv_ip_tab (sel ip_tab b) = b" using ip_inverse(2) b(2) by (simp add: bits_def)
  ultimately show ?thesis using m1 b(3) by (simp add: m_def compress0_def)
qed

lemma encrypt_block: "encrypt0 k = block k [1..<17]" "discrypt0 k = block k (rev [1..<17])"
  by (simp_all add: fun_eq_iff encrypt0_def discrypt0_def block_def)

lemma crypt_ok:
  assumes "length text = 8"
  shows "\<exists>m. encrypt0 k text = Some m \<and> length m = 8 \<and> discrypt0 k m = Some text"
    and "\<exists>m. discrypt0 k text = Some m \<and> length m = 8 \<and> encrypt0 k m = Some text"
  using block_ok [OF assms, of k "[1..<17]"] block_ok [OF assms, of k "rev [1..<17]"] unfolding encrypt_block by simp_all

section \<open>The key schedule\<close>

definition rows :: "des_keys \<Rightarrow> bool" where
  "rows k = (length (C_rows k) = 17 \<and> length (D_rows k) = 17 \<and> length (K_rows k) = 17)"

text \<open>After \<open>n\<close> rounds two schedules for the same key agree on what they have written.\<close>

definition agree :: "nat \<Rightarrow> des_keys \<Rightarrow> des_keys \<Rightarrow> bool" where
  "agree n k k' = (rows k \<and> rows k' \<and> (\<forall>i \<le> n. C_rows k ! i = C_rows k' ! i \<and> D_rows k ! i = D_rows k' ! i) \<and>
     (\<forall>i. 0 < i \<and> i \<le> n \<longrightarrow> K_rows k ! i = K_rows k' ! i))"

lemma agree_step: "agree n k k' \<Longrightarrow> n < 16 \<Longrightarrow> agree (Suc n) (key_round k n) (key_round k' n)"
  unfolding agree_def rows_def key_round_def Let_def by (auto simp: nth_list_update le_Suc_eq)

lemma agree_rounds: "agree 0 k k' \<Longrightarrow> n \<le> 16 \<Longrightarrow> agree n (foldl key_round k [0..<n]) (foldl key_round k' [0..<n])"
  by (induction n) (simp_all add: agree_step)

lemma schedule_agrees: "rows k \<Longrightarrow> rows k' \<Longrightarrow> agree 16 (setkeystar bs k) (setkeystar bs k')"
  unfolding setkeystar_def by (rule agree_rounds) (simp_all add: agree_def rows_def)

lemma rounds_cong: "agree 16 k k' \<Longrightarrow> set ns \<subseteq> {1..16} \<Longrightarrow> foldl (\<lambda>lr i. des_F k i lr) lr ns = foldl (\<lambda>lr i. des_F k' i lr) lr ns"
  by (induction ns arbitrary: lr) (simp_all add: des_F_def agree_def)

lemma crypt_cong:
  assumes "agree 16 k k'"
  shows "encrypt0 k = encrypt0 k'" "discrypt0 k = discrypt0 k'"
  by (simp_all add: fun_eq_iff encrypt0_def discrypt0_def rounds_cong [OF assms] subset_iff)

section \<open>Ciphers\<close>

text \<open>Two functions on blocks that undo each other, whatever state they are called in.\<close>

locale cipher =
  fixes enc dec :: "'key \<Rightarrow> 'block \<Rightarrow> 's \<Rightarrow> ('block \<times> 's) option"
    and key_ok :: "'key \<Rightarrow> bool"
    and block_ok :: "'block \<Rightarrow> bool"
    and state_ok :: "'s \<Rightarrow> bool"
  assumes enc_dec: "key_ok x \<Longrightarrow> block_ok t \<Longrightarrow> state_ok s \<Longrightarrow>
      \<exists>m s1. enc x t s = Some (m, s1) \<and> block_ok m \<and> state_ok s1 \<and> (\<forall>s'. state_ok s' \<longrightarrow> (\<exists>s2. dec x m s' = Some (t, s2) \<and> state_ok s2))"
    and dec_enc: "key_ok x \<Longrightarrow> block_ok t \<Longrightarrow> state_ok s \<Longrightarrow>
      \<exists>m s1. dec x t s = Some (m, s1) \<and> block_ok m \<and> state_ok s1 \<and> (\<forall>s'. state_ok s' \<longrightarrow> (\<exists>s2. enc x m s' = Some (t, s2) \<and> state_ok s2))"
begin

text \<open>Encrypting, decrypting and encrypting again, with two keys, is a cipher too.\<close>

definition ede :: "'key \<Rightarrow> 'key \<Rightarrow> 'block \<Rightarrow> 's \<Rightarrow> ('block \<times> 's) option" where
  "ede x y t s = do { (t, s) \<leftarrow> enc x t s; (t, s) \<leftarrow> dec y t s; enc x t s }"

definition ded :: "'key \<Rightarrow> 'key \<Rightarrow> 'block \<Rightarrow> 's \<Rightarrow> ('block \<times> 's) option" where
  "ded x y t s = do { (t, s) \<leftarrow> dec x t s; (t, s) \<leftarrow> enc y t s; dec x t s }"

lemma ede_ded:
  assumes "key_ok x" "key_ok y" "block_ok t" "state_ok s"
  shows "\<exists>m s1. ede x y t s = Some (m, s1) \<and> block_ok m \<and> state_ok s1 \<and> (\<forall>s'. state_ok s' \<longrightarrow> (\<exists>s2. ded x y m s' = Some (t, s2) \<and> state_ok s2))"
proof -
  obtain t1 s1 where 1: "enc x t s = Some (t1, s1)" "block_ok t1" "state_ok s1" "\<forall>s'. state_ok s' \<longrightarrow> (\<exists>s2. dec x t1 s' = Some (t, s2) \<and> state_ok s2)"
    using enc_dec [OF assms(1,3,4)] by blast
  obtain t2 s2 where 2: "dec y t1 s1 = Some (t2, s2)" "block_ok t2" "state_ok s2" "\<forall>s'. state_ok s' \<longrightarrow> (\<exists>s3. enc y t2 s' = Some (t1, s3) \<and> state_ok s3)"
    using dec_enc [OF assms(2) 1(2,3)] by blast
  obtain t3 s3 where 3: "enc x t2 s2 = Some (t3, s3)" "block_ok t3" "state_ok s3" "\<forall>s'. state_ok s' \<longrightarrow> (\<exists>s4. dec x t3 s' = Some (t2, s4) \<and> state_ok s4)"
    using enc_dec [OF assms(1) 2(2,3)] by blast
  have "\<exists>s6. ded x y t3 s' = Some (t, s6) \<and> state_ok s6" if "state_ok s'" for s'
    using 1(4) 2(4) 3(4) that by (fastforce simp: ded_def)
  moreover have "ede x y t s = Some (t3, s3)" using 1(1) 2(1) 3(1) by (simp add: ede_def)
  ultimately show ?thesis using 3(2,3) by blast
qed

end

text \<open>Decryption is a cipher in its own right, with encryption as its inverse.\<close>

sublocale cipher \<subseteq> reversed: cipher dec enc key_ok block_ok state_ok
  by unfold_locales (use enc_dec dec_enc in blast)+

lemma DES_ok:
  assumes "8 \<le> length key" "length text = 8" "rows k"
  shows "\<exists>m k1. DES key text k = Some (m, k1) \<and> length m = 8 \<and> rows k1 \<and> (\<forall>k'. rows k' \<longrightarrow> (\<exists>k2. DES_1 key m k' = Some (text, k2) \<and> rows k2))"
    and "\<exists>m k1. DES_1 key text k = Some (m, k1) \<and> length m = 8 \<and> rows k1 \<and> (\<forall>k'. rows k' \<longrightarrow> (\<exists>k2. DES key m k' = Some (text, k2) \<and> rows k2))"
proof -
  obtain b where b: "expand0 key = Some b" using assms(1) by (simp add: expand0_def)
  have a: "agree 16 (setkeystar b k) (setkeystar b k')" if "rows k'" for k' using schedule_agrees assms(3) that by blast
  have r: "rows (setkeystar b k')" if "rows k'" for k' using a [OF that] by (simp add: agree_def)
  have c: "encrypt0 (setkeystar b k') = encrypt0 (setkeystar b k)" "discrypt0 (setkeystar b k') = discrypt0 (setkeystar b k)" if "rows k'" for k'
    using crypt_cong [OF a [OF that]] by simp_all
  obtain m where m: "encrypt0 (setkeystar b k) text = Some m" "length m = 8" "discrypt0 (setkeystar b k) m = Some text"
    using crypt_ok(1) [OF assms(2)] by blast
  have "\<exists>k2. DES_1 key m k' = Some (text, k2) \<and> rows k2" if "rows k'" for k' using m(3) r [OF that] by (simp add: DES_1_def b c [OF that])
  moreover have "DES key text k = Some (m, setkeystar b k)" using m(1) by (simp add: DES_def b)
  ultimately show "\<exists>m k1. DES key text k = Some (m, k1) \<and> length m = 8 \<and> rows k1 \<and> (\<forall>k'. rows k' \<longrightarrow> (\<exists>k2. DES_1 key m k' = Some (text, k2) \<and> rows k2))"
    using m(2) r [OF assms(3)] by blast
  obtain m where m: "discrypt0 (setkeystar b k) text = Some m" "length m = 8" "encrypt0 (setkeystar b k) m = Some text"
    using crypt_ok(2) [OF assms(2)] by blast
  have "\<exists>k2. DES key m k' = Some (text, k2) \<and> rows k2" if "rows k'" for k' using m(3) r [OF that] by (simp add: DES_def b c [OF that])
  moreover have "DES_1 key text k = Some (m, setkeystar b k)" using m(1) by (simp add: DES_1_def b)
  ultimately show "\<exists>m k1. DES_1 key text k = Some (m, k1) \<and> length m = 8 \<and> rows k1 \<and> (\<forall>k'. rows k' \<longrightarrow> (\<exists>k2. DES key m k' = Some (text, k2) \<and> rows k2))"
    using m(2) r [OF assms(3)] by blast
qed

interpretation des_cipher: cipher DES DES_1 "\<lambda>key. 8 \<le> length key" "\<lambda>text. length text = 8" rows
  by unfold_locales (rule DES_ok; assumption)+

lemma triple_cipher:
  assumes "split_key key16 = Some (l, r)"
  shows "TripleDES key16 = des_cipher.ede l r" "TripleDES_1 key16 = des_cipher.ded l r"
  by (simp_all add: fun_eq_iff TripleDES_def TripleDES_1_def des_cipher.ede_def des_cipher.ded_def assms)

section \<open>Properties\<close>

text \<open>Property C38. DES decryption undoes encryption and encryption undoes decryption: for every key and every block of eight bytes, and
  whatever keys other calls have left in the static key schedule before and in between.\<close>

theorem des_roundtrip:
  assumes "8 \<le> length key" "length text = 8" "rows k" "rows k'"
  shows "(\<exists>m k1 k2. DES key text k = Some (m, k1) \<and> length m = 8 \<and> DES_1 key m k' = Some (text, k2)) \<and>
    (\<exists>m k1 k2. DES_1 key text k = Some (m, k1) \<and> length m = 8 \<and> DES key m k' = Some (text, k2))"
  using des_cipher.enc_dec [OF assms(1,2,3)] des_cipher.dec_enc [OF assms(1,2,3)] assms(4) by blast

theorem des_roundtrip_witness:
  "\<exists>m k1 k2. DES [0x13, 0x34, 0x57, 0x79, 0x9B, 0xBC, 0xDF, 0xF1] [0x01, 0x23, 0x45, 0x67, 0x89, 0xAB, 0xCD, 0xEF]
      \<lparr>C_rows = replicate 17 [], D_rows = replicate 17 [], K_rows = replicate 17 []\<rparr> = Some (m, k1) \<and> length m = 8 \<and>
    DES_1 [0x13, 0x34, 0x57, 0x79, 0x9B, 0xBC, 0xDF, 0xF1] m \<lparr>C_rows = replicate 17 [7], D_rows = replicate 17 [], K_rows = replicate 17 [9]\<rparr> =
      Some ([0x01, 0x23, 0x45, 0x67, 0x89, 0xAB, 0xCD, 0xEF], k2)"
  by (rule des_roundtrip [THEN conjunct1]) (simp_all add: rows_def)

text \<open>Triple DES with a key of sixteen bytes: decryption undoes encryption for every block of eight bytes, whatever keys
  other calls have left in the key schedule.\<close>

theorem triple_des_roundtrip:
  assumes "16 \<le> length key16" "length text = 8" "rows k" "rows k'"
  shows "\<exists>m k1 k2. TripleDES key16 text k = Some (m, k1) \<and> length m = 8 \<and> TripleDES_1 key16 m k' = Some (text, k2)"
proof -
  obtain l r where s: "split_key key16 = Some (l, r)" "8 \<le> length l" "8 \<le> length r" using assms(1) by (simp add: split_key_def)
  then show ?thesis using des_cipher.ede_ded [OF s(2,3) assms(2,3)] assms(4) unfolding triple_cipher [OF s(1)] by blast
qed

theorem triple_des_roundtrip_witness:
  "\<exists>m k1 k2. TripleDES [1, 2, 3, 4, 5, 6, 7, 8, 9, 10, 11, 12, 13, 14, 15, 16] [0, 1, 2, 3, 4, 5, 6, 7] \<lparr>C_rows = replicate 17 [], D_rows = replicate 17 [], K_rows = replicate 17 []\<rparr> = Some (m, k1) \<and>
    length m = 8 \<and> TripleDES_1 [1, 2, 3, 4, 5, 6, 7, 8, 9, 10, 11, 12, 13, 14, 15, 16] m \<lparr>C_rows = replicate 17 [], D_rows = replicate 17 [], K_rows = replicate 17 []\<rparr> = Some ([0, 1, 2, 3, 4, 5, 6, 7], k2)"
  by (rule triple_des_roundtrip) (simp_all add: rows_def)

end
