(* ===== verification/Base64.thy ===== *)
theory Base64
  imports Prelude
begin

text \<open>
  The base 64 coding \<open>CBase64\<close> (\<open>comserv/base64.C\<close>). Buffers are lists of bytes; an access outside a buffer, and the
  negative index a byte above 127 is as a \<open>char\<close>, is \<open>None\<close>. \<open>unsigned long\<close> counters that can wrap are words of 64
  bits, the others, which are bounded by the size of a buffer, are natural numbers.
\<close>

unbundle bit_operations_syntax

section \<open>Tables\<close>

definition g_pCodes :: "CHAR8 list" where
  "g_pCodes = [65, 66, 67, 68, 69, 70, 71, 72, 73, 74, 75, 76, 77, 78, 79, 80, 81, 82, 83, 84, 85, 86, 87, 88, 89, 90, 97, 98, 99, 100, 101, 102, 103, 104, 105, 106, 107, 108, 109, 110, 111, 112, 113, 114, 115, 116, 117, 118, 119, 120, 121, 122, 48, 49, 50, 51, 52, 53, 54, 55, 56, 57, 43, 47, 61]"

definition g_pMap :: "CHAR8 list" where
  "g_pMap =
    [255, 255, 255, 255, 255, 255, 255, 255, 255, 255, 255, 255, 255, 255, 255, 255, 255, 255, 255, 255, 255, 255, 255, 255,
     255, 255, 255, 255, 255, 255, 255, 255, 255, 255, 255, 255, 255, 255, 255, 255, 255, 255, 255, 62, 255, 255, 255, 63,
     52, 53, 54, 55, 56, 57, 58, 59, 60, 61, 255, 255, 255, 254, 255, 255, 255, 0, 1, 2, 3, 4, 5, 6,
     7, 8, 9, 10, 11, 12, 13, 14, 15, 16, 17, 18, 19, 20, 21, 22, 23, 24, 25, 255, 255, 255, 255, 255,
     255, 26, 27, 28, 29, 30, 31, 32, 33, 34, 35, 36, 37, 38, 39, 40, 41, 42, 43, 44, 45, 46, 47, 48,
     49, 50, 51, 255, 255, 255, 255, 255, 255, 255, 255, 255, 255, 255, 255, 255, 255, 255, 255, 255, 255, 255, 255, 255,
     255, 255, 255, 255, 255, 255, 255, 255, 255, 255, 255, 255, 255, 255, 255, 255, 255, 255, 255, 255, 255, 255, 255, 255,
     255, 255, 255, 255, 255, 255, 255, 255, 255, 255, 255, 255, 255, 255, 255, 255, 255, 255, 255, 255, 255, 255, 255, 255,
     255, 255, 255, 255, 255, 255, 255, 255, 255, 255, 255, 255, 255, 255, 255, 255, 255, 255, 255, 255, 255, 255, 255, 255,
     255, 255, 255, 255, 255, 255, 255, 255, 255, 255, 255, 255, 255, 255, 255, 255, 255, 255, 255, 255, 255, 255, 255, 255,
     255, 255, 255, 255, 255, 255, 255, 255, 255, 255, 255, 255, 255, 255, 255, 255]"

section \<open>Encoding\<close>

definition code_of :: "CHAR8 \<Rightarrow> CHAR8" where
  "code_of i = g_pCodes ! unat i"

definition enc3 :: "CHAR8 \<Rightarrow> CHAR8 \<Rightarrow> CHAR8 \<Rightarrow> CHAR8 list" where
  "enc3 a b c = [code_of (drop_bit 2 a), code_of (push_bit 4 (a AND 3) + drop_bit 4 b), code_of (push_bit 2 (b AND 0xF) + drop_bit 6 c), code_of (c AND 0x3F)]"

text \<open>The loop over whole groups, with the input that is left, appending to what has been written.\<close>

fun enc_loop :: "nat \<Rightarrow> CHAR8 list \<Rightarrow> CHAR8 list \<Rightarrow> (CHAR8 list \<times> CHAR8 list) option" where
  "enc_loop 0 pIn out = Some (pIn, out)"
| "enc_loop (Suc n) (a # b # c # pIn) out = enc_loop n pIn (out @ enc3 a b c)"
| "enc_loop (Suc n) _ out = None"

definition enc_tail :: "nat \<Rightarrow> CHAR8 list \<Rightarrow> CHAR8 list \<Rightarrow> CHAR8 list option" where
  "enc_tail rest pIn out = (if rest = 0 then Some out
     else (case pIn of [] \<Rightarrow> None | a # pIn' \<Rightarrow> do {
       b \<leftarrow> (if 1 < rest then (case pIn' of [] \<Rightarrow> None | b # _ \<Rightarrow> Some b) else Some 0);
       Some (out @ [code_of (drop_bit 2 a), code_of (push_bit 4 (a AND 3) + drop_bit 4 b),
         if 1 < rest then code_of (push_bit 2 (b AND 0xF) + drop_bit 6 0) else 61, 61]) }))"

text \<open>\<open>Encode\<close> into a \<open>string\<close>.\<close>

definition Encode_s :: "CHAR8 list \<Rightarrow> nat \<Rightarrow> CHAR8 list option" where
  "Encode_s pIn uInLen = do {
     let leven = 3 * (uInLen div 3);
     (pIn, out) \<leftarrow> enc_loop (uInLen div 3) pIn [];
     enc_tail (uInLen - leven) pIn out }"

text \<open>\<open>Encode\<close> into a buffer: the bytes and the terminator are written from its start.\<close>

definition Encode_b :: "CHAR8 list \<Rightarrow> nat \<Rightarrow> CHAR8 list option \<Rightarrow> nat \<Rightarrow> (bool \<times> CHAR8 list option \<times> nat) option" where
  "Encode_b pIn uInLen pOut uOutLen = (case pOut of None \<Rightarrow> Some (False, None, uOutLen) | Some buf \<Rightarrow>
     if uOutLen = 0 then Some (False, pOut, uOutLen)
     else if uOutLen < ((uInLen + 2) div 3) * 4 + 1 then Some (False, pOut, uOutLen)
     else do {
       s \<leftarrow> Encode_s pIn uInLen;
       if length s + 1 \<le> length buf then Some (True, Some (s @ [0] @ drop (length s + 1) buf), length s) else None })"

section \<open>Decoding\<close>

definition put :: "CHAR8 list \<Rightarrow> nat \<Rightarrow> CHAR8 \<Rightarrow> CHAR8 list option" where
  "put buf z v = (if z < length buf then Some (buf[z := v]) else None)"

text \<open>A group of four characters is complete.\<close>

definition flush :: "64 word \<Rightarrow> 64 word \<Rightarrow> CHAR8 list \<Rightarrow> nat \<Rightarrow> (CHAR8 list \<times> nat) option" where
  "flush g t pOut z = do {
     pOut \<leftarrow> put pOut z (ucast (drop_bit 16 t));
     let z = z + 1;
     (pOut, z) \<leftarrow> (if g > 1 then do { b \<leftarrow> put pOut z (ucast (drop_bit 8 t)); Some (b, z + 1) } else Some (pOut, z));
     if g > 2 then do { b \<leftarrow> put pOut z (ucast t); Some (b, z + 1) } else Some (pOut, z) }"

fun dec_loop :: "CHAR8 list \<Rightarrow> 64 word \<Rightarrow> nat \<Rightarrow> 64 word \<Rightarrow> nat \<Rightarrow> CHAR8 list \<Rightarrow> 64 word \<Rightarrow> (bool \<times> CHAR8 list \<times> nat) option" where
  "dec_loop [] t y g z pOut uOutLen = Some (True, pOut, z)"
| "dec_loop (s # strIn) t y g z pOut uOutLen = (if 128 \<le> s then None
     else (let c = g_pMap ! unat s in
       if c = 255 then dec_loop strIn t y g z pOut uOutLen
       else (let g = (if c = 254 then g - 1 else g); c = (if c = 254 then 0 else c); t = push_bit 6 t OR ucast c in
         if y + 1 = 4 then
           if word_of_nat z + g > uOutLen then Some (False, pOut, unat uOutLen)
           else do { (pOut, z) \<leftarrow> flush g t pOut z; dec_loop strIn 0 0 g z pOut uOutLen }
         else dec_loop strIn t (y + 1) g z pOut uOutLen)))"

definition Decode :: "CHAR8 list \<Rightarrow> CHAR8 list \<Rightarrow> 64 word \<Rightarrow> (bool \<times> CHAR8 list \<times> nat) option" where
  "Decode strIn pOut uOutLen = dec_loop strIn 0 0 3 0 pOut uOutLen"

end
