(* ===== verification/Base64Spec.thy ===== *)
theory Base64Spec
  imports Base64
begin

text \<open>Decoding what has been encoded gives it back, and a decoder that is given other text can write behind its buffer.\<close>

section \<open>The code\<close>

lemma table_inverse: "i < 64 \<Longrightarrow> g_pMap ! unat (g_pCodes ! i) = word_of_nat i \<and> g_pCodes ! i < 128"
proof -
  have "list_all (\<lambda>i. g_pMap ! unat (g_pCodes ! i) = word_of_nat i \<and> g_pCodes ! i < 128) [0..<64]" by code_simp
  then show "i < 64 \<Longrightarrow> ?thesis" by (simp add: list_all_iff)
qed

lemma six_bits: "take_bit 6 i = i \<Longrightarrow> unat i < 64" for i :: CHAR8
  using take_bit_nat_less_exp [of 6 "unat i"] by (simp add: unsigned_take_bit_eq [symmetric])

lemma code_ok: "take_bit 6 i = i \<Longrightarrow> g_pMap ! unat (code_of i) = i \<and> code_of i < 128 \<and> i \<noteq> 255 \<and> i \<noteq> 254"
  using table_inverse [OF six_bits] by (auto simp: code_of_def)

definition sextet1 :: "CHAR8 \<Rightarrow> CHAR8 \<Rightarrow> CHAR8" where
  "sextet1 a b = push_bit 4 (take_bit 2 a) OR drop_bit 4 b"

definition sextet2 :: "CHAR8 \<Rightarrow> CHAR8 \<Rightarrow> CHAR8" where
  "sextet2 b c = push_bit 2 (take_bit 4 b) OR drop_bit 6 c"

lemma low_bits: "a AND 3 = take_bit 2 a" "a AND 15 = take_bit 4 a" "a AND 63 = take_bit 6 a" for a :: CHAR8
  by (simp_all add: take_bit_eq_mask mask_eq_exp_minus_1)

lemma sextet1_eq: "push_bit 4 (a AND 3) + drop_bit 4 b = sextet1 a b" for a b :: CHAR8
  unfolding sextet1_def low_bits by (rule disjunctive_add) (auto simp: bit_simps dest: bit_imp_le_length)

lemma sextet2_eq: "push_bit 2 (b AND 15) + drop_bit 6 c = sextet2 b c" for b c :: CHAR8
  unfolding sextet2_def low_bits by (rule disjunctive_add) (auto simp: bit_simps dest: bit_imp_le_length)

lemma sextets_small: "take_bit 6 (drop_bit 2 a) = drop_bit 2 a" "take_bit 6 (sextet1 a b) = sextet1 a b" "take_bit 6 (sextet2 a b) = sextet2 a b" for a b :: CHAR8
  by (rule bit_word_eqI; auto simp: bit_simps sextet1_def sextet2_def dest: bit_imp_le_length)+

text \<open>The accumulator of four characters.\<close>

definition gather :: "CHAR8 \<Rightarrow> CHAR8 \<Rightarrow> CHAR8 \<Rightarrow> CHAR8 \<Rightarrow> 64 word" where
  "gather i j k l = push_bit 6 (push_bit 6 (push_bit 6 (push_bit 6 0 OR ucast i) OR ucast j) OR ucast k) OR ucast l"

lemma high_bits: "8 \<le> n \<Longrightarrow> \<not> bit b n" for b :: CHAR8
  using bit_imp_le_length [of b n] by auto

lemma bit_ucast64: "bit (ucast b :: 64 word) n = bit b n" for b :: CHAR8
  using bit_imp_le_length [of b n] by (auto simp: bit_simps)

lemma bit_gather: "n < 64 \<Longrightarrow> bit (gather i j k l) n \<longleftrightarrow> bit l n \<or> 6 \<le> n \<and> bit k (n - 6) \<or> 12 \<le> n \<and> bit j (n - 12) \<or> 18 \<le> n \<and> bit i (n - 18)"
  by (simp add: gather_def bit_or_iff bit_push_bit_iff bit_ucast64 diff_diff_add) linarith

lemma low_byte: "n < 8 \<Longrightarrow> m + n < 64 \<Longrightarrow> bit (ucast (drop_bit m t) :: CHAR8) n = bit t (m + n)" for t :: "64 word"
  by (simp add: bit_simps)

lemma byte_eqI: "(\<And>n. n \<in> {0, 1, 2, 3, 4, 5, 6, 7} \<Longrightarrow> bit a n = bit b n) \<Longrightarrow> a = b" for a b :: CHAR8
proof (rule bit_word_eqI)
  fix n
  assume h: "\<And>n. n \<in> {0, 1, 2, 3, 4, 5, 6, 7} \<Longrightarrow> bit a n = bit b n" and "n < LENGTH(8)"
  then have "n < 8" by simp
  then have "n \<in> {0, 1, 2, 3, 4, 5, 6, 7}" by (simp only: insert_iff) linarith
  then show "bit a n = bit b n" by (rule h)
qed

lemma sextet1_bit: "bit (sextet1 a b) n \<longleftrightarrow> n < 8 \<and> 4 \<le> n \<and> n < 6 \<and> bit a (n - 4) \<or> bit b (4 + n)"
  by (auto simp: sextet1_def bit_simps)

lemma sextet2_bit: "bit (sextet2 b c) n \<longleftrightarrow> n < 8 \<and> 2 \<le> n \<and> n < 6 \<and> bit b (n - 2) \<or> bit c (6 + n)"
  by (auto simp: sextet2_def bit_simps)

lemma gather_1: "ucast (drop_bit 16 (gather (drop_bit 2 a) (sextet1 a b) k l)) = a"
  by (rule byte_eqI) (auto simp: low_byte bit_gather sextet1_bit high_bits bit_drop_bit_eq)

lemma gather_2: "ucast (drop_bit 8 (gather i (sextet1 a b) (sextet2 b c) l)) = b"
  by (rule byte_eqI) (auto simp: low_byte bit_gather sextet1_bit sextet2_bit high_bits)

lemma gather_3: "ucast (gather i j (sextet2 b c) (take_bit 6 c)) = c"
  by (rule byte_eqI) (auto simp: low_byte [where m = 0, simplified] bit_gather sextet2_bit high_bits bit_take_bit_iff)

section \<open>Encoding\<close>

text \<open>The code as a function of the bytes.\<close>

fun b64 :: "CHAR8 list \<Rightarrow> CHAR8 list" where
  "b64 (a # b # c # r) = enc3 a b c @ b64 r"
| "b64 [a, b] = [code_of (drop_bit 2 a), code_of (sextet1 a b), code_of (sextet2 b 0), 61]"
| "b64 [a] = [code_of (drop_bit 2 a), code_of (sextet1 a 0), 61, 61]"
| "b64 [] = []"

lemma b64_length: "length (b64 bs) = 4 * ((length bs + 2) div 3)"
proof (induction bs rule: b64.induct)
  case (1 a b c r)
  have "(length (a # b # c # r) + 2) div 3 = Suc ((length r + 2) div 3)" by simp
  then show ?case using 1 by (simp add: enc3_def)
qed simp_all

lemma enc_loop_ok: "3 * n \<le> length pIn \<Longrightarrow> enc_loop n pIn out = Some (drop (3 * n) pIn, out @ b64 (take (3 * n) pIn))"
proof (induction n pIn out rule: enc_loop.induct)
  case (2 n a b c pIn out)
  then show ?case by (simp add: numeral_eq_Suc)
qed simp_all

lemma b64_append: "b64 (take (3 * n) bs @ r) = b64 (take (3 * n) bs) @ b64 r" if "3 * n \<le> length bs"
  using that
proof (induction n arbitrary: bs)
  case (Suc n)
  then obtain a b c bs' where "bs = a # b # c # bs'" by (auto simp: numeral_eq_Suc Suc_le_length_iff)
  then show ?case using Suc by (simp add: numeral_eq_Suc)
qed simp

lemma enc_tail_ok:
  assumes "rest < 3" "rest \<le> length pIn"
  shows "enc_tail rest pIn out = Some (out @ b64 (take rest pIn))"
proof -
  have "rest = 0 \<or> rest = 1 \<or> rest = 2" using assms(1) by linarith
  then show ?thesis using assms(2) unfolding enc_tail_def sextet1_eq sextet2_eq
    by (elim disjE) (auto simp: numeral_2_eq_2 Suc_le_length_iff)
qed

lemma encode_ok:
  assumes "n \<le> length pIn"
  shows "Encode_s pIn n = Some (b64 (take n pIn))"
proof -
  define q where "q = n div 3"
  have q: "3 * q \<le> n" "n - 3 * q < 3" by (simp_all add: q_def)
  have "take n pIn = take (3 * q) pIn @ take (n - 3 * q) (drop (3 * q) pIn)" using q(1) by (metis le_add_diff_inverse take_add)
  moreover have "3 * q \<le> length pIn" using q(1) assms by simp
  ultimately show ?thesis
    using q assms enc_tail_ok [of "n - 3 * q" "drop (3 * q) pIn"] by (simp add: Encode_s_def q_def [symmetric] enc_loop_ok b64_append)
qed

section \<open>Decoding\<close>

lemma dec_code:
  assumes "take_bit 6 i = i"
  shows "dec_loop (code_of i # s) t y g z pOut lim = (let t = push_bit 6 t OR ucast i in
    if y + 1 = 4 then
      if word_of_nat z + g > lim then Some (False, pOut, unat lim)
      else do { (pOut, z) \<leftarrow> flush g t pOut z; dec_loop s 0 0 g z pOut lim }
    else dec_loop s t (y + 1) g z pOut lim)"
proof -
  have c: "g_pMap ! unat (code_of i) = i" "\<not> 128 \<le> code_of i" "i \<noteq> 255" "i \<noteq> 254" using code_ok [OF assms] by (simp_all add: not_le)
  show ?thesis using c(3,4) by (simp add: c(1,2) Let_def)
qed

lemma dec_pad: "dec_loop (61 # s) t y g z pOut lim = (let t = push_bit 6 t OR ucast (0 :: CHAR8) in
    if y + 1 = 4 then
      if word_of_nat z + (g - 1) > lim then Some (False, pOut, unat lim)
      else do { (pOut, z) \<leftarrow> flush (g - 1) t pOut z; dec_loop s 0 0 (g - 1) z pOut lim }
    else dec_loop s t (y + 1) (g - 1) z pOut lim)"
proof -
  have "g_pMap ! 61 = 254" by code_simp
  then show ?thesis by (simp add: Let_def)
qed

lemma put_at: "put (d @ x # r) (length d) v = Some (d @ v # r)"
  by (simp add: put_def)

lemma lim_iff: "n < 2 ^ 64 \<Longrightarrow> lim < word_of_nat n \<longleftrightarrow> unat lim < n" for lim :: "64 word"
  by (simp add: word_less_nat_alt unat_of_nat)

lemma flush_3: "flush 3 t (d @ x # y # w # r) (length d) = Some (d @ ucast (drop_bit 16 t) # ucast (drop_bit 8 t) # ucast t # r, Suc (Suc (Suc (length d))))"
  using put_at [of d x "y # w # r"] put_at [of "d @ [v]" y "w # r" for v] put_at [of "d @ [v, u]" w r for v u] by (simp add: flush_def Let_def)

lemma flush_2: "flush 2 t (d @ x # y # r) (length d) = Some (d @ ucast (drop_bit 16 t) # ucast (drop_bit 8 t) # r, length d + 2)"
  using put_at [of d x "y # r"] put_at [of "d @ [v]" y r for v] by (simp add: flush_def Let_def)

lemma flush_1: "flush 1 t (d @ x # r) (length d) = Some (d @ ucast (drop_bit 16 t) # r, length d + 1)"
  using put_at [of d x r] by (simp add: flush_def Let_def)

text \<open>A group: three bytes, two bytes and one byte.\<close>

lemma dec_group3:
  "dec_loop (enc3 a b c @ s) 0 0 g z pOut lim = (if lim < word_of_nat z + g then Some (False, pOut, unat lim)
    else do { (pOut, z) \<leftarrow> flush g (gather (drop_bit 2 a) (sextet1 a b) (sextet2 b c) (take_bit 6 c)) pOut z; dec_loop s 0 0 g z pOut lim })"
  unfolding enc3_def sextet1_eq sextet2_eq low_bits(3) gather_def append_Cons append_Nil
  by (simp del: dec_loop.simps(2) add: dec_code sextets_small Let_def)

lemma dec_group2:
  "dec_loop (b64 [a, b]) 0 0 3 z pOut lim = (if lim < word_of_nat z + 2 then Some (False, pOut, unat lim)
    else do { (pOut, z) \<leftarrow> flush 2 (gather (drop_bit 2 a) (sextet1 a b) (sextet2 b 0) 0) pOut z; Some (True, pOut, z) })"
  unfolding gather_def b64.simps by (simp del: dec_loop.simps(2) add: dec_code dec_pad sextets_small Let_def)

lemma dec_group1:
  "dec_loop (b64 [a]) 0 0 3 z pOut lim = (if lim < word_of_nat z + 1 then Some (False, pOut, unat lim)
    else do { (pOut, z) \<leftarrow> flush 1 (gather (drop_bit 2 a) (sextet1 a 0) 0 0) pOut z; Some (True, pOut, z) })"
  unfolding gather_def b64.simps by (simp del: dec_loop.simps(2) add: dec_code dec_pad sextets_small Let_def)

lemma lim_add: "n + m < 2 ^ 64 \<Longrightarrow> lim < word_of_nat n + word_of_nat m \<longleftrightarrow> unat lim < n + m" for lim :: "64 word"
  using lim_iff [of "n + m" lim] by simp

lemma decode_ok:
  assumes "length bs \<le> length r" "length d + length bs \<le> unat lim"
  shows "dec_loop (b64 bs) 0 0 3 (length d) (d @ r) lim = Some (True, d @ bs @ drop (length bs) r, length d + length bs)"
proof -
  have big: "unat lim < 2 ^ 64" using unsigned_less [of lim, where 'a = nat] by simp
  show ?thesis using assms
  proof (induction bs arbitrary: d r rule: b64.induct)
    case (1 a b c bs)
    obtain x y w r' where r: "r = x # y # w # r'" using "1.prems"(1) by (auto simp: numeral_eq_Suc Suc_le_length_iff)
    have "\<not> lim < word_of_nat (length d) + 3" using lim_add [of "length d" 3 lim] "1.prems"(2) big by simp
    then show ?case using "1.IH" [of r' "d @ [a, b, c]"] "1.prems" r by (simp add: dec_group3 flush_3 gather_1 gather_2 gather_3 add.assoc)
  next
    case (2 a b)
    obtain x y r' where r: "r = x # y # r'" using "2.prems"(1) by (auto simp: numeral_eq_Suc Suc_le_length_iff)
    have "\<not> lim < word_of_nat (length d) + 2" using lim_add [of "length d" 2 lim] "2.prems"(2) big by simp
    then show ?case using r unfolding dec_group2 by (simp add: flush_2 gather_1 gather_2)
  next
    case (3 a)
    obtain x r' where r: "r = x # r'" using "3.prems"(1) by (auto simp: Suc_le_length_iff)
    have "\<not> lim < word_of_nat (length d) + 1" using lim_add [of "length d" 1 lim] "3.prems"(2) big by simp
    then show ?case using r unfolding dec_group1 by (simp add: flush_1 gather_1)
  qed simp
qed

lemma decode_small:
  assumes "unat lim < length d + length bs" "length d \<le> unat lim" "unat lim \<le> length d + length r" "length d + length bs < 2 ^ 64"
  shows "\<exists>p. dec_loop (b64 bs) 0 0 3 (length d) (d @ r) lim = Some (False, p, unat lim) \<and> length p = length d + length r"
  using assms
proof (induction bs arbitrary: d r rule: b64.induct)
  case (1 a b c bs)
  show ?case
  proof (cases "unat lim < length d + 3")
    case True
    then have "lim < word_of_nat (length d) + 3" using lim_add [of "length d" 3 lim] "1.prems"(4) by simp
    then show ?thesis by (simp add: dec_group3)
  next
    case False
    then have l: "\<not> lim < word_of_nat (length d) + 3" using lim_add [of "length d" 3 lim] "1.prems"(4) by simp
    have "3 \<le> length r" using False "1.prems"(3) by simp
    then obtain x y w r' where r: "r = x # y # w # r'" by (auto simp: numeral_eq_Suc Suc_le_length_iff)
    then show ?thesis using "1.IH" [of "d @ [a, b, c]" r'] "1.prems" l False by (simp add: dec_group3 flush_3 gather_1 gather_2 gather_3 add.assoc)
  qed
next
  case (2 a b)
  then have "lim < word_of_nat (length d) + 2" using lim_add [of "length d" 2 lim] by simp
  then show ?case unfolding dec_group2 by simp
next
  case (3 a)
  then have "lim < word_of_nat (length d) + 1" using lim_add [of "length d" 1 lim] by simp
  then show ?case unfolding dec_group1 by simp
qed simp

text \<open>Whole groups in front of other text.\<close>

lemma decode_groups:
  assumes "3 dvd length bs" "length bs \<le> length r" "length d + length bs \<le> unat lim"
  shows "dec_loop (b64 bs @ s) 0 0 3 (length d) (d @ r) lim = dec_loop s 0 0 3 (length d + length bs) (d @ bs @ drop (length bs) r) lim"
proof -
  have big: "unat lim < 2 ^ 64" using unsigned_less [of lim, where 'a = nat] by simp
  show ?thesis using assms
  proof (induction bs arbitrary: d r rule: b64.induct)
    case (1 a b c bs)
    obtain x y w r' where r: "r = x # y # w # r'" using "1.prems"(2) by (auto simp: numeral_eq_Suc Suc_le_length_iff)
    have "\<not> lim < word_of_nat (length d) + 3" using lim_add [of "length d" 3 lim] "1.prems"(3) big by simp
    moreover have "3 dvd length bs" using "1.prems"(1) by (simp add: dvd_eq_mod_eq_0)
    ultimately show ?case using "1.IH" [of r' "d @ [a, b, c]"] "1.prems"(2,3) r
      by (simp add: dec_group3 flush_3 gather_1 gather_2 gather_3 add.assoc)
  qed (simp_all add: dvd_eq_mod_eq_0 numeral_2_eq_2 [symmetric])
qed

text \<open>Four padding characters lower the number of bytes in a group to \<open>-1\<close>.\<close>

lemma dec_four_pads:
  "dec_loop (61 # 61 # 61 # 61 # s) 0 0 3 z pOut lim = (if lim < word_of_nat z - 1 then Some (False, pOut, unat lim)
    else do { (pOut, z) \<leftarrow> flush (- 1) 0 pOut z; dec_loop s 0 0 (- 1) z pOut lim })"
  by (simp del: dec_loop.simps(2) add: dec_pad Let_def)

text \<open>A group of three bytes behind a group with two padding characters.\<close>

lemma dec_group3_1:
  assumes "length d < unat lim"
  shows "dec_loop (enc3 a b c @ s) 0 0 1 (length d) (d @ x # r) lim = dec_loop s 0 0 1 (length (d @ [a])) ((d @ [a]) @ r) lim"
proof -
  have big: "unat lim < 2 ^ 64" using unsigned_less [of lim, where 'a = nat] by simp
  then have "\<not> lim < word_of_nat (length d) + 1" using lim_add [of "length d" 1 lim] assms by simp
  then show ?thesis by (simp add: dec_group3 flush_1 gather_1)
qed

lemma dec_groups_1:
  assumes "length ts \<le> length r" "length d + length ts \<le> unat lim"
  shows "dec_loop (concat (map (\<lambda>(a, b, c). enc3 a b c) ts)) 0 0 1 (length d) (d @ r) lim =
    Some (True, d @ map fst ts @ drop (length ts) r, length d + length ts)"
  using assms
proof (induction ts arbitrary: d r)
  case (Cons t ts)
  obtain a b c where t: "t = (a, b, c)" by (cases t) auto
  obtain x r' where r: "r = x # r'" using Cons.prems(1) by (cases r) auto
  have "length d < unat lim" using Cons.prems(2) by simp
  from dec_group3_1 [OF this, of a b c _ x r'] show ?case using Cons.IH [of r' "d @ [a]"] Cons.prems t r by simp
qed simp

section \<open>Properties\<close>

text \<open>Property C39. Decoding the text that bytes have been encoded to gives them back: the text has four characters per three bytes, and
  decoding it into a buffer that has room for the bytes stores them at its start, leaves the rest of it as it
  is and reports their number; when the size given is too small, it fails, and never writes outside the buffer.\<close>

theorem base64_roundtrip:
  assumes "n \<le> length pIn" "n < 2 ^ 64" "unat uOutLen \<le> length pOut"
  shows "\<exists>s. Encode_s pIn n = Some s \<and> length s = 4 * ((n + 2) div 3) \<and>
    (if n \<le> unat uOutLen then Decode s pOut uOutLen = Some (True, take n pIn @ drop n pOut, n)
     else \<exists>p. Decode s pOut uOutLen = Some (False, p, unat uOutLen) \<and> length p = length pOut)"
proof -
  have l: "length (take n pIn) = n" using assms(1) by simp
  have "Decode (b64 (take n pIn)) pOut uOutLen = Some (True, take n pIn @ drop n pOut, n)" if "n \<le> unat uOutLen"
    using decode_ok [of "take n pIn" pOut "[]" uOutLen, unfolded l] that assms(3) by (simp add: Decode_def)
  moreover have "\<exists>p. Decode (b64 (take n pIn)) pOut uOutLen = Some (False, p, unat uOutLen) \<and> length p = length pOut" if "\<not> n \<le> unat uOutLen"
    using decode_small [of uOutLen "[]" "take n pIn" pOut, unfolded l] that assms(2,3) by (simp add: Decode_def)
  ultimately show ?thesis using encode_ok [OF assms(1)] b64_length [of "take n pIn", unfolded l] by simp
qed

theorem base64_roundtrip_witness:
  "\<exists>s. Encode_s [77, 97, 110, 33, 7] 4 = Some s \<and> length s = 8 \<and> Decode s [1, 2, 3, 4, 5, 6] 5 = Some (True, [77, 97, 110, 33, 5, 6], 4)"
  using base64_roundtrip [of 4 "[77, 97, 110, 33, 7]" 5 "[1, 2, 3, 4, 5, 6]"] by simp

text \<open>The two functions \<open>Encode\<close> agree, and the one that writes into a buffer stays inside it.\<close>

theorem encode_buffer:
  assumes "n \<le> length pIn" "uOutLen \<le> length buf"
  shows "Encode_b pIn n (Some buf) uOutLen = Some (if uOutLen \<le> 4 * ((n + 2) div 3) then (False, Some buf, uOutLen)
    else (True, Some (b64 (take n pIn) @ 0 # drop (4 * ((n + 2) div 3) + 1) buf), 4 * ((n + 2) div 3)))"
proof -
  have "length (b64 (take n pIn)) = 4 * ((n + 2) div 3)" using assms(1) b64_length [of "take n pIn"] by simp
  then show ?thesis using assms by (simp add: Encode_b_def encode_ok mult.commute)
qed

text \<open>Property C40. Padding is not checked: each padding character lowers the number of bytes per group that
  is accounted for, also below zero. So for every text that encodes whole groups of bytes and fills a
  buffer of exactly the size given, four padding characters more pass the test of the size and are
  decoded behind the end of the buffer, whatever follows them; and of whole groups that follow a group with
  two padding characters only the first byte each is decoded, without an error.\<close>

theorem base64_padding_overflow:
  assumes "3 dvd length bs" "bs \<noteq> []" "length pOut = length bs" "unat uOutLen = length bs"
    and "length ts < length p" "length ts < unat n"
  shows "Decode (b64 bs @ [61, 61, 61, 61] @ s) pOut uOutLen = None \<and>
    Decode (b64 [x] @ concat (map (\<lambda>(a, b, c). b64 [a, b, c]) ts)) p n =
      Some (True, x # map fst ts @ drop (Suc (length ts)) p, Suc (length ts))"
proof
  have w: "word_of_nat (length bs) = uOutLen" by (simp flip: assms(4))
  have "uOutLen \<noteq> 0" using assms(2,4) by auto
  then have "unat (uOutLen - 1) = unat uOutLen - 1" by (rule unat_minus_one)
  then have le: "\<not> uOutLen < uOutLen - 1" by (simp add: word_less_nat_alt)
  have "Decode (b64 bs @ [61, 61, 61, 61] @ s) pOut uOutLen = dec_loop (61 # 61 # 61 # 61 # s) 0 0 3 (length bs) bs uOutLen"
    using decode_groups [of bs pOut "[]" uOutLen "[61, 61, 61, 61] @ s"] assms(1,3,4) by (simp add: Decode_def)
  also have "\<dots> = None" using le by (simp add: dec_four_pads w flush_def put_def del: dec_loop.simps)
  finally show "Decode (b64 bs @ [61, 61, 61, 61] @ s) pOut uOutLen = None" .
next
  obtain y p' where p: "p = y # p'" using assms(5) by (cases p) auto
  have "0 < unat n" using assms(6) by simp
  then have n: "\<not> n < 1" by (simp add: word_less_nat_alt)
  have "dec_loop (b64 [x] @ r) 0 0 3 0 p n = dec_loop r 0 0 1 1 (x # p') n" for r
    unfolding b64.simps p using n flush_1 [of _ "[]" y p'] gather_1 [of x 0 0 0]
    by (simp del: dec_loop.simps(2) add: dec_code dec_pad sextets_small Let_def gather_def)
  moreover have "concat (map (\<lambda>(a, b, c). b64 [a, b, c]) ts) = concat (map (\<lambda>(a, b, c). enc3 a b c) ts)" by simp
  ultimately show "Decode (b64 [x] @ concat (map (\<lambda>(a, b, c). b64 [a, b, c]) ts)) p n =
      Some (True, x # map fst ts @ drop (Suc (length ts)) p, Suc (length ts))"
    using dec_groups_1 [of ts p' "[x]" n] assms(5,6) p by (simp add: Decode_def)
qed

lemma three_dvd: "3 dvd length [a, b, c]"
  by (simp add: numeral_3_eq_3)

theorem base64_padding_overflow_witness:
  "Decode (b64 [77, 97, 110] @ [61, 61, 61, 61] @ [65]) [0, 0, 0] 3 = None \<and>
   Decode (b64 [65] @ concat (map (\<lambda>(a, b, c). b64 [a, b, c]) [(65, 66, 67)])) [0, 0, 0, 9] 4 = Some (True, [65, 65, 0, 9], 2)"
  using base64_padding_overflow [OF three_dvd [of 77 97 110], of "[0, 0, 0]" 3 "[(65, 66, 67)]" "[0, 0, 0, 9]" 4 "[65]" 65] by simp

end
