(* ===== verification/Cmd5.thy ===== *)
theory Cmd5
  imports Prelude
begin

text \<open>
  The digests \<open>CMD5\<close> (\<open>comserv/cmd5.C\<close>), as 16 bytes or as 32 hexadecimal digits. The function \<open>MD5\<close> of the
  cryptography library is an argument; what is used of it is that a digest has 16 bytes. Reading outside an argument
  is \<open>None\<close>.
\<close>

unbundle bit_operations_syntax

section \<open>Model\<close>

record CMD5 =
  m_ucDigest :: "CHAR8 list"
  m_hxDigest :: "CHAR8 list"

definition hex_char :: "CHAR8 \<Rightarrow> CHAR8" where
  "hex_char j = (if j \<le> 9 then j + 48 else j + 97 - 10)"

definition CvtHex :: "CHAR8 list \<Rightarrow> CHAR8 list" where
  "CvtHex Bin = concat (map (\<lambda>i. [hex_char (drop_bit 4 (Bin ! i) AND 0xF), hex_char (Bin ! i AND 0xF)]) [0..<16]) @ [0]"

definition GetDigest :: "(CHAR8 list \<Rightarrow> CHAR8 list) \<Rightarrow> CHAR8 list \<Rightarrow> int \<Rightarrow> int \<Rightarrow> CMD5 \<Rightarrow> (CHAR8 list \<times> CMD5) option" where
  "GetDigest MD5 pucText iLength typ m = (if iLength < 0 \<or> length pucText < nat iLength then None
     else (let m = m\<lparr>m_ucDigest := MD5 (take (nat iLength) pucText) @ [0]\<rparr> in
       if typ \<noteq> 0 then (let m = m\<lparr>m_hxDigest := CvtHex (m_ucDigest m)\<rparr> in Some (m_hxDigest m, m))
       else Some (m_ucDigest m, m)))"

text \<open>The comparison of the first \<open>j\<close> bytes.\<close>

fun same_bytes :: "nat \<Rightarrow> CHAR8 list \<Rightarrow> CHAR8 list \<Rightarrow> bool option" where
  "same_bytes 0 xs ys = Some True"
| "same_bytes (Suc j) (x # xs) (y # ys) = (if x \<noteq> y then Some False else same_bytes j xs ys)"
| "same_bytes (Suc j) _ _ = None"

definition CheckDigest :: "(CHAR8 list \<Rightarrow> CHAR8 list) \<Rightarrow> CHAR8 list \<Rightarrow> int \<Rightarrow> CHAR8 list \<Rightarrow> int \<Rightarrow> CMD5 \<Rightarrow> (bool \<times> CMD5) option" where
  "CheckDigest MD5 pucText iLength pucDigest typ m = do {
     (pucOutput, m) \<leftarrow> GetDigest MD5 pucText iLength typ m;
     b \<leftarrow> same_bytes (if typ \<noteq> 0 then 32 else 16) pucOutput pucDigest;
     Some (b, m) }"

section \<open>Digits\<close>

lemma same_bytes_ok: "j \<le> length xs \<Longrightarrow> j \<le> length ys \<Longrightarrow> same_bytes j xs ys = Some (take j xs = take j ys)"
  by (induction j xs ys rule: same_bytes.induct) auto

definition hex_byte :: "CHAR8 \<Rightarrow> CHAR8 list" where
  "hex_byte b = [hex_char (drop_bit 4 b AND 0xF), hex_char (b AND 0xF)]"

lemma hex_char_inj:
  assumes "unat j < 16" "unat k < 16" "hex_char j = hex_char k"
  shows "j = k"
proof -
  have "list_all (\<lambda>i. list_all (\<lambda>l. hex_char (word_of_nat i) = hex_char (word_of_nat l) \<longrightarrow> i = l) [0..<16]) [0..<16]" by code_simp
  then have "hex_char (word_of_nat (unat j)) = hex_char (word_of_nat (unat k)) \<longrightarrow> unat j = unat k" using assms(1,2) unfolding list_all_iff by simp
  then show ?thesis using assms(3) by (simp add: word_unat_eq_iff)
qed

lemma nibble: "unat (b AND 15) < 16" for b :: CHAR8
  using word_and_le2 [of 15 b] by (simp add: word_le_nat_alt and.commute)

lemma hex_byte_inj: "hex_byte a = hex_byte b \<Longrightarrow> a = b"
proof -
  assume "hex_byte a = hex_byte b"
  then have h: "drop_bit 4 a AND 15 = drop_bit 4 b AND 15" "a AND 15 = b AND 15"
    using hex_char_inj [OF nibble nibble] by (simp_all add: hex_byte_def)
  have m: "c AND 15 = take_bit 4 c" for c :: CHAR8 by (simp add: take_bit_eq_mask mask_eq_exp_minus_1)
  show ?thesis
  proof (rule bit_word_eqI)
    fix n :: nat
    assume "n < LENGTH(8)"
    then have n: "n < 4 \<or> n - 4 < 4 \<and> 4 + (n - 4) = n" by auto
    have "bit (take_bit 4 a) n = bit (take_bit 4 b) n" "bit (take_bit 4 (drop_bit 4 a)) (n - 4) = bit (take_bit 4 (drop_bit 4 b)) (n - 4)"
      using h unfolding m by simp_all
    then show "bit a n = bit b n" using n by (auto simp: bit_take_bit_iff bit_drop_bit_eq)
  qed
qed

lemma CvtHex_bytes:
  assumes "length ds = 16"
  shows "CvtHex (ds @ r) = concat (map hex_byte ds) @ [0]"
proof -
  have "map (\<lambda>i. hex_byte ((ds @ r) ! i)) [0..<16] = map hex_byte ds" using assms by (intro nth_equalityI) (simp_all add: nth_append)
  then show ?thesis by (simp add: CvtHex_def hex_byte_def [symmetric])
qed

lemma hex_length: "length (concat (map hex_byte ds)) = 2 * length ds"
  by (induction ds) (simp_all add: hex_byte_def)

lemma hex_inj: "concat (map hex_byte ds) = concat (map hex_byte es) \<Longrightarrow> ds = es"
proof (induction ds arbitrary: es)
  case Nil
  then show ?case by (cases es) (simp_all add: hex_byte_def)
next
  case (Cons d ds)
  have two: "length (hex_byte b) = length (hex_byte c)" for b c by (simp add: hex_byte_def)
  from Cons obtain e es' where e: "es = e # es'" by (cases es) (simp_all add: hex_byte_def)
  have "hex_byte d = hex_byte e" "concat (map hex_byte ds) = concat (map hex_byte es')" using Cons.prems two unfolding e by simp_all
  then show ?case using Cons.IH e hex_byte_inj by blast
qed

section \<open>Properties\<close>

text \<open>The check of a digest accepts the digest of the text and no other, in both forms: 16 bytes are accepted exactly when
  they are the digest, and the hexadecimal digits of 16 bytes exactly when the bytes are the digest.\<close>

theorem digest_check:
  assumes "\<And>t. length (MD5 t) = 16" "n \<le> length text" "length ds = 16"
  shows "(\<exists>m'. CheckDigest MD5 text (int n) ds 0 m = Some (MD5 (take n text) = ds, m')) \<and>
    (\<exists>m'. CheckDigest MD5 text (int n) (concat (map hex_byte ds)) 1 m = Some (MD5 (take n text) = ds, m'))"
proof -
  let ?d = "MD5 (take n text)"
  have l: "length ?d = 16" by (rule assms(1))
  have "same_bytes 16 (?d @ [0]) ds = Some (?d = ds)" using same_bytes_ok [of 16 "?d @ [0]" ds] l assms(3) by simp
  moreover have "same_bytes 32 (concat (map hex_byte ?d) @ [0]) (concat (map hex_byte ds)) = Some (?d = ds)"
    using same_bytes_ok [of 32 "concat (map hex_byte ?d) @ [0]" "concat (map hex_byte ds)"] hex_length [of ?d] hex_length [of ds] l assms(3) hex_inj by auto
  ultimately show ?thesis using assms(2) by (simp add: CheckDigest_def GetDigest_def CvtHex_bytes [OF l] Let_def)
qed

theorem digest_check_witness:
  "\<exists>m. CheckDigest (\<lambda>t. take 16 (t @ replicate 16 7)) [1, 2] 1 (1 # replicate 15 7) 0 \<lparr>m_ucDigest = [], m_hxDigest = []\<rparr> = Some (True, m)"
  using digest_check [of "\<lambda>t. take 16 (t @ replicate 16 7)" 1 "[1, 2]" "1 # replicate 15 7"] by (simp add: numeral_eq_Suc)

end
