(* ===== verification/FrameManager.thy ===== *)
theory FrameManager
  imports FrameControl
begin

text \<open>
  The main thread \<open>TFRAMEManager::Run\<close> (\<open>framemng.C\<close>): after start-up it takes the answers of the kernel from its
  queue and sends them to the watch tool, and turns the commands it receives from the tool into events for the kernel.
  The socket is an argument: the datagram that waits at it, if there is one. The queue of timers of the manager is never
  given a timer, so a pass waits for at most a second at the queue; a pass is described from the end of that wait.
  An access outside an array or vector is \<open>None\<close>.
\<close>

section \<open>Model\<close>

record TFRAMEManager =
  fm_fifo :: "TMsg fifo"
  fm_TransID :: UINT
  fm_AppInfo :: "CHAR8 list"

text \<open>What a pass sends: texts to the tool and messages to the kernel.\<close>

type_synonym fm_out = "CHAR8 list list \<times> TMsg list"

definition fm_start :: "TFRAMEManager \<Rightarrow> TMsg list \<times> TFRAMEManager" where
  "fm_start m = (let m = m\<lparr>fm_TransID := fm_TransID m + 1\<rparr> in
     ([Event (TEventMsg_new\<lparr>eventID := APP_INIT, ev_transID := fm_TransID m, ev_status := 0, ev_sender := \<lparr>taskType = 0, taskID = 0, instID = 0\<rparr>\<rparr>)], m))"

text \<open>The tokens \<open>strsep\<close> delivers; the loop drops the empty ones.\<close>

fun strsep_tokens :: "CHAR8 list \<Rightarrow> CHAR8 list \<Rightarrow> CHAR8 list list" where
  "strsep_tokens cur [] = [cur]"
| "strsep_tokens cur (c # cs) = (if blank c then cur # strsep_tokens [] cs else strsep_tokens (cur @ [c]) cs)"

definition command_words :: "CHAR8 list \<Rightarrow> CHAR8 list list" where
  "command_words bs = filter (\<lambda>t. t \<noteq> []) (strsep_tokens [] (cstr bs))"

fun join_words :: "CHAR8 list list \<Rightarrow> CHAR8 list" where
  "join_words [] = []"
| "join_words [w] = w"
| "join_words (w # v # ws) = w @ 32 # join_words (v # ws)"

definition command_event :: "UINT \<Rightarrow> CHAR8 list \<Rightarrow> TEventMsg option" where
  "command_event transid bs = (case command_words bs of
       typ # task # inst # args \<Rightarrow> Some (TEventMsg_new\<lparr>ev_sender := \<lparr>taskType = objtype_Kernal, taskID = 0, instID = 0\<rparr>,
         ev_transID := transid, ev_status := 0, eventInfo := join_words args,
         eventID := (if atoi typ = 0 then APP_RELOAD else APP_STATUES), ev_taskID := atoi task, ev_instID := atoi inst\<rparr>)
     | _ \<Rightarrow> None)"

definition fm_command :: "CHAR8 list \<Rightarrow> TFRAMEManager \<Rightarrow> TFRAMEManager option" where
  "fm_command bs m = do {
     e \<leftarrow> command_event (fm_TransID m + 1) bs;
     Some (m\<lparr>fm_TransID := fm_TransID m + 1, fm_fifo := fifo_add (Event e) (fm_fifo m)\<rparr>) }"

text \<open>\<open>sendCode\<close> refuses an empty text; any other goes to the sender of the last datagram.\<close>

definition sendCode :: "CHAR8 list \<Rightarrow> CHAR8 list list" where
  "sendCode content = (if length content \<le> 0 then [] else [content])"

text \<open>A response of the kernel or of a task: only those to a reload and to a status request are sent to
  the tool, the others are logged or ignored.\<close>

definition fm_response :: "TEventMsg \<Rightarrow> CHAR8 list list" where
  "fm_response e = (
     if eventID e = APP_RELOAD then
       sendCode (lit ''taskid: '' @ uint_text (taskID (ev_sender e)) @ lit '', instid: '' @ uint_text (instID (ev_sender e)) @
        (if ev_status e = 1 then lit '' env reload ok'' else lit '' env reload failed'') @ eventInfo e)
     else if eventID e = APP_STATUES then sendCode (cstr (eventInfo e))
     else [])"

definition fm_request :: "CHAR8 list \<Rightarrow> TEventMsg \<Rightarrow> fm_out option" where
  "fm_request appinfo e = do {
     (_, scmd) \<leftarrow> split_ws (replicate 5 CStr_new) (strobj (eventInfo e));
     Some (if eventID e = APP_STATUES \<and> cstr (buf (scmd ! 0)) = lit ''sclist'' then (sendCode (cstr appinfo), []) else ([], [Event e])) }"

definition fm_handle :: "CHAR8 list \<Rightarrow> TMsg \<Rightarrow> fm_out option" where
  "fm_handle appinfo msg = (case msg of
       Event e \<Rightarrow> (if ev_status e = 0 then fm_request appinfo e
         else if sint (ev_status e) > 0 then Some (fm_response e, [])
         else Some ([], []))
     | _ \<Rightarrow> Some ([], []))"

definition fm_pass :: "CHAR8 list option \<Rightarrow> TFRAMEManager \<Rightarrow> (fm_out \<times> TFRAMEManager) option" where
  "fm_pass d m = do {
     let (r, q) = getNext_ms_try 0 0 (fm_fifo m);
     let m = m\<lparr>fm_fifo := q\<rparr>;
     out \<leftarrow> (case r of Got msg \<Rightarrow> fm_handle (fm_AppInfo m) msg | Nothing \<Rightarrow> Some ([], []) | _ \<Rightarrow> None);
     m \<leftarrow> (case d of Some bs \<Rightarrow> (if bs \<noteq> [] then fm_command bs m else Some m) | None \<Rightarrow> Some m);
     Some (out, m) }"

section \<open>Splitting plain words\<close>

definition plain :: "CHAR8 list \<Rightarrow> bool" where
  "plain w = (w \<noteq> [] \<and> (\<forall>c \<in> set w. c \<noteq> 39 \<and> c \<noteq> 92 \<and> c \<noteq> 0 \<and> \<not> blank c))"

lemma split_plain:
  assumes "\<forall>c \<in> set w. c \<noteq> 39 \<and> c \<noteq> 92 \<and> \<not> blank c" "tail = [] \<or> blank (hd tail)"
  shows "\<exists>s'. split_word False (w @ tail) s = Some (s', False, tail) \<and> buf s' = buf s @ w"
  using assms
proof (induction w arbitrary: s)
  case Nil
  then show ?case by (cases tail) auto
next
  case (Cons c w)
  obtain s1 where s1: "append_c c s = Some s1" "buf s1 = buf s @ [c]" using append_c_ok [of c s] by (auto simp: upd_def)
  obtain s' where "split_word False (w @ tail) s1 = Some (s', False, tail)" "buf s' = buf s1 @ w" using Cons by fastforce
  then show ?case using Cons.prems s1 by (auto simp: after_escape_def)
qed

lemma join_Cons: "join_words (w # ws) = w @ (if ws = [] then [] else 32 # join_words ws)"
  by (cases ws) simp_all

lemma join_start: "list_all plain ws \<Longrightarrow> dropWhile blank (join_words ws) = join_words ws"
  by (cases ws) (auto simp: join_Cons plain_def neq_Nil_conv dropWhile_append)

lemma split_step:
  assumes "list_all plain (w # ws)" "dropWhile blank bs = join_words (w # ws)" "k < length as"
  shows "\<exists>s tail. split_ws_loop (Suc n) False bs k as = split_ws_loop n False tail (k + 1) (as[k := s]) \<and>
    buf s = buf (as ! k) @ w \<and> dropWhile blank tail = join_words ws"
proof -
  define tail where "tail = (if ws = [] then [] else 32 # join_words ws)"
  have r: "tail = [] \<or> blank (hd tail)" "dropWhile blank tail = join_words ws" using join_start [of ws] assms(1) by (simp_all add: tail_def blank_def)
  obtain s where s: "split_word False (w @ tail) (as ! k) = Some (s, False, tail)" "buf s = buf (as ! k) @ w"
    using split_plain [OF _ r(1), of w] assms(1) by (auto simp: plain_def)
  obtain c w' where w: "w = c # w'" using assms(1) by (auto simp: plain_def neq_Nil_conv)
  have "dropWhile blank bs = c # w' @ tail" using assms(2) by (simp add: join_Cons tail_def w)
  then show ?thesis using s r(2) assms(3) w by (intro exI [of _ s] exI [of _ tail]) simp
qed

lemma split_fits:
  assumes "list_all plain ws" "dropWhile blank bs = join_words ws" "k + length ws \<le> length as" "length ws < n"
  shows "\<exists>as'. split_ws_loop n False bs k as = Some (k + length ws, as') \<and> (\<forall>i < k. as' ! i = as ! i) \<and>
    (ws \<noteq> [] \<longrightarrow> buf (as' ! k) = buf (as ! k) @ hd ws)"
  using assms
proof (induction ws arbitrary: bs k as n)
  case Nil
  then show ?case by (cases n) (simp_all del: dropWhile_eq_Nil_conv)
next
  case (Cons w ws)
  obtain j where n: "n = Suc j" using Cons.prems(4) by (cases n) auto
  obtain s tail where s: "split_ws_loop n False bs k as = split_ws_loop j False tail (k + 1) (as[k := s])" "buf s = buf (as ! k) @ w"
    "dropWhile blank tail = join_words ws" using split_step [OF Cons.prems(1,2), of k as j] Cons.prems(3) n by auto
  obtain as' where a: "split_ws_loop j False tail (k + 1) (as[k := s]) = Some (k + 1 + length ws, as')"
    "\<forall>i < k + 1. as' ! i = as[k := s] ! i" using Cons.IH [OF _ s(3), of "k + 1" "as[k := s]" j] Cons.prems n by auto
  then show ?case using s Cons.prems(3) by (intro exI [of _ as']) auto
qed

lemma split_overruns:
  assumes "list_all plain ws" "dropWhile blank bs = join_words ws" "k \<le> length as" "length as < k + length ws" "length as - k < n"
  shows "split_ws_loop n False bs k as = None"
  using assms
proof (induction ws arbitrary: bs k as n)
  case (Cons w ws)
  obtain j where n: "n = Suc j" using Cons.prems(5) by (cases n) auto
  show ?case
  proof (cases "k = length as")
    case True
    obtain c w' where "w = c # w'" using Cons.prems(1) by (auto simp: plain_def neq_Nil_conv)
    then show ?thesis using Cons.prems(2) n True by (simp add: join_Cons)
  next
    case False
    obtain s tail where s: "split_ws_loop n False bs k as = split_ws_loop j False tail (k + 1) (as[k := s])"
      "dropWhile blank tail = join_words ws" using split_step [OF Cons.prems(1,2), of k as j] False Cons.prems(3) n by auto
    show ?thesis unfolding s(1) by (rule Cons.IH [OF _ s(2)]) (use Cons.prems False n in auto)
  qed
qed simp

section \<open>Sequences of passes\<close>

text \<open>Another thread puts a message into the queue of the manager, or the manager makes a pass.\<close>

datatype fm_step = FmPost TMsg | FmPass "CHAR8 list option"

fun fm_run :: "fm_step list \<Rightarrow> TFRAMEManager \<Rightarrow> (fm_out \<times> TFRAMEManager) option" where
  "fm_run [] m = Some (([], []), m)"
| "fm_run (FmPost msg # ss) m = fm_run ss (m\<lparr>fm_fifo := fifo_add msg (fm_fifo m)\<rparr>)"
| "fm_run (FmPass d # ss) m = do {
     ((o1, k1), m) \<leftarrow> fm_pass d m;
     ((o2, k2), m) \<leftarrow> fm_run ss m;
     Some ((o1 @ o2, k1 @ k2), m) }"

text \<open>What enters the queue, and what is to be done with it.\<close>

fun fm_arrivals :: "UINT \<Rightarrow> fm_step list \<Rightarrow> TMsg list" where
  "fm_arrivals t [] = []"
| "fm_arrivals t (FmPost msg # ss) = msg # fm_arrivals t ss"
| "fm_arrivals t (FmPass d # ss) = (case d of
       Some bs \<Rightarrow> (if bs = [] then fm_arrivals t ss else Event (the (command_event (t + 1) bs)) # fm_arrivals (t + 1) ss)
     | None \<Rightarrow> fm_arrivals t ss)"

definition direct_request :: "TEventMsg \<Rightarrow> bool" where
  "direct_request e = (eventID e = APP_STATUES \<and> (\<exists>ws. list_all plain ws \<and> eventInfo e = join_words (lit ''sclist'' # ws)))"

definition to_tool :: "CHAR8 list \<Rightarrow> TMsg \<Rightarrow> CHAR8 list list" where
  "to_tool appinfo msg = (case msg of
       Event e \<Rightarrow> (if ev_status e = 0 then (if direct_request e then sendCode (cstr appinfo) else []) else if sint (ev_status e) > 0 then fm_response e else [])
     | _ \<Rightarrow> [])"

definition to_kernel :: "TMsg \<Rightarrow> TMsg list" where
  "to_kernel msg = (case msg of Event e \<Rightarrow> (if ev_status e = 0 \<and> \<not> direct_request e then [msg] else []) | _ \<Rightarrow> [])"

text \<open>Requests with at most five words, without quotes.\<close>

definition short_request :: "TMsg \<Rightarrow> bool" where
  "short_request msg = (case msg of
       Event e \<Rightarrow> ev_status e = 0 \<longrightarrow> (\<exists>ws. list_all plain ws \<and> length ws \<le> 5 \<and> eventInfo e = join_words ws)
     | _ \<Rightarrow> True)"

definition fm_step_ok :: "fm_step \<Rightarrow> bool" where
  "fm_step_ok s = (case s of FmPost msg \<Rightarrow> short_request msg
     | FmPass (Some bs) \<Rightarrow> bs = [] \<or> 3 \<le> length (command_words bs) \<and> length (command_words bs) \<le> 8 \<and> list_all plain (command_words bs)
     | FmPass None \<Rightarrow> True)"

lemma plain_cstr: "plain w \<Longrightarrow> cstr w = w"
  by (auto simp: plain_def cstr_def takeWhile_eq_all_conv)

lemma join_cstr: "list_all plain ws \<Longrightarrow> cstr (join_words ws) = join_words ws"
  by (induction ws rule: join_words.induct) (auto simp: plain_cstr cstr_def plain_def takeWhile_append takeWhile_eq_all_conv)

lemma join_inj: "list_all plain (w # ws) \<Longrightarrow> list_all plain (v # vs) \<Longrightarrow> join_words (w # ws) = join_words (v # vs) \<Longrightarrow> w = v"
proof -
  have t: "takeWhile (\<lambda>c. \<not> blank c) (join_words (u # us)) = u" if "list_all plain (u # us)" for u us
    using that by (auto simp: join_Cons plain_def takeWhile_append takeWhile_eq_all_conv blank_def)
  show "list_all plain (w # ws) \<Longrightarrow> list_all plain (v # vs) \<Longrightarrow> join_words (w # ws) = join_words (v # vs) \<Longrightarrow> w = v"
    using t [of w ws] t [of v vs] by simp
qed

lemma sclist_plain: "plain (lit ''sclist'')"
  by code_simp

lemma request_ok:
  assumes "list_all plain ws" "length ws \<le> 5" "eventInfo e = join_words ws"
  shows "fm_request appinfo e = Some (if direct_request e then (sendCode (cstr appinfo), []) else ([], [Event e]))"
proof -
  have d: "dropWhile blank (join_words ws) = join_words ws" by (rule join_start [OF assms(1)])
  obtain as where as: "split_ws_loop 20 False (join_words ws) 0 (replicate 5 CStr_new) = Some (length ws, as)" "ws \<noteq> [] \<longrightarrow> buf (as ! 0) = hd ws"
    "ws = [] \<longrightarrow> as = replicate 5 CStr_new"
    using split_fits [OF assms(1) d, of 0 "replicate 5 CStr_new" 20] assms(2) by (cases "ws = []") (auto simp: CStr_new_def numeral_eq_Suc)
  have "cstr (buf (as ! 0)) = lit ''sclist'' \<longleftrightarrow> (\<exists>vs. list_all plain vs \<and> join_words ws = join_words (lit ''sclist'' # vs))"
  proof (cases ws)
    case Nil
    have "buf (as ! 0) = []" using as(3) Nil by (simp add: CStr_new_def)
    moreover have "lit ''sclist'' \<noteq> []" using sclist_plain by (simp add: plain_def)
    ultimately show ?thesis using Nil by (simp add: cstr_def join_Cons)
  next
    case (Cons w us)
    then have "cstr (buf (as ! 0)) = w" using as(2) assms(1) plain_cstr by simp
    then show ?thesis using join_inj [of w us "lit ''sclist''"] assms(1) Cons sclist_plain by auto
  qed
  then show ?thesis using as(1) join_cstr [OF assms(1)] by (simp add: fm_request_def split_ws_def strobj_def assms(3) direct_request_def)
qed

lemma handle_ok: "short_request msg \<Longrightarrow> fm_handle appinfo msg = Some (to_tool appinfo msg, to_kernel msg)"
  using request_ok by (auto simp: short_request_def fm_handle_def to_tool_def to_kernel_def split: TMsg.splits)

lemma command_event_ok:
  assumes "3 \<le> length (command_words bs)" "length (command_words bs) \<le> 8" "list_all plain (command_words bs)"
  shows "\<exists>e. command_event t bs = Some e \<and> short_request (Event e)"
proof -
  obtain x y z args where w: "command_words bs = x # y # z # args" using assms(1) by (auto simp: numeral_eq_Suc Suc_le_length_iff)
  then have "list_all plain args \<and> length args \<le> 5" using assms(2,3) by simp
  then show ?thesis by (auto simp: command_event_def w short_request_def)
qed

lemma next_ok:
  assumes "counted q" "length (mFifo q) < 2 ^ 64"
  shows "\<exists>q'. getNext_ms_try 0 0 q = ((case mFifo q of [] \<Rightarrow> Nothing | x # _ \<Rightarrow> Got x), q') \<and> counted q' \<and> mFifo q' = drop 1 (mFifo q)"
proof (cases rule: take_front_ok [OF assms])
  case 1
  then show ?thesis using assms(1) by (simp add: getNext_ms_try_def)
next
  case (2 x xs q')
  then show ?thesis by (simp add: getNext_ms_try_def)
qed

text \<open>A pass handles the first message of the queue, if there is one, and adds the command it has received.\<close>

definition fm_inv :: "nat \<Rightarrow> TFRAMEManager \<Rightarrow> bool" where
  "fm_inv n m = (counted (fm_fifo m) \<and> length (mFifo (fm_fifo m)) + n < 2 ^ 64 \<and> (\<forall>msg \<in> set (mFifo (fm_fifo m)). short_request msg))"

lemma receive_ok:
  assumes "counted (fm_fifo m)" "fm_step_ok (FmPass d)"
  shows "\<exists>m' as. (case d of Some bs \<Rightarrow> (if bs \<noteq> [] then fm_command bs m else Some m) | None \<Rightarrow> Some m) = Some m' \<and>
    mFifo (fm_fifo m') = mFifo (fm_fifo m) @ as \<and> counted (fm_fifo m') \<and> fm_AppInfo m' = fm_AppInfo m \<and> (\<forall>msg \<in> set as. short_request msg) \<and> length as \<le> 1 \<and>
    (\<forall>ss. fm_arrivals (fm_TransID m) (FmPass d # ss) = as @ fm_arrivals (fm_TransID m') ss)"
proof (cases "d = None \<or> d = Some []")
  case True
  then show ?thesis using assms(1) by (intro exI [of _ m] exI [of _ "[]"]) auto
next
  case False
  then obtain bs where bs: "d = Some bs" "bs \<noteq> []" by (cases d) auto
  obtain e where e: "command_event (fm_TransID m + 1) bs = Some e" "short_request (Event e)" using command_event_ok assms(2) bs by (fastforce simp: fm_step_ok_def)
  then show ?thesis using bs assms(1)
    by (intro exI [of _ "m\<lparr>fm_TransID := fm_TransID m + 1, fm_fifo := fifo_add (Event e) (fm_fifo m)\<rparr>"] exI [of _ "[Event e]"])
      (simp add: fm_command_def fifo_add_def push_def counted_def)
qed

lemma pass_ok:
  assumes "fm_inv (Suc n) m" "fm_step_ok (FmPass d)"
  shows "\<exists>m' hs. fm_pass d m = Some ((concat (map (to_tool (fm_AppInfo m)) hs), concat (map to_kernel hs)), m') \<and> fm_inv n m' \<and> fm_AppInfo m' = fm_AppInfo m \<and>
    (\<forall>ss. hs @ mFifo (fm_fifo m') @ fm_arrivals (fm_TransID m') ss = mFifo (fm_fifo m) @ fm_arrivals (fm_TransID m) (FmPass d # ss))"
proof -
  let ?q = "mFifo (fm_fifo m)"
  obtain q' where q: "getNext_ms_try 0 0 (fm_fifo m) = ((case ?q of [] \<Rightarrow> Nothing | x # _ \<Rightarrow> Got x), q')" "counted q'" "mFifo q' = drop 1 ?q"
    using next_ok [of "fm_fifo m"] assms(1) by (auto simp: fm_inv_def)
  define m1 where "m1 = m\<lparr>fm_fifo := q'\<rparr>"
  have "counted (fm_fifo m1)" using q(2) by (simp add: m1_def)
  from receive_ok [OF this assms(2)] obtain m' as where m': "(case d of Some bs \<Rightarrow> (if bs \<noteq> [] then fm_command bs m1 else Some m1) | None \<Rightarrow> Some m1) = Some m'"
    "mFifo (fm_fifo m') = mFifo (fm_fifo m1) @ as" "counted (fm_fifo m')" "fm_AppInfo m' = fm_AppInfo m1" "\<forall>msg \<in> set as. short_request msg" "length as \<le> 1"
    "\<forall>ss. fm_arrivals (fm_TransID m1) (FmPass d # ss) = as @ fm_arrivals (fm_TransID m') ss" by blast
  have h: "(case (case ?q of [] \<Rightarrow> Nothing | x # _ \<Rightarrow> Got x) of Got msg \<Rightarrow> fm_handle (fm_AppInfo m1) msg | Nothing \<Rightarrow> Some ([], []) | _ \<Rightarrow> None) =
      Some (concat (map (to_tool (fm_AppInfo m)) (take 1 ?q)), concat (map to_kernel (take 1 ?q)))"
    using assms(1) handle_ok by (cases ?q) (simp_all add: fm_inv_def m1_def)
  have "fm_pass d m = Some ((concat (map (to_tool (fm_AppInfo m)) (take 1 ?q)), concat (map to_kernel (take 1 ?q))), m')"
    using h m'(1) by (simp add: fm_pass_def q(1) m1_def [symmetric])
  moreover have "fm_inv n m'" using assms(1) m'(2,3,5,6) q(3) set_drop_subset [of 1 ?q] unfolding fm_inv_def m1_def by (auto simp: Ball_def)
  moreover have "take 1 ?q @ mFifo (fm_fifo m') @ fm_arrivals (fm_TransID m') ss = ?q @ fm_arrivals (fm_TransID m) (FmPass d # ss)" for ss
    using m'(2,7) q(3) by (simp add: m1_def)
  ultimately show ?thesis using m'(4) by (intro exI [of _ m'] exI [of _ "take 1 ?q"]) (simp add: m1_def)
qed

lemma fm_run_ok:
  assumes "fm_inv (length ss) m" "\<forall>s \<in> set ss. fm_step_ok s"
  shows "\<exists>m' hs. fm_run ss m = Some ((concat (map (to_tool (fm_AppInfo m)) hs), concat (map to_kernel hs)), m') \<and>
    hs @ mFifo (fm_fifo m') = mFifo (fm_fifo m) @ fm_arrivals (fm_TransID m) ss"
  using assms
proof (induction ss arbitrary: m)
  case (Cons s ss)
  show ?case
  proof (cases s)
    case (FmPost msg)
    define m1 where "m1 = m\<lparr>fm_fifo := fifo_add msg (fm_fifo m)\<rparr>"
    have "fm_inv (length ss) m1" using Cons.prems FmPost by (auto simp: m1_def fm_inv_def fifo_add_def push_def counted_def fm_step_ok_def)
    from Cons.IH [OF this] Cons.prems(2) show ?thesis unfolding FmPost by (auto simp: m1_def fifo_add_def push_def)
  next
    case (FmPass d)
    obtain m1 hs1 where p: "fm_pass d m = Some ((concat (map (to_tool (fm_AppInfo m)) hs1), concat (map to_kernel hs1)), m1)" "fm_inv (length ss) m1"
      "fm_AppInfo m1 = fm_AppInfo m" "\<forall>ss. hs1 @ mFifo (fm_fifo m1) @ fm_arrivals (fm_TransID m1) ss = mFifo (fm_fifo m) @ fm_arrivals (fm_TransID m) (FmPass d # ss)"
      using pass_ok [of "length ss" m d] Cons.prems FmPass by auto
    obtain m' hs2 where r: "fm_run ss m1 = Some ((concat (map (to_tool (fm_AppInfo m1)) hs2), concat (map to_kernel hs2)), m')"
      "hs2 @ mFifo (fm_fifo m') = mFifo (fm_fifo m1) @ fm_arrivals (fm_TransID m1) ss" using Cons.IH [OF p(2)] Cons.prems(2) by auto
    have "fm_run (s # ss) m = Some ((concat (map (to_tool (fm_AppInfo m)) (hs1 @ hs2)), concat (map to_kernel (hs1 @ hs2))), m')"
      using p(1,3) r(1) FmPass by simp
    moreover have "(hs1 @ hs2) @ mFifo (fm_fifo m') = mFifo (fm_fifo m) @ fm_arrivals (fm_TransID m) (s # ss)" using r(2) p(4) FmPass by (metis append.assoc)
    ultimately show ?thesis by blast
  qed
qed simp

section \<open>Properties\<close>

text \<open>Property C29. The manager handles the messages of its queue and the commands it receives one after the
  other: for any sequence of messages put into its queue and of passes with or without a command, every
  message and command is handled exactly once and in the order of arrival, or is still in the queue. A
  command becomes a request with the next transaction number; a request goes to the kernel, unless it asks
  for the list of the application, which is answered at once. Of the answers those to a reload and to a
  status request are sent to the tool, unless their text is empty; those to an initialisation, a heart beat
  and a shutdown are dropped. This holds for commands of three to eight words and for requests of at most
  five words in the queue, in both cases without quotes, backslashes and zero bytes in the words (\<open>plain\<close>):
  other texts can overrun (the next property, and \<open>split_quoted_end_overruns\<close> of \<open>CStrSpec\<close>).\<close>

theorem manager_in_order:
  assumes "counted (fm_fifo m)" "length (mFifo (fm_fifo m)) + length ss < 2 ^ 64" "\<forall>msg \<in> set (mFifo (fm_fifo m)). short_request msg"
    "\<forall>s \<in> set ss. fm_step_ok s"
  shows "\<exists>m' hs. fm_run ss m = Some ((concat (map (to_tool (fm_AppInfo m)) hs), concat (map to_kernel hs)), m') \<and>
    hs @ mFifo (fm_fifo m') = mFifo (fm_fifo m) @ fm_arrivals (fm_TransID m) ss"
  using fm_run_ok [of ss m] assms by (simp add: fm_inv_def)

theorem manager_in_order_witness:
  "\<exists>m' hs. fm_run [FmPass (Some [49, 32, 55, 32, 48, 32, 97]), FmPass None] \<lparr>fm_fifo = Fifo_new, fm_TransID = 1, fm_AppInfo = [98]\<rparr> =
      Some ((concat (map (to_tool [98]) hs), concat (map to_kernel hs)), m') \<and>
    hs @ mFifo (fm_fifo m') = [Event (TEventMsg_new\<lparr>ev_sender := \<lparr>taskType = 3, taskID = 0, instID = 0\<rparr>, ev_transID := 2, eventID := APP_STATUES,
      ev_taskID := 7, eventInfo := [97]\<rparr>)]"
proof -
  let ?d = "[49, 32, 55, 32, 48, 32, 97] :: CHAR8 list" and ?m = "\<lparr>fm_fifo = Fifo_new, fm_TransID = 1, fm_AppInfo = [98]\<rparr>"
  have w: "command_words ?d = [[49], [55], [48], [97]]" by (simp add: command_words_def cstr_def blank_def)
  have v: "atoi [49] = 1" "atoi [55] = 7" "atoi [48] = 0" by code_simp+
  have "\<forall>s \<in> set [FmPass (Some ?d), FmPass None]. fm_step_ok s" by (simp add: fm_step_ok_def w plain_def blank_def)
  from manager_in_order [of ?m, OF _ _ _ this] show ?thesis
    by (simp add: Fifo_new_def AbstractFifo_new_def counted_def command_event_def w v TEventMsg_new_def)
qed

text \<open>Property C30. Commands are not checked. A datagram with one or two words makes the manager read behind the end of its list of words; a
  command with more than five words behind the first three is put into the queue, and when the manager takes it
  out, it splits it into an array of five strings and writes behind its end.\<close>

theorem command_overruns:
  assumes "bs \<noteq> []" "fm_fifo m = Fifo_new"
  shows "(length (command_words bs) < 3 \<longrightarrow> fm_pass (Some bs) m = None) \<and>
    (8 < length (command_words bs) \<and> list_all plain (command_words bs) \<longrightarrow>
      (\<exists>out m'. fm_pass (Some bs) m = Some (out, m') \<and> fm_pass d m' = None))"
proof (intro conjI impI)
  have g: "getNext_ms_try 0 0 (fm_fifo m) = (Nothing, fm_fifo m)" by (simp add: assms(2) Fifo_new_def AbstractFifo_new_def getNext_ms_try_def)
  then have p: "fm_pass (Some bs) m = map_option (\<lambda>m'. (([], []), m')) (fm_command bs m)"
    using assms(1) by (cases "fm_command bs m") (simp_all add: fm_pass_def)
  show "fm_pass (Some bs) m = None" if "length (command_words bs) < 3"
    using that by (auto simp: p fm_command_def command_event_def split: list.splits)
  assume w: "8 < length (command_words bs) \<and> list_all plain (command_words bs)"
  then have "3 \<le> length (command_words bs)" by simp
  then obtain x y z args where c: "command_words bs = x # y # z # args" by (auto simp: numeral_eq_Suc Suc_le_length_iff)
  have a: "list_all plain args" "5 < length args" using w c by simp_all
  obtain e where e: "command_event (fm_TransID m + 1) bs = Some e" "ev_status e = 0" "eventInfo e = join_words args" by (simp add: command_event_def c)
  have "split_ws (replicate 5 CStr_new) (strobj (eventInfo e)) = None"
    using split_overruns [OF a(1) join_start [OF a(1)], of 0 "replicate 5 CStr_new" 20] a(2) join_cstr [OF a(1)] by (simp add: split_ws_def strobj_def e(3))
  then have h: "fm_handle ai (Event e) = None" for ai by (simp add: fm_handle_def fm_request_def e(2))
  define m' where "m' = m\<lparr>fm_TransID := fm_TransID m + 1, fm_fifo := fifo_add (Event e) (fm_fifo m)\<rparr>"
  have "getNext_ms_try 0 0 (fm_fifo m') = (Got (Event e), Fifo_new)"
    by (simp add: m'_def assms(2) Fifo_new_def AbstractFifo_new_def fifo_add_def push_def getNext_ms_try_def take_front_def)
  then have "fm_pass d m' = None" by (simp add: fm_pass_def h)
  then show "\<exists>out m'. fm_pass (Some bs) m = Some (out, m') \<and> fm_pass d m' = None" by (simp add: p fm_command_def e(1) m'_def [symmetric])
qed

theorem command_overruns_witness: "fm_pass (Some [49, 32, 55]) \<lparr>fm_fifo = Fifo_new, fm_TransID = 1, fm_AppInfo = []\<rparr> = None"
  using command_overruns [of "[49, 32, 55]" "\<lparr>fm_fifo = Fifo_new, fm_TransID = 1, fm_AppInfo = []\<rparr>"] by (simp add: command_words_def cstr_def blank_def)

end
