(* ===== verification/Spec2Isabelle.thy ===== *)
theory Spec2Isabelle
  imports CListSpec ExpireBufferSpec HashTableSpec CVector CStrSpec MessagesSpec FifoSpec TimersSpec TransactionSpec TaskContainerSpec SystemSpec UdpTransportSpec RWMutex TBuffer
    OfCounter DesSpec Base64Spec Cmd5 FrameManager
begin

text \<open>
  A verification of \<open>xframe\<close>, the communication framework under \<open>src/xframe\<close>.

  \<^bold>\<open>The program.\<close> An application is a set of tasks (\<open>TAbstractTask\<close>). Each runs in one or more
  containers (\<open>TTaskContainer\<close>), one thread per container, which take messages from their own queue
  (\<open>Fifo\<close>) and fire their own timers (\<open>TaskTimerQueue\<close>). A task sends to other tasks through the kernel
  thread (\<open>TFRAMEControl\<close>), whose selector (\<open>TTaskSelector\<close>) chooses an instance of the receiving task
  by load, follows dialogs, or copies the message to many containers. \<open>TFRAMEManager::Init\<close> builds all of
  this from the configuration. The transport layer (\<open>TTransMachine\<close>, \<open>TTransport\<close>) repeats requests and
  suppresses duplicates between hosts. Below all of them are the structures of \<open>comserv\<close>: lists, hash
  tables, expiring buffers, arrays, strings, queues, buffers, locks, flow control and codecs; and the message formats
  of \<open>msg\<close>.

  \<^bold>\<open>Conventions.\<close> An operation that may touch freed or unallocated memory, fail an assertion, or run off the
  end of a function whose result is used is an \<open>option\<close>, with \<open>None\<close> for undefined behaviour. Heap objects
  live in maps from addresses; machine integers are words of their width where wrap-around can be observed. Clock
  readings, the configuration, the functions a task class overrides, what \<open>waitCount()\<close> delivers (it has no
  return statement), what a socket delivers and accepts, the MD5 digest, and the port of an address
  whose text has none (it is not initialised) are arguments. Copies between overlapping memory, reads of a
  value that was never set, and \<open>NULL\<close> where the code follows a pointer are \<open>None\<close> as well. A section under a mutex is one step; a wait on a
  condition is a state of the waiting thread. Loops are structural recursions, or carry a termination proof;
  \<open>replace\<close> of \<open>CStr\<close>, which may not return, has the value \<open>None\<close> then.

  \<^bold>\<open>Theories and sources.\<close>
  \<^item> \<open>Prelude\<close>: types, collections of rewrite rules, shared lemmas. \<open>Interfaces\<close>: the locales
    \<open>kv_store\<close> (interpreted by the hash table), \<open>codec\<close> (integers, strings, addresses),
    \<open>expiring_store\<close> (the expiring buffer), \<open>cursor_ring\<close> and \<open>fifo_list\<close> (both the list).
  \<^item> \<open>NodeStore\<close>, \<open>CList\<close>, \<open>CListSpec\<close>: \<open>include/comserv/clist.h\<close> on a heap of nodes. Every sequence of
    calls behaves as a list with a cursor, never touches freed memory, never reads the unset value of the tag
    node and never leaks; which calls would read it, and which report success without a value.
  \<^item> \<open>ExpireBuffer\<close>, \<open>ExpireBufferSpec\<close>: \<open>include/comserv/cexpirebuffer.h\<close>. A keyed list in refresh order;
    \<open>pop_old\<close>, which reads the clock once per iteration, removes exactly the expired entries as long as the
    refresh times are in order, and not otherwise; the limit holds; no leak.
  \<^item> \<open>HashTable\<close>, \<open>HashTableSpec\<close>: \<open>include/comserv/unihashtable.h\<close>. An association list in insertion
    order through collisions and rehashing; enumeration; the load bound.
  \<^item> \<open>CVector\<close>: \<open>include/comserv/cvector.h\<close>, a client of \<open>kv_store\<close>: a list with a number of valid elements.
  \<^item> \<open>CStr\<close>, \<open>CStrSpec\<close>: the string class of \<open>comserv/comtypedef_vchar.C\<close>. No call on texts of at most
    \<open>2 ^ 28\<close> bytes overflows the buffer or an \<open>int\<close> computed for it; for most texts \<open>trim\<close> copies overlapping memory;
    the wire form, URI escapes and \<open>split\<close> can be read back; \<open>replace\<close> returns exactly for a non-empty
    pattern.
  \<^item> \<open>Messages\<close>, \<open>MessagesSpec\<close>: \<open>msg/msg.*\<close>, \<open>msgdatadef.*\<close>, \<open>msgdef.*\<close>, \<open>msgdef_com.*\<close>,
    \<open>msghelper_com.*\<close>. Encoded messages are read back and fit the announced size; responses answer
    their requests; addresses and URIs in text.
  \<^item> \<open>Fifo\<close>, \<open>FifoSpec\<close>: \<open>comserv/fifo*.h\<close> and \<open>fifoabstract.C\<close>. Delivery in order under every
    interleaving of threads; no lost wake-up; bounds of the bounded queues.
  \<^item> \<open>Timers\<close>, \<open>TimersSpec\<close>: \<open>kernel/timer.*\<close>, \<open>kernel/timerqueue.*\<close>. Timers fire exactly when due, in
    order, and never after they are stopped.
  \<^item> \<open>Transaction\<close>, \<open>TransactionSpec\<close>: \<open>transport/transstate.*\<close>, \<open>transport/transport.*\<close>. At most one
    request and one response are forwarded per transaction, by one transaction and by the machine; the machine
    is a list of independent transactions, keyed by C strings as \<open>strcmp\<close> compares them; who releases the parameter
    of a timer (the machine and the message both do), and what the destructor leaks; resending, expiry; the queue
    loop.
  \<^item> \<open>TaskContainer\<close>, \<open>TaskContainerSpec\<close>: \<open>task/abstracttask.*\<close>, \<open>task/taskcontainer.*\<close>,
    \<open>task/psacontainer.*\<close>. A container hands every task its messages and timeouts in order; every
    addressed task answers an event once, and the container itself a reload with a \<open>set\<close> command.
  \<^item> \<open>TaskSelector\<close>, \<open>TaskSelectorSpec\<close>, \<open>DispatchSpec\<close>: \<open>kernel/taskselector.*\<close>. The invariant \<open>sel_inv\<close>
    types every pointer of the tables and state objects and every call keeps it; \<open>getTask\<close> is the
    search for the first available instance; sessions; one, many or all receivers.
  \<^item> \<open>FrameControl\<close>, \<open>RegistrationSpec\<close>, \<open>KernelSpec\<close>: \<open>kernel/framectrl.*\<close> and the start-up of
    \<open>framemng.C\<close>. What start-up registers, and what one pass of \<open>mainLoop\<close> puts into which queue.
  \<^item> \<open>FrameManager\<close>: the loop of \<open>TFRAMEManager::Run\<close>. Commands, requests and answers are handled in order, for
    words without quotes and backslashes; which answers are sent to the tool; what commands that are too short or too
    long do.
  \<^item> \<open>UdpTransport\<close>, \<open>UdpTransportSpec\<close>: \<open>transport/transportudp.*\<close>. What is queued at one transport arrives at
    another in order and unchanged, within the limits of the socket buffer; what happens beyond them. The port
    of a target without one is the argument \<open>p0\<close>.
  \<^item> \<open>TBuffer\<close>: \<open>include/comserv/unibuffer.h\<close>. A ring buffer is a bounded queue of bytes for every master that makes
    progress, and repeats bytes for one that does not.
  \<^item> \<open>RWMutex\<close>: \<open>comserv/threadmutexRW.*\<close>. Writers exclude everybody, and no wake-up is lost.
  \<^item> \<open>OfCounter\<close>: \<open>comserv/ofcounter.*\<close>. How many requests of a second pass under a positive limit, and the slow
    start after an overload.
  \<^item> \<open>Des\<close>, \<open>DesSpec\<close>: \<open>comserv/des.C\<close>. Decryption undoes encryption; the locale \<open>cipher\<close> gives triple DES from
    DES.
  \<^item> \<open>Base64\<close>, \<open>Base64Spec\<close>: \<open>comserv/base64.C\<close>. Decoding undoes encoding and stays inside the buffer; too much
    padding behind any full text makes it write behind the buffer.
  \<^item> \<open>Cmd5\<close>: \<open>comserv/cmd5.C\<close>. The check of a digest accepts the digest only, in both forms.
  \<^item> \<open>SystemSpec\<close>: the kernel thread and all container threads, interleaved step by step from the start of
    the framework, and the properties that span the components.

  \<^bold>\<open>Bounds.\<close> Configurations have at most 4094 threads, because \<open>Init\<close> exits when a container identifier
  passes \<open>__MAX_TASKCONTAINERID\<close>. Runs have fewer than \<open>2 ^ 32\<close> steps, so that the counters of queues, timer keys
  and lists do not wrap. Loads are below \<open>2 ^ 20\<close> (\<open>wc_ok\<close>), so that the sum over the instances of a task fits
  in 32 bits. Strings on the wire are shorter than \<open>2 ^ 31\<close>; texts that are edited are at most
  \<open>2 ^ 28\<close> bytes, because escaping multiplies their length by up to six in an \<open>int\<close>. Counters and limits of
  the flow control are integers within \<open>int\<close>: fewer than \<open>2 ^ 31\<close> requests in a second, and six fifths of a limit
  below \<open>2 ^ 31\<close>. A UDP transport takes at most ten datagrams per call.

  \<^bold>\<open>Not modelled.\<close> Third-party code (\<open>_3pty\<close>, \<open>tinyxml\<close>, \<open>json\<close>, the regular expressions); sockets and the
  descriptor sets of the PSA tasks (system calls); the database clients; threads, mutexes and conditions, which are
  the steps of the model; configuration files and logging, whose values are arguments; the conversion of character
  sets by the C library; the resource and event message classes, which repeat the pattern of \<open>msgdef_com\<close>;
  \<open>mptask.C\<close>, which does not match its header; destructors
  of containers, selector and frame control, which run only when the process ends.

  \<^bold>\<open>Further work.\<close> The frame manager as a third kind of thread of the interleaved system; the resource messages.
\<close>

end
